(* ===== verification/Prelude.thy ===== *)
theory Prelude
  imports "HOL-Library.Word" "HOL-Library.AList"
begin

unbundle bit_operations_syntax

text \<open>
  Shared vocabulary of the development: bytes and C integer conversions, the faults
  a C++ operation may run into (every place where the code would abort or leave
  defined behaviour is a branch of the model), bounds-checked access to byte
  buffers, and the list lemmas the component theories use.
\<close>

section \<open>Types\<close>

type_synonym byte = "8 word"
type_synonym u32 = "32 word"

text \<open>A pointer is an address or null.\<close>

type_synonym ptr = "nat option"

text \<open>
  What can go wrong while a C++ function runs: a failed \<open>assert\<close>, a read or write
  outside an allocation, a dereference of null, of freed memory, or of an object
  that was never initialised, \<open>abort\<close> from the out-of-memory handler, signed
  arithmetic outside the range of its type, an exception that no handler catches (the runtime then
  calls \<open>std::terminate\<close>), and a loop
  that used up the inputs it was given without finishing.
\<close>

datatype fault =
    Assert_failed
  | Out_of_bounds
  | Null_deref
  | Use_after_free
  | Uninit_read
  | Oom_abort
  | Signed_overflow
  | Uncaught_exception
  | Not_finished

type_synonym 'a res = "fault + 'a"

definition res_bind :: "'a res \<Rightarrow> ('a \<Rightarrow> 'b res) \<Rightarrow> 'b res" where
  "res_bind m f = (case m of Inl e \<Rightarrow> Inl e | Inr x \<Rightarrow> f x)"

section \<open>C integer conversions\<close>

text \<open>
  \<open>int\<close> is 32 bits and two's complement, \<open>size_t\<close> and \<open>unsigned long\<close> are 64 bits
  (the x86-64 Linux target of the build files). A C value is kept as a HOL \<open>int\<close>;
  every conversion or arithmetic step that may leave its range is written with one
  of these functions.
\<close>

definition i32 :: "int \<Rightarrow> int" where
  "i32 x = signed_take_bit 31 x"

definition usz :: "int \<Rightarrow> int" where
  "usz x = take_bit 64 x"

definition in_i32 :: "int \<Rightarrow> bool" where
  "in_i32 x \<longleftrightarrow> - 2147483648 \<le> x \<and> x < 2147483648"

named_theorems c_int_simps \<open>conversions that are the identity in range\<close>

lemma i32_id [c_int_simps]: "- 2147483648 \<le> x \<Longrightarrow> x < 2147483648 \<Longrightarrow> i32 x = x"
  by (simp add: i32_def signed_take_bit_int_eq_self_iff)

lemma usz_id [c_int_simps]: "0 \<le> x \<Longrightarrow> x < 18446744073709551616 \<Longrightarrow> usz x = x"
  by (simp add: usz_def take_bit_int_eq_self_iff)

lemma i32_range: "- 2147483648 \<le> i32 x" "i32 x < 2147483648"
  using signed_take_bit_int_greater_eq_minus_exp [of 31 x] signed_take_bit_int_less_exp [of 31 x]
  by (simp_all add: i32_def)

lemma usz_range: "0 \<le> usz x" "usz x < 18446744073709551616"
  using take_bit_int_less_exp [of 64 x] by (simp_all add: usz_def)

lemma i32_i32_add [simp]: "i32 (i32 x + y) = i32 (x + y)" "i32 (x + i32 y) = i32 (x + y)"
  unfolding i32_def
  using signed_take_bit_add [of 31 "signed_take_bit 31 x" y] signed_take_bit_add [of 31 x y]
    signed_take_bit_add [of 31 x "signed_take_bit 31 y"]
  by simp_all

lemma unat_byte_bound: "unat (c :: byte) < 256"
proof -
  have "unat c < 2 ^ LENGTH(8)" by (rule unsigned_less)
  then show ?thesis by simp
qed

lemma unat_digit: "unat (48 + word_of_nat (v mod 10) :: byte) = 48 + v mod 10"
proof -
  have "v mod 10 < 10" by simp
  then show ?thesis by (simp add: unat_word_ariths unat_of_nat take_bit_nat_eq_self)
qed

section \<open>Bounds-checked byte buffers\<close>

definition overwrite :: "nat \<Rightarrow> 'a list \<Rightarrow> 'a list \<Rightarrow> 'a list" where
  "overwrite i bs buf = take i buf @ bs @ drop (i + length bs) buf"

definition mem_write :: "nat \<Rightarrow> 'a list \<Rightarrow> 'a list \<Rightarrow> 'a list res" where
  "mem_write i bs buf =
     (if i + length bs \<le> length buf then Inr (overwrite i bs buf) else Inl Out_of_bounds)"

definition mem_read :: "nat \<Rightarrow> nat \<Rightarrow> 'a list \<Rightarrow> 'a list res" where
  "mem_read i n buf =
     (if i + n \<le> length buf then Inr (take n (drop i buf)) else Inl Out_of_bounds)"

named_theorems buf_simps \<open>reads and writes of buffers\<close>

lemma res_bind_simps [simp]:
  "res_bind (Inl e) f = Inl e"
  "res_bind (Inr x) f = f x"
  by (simp_all add: res_bind_def)

lemma res_bind_Inr_iff: "res_bind m f = Inr y \<longleftrightarrow> (\<exists>x. m = Inr x \<and> f x = Inr y)"
  by (cases m) simp_all

lemma length_overwrite [simp]:
  "i + length bs \<le> length buf \<Longrightarrow> length (overwrite i bs buf) = length buf"
  by (simp add: overwrite_def)

lemma take_overwrite_before [buf_simps]:
  "n \<le> i \<Longrightarrow> i \<le> length buf \<Longrightarrow> take n (overwrite i bs buf) = take n buf"
  by (simp add: overwrite_def)

lemma take_overwrite_upto [buf_simps]:
  "i \<le> length buf \<Longrightarrow> take (i + length bs) (overwrite i bs buf) = take i buf @ bs"
  by (simp add: overwrite_def)

lemma nth_overwrite_at [simp]: "i < length buf \<Longrightarrow> overwrite i [x] buf ! i = x"
  by (simp add: overwrite_def nth_append)

lemma take_overwrite_at [simp]: "i < length buf \<Longrightarrow> take i (overwrite i [x] buf) = take i buf"
  by (simp add: overwrite_def)

lemma overwrite_take [simp]: "overwrite 0 (take n buf) buf = buf"
  by (simp add: overwrite_def min_def)

lemma overwrite_Nil [simp]: "overwrite i [] buf = buf"
  by (simp add: overwrite_def)

lemma mem_write_ok [simp]:
  "i + length bs \<le> length buf \<Longrightarrow> mem_write i bs buf = Inr (overwrite i bs buf)"
  by (simp add: mem_write_def)

lemma mem_read_ok [simp]:
  "i + n \<le> length buf \<Longrightarrow> mem_read i n buf = Inr (take n (drop i buf))"
  by (simp add: mem_read_def)

section \<open>Comparing memory\<close>

text \<open>The sign of \<open>memcmp(a, b, n)\<close>, the only part of its result the standard fixes.\<close>

fun c_memcmp :: "byte list \<Rightarrow> byte list \<Rightarrow> int" where
  "c_memcmp (a # as) (b # bs) = (if a < b then -1 else if b < a then 1 else c_memcmp as bs)"
| "c_memcmp _ _ = 0"

lemma c_memcmp_lexord:
  "length as = length bs \<Longrightarrow> c_memcmp as bs = 0 \<longleftrightarrow> as = bs"
  "length as = length bs \<Longrightarrow> c_memcmp as bs < 0 \<longleftrightarrow> (as, bs) \<in> lexord {(x, y). x < y}"
  by (induction as bs rule: list_induct2) auto

lemma lexord_common_prefix:
  fixes as bs :: "byte list"
  assumes "length as = length bs"
  shows "(as @ as2, bs @ bs2) \<in> lexord {(x, y). x < y} \<longleftrightarrow>
    (as, bs) \<in> lexord {(x, y). x < y} \<or> (as = bs \<and> (as2, bs2) \<in> lexord {(x, y). x < y})"
  using assms by (induction as bs rule: list_induct2) auto

text \<open>Two byte strings compare as their common prefix does, and by length if that is equal.\<close>

lemma memcmp_prefix_order:
  fixes v w :: "byte list"
  defines "c \<equiv> c_memcmp (take (min (length v) (length w)) v) (take (min (length v) (length w)) w)"
  shows "c = 0 \<and> length v = length w \<longleftrightarrow> v = w"
    and "c < 0 \<or> c = 0 \<and> length v < length w \<longleftrightarrow> (v, w) \<in> lexord {(x, y). x < y}"
proof -
  let ?k = "min (length v) (length w)"
  have len: "length (take ?k v) = length (take ?k w)" by simp
  note cmp = c_memcmp_lexord [OF len] lexord_common_prefix [OF len, of "drop ?k v" "drop ?k w"]
  show "c = 0 \<and> length v = length w \<longleftrightarrow> v = w"
    using cmp(1) by (auto simp: c_def)
  have "(drop ?k v, drop ?k w) \<in> lexord {(x, y). x < y} \<longleftrightarrow> length v < length w"
    by (cases "length v < length w") (auto simp: lexord_Nil_left min_def neq_Nil_conv [symmetric])
  with cmp show "c < 0 \<or> c = 0 \<and> length v < length w \<longleftrightarrow> (v, w) \<in> lexord {(x, y). x < y}"
    by (auto simp: c_def)
qed

section \<open>Little-endian integers\<close>

fun le_bytes :: "nat \<Rightarrow> nat \<Rightarrow> byte list" where
  "le_bytes 0 v = []"
| "le_bytes (Suc n) v = word_of_nat (v mod 256) # le_bytes n (v div 256)"

fun le_nat :: "byte list \<Rightarrow> nat" where
  "le_nat [] = 0"
| "le_nat (b # bs) = unat b + 256 * le_nat bs"

lemma length_le_bytes [simp]: "length (le_bytes n v) = n"
  by (induction n arbitrary: v) simp_all

lemma le_nat_le_bytes: "le_nat (le_bytes n v) = v mod 256 ^ n"
proof (induction n arbitrary: v)
  case (Suc n)
  have "unat (word_of_nat (v mod 256) :: byte) = v mod 256"
    by (simp add: unat_of_nat take_bit_nat_eq_self)
  with Suc show ?case by (simp add: mod_mult2_eq)
qed simp

lemma le_nat_bound: "le_nat bs < 256 ^ length bs"
proof (induction bs)
  case (Cons b bs)
  have "unat b \<le> 255" using unat_byte_bound [of b] by simp
  with Cons show ?case by simp
qed simp

lemma le_bytes_le_nat: "le_bytes (length bs) (le_nat bs) = bs"
proof (induction bs)
  case (Cons b bs)
  have "(unat b + 256 * le_nat bs) mod 256 = unat b" "(unat b + 256 * le_nat bs) div 256 = le_nat bs"
    using unat_byte_bound [of b] by simp_all
  with Cons show ?case by simp
qed simp

section \<open>Allocation\<close>

text \<open>\<open>new\<close> as a function of the heap: it returns an address that is free.\<close>

definition fresh_alloc :: "((nat \<rightharpoonup> 'v) \<Rightarrow> nat) \<Rightarrow> bool" where
  "fresh_alloc al \<longleftrightarrow> (\<forall>h. finite (dom h) \<longrightarrow> h (al h) = None)"

text \<open>An allocator that does so.\<close>

definition next_address :: "(nat \<rightharpoonup> 'v) \<Rightarrow> nat" where
  "next_address h = Suc (Max (insert 0 (dom h)))"

lemma fresh_next_address: "fresh_alloc (next_address :: (nat \<rightharpoonup> 'v) \<Rightarrow> nat)"
proof -
  have "h (Suc (Max (insert 0 (dom h)))) = None" if "finite (dom h)" for h :: "nat \<rightharpoonup> 'v"
    using that Max_ge [of "insert 0 (dom h)" "Suc (Max (insert 0 (dom h)))"] by fastforce
  then show ?thesis by (simp add: fresh_alloc_def next_address_def)
qed

end
