(* ===== verification/Socket.thy ===== *)
theory Socket
  imports Prelude
begin

text \<open>
  The socket helpers \<open>src/xrtcserver/rtcserver/src/base/socket.cpp\<close>. The kernel is the
  environment: the outcome of each system call a function makes is an argument. The open
  descriptors of the process are a list, so that a descriptor that is neither returned nor
  closed stays visible.
\<close>

section \<open>System calls\<close>

text \<open>A call returns \<open>-1\<close> with an error number, or a result that is not negative.\<close>

datatype 'a sysret = Fail int | Ok 'a

definition EINTR :: int where "EINTR = 4"
definition EAGAIN :: int where "EAGAIN = 11"
definition EEXIST :: int where "EEXIST = 17"
definition O_NONBLOCK :: int where "O_NONBLOCK = 2048"

record sockaddr_in =
  sin_port :: "16 word"
  sin_addr :: "byte list"

text \<open>\<open>htons\<close> and \<open>ntohs\<close> swap the two bytes on the little-endian target.\<close>

definition ntohs :: "16 word \<Rightarrow> 16 word" where
  "ntohs w = push_bit 8 (take_bit 8 w) OR drop_bit 8 w"

text \<open>\<open>inet_ntoa\<close>: the four bytes in decimal, with dots.\<close>

definition dec_byte :: "byte \<Rightarrow> byte list" where
  "dec_byte b =
     (let n = unat b; d = (\<lambda>k. 48 + word_of_nat (k mod 10))
      in if n < 10 then [d n] else if n < 100 then [d (n div 10), d n]
         else [d (n div 100), d (n div 10), d n])"

fun inet_ntoa :: "byte list \<Rightarrow> byte list" where
  "inet_ntoa [] = []"
| "inet_ntoa [b] = dec_byte b"
| "inet_ntoa (b # bs) = dec_byte b @ [46] @ inet_ntoa bs"

section \<open>The helpers\<close>

text \<open>What the kernel answers while a listening socket is set up; \<open>aton\<close> is \<open>inet_aton\<close>.\<close>

record listen_env =
  le_socket :: "int sysret"
  le_setsockopt :: "unit sysret"
  le_aton :: "byte list \<Rightarrow> byte list option"
  le_bind :: "sockaddr_in \<Rightarrow> unit sysret"
  le_listen :: "unit sysret"

definition create_tcp_server ::
  "listen_env \<Rightarrow> byte list \<Rightarrow> int \<Rightarrow> int list \<Rightarrow> int \<times> int list" where
  "create_tcp_server e host port fds =
     (case le_socket e of
        Fail err \<Rightarrow> (-1, fds)
      | Ok sockfd \<Rightarrow>
          let fds = sockfd # fds
          in case le_setsockopt e of
               Fail err \<Rightarrow> (-1, fds)
             | Ok _ \<Rightarrow>
                 let addr = \<lparr>sin_port = ntohs (word_of_int port), sin_addr = [0, 0, 0, 0]\<rparr>;
                     parsed = (if host \<noteq> [] then le_aton e host else Some (sin_addr addr))
                 in case parsed of
                      None \<Rightarrow> (-1, remove1 sockfd fds)
                    | Some ip \<Rightarrow>
                        let addr = addr\<lparr>sin_addr := ip\<rparr>
                        in case le_bind e addr of
                             Fail err \<Rightarrow> (-1, remove1 sockfd fds)
                           | Ok _ \<Rightarrow>
                               (case le_listen e of
                                  Fail err \<Rightarrow> (-1, remove1 sockfd fds)
                                | Ok _ \<Rightarrow> (sockfd, fds)))"

text \<open>
  The loop of \<open>generic_accept\<close> runs once: after the error handling it always reaches
  \<open>break\<close>, also for \<open>EINTR\<close>, where \<open>cfd\<close> is still \<open>-1\<close>.
\<close>

definition generic_accept :: "(int \<times> sockaddr_in) sysret \<Rightarrow> int \<times> sockaddr_in option" where
  "generic_accept r =
     (case r of
        Fail err \<Rightarrow> if err = EINTR then (-1, None) else (-1, None)
      | Ok (cfd, addr) \<Rightarrow> (cfd, Some addr))"

text \<open>\<open>ip\<close> and \<open>port\<close> are optional out-parameters; the caller's \<open>ip\<close> buffer is given with its size.\<close>

definition tcp_accept ::
  "(int \<times> sockaddr_in) sysret \<Rightarrow> byte list option \<Rightarrow> (int \<times> byte list option \<times> 16 word option) res" where
  "tcp_accept r ip =
     (let (cfd, addr) = generic_accept r
      in if cfd = -1 then Inr (-1, ip, None)
         else case addr of
                None \<Rightarrow> Inl Uninit_read
              | Some a \<Rightarrow>
                  res_bind (case ip of
                              None \<Rightarrow> Inr None
                            | Some buf \<Rightarrow> res_bind (mem_write 0 (inet_ntoa (sin_addr a) @ [0]) buf)
                                            (\<lambda>buf. Inr (Some buf))) (\<lambda>ip.
                    Inr (cfd, ip, Some (ntohs (sin_port a)))))"

definition sock_set_nonblock :: "int sysret \<Rightarrow> (int \<Rightarrow> unit sysret) \<Rightarrow> int" where
  "sock_set_nonblock getfl setfl =
     (case getfl of
        Fail err \<Rightarrow> -1
      | Ok flags \<Rightarrow> (case setfl (flags OR O_NONBLOCK) of Fail err \<Rightarrow> -1 | Ok _ \<Rightarrow> 0))"

definition sock_set_nodelay :: "unit sysret \<Rightarrow> int" where
  "sock_set_nodelay r = (case r of Fail err \<Rightarrow> -1 | Ok _ \<Rightarrow> 0)"

text \<open>\<open>port\<close> is read on the failing path before it is written: \<open>None\<close> is an \<open>int\<close> never set.\<close>

definition sock_peer_to_str ::
  "sockaddr_in sysret \<Rightarrow> byte list \<Rightarrow> int option \<Rightarrow> (int \<times> byte list \<times> int option) res" where
  "sock_peer_to_str r host port =
     (case r of
        Fail err \<Rightarrow>
          let host = (if host \<noteq> [] then [63] else host)
          in (case port of
                None \<Rightarrow> Inl Uninit_read
              | Some p \<Rightarrow> Inr (-1, host, Some (if p \<noteq> 0 then 0 else p)))
      | Ok a \<Rightarrow> Inr (0, inet_ntoa (sin_addr a), Some (uint (ntohs (sin_port a)))))"

text \<open>
  \<open>read\<close> into the \<open>len\<close> bytes at offset \<open>off\<close> of a buffer: the bytes the kernel delivers are
  an argument and are written to the buffer.
\<close>

definition sock_read_data :: "byte list sysret \<Rightarrow> nat \<Rightarrow> byte list \<Rightarrow> (int \<times> byte list) res" where
  "sock_read_data r off buf =
     (case r of
        Fail err \<Rightarrow> Inr (if err = EAGAIN then 0 else -1, buf)
      | Ok bs \<Rightarrow>
          if bs = [] then Inr (-1, buf)
          else res_bind (mem_write off bs buf) (\<lambda>buf. Inr (int (length bs), buf)))"

text \<open>\<open>write\<close> of the bytes of a buffer: the count the kernel accepts is an argument.\<close>

definition sock_write_data :: "nat sysret \<Rightarrow> int" where
  "sock_write_data r =
     (case r of Fail err \<Rightarrow> if err = EAGAIN then 0 else -1 | Ok n \<Rightarrow> int n)"

section \<open>Properties\<close>

lemma length_dec_byte: "length (dec_byte b) \<le> 3"
  by (simp add: dec_byte_def Let_def)

lemma length_inet_ntoa: "length (inet_ntoa bs) \<le> 4 * length bs"
proof (induction bs rule: inet_ntoa.induct)
  case (2 b)
  show ?case using length_dec_byte [of b] by simp
next
  case (3 b c bs)
  then show ?case using length_dec_byte [of b] by simp
qed simp

text \<open>\<open>create_tcp_server\<close> reports exactly the failures: it returns a descriptor if and only if
  every call succeeded, the descriptor is then open, and on failure the open descriptors are as
  before, unless \<open>setsockopt\<close> failed, where the new socket stays open.\<close>

theorem create_tcp_server_descriptors:
  assumes "\<And>s. le_socket e = Ok s \<Longrightarrow> 0 \<le> s"
  shows "case create_tcp_server e host port fds of (ret, fds') \<Rightarrow>
    (0 \<le> ret \<longrightarrow> le_socket e = Ok ret \<and> fds' = ret # fds) \<and>
    (ret < 0 \<longrightarrow> ret = -1 \<and>
       (fds' = fds \<or> (\<exists>s err. le_socket e = Ok s \<and> le_setsockopt e = Fail err \<and> fds' = s # fds))) \<and>
    (0 \<le> ret \<longleftrightarrow> (\<exists>s ip. le_socket e = Ok s \<and> le_setsockopt e = Ok () \<and>
       (if host = [] then ip = [0, 0, 0, 0] else le_aton e host = Some ip) \<and>
       le_bind e \<lparr>sin_port = ntohs (word_of_int port), sin_addr = ip\<rparr> = Ok () \<and> le_listen e = Ok ()))"
  using assms
  by (auto simp: create_tcp_server_def Let_def split: sysret.splits option.splits if_splits)

lemma create_tcp_server_descriptors_witness:
  "\<exists>e. (\<forall>s. le_socket e = Ok s \<longrightarrow> 0 \<le> s) \<and> create_tcp_server e [] 9000 [0, 1] = (-1, [0, 1])"
proof -
  let ?e = "\<lparr>le_socket = Ok 5, le_setsockopt = Ok (), le_aton = (\<lambda>_. None),
     le_bind = (\<lambda>_. Fail 98), le_listen = Ok ()\<rparr>"
  have "le_socket ?e = Ok s \<Longrightarrow> 0 \<le> s" for s by simp
  moreover from create_tcp_server_descriptors [where e = ?e and host = "[]" and port = 9000 and fds = "[0, 1]", OF this]
  have "create_tcp_server ?e [] 9000 [0, 1] = (-1, [0, 1])"
    by (auto split: prod.splits)
  ultimately show ?thesis by blast
qed

text \<open>The address text fits the 128-byte buffer \<open>accept_new_conn\<close> passes: \<open>tcp_accept\<close> never
  writes outside it, returns the descriptor \<open>accept\<close> gave and the port in host order, and gives up
  with \<open>-1\<close> on every error of \<open>accept\<close>.\<close>

theorem tcp_accept_in_bounds:
  assumes "length buf = 128" "\<And>cfd a. r = Ok (cfd, a) \<Longrightarrow> cfd \<noteq> -1 \<and> length (sin_addr a) = 4"
  shows "(\<forall>cfd a. r = Ok (cfd, a) \<longrightarrow> (\<exists>buf'. length buf' = 128 \<and>
      take (length (inet_ntoa (sin_addr a))) buf' = inet_ntoa (sin_addr a) \<and>
      tcp_accept r (Some buf) = Inr (cfd, Some buf', Some (ntohs (sin_port a))))) \<and>
    (\<forall>err. r = Fail err \<longrightarrow> tcp_accept r (Some buf) = Inr (-1, Some buf, None))"
proof (cases r)
  case (Fail err)
  then show ?thesis by (simp add: tcp_accept_def generic_accept_def)
next
  case (Ok x)
  obtain cfd a where x: "x = (cfd, a)" by (cases x)
  let ?t = "inet_ntoa (sin_addr a) @ [0]"
  have "cfd \<noteq> -1" "length ?t \<le> 128"
    using assms(2) [of cfd a] Ok x length_inet_ntoa [of "sin_addr a"] by simp_all
  then show ?thesis
    using Ok x assms(1)
    by (auto simp: tcp_accept_def generic_accept_def mem_write_def overwrite_def)
qed

lemma tcp_accept_in_bounds_witness:
  "\<exists>buf'. tcp_accept (Ok (9, \<lparr>sin_port = 0x2823, sin_addr = [127, 0, 0, 1]\<rparr>)) (Some (replicate 128 0)) =
     Inr (9, Some buf', Some 9000) \<and> length buf' = 128"
proof -
  have "ntohs 0x2823 = 9000" by (simp add: ntohs_def)
  then show ?thesis
    using tcp_accept_in_bounds [of "replicate 128 0" "Ok (9, \<lparr>sin_port = 0x2823, sin_addr = [127, 0, 0, 1]\<rparr>)"]
    by auto
qed

end
