(* ===== verification/Data_Refinement.thy ===== *)
theory Data_Refinement
  imports Prelude
begin

text \<open>
  The interface of a component whose concrete state implements an abstract value: every
  operation, on a well-formed state whose abstract value admits it, succeeds, keeps the
  state well formed and computes the abstract operation. Whole runs then do so too.
  The operations are a type of their own, so that a run is a list of them.
\<close>

fun run_res :: "('op \<Rightarrow> 's \<Rightarrow> 's res) \<Rightarrow> 'op list \<Rightarrow> 's \<Rightarrow> 's res" where
  "run_res exec [] s = Inr s"
| "run_res exec (o1 # ops) s = res_bind (exec o1 s) (run_res exec ops)"

fun run_ok :: "('op \<Rightarrow> 'v \<Rightarrow> bool) \<Rightarrow> ('op \<Rightarrow> 'v \<Rightarrow> 'v) \<Rightarrow> 'op list \<Rightarrow> 'v \<Rightarrow> bool" where
  "run_ok ok spec [] v \<longleftrightarrow> True"
| "run_ok ok spec (o1 # ops) v \<longleftrightarrow> ok o1 v \<and> run_ok ok spec ops (spec o1 v)"

lemma run_res_append: "run_res exec (xs @ ys) s = res_bind (run_res exec xs s) (run_res exec ys)"
  by (induction xs arbitrary: s) (simp_all add: res_bind_def split: sum.splits)

locale data_refinement =
  fixes wf :: "'s \<Rightarrow> bool"
    and abs :: "'s \<Rightarrow> 'v"
    and exec :: "'op \<Rightarrow> 's \<Rightarrow> 's res"
    and spec :: "'op \<Rightarrow> 'v \<Rightarrow> 'v"
    and ok :: "'op \<Rightarrow> 'v \<Rightarrow> bool"
  assumes exec_refines:
    "wf s \<Longrightarrow> ok p (abs s) \<Longrightarrow> \<exists>s'. exec p s = Inr s' \<and> wf s' \<and> abs s' = spec p (abs s)"
begin

lemma run_refines:
  "wf s \<Longrightarrow> run_ok ok spec ops (abs s) \<Longrightarrow>
   \<exists>s'. run_res exec ops s = Inr s' \<and> wf s' \<and> abs s' = fold spec ops (abs s)"
proof (induction ops arbitrary: s)
  case (Cons p ops)
  then obtain r where r: "exec p s = Inr r" "wf r" "abs r = spec p (abs s)"
    using exec_refines by (metis run_ok.simps(2))
  with Cons show ?case by fastforce
qed simp

end

end
