(* ===== verification/Log.thy ===== *)
theory Log
  imports Socket Data_Refinement
begin

text \<open>
  The log sink \<open>src/xrtcserver/rtcserver/src/base/log.hpp\<close> and \<open>log.cpp\<close>: messages are put on one of two
  queues by severity, and a thread appends the queues to two files every 50 milliseconds. The
  kernel's answers to \<open>mkdir\<close>, \<open>stat\<close> and \<open>open\<close> and the time stamp of a message are arguments. A stream
  opened with \<open>std::ios::app\<close> appends to what the file holds; writing to a stream that is not open
  writes nothing.
\<close>

section \<open>Definitions\<close>

datatype severity = LS_VERBOSE | LS_INFO | LS_WARNING | LS_ERROR | LS_NONE

primrec sev_num :: "severity \<Rightarrow> nat" where
  "sev_num LS_VERBOSE = 0"
| "sev_num LS_INFO = 1"
| "sev_num LS_WARNING = 2"
| "sev_num LS_ERROR = 3"
| "sev_num LS_NONE = 4"

lemma sev_num_inject [simp]: "sev_num x = sev_num y \<longleftrightarrow> x = y"
  by (cases x; cases y) simp_all

text \<open>The order of the enumeration.\<close>

instantiation severity :: linorder
begin

definition less_eq_severity :: "severity \<Rightarrow> severity \<Rightarrow> bool" where
  "less_eq_severity x y \<longleftrightarrow> sev_num x \<le> sev_num y"

definition less_severity :: "severity \<Rightarrow> severity \<Rightarrow> bool" where
  "less_severity x y \<longleftrightarrow> sev_num x < sev_num y"

instance
  by standard (auto simp: less_eq_severity_def less_severity_def)

end

text \<open>
  A \<open>std::ofstream\<close>: what the file held when it was opened, what was appended since, and the same two texts
  for each file it was opened on before.
\<close>

record ofstream =
  ofs_open :: bool
  ofs_base :: "byte list"
  ofs_text :: "byte list"
  ofs_past :: "(byte list \<times> byte list) list"

definition ofstream_new :: ofstream where
  "ofstream_new = \<lparr>ofs_open = False, ofs_base = [], ofs_text = [], ofs_past = []\<rparr>"

text \<open>\<open>open(path, std::ios::app)\<close>: the answer is the content of the file, empty for a new one, or \<open>None\<close>.\<close>

definition ofs_close :: "ofstream \<Rightarrow> ofstream" where
  "ofs_close f = (if ofs_open f
     then f\<lparr>ofs_open := False, ofs_base := [], ofs_text := [], ofs_past := ofs_past f @ [(ofs_base f, ofs_text f)]\<rparr> else f)"

definition ofs_reopen :: "byte list option \<Rightarrow> ofstream \<Rightarrow> ofstream" where
  "ofs_reopen content f = (case content of None \<Rightarrow> f | Some t \<Rightarrow> f\<lparr>ofs_open := True, ofs_base := t, ofs_text := []\<rparr>)"

definition ofs_write :: "byte list \<Rightarrow> ofstream \<Rightarrow> ofstream" where
  "ofs_write bs f = (if ofs_open f then f\<lparr>ofs_text := ofs_text f @ bs\<rparr> else f)"

record xrtc_log =
  lg_dir :: string
  lg_level :: string
  lg_name :: string
  lg_out_path :: string
  lg_err_path :: string
  lg_out :: ofstream
  lg_err :: ofstream
  lg_queue :: "byte list list"
  lg_err_queue :: "byte list list"
  lg_thread :: bool
  lg_running :: bool

definition XrtcLog_new :: "string \<Rightarrow> string \<Rightarrow> string \<Rightarrow> xrtc_log" where
  "XrtcLog_new log_dir log_level log_name =
     \<lparr>lg_dir = log_dir, lg_level = log_level, lg_name = log_name,
      lg_out_path = log_dir @ ''/'' @ log_name @ ''.log'', lg_err_path = log_dir @ ''/'' @ log_name @ ''.log.err'',
      lg_out = ofstream_new, lg_err = ofstream_new, lg_queue = [], lg_err_queue = [], lg_thread = False, lg_running = False\<rparr>"

definition GetLogSeverity :: "string \<Rightarrow> severity" where
  "GetLogSeverity log_level =
     (if log_level = ''INFO'' then LS_INFO
      else if log_level = ''WARNING'' then LS_WARNING
      else if log_level = ''ERROR'' then LS_ERROR
      else if log_level = ''VERBOSE'' then LS_VERBOSE
      else if log_level = ''NONE'' then LS_NONE
      else LS_INFO)"

text \<open>
  \<open>InitLog\<close> with the answers to \<open>mkdir\<close> and to the opening of each file. The calls to \<open>rtc::LogMessage\<close> register
  the sink with the severity that is returned here beside the result.
\<close>

definition InitLog :: "unit sysret \<Rightarrow> byte list option \<Rightarrow> byte list option \<Rightarrow> xrtc_log \<Rightarrow> int \<times> severity \<times> xrtc_log" where
  "InitLog mk open_out open_err lg =
     (let sev = GetLogSeverity (lg_level lg)
      in if (case mk of Fail err \<Rightarrow> err \<noteq> EEXIST | Ok _ \<Rightarrow> False) then (-1, sev, lg)
         else
           let lg = lg\<lparr>lg_out := ofs_reopen open_out (lg_out lg)\<rparr>
           in if \<not> ofs_open (lg_out lg) then (-1, sev, lg)
              else
                let lg = lg\<lparr>lg_err := ofs_reopen open_err (lg_err lg)\<rparr>
                in if \<not> ofs_open (lg_err lg) then (-1, sev, lg) else (0, sev, lg))"

definition start_log_thread :: "xrtc_log \<Rightarrow> bool \<times> xrtc_log" where
  "start_log_thread lg =
     (if lg_running lg then (False, lg) else (True, lg\<lparr>lg_running := True, lg_thread := True\<rparr>))"

text \<open>
  One pass of the thread's loop. \<open>re_out_gone\<close> and \<open>re_err_gone\<close> are the failing \<open>stat\<close> calls, \<open>re_out_again\<close> and
  \<open>re_err_again\<close> the answers to the opening that follows.
\<close>

record round_env =
  re_out_gone :: bool
  re_out_again :: "byte list option"
  re_err_gone :: bool
  re_err_again :: "byte list option"

definition log_round :: "round_env \<Rightarrow> xrtc_log \<Rightarrow> xrtc_log" where
  "log_round re lg =
     (let lg = (if re_out_gone re then lg\<lparr>lg_out := ofs_reopen (re_out_again re) (ofs_close (lg_out lg))\<rparr> else lg);
          lg = (if re_err_gone re then lg\<lparr>lg_err := ofs_reopen (re_err_again re) (ofs_close (lg_err lg))\<rparr> else lg);
          ss = concat (lg_queue lg);
          write_log = lg_queue lg \<noteq> [];
          lg = lg\<lparr>lg_queue := []\<rparr>;
          lg = (if write_log then lg\<lparr>lg_out := ofs_write (ss @ [10]) (lg_out lg)\<rparr> else lg);
          ss = concat (lg_err_queue lg);
          write_err = lg_err_queue lg \<noteq> [];
          lg = lg\<lparr>lg_err_queue := []\<rparr>;
          lg = (if write_err then lg\<lparr>lg_err := ofs_write (ss @ [10]) (lg_err lg)\<rparr> else lg)
      in lg)"

definition stop_log_thread :: "xrtc_log \<Rightarrow> xrtc_log" where
  "stop_log_thread lg = lg\<lparr>lg_running := False, lg_thread := False\<rparr>"

definition XrtcLog_destroy :: "xrtc_log \<Rightarrow> xrtc_log" where
  "XrtcLog_destroy lg = (let lg = stop_log_thread lg in lg\<lparr>lg_out := ofs_close (lg_out lg), lg_err := ofs_close (lg_err lg)\<rparr>)"

text \<open>\<open>stamp\<close> is the formatted local time; the separator is \<open>" - "\<close>.\<close>

definition OnLogMessage :: "byte list \<Rightarrow> byte list \<Rightarrow> severity \<Rightarrow> xrtc_log \<Rightarrow> xrtc_log" where
  "OnLogMessage stamp message sev lg =
     (let log_message = stamp @ [32, 45, 32] @ message
      in if sev \<ge> LS_WARNING then lg\<lparr>lg_err_queue := lg_err_queue lg @ [log_message]\<rparr>
         else lg\<lparr>lg_queue := lg_queue lg @ [log_message]\<rparr>)"

section \<open>Runs\<close>

datatype log_event = Message "byte list" "byte list" severity | Round round_env

primrec log_exec :: "log_event \<Rightarrow> xrtc_log \<Rightarrow> xrtc_log" where
  "log_exec (Message stamp msg sev) lg = OnLogMessage stamp msg sev lg"
| "log_exec (Round re) lg = log_round re lg"

text \<open>The lines of a run that belong into the error file, or into the other one.\<close>

fun lines_of :: "bool \<Rightarrow> log_event list \<Rightarrow> byte list list" where
  "lines_of err [] = []"
| "lines_of err (Message stamp msg sev # evs) =
     (if (sev \<ge> LS_WARNING) = err then (stamp @ [32, 45, 32] @ msg) # lines_of err evs else lines_of err evs)"
| "lines_of err (Round re # evs) = lines_of err evs"

text \<open>Every opening during a run succeeds.\<close>

definition stays_open :: "log_event \<Rightarrow> bool" where
  "stays_open ev = (case ev of Message _ _ _ \<Rightarrow> True
     | Round re \<Rightarrow> (re_out_gone re \<longrightarrow> re_out_again re \<noteq> None) \<and> (re_err_gone re \<longrightarrow> re_err_again re \<noteq> None))"

text \<open>What is appended to a file by batches of lines.\<close>

definition file_text :: "byte list list list \<Rightarrow> byte list" where
  "file_text bs = concat (map (\<lambda>b. concat b @ [10]) bs)"

lemma file_text_simps [simp]: "file_text [] = []" "file_text (bs @ [b]) = file_text bs @ concat b @ [10]"
  by (simp_all add: file_text_def)

text \<open>
  The lines a stream has written, over all the files it was opened on: \<open>bss\<close> has the batches of each
  file, the last entry those of the file that is open.
\<close>

definition written :: "ofstream \<Rightarrow> byte list list list list \<Rightarrow> byte list list \<Rightarrow> bool" where
  "written f bss ls \<longleftrightarrow> map snd (ofs_past f) @ [ofs_text f] = map file_text bss \<and> [] \<notin> set (concat bss) \<and>
     concat (concat bss) = ls"

lemma written_last:
  assumes "written f bss ls"
  obtains pre bs where "bss = pre @ [bs]" "map snd (ofs_past f) = map file_text pre" "ofs_text f = file_text bs"
    "[] \<notin> set (concat pre)" "[] \<notin> set bs" "concat (concat pre) @ concat bs = ls"
proof -
  have "bss \<noteq> []" using assms by (auto simp: written_def)
  then obtain pre bs where "bss = pre @ [bs]" by (metis rev_exhaust)
  with assms that show ?thesis by (auto simp: written_def)
qed

lemma written_reopen:
  assumes "written f bss ls" "ofs_open f" "again \<noteq> None"
  shows "\<exists>bss'. written (ofs_reopen again (ofs_close f)) bss' ls" "ofs_open (ofs_reopen again (ofs_close f))"
proof -
  have "written (ofs_reopen again (ofs_close f)) (bss @ [[]]) ls"
    using assms by (auto simp: written_def ofs_reopen_def ofs_close_def)
  then show "\<exists>bss'. written (ofs_reopen again (ofs_close f)) bss' ls" by blast
  show "ofs_open (ofs_reopen again (ofs_close f))" using assms(3) by (auto simp: ofs_reopen_def)
qed

lemma written_write:
  assumes "written f bss ls" "ofs_open f" "q \<noteq> []"
  shows "\<exists>bss'. written (ofs_write (concat q @ [10]) f) bss' (ls @ q)"
proof -
  obtain pre bs where b: "bss = pre @ [bs]" "map snd (ofs_past f) = map file_text pre" "ofs_text f = file_text bs"
    "[] \<notin> set (concat pre)" "[] \<notin> set bs" "concat (concat pre) @ concat bs = ls"
    using written_last [OF assms(1)] .
  have "written (ofs_write (concat q @ [10]) f) (pre @ [bs @ [q]]) (ls @ q)"
    using b assms(2,3) by (auto simp: written_def ofs_write_def)
  then show ?thesis by blast
qed

text \<open>A stream that is open, on its \<open>n\<close>-th file after the first, which held \<open>t\<close>, and that has written \<open>ls\<close>.\<close>

definition ofs_files :: "ofstream \<Rightarrow> (byte list \<times> byte list) list" where
  "ofs_files f = ofs_past f @ [(ofs_base f, ofs_text f)]"

definition stream_ok :: "byte list \<Rightarrow> nat \<Rightarrow> byte list list \<Rightarrow> ofstream \<Rightarrow> bool" where
  "stream_ok t n ls f \<longleftrightarrow> ofs_open f \<and> length (ofs_past f) = n \<and> fst (hd (ofs_files f)) = t \<and> (\<exists>bss. written f bss ls)"

lemma stream_reopen:
  "stream_ok t n ls f \<Longrightarrow> again \<noteq> None \<Longrightarrow> stream_ok t (Suc n) ls (ofs_reopen again (ofs_close f))"
  using written_reopen(1) [of f _ ls again]
  by (auto simp: stream_ok_def ofs_files_def ofs_reopen_def ofs_close_def hd_append split: if_splits)

lemma stream_write:
  "stream_ok t n ls f \<Longrightarrow> q \<noteq> [] \<Longrightarrow> stream_ok t n (ls @ q) (ofs_write (concat q @ [10]) f)"
  using written_write [of f _ ls q] by (auto simp: stream_ok_def ofs_files_def ofs_write_def hd_append split: if_splits)

text \<open>One stream through a round: reopened where \<open>stat\<close> fails, then the queue is written.\<close>

definition stream_round :: "bool \<Rightarrow> byte list option \<Rightarrow> byte list list \<Rightarrow> ofstream \<Rightarrow> ofstream" where
  "stream_round gone again q f =
     (let f = (if gone then ofs_reopen again (ofs_close f) else f)
      in if q \<noteq> [] then ofs_write (concat q @ [10]) f else f)"

lemma stream_round_ok:
  assumes "stream_ok t n ls f" "gone \<longrightarrow> again \<noteq> None"
  shows "stream_ok t (n + of_bool gone) (ls @ q) (stream_round gone again q f)"
proof -
  let ?f = "if gone then ofs_reopen again (ofs_close f) else f"
  have "stream_ok t (n + of_bool gone) ls ?f" using stream_reopen [OF assms(1)] assms by simp
  with stream_write [OF this] show ?thesis by (auto simp: stream_round_def Let_def)
qed

lemma log_round_streams:
  "lg_out (log_round re lg) = stream_round (re_out_gone re) (re_out_again re) (lg_queue lg) (lg_out lg)"
  "lg_err (log_round re lg) = stream_round (re_err_gone re) (re_err_again re) (lg_err_queue lg) (lg_err lg)"
  "lg_queue (log_round re lg) = []" "lg_err_queue (log_round re lg) = []"
  by (simp_all add: log_round_def stream_round_def Let_def)

text \<open>How often a file was not found.\<close>

definition reopens :: "(round_env \<Rightarrow> bool) \<Rightarrow> log_event list \<Rightarrow> nat" where
  "reopens gone evs = length (filter (\<lambda>ev. case ev of Round re \<Rightarrow> gone re | _ \<Rightarrow> False) evs)"

definition log_inv :: "byte list \<Rightarrow> byte list \<Rightarrow> log_event list \<Rightarrow> xrtc_log \<Rightarrow> bool" where
  "log_inv t1 t2 evs lg \<longleftrightarrow>
     (\<exists>ls. stream_ok t1 (reopens re_out_gone evs) ls (lg_out lg) \<and> ls @ lg_queue lg = lines_of False evs) \<and>
     (\<exists>ls. stream_ok t2 (reopens re_err_gone evs) ls (lg_err lg) \<and> ls @ lg_err_queue lg = lines_of True evs)"

lemma lines_of_append: "lines_of err (xs @ ys) = lines_of err xs @ lines_of err ys"
  by (induction err xs rule: lines_of.induct) simp_all

lemma log_exec_inv:
  assumes "log_inv t1 t2 evs lg" "stays_open ev"
  shows "log_inv t1 t2 (evs @ [ev]) (log_exec ev lg)"
proof (cases ev)
  case (Message stamp msg sev)
  then show ?thesis
    using assms(1) by (fastforce simp: log_inv_def OnLogMessage_def lines_of_append reopens_def)
next
  case (Round re)
  then have r: "reopens g (evs @ [ev]) = reopens g evs + of_bool (g re)" "lines_of err (evs @ [ev]) = lines_of err evs" for g err
    by (simp_all add: reopens_def lines_of_append)
  obtain l1 l2 where l: "stream_ok t1 (reopens re_out_gone evs) l1 (lg_out lg)" "l1 @ lg_queue lg = lines_of False evs"
    "stream_ok t2 (reopens re_err_gone evs) l2 (lg_err lg)" "l2 @ lg_err_queue lg = lines_of True evs"
    using assms(1) by (auto simp: log_inv_def)
  show ?thesis
    using stream_round_ok [OF l(1), of "re_out_gone re" "re_out_again re" "lg_queue lg"]
      stream_round_ok [OF l(3), of "re_err_gone re" "re_err_again re" "lg_err_queue lg"] assms(2) l(2,4) r Round
    by (simp add: log_inv_def log_round_streams stays_open_def)
qed

lemma log_run_inv:
  "log_inv t1 t2 es lg \<Longrightarrow> \<forall>ev \<in> set evs. stays_open ev \<Longrightarrow> log_inv t1 t2 (es @ evs) (fold log_exec evs lg)"
proof (induction evs arbitrary: lg es)
  case (Cons ev evs)
  from Cons.IH [OF log_exec_inv [OF Cons.prems(1)]] Cons.prems(2) show ?case by simp
qed simp

lemma InitLog_inv:
  assumes "InitLog mk (Some t1) (Some t2) (XrtcLog_new d lv nm) = (0, sev, lg)"
  shows "log_inv t1 t2 [] lg"
proof -
  have "stream_ok t 0 [] (ofs_reopen (Some t) ofstream_new)" for t
    by (auto simp: stream_ok_def ofs_files_def ofs_reopen_def ofstream_new_def written_def intro: exI [of _ "[[]]"])
  with assms show ?thesis
    by (auto simp: log_inv_def InitLog_def XrtcLog_new_def ofs_reopen_def reopens_def Let_def split: if_splits sysret.splits)
qed

section \<open>Properties\<close>

text \<open>C38: a log whose two files were opened by \<open>InitLog\<close>, holding \<open>t1\<close> and \<open>t2\<close> then, sees any mixture of messages and
  rounds that ends with a round, and every opening succeeds. Then every message was written
  exactly once and in order to the stream of its severity. A stream opens a further file each time \<open>stat\<close> does
  not find its path; what it appended to its successive files is, from the first to the last, all the lines
  logged, in batches that end with a newline, and nothing else, and the first file still begins with what it
  held. In particular, if \<open>stat\<close> never fails the file is that content followed by all the lines.\<close>

theorem log_messages_written_once:
  assumes "InitLog mk (Some t1) (Some t2) (XrtcLog_new d lv nm) = (0, sev, lg)"
    "\<forall>ev \<in> set (evs @ [Round re]). stays_open ev" "lg' = fold log_exec (evs @ [Round re]) lg"
  shows "stream_ok t1 (reopens re_out_gone (evs @ [Round re])) (lines_of False evs) (lg_out lg') \<and>
    stream_ok t2 (reopens re_err_gone (evs @ [Round re])) (lines_of True evs) (lg_err lg') \<and>
    (reopens re_out_gone (evs @ [Round re]) = 0 \<longrightarrow>
      (\<exists>bs. ofs_base (lg_out lg') @ ofs_text (lg_out lg') = t1 @ file_text bs \<and> [] \<notin> set bs \<and> concat bs = lines_of False evs))"
proof -
  have "log_inv t1 t2 (evs @ [Round re]) lg'"
    using log_run_inv [OF InitLog_inv [OF assms(1)] assms(2)] assms(3) by simp
  moreover have "lg_queue lg' = []" "lg_err_queue lg' = []" using assms(3) by (simp_all add: log_round_streams)
  ultimately have s: "stream_ok t1 (reopens re_out_gone (evs @ [Round re])) (lines_of False evs) (lg_out lg')"
    "stream_ok t2 (reopens re_err_gone (evs @ [Round re])) (lines_of True evs) (lg_err lg')"
    by (auto simp: log_inv_def lines_of_append)
  have "\<exists>bs. ofs_base (lg_out lg') @ ofs_text (lg_out lg') = t1 @ file_text bs \<and> [] \<notin> set bs \<and> concat bs = lines_of False evs"
    if "reopens re_out_gone (evs @ [Round re]) = 0"
  proof -
    have p: "ofs_past (lg_out lg') = []" "ofs_base (lg_out lg') = t1" using s(1) that by (auto simp: stream_ok_def ofs_files_def)
    obtain bss where w: "written (lg_out lg') bss (lines_of False evs)" using s(1) by (auto simp: stream_ok_def)
    obtain pre bs where "map snd (ofs_past (lg_out lg')) = map file_text pre" "ofs_text (lg_out lg') = file_text bs"
      "[] \<notin> set bs" "concat (concat pre) @ concat bs = lines_of False evs"
      using written_last [OF w] by metis
    with p show ?thesis by auto
  qed
  with s show ?thesis by blast
qed

definition ex_round :: "byte list option \<Rightarrow> round_env" where
  "ex_round again = \<lparr>re_out_gone = again \<noteq> None, re_out_again = again, re_err_gone = False, re_err_again = None\<rparr>"

lemma log_messages_written_once_witness:
  "\<exists>lg. InitLog (Ok ()) (Some [111]) (Some []) (XrtcLog_new ''d'' ''INFO'' ''x'') = (0, LS_INFO, lg) \<and>
     stream_ok [111] 1 [[49, 32, 45, 32, 97]]
       (lg_out (fold log_exec ([Message [49] [97] LS_INFO, Round (ex_round (Some [])), Message [50] [98] LS_ERROR] @
         [Round (ex_round None)]) lg))"
proof -
  let ?evs = "[Message [49] [97] LS_INFO, Round (ex_round (Some [])), Message [50] [98] LS_ERROR]"
  obtain lg where lg: "InitLog (Ok ()) (Some [111]) (Some []) (XrtcLog_new ''d'' ''INFO'' ''x'') = (0, LS_INFO, lg)"
    by (simp add: InitLog_def XrtcLog_new_def GetLogSeverity_def ofs_reopen_def)
  have st: "\<forall>ev \<in> set (?evs @ [Round (ex_round None)]). stays_open ev" by (simp add: stays_open_def ex_round_def)
  have "lines_of False ?evs = [[49, 32, 45, 32, 97]]" "reopens re_out_gone (?evs @ [Round (ex_round None)]) = 1"
    by (simp_all add: less_eq_severity_def reopens_def ex_round_def)
  with log_messages_written_once [OF lg st refl] lg show ?thesis by auto
qed

end
