(* ===== verification/Event_Loop.thy ===== *)
theory Event_Loop
  imports Complex_Main Prelude
begin

text \<open>
  The wrapper around libev in \<open>src/xrtcserver/rtcserver/src/base/event_loop.hpp\<close> and
  \<open>event_loop.cpp\<close>. libev itself is not part of the sources: its loop is a value of a type
  parameter and the functions the wrapper calls are the fields of a record, with their
  documented behaviour stated as \<open>libev_ok\<close>. The macros of its header that expand into the
  wrapper (\<open>ev_init\<close>, \<open>ev_io_set\<close>, \<open>ev_timer_set\<close>, \<open>ev_is_active\<close>) are written out. Members
  that \<open>ev_init\<close> leaves unset are \<open>None\<close> until they are set, and reading one is a fault.
  Watchers are heap objects: an address that was deleted is not given out again, so that a
  use after \<open>delete\<close> is always a fault. Seconds are rational numbers; the rounding of
  \<open>float\<close> and \<open>double\<close> is left out.
\<close>

section \<open>Masks\<close>

definition READ :: int where "READ = 1"
definition WRITE :: int where "WRITE = 2"
definition EV_NONE :: int where "EV_NONE = 0"
definition EV_READ :: int where "EV_READ = 1"
definition EV_WRITE :: int where "EV_WRITE = 2"
definition EV_IOFDSET :: int where "EV_IOFDSET = 128"

definition TRANS_TO_EV_MASK :: "int \<Rightarrow> int" where
  "TRANS_TO_EV_MASK msk =
     ((if msk AND READ \<noteq> 0 then EV_READ else 0) OR (if msk AND WRITE \<noteq> 0 then EV_WRITE else 0))"

definition TRANS_FROM_EV_MASK :: "int \<Rightarrow> int" where
  "TRANS_FROM_EV_MASK msk =
     ((if msk AND EV_READ \<noteq> 0 then READ else 0) OR (if msk AND EV_WRITE \<noteq> 0 then WRITE else 0))"

section \<open>State\<close>

text \<open>The libev watchers, with the fields the wrapper reads or writes.\<close>

record ev_io =
  io_active :: bool
  io_fd :: "int option"
  io_events :: "int option"

record ev_timer =
  tm_active :: bool
  tm_at :: "rat option"
  tm_repeat :: "rat option"

record 'l libev =
  ev_io_start :: "'l \<Rightarrow> ev_io \<Rightarrow> 'l \<times> ev_io"
  ev_io_stop :: "'l \<Rightarrow> ev_io \<Rightarrow> 'l \<times> ev_io"
  ev_timer_start :: "'l \<Rightarrow> ev_timer \<Rightarrow> 'l \<times> ev_timer"
  ev_timer_stop :: "'l \<Rightarrow> ev_timer \<Rightarrow> 'l \<times> ev_timer"
  ev_timer_again :: "'l \<Rightarrow> ev_timer \<Rightarrow> 'l \<times> ev_timer"
  ev_break :: "'l \<Rightarrow> 'l"
  ev_now :: "'l \<Rightarrow> rat"

text \<open>The callbacks the program registers, and the wrapper's watcher classes.\<close>

datatype io_cb =
    Signaling_server_recv_notify | Accept_new_conn | Signaling_worker_recv_notify
  | Conn_io_cb | Rtc_server_recv_notify | Rtc_worker_recv_notify

datatype time_cb = Conn_timer_cb

record io_watcher =
  iw_cb :: io_cb
  iw_data :: ptr
  iw_io :: ev_io

record time_watcher =
  tw_cb :: time_cb
  tw_data :: ptr
  tw_repeat :: bool
  tw_timer :: ev_timer

record 'l event_loop =
  el_loop :: 'l
  el_owner :: ptr
  el_io :: "nat \<Rightarrow> io_watcher option"
  el_tm :: "nat \<Rightarrow> time_watcher option"
  el_fresh :: nat

definition get_io :: "'l event_loop \<Rightarrow> ptr \<Rightarrow> (nat \<times> io_watcher) res" where
  "get_io el p =
     (case p of None \<Rightarrow> Inl Null_deref
      | Some a \<Rightarrow> (case el_io el a of None \<Rightarrow> Inl Use_after_free | Some w \<Rightarrow> Inr (a, w)))"

definition get_tm :: "'l event_loop \<Rightarrow> ptr \<Rightarrow> (nat \<times> time_watcher) res" where
  "get_tm el p =
     (case p of None \<Rightarrow> Inl Null_deref
      | Some a \<Rightarrow> (case el_tm el a of None \<Rightarrow> Inl Use_after_free | Some w \<Rightarrow> Inr (a, w)))"

definition initialised :: "'a option \<Rightarrow> 'a res" where
  "initialised x = (case x of None \<Rightarrow> Inl Uninit_read | Some v \<Rightarrow> Inr v)"

section \<open>Operations\<close>

definition EventLoop_new :: "'l \<Rightarrow> ptr \<Rightarrow> 'l event_loop" where
  "EventLoop_new l owner =
     \<lparr>el_loop = l, el_owner = owner, el_io = (\<lambda>_. None), el_tm = (\<lambda>_. None), el_fresh = 0\<rparr>"

definition el_stop :: "'l libev \<Rightarrow> 'l event_loop \<Rightarrow> 'l event_loop" where
  "el_stop L el = el\<lparr>el_loop := ev_break L (el_loop el)\<rparr>"

text \<open>The conversion to \<open>unsigned long\<close> drops the fraction of a microsecond.\<close>

definition el_now :: "'l libev \<Rightarrow> 'l event_loop \<Rightarrow> int" where
  "el_now L el = usz (floor (ev_now L (el_loop el) * 1000000))"

definition generic_io_cb :: "'l event_loop \<Rightarrow> ptr \<Rightarrow> int \<Rightarrow> (io_cb \<times> int \<times> int \<times> ptr) res" where
  "generic_io_cb el p revents =
     res_bind (get_io el p) (\<lambda>(a, w).
     res_bind (initialised (io_fd (iw_io w))) (\<lambda>fd.
       Inr (iw_cb w, fd, TRANS_FROM_EV_MASK revents, iw_data w)))"

definition creat_io_event :: "'l event_loop \<Rightarrow> io_cb \<Rightarrow> ptr \<Rightarrow> ptr \<times> 'l event_loop" where
  "creat_io_event el cb data =
     (let a = el_fresh el;
          w = \<lparr>iw_cb = cb, iw_data = data, iw_io = \<lparr>io_active = False, io_fd = None, io_events = None\<rparr>\<rparr>
      in (Some a, el\<lparr>el_io := (el_io el)(a \<mapsto> w), el_fresh := Suc a\<rparr>))"

text \<open>\<open>ev_io_set\<close>, and storing a libev watcher back into its wrapper.\<close>

definition ev_io_set :: "ev_io \<Rightarrow> int \<Rightarrow> int \<Rightarrow> ev_io" where
  "ev_io_set io fd events = io\<lparr>io_fd := Some fd, io_events := Some (events OR EV_IOFDSET)\<rparr>"

definition put_io :: "'l event_loop \<Rightarrow> nat \<Rightarrow> io_watcher \<Rightarrow> 'l \<times> ev_io \<Rightarrow> 'l event_loop" where
  "put_io el a w p = el\<lparr>el_loop := fst p, el_io := (el_io el)(a \<mapsto> w\<lparr>iw_io := snd p\<rparr>)\<rparr>"

definition start_io_event :: "'l libev \<Rightarrow> 'l event_loop \<Rightarrow> ptr \<Rightarrow> int \<Rightarrow> int \<Rightarrow> 'l event_loop res" where
  "start_io_event L el p fd msk =
     res_bind (get_io el p) (\<lambda>(a, w).
       let io = iw_io w
       in if io_active io then
            res_bind (initialised (io_events io)) (\<lambda>events.
              let active_events = TRANS_FROM_EV_MASK events;
                  new_events = active_events OR msk
              in if new_events = active_events then Inr el
                 else
                   let new_events = TRANS_TO_EV_MASK new_events;
                       (l, io) = ev_io_stop L (el_loop el) io;
                       io = ev_io_set io fd new_events
                   in Inr (put_io el a w (ev_io_start L l io)))
          else
            let events = TRANS_TO_EV_MASK msk;
                io = ev_io_set io fd events
            in Inr (put_io el a w (ev_io_start L (el_loop el) io)))"

definition stop_io_event :: "'l libev \<Rightarrow> 'l event_loop \<Rightarrow> ptr \<Rightarrow> int \<Rightarrow> int \<Rightarrow> 'l event_loop res" where
  "stop_io_event L el p fd msk =
     res_bind (get_io el p) (\<lambda>(a, w).
     res_bind (initialised (io_events (iw_io w))) (\<lambda>events.
       let active_events = TRANS_FROM_EV_MASK events;
           new_events = active_events AND NOT msk
       in if new_events = active_events then Inr el
          else
            let new_events = TRANS_TO_EV_MASK new_events;
                (l, io) = ev_io_stop L (el_loop el) (iw_io w)
            in if new_events \<noteq> EV_NONE
               then Inr (put_io el a w (ev_io_start L l (ev_io_set io fd new_events)))
               else Inr (put_io el a w (l, io))))"

definition delete_io_event :: "'l libev \<Rightarrow> 'l event_loop \<Rightarrow> ptr \<Rightarrow> 'l event_loop res" where
  "delete_io_event L el p =
     res_bind (get_io el p) (\<lambda>(a, w).
       let (l, io) = ev_io_stop L (el_loop el) (iw_io w)
       in Inr (el\<lparr>el_loop := l, el_io := (el_io el)(a := None)\<rparr>))"

definition generic_time_cb :: "'l event_loop \<Rightarrow> ptr \<Rightarrow> (time_cb \<times> ptr) res" where
  "generic_time_cb el p = res_bind (get_tm el p) (\<lambda>(a, w). Inr (tw_cb w, tw_data w))"

definition creat_timer :: "'l event_loop \<Rightarrow> time_cb \<Rightarrow> ptr \<Rightarrow> bool \<Rightarrow> ptr \<times> 'l event_loop" where
  "creat_timer el cb data repeat =
     (let a = el_fresh el;
          w = \<lparr>tw_cb = cb, tw_data = data, tw_repeat = repeat,
               tw_timer = \<lparr>tm_active = False, tm_at = None, tm_repeat = None\<rparr>\<rparr>
      in (Some a, el\<lparr>el_tm := (el_tm el)(a \<mapsto> w), el_fresh := Suc a\<rparr>))"

definition put_tm :: "'l event_loop \<Rightarrow> nat \<Rightarrow> time_watcher \<Rightarrow> 'l \<times> ev_timer \<Rightarrow> 'l event_loop" where
  "put_tm el a w p = el\<lparr>el_loop := fst p, el_tm := (el_tm el)(a \<mapsto> w\<lparr>tw_timer := snd p\<rparr>)\<rparr>"

definition start_timer :: "'l libev \<Rightarrow> 'l event_loop \<Rightarrow> ptr \<Rightarrow> nat \<Rightarrow> 'l event_loop res" where
  "start_timer L el p usec =
     res_bind (get_tm el p) (\<lambda>(a, w).
       let sec = of_nat usec / 1000000
       in if \<not> tw_repeat w then
            let (l, t) = ev_timer_stop L (el_loop el) (tw_timer w);
                t = t\<lparr>tm_at := Some sec, tm_repeat := Some 0\<rparr>
            in Inr (put_tm el a w (ev_timer_start L l t))
          else Inr (put_tm el a w (ev_timer_again L (el_loop el) ((tw_timer w)\<lparr>tm_repeat := Some sec\<rparr>))))"

definition stop_timer :: "'l libev \<Rightarrow> 'l event_loop \<Rightarrow> ptr \<Rightarrow> 'l event_loop res" where
  "stop_timer L el p =
     res_bind (get_tm el p) (\<lambda>(a, w). Inr (put_tm el a w (ev_timer_stop L (el_loop el) (tw_timer w))))"

definition delete_timer :: "'l libev \<Rightarrow> 'l event_loop \<Rightarrow> ptr \<Rightarrow> 'l event_loop res" where
  "delete_timer L el p =
     res_bind (stop_timer L el p) (\<lambda>el.
     res_bind (get_tm el p) (\<lambda>(a, w). Inr (el\<lparr>el_tm := (el_tm el)(a := None)\<rparr>)))"

section \<open>What libev promises\<close>

text \<open>
  A started watcher is active and a stopped one is not; both keep the descriptor and the
  requested events of the watcher (libev only clears its own flag bit). Restarting a
  repeating timer makes it active, \<open>ev_break\<close> does not move the clock.
\<close>

definition same_request :: "ev_io \<Rightarrow> ev_io \<Rightarrow> bool" where
  "same_request x y \<longleftrightarrow> io_fd x = io_fd y \<and>
     map_option (take_bit 2) (io_events x) = map_option (take_bit 2) (io_events y)"

definition libev_ok :: "'l libev \<Rightarrow> bool" where
  "libev_ok L \<longleftrightarrow>
     (\<forall>l io. io_active (snd (ev_io_start L l io)) \<and> same_request (snd (ev_io_start L l io)) io) \<and>
     (\<forall>l io. \<not> io_active (snd (ev_io_stop L l io)) \<and> same_request (snd (ev_io_stop L l io)) io) \<and>
     (\<forall>l t. tm_repeat t \<noteq> Some 0 \<longrightarrow> tm_repeat t \<noteq> None \<longrightarrow>
        tm_active (snd (ev_timer_again L l t)) \<and> tm_repeat (snd (ev_timer_again L l t)) = tm_repeat t) \<and>
     (\<forall>l t. \<not> tm_active (snd (ev_timer_stop L l t)))"

section \<open>Lemmas\<close>

lemma mask_take_bit:
  "(if m AND 1 \<noteq> 0 then 1 else 0) OR (if m AND 2 \<noteq> 0 then 2 else 0) = take_bit 2 (m :: int)"
proof -
  have "m AND 1 \<noteq> 0 \<longleftrightarrow> bit m 0" by (simp add: and_one_eq bit_0 odd_iff_mod_2_eq_one)
  moreover have "m AND 2 \<noteq> 0 \<longleftrightarrow> bit m 1"
    using and_exp_eq_0_iff_not_bit [of m 1] by simp
  moreover have "(if bit m 0 then 1 else 0) OR (if bit m 1 then 2 else 0) = take_bit 2 m"
    by (simp add: numeral_2_eq_2 take_bit_Suc bit_Suc bit_0 mod_2_eq_odd)
  ultimately show ?thesis by simp
qed

lemma TRANS_TO_EV_MASK_eq: "TRANS_TO_EV_MASK m = take_bit 2 m"
  unfolding TRANS_TO_EV_MASK_def READ_def WRITE_def EV_READ_def EV_WRITE_def by (rule mask_take_bit)

lemma TRANS_FROM_EV_MASK_eq: "TRANS_FROM_EV_MASK m = take_bit 2 m"
  unfolding TRANS_FROM_EV_MASK_def READ_def WRITE_def EV_READ_def EV_WRITE_def by (rule mask_take_bit)

lemma take_bit_IOFDSET [simp]: "take_bit 2 EV_IOFDSET = 0"
  by (simp add: EV_IOFDSET_def)

lemma take_bit_not_mask: "take_bit 2 e AND take_bit 2 (NOT m) = take_bit 2 e AND NOT (m :: int)"
  by (rule bit_eqI) (auto simp: bit_simps)

text \<open>The events a watcher waits for: none while it is stopped.\<close>

definition watched :: "'l event_loop \<Rightarrow> nat \<Rightarrow> int" where
  "watched el a =
     (case el_io el a of
        None \<Rightarrow> 0
      | Some w \<Rightarrow> if io_active (iw_io w) then take_bit 2 (the (io_events (iw_io w))) else 0)"

text \<open>A live watcher on \<open>fd\<close>: once active it has a descriptor and events.\<close>

definition io_live :: "'l event_loop \<Rightarrow> nat \<Rightarrow> bool" where
  "io_live el a \<longleftrightarrow>
     (\<exists>w. el_io el a = Some w \<and> (io_active (iw_io w) \<longrightarrow> io_events (iw_io w) \<noteq> None))"

definition io_frame :: "nat \<Rightarrow> 'l event_loop \<Rightarrow> 'l event_loop \<Rightarrow> bool" where
  "io_frame a el el' \<longleftrightarrow> el_owner el' = el_owner el \<and> el_tm el' = el_tm el \<and> el_fresh el' = el_fresh el \<and>
     (\<forall>b. b \<noteq> a \<longrightarrow> el_io el' b = el_io el b) \<and>
     map_option iw_cb (el_io el' a) = map_option iw_cb (el_io el a) \<and>
     map_option iw_data (el_io el' a) = map_option iw_data (el_io el a)"

lemma io_frame_refl [simp]: "io_frame a el el"
  by (simp add: io_frame_def)

lemma io_frame_put_io: "el_io el a = Some w \<Longrightarrow> io_frame a el (put_io el a w p)"
  by (simp add: io_frame_def put_io_def)

lemma libev_startD:
  assumes "libev_ok L" "io_events io = Some e"
  shows "io_active (snd (ev_io_start L l io))" "io_events (snd (ev_io_start L l io)) \<noteq> None"
    "take_bit 2 (the (io_events (snd (ev_io_start L l io)))) = take_bit 2 e"
    "io_fd (snd (ev_io_start L l io)) = io_fd io"
proof -
  have s: "io_active (snd (ev_io_start L l io))" "same_request (snd (ev_io_start L l io)) io"
    using assms(1) by (auto simp: libev_ok_def)
  then show "io_active (snd (ev_io_start L l io))" "io_fd (snd (ev_io_start L l io)) = io_fd io"
    by (auto simp: same_request_def)
  from s(2) assms(2) show "io_events (snd (ev_io_start L l io)) \<noteq> None"
    "take_bit 2 (the (io_events (snd (ev_io_start L l io)))) = take_bit 2 e"
    by (auto simp: same_request_def)
qed

lemma libev_stopD:
  "libev_ok L \<Longrightarrow> \<not> io_active (snd (ev_io_stop L l io))"
  by (simp add: libev_ok_def)

lemma put_io_started:
  assumes "libev_ok L"
  shows "watched (put_io el a w (ev_io_start L l (ev_io_set io fd e))) a = take_bit 2 e"
    and "io_live (put_io el a w (ev_io_start L l (ev_io_set io fd e))) a"
  using libev_startD [OF assms, of "ev_io_set io fd e" "e OR EV_IOFDSET" l]
  by (simp_all add: watched_def io_live_def put_io_def ev_io_set_def)

lemma start_io_event_watched:
  assumes "libev_ok L" "io_live el a"
  shows "\<exists>el'. start_io_event L el (Some a) fd m = Inr el' \<and> io_live el' a \<and>
    watched el' a = (watched el a OR take_bit 2 m) \<and> io_frame a el el'"
proof -
  obtain w where w: "el_io el a = Some w" "io_active (iw_io w) \<longrightarrow> io_events (iw_io w) \<noteq> None"
    using assms(2) by (auto simp: io_live_def)
  note defs = start_io_event_def get_io_def w(1) TRANS_TO_EV_MASK_eq TRANS_FROM_EV_MASK_eq
  show ?thesis
  proof (cases "io_active (iw_io w)")
    case True
    then obtain e where e: "io_events (iw_io w) = Some e" using w(2) by auto
    have wat: "watched el a = take_bit 2 e" using w(1) True e by (simp add: watched_def)
    show ?thesis
    proof (cases "take_bit 2 e OR m = take_bit 2 e")
      case same: True
      then have "take_bit 2 (take_bit 2 e OR m) = take_bit 2 e" by simp
      then have "take_bit 2 e OR take_bit 2 m = take_bit 2 e" by (simp add: take_bit_or)
      with same True e assms(2) wat show ?thesis by (simp add: defs initialised_def)
    next
      case False
      with True e wat show ?thesis
        using put_io_started [OF assms(1), where el = el and a = a and w = w and fd = fd
            and e = "take_bit 2 (take_bit 2 e OR m)"] io_frame_put_io [OF w(1)]
        by (simp add: defs initialised_def split_beta take_bit_or Let_def)
    qed
  next
    case False
    then have "watched el a = 0" using w(1) by (simp add: watched_def)
    with False show ?thesis
      using put_io_started [OF assms(1), where el = el and a = a and w = w and fd = fd
          and e = "take_bit 2 m"] io_frame_put_io [OF w(1)]
      by (simp add: defs Let_def)
  qed
qed

lemma io_frame_dom: "io_frame i el el' \<Longrightarrow> el_io el' b = None \<longleftrightarrow> el_io el b = None"
proof (cases "b = i")
  case True
  assume "io_frame i el el'"
  then have "map_option iw_cb (el_io el' i) = map_option iw_cb (el_io el i)" by (simp add: io_frame_def)
  with True show ?thesis by (metis map_option_is_None)
qed (simp add: io_frame_def)

text \<open>A watcher that is created and started on a fresh loop.\<close>

lemma fresh_io_started:
  assumes "libev_ok L"
  shows "\<exists>pw el el'. creat_io_event lp cb d = (pw, el) \<and> start_io_event L el pw fd READ = Inr el' \<and>
    pw = Some (el_fresh lp) \<and> (\<forall>j. el_io el' j = None \<longleftrightarrow> j \<noteq> el_fresh lp \<and> el_io lp j = None) \<and>
    el_fresh el' = Suc (el_fresh lp)"
proof -
  obtain pw el where c: "creat_io_event lp cb d = (pw, el)" by fastforce
  then have p: "pw = Some (el_fresh lp)" "io_live el (el_fresh lp)"
    "\<And>j. el_io el j = None \<longleftrightarrow> j \<noteq> el_fresh lp \<and> el_io lp j = None" "el_fresh el = Suc (el_fresh lp)"
    by (auto simp: creat_io_event_def Let_def io_live_def split: if_splits)
  obtain el' where el': "start_io_event L el pw fd READ = Inr el'" "io_frame (el_fresh lp) el el'"
    using start_io_event_watched [OF assms p(2), of fd READ] p(1) by auto
  from el'(2) p(4) have "el_fresh el' = Suc (el_fresh lp)" by (simp add: io_frame_def)
  with c el'(1) p(1,3) io_frame_dom [OF el'(2)] show ?thesis by simp
qed

text \<open>On a running watcher \<open>stop_io_event\<close> removes the masked events; removing all of them stops it.\<close>

lemma stop_io_event_watched:
  assumes "libev_ok L" "io_live el a" "watched el a \<noteq> 0"
  shows "\<exists>el'. stop_io_event L el (Some a) fd m = Inr el' \<and> io_live el' a \<and>
    watched el' a = (watched el a AND NOT m) \<and> io_frame a el el'"
proof -
  obtain w e where w: "el_io el a = Some w" "io_active (iw_io w)" "io_events (iw_io w) = Some e"
    using assms(2,3) by (auto simp: io_live_def watched_def split: option.splits if_splits)
  have wat: "watched el a = take_bit 2 e" using w by (simp add: watched_def)
  note defs = stop_io_event_def get_io_def w(1) w(3) initialised_def TRANS_TO_EV_MASK_eq
    TRANS_FROM_EV_MASK_eq take_bit_not_mask
  show ?thesis
  proof (cases "take_bit 2 e AND NOT m = take_bit 2 e")
    case True
    with wat assms(2) show ?thesis by (simp add: defs Let_def)
  next
    case change: False
    show ?thesis
    proof (cases "take_bit 2 e AND NOT m = 0")
      case True
      then show ?thesis
        using change wat libev_stopD [OF assms(1), of "el_loop el" "iw_io w"] io_frame_put_io [OF w(1)]
        by (simp add: defs EV_NONE_def split_beta Let_def) (simp add: watched_def io_live_def put_io_def)
    next
      case False
      with change wat show ?thesis
        using put_io_started [OF assms(1), where el = el and a = a and w = w and fd = fd
            and e = "take_bit 2 e AND NOT m"] io_frame_put_io [OF w(1)]
        by (simp add: defs EV_NONE_def split_beta take_bit_not_mask Let_def)
    qed
  qed
qed

section \<open>The interest set as an interface\<close>

text \<open>
  What the users of the event loop rely on: each live watcher has a set of events it waits
  for, \<open>start\<close> adds events and \<open>stop\<close> removes them, and other watchers keep theirs.
\<close>

locale interest =
  fixes live :: "'e \<Rightarrow> nat \<Rightarrow> bool"
    and waits :: "'e \<Rightarrow> nat \<Rightarrow> int"
    and start :: "'e \<Rightarrow> nat \<Rightarrow> int \<Rightarrow> int \<Rightarrow> 'e res"
    and stop :: "'e \<Rightarrow> nat \<Rightarrow> int \<Rightarrow> int \<Rightarrow> 'e res"
  assumes start_adds: "live e a \<Longrightarrow> \<exists>e'. start e a fd m = Inr e' \<and> live e' a \<and>
      waits e' a = (waits e a OR take_bit 2 m) \<and> (\<forall>b. b \<noteq> a \<longrightarrow> waits e' b = waits e b \<and> live e' b = live e b)"
    and stop_removes: "live e a \<Longrightarrow> waits e a \<noteq> 0 \<Longrightarrow> \<exists>e'. stop e a fd m = Inr e' \<and> live e' a \<and>
      waits e' a = (waits e a AND NOT m) \<and> (\<forall>b. b \<noteq> a \<longrightarrow> waits e' b = waits e b \<and> live e' b = live e b)"
begin

text \<open>Asking for an event and giving it up again leaves a watcher that waits for another one as it was.\<close>

lemma start_stop_restores:
  assumes "live e a" "waits e a \<noteq> 0" "waits e a AND m = 0" "take_bit 2 m = m"
  shows "\<exists>e1 e2. start e a fd m = Inr e1 \<and> stop e1 a fd m = Inr e2 \<and> live e2 a \<and> waits e2 = waits e"
proof -
  obtain e1 where e1: "start e a fd m = Inr e1" "live e1 a" "waits e1 a = (waits e a OR m)"
    "\<And>b. b \<noteq> a \<Longrightarrow> waits e1 b = waits e b"
    using start_adds [OF assms(1), of fd m] assms(4) by auto
  have "waits e a AND (waits e a OR m) = waits e a" by (rule bit_eqI) (auto simp: bit_simps)
  then have "waits e1 a \<noteq> 0" using assms(2) e1(3) by force
  then obtain e2 where e2: "stop e1 a fd m = Inr e2" "live e2 a" "waits e2 a = (waits e1 a AND NOT m)"
    "\<And>b. b \<noteq> a \<Longrightarrow> waits e2 b = waits e1 b"
    using stop_removes [OF e1(2), of fd m] by auto
  have "(waits e a OR m) AND NOT m = waits e a"
  proof (rule bit_eqI)
    fix n
    have "\<not> bit (waits e a AND m) n" using assms(3) by simp
    then show "bit ((waits e a OR m) AND NOT m) n = bit (waits e a) n" by (auto simp: bit_simps)
  qed
  then have "waits e2 b = waits e b" for b using e1(3,4) e2(3,4) by (cases "b = a") simp_all
  with e1 e2 show ?thesis by blast
qed

end

lemma io_frame_watched:
  "io_frame a el el' \<Longrightarrow> b \<noteq> a \<Longrightarrow> watched el' b = watched el b \<and> io_live el' b = io_live el b"
  by (simp add: io_frame_def watched_def io_live_def)

text \<open>A libev that keeps its promises, as a function: the loop counts its calls.\<close>

definition ex_libev :: "nat libev" where
  "ex_libev = \<lparr>ev_io_start = (\<lambda>l io. (Suc l, io\<lparr>io_active := True\<rparr>)),
     ev_io_stop = (\<lambda>l io. (Suc l, io\<lparr>io_active := False\<rparr>)),
     ev_timer_start = (\<lambda>l t. (Suc l, t\<lparr>tm_active := True\<rparr>)),
     ev_timer_stop = (\<lambda>l t. (Suc l, t\<lparr>tm_active := False\<rparr>)),
     ev_timer_again = (\<lambda>l t. (Suc l, t\<lparr>tm_active := True\<rparr>)),
     ev_break = (\<lambda>l. l), ev_now = (\<lambda>l. of_nat l)\<rparr>"

lemma ex_libev_ok: "libev_ok ex_libev"
  by (simp add: libev_ok_def ex_libev_def same_request_def)

text \<open>
  The wrapper provides this interface on every libev that keeps its promises: a pair of
  such a libev and an event loop is the state.
\<close>

interpretation io_events: interest
  "\<lambda>(L, el) a. libev_ok L \<and> io_live el a" "\<lambda>(L, el). watched el"
  "\<lambda>(L, el) a fd m. res_bind (start_io_event L el (Some a) fd m) (\<lambda>el. Inr (L, el))"
  "\<lambda>(L, el) a fd m. res_bind (stop_io_event L el (Some a) fd m) (\<lambda>el. Inr (L, el))"
proof (unfold_locales, goal_cases)
  case (1 e a fd m)
  obtain L el where e: "e = (L, el)" by (cases e)
  with 1 obtain el' where el': "start_io_event L el (Some a) fd m = Inr el'" "io_live el' a"
    "watched el' a = (watched el a OR take_bit 2 m)" "io_frame a el el'"
    using start_io_event_watched [of L el a fd m] by auto
  show ?case
    using 1 e el' io_frame_watched [OF el'(4)] by (intro exI [of _ "(L, el')"]) simp
next
  case (2 e a fd m)
  obtain L el where e: "e = (L, el)" by (cases e)
  with 2 obtain el' where el': "stop_io_event L el (Some a) fd m = Inr el'" "io_live el' a"
    "watched el' a = (watched el a AND NOT m)" "io_frame a el el'"
    using stop_io_event_watched [of L el a fd m] by auto
  show ?case
    using 2 e el' io_frame_watched [OF el'(4)] by (intro exI [of _ "(L, el')"]) simp
qed

section \<open>Properties\<close>

text \<open>On every libev that keeps its documented promises, asking for the write event of a watcher
  that waits for reading, and giving it up again, succeeds and leaves every watcher waiting for
  exactly what it waited for before.\<close>

theorem write_interest_cycle:
  assumes "libev_ok L" "io_live el a" "watched el a = READ"
  shows "\<exists>el1 el2. start_io_event L el (Some a) fd WRITE = Inr el1 \<and>
    watched el1 a = (READ OR WRITE) \<and>
    stop_io_event L el1 (Some a) fd WRITE = Inr el2 \<and> io_live el2 a \<and> watched el2 = watched el"
proof -
  have m: "take_bit 2 WRITE = WRITE" "watched el a \<noteq> 0" "watched el a AND WRITE = 0"
    using assms(3) by (simp_all add: READ_def WRITE_def)
  obtain el1 where "start_io_event L el (Some a) fd WRITE = Inr el1" "watched el1 a = (READ OR WRITE)"
    using start_io_event_watched [OF assms(1,2), of fd WRITE] m(1) assms(3) by auto
  with io_events.start_stop_restores [of "(L, el)" a WRITE fd] m assms(1,2) show ?thesis
    by (auto simp: res_bind_Inr_iff)
qed

definition ex_loop :: "nat event_loop" where
  "ex_loop = \<lparr>el_loop = 0, el_owner = None,
     el_io = [0 \<mapsto> \<lparr>iw_cb = Conn_io_cb, iw_data = None,
                  iw_io = \<lparr>io_active = True, io_fd = Some 7, io_events = Some 1\<rparr>\<rparr>],
     el_tm = (\<lambda>_. None), el_fresh = 1\<rparr>"

lemma write_interest_cycle_witness:
  "\<exists>el1 el2. start_io_event ex_libev ex_loop (Some 0) 7 WRITE = Inr el1 \<and> watched el1 0 = 3 \<and>
    stop_io_event ex_libev el1 (Some 0) 7 WRITE = Inr el2 \<and> watched el2 = watched ex_loop"
proof -
  have "io_live ex_loop 0" "watched ex_loop 0 = READ"
    by (simp_all add: io_live_def watched_def ex_loop_def READ_def)
  from write_interest_cycle [OF ex_libev_ok this, of 7] show ?thesis
    by (auto simp: READ_def WRITE_def)
qed

end
