(* ===== verification/Fifo_Spec.thy ===== *)
theory Fifo_Spec
  imports Prelude
begin

text \<open>
  The contract every message queue of the server promises its clients: elements
  leave in the order they entered, none is lost and none is invented. The
  lock-free queue (\<open>Lock_Free_Queue\<close>) and the mutex-protected \<open>std::queue\<close> of the
  workers (\<open>Mailbox\<close>) both interpret the locale. The client lemmas are about
  whole histories of operations.
\<close>

text \<open>A history: pushes (with the token the push needs, such as a fresh address) and pops.\<close>

datatype ('n, 'a) qop = Push 'n 'a | Pop

fun spec_run :: "('n, 'a) qop list \<Rightarrow> 'a list \<Rightarrow> 'a option list \<times> 'a list" where
  "spec_run [] xs = ([], xs)"
| "spec_run (Push n x # ops) xs = spec_run ops (xs @ [x])"
| "spec_run (Pop # ops) [] = (let (os, ys) = spec_run ops [] in (None # os, ys))"
| "spec_run (Pop # ops) (x # xs) = (let (os, ys) = spec_run ops xs in (Some x # os, ys))"

fun q_run :: "('n \<Rightarrow> 'a \<Rightarrow> 'q \<Rightarrow> 'q res) \<Rightarrow> ('q \<Rightarrow> ('a option \<times> 'q) res) \<Rightarrow>
    ('n, 'a) qop list \<Rightarrow> 'q \<Rightarrow> ('a option list \<times> 'q) res" where
  "q_run push pop [] q = Inr ([], q)"
| "q_run push pop (Push n x # ops) q = res_bind (push n x q) (q_run push pop ops)"
| "q_run push pop (Pop # ops) q =
     res_bind (pop q) (\<lambda>(r, q). res_bind (q_run push pop ops q) (\<lambda>(os, q). Inr (r # os, q)))"

text \<open>Every push of the history has a token that is good in the state it runs in.\<close>

fun ops_ok :: "('n \<Rightarrow> 'a \<Rightarrow> 'q \<Rightarrow> 'q res) \<Rightarrow> ('q \<Rightarrow> ('a option \<times> 'q) res) \<Rightarrow>
    ('n \<Rightarrow> 'q \<Rightarrow> bool) \<Rightarrow> ('n, 'a) qop list \<Rightarrow> 'q \<Rightarrow> bool" where
  "ops_ok push pop okn [] q \<longleftrightarrow> True"
| "ops_ok push pop okn (Push n x # ops) q \<longleftrightarrow>
     okn n q \<and> (case push n x q of Inl e \<Rightarrow> True | Inr q' \<Rightarrow> ops_ok push pop okn ops q')"
| "ops_ok push pop okn (Pop # ops) q \<longleftrightarrow>
     (case pop q of Inl e \<Rightarrow> True | Inr (r, q') \<Rightarrow> ops_ok push pop okn ops q')"

fun pushed :: "('n, 'a) qop list \<Rightarrow> 'a list" where
  "pushed [] = []"
| "pushed (Push n x # ops) = x # pushed ops"
| "pushed (Pop # ops) = pushed ops"

fun popped :: "'a option list \<Rightarrow> 'a list" where
  "popped [] = []"
| "popped (Some x # os) = x # popped os"
| "popped (None # os) = popped os"

text \<open>In the specification, what was popped followed by what is left is what was there plus what was pushed.\<close>

lemma spec_run_fifo:
  "spec_run ops xs = (os, ys) \<Longrightarrow> popped os @ ys = xs @ pushed ops"
proof (induction ops xs arbitrary: os ys rule: spec_run.induct)
  case (3 ops)
  then show ?case by (auto split: prod.splits)
next
  case (4 ops x xs)
  then show ?case by (auto split: prod.splits)
qed auto

locale fifo_queue =
  fixes rep :: "'q \<Rightarrow> 'a list \<Rightarrow> bool"
    and push :: "'n \<Rightarrow> 'a \<Rightarrow> 'q \<Rightarrow> 'q res"
    and pop :: "'q \<Rightarrow> ('a option \<times> 'q) res"
    and okn :: "'n \<Rightarrow> 'q \<Rightarrow> bool"
  assumes push_rep: "rep q xs \<Longrightarrow> okn n q \<Longrightarrow> \<exists>q'. push n x q = Inr q' \<and> rep q' (xs @ [x])"
    and pop_rep_Cons: "rep q (x # xs) \<Longrightarrow> \<exists>q'. pop q = Inr (Some x, q') \<and> rep q' xs"
    and pop_rep_Nil: "rep q [] \<Longrightarrow> \<exists>q'. pop q = Inr (None, q') \<and> rep q' []"
begin

lemma run_refines_spec:
  assumes "rep q xs" "ops_ok push pop okn ops q"
  shows "\<exists>q'. q_run push pop ops q = Inr (fst (spec_run ops xs), q') \<and>
    rep q' (snd (spec_run ops xs))"
  using assms
proof (induction ops xs arbitrary: q rule: spec_run.induct)
  case (1 xs)
  then show ?case by simp
next
  case (2 n x ops xs)
  then obtain q1 where "push n x q = Inr q1" "rep q1 (xs @ [x])"
    using push_rep by (metis ops_ok.simps(2))
  with 2 show ?case by simp
next
  case (3 ops)
  then obtain q1 where "pop q = Inr (None, q1)" "rep q1 []"
    using pop_rep_Nil by blast
  with "3.prems" "3.IH" [of q1] show ?case by (auto split: prod.splits)
next
  case (4 ops x xs)
  then obtain q1 where "pop q = Inr (Some x, q1)" "rep q1 xs"
    using pop_rep_Cons by blast
  with "4.prems" "4.IH" [of q1] show ?case by (auto split: prod.splits)
qed

lemma run_fifo:
  assumes "rep q xs" "ops_ok push pop okn ops q"
  shows "\<exists>os q' ys. q_run push pop ops q = Inr (os, q') \<and> rep q' ys \<and>
    popped os @ ys = xs @ pushed ops"
proof -
  obtain os ys where sp: "spec_run ops xs = (os, ys)" by fastforce
  with run_refines_spec [OF assms] spec_run_fifo [OF sp] show ?thesis by fastforce
qed

lemma push_then_pop:
  assumes "rep q []" "okn n q"
  shows "\<exists>q1 q2. push n x q = Inr q1 \<and> pop q1 = Inr (Some x, q2) \<and> rep q2 []"
  using push_rep [OF assms] pop_rep_Cons by fastforce

end

end
