(* ===== verification/Lock_Free_Queue.thy ===== *)
theory Lock_Free_Queue
  imports Fifo_Spec
begin

text \<open>
  \<open>LockFreeQueue\<close> of \<open>src/xrtcserver/rtcserver/src/base/Lock_Free_Queue.hpp\<close>: a
  linked list of heap nodes with three pointers. The consumer owns \<open>lf_divider\<close>, the
  producer owns \<open>lf_head\<close> and \<open>lf_tail\<close> and frees the nodes the consumer has passed.

  The heap is an association list from addresses to nodes, so that allocation,
  mutation and \<open>delete\<close> are explicit and a dereference of a freed or null pointer is
  a fault of the model. \<open>operator new\<close> is an argument: the address it returned.
  The first part treats each operation as one step; theory \<open>Lfq_Concurrent\<close>
  interleaves their single statements.
\<close>

section \<open>Definitions\<close>

record 'a node =
  node_data :: 'a
  node_next :: ptr

type_synonym 'a node_heap = "(nat \<times> 'a node) list"

record 'a lfq =
  lf_heap :: "'a node_heap"
  lf_head :: ptr
  lf_divider :: ptr
  lf_tail :: ptr
  lf_size :: int

text \<open>Reading a node through a pointer.\<close>

definition deref :: "'a node_heap \<Rightarrow> ptr \<Rightarrow> 'a node res" where
  "deref h p =
     (case p of None \<Rightarrow> Inl Null_deref
      | Some a \<Rightarrow> (case map_of h a of None \<Rightarrow> Inl Use_after_free | Some n \<Rightarrow> Inr n))"

definition lfq_new :: "nat \<Rightarrow> 'a \<Rightarrow> 'a lfq" where
  "lfq_new a dflt =
     \<lparr>lf_heap = [(a, \<lparr>node_data = dflt, node_next = None\<rparr>)],
      lf_head = Some a, lf_divider = Some a, lf_tail = Some a, lf_size = 0\<rparr>"

text \<open>The loop \<open>while (head_ != divider_) { tmp = head_; head_ = head_->next; delete tmp; }\<close>.\<close>

function reclaim :: "'a node_heap \<Rightarrow> ptr \<Rightarrow> ptr \<Rightarrow> ('a node_heap \<times> ptr) res" where
  "reclaim h p dv =
     (if p = dv then Inr (h, p)
      else case p of
             None \<Rightarrow> Inl Null_deref
           | Some a \<Rightarrow>
               (case map_of h a of
                  None \<Rightarrow> Inl Use_after_free
                | Some n \<Rightarrow> reclaim (AList.delete a h) (node_next n) dv))"
  by pat_completeness auto

lemma length_delete_less: "map_of h a = Some n \<Longrightarrow> length (AList.delete a h) < length h"
proof -
  assume "map_of h a = Some n"
  then have "(a, n) \<in> set h" by (rule map_of_SomeD)
  then show ?thesis
    unfolding AList.delete_eq by (rule length_filter_less) simp
qed

termination reclaim
  by (relation "measure (\<lambda>(h, p, dv). length h)") (auto intro: length_delete_less)

declare reclaim.simps [simp del]

definition produce :: "nat \<Rightarrow> 'a \<Rightarrow> 'a lfq \<Rightarrow> 'a lfq res" where
  "produce a t q =
     (let h = AList.update a \<lparr>node_data = t, node_next = None\<rparr> (lf_heap q)
      in res_bind (deref h (lf_tail q)) (\<lambda>n.
         let h = AList.update (the (lf_tail q)) (n\<lparr>node_next := Some a\<rparr>) h
         in res_bind (deref h (lf_tail q)) (\<lambda>n.
            let tl' = node_next n; sz = i32 (lf_size q + 1)
            in res_bind (reclaim h (lf_head q) (lf_divider q)) (\<lambda>(h, p).
               Inr (q\<lparr>lf_heap := h, lf_head := p, lf_tail := tl', lf_size := sz\<rparr>)))))"

text \<open>\<open>consume\<close> returns the element written through \<open>result\<close>, \<open>None\<close> for \<open>false\<close>.\<close>

definition consume :: "'a lfq \<Rightarrow> ('a option \<times> 'a lfq) res" where
  "consume q =
     (if lf_divider q \<noteq> lf_tail q then
        res_bind (deref (lf_heap q) (lf_divider q)) (\<lambda>d.
        res_bind (deref (lf_heap q) (node_next d)) (\<lambda>n.
          Inr (Some (node_data n),
               q\<lparr>lf_divider := node_next d, lf_size := i32 (lf_size q - 1)\<rparr>)))
      else Inr (None, q))"

definition lfq_empty :: "'a lfq \<Rightarrow> bool" where
  "lfq_empty q \<longleftrightarrow> lf_size q = 0"

definition lfq_size :: "'a lfq \<Rightarrow> int" where
  "lfq_size q = lf_size q"

text \<open>The destructor walks the whole list from \<open>head_\<close> to null: what remains allocated.\<close>

definition lfq_destroy :: "'a lfq \<Rightarrow> 'a lfq res" where
  "lfq_destroy q =
     res_bind (reclaim (lf_heap q) (lf_head q) None) (\<lambda>(h, p).
       Inr (q\<lparr>lf_heap := h, lf_head := p, lf_size := 0\<rparr>))"

section \<open>The invariant: which list a queue represents\<close>

text \<open>\<open>path h p as q\<close>: following \<open>next\<close> from \<open>p\<close> visits the nodes \<open>as\<close> and arrives at \<open>q\<close>.\<close>

fun path :: "'a node_heap \<Rightarrow> ptr \<Rightarrow> nat list \<Rightarrow> ptr \<Rightarrow> bool" where
  "path h p [] q \<longleftrightarrow> p = q"
| "path h p (a # as) q \<longleftrightarrow>
     p = Some a \<and> (case map_of h a of None \<Rightarrow> False | Some n \<Rightarrow> path h (node_next n) as q)"

definition data_at :: "'a node_heap \<Rightarrow> nat \<Rightarrow> 'a" where
  "data_at h a = (case map_of h a of Some n \<Rightarrow> node_data n)"

text \<open>
  Garbage nodes \<open>gs\<close> run from \<open>lf_head\<close> to \<open>lf_divider\<close>; \<open>lf_divider\<close> is a dummy node \<open>d\<close>;
  the nodes \<open>ls\<close> after it hold the queued elements and end at \<open>lf_tail\<close>. Every
  allocated node is on this list and none is on it twice.
\<close>

definition lfq_shape :: "'a lfq \<Rightarrow> nat list \<Rightarrow> nat \<Rightarrow> nat list \<Rightarrow> bool" where
  "lfq_shape q gs d ls \<longleftrightarrow>
     path (lf_heap q) (lf_head q) gs (lf_divider q) \<and>
     path (lf_heap q) (lf_divider q) (d # ls) None \<and>
     lf_tail q = Some (last (d # ls)) \<and>
     distinct (gs @ d # ls) \<and>
     distinct (map fst (lf_heap q)) \<and>
     set (map fst (lf_heap q)) = set (gs @ d # ls)"

definition lfq_rep :: "'a lfq \<Rightarrow> 'a list \<Rightarrow> bool" where
  "lfq_rep q xs \<longleftrightarrow>
     (\<exists>gs d ls. lfq_shape q gs d ls \<and> map (data_at (lf_heap q)) ls = xs \<and>
        lf_size q = i32 (int (length xs)))"

definition lfq_fresh :: "nat \<Rightarrow> 'a lfq \<Rightarrow> bool" where
  "lfq_fresh a q \<longleftrightarrow> a \<notin> set (map fst (lf_heap q))"

section \<open>Lemmas\<close>

lemma path_append: "path h p (as @ bs) q \<longleftrightarrow> (\<exists>r. path h p as r \<and> path h r bs q)"
  by (induction as arbitrary: p) (auto split: option.splits)

lemma path_update_other:
  "a \<notin> set as \<Longrightarrow> path (AList.update a n h) p as q = path h p as q"
  by (induction as arbitrary: p) (auto simp: update_conv split: option.splits)

lemma path_delete_other:
  "a \<notin> set as \<Longrightarrow> path (AList.delete a h) p as q = path h p as q"
  by (induction as arbitrary: p) (auto simp: delete_conv split: option.splits)

lemma path_dom: "path h p as q \<Longrightarrow> set as \<subseteq> set (map fst h)"
  by (induction as arbitrary: p)
     (auto split: option.splits dest!: map_of_SomeD intro: rev_image_eqI)

lemma data_at_update_other [simp]: "a \<noteq> b \<Longrightarrow> data_at (AList.update a n h) b = data_at h b"
  by (simp add: data_at_def update_conv)

lemma data_at_delete_other [simp]: "a \<noteq> b \<Longrightarrow> data_at (AList.delete a h) b = data_at h b"
  by (simp add: data_at_def delete_conv)

lemma data_at_update_same [simp]: "data_at (AList.update a n h) a = node_data n"
  by (simp add: data_at_def update_conv)

text \<open>Appending a node after the last one of a null-terminated path.\<close>

lemma path_link:
  assumes "path h p (as @ [b]) None" "distinct (as @ [b])" "a \<notin> set (as @ [b])"
    "map_of h b = Some n"
  shows "path (AList.update b (n\<lparr>node_next := Some a\<rparr>)
           (AList.update a \<lparr>node_data = t, node_next = None\<rparr> h)) p (as @ [b, a]) None"
  using assms
  by (auto simp: path_append path_update_other update_conv)

text \<open>Freeing the garbage prefix removes exactly its nodes.\<close>

lemma reclaim_path:
  assumes "path h p gs q" "q \<notin> Some ` set gs" "distinct gs" "distinct (map fst h)"
  shows "\<exists>h'. reclaim h p q = Inr (h', q) \<and> distinct (map fst h') \<and>
    (\<forall>a. map_of h' a = (if a \<in> set gs then None else map_of h a))"
  using assms
proof (induction gs arbitrary: h p)
  case Nil
  then show ?case by (simp add: reclaim.simps)
next
  case (Cons g gs)
  from Cons.prems(1) obtain n where p: "p = Some g" and n: "map_of h g = Some n"
    and rest: "path h (node_next n) gs q"
    by (auto split: option.splits)
  let ?h = "AList.delete g h"
  have "path ?h (node_next n) gs q"
    using rest Cons.prems(3) by (simp add: path_delete_other)
  moreover have "q \<notin> Some ` set gs" "distinct gs" "distinct (map fst ?h)"
    using Cons.prems by (auto simp: distinct_delete)
  ultimately obtain h' where h': "reclaim ?h (node_next n) q = Inr (h', q)"
    "distinct (map fst h')"
    "\<forall>a. map_of h' a = (if a \<in> set gs then None else map_of ?h a)"
    using Cons.IH by blast
  moreover have "p \<noteq> q" using p Cons.prems(2) by auto
  ultimately show ?case
    using p n by (auto simp: reclaim.simps [of h] delete_conv')
qed

lemma path_cong_map:
  "(\<And>a. a \<in> set as \<Longrightarrow> map_of h' a = map_of h a) \<Longrightarrow> path h' p as q = path h p as q"
  by (induction as arbitrary: p) (auto split: option.splits)

lemma dom_map_fst: "set (map fst h) = dom (map_of h)"
  by (simp add: dom_map_of_conv_image_fst)

lemma lfq_shape_head: "lfq_shape q gs d ls \<Longrightarrow> lf_divider q = Some d"
  by (simp add: lfq_shape_def)

lemma lfq_new_rep: "lfq_rep (lfq_new a dflt) []"
  unfolding lfq_rep_def lfq_shape_def lfq_new_def
  by (intro exI [of _ "[]"] exI [of _ a]) (simp add: c_int_simps)

lemma lfq_fresh_new: "lfq_fresh a (lfq_new b dflt) \<longleftrightarrow> a \<noteq> b"
  by (simp add: lfq_fresh_def lfq_new_def)

lemma produce_shape:
  assumes sh: "lfq_shape q gs d ls" and fresh: "lfq_fresh a q"
  shows "\<exists>q'. produce a t q = Inr q' \<and> lfq_shape q' [] d (ls @ [a]) \<and>
    map (data_at (lf_heap q')) (ls @ [a]) = map (data_at (lf_heap q)) ls @ [t] \<and>
    lf_size q' = i32 (lf_size q + 1)"
proof -
  obtain as b where dls: "d # ls = as @ [b]" by (metis append_butlast_last_id list.discI)
  let ?h1 = "AList.update a \<lparr>node_data = t, node_next = None\<rparr> (lf_heap q)"
  have pl: "path (lf_heap q) (lf_divider q) (as @ [b]) None"
    using sh dls unfolding lfq_shape_def by metis
  then obtain n where n: "map_of (lf_heap q) b = Some n"
    by (auto simp: path_append split: option.splits)
  let ?h2 = "AList.update b (n\<lparr>node_next := Some a\<rparr>) ?h1"
  have fr: "a \<notin> set (gs @ as @ [b])"
    using sh fresh dls unfolding lfq_shape_def lfq_fresh_def by metis
  then have ab: "a \<noteq> b" by auto
  have tl: "lf_tail q = Some b" using sh dls by (simp add: lfq_shape_def)
  have d: "distinct (gs @ as @ [b])" using sh dls unfolding lfq_shape_def by metis
  have live: "path ?h2 (lf_divider q) (as @ [b, a]) None"
    using pl d fr by (intro path_link) (auto simp: n)
  have garb: "path ?h2 (lf_head q) gs (lf_divider q)"
    using sh d fr by (auto simp: lfq_shape_def path_update_other)
  have dist: "distinct (map fst ?h2)"
    using sh by (simp add: lfq_shape_def distinct_update)
  have dv: "lf_divider q = Some d" using sh by (rule lfq_shape_head)
  have "d \<notin> set gs" "distinct gs" using sh by (auto simp: lfq_shape_def)
  then obtain h' where h': "reclaim ?h2 (lf_head q) (lf_divider q) = Inr (h', lf_divider q)"
    "distinct (map fst h')"
    "\<And>x. map_of h' x = (if x \<in> set gs then None else map_of ?h2 x)"
    using reclaim_path [OF garb _ _ dist] dv by auto
  have keep: "map_of h' x = map_of ?h2 x" if "x \<in> set (as @ [b, a])" for x
    using that h'(3) d fr by auto
  have dls': "d # ls @ [a] = as @ [b, a]" using dls by (simp flip: append_Cons)
  have p': "path h' (Some d) (d # ls @ [a]) None"
    using live path_cong_map [OF keep] dls' dv by metis
  have "dom (map_of (lf_heap q)) = set (gs @ as @ [b])"
    using sh dls dom_map_fst unfolding lfq_shape_def by metis
  then have dom: "dom (map_of h') = set (d # ls @ [a])"
    using d fr h'(3) unfolding dls' by (auto simp: update_conv dom_def split: if_splits)
  have "data_at h' x = data_at (lf_heap q) x" if "x \<in> set (as @ [b])" for x
    using that keep [of x] fr n by (auto simp: data_at_def update_conv)
  moreover have "set ls \<subseteq> set (as @ [b])" by (metis dls set_subset_Cons)
  ultimately have data: "map (data_at h') ls = map (data_at (lf_heap q)) ls"
    by auto
  have at: "data_at h' a = t" using keep [of a] ab by (simp add: data_at_def update_conv)
  let ?q = "q\<lparr>lf_heap := h', lf_head := lf_divider q, lf_tail := Some a,
    lf_size := i32 (lf_size q + 1)\<rparr>"
  have "produce a t q = Inr ?q"
    using tl n ab h'(1) by (simp add: produce_def deref_def update_conv Let_def)
  moreover have "distinct (d # ls @ [a])" unfolding dls' using d fr by auto
  then have "lfq_shape ?q [] d (ls @ [a])"
    unfolding lfq_shape_def dom_map_fst using p' dom h'(2) dv
    by (simp del: path.simps(2))
  ultimately show ?thesis using data at by (intro exI [of _ ?q]) simp
qed

lemma produce_rep:
  assumes "lfq_rep q xs" "lfq_fresh a q"
  shows "\<exists>q'. produce a t q = Inr q' \<and> lfq_rep q' (xs @ [t])"
proof -
  from assms(1) obtain gs d ls where "lfq_shape q gs d ls"
    and "map (data_at (lf_heap q)) ls = xs" "lf_size q = i32 (int (length xs))"
    unfolding lfq_rep_def by blast
  with produce_shape [OF this(1) assms(2), of t] show ?thesis
    unfolding lfq_rep_def by (metis i32_i32_add(1) length_append_singleton of_nat_Suc add.commute)
qed

lemma consume_shape:
  assumes sh: "lfq_shape q gs d (l # ls)"
  shows "consume q = Inr (Some (data_at (lf_heap q) l),
           q\<lparr>lf_divider := Some l, lf_size := i32 (lf_size q - 1)\<rparr>)"
    and "lfq_shape (q\<lparr>lf_divider := Some l, lf_size := s\<rparr>) (gs @ [d]) l ls"
proof -
  from sh obtain m n where mn: "map_of (lf_heap q) d = Some m" "node_next m = Some l"
    "map_of (lf_heap q) l = Some n" "lf_divider q = Some d"
    by (auto simp: lfq_shape_def split: option.splits)
  moreover from sh have "lf_tail q \<noteq> Some d" by (auto simp: lfq_shape_def)
  ultimately show "consume q = Inr (Some (data_at (lf_heap q) l),
           q\<lparr>lf_divider := Some l, lf_size := i32 (lf_size q - 1)\<rparr>)"
    by (simp add: consume_def deref_def data_at_def)
  from sh mn show "lfq_shape (q\<lparr>lf_divider := Some l, lf_size := s\<rparr>) (gs @ [d]) l ls"
    by (auto simp: lfq_shape_def path_append)
qed

lemma consume_rep_Cons:
  assumes "lfq_rep q (x # xs)"
  shows "\<exists>q'. consume q = Inr (Some x, q') \<and> lfq_rep q' xs"
proof -
  from assms obtain gs d l ls where sh: "lfq_shape q gs d (l # ls)"
    and eqs: "data_at (lf_heap q) l = x" "map (data_at (lf_heap q)) ls = xs"
      "lf_size q = i32 (int (length xs) + 1)"
    unfolding lfq_rep_def by (auto simp: map_eq_Cons_conv add.commute)
  then have "i32 (lf_size q - 1) = i32 (int (length xs))"
    using i32_i32_add(1) [of "int (length xs) + 1" "- 1"] by simp
  with consume_shape [OF sh] eqs show ?thesis
    unfolding lfq_rep_def by fastforce
qed

lemma consume_rep_Nil: "lfq_rep q [] \<Longrightarrow> consume q = Inr (None, q)"
  by (auto simp: lfq_rep_def lfq_shape_def consume_def)

text \<open>The destructor frees every node exactly once and faults on none.\<close>

lemma lfq_destroy_shape:
  assumes "lfq_shape q gs d ls"
  shows "\<exists>q'. lfq_destroy q = Inr q' \<and> lf_heap q' = [] \<and> lf_head q' = None"
proof -
  have "path (lf_heap q) (lf_head q) (gs @ d # ls) None"
    using assms unfolding lfq_shape_def path_append by blast
  moreover have "None \<notin> Some ` set (gs @ d # ls)" by auto
  ultimately obtain h' where h': "reclaim (lf_heap q) (lf_head q) None = Inr (h', None)"
    "\<And>a. map_of h' a = (if a \<in> set (gs @ d # ls) then None else map_of (lf_heap q) a)"
    using reclaim_path assms unfolding lfq_shape_def by meson
  moreover have "map_of (lf_heap q) a = None" if "a \<notin> set (gs @ d # ls)" for a
    using that assms unfolding lfq_shape_def by (metis dom_map_fst domIff)
  ultimately have "dom (map_of h') = {}" by (auto simp: dom_def)
  then have "h' = []" by (metis dom_map_fst list.map_disc_iff set_empty2)
  with h'(1) show ?thesis by (simp add: lfq_destroy_def)
qed

section \<open>The queue contract\<close>

interpretation lq: fifo_queue lfq_rep produce consume lfq_fresh
proof unfold_locales
  fix q :: "'a lfq" and xs n x
  show "lfq_rep q xs \<Longrightarrow> lfq_fresh n q \<Longrightarrow> \<exists>q'. produce n x q = Inr q' \<and> lfq_rep q' (xs @ [x])"
    by (rule produce_rep)
  show "lfq_rep q (x # xs) \<Longrightarrow> \<exists>q'. consume q = Inr (Some x, q') \<and> lfq_rep q' xs"
    by (rule consume_rep_Cons)
  show "lfq_rep q [] \<Longrightarrow> \<exists>q'. consume q = Inr (None, q') \<and> lfq_rep q' []"
    using consume_rep_Nil by blast
qed

section \<open>Properties\<close>

text \<open>C10: over the whole life of a queue, from its construction through any history of pushes and pops to its
  destruction, no operation faults; the elements popped, followed by those still queued, are
  the elements pushed, in order; \<open>size\<close> is their number (as an \<open>int\<close>), and the destructor leaves no node behind.\<close>

theorem lfq_life_is_fifo:
  assumes "ops_ok produce consume lfq_fresh ops (lfq_new a dflt)"
  shows "\<exists>os q ys q'. q_run produce consume ops (lfq_new a dflt) = Inr (os, q) \<and> popped os @ ys = pushed ops \<and>
    lfq_size q = i32 (int (length ys)) \<and> lfq_destroy q = Inr q' \<and> lf_heap q' = []"
proof -
  obtain os q ys where run: "q_run produce consume ops (lfq_new a dflt) = Inr (os, q)" "lfq_rep q ys"
    "popped os @ ys = [] @ pushed ops"
    using lq.run_fifo [OF lfq_new_rep assms] by blast
  then obtain gs d ls where sh: "lfq_shape q gs d ls" "length ls = length ys" "lf_size q = i32 (int (length ys))"
    unfolding lfq_rep_def by (metis length_map)
  from lfq_destroy_shape [OF sh(1)] obtain q' where "lfq_destroy q = Inr q'" "lf_heap q' = []" by blast
  with run sh(3) show ?thesis by (auto simp: lfq_size_def)
qed

lemma lfq_life_is_fifo_witness:
  "\<exists>os q ys q'. q_run produce consume [Push 1 (7::int), Push 2 8, Pop, Push 3 9, Pop] (lfq_new 0 0) = Inr (os, q) \<and>
     popped os @ ys = [7, 8, 9] \<and> lfq_size q = i32 (int (length ys)) \<and> lfq_destroy q = Inr q' \<and> lf_heap q' = []"
proof -
  have "ops_ok produce consume lfq_fresh [Push 1 (7::int), Push 2 8, Pop, Push 3 9, Pop] (lfq_new 0 0)"
    by (simp add: lfq_new_def produce_def consume_def deref_def lfq_fresh_def reclaim.simps c_int_simps)
  from lfq_life_is_fifo [OF this] show ?thesis by simp
qed

end
