(* ===== verification/Xhead.thy ===== *)
theory Xhead
  imports Prelude
begin

text \<open>
  The fixed header of a signalling message, \<open>src/xrtcserver/rtcserver/src/base/xhead.hpp\<close>, and
  the message record of \<open>src/xrtcserver/rtcserver/src/xrtcserver_def.hpp\<close> that the signalling and
  the media threads pass to each other. The server reads and writes the header by casting a
  buffer to \<open>xhead_t*\<close>; on the little-endian target without padding that is the byte layout
  of \<open>xhead_at\<close> and \<open>xhead_bytes\<close>.
\<close>

section \<open>The header\<close>

definition XHEAD_SIZE :: int where "XHEAD_SIZE = 36"

definition XHEAD_MAGIC :: u32 where "XHEAD_MAGIC = 0xfb202202"

record xhead_t =
  xh_id :: "16 word"
  xh_version :: "16 word"
  xh_log_id :: u32
  xh_provider :: "byte list"
  xh_magic_num :: u32
  xh_reserved :: u32
  xh_body_len :: u32

text \<open>Reading through a \<open>xhead_t*\<close> that points at the start of \<open>buf\<close>.\<close>

definition xhead_at :: "byte list \<Rightarrow> xhead_t res" where
  "xhead_at buf =
     res_bind (mem_read 0 36 buf) (\<lambda>bs. Inr
       \<lparr>xh_id = word_of_nat (le_nat (take 2 bs)),
        xh_version = word_of_nat (le_nat (take 2 (drop 2 bs))),
        xh_log_id = word_of_nat (le_nat (take 4 (drop 4 bs))),
        xh_provider = take 16 (drop 8 bs),
        xh_magic_num = word_of_nat (le_nat (take 4 (drop 24 bs))),
        xh_reserved = word_of_nat (le_nat (take 4 (drop 28 bs))),
        xh_body_len = word_of_nat (le_nat (take 4 (drop 32 bs)))\<rparr>)"

definition xhead_bytes :: "xhead_t \<Rightarrow> byte list" where
  "xhead_bytes h =
     le_bytes 2 (unat (xh_id h)) @ le_bytes 2 (unat (xh_version h)) @ le_bytes 4 (unat (xh_log_id h)) @
     xh_provider h @ le_bytes 4 (unat (xh_magic_num h)) @ le_bytes 4 (unat (xh_reserved h)) @
     le_bytes 4 (unat (xh_body_len h))"

text \<open>The assignment \<open>xh->body_len = n\<close> through a pointer at the start of \<open>buf\<close>.\<close>

definition set_body_len :: "u32 \<Rightarrow> byte list \<Rightarrow> byte list res" where
  "set_body_len n buf = mem_write 32 (le_bytes 4 (unat n)) buf"

section \<open>Messages between the threads\<close>

definition CMDNO_PUSH :: int where "CMDNO_PUSH = 1"
definition CMDNO_PULL :: int where "CMDNO_PULL = 2"
definition CMDNO_ANSWER :: int where "CMDNO_ANSWER = 3"
definition CMDNO_STOPPUSH :: int where "CMDNO_STOPPUSH = 4"
definition CMDNO_STOPPULL :: int where "CMDNO_STOPPULL = 5"
definition MAX_RES_BUF :: int where "MAX_RES_BUF = 4096"

record rtc_msg =
  m_cmdno :: int
  m_uid :: "64 word"
  m_stream_name :: "byte list"
  m_audio :: int
  m_video :: int
  m_log_id :: u32
  m_worker :: ptr
  m_conn :: ptr
  m_sdp :: "byte list"
  m_err_no :: int
  m_fd :: int

definition RtcMsg_new :: rtc_msg where
  "RtcMsg_new = \<lparr>m_cmdno = -1, m_uid = 0, m_stream_name = [], m_audio = 0, m_video = 0, m_log_id = 0,
     m_worker = None, m_conn = None, m_sdp = [], m_err_no = 0, m_fd = 0\<rparr>"

section \<open>Lemmas\<close>

definition xhead_wf :: "xhead_t \<Rightarrow> bool" where
  "xhead_wf h \<longleftrightarrow> length (xh_provider h) = 16"

lemma length_xhead_bytes: "xhead_wf h \<Longrightarrow> length (xhead_bytes h) = 36"
  by (simp add: xhead_bytes_def xhead_wf_def)

lemma word_le_roundtrip16: "word_of_nat (le_nat (le_bytes 2 (unat (w :: 16 word)))) = w"
proof -
  have "unat w < 2 ^ LENGTH(16)" by (rule unsigned_less)
  then show ?thesis by (simp add: le_nat_le_bytes)
qed

lemma word_le_roundtrip32: "word_of_nat (le_nat (le_bytes 4 (unat (w :: u32)))) = w"
proof -
  have "unat w < 2 ^ LENGTH(32)" by (rule unsigned_less)
  then show ?thesis by (simp add: le_nat_le_bytes)
qed

lemma le_word_roundtrip32: "length bs = 4 \<Longrightarrow> le_bytes 4 (unat (word_of_nat (le_nat bs) :: u32)) = bs"
  using le_nat_bound [of bs] le_bytes_le_nat [of bs]
  by (simp add: unat_of_nat take_bit_nat_eq_self)

lemma le_word_roundtrip16: "length bs = 2 \<Longrightarrow> le_bytes 2 (unat (word_of_nat (le_nat bs) :: 16 word)) = bs"
  using le_nat_bound [of bs] le_bytes_le_nat [of bs]
  by (simp add: unat_of_nat take_bit_nat_eq_self)

lemma take_le_bytes [simp]: "k = n \<Longrightarrow> take k (le_bytes n v @ rest) = le_bytes n v"
  by simp

lemma xhead_at_bytes: "xhead_wf h \<Longrightarrow> xhead_at (xhead_bytes h @ rest) = Inr h"
proof -
  assume wf: "xhead_wf h"
  then have "mem_read 0 36 (xhead_bytes h @ rest) = Inr (xhead_bytes h)"
    by (simp add: length_xhead_bytes)
  then show ?thesis
    using wf
    by (simp add: xhead_at_def xhead_wf_def xhead_bytes_def word_le_roundtrip16 word_le_roundtrip32
        del: le_bytes.simps)
qed

lemma take_drop_split: "take (a + b) (drop c xs) = take a (drop c xs) @ take b (drop (c + a) xs)"
  by (simp add: take_add add.commute)

lemma xhead_bytes_at:
  assumes "36 \<le> length buf"
  shows "\<exists>h. xhead_at buf = Inr h \<and> xhead_wf h \<and> xhead_bytes h = take 36 buf"
proof -
  let ?b = "take 36 buf"
  have "?b = take 2 ?b @ take 2 (drop 2 ?b) @ take 4 (drop 4 ?b) @ take 16 (drop 8 ?b) @
      take 4 (drop 24 ?b) @ take 4 (drop 28 ?b) @ take 4 (drop 32 ?b)"
    using take_drop_split [of 2 34 0 ?b] take_drop_split [of 2 32 2 ?b] take_drop_split [of 4 28 4 ?b]
      take_drop_split [of 16 12 8 ?b] take_drop_split [of 4 8 24 ?b] take_drop_split [of 4 4 28 ?b]
    by (simp del: take_take drop_take)
  then show ?thesis
    using assms
    by (simp add: xhead_at_def xhead_wf_def xhead_bytes_def le_word_roundtrip16 le_word_roundtrip32
        del: le_bytes.simps take_take drop_take)
qed

text \<open>Setting the length field changes that field only.\<close>

lemma xhead_set_body_len:
  assumes "xhead_wf h"
  shows "set_body_len n (xhead_bytes h @ rest) = Inr (xhead_bytes (h\<lparr>xh_body_len := n\<rparr>) @ rest)"
  using assms by (simp add: set_body_len_def mem_write_def overwrite_def xhead_bytes_def xhead_wf_def
      del: le_bytes.simps)

section \<open>Properties\<close>

text \<open>The header layout is a bijection between header values and 36-byte strings: reading the
  bytes of a header gives the header back whatever follows it, and the first 36 bytes of any
  longer buffer are the bytes of the header read there.\<close>

theorem xhead_layout_roundtrip:
  assumes "xhead_wf h" "36 \<le> length buf"
  shows "xhead_at (xhead_bytes h @ rest) = Inr h \<and>
    (\<exists>g. xhead_at buf = Inr g \<and> xhead_wf g \<and> xhead_bytes g = take 36 buf)"
  using xhead_at_bytes [OF assms(1)] xhead_bytes_at [OF assms(2)] by blast

definition ex_head :: xhead_t where
  "ex_head = \<lparr>xh_id = 1, xh_version = 2, xh_log_id = 77, xh_provider = replicate 16 120,
     xh_magic_num = XHEAD_MAGIC, xh_reserved = 0, xh_body_len = 5\<rparr>"

lemma ex_head_wf: "xhead_wf ex_head"
  by (simp add: xhead_wf_def ex_head_def)

lemma xhead_layout_roundtrip_witness:
  "xhead_at (xhead_bytes ex_head @ [1, 2]) = Inr ex_head \<and>
   (\<exists>g. xhead_at (replicate 40 9) = Inr g \<and> xhead_bytes g = replicate 36 9)"
  using xhead_layout_roundtrip [OF ex_head_wf, of "replicate 40 9" "[1, 2]"] by auto

end
