(* ===== verification/Mailbox.thy ===== *)
theory Mailbox
  imports Fifo_Spec Xhead Socket
begin

text \<open>
  How the threads of the server wake each other: a queue of messages and a pipe of integers.
  A sender pushes the message and then writes a notification number to the pipe; the owner's
  event loop reads a number and handles it. This theory has the parts of
  \<open>src/xrtcserver/rtcserver/src/server/signaling_worker.cpp\<close> and \<open>rtc_server.cpp\<close> that other threads call:
  \<open>notify\<close>, \<open>push_msg\<close>, \<open>pop_msg\<close>, \<open>send_rtc_msg\<close>, and the \<open>recv_notify\<close> callbacks that read the pipe.

  The pipe is the list of the integers written and not yet read. A write of one \<open>int\<close> to a
  pipe is atomic (it is shorter than \<open>PIPE_BUF\<close>), so it either appends the whole number or fails;
  which of the two is the environment's answer, a function of what the pipe holds.
\<close>

section \<open>Definitions\<close>

type_synonym pipe_env = "int list \<Rightarrow> unit sysret"

record mailbox =
  mb_q :: "rtc_msg list"
  mb_pipe :: "int list"

definition SignalingWorker_QUIT :: int where "SignalingWorker_QUIT = 0"
definition SignalingWorker_NEW_CONN :: int where "SignalingWorker_NEW_CONN = 1"
definition SignalingWorker_RTC_MSG :: int where "SignalingWorker_RTC_MSG = 2"
definition SignalingServer_QUIT :: int where "SignalingServer_QUIT = 0"
definition RtcServer_QUIT :: int where "RtcServer_QUIT = 0"
definition RtcServer_RTC_MSG :: int where "RtcServer_RTC_MSG = 1"
definition RtcWorker_QUIT :: int where "RtcWorker_QUIT = 0"
definition RtcWorker_RTC_MSG :: int where "RtcWorker_RTC_MSG = 1"

text \<open>
  \<open>write(fd, &msg, sizeof(int))\<close>, and the result \<open>written == sizeof(int) ? 0 : -1\<close> that all four
  \<open>notify\<close> functions return.
\<close>

definition notify_pipe :: "pipe_env \<Rightarrow> int \<Rightarrow> int list \<Rightarrow> int \<times> int list" where
  "notify_pipe pw msg pipe = (case pw pipe of Ok _ \<Rightarrow> (0, pipe @ [msg]) | Fail err \<Rightarrow> (-1, pipe))"

definition SignalingWorker_push_msg :: "rtc_msg \<Rightarrow> mailbox \<Rightarrow> mailbox" where
  "SignalingWorker_push_msg msg mb = mb\<lparr>mb_q := mb_q mb @ [msg]\<rparr>"

definition SignalingWorker_pop_msg :: "mailbox \<Rightarrow> rtc_msg option \<times> mailbox" where
  "SignalingWorker_pop_msg mb =
     (case mb_q mb of [] \<Rightarrow> (None, mb) | msg # rest \<Rightarrow> (Some msg, mb\<lparr>mb_q := rest\<rparr>))"

definition SignalingWorker_notify :: "pipe_env \<Rightarrow> int \<Rightarrow> mailbox \<Rightarrow> int \<times> mailbox" where
  "SignalingWorker_notify pw msg mb =
     (let (r, pipe) = notify_pipe pw msg (mb_pipe mb) in (r, mb\<lparr>mb_pipe := pipe\<rparr>))"

definition SignalingWorker_send_rtc_msg :: "pipe_env \<Rightarrow> rtc_msg \<Rightarrow> mailbox \<Rightarrow> int \<times> mailbox" where
  "SignalingWorker_send_rtc_msg pw msg mb =
     SignalingWorker_notify pw SignalingWorker_RTC_MSG (SignalingWorker_push_msg msg mb)"

definition RtcServer_push_msg :: "rtc_msg \<Rightarrow> mailbox \<Rightarrow> mailbox" where
  "RtcServer_push_msg msg mb = mb\<lparr>mb_q := mb_q mb @ [msg]\<rparr>"

definition RtcServer_pop_msg :: "mailbox \<Rightarrow> rtc_msg option \<times> mailbox" where
  "RtcServer_pop_msg mb =
     (case mb_q mb of [] \<Rightarrow> (None, mb) | msg # rest \<Rightarrow> (Some msg, mb\<lparr>mb_q := rest\<rparr>))"

definition RtcServer_notify :: "pipe_env \<Rightarrow> int \<Rightarrow> mailbox \<Rightarrow> int \<times> mailbox" where
  "RtcServer_notify pw msg mb =
     (let (r, pipe) = notify_pipe pw msg (mb_pipe mb) in (r, mb\<lparr>mb_pipe := pipe\<rparr>))"

definition RtcServer_send_rtc_msg :: "pipe_env \<Rightarrow> rtc_msg \<Rightarrow> mailbox \<Rightarrow> int \<times> mailbox" where
  "RtcServer_send_rtc_msg pw msg mb =
     RtcServer_notify pw RtcServer_RTC_MSG (RtcServer_push_msg msg mb)"

text \<open>
  Reading one notification. The outcome of \<open>read\<close> is an error, the end of the pipe (no bytes),
  or the oldest number. The workers check for a full \<open>int\<close>; the two servers only check for a
  negative result, so at the end of the pipe they use a variable that was never set.
\<close>

datatype pipe_read = Read_error | Read_eof | Read_int

definition recv_strict :: "pipe_read \<Rightarrow> int list \<Rightarrow> (int option \<times> int list) res" where
  "recv_strict r pipe =
     (case r of
        Read_error \<Rightarrow> Inr (None, pipe)
      | Read_eof \<Rightarrow> Inr (None, pipe)
      | Read_int \<Rightarrow> (case pipe of [] \<Rightarrow> Inl Not_finished | m # rest \<Rightarrow> Inr (Some m, rest)))"

definition recv_lax :: "pipe_read \<Rightarrow> int list \<Rightarrow> (int option \<times> int list) res" where
  "recv_lax r pipe =
     (case r of
        Read_error \<Rightarrow> Inr (None, pipe)
      | Read_eof \<Rightarrow> Inl Uninit_read
      | Read_int \<Rightarrow> (case pipe of [] \<Rightarrow> Inl Not_finished | m # rest \<Rightarrow> Inr (Some m, rest)))"

section \<open>The queues keep the queue contract\<close>

interpretation mq: fifo_queue "\<lambda>mb xs. mb_q mb = xs"
  "\<lambda>_ :: unit. \<lambda>msg mb. Inr (SignalingWorker_push_msg msg mb)"
  "\<lambda>mb. Inr (SignalingWorker_pop_msg mb)" "\<lambda>_ _. True"
  by unfold_locales (simp_all add: SignalingWorker_push_msg_def SignalingWorker_pop_msg_def)

interpretation sq: fifo_queue "\<lambda>mb xs. mb_q mb = xs"
  "\<lambda>_ :: unit. \<lambda>msg mb. Inr (RtcServer_push_msg msg mb)"
  "\<lambda>mb. Inr (RtcServer_pop_msg mb)" "\<lambda>_ _. True"
  by unfold_locales (simp_all add: RtcServer_push_msg_def RtcServer_pop_msg_def)

section \<open>Interleaved senders and the owner\<close>

text \<open>
  Any number of threads send to one mailbox while its owner handles notifications. A send is
  two steps, the push under the mutex and the write to the pipe; handling a notification is
  two steps, the read and the pop. \<open>ms_ready\<close> counts senders between their steps, \<open>ms_lost\<close>
  the sends whose notification could not be written, \<open>ms_busy\<close> is the owner between its steps.
\<close>

record mbstate =
  ms_mb :: mailbox
  ms_ready :: nat
  ms_lost :: nat
  ms_busy :: bool
  ms_sent :: "rtc_msg list"
  ms_got :: "rtc_msg option list"

definition mbstate_init :: mbstate where
  "mbstate_init = \<lparr>ms_mb = \<lparr>mb_q = [], mb_pipe = []\<rparr>, ms_ready = 0, ms_lost = 0, ms_busy = False,
     ms_sent = [], ms_got = []\<rparr>"

inductive mb_step :: "pipe_env \<Rightarrow> mbstate \<Rightarrow> mbstate \<Rightarrow> bool" for pw :: pipe_env where
  step_push: "mb_step pw s (s\<lparr>ms_mb := SignalingWorker_push_msg msg (ms_mb s),
     ms_ready := Suc (ms_ready s), ms_sent := ms_sent s @ [msg]\<rparr>)"
| step_notify: "ms_ready s = Suc k \<Longrightarrow> SignalingWorker_notify pw SignalingWorker_RTC_MSG (ms_mb s) = (0, mb) \<Longrightarrow>
     mb_step pw s (s\<lparr>ms_mb := mb, ms_ready := k\<rparr>)"
| step_lost: "ms_ready s = Suc k \<Longrightarrow> SignalingWorker_notify pw SignalingWorker_RTC_MSG (ms_mb s) = (-1, mb) \<Longrightarrow>
     mb_step pw s (s\<lparr>ms_mb := mb, ms_ready := k, ms_lost := Suc (ms_lost s)\<rparr>)"
| step_recv: "\<not> ms_busy s \<Longrightarrow> recv_strict Read_int (mb_pipe (ms_mb s)) = Inr (Some SignalingWorker_RTC_MSG, pipe) \<Longrightarrow>
     mb_step pw s (s\<lparr>ms_mb := (ms_mb s)\<lparr>mb_pipe := pipe\<rparr>, ms_busy := True\<rparr>)"
| step_pop: "ms_busy s \<Longrightarrow> SignalingWorker_pop_msg (ms_mb s) = (r, mb) \<Longrightarrow>
     mb_step pw s (s\<lparr>ms_mb := mb, ms_busy := False, ms_got := ms_got s @ [r]\<rparr>)"

inductive mb_reach :: "pipe_env \<Rightarrow> mbstate \<Rightarrow> bool" for pw :: pipe_env where
  reach_init: "mb_reach pw mbstate_init"
| reach_step: "mb_reach pw s \<Longrightarrow> mb_step pw s s' \<Longrightarrow> mb_reach pw s'"

definition mb_inv :: "mbstate \<Rightarrow> bool" where
  "mb_inv s \<longleftrightarrow>
     set (mb_pipe (ms_mb s)) \<subseteq> {SignalingWorker_RTC_MSG} \<and>
     length (mb_q (ms_mb s)) =
       length (mb_pipe (ms_mb s)) + ms_ready s + ms_lost s + of_bool (ms_busy s) \<and>
     None \<notin> set (ms_got s) \<and>
     ms_sent s = popped (ms_got s) @ mb_q (ms_mb s)"

lemma popped_append [simp]: "popped (xs @ ys) = popped xs @ popped ys"
  by (induction xs rule: popped.induct) simp_all

lemma notify_cases:
  "SignalingWorker_notify pw msg mb = (r, mb') \<Longrightarrow>
   (r = 0 \<and> mb' = mb\<lparr>mb_pipe := mb_pipe mb @ [msg]\<rparr>) \<or> (r = -1 \<and> mb' = mb)"
  by (auto simp: SignalingWorker_notify_def notify_pipe_def split: sysret.splits)

lemma mb_step_inv:
  assumes "mb_step pw s s'" "mb_inv s"
  shows "mb_inv s'"
  using assms
proof (cases rule: mb_step.cases)
  case (step_notify k mb)
  then show ?thesis using assms(2) by (auto simp: mb_inv_def dest!: notify_cases)
next
  case (step_lost k mb)
  then show ?thesis using assms(2) by (auto simp: mb_inv_def dest!: notify_cases)
next
  case (step_recv pipe)
  then show ?thesis using assms(2) by (auto simp: mb_inv_def recv_strict_def split: list.splits)
next
  case (step_pop r mb)
  then show ?thesis using assms(2)
    by (auto simp: mb_inv_def SignalingWorker_pop_msg_def split: list.splits)
qed (use assms(2) in \<open>auto simp: mb_inv_def SignalingWorker_push_msg_def\<close>)

lemma mb_reach_inv: "mb_reach pw s \<Longrightarrow> mb_inv s"
proof (induction rule: mb_reach.induct)
  case (reach_step s s')
  then show ?case by (blast intro: mb_step_inv)
qed (simp add: mb_inv_def mbstate_init_def)

section \<open>Properties\<close>

text \<open>C7: however the senders and the owner of a mailbox interleave, the owner never pops an empty
  queue and receives the messages in the order they were pushed; and once it has handled every
  notification and no sender is between its two steps, the messages still queued are the last ones
  pushed, and there are exactly as many of them as notifications that could not be written.\<close>

theorem mailbox_no_lost_wakeup:
  assumes "mb_reach pw s"
  shows "None \<notin> set (ms_got s) \<and> ms_sent s = popped (ms_got s) @ mb_q (ms_mb s) \<and>
    (mb_pipe (ms_mb s) = [] \<and> ms_ready s = 0 \<and> \<not> ms_busy s \<longrightarrow> length (mb_q (ms_mb s)) = ms_lost s)"
  using mb_reach_inv [OF assms] by (auto simp: mb_inv_def)

lemma mailbox_no_lost_wakeup_witness:
  "\<exists>s. mb_reach (\<lambda>_. Ok ()) s \<and> ms_got s = [Some RtcMsg_new] \<and> ms_sent s = [RtcMsg_new] \<and> mb_q (ms_mb s) = []"
proof -
  let ?pw = "\<lambda>_. Ok () :: unit sysret"
  let ?s1 = "mbstate_init\<lparr>ms_mb := SignalingWorker_push_msg RtcMsg_new (ms_mb mbstate_init),
     ms_ready := Suc (ms_ready mbstate_init), ms_sent := ms_sent mbstate_init @ [RtcMsg_new]\<rparr>"
  let ?s2 = "?s1\<lparr>ms_mb := \<lparr>mb_q = [RtcMsg_new], mb_pipe = [2]\<rparr>, ms_ready := 0\<rparr>"
  let ?s3 = "?s2\<lparr>ms_mb := (ms_mb ?s2)\<lparr>mb_pipe := []\<rparr>, ms_busy := True\<rparr>"
  let ?s4 = "?s3\<lparr>ms_mb := \<lparr>mb_q = [], mb_pipe = []\<rparr>, ms_busy := False, ms_got := ms_got ?s3 @ [Some RtcMsg_new]\<rparr>"
  have "mb_step ?pw mbstate_init ?s1" by (rule step_push)
  moreover have "mb_step ?pw ?s1 ?s2"
    by (rule step_notify) (simp_all add: mbstate_init_def SignalingWorker_push_msg_def
        SignalingWorker_notify_def notify_pipe_def SignalingWorker_RTC_MSG_def)
  moreover have "mb_step ?pw ?s2 ?s3"
    by (rule step_recv) (simp_all add: recv_strict_def SignalingWorker_RTC_MSG_def mbstate_init_def)
  moreover have "mb_step ?pw ?s3 ?s4"
    by (rule step_pop) (simp_all add: SignalingWorker_pop_msg_def)
  ultimately have r: "mb_reach ?pw ?s4" using reach_init reach_step by meson
  have "ms_sent ?s4 = [RtcMsg_new]" by (simp add: mbstate_init_def)
  with mailbox_no_lost_wakeup [OF r] r show ?thesis
    by (intro exI [of _ ?s4]) (simp add: mbstate_init_def)
qed

end
