(* ===== verification/Rtc_Worker.thy ===== *)
theory Rtc_Worker
  imports Event_Loop Lock_Free_Queue Mailbox
begin

text \<open>
  A media worker, \<open>src/xrtcserver/rtcserver/src/server/rtc_worker.hpp\<close> and \<open>rtc_worker.cpp\<close>: a thread
  that takes requests from its lock-free queue and sends the answer back to the signalling
  worker the request came from. A \<open>shared_ptr\<close> is an optional message. The signalling workers
  are a map from their addresses to their mailboxes, the only part of them this code touches.
\<close>

section \<open>State\<close>

record 'l rtc_worker =
  rw_this :: nat
  rw_id :: int
  rw_worker_num :: int
  rw_el :: "'l event_loop"
  rw_notify_recv_fd :: int
  rw_notify_send_fd :: int
  rw_pipe_watcher :: ptr
  rw_thread :: bool
  rw_q :: "rtc_msg option lfq"
  rw_pipe :: "int list"
  rw_closed :: "int list"

definition RtcWorker_new :: "nat \<Rightarrow> 'l \<Rightarrow> nat \<Rightarrow> int \<Rightarrow> int \<Rightarrow> 'l rtc_worker" where
  "RtcWorker_new this l a worker_id worker_num =
     \<lparr>rw_this = this, rw_id = worker_id, rw_worker_num = worker_num, rw_el = EventLoop_new l (Some this),
      rw_notify_recv_fd = -1, rw_notify_send_fd = -1, rw_pipe_watcher = None, rw_thread = False,
      rw_q = lfq_new a None, rw_pipe = [], rw_closed = []\<rparr>"

definition RtcWorker_init ::
  "'l libev \<Rightarrow> (int \<times> int) sysret \<Rightarrow> 'l rtc_worker \<Rightarrow> (int \<times> 'l rtc_worker) res" where
  "RtcWorker_init L p rw =
     (case p of
        Fail err \<Rightarrow> Inr (-1, rw)
      | Ok (fd0, fd1) \<Rightarrow>
          let (pw, el) = creat_io_event (rw_el rw) Rtc_worker_recv_notify (Some (rw_this rw))
          in res_bind (start_io_event L el pw fd0 READ) (\<lambda>el.
               Inr (0, rw\<lparr>rw_notify_recv_fd := fd0, rw_notify_send_fd := fd1, rw_pipe_watcher := pw, rw_el := el\<rparr>)))"

definition RtcWorker_start :: "'l rtc_worker \<Rightarrow> bool \<times> 'l rtc_worker" where
  "RtcWorker_start rw = (if rw_thread rw then (False, rw) else (True, rw\<lparr>rw_thread := True\<rparr>))"

definition RtcWorker_notify :: "pipe_env \<Rightarrow> int \<Rightarrow> 'l rtc_worker \<Rightarrow> int \<times> 'l rtc_worker" where
  "RtcWorker_notify pw msg rw = (let (r, pipe) = notify_pipe pw msg (rw_pipe rw) in (r, rw\<lparr>rw_pipe := pipe\<rparr>))"

definition RtcWorker_stop :: "pipe_env \<Rightarrow> 'l rtc_worker \<Rightarrow> 'l rtc_worker" where
  "RtcWorker_stop pw rw = snd (RtcWorker_notify pw RtcWorker_QUIT rw)"

text \<open>\<open>_stop\<close>, in the worker's own thread.\<close>

definition rw_stop :: "'l libev \<Rightarrow> 'l rtc_worker \<Rightarrow> 'l rtc_worker res" where
  "rw_stop L rw =
     (if \<not> rw_thread rw then Inr rw
      else res_bind (delete_io_event L (rw_el rw) (rw_pipe_watcher rw)) (\<lambda>el.
        Inr (rw\<lparr>rw_el := el_stop L el, rw_closed := rw_closed rw @ [rw_notify_recv_fd rw, rw_notify_send_fd rw]\<rparr>)))"

section \<open>Messages\<close>

definition RtcWorker_push_msg :: "nat \<Rightarrow> rtc_msg option \<Rightarrow> 'l rtc_worker \<Rightarrow> 'l rtc_worker res" where
  "RtcWorker_push_msg a msg rw = res_bind (produce a msg (rw_q rw)) (\<lambda>q. Inr (rw\<lparr>rw_q := q\<rparr>))"

definition RtcWorker_pop_msg :: "'l rtc_worker \<Rightarrow> (rtc_msg option option \<times> 'l rtc_worker) res" where
  "RtcWorker_pop_msg rw = res_bind (consume (rw_q rw)) (\<lambda>(r, q). Inr (r, rw\<lparr>rw_q := q\<rparr>))"

definition RtcWorker_send_rtc_msg ::
  "pipe_env \<Rightarrow> nat \<Rightarrow> rtc_msg option \<Rightarrow> 'l rtc_worker \<Rightarrow> (int \<times> 'l rtc_worker) res" where
  "RtcWorker_send_rtc_msg pw a msg rw =
     res_bind (RtcWorker_push_msg a msg rw) (\<lambda>rw. Inr (RtcWorker_notify pw RtcWorker_RTC_MSG rw))"

type_synonym signaling_mailboxes = "nat \<Rightarrow> mailbox option"

definition offer :: "byte list" where
  "offer = map (word_of_nat \<circ> of_char) ''offer''"

definition rw_process_push :: "pipe_env \<Rightarrow> rtc_msg \<Rightarrow> signaling_mailboxes \<Rightarrow> signaling_mailboxes res" where
  "rw_process_push pw msg sw =
     (let msg = msg\<lparr>m_sdp := offer\<rparr>
      in case m_worker msg of
           None \<Rightarrow> Inr sw
         | Some a \<Rightarrow> (case sw a of
                          None \<Rightarrow> Inl Use_after_free
                        | Some mb \<Rightarrow> Inr (sw(a \<mapsto> snd (SignalingWorker_send_rtc_msg pw msg mb)))))"

definition rw_process_rtc_msg ::
  "pipe_env \<Rightarrow> 'l rtc_worker \<Rightarrow> signaling_mailboxes \<Rightarrow> ('l rtc_worker \<times> signaling_mailboxes) res" where
  "rw_process_rtc_msg pw rw sw =
     res_bind (RtcWorker_pop_msg rw) (\<lambda>(r, rw).
       case r of
         None \<Rightarrow> Inr (rw, sw)
       | Some None \<Rightarrow> Inl Null_deref
       | Some (Some msg) \<Rightarrow>
           if m_cmdno msg = CMDNO_PUSH
           then res_bind (rw_process_push pw msg sw) (\<lambda>sw. Inr (rw, sw))
           else Inr (rw, sw))"

definition rw_process_notify :: "'l libev \<Rightarrow> pipe_env \<Rightarrow> int \<Rightarrow> 'l rtc_worker \<Rightarrow> signaling_mailboxes \<Rightarrow>
    ('l rtc_worker \<times> signaling_mailboxes) res" where
  "rw_process_notify L pw msg rw sw =
     (if msg = RtcWorker_QUIT then res_bind (rw_stop L rw) (\<lambda>rw. Inr (rw, sw))
      else if msg = RtcWorker_RTC_MSG then rw_process_rtc_msg pw rw sw
      else Inr (rw, sw))"

definition rtc_worker_recv_notify :: "'l libev \<Rightarrow> pipe_env \<Rightarrow> pipe_read \<Rightarrow> 'l rtc_worker \<Rightarrow> signaling_mailboxes \<Rightarrow>
    ('l rtc_worker \<times> signaling_mailboxes) res" where
  "rtc_worker_recv_notify L pw r rw sw =
     res_bind (recv_strict r (rw_pipe rw)) (\<lambda>(msg, pipe).
       let rw = rw\<lparr>rw_pipe := pipe\<rparr>
       in case msg of None \<Rightarrow> Inr (rw, sw) | Some msg \<Rightarrow> rw_process_notify L pw msg rw sw)"

section \<open>Lemmas\<close>

text \<open>The messages a worker's queue holds.\<close>

definition rw_holds :: "'l rtc_worker \<Rightarrow> rtc_msg list \<Rightarrow> bool" where
  "rw_holds rw msgs \<longleftrightarrow> lfq_rep (rw_q rw) (map Some msgs)"

lemma RtcWorker_send_holds:
  assumes "rw_holds rw msgs" "lfq_fresh a (rw_q rw)"
  shows "\<exists>r rw'. RtcWorker_send_rtc_msg pw a (Some msg) rw = Inr (r, rw') \<and> rw_holds rw' (msgs @ [msg]) \<and>
    rw_pipe rw' = snd (notify_pipe pw RtcWorker_RTC_MSG (rw_pipe rw))"
proof -
  obtain q where "produce a (Some msg) (rw_q rw) = Inr q" "lfq_rep q (map Some msgs @ [Some msg])"
    using produce_rep [of "rw_q rw" "map Some msgs" a] assms by (auto simp: rw_holds_def)
  then show ?thesis
    by (auto simp: RtcWorker_send_rtc_msg_def RtcWorker_push_msg_def RtcWorker_notify_def rw_holds_def
        split: prod.splits)
qed

text \<open>Handling one notification takes the oldest request and answers it.\<close>

lemma rw_process_rtc_msg_push:
  assumes q: "rw_holds rw (msg # msgs)" and push: "m_cmdno msg = CMDNO_PUSH"
    and sw: "m_worker msg = Some a" "sw a = Some mb"
  shows "\<exists>rw'. rw_process_rtc_msg pw rw sw =
      Inr (rw', sw(a \<mapsto> snd (SignalingWorker_send_rtc_msg pw (msg\<lparr>m_sdp := offer\<rparr>) mb))) \<and>
    rw_holds rw' msgs \<and> rw_pipe rw' = rw_pipe rw"
proof -
  obtain q' where "consume (rw_q rw) = Inr (Some (Some msg), q')" "lfq_rep q' (map Some msgs)"
    using consume_rep_Cons [of "rw_q rw" "Some msg" "map Some msgs"] q by (auto simp: rw_holds_def)
  then show ?thesis
    using push sw
    by (auto simp: rw_process_rtc_msg_def RtcWorker_pop_msg_def rw_process_push_def rw_holds_def Let_def)
qed

end
