(* ===== verification/Crc32.thy ===== *)
theory Crc32
  imports Prelude
begin

unbundle bit_operations_syntax

text \<open>
  The table-driven checksum of \<open>src/xrtcserver/rtcbase/src/rtc_base/crc32.cc\<close> and
  \<open>crc32.h\<close>, with which the RTC server picks the worker of a stream, and its
  equivalence with the bit-by-bit definition of CRC-32.
\<close>

section \<open>Definitions\<close>

definition kCrc32Polynomial :: u32 where
  "kCrc32Polynomial = 0xEDB88320"

text \<open>The body of the inner loop of \<open>LoadCrc32Table\<close>, and the loop itself.\<close>

definition crc_bit :: "u32 \<Rightarrow> u32" where
  "crc_bit c = (if c AND 1 \<noteq> 0 then kCrc32Polynomial XOR drop_bit 1 c else drop_bit 1 c)"

fun crc_bits :: "nat \<Rightarrow> u32 \<Rightarrow> u32" where
  "crc_bits 0 c = c"
| "crc_bits (Suc j) c = crc_bits j (crc_bit c)"

definition LoadCrc32Table :: "u32 list" where
  "LoadCrc32Table = map (\<lambda>i. crc_bits 8 (word_of_nat i)) [0..<256]"

text \<open>The loop of \<open>UpdateCrc32\<close> over the bytes of the buffer; the index is always below 256.\<close>

fun crc_loop :: "u32 list \<Rightarrow> u32 \<Rightarrow> byte list \<Rightarrow> u32" where
  "crc_loop tab c [] = c"
| "crc_loop tab c (u # us) =
     crc_loop tab (tab ! unat ((c XOR ucast u) AND 0xFF) XOR drop_bit 8 c) us"

definition UpdateCrc32 :: "u32 \<Rightarrow> byte list \<Rightarrow> u32" where
  "UpdateCrc32 start buf = crc_loop LoadCrc32Table (start XOR 0xFFFFFFFF) buf XOR 0xFFFFFFFF"

definition ComputeCrc32 :: "byte list \<Rightarrow> u32" where
  "ComputeCrc32 buf = UpdateCrc32 0 buf"

text \<open>The reference: shift each byte into the register and divide bit by bit.\<close>

fun crc_ref_loop :: "u32 \<Rightarrow> byte list \<Rightarrow> u32" where
  "crc_ref_loop c [] = c"
| "crc_ref_loop c (u # us) = crc_ref_loop (crc_bits 8 (c XOR ucast u)) us"

definition crc32_ref :: "byte list \<Rightarrow> u32" where
  "crc32_ref buf = crc_ref_loop 0xFFFFFFFF buf XOR 0xFFFFFFFF"

section \<open>Lemmas\<close>

lemma and_1_ne_0: "(c :: u32) AND 1 \<noteq> 0 \<longleftrightarrow> bit c 0"
  by (simp add: bit_0 and_one_eq odd_iff_mod_2_eq_one)

lemma crc_bit_0 [simp]: "crc_bit 0 = 0"
  by (simp add: crc_bit_def)

text \<open>One division step, hence any number of them, is linear.\<close>

lemma crc_bit_xor: "crc_bit (a XOR b) = crc_bit a XOR crc_bit b"
  unfolding crc_bit_def and_1_ne_0
  by (cases "bit a 0"; cases "bit b 0") (simp_all add: bit_xor_iff drop_bit_xor ac_simps)

lemma crc_bits_xor: "crc_bits n (a XOR b) = crc_bits n a XOR crc_bits n b"
  by (induction n arbitrary: a b) (simp_all add: crc_bit_xor)

text \<open>While the low bits are zero the division only shifts.\<close>

lemma crc_bits_shift:
  "(\<And>i. i < n \<Longrightarrow> \<not> bit c i) \<Longrightarrow> crc_bits n c = drop_bit n c"
proof (induction n arbitrary: c)
  case 0
  then show ?case by simp
next
  case (Suc n)
  from Suc.prems have "crc_bit c = drop_bit 1 c"
    unfolding crc_bit_def and_1_ne_0 by simp
  moreover from Suc.prems have "\<not> bit (drop_bit 1 c) i" if "i < n" for i
    using that by (simp add: bit_drop_bit_eq)
  ultimately show ?case by (simp add: Suc.IH drop_bit_drop_bit)
qed

lemma split_low_byte: "(c :: u32) = (c AND 0xFF) XOR (c AND NOT 0xFF)"
  by (rule bit_eqI) (auto simp: bit_simps)

lemma mask8: "(0xFF :: u32) = mask 8"
  by (simp add: mask_eq_exp_minus_1)

lemma crc_bits_8: "crc_bits 8 c = crc_bits 8 (c AND 0xFF) XOR drop_bit 8 c"
proof -
  have "crc_bits 8 (c AND NOT 0xFF) = drop_bit 8 (c AND NOT 0xFF)"
    by (rule crc_bits_shift) (simp add: bit_simps mask8 del: mask_numeral)
  also have "\<dots> = drop_bit 8 c"
    by (rule bit_eqI) (auto simp: bit_simps mask8 simp del: mask_numeral dest: bit_imp_le_length)
  finally show ?thesis
    by (subst split_low_byte [of c]) (simp add: crc_bits_xor)
qed

lemma low_byte_bound: "unat ((c :: u32) AND 0xFF) < 256"
proof -
  have "unat (c AND 0xFF) \<le> unat (0xFF :: u32)"
    by (rule word_and_le1 [THEN word_le_nat_alt [THEN iffD1]])
  then show ?thesis by simp
qed

lemma table_lookup: "LoadCrc32Table ! unat (c AND 0xFF) = crc_bits 8 (c AND 0xFF)"
  using low_byte_bound [of c] by (simp add: LoadCrc32Table_def)

lemma drop_byte [simp]: "drop_bit 8 (ucast (u :: byte) :: u32) = 0"
  by (rule bit_eqI) (auto simp: bit_simps dest: bit_imp_le_length)

lemma crc_loop_table: "crc_loop LoadCrc32Table c us = crc_ref_loop c us"
proof (induction us arbitrary: c)
  case (Cons u us)
  have "LoadCrc32Table ! unat ((c XOR ucast u) AND 0xFF) XOR drop_bit 8 c
      = crc_bits 8 (c XOR ucast u)"
    by (simp add: table_lookup crc_bits_8 [of "c XOR ucast u"])
  then show ?case by (simp add: Cons.IH)
qed simp

lemma crc_ref_loop_append: "crc_ref_loop c (as @ bs) = crc_ref_loop (crc_ref_loop c as) bs"
  by (induction as arbitrary: c) simp_all

lemma ComputeCrc32_ref: "ComputeCrc32 buf = crc32_ref buf"
  by (simp add: ComputeCrc32_def UpdateCrc32_def crc32_ref_def crc_loop_table)

section \<open>Properties\<close>

text \<open>C16: The table-driven checksum of the library is CRC-32: for every byte string it
  equals the reference that feeds the bytes through the division one bit at a time.\<close>

theorem crc32_matches_reference: "ComputeCrc32 buf = crc32_ref buf"
  by (rule ComputeCrc32_ref)

text \<open>As the header documents, feeding a second buffer to the checksum of the first
  gives the checksum of the concatenation, for any starting value.\<close>

lemma crc32_incremental: "UpdateCrc32 (UpdateCrc32 start as) bs = UpdateCrc32 start (as @ bs)"
  by (simp add: UpdateCrc32_def crc_loop_table crc_ref_loop_append xor.assoc)

end
