(* ===== verification/Rtc_Server.thy ===== *)
theory Rtc_Server
  imports Rtc_Worker Crc32
begin

text \<open>
  The dispatcher of the media workers, \<open>src/xrtcserver/rtcserver/src/server/rtc_server.hpp\<close> and
  \<open>rtc_server.cpp\<close>: requests arrive in its mailbox, and each is handed to the worker its stream
  name hashes to. The YAML library is an argument: \<open>load conf_file\<close> is the \<open>worker_num\<close> entry, \<open>None\<close> where
  the library throws.
\<close>

section \<open>State\<close>

record 'l rtc_server =
  rs_this :: nat
  rs_el :: "'l event_loop"
  rs_worker_num :: int
  rs_pipe_watcher :: ptr
  rs_notify_recv_fd :: int
  rs_notify_send_fd :: int
  rs_thread :: bool
  rs_mb :: mailbox
  rs_workers :: "'l rtc_worker list"
  rs_closed :: "int list"

definition RtcServer_new :: "nat \<Rightarrow> 'l \<Rightarrow> 'l rtc_server" where
  "RtcServer_new this l =
     \<lparr>rs_this = this, rs_el = EventLoop_new l (Some this), rs_worker_num = 0, rs_pipe_watcher = None,
      rs_notify_recv_fd = -1, rs_notify_send_fd = -1, rs_thread = False, rs_mb = \<lparr>mb_q = [], mb_pipe = []\<rparr>,
      rs_workers = [], rs_closed = []\<rparr>"

text \<open>
  The destructor calls \<open>clear\<close> on the vector inside the loop over it: with more than one worker the
  loop goes on with an iterator into a vector that has no elements any more.
\<close>

definition RtcServer_destroy :: "'l rtc_server \<Rightarrow> 'l rtc_server res" where
  "RtcServer_destroy rs =
     (case rs_workers rs of
        [] \<Rightarrow> Inr (rs\<lparr>rs_thread := False\<rparr>)
      | [w] \<Rightarrow> Inr (rs\<lparr>rs_thread := False, rs_workers := []\<rparr>)
      | _ \<Rightarrow> Inl Use_after_free)"

text \<open>What creating a worker draws from its surroundings: addresses, a new loop, a pipe.\<close>

record 'l rw_res =
  rr_this :: nat
  rr_loop :: 'l
  rr_dummy :: nat
  rr_pipe :: "(int \<times> int) sysret"

definition create_rtc_worker ::
  "'l libev \<Rightarrow> 'l rw_res \<Rightarrow> int \<Rightarrow> 'l rtc_server \<Rightarrow> (int \<times> 'l rtc_server) res" where
  "create_rtc_worker L rr worker_id rs =
     (let rw = RtcWorker_new (rr_this rr) (rr_loop rr) (rr_dummy rr) worker_id (rs_worker_num rs)
      in res_bind (RtcWorker_init L (rr_pipe rr) rw) (\<lambda>(r, rw).
           if r \<noteq> 0 then Inr (-1, rs)
           else let (ok, rw) = RtcWorker_start rw
                in if \<not> ok then Inr (-1, rs) else Inr (0, rs\<lparr>rs_workers := rs_workers rs @ [rw]\<rparr>)))"

text \<open>\<open>for (int i = 0; i < options_.worker_num; i++) if (_create_worker(i) != 0) return -1;\<close>\<close>

fun create_rtc_workers ::
  "'l libev \<Rightarrow> (nat \<Rightarrow> 'l rw_res) \<Rightarrow> nat list \<Rightarrow> 'l rtc_server \<Rightarrow> (int \<times> 'l rtc_server) res" where
  "create_rtc_workers L rr [] rs = Inr (0, rs)"
| "create_rtc_workers L rr (i # is) rs =
     res_bind (create_rtc_worker L (rr i) (int i) rs) (\<lambda>(r, rs).
       if r \<noteq> 0 then Inr (-1, rs) else create_rtc_workers L rr is rs)"

text \<open>An empty file name is only logged.\<close>

definition RtcServer_Init :: "'l libev \<Rightarrow> (byte list \<Rightarrow> int option) \<Rightarrow> (int \<times> int) sysret \<Rightarrow> (nat \<Rightarrow> 'l rw_res) \<Rightarrow>
    byte list \<Rightarrow> 'l rtc_server \<Rightarrow> (int \<times> 'l rtc_server) res" where
  "RtcServer_Init L load p rr conf_file rs =
     (case load conf_file of
        None \<Rightarrow> Inr (-1, rs)
      | Some n \<Rightarrow>
          let rs = rs\<lparr>rs_worker_num := n\<rparr>
          in (case p of
                Fail err \<Rightarrow> Inr (-1, rs)
              | Ok (fd0, fd1) \<Rightarrow>
                  let (pw, el) = creat_io_event (rs_el rs) Rtc_server_recv_notify (Some (rs_this rs))
                  in res_bind (start_io_event L el pw fd0 READ) (\<lambda>el.
                       create_rtc_workers L rr [0..<nat n]
                         (rs\<lparr>rs_notify_recv_fd := fd0, rs_notify_send_fd := fd1, rs_pipe_watcher := pw, rs_el := el\<rparr>))))"

definition RtcServer_start :: "'l rtc_server \<Rightarrow> bool \<times> 'l rtc_server" where
  "RtcServer_start rs = (if rs_thread rs then (False, rs) else (True, rs\<lparr>rs_thread := True\<rparr>))"

definition RtcServer_stop :: "pipe_env \<Rightarrow> 'l rtc_server \<Rightarrow> 'l rtc_server" where
  "RtcServer_stop pw rs = rs\<lparr>rs_mb := snd (RtcServer_notify pw RtcServer_QUIT (rs_mb rs))\<rparr>"

text \<open>\<open>_stop\<close>: it asks every worker to quit and waits for it (the \<open>join\<close> is not modelled).\<close>

definition rs_stop :: "'l libev \<Rightarrow> pipe_env \<Rightarrow> 'l rtc_server \<Rightarrow> 'l rtc_server res" where
  "rs_stop L pw rs =
     res_bind (delete_io_event L (rs_el rs) (rs_pipe_watcher rs)) (\<lambda>el.
       Inr (rs\<lparr>rs_el := el_stop L el, rs_closed := rs_closed rs @ [rs_notify_recv_fd rs, rs_notify_send_fd rs],
               rs_workers := map (RtcWorker_stop pw) (rs_workers rs)\<rparr>))"

section \<open>Dispatch\<close>

text \<open>\<open>num % worker_num\<close> converts the \<open>int\<close> to \<open>unsigned\<close>; the result is the index of the worker.\<close>

definition get_worker :: "byte list \<Rightarrow> 'l rtc_server \<Rightarrow> nat option" where
  "get_worker stream_name rs =
     (if length (rs_workers rs) = 0 \<or> int (length (rs_workers rs)) \<noteq> usz (rs_worker_num rs) then None
      else Some (unat (ComputeCrc32 stream_name mod word_of_int (rs_worker_num rs))))"

definition rs_process_rtc_msg :: "pipe_env \<Rightarrow> nat \<Rightarrow> 'l rtc_server \<Rightarrow> 'l rtc_server res" where
  "rs_process_rtc_msg pw a rs =
     (let (msg, mb) = RtcServer_pop_msg (rs_mb rs); rs = rs\<lparr>rs_mb := mb\<rparr>
      in case msg of
           None \<Rightarrow> Inr rs
         | Some msg \<Rightarrow>
             (case get_worker (m_stream_name msg) rs of
                None \<Rightarrow> Inr rs
              | Some i \<Rightarrow>
                  if i < length (rs_workers rs)
                  then res_bind (RtcWorker_send_rtc_msg pw a (Some msg) (rs_workers rs ! i)) (\<lambda>(r, rw).
                         Inr (rs\<lparr>rs_workers := (rs_workers rs)[i := rw]\<rparr>))
                  else Inl Out_of_bounds))"

definition rs_process_notify :: "'l libev \<Rightarrow> pipe_env \<Rightarrow> nat \<Rightarrow> int \<Rightarrow> 'l rtc_server \<Rightarrow> 'l rtc_server res" where
  "rs_process_notify L pw a msg rs =
     (if msg = RtcServer_QUIT then rs_stop L pw rs
      else if msg = RtcServer_RTC_MSG then rs_process_rtc_msg pw a rs
      else Inr rs)"

definition rtc_server_recv_notify :: "'l libev \<Rightarrow> pipe_env \<Rightarrow> nat \<Rightarrow> pipe_read \<Rightarrow> 'l rtc_server \<Rightarrow> 'l rtc_server res" where
  "rtc_server_recv_notify L pw a r rs =
     res_bind (recv_lax r (mb_pipe (rs_mb rs))) (\<lambda>(msg, pipe).
       let rs = rs\<lparr>rs_mb := (rs_mb rs)\<lparr>mb_pipe := pipe\<rparr>\<rparr>
       in case msg of None \<Rightarrow> Inr rs | Some msg \<Rightarrow> rs_process_notify L pw a msg rs)"

section \<open>Lemmas\<close>

text \<open>A server whose \<open>Init\<close> succeeded: as many workers as configured, numbered in order.\<close>

definition rs_ready :: "'l rtc_server \<Rightarrow> bool" where
  "rs_ready rs \<longleftrightarrow> rs_workers rs \<noteq> [] \<and> int (length (rs_workers rs)) = rs_worker_num rs \<and>
     rs_worker_num rs < 2147483648"

definition worker_index :: "nat \<Rightarrow> byte list \<Rightarrow> nat" where
  "worker_index n stream_name = unat (crc32_ref stream_name) mod n"

lemma get_worker_ready:
  assumes "rs_ready rs"
  shows "get_worker sn rs = Some (worker_index (length (rs_workers rs)) sn)"
    and "worker_index (length (rs_workers rs)) sn < length (rs_workers rs)"
proof -
  let ?n = "length (rs_workers rs)"
  have n: "0 < ?n" "?n < 2147483648" "rs_worker_num rs = int ?n" using assms by (auto simp: rs_ready_def)
  then have u: "usz (rs_worker_num rs) = int ?n" by (simp add: usz_id)
  have "unat (word_of_int (rs_worker_num rs) :: u32) = ?n"
    unfolding n(3) using n(2) by (simp add: unat_of_nat take_bit_nat_eq_self)
  then have "unat (ComputeCrc32 sn mod word_of_int (rs_worker_num rs)) = unat (ComputeCrc32 sn) mod ?n"
    by (simp add: unat_mod_distrib)
  moreover have "ComputeCrc32 sn = crc32_ref sn" by (rule ComputeCrc32_ref)
  ultimately show "get_worker sn rs = Some (worker_index ?n sn)"
    using n u by (simp add: get_worker_def worker_index_def)
  show "worker_index ?n sn < ?n" using n(1) by (simp add: worker_index_def)
qed

lemma create_rtc_worker_ok:
  assumes "libev_ok L" "rr_pipe rr = Ok (f0, f1)"
  shows "\<exists>rw. create_rtc_worker L rr i rs = Inr (0, rs\<lparr>rs_workers := rs_workers rs @ [rw]\<rparr>) \<and>
    rw_id rw = i \<and> rw_thread rw \<and> rw_holds rw [] \<and> rw_pipe rw = []"
proof -
  let ?rw = "RtcWorker_new (rr_this rr) (rr_loop rr) (rr_dummy rr) i (rs_worker_num rs)"
  obtain p el where c: "creat_io_event (rw_el ?rw) Rtc_worker_recv_notify (Some (rw_this ?rw)) = (p, el)" by fastforce
  then have p: "p = Some (el_fresh (rw_el ?rw))" "io_live el (el_fresh (rw_el ?rw))"
    by (auto simp: creat_io_event_def Let_def io_live_def)
  obtain el' where "start_io_event L el p f0 READ = Inr el'"
    using start_io_event_watched [OF assms(1) p(2), of f0 READ] p(1) by auto
  with c assms(2) show ?thesis
    by (auto simp: create_rtc_worker_def RtcWorker_init_def RtcWorker_start_def RtcWorker_new_def rw_holds_def
        lfq_new_rep)
qed

lemma create_rtc_workers_ok:
  assumes "libev_ok L" "\<And>i. i \<in> set is \<Longrightarrow> \<exists>f0 f1. rr_pipe (rr i) = Ok (f0, f1)"
  shows "\<exists>rws. create_rtc_workers L rr is rs = Inr (0, rs\<lparr>rs_workers := rs_workers rs @ rws\<rparr>) \<and>
    map rw_id rws = map int is \<and> (\<forall>rw \<in> set rws. rw_thread rw \<and> rw_holds rw [] \<and> rw_pipe rw = [])"
  using assms(2)
proof (induction "is" arbitrary: rs)
  case Nil
  show ?case by (intro exI [of _ "[]"]) simp
next
  case (Cons i "is")
  obtain f0 f1 where f: "rr_pipe (rr i) = Ok (f0, f1)" using Cons.prems [of i] by auto
  obtain rw where rw: "create_rtc_worker L (rr i) (int i) rs = Inr (0, rs\<lparr>rs_workers := rs_workers rs @ [rw]\<rparr>)"
    "rw_id rw = int i" "rw_thread rw" "rw_holds rw []" "rw_pipe rw = []"
    using create_rtc_worker_ok [OF assms(1) f] by blast
  let ?rs = "rs\<lparr>rs_workers := rs_workers rs @ [rw]\<rparr>"
  obtain rws where rws: "create_rtc_workers L rr is ?rs = Inr (0, ?rs\<lparr>rs_workers := rs_workers ?rs @ rws\<rparr>)"
    "map rw_id rws = map int is" "\<forall>rw \<in> set rws. rw_thread rw \<and> rw_holds rw [] \<and> rw_pipe rw = []"
    using Cons.IH [of ?rs] Cons.prems by auto
  show ?case using rw rws by (intro exI [of _ "rw # rws"]) simp
qed

definition rs_watching :: "'l rtc_server \<Rightarrow> bool" where
  "rs_watching rs \<longleftrightarrow> (\<exists>p. rs_pipe_watcher rs = Some p \<and> el_io (rs_el rs) p \<noteq> None)"

lemma RtcServer_Init_ok:
  assumes L: "libev_ok L" and load: "load conf_file = Some n" and n: "0 < n" "n < 2147483648"
    and p: "p = Ok (f0, f1)" "\<And>i. i < nat n \<Longrightarrow> \<exists>f0 f1. rr_pipe (rr i) = Ok (f0, f1)"
  shows "\<exists>rs. RtcServer_Init L load p rr conf_file (RtcServer_new this l) = Inr (0, rs) \<and> rs_ready rs \<and>
    rs_mb rs = \<lparr>mb_q = [], mb_pipe = []\<rparr> \<and> map rw_id (rs_workers rs) = map int [0..<nat n] \<and>
    (\<forall>rw \<in> set (rs_workers rs). rw_thread rw \<and> rw_holds rw [] \<and> rw_pipe rw = []) \<and>
    rs_watching rs \<and> rs_closed rs = [] \<and> rs_notify_recv_fd rs = f0 \<and> rs_notify_send_fd rs = f1 \<and> \<not> rs_thread rs"
proof -
  let ?rs = "(RtcServer_new this l)\<lparr>rs_worker_num := n\<rparr>"
  obtain w el el' where c: "creat_io_event (rs_el ?rs) Rtc_server_recv_notify (Some (rs_this ?rs)) = (w, el)"
    and el': "start_io_event L el w f0 READ = Inr el'" and w: "w = Some (el_fresh (rs_el ?rs))"
      "\<forall>j. el_io el' j = None \<longleftrightarrow> j \<noteq> el_fresh (rs_el ?rs) \<and> el_io (rs_el ?rs) j = None"
    using fresh_io_started [where lp = "rs_el ?rs" and cb = Rtc_server_recv_notify and d = "Some (rs_this ?rs)" and fd = f0, OF L]
    by blast
  let ?rs2 = "?rs\<lparr>rs_notify_recv_fd := f0, rs_notify_send_fd := f1, rs_pipe_watcher := w, rs_el := el'\<rparr>"
  obtain rws where rws: "create_rtc_workers L rr [0..<nat n] ?rs2 = Inr (0, ?rs2\<lparr>rs_workers := rs_workers ?rs2 @ rws\<rparr>)"
    "map rw_id rws = map int [0..<nat n]" "\<forall>rw \<in> set rws. rw_thread rw \<and> rw_holds rw [] \<and> rw_pipe rw = []"
    using create_rtc_workers_ok [OF L, of "[0..<nat n]" rr ?rs2] p(2) by auto
  have len: "length rws = nat n" using arg_cong [OF rws(2), of length] by simp
  have "RtcServer_Init L load p rr conf_file (RtcServer_new this l) =
      Inr (0, ?rs2\<lparr>rs_workers := rs_workers ?rs2 @ rws\<rparr>)"
    using load p(1) c el' rws(1) by (simp add: RtcServer_Init_def)
  moreover have "rws \<noteq> []" using len n(1) by auto
  moreover have "el_io el' (el_fresh (rs_el ?rs)) \<noteq> None" using w(2) by blast
  ultimately show ?thesis using rws len n w(1) by (simp add: rs_ready_def rs_watching_def RtcServer_new_def)
qed

text \<open>When \<open>Init\<close> fails: the worker count cannot be read, or a pipe cannot be made.\<close>

definition rs_init_fails :: "(byte list \<Rightarrow> int option) \<Rightarrow> (int \<times> int) sysret \<Rightarrow> (nat \<Rightarrow> 'l rw_res) \<Rightarrow> byte list \<Rightarrow> bool" where
  "rs_init_fails load p rr conf_file \<longleftrightarrow>
     (case load conf_file of
        None \<Rightarrow> True
      | Some n \<Rightarrow> (\<exists>err. p = Fail err) \<or> (\<exists>i < nat n. \<exists>err. rr_pipe (rr i) = Fail err))"

lemma create_rtc_workers_result:
  assumes "libev_ok L"
  shows "\<exists>r rs'. create_rtc_workers L rr is rs = Inr (r, rs') \<and> (r = 0 \<longleftrightarrow> (\<forall>i \<in> set is. \<forall>err. rr_pipe (rr i) \<noteq> Fail err))"
proof (induction "is" arbitrary: rs)
  case (Cons i "is")
  show ?case
  proof (cases "rr_pipe (rr i)")
    case (Ok f)
    then obtain rw where "create_rtc_worker L (rr i) (int i) rs = Inr (0, rs\<lparr>rs_workers := rs_workers rs @ [rw]\<rparr>)"
      using create_rtc_worker_ok [OF assms, of "rr i" "fst f" "snd f"] by auto
    with Cons.IH [of "rs\<lparr>rs_workers := rs_workers rs @ [rw]\<rparr>"] Ok show ?thesis by auto
  qed (simp add: create_rtc_worker_def RtcWorker_init_def)
qed simp

lemma RtcServer_Init_result:
  assumes L: "libev_ok L"
  shows "\<exists>r rs. RtcServer_Init L load p rr conf_file (RtcServer_new this l) = Inr (r, rs) \<and>
    (r \<noteq> 0 \<longleftrightarrow> rs_init_fails load p rr conf_file)"
proof (cases "load conf_file = None \<or> (\<exists>err. p = Fail err)")
  case False
  then obtain n f0 f1 where n: "load conf_file = Some n" "p = Ok (f0, f1)" by (cases p) auto
  let ?s0 = "(RtcServer_new this l)\<lparr>rs_worker_num := n\<rparr>"
  obtain el where el: "start_io_event L (snd (creat_io_event (rs_el ?s0) Rtc_server_recv_notify (Some (rs_this ?s0))))
      (fst (creat_io_event (rs_el ?s0) Rtc_server_recv_notify (Some (rs_this ?s0)))) f0 READ = Inr el"
    using fresh_io_started [where lp = "rs_el ?s0" and cb = Rtc_server_recv_notify and d = "Some (rs_this ?s0)" and fd = f0, OF L]
    by fastforce
  have "\<exists>rs. RtcServer_Init L load p rr conf_file (RtcServer_new this l) = create_rtc_workers L rr [0..<nat n] rs"
    using n el by (auto simp: RtcServer_Init_def Let_def split_beta)
  then obtain rs where eq: "RtcServer_Init L load p rr conf_file (RtcServer_new this l) =
      create_rtc_workers L rr [0..<nat n] rs" by blast
  show ?thesis
    unfolding eq using create_rtc_workers_result [OF L, of rr "[0..<nat n]" rs] n by (auto simp: rs_init_fails_def)
qed (auto simp: RtcServer_Init_def rs_init_fails_def Let_def split: option.splits)

text \<open>Quitting: the loop is broken, the pipe is closed, and every worker is told to quit.\<close>

lemma rs_stop_ok:
  assumes "rs_watching rs"
  shows "\<exists>el. rs_stop L pw rs = Inr (rs\<lparr>rs_el := el_stop L el,
      rs_closed := rs_closed rs @ [rs_notify_recv_fd rs, rs_notify_send_fd rs],
      rs_workers := map (RtcWorker_stop pw) (rs_workers rs)\<rparr>)"
  using assms by (auto simp: rs_watching_def rs_stop_def delete_io_event_def get_io_def split_beta)

text \<open>Dispatching the oldest message.\<close>

lemma rs_process_rtc_msg_ok:
  assumes ready: "rs_ready rs" and q: "mb_q (rs_mb rs) = msg # rest"
    and i: "i = worker_index (length (rs_workers rs)) (m_stream_name msg)"
    and rw: "rw_holds (rs_workers rs ! i) msgs" "lfq_fresh a (rw_q (rs_workers rs ! i))"
  shows "\<exists>rw'. rs_process_rtc_msg pw a rs =
      Inr (rs\<lparr>rs_mb := (rs_mb rs)\<lparr>mb_q := rest\<rparr>, rs_workers := (rs_workers rs)[i := rw']\<rparr>) \<and>
    rw_holds rw' (msgs @ [msg]) \<and> rw_pipe rw' = snd (notify_pipe pw RtcWorker_RTC_MSG (rw_pipe (rs_workers rs ! i)))"
proof -
  let ?rs = "rs\<lparr>rs_mb := (rs_mb rs)\<lparr>mb_q := rest\<rparr>\<rparr>"
  have "rs_ready ?rs" using ready by (simp add: rs_ready_def)
  from get_worker_ready [OF this, of "m_stream_name msg"] i
  have g: "get_worker (m_stream_name msg) ?rs = Some i" "i < length (rs_workers rs)" by simp_all
  obtain r rw' where rw': "RtcWorker_send_rtc_msg pw a (Some msg) (rs_workers rs ! i) = Inr (r, rw')"
    "rw_holds rw' (msgs @ [msg])" "rw_pipe rw' = snd (notify_pipe pw RtcWorker_RTC_MSG (rw_pipe (rs_workers rs ! i)))"
    using RtcWorker_send_holds [OF rw] by blast
  have "rs_process_rtc_msg pw a rs = Inr (?rs\<lparr>rs_workers := (rs_workers rs)[i := rw']\<rparr>)"
    using q g rw'(1) by (simp add: rs_process_rtc_msg_def RtcServer_pop_msg_def Let_def)
  with rw' show ?thesis by auto
qed

section \<open>Properties\<close>

text \<open>\<open>Init\<close> with a positive worker count starts exactly that many workers, numbered from zero, each
  with an empty queue; afterwards every stream name has a worker, the index is in range, and it
  depends on the name and the number of workers only, as the CRC-32 of the name modulo that number.\<close>

theorem streams_have_one_worker:
  assumes "libev_ok L" "load conf_file = Some n" "0 < n" "n < 2147483648" "p = Ok (f0, f1)"
    "\<And>i. i < nat n \<Longrightarrow> \<exists>f0 f1. rr_pipe (rr i) = Ok (f0, f1)"
  shows "\<exists>rs. RtcServer_Init L load p rr conf_file (RtcServer_new this l) = Inr (0, rs) \<and>
    map rw_id (rs_workers rs) = map int [0..<nat n] \<and>
    (\<forall>rw \<in> set (rs_workers rs). rw_thread rw \<and> rw_holds rw []) \<and>
    (\<forall>sn. get_worker sn rs = Some (unat (crc32_ref sn) mod nat n) \<and>
       unat (crc32_ref sn) mod nat n < length (rs_workers rs))"
proof -
  obtain rs where rs: "RtcServer_Init L load p rr conf_file (RtcServer_new this l) = Inr (0, rs)" "rs_ready rs"
    "map rw_id (rs_workers rs) = map int [0..<nat n]"
    "\<forall>rw \<in> set (rs_workers rs). rw_thread rw \<and> rw_holds rw [] \<and> rw_pipe rw = []"
    using RtcServer_Init_ok [where rr = rr and load = load and conf_file = conf_file, OF assms(1-5)] assms(6) by blast
  have "length (rs_workers rs) = nat n" using arg_cong [OF rs(3), of length] by simp
  with get_worker_ready [OF rs(2)] rs show ?thesis by (auto simp: worker_index_def)
qed

definition ex_rr :: "nat \<Rightarrow> nat rw_res" where
  "ex_rr i = \<lparr>rr_this = 10 + i, rr_loop = 0, rr_dummy = 0, rr_pipe = Ok (20 + int i, 30 + int i)\<rparr>"

lemma streams_have_one_worker_witness:
  "\<exists>rs. RtcServer_Init ex_libev (\<lambda>f. Some 2) (Ok (8, 9)) ex_rr [] (RtcServer_new 1 0) = Inr (0, rs) \<and>
    length (rs_workers rs) = 2 \<and> get_worker [120] rs = Some (unat (crc32_ref [120]) mod 2)"
proof -
  have "\<exists>f0 f1. rr_pipe (ex_rr i) = Ok (f0, f1)" for i by (simp add: ex_rr_def)
  from streams_have_one_worker [OF ex_libev_ok, of "\<lambda>f. Some 2" "[]" 2 "Ok (8, 9)" 8 9 ex_rr 1 0, OF _ _ _ _ this]
  show ?thesis by (auto dest: arg_cong [of _ _ length])
qed

text \<open>C6: a dispatched message is appended to the queue of its stream's worker, behind the earlier ones
  for that worker, its notification is written, and no other worker is touched.\<close>

theorem dispatch_to_stream_worker:
  assumes "rs_ready rs" "mb_q (rs_mb rs) = msg # rest"
    "i = unat (crc32_ref (m_stream_name msg)) mod length (rs_workers rs)"
    "rw_holds (rs_workers rs ! i) msgs" "lfq_fresh a (rw_q (rs_workers rs ! i))"
  shows "\<exists>rw'. rs_process_rtc_msg pw a rs =
      Inr (rs\<lparr>rs_mb := (rs_mb rs)\<lparr>mb_q := rest\<rparr>, rs_workers := (rs_workers rs)[i := rw']\<rparr>) \<and>
    rw_holds rw' (msgs @ [msg]) \<and> rw_pipe rw' = snd (notify_pipe pw RtcWorker_RTC_MSG (rw_pipe (rs_workers rs ! i)))"
  using rs_process_rtc_msg_ok [OF assms(1,2) _ assms(4,5)] assms(3) by (simp add: worker_index_def)

definition ex_rtc_server :: "rtc_msg list \<Rightarrow> nat rtc_server" where
  "ex_rtc_server msgs = (RtcServer_new 1 0)\<lparr>rs_worker_num := 2, rs_mb := \<lparr>mb_q = msgs, mb_pipe = map (\<lambda>_. 1) msgs\<rparr>,
     rs_workers := [RtcWorker_new 10 0 0 0 2, RtcWorker_new 11 0 0 1 2]\<rparr>"

lemma ex_rtc_server_facts:
  "rs_ready (ex_rtc_server msgs)" "length (rs_workers (ex_rtc_server msgs)) = 2"
  "i < 2 \<Longrightarrow> rw_holds (rs_workers (ex_rtc_server msgs) ! i) []"
  "i < 2 \<Longrightarrow> rw_pipe (rs_workers (ex_rtc_server msgs) ! i) = []"
  "i < 2 \<Longrightarrow> lfq_fresh 1 (rw_q (rs_workers (ex_rtc_server msgs) ! i))"
  by (auto simp: ex_rtc_server_def rs_ready_def RtcWorker_new_def rw_holds_def lfq_new_rep lfq_fresh_new
      less_2_cases_iff)

lemma dispatch_to_stream_worker_witness:
  "\<exists>rw'. rs_process_rtc_msg (\<lambda>_. Ok ()) 1 (ex_rtc_server [RtcMsg_new]) =
      Inr ((ex_rtc_server [RtcMsg_new])\<lparr>rs_mb := \<lparr>mb_q = [], mb_pipe = [1]\<rparr>,
              rs_workers := (rs_workers (ex_rtc_server [RtcMsg_new]))[unat (crc32_ref []) mod 2 := rw']\<rparr>) \<and>
    rw_holds rw' [RtcMsg_new] \<and> rw_pipe rw' = [1]"
proof -
  let ?rs = "ex_rtc_server [RtcMsg_new]" and ?i = "unat (crc32_ref []) mod 2"
  have q: "mb_q (rs_mb ?rs) = [RtcMsg_new]" "rs_mb ?rs = \<lparr>mb_q = [RtcMsg_new], mb_pipe = [1]\<rparr>"
    by (simp_all add: ex_rtc_server_def)
  have i: "?i < 2" "?i = unat (crc32_ref (m_stream_name RtcMsg_new)) mod length (rs_workers ?rs)"
    by (simp_all add: ex_rtc_server_facts(2) RtcMsg_new_def)
  from dispatch_to_stream_worker [OF ex_rtc_server_facts(1) q(1) i(2) ex_rtc_server_facts(3,5) [OF i(1)], of "\<lambda>_. Ok ()"]
  show ?thesis
    using ex_rtc_server_facts(4) [OF i(1), of "[RtcMsg_new]"] q(2)
    by (simp add: notify_pipe_def RtcWorker_RTC_MSG_def)
qed

end
