(* ===== verification/Sds.thy ===== *)
theory Sds
  imports Prelude
begin

text \<open>
  The dynamic string library \<open>src/xrtcserver/rtcbase/src/rtc_base/sds.cc\<close> and
  \<open>sds.h\<close>, which holds the receive buffer of every signalling connection.

  A string is its header: the two \<open>int\<close> fields and the allocated bytes of \<open>buf\<close>.
  Every access to \<open>buf\<close> is checked against the allocation. The allocator is an
  argument: which requests succeed, and what bytes fresh memory holds. A failed
  request does not return (\<open>zmalloc\<close> calls the handler, see theory \<open>Zmalloc\<close>), so
  the \<open>NULL\<close> checks of the library are never taken.
\<close>

section \<open>Definitions\<close>

record sdshdr =
  sds_len :: int
  sds_free :: int
  sds_buf :: "byte list"

record mem_env =
  al_ok :: "nat \<Rightarrow> bool"
  al_junk :: "nat \<Rightarrow> byte"

definition SDS_MAX_PREALLOC :: int where
  "SDS_MAX_PREALLOC = 1024 * 1024"

text \<open>The \<open>buf\<close> member of a header allocated with \<open>tot\<close> bytes (the header has 8).\<close>

definition hdr_malloc :: "mem_env \<Rightarrow> int \<Rightarrow> byte list res" where
  "hdr_malloc m tot =
     (if tot < 8 then Inl Out_of_bounds
      else if al_ok m (nat tot) then Inr (map (al_junk m) [0..<nat tot - 8])
      else Inl Oom_abort)"

definition hdr_calloc :: "mem_env \<Rightarrow> int \<Rightarrow> byte list res" where
  "hdr_calloc m tot =
     (if tot < 8 then Inl Out_of_bounds
      else if al_ok m (nat tot) then Inr (replicate (nat tot - 8) 0)
      else Inl Oom_abort)"

definition hdr_realloc :: "mem_env \<Rightarrow> int \<Rightarrow> byte list \<Rightarrow> byte list res" where
  "hdr_realloc m tot buf =
     (if tot < 8 then Inl Out_of_bounds
      else if al_ok m (nat tot)
      then Inr (take (nat tot - 8) buf @ map (al_junk m) [length buf..<nat tot - 8])
      else Inl Oom_abort)"

text \<open>\<open>strlen\<close> on the memory that starts at a \<open>char*\<close>.\<close>

definition c_strlen :: "byte list \<Rightarrow> int res" where
  "c_strlen s =
     (if 0 \<in> set s then Inr (int (length (takeWhile (\<lambda>c. c \<noteq> 0) s))) else Inl Out_of_bounds)"

definition sdslen :: "sdshdr \<Rightarrow> int" where
  "sdslen s = usz (sds_len s)"

definition sdsavail :: "sdshdr \<Rightarrow> int" where
  "sdsavail s = usz (sds_free s)"

text \<open>\<open>init\<close> is \<open>None\<close> for a null pointer, otherwise the memory it points to.\<close>

definition sdsnewlen :: "mem_env \<Rightarrow> byte list option \<Rightarrow> int \<Rightarrow> sdshdr res" where
  "sdsnewlen m init initlen =
     res_bind (case init of
                 Some src \<Rightarrow> hdr_malloc m (usz (8 + initlen + 1))
               | None \<Rightarrow> hdr_calloc m (usz (8 + initlen + 1))) (\<lambda>buf.
     res_bind (if initlen \<noteq> 0 then
                 (case init of
                    None \<Rightarrow> Inr buf
                  | Some src \<Rightarrow> res_bind (mem_read 0 (nat initlen) src) (\<lambda>bs. mem_write 0 bs buf))
               else Inr buf) (\<lambda>buf.
     res_bind (mem_write (nat initlen) [0] buf) (\<lambda>buf.
       Inr \<lparr>sds_len = i32 initlen, sds_free = 0, sds_buf = buf\<rparr>)))"

definition sdsempty :: "mem_env \<Rightarrow> sdshdr res" where
  "sdsempty m = sdsnewlen m (Some [0]) 0"

definition sdsnew :: "mem_env \<Rightarrow> byte list option \<Rightarrow> sdshdr res" where
  "sdsnew m init =
     res_bind (case init of None \<Rightarrow> Inr 0 | Some src \<Rightarrow> c_strlen src) (\<lambda>initlen.
       sdsnewlen m init initlen)"

definition sdsdup :: "mem_env \<Rightarrow> sdshdr \<Rightarrow> sdshdr res" where
  "sdsdup m s = sdsnewlen m (Some (sds_buf s)) (sdslen s)"

definition sdsupdatelen :: "sdshdr \<Rightarrow> sdshdr res" where
  "sdsupdatelen s =
     res_bind (c_strlen (sds_buf s)) (\<lambda>n.
       let reallen = i32 n
       in Inr (s\<lparr>sds_free := i32 (sds_free s + (sds_len s - reallen)), sds_len := reallen\<rparr>))"

definition sdsclear :: "sdshdr \<Rightarrow> sdshdr res" where
  "sdsclear s =
     res_bind (mem_write 0 [0] (sds_buf s)) (\<lambda>buf.
       Inr \<lparr>sds_len = 0, sds_free = i32 (sds_free s + sds_len s), sds_buf = buf\<rparr>)"

definition sdsMakeRoomFor :: "mem_env \<Rightarrow> sdshdr \<Rightarrow> int \<Rightarrow> sdshdr res" where
  "sdsMakeRoomFor m s addlen =
     (if addlen \<le> sdsavail s then Inr s
      else
        let len = sdslen s;
            newlen = usz (len + addlen);
            newlen = (if newlen < SDS_MAX_PREALLOC then usz (newlen * 2)
                      else usz (newlen + SDS_MAX_PREALLOC))
        in res_bind (hdr_realloc m (usz (8 + newlen + 1)) (sds_buf s)) (\<lambda>buf.
             Inr (s\<lparr>sds_buf := buf, sds_free := i32 (newlen - len)\<rparr>)))"

definition sdsRemoveFreeSpace :: "mem_env \<Rightarrow> sdshdr \<Rightarrow> sdshdr res" where
  "sdsRemoveFreeSpace m s =
     res_bind (hdr_realloc m (usz (8 + sds_len s + 1)) (sds_buf s)) (\<lambda>buf.
       Inr (s\<lparr>sds_buf := buf, sds_free := 0\<rparr>))"

definition sdsAllocSize :: "sdshdr \<Rightarrow> int" where
  "sdsAllocSize s = usz (8 + sds_len s + sds_free s + 1)"

definition sdsIncrLen :: "sdshdr \<Rightarrow> int \<Rightarrow> sdshdr res" where
  "sdsIncrLen s incr =
     (if \<not> (sds_free s \<ge> incr) then Inl Assert_failed
      else let len = i32 (sds_len s + incr); free = i32 (sds_free s - incr)
        in if \<not> (free \<ge> 0) then Inl Assert_failed
           else if len < 0 then Inl Out_of_bounds
           else res_bind (mem_write (nat len) [0] (sds_buf s)) (\<lambda>buf.
                  Inr \<lparr>sds_len = len, sds_free = free, sds_buf = buf\<rparr>))"

definition sdsgrowzero :: "mem_env \<Rightarrow> sdshdr \<Rightarrow> int \<Rightarrow> sdshdr res" where
  "sdsgrowzero m s len =
     (let curlen = usz (sds_len s)
      in if len \<le> curlen then Inr s
         else res_bind (sdsMakeRoomFor m s (len - curlen)) (\<lambda>s.
              res_bind (mem_write (nat curlen) (replicate (nat (len - curlen + 1)) 0) (sds_buf s)) (\<lambda>buf.
                let totlen = usz (i32 (sds_len s + sds_free s))
                in Inr \<lparr>sds_len = i32 len, sds_free = i32 (totlen - i32 len), sds_buf = buf\<rparr>)))"

text \<open>\<open>t\<close> is the memory the source pointer refers to; \<open>memcpy\<close> reads \<open>len\<close> bytes of it.\<close>

definition sdscatlen :: "mem_env \<Rightarrow> sdshdr \<Rightarrow> byte list \<Rightarrow> int \<Rightarrow> sdshdr res" where
  "sdscatlen m s t len =
     (let curlen = sdslen s
      in res_bind (sdsMakeRoomFor m s len) (\<lambda>s.
         res_bind (mem_read 0 (nat len) t) (\<lambda>bs.
         res_bind (mem_write (nat curlen) bs (sds_buf s)) (\<lambda>buf.
         res_bind (mem_write (nat (usz (curlen + len))) [0] buf) (\<lambda>buf.
           Inr \<lparr>sds_len = i32 (curlen + len), sds_free = i32 (sds_free s - len), sds_buf = buf\<rparr>)))))"

definition sdscat :: "mem_env \<Rightarrow> sdshdr \<Rightarrow> byte list \<Rightarrow> sdshdr res" where
  "sdscat m s t = res_bind (c_strlen t) (\<lambda>n. sdscatlen m s t n)"

definition sdscatsds :: "mem_env \<Rightarrow> sdshdr \<Rightarrow> sdshdr \<Rightarrow> sdshdr res" where
  "sdscatsds m s t = sdscatlen m s (sds_buf t) (sdslen t)"

definition sdscpylen :: "mem_env \<Rightarrow> sdshdr \<Rightarrow> byte list \<Rightarrow> int \<Rightarrow> sdshdr res" where
  "sdscpylen m s t len =
     res_bind (if usz (i32 (sds_free s + sds_len s)) < len
               then sdsMakeRoomFor m s (usz (len - sds_len s))
               else Inr s) (\<lambda>s.
       let totlen = usz (i32 (sds_free s + sds_len s))
       in res_bind (mem_read 0 (nat len) t) (\<lambda>bs.
          res_bind (mem_write 0 bs (sds_buf s)) (\<lambda>buf.
          res_bind (mem_write (nat len) [0] buf) (\<lambda>buf.
            Inr \<lparr>sds_len = i32 len, sds_free = i32 (totlen - len), sds_buf = buf\<rparr>))))"

definition sdscpy :: "mem_env \<Rightarrow> sdshdr \<Rightarrow> byte list \<Rightarrow> sdshdr res" where
  "sdscpy m s t = res_bind (c_strlen t) (\<lambda>n. sdscpylen m s t n)"

section \<open>Well-formed strings and their value\<close>

text \<open>
  The header describes the allocation exactly, the byte after the string is the
  terminator, and the whole length stays below the range of \<open>int\<close>.
\<close>

definition sds_wf :: "sdshdr \<Rightarrow> bool" where
  "sds_wf s \<longleftrightarrow> 0 \<le> sds_len s \<and> 0 \<le> sds_free s \<and>
     sds_len s + sds_free s + 1 = int (length (sds_buf s)) \<and>
     sds_len s + sds_free s < 2147483647 \<and> sds_buf s ! nat (sds_len s) = 0"

definition sds_val :: "sdshdr \<Rightarrow> byte list" where
  "sds_val s = take (nat (sds_len s)) (sds_buf s)"

definition mem_ok :: "mem_env \<Rightarrow> bool" where
  "mem_ok m \<longleftrightarrow> (\<forall>n. al_ok m n)"

text \<open>Room to add \<open>n\<close> bytes even when the library over-allocates.\<close>

definition fits :: "sdshdr \<Rightarrow> int \<Rightarrow> bool" where
  "fits s n \<longleftrightarrow> 0 \<le> n \<and> sds_len s + n + SDS_MAX_PREALLOC < 2147483647"

section \<open>Lemmas\<close>

lemma sds_val_length [simp]: "sds_wf s \<Longrightarrow> length (sds_val s) = nat (sds_len s)"
  by (auto simp: sds_wf_def sds_val_def min_def)

lemma sdslen_eq [c_int_simps]: "sds_wf s \<Longrightarrow> sdslen s = sds_len s"
  by (simp add: sdslen_def sds_wf_def usz_id)

lemma sdsavail_eq [c_int_simps]: "sds_wf s \<Longrightarrow> sdsavail s = sds_free s"
  by (simp add: sdsavail_def sds_wf_def usz_id)

lemma sdslen_val: "sds_wf s \<Longrightarrow> sdslen s = int (length (sds_val s))"
  by (simp add: sdslen_eq) (simp add: sds_wf_def)

text \<open>Every operation that leaves the value \<open>bs\<close> ends with this: bytes, terminator, header.\<close>

lemma sds_store:
  assumes "length buf = nat len + nat free + 1" "0 \<le> len" "0 \<le> free" "len + free < 2147483647"
    and "take (nat len) buf = bs" "buf ! nat len = 0"
  shows "sds_wf \<lparr>sds_len = len, sds_free = free, sds_buf = buf\<rparr>"
    and "sds_val \<lparr>sds_len = len, sds_free = free, sds_buf = buf\<rparr> = bs"
  using assms by (simp_all add: sds_wf_def sds_val_def)

lemma sdsnewlen_correct:
  assumes "mem_ok m" "0 \<le> n" "n < 2147483647" "nat n \<le> length src"
  shows "\<exists>s. sdsnewlen m (Some src) n = Inr s \<and> sds_wf s \<and> sds_val s = take (nat n) src \<and> sds_free s = 0"
proof -
  let ?raw = "map (al_junk m) [0..<nat n + 1]"
  let ?buf = "overwrite (nat n) [0] (overwrite 0 (take (nat n) src) ?raw)"
  have tt: "usz (8 + n + 1) = n + 9" using assms(2,3) by (simp add: usz_id)
  then have "hdr_malloc m (usz (8 + n + 1)) = Inr ?raw"
    using assms(1,2) by (simp add: hdr_malloc_def mem_ok_def nat_add_distrib)
  then have eq: "sdsnewlen m (Some src) n = Inr \<lparr>sds_len = n, sds_free = 0, sds_buf = ?buf\<rparr>"
    using assms by (auto simp: sdsnewlen_def i32_id)
  have "?buf = take (nat n) src @ [0]"
    using assms(2,4) by (simp add: overwrite_def)
  then show ?thesis
    unfolding eq using sds_store [of ?buf n 0 "take (nat n) src"] assms by (simp add: nth_append)
qed

lemma sdsempty_correct:
  "mem_ok m \<Longrightarrow> \<exists>s. sdsempty m = Inr s \<and> sds_wf s \<and> sds_val s = []"
  unfolding sdsempty_def using sdsnewlen_correct [of m 0 "[0]"] by force

lemma sdsMakeRoomFor_correct:
  assumes wf: "sds_wf s" and ok: "mem_ok m" and fits: "fits s n"
  shows "\<exists>s'. sdsMakeRoomFor m s n = Inr s' \<and> sds_wf s' \<and> sds_val s' = sds_val s \<and>
    sds_len s' = sds_len s \<and> n \<le> sds_free s'"
proof (cases "n \<le> sds_free s")
  case True
  then show ?thesis using wf by (auto simp: sdsMakeRoomFor_def c_int_simps)
next
  case False
  let ?len = "sds_len s"
  define newlen where "newlen = (if ?len + n < SDS_MAX_PREALLOC then (?len + n) * 2
    else ?len + n + SDS_MAX_PREALLOC)"
  have b: "0 \<le> ?len" "0 \<le> n" "?len + n + SDS_MAX_PREALLOC < 2147483647"
    "0 \<le> sds_free s" "?len + sds_free s + 1 = int (length (sds_buf s))"
    using wf fits by (simp_all add: sds_wf_def fits_def)
  then have nl: "?len + n \<le> newlen" "newlen < 2147483647"
    by (auto simp: newlen_def SDS_MAX_PREALLOC_def)
  let ?buf = "sds_buf s @ map (al_junk m) [length (sds_buf s)..<nat newlen + 1]"
  have "length (sds_buf s) \<le> nat newlen + 1" using nl False b by linarith
  then have re: "hdr_realloc m (usz (8 + newlen + 1)) (sds_buf s) = Inr ?buf"
    using ok nl b by (simp add: hdr_realloc_def mem_ok_def usz_id nat_add_distrib del: upt_Suc)
  have u: "usz (?len + n) = ?len + n" using b by (simp add: usz_id SDS_MAX_PREALLOC_def)
  have nl': "(if usz (?len + n) < SDS_MAX_PREALLOC then usz (usz (?len + n) * 2)
      else usz (usz (?len + n) + SDS_MAX_PREALLOC)) = newlen"
    unfolding u newlen_def using b by (simp add: usz_id SDS_MAX_PREALLOC_def)
  have i: "i32 (newlen - ?len) = newlen - ?len" using nl b by (simp add: i32_id)
  have eq: "sdsMakeRoomFor m s n = Inr (s\<lparr>sds_buf := ?buf, sds_free := newlen - ?len\<rparr>)"
    unfolding sdsMakeRoomFor_def Let_def sdslen_eq [OF wf] sdsavail_eq [OF wf] nl' re i
    using False by (simp del: upt_Suc)
  show ?thesis
    unfolding eq using wf nl b False
    by (auto simp: sds_wf_def sds_val_def nth_append simp del: upt_Suc)
qed

lemma sdscatlen_correct:
  assumes wf: "sds_wf s" and ok: "mem_ok m" and fits: "fits s n" and t: "nat n \<le> length t"
  shows "\<exists>s'. sdscatlen m s t n = Inr s' \<and> sds_wf s' \<and> sds_val s' = sds_val s @ take (nat n) t"
proof -
  obtain r where r: "sdsMakeRoomFor m s n = Inr r" "sds_wf r" "sds_val r = sds_val s"
    "sds_len r = sds_len s" "n \<le> sds_free r"
    using sdsMakeRoomFor_correct [OF wf ok fits] by blast
  let ?l = "nat (sds_len s)" and ?bs = "take (nat n) t"
  have b: "0 \<le> sds_len s" "0 \<le> n" "sds_len s + n < 2147483647"
    "length (sds_buf r) = ?l + nat (sds_free r) + 1" "sds_len s + sds_free r < 2147483647"
    using wf fits r(2,4) by (auto simp: sds_wf_def fits_def SDS_MAX_PREALLOC_def)
  let ?buf = "overwrite (?l + nat n) [0] (overwrite ?l ?bs (sds_buf r))"
  have bound: "?l + nat n < length (sds_buf r)" using b r(5) by linarith
  have eq: "sdscatlen m s t n = Inr \<lparr>sds_len = sds_len s + n, sds_free = sds_free r - n, sds_buf = ?buf\<rparr>"
    using r(1) t b bound wf r(5)
    by (simp add: sdscatlen_def c_int_simps usz_id i32_id nat_add_distrib Let_def)
  have ol: "length (overwrite ?l ?bs (sds_buf r)) = length (sds_buf r)"
    using bound t by (intro length_overwrite) simp
  have "take (?l + nat n) ?buf = take (?l + length ?bs) (overwrite ?l ?bs (sds_buf r))"
    using bound t ol by (simp add: buf_simps)
  also have "\<dots> = sds_val s @ ?bs"
    using bound r(3,4) by (subst take_overwrite_upto) (simp_all add: sds_val_def)
  finally have val: "take (?l + nat n) ?buf = sds_val s @ ?bs" .
  have nul: "?buf ! (?l + nat n) = 0" using bound ol by simp
  have lb: "length ?buf = length (sds_buf r)" using bound ol by simp
  show ?thesis
    unfolding eq
    using sds_store [of ?buf "sds_len s + n" "sds_free r - n"] b r(5) val nul lb
    by (simp add: nat_add_distrib)
qed

lemma c_strlen_terminated: "0 \<notin> set bs \<Longrightarrow> c_strlen (bs @ 0 # rest) = Inr (int (length bs))"
proof -
  assume "0 \<notin> set bs"
  then have "takeWhile (\<lambda>c. c \<noteq> 0) (bs @ 0 # rest) = bs" by (induction bs) auto
  then show ?thesis by (simp add: c_strlen_def)
qed

lemma sds_buf_split: "sds_wf s \<Longrightarrow> \<exists>rest. sds_buf s = sds_val s @ 0 # rest"
proof -
  assume wf: "sds_wf s"
  then have "nat (sds_len s) < length (sds_buf s)" "sds_buf s ! nat (sds_len s) = 0"
    by (auto simp: sds_wf_def)
  then have "sds_buf s = take (nat (sds_len s)) (sds_buf s) @ 0 # drop (Suc (nat (sds_len s))) (sds_buf s)"
    by (metis id_take_nth_drop)
  then show ?thesis unfolding sds_val_def by blast
qed

lemma c_strlen_sds:
  assumes "sds_wf s"
  shows "c_strlen (sds_buf s) = Inr (int (length (takeWhile (\<lambda>c. c \<noteq> 0) (sds_val s))))"
proof -
  obtain rest where r: "sds_buf s = sds_val s @ 0 # rest" using sds_buf_split [OF assms] by blast
  show ?thesis unfolding r by (simp add: c_strlen_def takeWhile_tail)
qed

lemma sdscat_correct:
  assumes "sds_wf s" "mem_ok m" "fits s (int (length bs))" "0 \<notin> set bs"
  shows "\<exists>s'. sdscat m s (bs @ 0 # rest) = Inr s' \<and> sds_wf s' \<and> sds_val s' = sds_val s @ bs"
  using sdscatlen_correct [OF assms(1-3), of "bs @ 0 # rest"] assms(4)
  by (simp add: sdscat_def c_strlen_terminated)

lemma sdscatsds_correct:
  assumes "sds_wf s" "mem_ok m" "sds_wf t" "fits s (sds_len t)"
  shows "\<exists>s'. sdscatsds m s t = Inr s' \<and> sds_wf s' \<and> sds_val s' = sds_val s @ sds_val t"
proof -
  have "nat (sds_len t) \<le> length (sds_buf t)" using assms(3) by (auto simp: sds_wf_def)
  then show ?thesis
    using sdscatlen_correct [OF assms(1,2,4)] assms(3)
    by (simp add: sdscatsds_def c_int_simps sds_val_def)
qed

lemma sdsdup_correct:
  assumes "sds_wf s" "mem_ok m"
  shows "\<exists>d. sdsdup m s = Inr d \<and> sds_wf d \<and> sds_val d = sds_val s"
proof -
  have "nat (sds_len s) \<le> length (sds_buf s)" "0 \<le> sds_len s" "sds_len s < 2147483647"
    using assms(1) by (auto simp: sds_wf_def)
  then show ?thesis
    using sdsnewlen_correct [OF assms(2)] assms(1)
    by (fastforce simp: sdsdup_def c_int_simps sds_val_def)
qed

text \<open>Overwriting a string from the start: the value becomes \<open>bs\<close>, the allocation stays.\<close>

lemma sds_replace:
  assumes wf: "sds_wf r" and n: "int (length bs) \<le> sds_len r + sds_free r"
  defines "buf \<equiv> overwrite (length bs) [0] (overwrite 0 bs (sds_buf r))"
  shows "mem_write 0 bs (sds_buf r) = Inr (overwrite 0 bs (sds_buf r))"
    and "mem_write (length bs) [0] (overwrite 0 bs (sds_buf r)) = Inr buf"
    and "sds_wf \<lparr>sds_len = int (length bs), sds_free = sds_len r + sds_free r - int (length bs),
      sds_buf = buf\<rparr>"
    and "sds_val \<lparr>sds_len = int (length bs), sds_free = sds_len r + sds_free r - int (length bs),
      sds_buf = buf\<rparr> = bs"
proof -
  have l: "length bs < length (sds_buf r)" using wf n by (simp add: sds_wf_def)
  then have ol: "length (overwrite 0 bs (sds_buf r)) = length (sds_buf r)" by simp
  show "mem_write 0 bs (sds_buf r) = Inr (overwrite 0 bs (sds_buf r))" using l by simp
  show "mem_write (length bs) [0] (overwrite 0 bs (sds_buf r)) = Inr buf"
    using l ol by (simp add: buf_def)
  have v: "take (length bs) buf = bs"
    unfolding buf_def using l ol by (simp add: overwrite_def)
  have z: "buf ! length bs = 0" unfolding buf_def using l ol by simp
  have lb: "length buf = length (sds_buf r)" unfolding buf_def using l ol by simp
  show "sds_wf \<lparr>sds_len = int (length bs), sds_free = sds_len r + sds_free r - int (length bs),
      sds_buf = buf\<rparr>"
    using wf n z lb by (simp add: sds_wf_def)
  show "sds_val \<lparr>sds_len = int (length bs), sds_free = sds_len r + sds_free r - int (length bs),
      sds_buf = buf\<rparr> = bs"
    using v by (simp add: sds_val_def)
qed

lemma sdscpylen_correct:
  assumes wf: "sds_wf s" and ok: "mem_ok m" and t: "nat n \<le> length t"
    and n: "0 \<le> n" "n + SDS_MAX_PREALLOC < 2147483647"
  shows "\<exists>s'. sdscpylen m s t n = Inr s' \<and> sds_wf s' \<and> sds_val s' = take (nat n) t"
proof -
  let ?grown = "if usz (i32 (sds_free s + sds_len s)) < n
    then sdsMakeRoomFor m s (usz (n - sds_len s)) else Inr s"
  have cap: "usz (i32 (sds_free r + sds_len r)) = sds_len r + sds_free r" if "sds_wf r" for r
    using that by (simp add: sds_wf_def i32_id usz_id add.commute)
  obtain r where r: "?grown = Inr r" "sds_wf r" "n \<le> sds_len r + sds_free r"
  proof (cases "sds_len s + sds_free s < n")
    case True
    have "usz (n - sds_len s) = n - sds_len s"
      using True wf n by (simp add: usz_id sds_wf_def SDS_MAX_PREALLOC_def)
    moreover have "fits s (n - sds_len s)"
      using True wf n by (simp add: fits_def sds_wf_def)
    ultimately show ?thesis
      using sdsMakeRoomFor_correct [OF wf ok, of "n - sds_len s"] True that cap [OF wf] by auto
  next
    case False
    then show ?thesis using that [of s] wf cap [OF wf] by simp
  qed
  have ln: "length (take (nat n) t) = nat n" "int (nat n) = n" using t n by simp_all
  have "int (length (take (nat n) t)) \<le> sds_len r + sds_free r" using ln r(3) by simp
  note rep = sds_replace [OF r(2) this, unfolded ln]
  have "i32 n = n" "i32 (sds_len r + sds_free r - n) = sds_len r + sds_free r - n"
    using n r(2,3) by (simp_all add: i32_id sds_wf_def SDS_MAX_PREALLOC_def)
  then have "sdscpylen m s t n = Inr \<lparr>sds_len = n, sds_free = sds_len r + sds_free r - n,
      sds_buf = overwrite (nat n) [0] (overwrite 0 (take (nat n) t) (sds_buf r))\<rparr>"
    unfolding sdscpylen_def r(1) using t rep(1,2) by (simp add: cap [OF r(2)] Let_def)
  with rep(3,4) show ?thesis by simp
qed

lemma sdsclear_correct:
  assumes "sds_wf s"
  shows "\<exists>s'. sdsclear s = Inr s' \<and> sds_wf s' \<and> sds_val s' = []"
  using assms sds_replace [OF assms, of "[]"]
  by (auto simp: sdsclear_def sds_wf_def i32_id add.commute)

text \<open>
  The idiom the library documents and \<open>read_query\<close> uses: bytes written directly behind
  the string and then accounted for with \<open>sdsIncrLen\<close> are appended to its value.
\<close>

lemma sdsIncrLen_append:
  assumes wf: "sds_wf s" and n: "int (length bs) \<le> sds_free s"
  shows "\<exists>buf s'. mem_write (nat (sds_len s)) bs (sds_buf s) = Inr buf \<and>
    sdsIncrLen (s\<lparr>sds_buf := buf\<rparr>) (int (length bs)) = Inr s' \<and>
    sds_wf s' \<and> sds_val s' = sds_val s @ bs"
proof -
  let ?l = "nat (sds_len s)"
  have b: "0 \<le> sds_len s" "length (sds_buf s) = ?l + nat (sds_free s) + 1"
    "sds_len s + sds_free s < 2147483647" using wf by (auto simp: sds_wf_def)
  then have bound: "?l + length bs < length (sds_buf s)" using n by linarith
  let ?ov = "overwrite ?l bs (sds_buf s)"
  let ?buf = "overwrite (?l + length bs) [0] ?ov"
  have ol: "length ?ov = length (sds_buf s)" using bound by simp
  have e: "nat (sds_len s + int (length bs)) = ?l + length bs" using b(1) by simp
  have "sdsIncrLen (s\<lparr>sds_buf := ?ov\<rparr>) (int (length bs)) =
      Inr \<lparr>sds_len = sds_len s + int (length bs), sds_free = sds_free s - int (length bs),
        sds_buf = ?buf\<rparr>"
    using b n bound ol wf by (simp add: sdsIncrLen_def i32_id e)
  moreover have "take (?l + length bs) ?buf = sds_val s @ bs"
    using bound ol by (simp add: sds_val_def buf_simps)
  ultimately show ?thesis
    using sds_store [of ?buf "sds_len s + int (length bs)" "sds_free s - int (length bs)"]
      b n bound ol by (simp add: e)
qed

lemma sdsgrowzero_correct:
  assumes wf: "sds_wf s" and ok: "mem_ok m" and fits: "sds_len s < n \<Longrightarrow> fits s (n - sds_len s)"
  shows "\<exists>s'. sdsgrowzero m s n = Inr s' \<and> sds_wf s' \<and>
    sds_val s' = sds_val s @ replicate (nat (n - sds_len s)) 0"
proof (cases "n \<le> sds_len s")
  case True
  then show ?thesis using wf by (simp add: sdsgrowzero_def usz_id sds_wf_def)
next
  case False
  then have f: "fits s (n - sds_len s)" using fits by simp
  obtain r where r: "sdsMakeRoomFor m s (n - sds_len s) = Inr r" "sds_wf r"
    "sds_val r = sds_val s" "sds_len r = sds_len s" "n - sds_len s \<le> sds_free r"
    using sdsMakeRoomFor_correct [OF wf ok f] by blast
  let ?l = "nat (sds_len s)" and ?k = "nat (n - sds_len s)"
  have b: "0 \<le> sds_len s" "length (sds_buf r) = ?l + nat (sds_free r) + 1"
    "sds_len s + sds_free r < 2147483647" "0 \<le> sds_free r" "n < 2147483647"
    using r(2,4) f by (auto simp: sds_wf_def fits_def SDS_MAX_PREALLOC_def)
  have k: "nat (n - sds_len s + 1) = ?k + 1" using False by simp
  let ?buf = "overwrite ?l (replicate (?k + 1) 0) (sds_buf r)"
  have bound: "?l + (?k + 1) \<le> length (sds_buf r)" using b r(5) False by linarith
  have "sdsgrowzero m s n = Inr \<lparr>sds_len = n, sds_free = sds_len s + sds_free r - n, sds_buf = ?buf\<rparr>"
    using r False b bound wf
    by (simp add: sdsgrowzero_def usz_id i32_id k Let_def del: replicate.simps(2))
  moreover have "nat n = ?l + ?k" using False b(1) by simp
  moreover have "take (?l + ?k) ?buf = sds_val s @ replicate ?k 0"
    using bound r(4) unfolding r(3) [symmetric]
    by (simp add: overwrite_def sds_val_def replicate_append_same [symmetric])
  moreover have "?buf ! (?l + ?k) = 0"
    using bound by (simp add: overwrite_def nth_append nth_replicate del: replicate.simps(2))
  moreover have "length ?buf = nat n + nat (sds_len s + sds_free r - n) + 1"
    using bound b r(5) False by (subst length_overwrite) auto
  ultimately show ?thesis
    using sds_store [of ?buf n "sds_len s + sds_free r - n" "sds_val s @ replicate ?k 0"] b r(5) False
    by simp
qed

lemma sdsupdatelen_correct:
  assumes wf: "sds_wf s"
  shows "\<exists>s'. sdsupdatelen s = Inr s' \<and> sds_wf s' \<and> sds_val s' = takeWhile (\<lambda>c. c \<noteq> 0) (sds_val s)"
proof -
  define n where "n = length (takeWhile (\<lambda>c. c \<noteq> 0) (sds_val s))"
  obtain rest where r: "sds_buf s = sds_val s @ 0 # rest" using sds_buf_split [OF wf] by blast
  have le: "n \<le> nat (sds_len s)"
    using length_takeWhile_le [of _ "sds_val s"] sds_val_length [OF wf] by (simp add: n_def)
  have b: "int n \<le> sds_len s" "sds_len s + sds_free s < 2147483647" "0 \<le> sds_free s"
    using le wf by (auto simp: sds_wf_def)
  have "take n (sds_val s) = takeWhile (\<lambda>c. c \<noteq> 0) (sds_val s)"
    unfolding n_def by (metis takeWhile_eq_take)
  then have "take n (sds_buf s) = takeWhile (\<lambda>c. c \<noteq> 0) (sds_val s)"
    unfolding r using le sds_val_length [OF wf] by simp
  moreover have "sds_buf s ! n = 0"
  proof (cases "n < length (sds_val s)")
    case True
    then show ?thesis unfolding r using nth_length_takeWhile [of "\<lambda>c. c \<noteq> 0" "sds_val s"]
      by (simp add: nth_append n_def)
  next
    case False
    then have "n = length (sds_val s)" using le sds_val_length [OF wf] by simp
    then show ?thesis unfolding r by simp
  qed
  ultimately show ?thesis
    using c_strlen_sds [OF wf] b wf unfolding n_def [symmetric]
    by (simp add: sdsupdatelen_def i32_id sds_wf_def sds_val_def Let_def)
qed

lemma sdsRemoveFreeSpace_correct:
  assumes wf: "sds_wf s" and ok: "mem_ok m"
  shows "\<exists>s'. sdsRemoveFreeSpace m s = Inr s' \<and> sds_wf s' \<and> sds_val s' = sds_val s"
proof -
  have "0 \<le> sds_len s" "sds_len s < 2147483647" "nat (sds_len s) < length (sds_buf s)"
    using wf by (auto simp: sds_wf_def)
  then show ?thesis using wf ok
    by (auto simp: sdsRemoveFreeSpace_def hdr_realloc_def mem_ok_def usz_id sds_wf_def sds_val_def
        nat_add_distrib)
qed

text \<open>\<open>sdsAllocSize\<close> is the size of the whole allocation: the header and the buffer.\<close>

lemma sdsAllocSize_eq: "sds_wf s \<Longrightarrow> sdsAllocSize s = 8 + int (length (sds_buf s))"
  by (auto simp: sdsAllocSize_def sds_wf_def usz_id)

end
