(* ===== verification/Slice.thy ===== *)
theory Slice
  imports Prelude
begin

text \<open>
  The slice class \<open>src/xrtcserver/rtcbase/src/rtc_base/slice.h\<close>: a reference to a part of a byte
  buffer owned by somebody else. A slice is the memory its pointers point into, the two
  pointers as offsets, and the size; every access is checked against the memory.
\<close>

section \<open>Definitions\<close>

record slice =
  sl_mem :: "byte list"
  sl_buffer :: nat
  sl_data :: nat
  sl_size :: nat

definition Slice_empty :: slice where
  "Slice_empty = \<lparr>sl_mem = [0], sl_buffer = 0, sl_data = 0, sl_size = 0\<rparr>"

definition Slice_make :: "byte list \<Rightarrow> nat \<Rightarrow> nat \<Rightarrow> slice" where
  "Slice_make m d n = \<lparr>sl_mem = m, sl_buffer = d, sl_data = d, sl_size = n\<rparr>"

definition Slice_of_string :: "byte list \<Rightarrow> slice" where
  "Slice_of_string s = Slice_make (s @ [0]) 0 (length s)"

definition Slice_of_cstr :: "byte list \<Rightarrow> slice res" where
  "Slice_of_cstr m =
     (if 0 \<in> set m then Inr (Slice_make m 0 (length (takeWhile (\<lambda>c. c \<noteq> 0) m))) else Inl Out_of_bounds)"

definition slice_is_empty :: "slice \<Rightarrow> bool" where
  "slice_is_empty s \<longleftrightarrow> sl_size s = 0"

definition slice_index :: "slice \<Rightarrow> nat \<Rightarrow> byte res" where
  "slice_index s n =
     (if \<not> n < sl_size s then Inl Assert_failed
      else res_bind (mem_read (sl_data s + n) 1 (sl_mem s)) (\<lambda>bs. Inr (bs ! 0)))"

definition slice_clear :: "slice \<Rightarrow> slice" where
  "slice_clear s = Slice_empty"

definition slice_remove_prefix :: "slice \<Rightarrow> nat \<Rightarrow> slice res" where
  "slice_remove_prefix s n =
     (if \<not> n \<le> sl_size s then Inl Assert_failed
      else Inr (s\<lparr>sl_data := sl_data s + n, sl_size := sl_size s - n\<rparr>))"

definition slice_to_string :: "slice \<Rightarrow> byte list res" where
  "slice_to_string s = mem_read (sl_data s) (sl_size s) (sl_mem s)"

text \<open>\<open>memcmp\<close> on the first \<open>n\<close> bytes of two slices' data.\<close>

definition slice_memcmp :: "slice \<Rightarrow> slice \<Rightarrow> nat \<Rightarrow> int res" where
  "slice_memcmp a b n =
     res_bind (mem_read (sl_data a) n (sl_mem a)) (\<lambda>x.
     res_bind (mem_read (sl_data b) n (sl_mem b)) (\<lambda>y. Inr (c_memcmp x y)))"

definition slice_starts_with :: "slice \<Rightarrow> slice \<Rightarrow> bool res" where
  "slice_starts_with s x =
     (if sl_size s \<ge> sl_size x
      then res_bind (slice_memcmp s x (sl_size x)) (\<lambda>r. Inr (r = 0))
      else Inr False)"

definition slice_eq :: "slice \<Rightarrow> slice \<Rightarrow> bool res" where
  "slice_eq x y =
     (if sl_size x = sl_size y
      then res_bind (slice_memcmp x y (sl_size x)) (\<lambda>r. Inr (r = 0))
      else Inr False)"

definition slice_neq :: "slice \<Rightarrow> slice \<Rightarrow> bool res" where
  "slice_neq x y = res_bind (slice_eq x y) (\<lambda>b. Inr (\<not> b))"

text \<open>\<open>min_len\<close> is an \<open>int\<close>; the call converts it back to \<open>size_t\<close>.\<close>

definition slice_compare :: "slice \<Rightarrow> slice \<Rightarrow> int res" where
  "slice_compare a b =
     (let min_len = i32 (int (if sl_size a < sl_size b then sl_size a else sl_size b))
      in res_bind (slice_memcmp a b (nat (usz min_len))) (\<lambda>r.
           Inr (if r = 0 then if sl_size a < sl_size b then -1 else if sl_size a > sl_size b then 1 else r
                else r)))"

section \<open>Lemmas\<close>

definition slice_wf :: "slice \<Rightarrow> bool" where
  "slice_wf s \<longleftrightarrow> sl_data s + sl_size s \<le> length (sl_mem s)"

definition slice_val :: "slice \<Rightarrow> byte list" where
  "slice_val s = take (sl_size s) (drop (sl_data s) (sl_mem s))"

lemma slice_val_length [simp]: "slice_wf s \<Longrightarrow> length (slice_val s) = sl_size s"
  by (simp add: slice_wf_def slice_val_def)

lemma slice_memcmp_val:
  assumes "slice_wf a" "slice_wf b" "n \<le> sl_size a" "n \<le> sl_size b"
  shows "slice_memcmp a b n = Inr (c_memcmp (take n (slice_val a)) (take n (slice_val b)))"
  using assms by (simp add: slice_memcmp_def slice_wf_def slice_val_def)

lemma slice_starts_with_val:
  assumes "slice_wf s" "slice_wf x"
  shows "slice_starts_with s x = Inr (take (sl_size x) (slice_val s) = slice_val x)"
proof (cases "sl_size x \<le> sl_size s")
  case True
  then show ?thesis
    using assms slice_memcmp_val [OF assms, of "sl_size x"]
      c_memcmp_lexord(1) [of "take (sl_size x) (slice_val s)" "slice_val x"]
    by (simp add: slice_starts_with_def)
next
  case False
  then have "length (take (sl_size x) (slice_val s)) \<noteq> length (slice_val x)" using assms by simp
  then have "take (sl_size x) (slice_val s) \<noteq> slice_val x" by metis
  with False show ?thesis by (simp add: slice_starts_with_def)
qed

lemma slice_compare_eq:
  assumes "slice_wf a" "slice_wf b" "min (sl_size a) (sl_size b) < 2147483648"
  defines "k \<equiv> min (length (slice_val a)) (length (slice_val b))"
  shows "slice_compare a b =
    (let c = c_memcmp (take k (slice_val a)) (take k (slice_val b))
     in Inr (if c = 0 then if sl_size a < sl_size b then -1 else if sl_size a > sl_size b then 1 else 0
             else c))"
proof -
  have k: "k = min (sl_size a) (sl_size b)" using assms by simp
  then have "nat (usz (i32 (int k))) = k" using assms(3) by (simp add: i32_id usz_id)
  moreover have "(if sl_size a < sl_size b then sl_size a else sl_size b) = k" by (simp add: k min_def)
  ultimately show ?thesis
    using slice_memcmp_val [OF assms(1,2), of k] k
    by (simp add: slice_compare_def Let_def)
qed

section \<open>Properties\<close>

text \<open>While the shorter slice is below two gigabytes, \<open>compare\<close> returns without reading
  outside either slice, and its sign is the lexicographic order of the two byte strings.\<close>

theorem slice_compare_is_lexicographic:
  assumes "slice_wf a" "slice_wf b" "min (sl_size a) (sl_size b) < 2147483648"
  shows "\<exists>r. slice_compare a b = Inr r \<and> (r = 0 \<longleftrightarrow> slice_val a = slice_val b) \<and>
    (r < 0 \<longleftrightarrow> (slice_val a, slice_val b) \<in> lexord {(x, y). x < y})"
  using slice_compare_eq [OF assms] memcmp_prefix_order [of "slice_val a" "slice_val b"] assms(1,2)
  by (auto simp: Let_def)

lemma slice_compare_is_lexicographic_witness:
  "\<exists>r. slice_compare (Slice_of_string [1, 2]) (Slice_of_string [1, 3]) = Inr r \<and> r < 0"
  using slice_compare_is_lexicographic [of "Slice_of_string [1, 2]" "Slice_of_string [1, 3]"]
  by (auto simp: Slice_of_string_def Slice_make_def slice_wf_def slice_val_def)

end
