(* ===== verification/Tcp_Connection.thy ===== *)
theory Tcp_Connection
  imports Event_Loop Sds Slice Mailbox
begin

text \<open>
  One signalling connection: the object of \<open>src/xrtcserver/rtcserver/src/server/tcp_connection.hpp\<close> and
  \<open>tcp_connection.cpp\<close>, and the functions of \<open>signaling_worker.cpp\<close> that read requests from it
  (\<open>process_query_buffer\<close>, \<open>process_request_\<close>, \<open>process_push_\<close>).

  The JSON library is not part of the sources: the operations the code calls are the fields
  of a record, and an exception it throws is \<open>None\<close>: \<open>parse\<close> throws on a body nested deeper than its
  \<open>stackLimit\<close> (\<open>json/reader.h\<close>), and no caller of \<open>process_request_\<close> catches that. The loop of \<open>process_query_buffer\<close> need not
  end, so it takes fuel; \<open>Not_finished\<close> is a loop that used it up.
\<close>

section \<open>The connection\<close>

datatype conn_state = STATE_HEAD | STATE_BODY

text \<open>Members without an initialiser are \<open>None\<close> until they are assigned.\<close>

record tcp_connection =
  c_fd :: int
  c_host :: "byte list"
  c_port :: "int option"
  c_io_watcher :: ptr
  c_timer_watcher :: ptr
  c_querybuf :: sdshdr
  c_bytes_expected :: int
  c_bytes_processed :: int
  c_current_state :: conn_state
  c_last_interaction_time :: "int option"
  c_reply_list :: "slice list"
  c_cur_resp_pos :: int

definition TcpConnection_new :: "mem_env \<Rightarrow> int \<Rightarrow> tcp_connection res" where
  "TcpConnection_new m fd =
     res_bind (sdsempty m) (\<lambda>q. Inr
       \<lparr>c_fd = fd, c_host = [], c_port = None, c_io_watcher = None, c_timer_watcher = None,
        c_querybuf = q, c_bytes_expected = XHEAD_SIZE, c_bytes_processed = 0,
        c_current_state = STATE_HEAD, c_last_interaction_time = None, c_reply_list = [],
        c_cur_resp_pos = 0\<rparr>)"

section \<open>Requests\<close>

datatype jval = Jint int | Jstr "byte list"

record 'j jsoncpp =
  js_parse :: "byte list \<Rightarrow> ('j \<times> byte list) option"
  js_get :: "'j \<Rightarrow> string \<Rightarrow> 'j option"
  js_asInt :: "'j \<Rightarrow> int option"
  js_asUInt64 :: "'j \<Rightarrow> 64 word option"
  js_asString :: "'j \<Rightarrow> byte list option"
  js_write :: "(string \<times> jval) list \<Rightarrow> byte list"

text \<open>\<open>root[key].asInt()\<close> and its siblings: either part may throw.\<close>

definition js_field :: "'j jsoncpp \<Rightarrow> ('j \<Rightarrow> 'a option) \<Rightarrow> 'j \<Rightarrow> string \<Rightarrow> 'a option" where
  "js_field J conv jroot key = (case js_get J jroot key of None \<Rightarrow> None | Some v \<Rightarrow> conv v)"

text \<open>\<open>g\<close> is the mailbox behind \<open>g_rtc_server\<close>, \<open>this\<close> and \<open>addr\<close> the addresses of the worker and the connection.\<close>

definition process_push :: "'j jsoncpp \<Rightarrow> pipe_env \<Rightarrow> nat \<Rightarrow> nat \<Rightarrow> tcp_connection \<Rightarrow> int \<Rightarrow> 'j \<Rightarrow> u32 \<Rightarrow>
    mailbox option \<Rightarrow> (int \<times> mailbox option) res" where
  "process_push J pw this addr conn cmdno jroot log_id g =
     (case (js_field J (js_asUInt64 J) jroot ''uid'', js_field J (js_asString J) jroot ''streamName'',
            js_field J (js_asInt J) jroot ''audio'', js_field J (js_asInt J) jroot ''video'') of
        (Some uid, Some stream_name, Some audio, Some video) \<Rightarrow>
          let msg = RtcMsg_new\<lparr>m_cmdno := cmdno, m_uid := uid, m_stream_name := stream_name,
                m_audio := audio, m_video := video, m_log_id := log_id, m_worker := Some this,
                m_conn := Some addr, m_fd := c_fd conn\<rparr>
          in (case g of
                None \<Rightarrow> Inl Null_deref
              | Some mb \<Rightarrow> let (r, mb) = RtcServer_send_rtc_msg pw msg mb in Inr (r, Some mb))
      | _ \<Rightarrow> Inr (-1, g))"

definition process_request :: "'j jsoncpp \<Rightarrow> pipe_env \<Rightarrow> nat \<Rightarrow> nat \<Rightarrow> tcp_connection \<Rightarrow> slice \<Rightarrow> slice \<Rightarrow>
    mailbox option \<Rightarrow> (int \<times> mailbox option) res" where
  "process_request J pw this addr conn header body g =
     res_bind (slice_to_string body) (\<lambda>text.
       case js_parse J text of
         None \<Rightarrow> Inl Uncaught_exception
       | Some (jroot, errs) \<Rightarrow>
           if errs \<noteq> [] then Inr (-1, g)
           else case js_field J (js_asInt J) jroot ''cmdno'' of
                  None \<Rightarrow> Inr (-1, g)
                | Some cmdno \<Rightarrow>
                    if cmdno = CMDNO_PUSH then
                      res_bind (xhead_at (drop (sl_data header) (sl_mem header))) (\<lambda>xh.
                        process_push J pw this addr conn cmdno jroot (xh_log_id xh) g)
                    else Inr (0, g))"

fun process_query_buffer :: "nat \<Rightarrow> 'j jsoncpp \<Rightarrow> pipe_env \<Rightarrow> nat \<Rightarrow> nat \<Rightarrow> tcp_connection \<Rightarrow>
    mailbox option \<Rightarrow> (int \<times> tcp_connection \<times> mailbox option) res" where
  "process_query_buffer 0 J pw this addr conn g = Inl Not_finished"
| "process_query_buffer (Suc fuel) J pw this addr conn g =
     (if sdslen (c_querybuf conn) \<ge> usz (c_bytes_expected conn + c_bytes_processed conn) then
        case c_current_state conn of
          STATE_HEAD \<Rightarrow>
            res_bind (xhead_at (sds_buf (c_querybuf conn))) (\<lambda>head.
              if xh_magic_num head \<noteq> XHEAD_MAGIC then Inr (-1, conn, g)
              else process_query_buffer fuel J pw this addr
                     (conn\<lparr>c_bytes_processed := XHEAD_SIZE, c_bytes_expected := uint (xh_body_len head),
                           c_current_state := STATE_BODY\<rparr>) g)
        | STATE_BODY \<Rightarrow>
            res_bind (xhead_at (sds_buf (c_querybuf conn))) (\<lambda>head.
              let buf = sds_buf (c_querybuf conn);
                  header = Slice_make buf 0 (nat XHEAD_SIZE);
                  body = Slice_make buf (nat XHEAD_SIZE) (unat (xh_body_len head))
              in res_bind (process_request J pw this addr conn header body g) (\<lambda>(ret, g).
                   if ret < 0 then Inr (-1, conn, g)
                   else process_query_buffer fuel J pw this addr (conn\<lparr>c_bytes_processed := 65535\<rparr>) g))
      else Inr (0, conn, g))"

text \<open>
  The part of \<open>read_query\<close> that fills the query buffer and looks for a request, on the connection it
  found. \<open>rd\<close> is the kernel's answer to the \<open>read\<close> of \<open>read_len\<close> bytes, a negative \<open>read_len\<close> being a
  huge \<open>size_t\<close>. The result is \<open>None\<close> where the caller closes the connection.
\<close>

definition read_conn :: "mem_env \<Rightarrow> nat \<Rightarrow> 'j jsoncpp \<Rightarrow> pipe_env \<Rightarrow> nat \<Rightarrow> nat \<Rightarrow> int \<Rightarrow>
    (int \<Rightarrow> byte list sysret) \<Rightarrow> tcp_connection \<Rightarrow> mailbox option \<Rightarrow>
    (int \<times> tcp_connection \<times> mailbox option) option res" where
  "read_conn m fuel J pw this addr now rd conn g =
     (let read_len = i32 (c_bytes_expected conn);
          qb_len = i32 (sdslen (c_querybuf conn))
      in res_bind (sdsMakeRoomFor m (c_querybuf conn) (usz read_len)) (\<lambda>q.
         res_bind (sock_read_data (rd (usz read_len)) (nat qb_len) (sds_buf q)) (\<lambda>(nread, buf).
           let q = q\<lparr>sds_buf := buf\<rparr>;
               conn = conn\<lparr>c_querybuf := q, c_last_interaction_time := Some now\<rparr>
           in if nread = -1 then Inr None
              else res_bind (if nread > 0 then sdsIncrLen q nread else Inr q) (\<lambda>q.
                   res_bind (process_query_buffer fuel J pw this addr (conn\<lparr>c_querybuf := q\<rparr>) g) (\<lambda>r.
                     Inr (Some r))))))"

section \<open>Lemmas\<close>

lemma XHEAD_SIZE_eq [simp]: "nat XHEAD_SIZE = 36" "XHEAD_SIZE = 36"
  by (simp_all add: XHEAD_SIZE_def)

text \<open>What a full query buffer holds: the header at its start and the body behind it.\<close>

definition query_head :: "tcp_connection \<Rightarrow> xhead_t" where
  "query_head conn = (case xhead_at (sds_val (c_querybuf conn)) of Inr h \<Rightarrow> h)"

definition query_body :: "tcp_connection \<Rightarrow> byte list" where
  "query_body conn = take (unat (xh_body_len (query_head conn))) (drop 36 (sds_val (c_querybuf conn)))"

lemma xhead_at_prefix: "36 \<le> length a \<Longrightarrow> xhead_at (a @ b) = xhead_at a"
  by (simp add: xhead_at_def)

lemma xhead_at_val:
  assumes "sds_wf q" "36 \<le> length (sds_val q)"
  shows "xhead_at (sds_buf q) = xhead_at (sds_val q)"
  using sds_buf_split [OF assms(1)] xhead_at_prefix [OF assms(2)] by auto

lemma xhead_at_query_head:
  assumes "sds_wf (c_querybuf conn)" "36 \<le> length (sds_val (c_querybuf conn))"
  shows "xhead_at (sds_buf (c_querybuf conn)) = Inr (query_head conn)"
  using xhead_at_val [OF assms] xhead_bytes_at [OF assms(2)] by (auto simp: query_head_def)

text \<open>What a request does, in terms of its log id and the bytes of its body.\<close>

definition handle_request :: "'j jsoncpp \<Rightarrow> pipe_env \<Rightarrow> nat \<Rightarrow> nat \<Rightarrow> int \<Rightarrow> u32 \<Rightarrow> byte list \<Rightarrow>
    mailbox option \<Rightarrow> (int \<times> mailbox option) res" where
  "handle_request J pw this addr fd log_id text g =
     (case js_parse J text of
        None \<Rightarrow> Inl Uncaught_exception
      | Some (jr, errs) \<Rightarrow>
         if errs \<noteq> [] then Inr (-1, g)
         else case js_field J (js_asInt J) jr ''cmdno'' of
                None \<Rightarrow> Inr (-1, g)
              | Some cmdno \<Rightarrow>
                  if cmdno \<noteq> CMDNO_PUSH then Inr (0, g)
                  else case (js_field J (js_asUInt64 J) jr ''uid'', js_field J (js_asString J) jr ''streamName'',
                       js_field J (js_asInt J) jr ''audio'', js_field J (js_asInt J) jr ''video'') of
                    (Some uid, Some sn, Some au, Some vi) \<Rightarrow>
                      (case g of
                         None \<Rightarrow> Inl Null_deref
                       | Some mb \<Rightarrow>
                           (case RtcServer_send_rtc_msg pw \<lparr>m_cmdno = CMDNO_PUSH, m_uid = uid, m_stream_name = sn,
                               m_audio = au, m_video = vi, m_log_id = log_id, m_worker = Some this,
                               m_conn = Some addr, m_sdp = [], m_err_no = 0, m_fd = fd\<rparr> mb of
                             (r, mb) \<Rightarrow> Inr (r, Some mb)))
                  | _ \<Rightarrow> Inr (-1, g))"

lemma process_request_val:
  assumes "slice_wf body" "xhead_at (drop (sl_data header) (sl_mem header)) = Inr h"
  shows "process_request J pw this addr conn header body g =
    handle_request J pw this addr (c_fd conn) (xh_log_id h) (slice_val body) g"
proof -
  have "slice_to_string body = Inr (slice_val body)"
    using assms(1) by (simp add: slice_to_string_def slice_wf_def slice_val_def)
  then show ?thesis
    using assms(2)
    by (simp add: process_request_def handle_request_def process_push_def RtcMsg_new_def Let_def
        split: option.splits prod.splits)
qed

lemma handle_request_total:
  assumes "g \<noteq> None" "js_parse J text \<noteq> None"
  shows "\<exists>r g'. handle_request J pw this addr fd log_id text g = Inr (r, g') \<and> g' \<noteq> None"
  using assms by (auto simp: handle_request_def Let_def split: option.splits prod.splits)

lemma handle_request_throws:
  "js_parse J text = None \<Longrightarrow> handle_request J pw this addr fd log_id text g = Inl Uncaught_exception"
  by (simp add: handle_request_def)

text \<open>The invariant of a connection between two events.\<close>

definition conn_ok :: "tcp_connection \<Rightarrow> bool" where
  "conn_ok conn \<longleftrightarrow> sds_wf (c_querybuf conn) \<and>
     (case c_current_state conn of
        STATE_HEAD \<Rightarrow> c_bytes_expected conn = 36 \<and> c_bytes_processed conn = 0
      | STATE_BODY \<Rightarrow> 36 \<le> length (sds_val (c_querybuf conn)) \<and>
          xh_magic_num (query_head conn) = XHEAD_MAGIC \<and>
          c_bytes_expected conn = uint (xh_body_len (query_head conn)) \<and>
          (c_bytes_processed conn = 36 \<or> c_bytes_processed conn = 65535))"

lemma uint32_bound: "0 \<le> uint (w :: u32)" "uint (w :: u32) < 4294967296"
proof -
  have "uint w < 2 ^ LENGTH(32)" by (rule unsigned_less)
  then show "uint w < 4294967296" by simp
qed simp

lemma unat_uint32: "int (unat (w :: u32)) = uint w"
  by simp

lemma c_head_conv:
  "query_head (conn\<lparr>c_bytes_processed := p\<rparr>) = query_head conn"
  "query_head (conn\<lparr>c_bytes_processed := p, c_bytes_expected := e, c_current_state := s\<rparr>) = query_head conn"
  by (simp_all add: query_head_def)

text \<open>One round of the loop in state \<open>STATE_BODY\<close> with the whole body in the buffer.\<close>

lemma process_body_round:
  assumes ok: "conn_ok conn" and st: "c_current_state conn = STATE_BODY"
    and full: "c_bytes_expected conn + c_bytes_processed conn \<le> int (length (sds_val (c_querybuf conn)))"
  shows "process_query_buffer (Suc fuel) J pw this addr conn g =
    res_bind (handle_request J pw this addr (c_fd conn) (xh_log_id (query_head conn)) (query_body conn) g)
      (\<lambda>(ret, g). if ret < 0 then Inr (-1, conn, g)
         else process_query_buffer fuel J pw this addr (conn\<lparr>c_bytes_processed := 65535\<rparr>) g)"
proof -
  let ?q = "c_querybuf conn" and ?h = "query_head conn"
  have wf: "sds_wf ?q" and len: "36 \<le> length (sds_val ?q)"
    and e: "c_bytes_expected conn = uint (xh_body_len ?h)" and p: "36 \<le> c_bytes_processed conn"
      "c_bytes_processed conn \<le> 65535"
    using ok st by (auto simp: conn_ok_def)
  have u: "usz (c_bytes_expected conn + c_bytes_processed conn) = c_bytes_expected conn + c_bytes_processed conn"
    using uint32_bound [of "xh_body_len ?h"] e p by (intro usz_id) linarith+
  have hd: "xhead_at (sds_buf ?q) = Inr ?h" by (rule xhead_at_query_head [OF wf len])
  let ?body = "Slice_make (sds_buf ?q) 36 (unat (xh_body_len ?h))"
  obtain rest where r: "sds_buf ?q = sds_val ?q @ 0 # rest" using sds_buf_split [OF wf] by blast
  have fit: "36 + unat (xh_body_len ?h) \<le> length (sds_val ?q)"
  proof -
    have "36 + int (unat (xh_body_len ?h)) \<le> int (length (sds_val ?q))"
      unfolding unat_uint32 using full e p by linarith
    then show ?thesis by linarith
  qed
  have "slice_wf ?body" using fit r by (simp add: slice_wf_def Slice_make_def)
  moreover have "slice_val ?body = query_body conn"
    unfolding query_body_def slice_val_def Slice_make_def r using fit by simp
  moreover have "xhead_at (drop (sl_data (Slice_make (sds_buf ?q) 0 36)) (sl_mem (Slice_make (sds_buf ?q) 0 36))) = Inr ?h"
    using hd by (simp add: Slice_make_def)
  ultimately have "process_request J pw this addr conn (Slice_make (sds_buf ?q) 0 36) ?body g =
      handle_request J pw this addr (c_fd conn) (xh_log_id ?h) (query_body conn) g"
    using process_request_val [of ?body "Slice_make (sds_buf ?q) 0 36" ?h] by simp
  then show ?thesis
    using st full hd by (simp add: sdslen_val [OF wf] u)
qed

text \<open>Nothing to do while the expected bytes are not all there.\<close>

lemma process_wait:
  assumes ok: "conn_ok conn"
    and short: "int (length (sds_val (c_querybuf conn))) < c_bytes_expected conn + c_bytes_processed conn"
  shows "process_query_buffer (Suc fuel) J pw this addr conn g = Inr (0, conn, g)"
proof -
  have wf: "sds_wf (c_querybuf conn)" using ok by (simp add: conn_ok_def)
  have "usz (c_bytes_expected conn + c_bytes_processed conn) = c_bytes_expected conn + c_bytes_processed conn"
    using ok uint32_bound [of "xh_body_len (query_head conn)"]
    by (intro usz_id) (auto simp: conn_ok_def split: conn_state.splits)
  with short show ?thesis by (simp add: sdslen_val [OF wf])
qed

text \<open>The round that reads a complete header.\<close>

definition conn_body :: "tcp_connection \<Rightarrow> tcp_connection" where
  "conn_body conn = conn\<lparr>c_bytes_processed := 36,
     c_bytes_expected := uint (xh_body_len (query_head conn)), c_current_state := STATE_BODY\<rparr>"

lemma process_head_round:
  assumes ok: "conn_ok conn" and st: "c_current_state conn = STATE_HEAD"
    and len: "36 \<le> length (sds_val (c_querybuf conn))"
  shows "process_query_buffer (Suc fuel) J pw this addr conn g =
    (if xh_magic_num (query_head conn) \<noteq> XHEAD_MAGIC then Inr (-1, conn, g)
     else process_query_buffer fuel J pw this addr (conn_body conn) g)"
proof -
  have wf: "sds_wf (c_querybuf conn)" "c_bytes_expected conn = 36" "c_bytes_processed conn = 0"
    using ok st by (auto simp: conn_ok_def)
  have "36 \<le> sdslen (c_querybuf conn)" using len by (simp add: sdslen_val [OF wf(1)])
  then show ?thesis
    using xhead_at_query_head [OF wf(1) len] st wf(2,3)
    by (simp add: usz_id conn_body_def)
qed

declare process_query_buffer.simps(2) [simp del]

lemma conn_body_ok:
  assumes "conn_ok conn" "c_current_state conn = STATE_HEAD"
    "36 \<le> length (sds_val (c_querybuf conn))" "xh_magic_num (query_head conn) = XHEAD_MAGIC"
  shows "conn_ok (conn_body conn)" "query_head (conn_body conn) = query_head conn"
    "query_body (conn_body conn) = query_body conn" "c_fd (conn_body conn) = c_fd conn"
    "c_querybuf (conn_body conn) = c_querybuf conn" "c_current_state (conn_body conn) = STATE_BODY"
    "c_bytes_processed (conn_body conn) = 36"
    "c_bytes_expected (conn_body conn) = uint (xh_body_len (query_head conn))"
  using assms by (simp_all add: conn_ok_def conn_body_def query_head_def query_body_def)

lemma conn_done_ok:
  assumes "conn_ok conn" "c_current_state conn = STATE_BODY"
  shows "conn_ok (conn\<lparr>c_bytes_processed := 65535\<rparr>)"
  using assms by (auto simp: conn_ok_def c_head_conv)

lemma process_body_done:
  assumes ok: "conn_ok conn" and st: "c_current_state conn = STATE_BODY" and g: "g \<noteq> None"
    and len: "int (length (sds_val (c_querybuf conn))) < c_bytes_expected conn + 65535"
    and good: "c_bytes_expected conn + c_bytes_processed conn \<le> int (length (sds_val (c_querybuf conn))) \<Longrightarrow>
      js_parse J (query_body conn) \<noteq> None"
  shows "\<exists>ret conn' g'. process_query_buffer (Suc (Suc fuel)) J pw this addr conn g = Inr (ret, conn', g') \<and>
    conn_ok conn' \<and> g' \<noteq> None"
proof (cases "c_bytes_expected conn + c_bytes_processed conn \<le> int (length (sds_val (c_querybuf conn)))")
  case True
  obtain r g1 where r: "handle_request J pw this addr (c_fd conn) (xh_log_id (query_head conn)) (query_body conn) g =
      Inr (r, g1)" "g1 \<noteq> None"
    using handle_request_total [OF g good [OF True]] by blast
  let ?c = "conn\<lparr>c_bytes_processed := 65535\<rparr>"
  have c: "conn_ok ?c" by (rule conn_done_ok [OF ok st])
  have "process_query_buffer (Suc fuel) J pw this addr ?c g1 = Inr (0, ?c, g1)"
    by (rule process_wait [OF c]) (use len in simp)
  with r c ok show ?thesis
    by (simp add: process_body_round [OF ok st True])
next
  case False
  then have "int (length (sds_val (c_querybuf conn))) < c_bytes_expected conn + c_bytes_processed conn" by simp
  from process_wait [OF ok this] show ?thesis using ok g by blast
qed

text \<open>
  Whether looking for requests reaches the body and its parse throws: the header is complete and
  has the magic number, the bytes of the body are there, and the JSON library throws on them.
\<close>

definition request_throws :: "'j jsoncpp \<Rightarrow> tcp_connection \<Rightarrow> bool" where
  "request_throws J conn \<longleftrightarrow> 36 \<le> length (sds_val (c_querybuf conn)) \<and>
     xh_magic_num (query_head conn) = XHEAD_MAGIC \<and>
     uint (xh_body_len (query_head conn)) +
       (case c_current_state conn of STATE_HEAD \<Rightarrow> 36 | STATE_BODY \<Rightarrow> c_bytes_processed conn)
       \<le> int (length (sds_val (c_querybuf conn))) \<and>
     js_parse J (query_body conn) = None"

lemma process_query_buffer_throws:
  assumes ok: "conn_ok conn" and t: "request_throws J conn"
  shows "process_query_buffer (Suc (Suc fuel)) J pw this addr conn g = Inl Uncaught_exception"
proof (cases "c_current_state conn")
  case STATE_HEAD
  have len: "36 \<le> length (sds_val (c_querybuf conn))" "xh_magic_num (query_head conn) = XHEAD_MAGIC"
    using t by (auto simp: request_throws_def)
  note b = conn_body_ok [OF ok STATE_HEAD len]
  have "c_bytes_expected (conn_body conn) + c_bytes_processed (conn_body conn) \<le>
      int (length (sds_val (c_querybuf (conn_body conn))))"
    unfolding b(5,7,8) using t STATE_HEAD by (simp add: request_throws_def)
  note round = process_body_round [OF b(1,6) this]
  have "js_parse J (query_body (conn_body conn)) = None" unfolding b(3) using t by (simp add: request_throws_def)
  then show ?thesis
    by (simp add: process_head_round [OF ok STATE_HEAD len(1)] len(2) round handle_request_throws)
next
  case STATE_BODY
  then have "c_bytes_expected conn + c_bytes_processed conn \<le> int (length (sds_val (c_querybuf conn)))"
    using ok t by (simp add: conn_ok_def request_throws_def)
  note round = process_body_round [OF ok STATE_BODY this]
  have "js_parse J (query_body conn) = None" using t by (simp add: request_throws_def)
  then show ?thesis by (simp add: round handle_request_throws)
qed

lemma process_query_buffer_total:
  assumes ok: "conn_ok conn" and g: "g \<noteq> None"
    and len: "int (length (sds_val (c_querybuf conn))) < uint (xh_body_len (query_head conn)) + 65535"
    and good: "\<not> request_throws J conn"
  shows "\<exists>ret conn' g'. process_query_buffer (Suc (Suc (Suc fuel))) J pw this addr conn g = Inr (ret, conn', g') \<and>
    conn_ok conn' \<and> g' \<noteq> None"
proof (cases "c_current_state conn")
  case STATE_HEAD
  then have e: "c_bytes_expected conn + c_bytes_processed conn = 36" using ok by (simp add: conn_ok_def)
  show ?thesis
  proof (cases "36 \<le> length (sds_val (c_querybuf conn))")
    case True
    show ?thesis
    proof (cases "xh_magic_num (query_head conn) = XHEAD_MAGIC")
      case magic: True
      note b = conn_body_ok [OF ok STATE_HEAD True magic]
      have "\<exists>ret conn' g'. process_query_buffer (Suc (Suc fuel)) J pw this addr (conn_body conn) g =
          Inr (ret, conn', g') \<and> conn_ok conn' \<and> g' \<noteq> None"
        by (rule process_body_done [OF b(1,6) g]; unfold b(3,5,7,8))
           (use len good True magic STATE_HEAD in \<open>simp_all add: request_throws_def\<close>)
      with magic show ?thesis unfolding process_head_round [OF ok STATE_HEAD True] by simp
    qed (use ok g in \<open>simp add: process_head_round [OF ok STATE_HEAD True]\<close>)
  next
    case False
    then have "int (length (sds_val (c_querybuf conn))) < c_bytes_expected conn + c_bytes_processed conn"
      using e by linarith
    from process_wait [OF ok this] show ?thesis using ok g by blast
  qed
next
  case STATE_BODY
  then have e: "c_bytes_expected conn = uint (xh_body_len (query_head conn))"
    "36 \<le> length (sds_val (c_querybuf conn))" "xh_magic_num (query_head conn) = XHEAD_MAGIC"
    using ok by (simp_all add: conn_ok_def del: sds_val_length)
  show ?thesis
    by (rule process_body_done [OF ok STATE_BODY g])
       (use len good e STATE_BODY in \<open>simp_all add: request_throws_def\<close>)
qed

lemma process_query_buffer_loops:
  assumes ok: "conn_ok conn" and st: "c_current_state conn = STATE_BODY"
    and len: "c_bytes_expected conn + 65535 \<le> int (length (sds_val (c_querybuf conn)))"
    and req: "\<And>g. g \<noteq> None \<Longrightarrow> \<exists>r g'. handle_request J pw this addr (c_fd conn)
      (xh_log_id (query_head conn)) (query_body conn) g = Inr (r, g') \<and> 0 \<le> r \<and> g' \<noteq> None"
    and g: "g \<noteq> None"
  shows "process_query_buffer fuel J pw this addr conn g = Inl Not_finished"
  using ok st len req g
proof (induction fuel arbitrary: conn g)
  case (Suc fuel)
  let ?c = "conn\<lparr>c_bytes_processed := 65535\<rparr>"
  obtain r g' where r: "handle_request J pw this addr (c_fd conn) (xh_log_id (query_head conn))
      (query_body conn) g = Inr (r, g')" "0 \<le> r" "g' \<noteq> None"
    using Suc.prems(4) [OF Suc.prems(5)] by blast
  have same: "query_head ?c = query_head conn" "query_body ?c = query_body conn"
    by (simp_all add: query_head_def query_body_def)
  have "process_query_buffer fuel J pw this addr ?c g' = Inl Not_finished"
  proof (rule Suc.IH [OF conn_done_ok [OF Suc.prems(1,2)]])
    show "\<exists>r g'. handle_request J pw this addr (c_fd ?c) (xh_log_id (query_head ?c)) (query_body ?c) g =
      Inr (r, g') \<and> 0 \<le> r \<and> g' \<noteq> None" if "g \<noteq> None" for g
      unfolding same using Suc.prems(4) [OF that] by simp
  qed (use Suc.prems(2,3) r(3) in simp_all)
  moreover have "c_bytes_processed conn \<le> 65535" using Suc.prems(1,2) by (auto simp: conn_ok_def)
  then have "c_bytes_expected conn + c_bytes_processed conn \<le> int (length (sds_val (c_querybuf conn)))"
    using Suc.prems(3) by linarith
  ultimately show ?case
    using r(1,2) by (simp add: process_body_round [OF Suc.prems(1,2)])
qed simp

section \<open>Reading a request in pieces\<close>

lemma read_conn_bytes:
  assumes ok: "conn_ok conn" and m: "mem_ok m"
    and rl: "c_bytes_expected conn < 2147483648" "fits (c_querybuf conn) (c_bytes_expected conn)"
    and bs: "rd (c_bytes_expected conn) = Ok bs" "bs \<noteq> []" "int (length bs) \<le> c_bytes_expected conn"
  shows "\<exists>q. sds_wf q \<and> sds_val q = sds_val (c_querybuf conn) @ bs \<and>
    read_conn m fuel J pw this addr now rd conn g =
    res_bind (process_query_buffer fuel J pw this addr
      (conn\<lparr>c_last_interaction_time := Some now, c_querybuf := q\<rparr>) g) (\<lambda>r. Inr (Some r))"
proof -
  have wf: "sds_wf (c_querybuf conn)" using ok by (simp add: conn_ok_def)
  have e0: "0 \<le> c_bytes_expected conn"
    using ok uint32_bound by (auto simp: conn_ok_def split: conn_state.splits)
  obtain r where r: "sdsMakeRoomFor m (c_querybuf conn) (c_bytes_expected conn) = Inr r" "sds_wf r"
    "sds_val r = sds_val (c_querybuf conn)" "sds_len r = sds_len (c_querybuf conn)"
    "c_bytes_expected conn \<le> sds_free r"
    using sdsMakeRoomFor_correct [OF wf m rl(2)] by blast
  have "int (length bs) \<le> sds_free r" using r(5) bs(3) by linarith
  then obtain buf q where q: "mem_write (nat (sds_len r)) bs (sds_buf r) = Inr buf"
    "sdsIncrLen (r\<lparr>sds_buf := buf\<rparr>) (int (length bs)) = Inr q" "sds_wf q" "sds_val q = sds_val r @ bs"
    using sdsIncrLen_append [OF r(2)] by blast
  have conv: "i32 (c_bytes_expected conn) = c_bytes_expected conn" "usz (c_bytes_expected conn) = c_bytes_expected conn"
    using e0 rl(1) by (simp_all add: i32_id usz_id)
  have "sds_len (c_querybuf conn) < 2147483647" "0 \<le> sds_len (c_querybuf conn)"
    using wf by (auto simp: sds_wf_def)
  then have ql: "i32 (sdslen (c_querybuf conn)) = sds_len r" using wf r(4) by (simp add: sdslen_eq i32_id)
  have n: "0 < int (length bs)" using bs(2) by simp
  have "read_conn m fuel J pw this addr now rd conn g =
    res_bind (process_query_buffer fuel J pw this addr
      (conn\<lparr>c_last_interaction_time := Some now, c_querybuf := q\<rparr>) g) (\<lambda>r. Inr (Some r))"
    using r(1) q(1,2) bs n by (simp add: read_conn_def conv ql sock_read_data_def Let_def)
  with q r(3) show ?thesis by auto
qed

text \<open>
  A connection that has received the first bytes \<open>rc\<close> of one message with header \<open>h\<close> and body
  \<open>body\<close>, and no more: it waits for the rest.
\<close>

definition awaiting :: "xhead_t \<Rightarrow> byte list \<Rightarrow> byte list \<Rightarrow> tcp_connection \<Rightarrow> bool" where
  "awaiting h body rc conn \<longleftrightarrow> conn_ok conn \<and> sds_val (c_querybuf conn) = rc \<and>
     (\<exists>rest. rest \<noteq> [] \<and> rc @ rest = xhead_bytes h @ body) \<and>
     (if length rc < 36 then c_current_state conn = STATE_HEAD
      else c_current_state conn = STATE_BODY \<and> c_bytes_processed conn = 36)"

definition msg_ok :: "xhead_t \<Rightarrow> byte list \<Rightarrow> bool" where
  "msg_ok h body \<longleftrightarrow> xhead_wf h \<and> xh_magic_num h = XHEAD_MAGIC \<and> unat (xh_body_len h) = length body \<and>
     length body \<le> 1000000000"

lemma query_head_of_msg:
  assumes "xhead_wf h" "36 \<le> length (sds_val (c_querybuf conn))"
    "sds_val (c_querybuf conn) @ rest = xhead_bytes h @ body"
  shows "query_head conn = h"
proof -
  have "xhead_at (sds_val (c_querybuf conn)) = xhead_at (xhead_bytes h @ body)"
    using xhead_at_prefix [OF assms(2), of rest] assms(3) by simp
  then show ?thesis using xhead_at_bytes [OF assms(1)] by (simp add: query_head_def)
qed

text \<open>The state after a whole message was handled with result \<open>ret\<close>.\<close>

definition answered :: "tcp_connection \<Rightarrow> int \<Rightarrow> tcp_connection" where
  "answered conn ret = (if ret < 0 then conn else conn\<lparr>c_bytes_processed := 65535\<rparr>)"

lemma process_pending:
  assumes ok: "conn_ok conn" and st: "c_current_state conn = STATE_BODY" "c_bytes_processed conn = 36"
    and msg: "msg_ok h body" and val: "sds_val (c_querybuf conn) @ rest = xhead_bytes h @ body"
  shows "process_query_buffer (Suc (Suc fuel)) J pw this addr conn g =
      (if rest = [] then res_bind (handle_request J pw this addr (c_fd conn) (xh_log_id h) body g)
         (\<lambda>(ret, g'). Inr (if ret < 0 then -1 else 0, answered conn ret, g'))
       else Inr (0, conn, g))"
proof -
  have len: "36 \<le> length (sds_val (c_querybuf conn))" using ok st by (auto simp: conn_ok_def)
  have h: "query_head conn = h" using query_head_of_msg [OF _ len val] msg by (simp add: msg_ok_def)
  have bl: "uint (xh_body_len h) = int (length body)" using msg unat_uint32 by (metis msg_ok_def)
  have e: "c_bytes_expected conn = int (length body)" using ok st h bl by (simp add: conn_ok_def)
  have tot: "length (sds_val (c_querybuf conn)) + length rest = 36 + length body"
    using arg_cong [OF val, of length] msg by (simp add: length_xhead_bytes msg_ok_def del: sds_val_length)
  show ?thesis
  proof (cases "rest = []")
    case True
    then have full: "c_bytes_expected conn + c_bytes_processed conn \<le> int (length (sds_val (c_querybuf conn)))"
      using tot e st by simp
    have b: "query_body conn = body"
      using True val msg h by (simp add: query_body_def length_xhead_bytes msg_ok_def)
    let ?c = "conn\<lparr>c_bytes_processed := 65535\<rparr>"
    have w: "process_query_buffer (Suc fuel) J pw this addr ?c g' = Inr (0, ?c, g')" for g'
      by (rule process_wait [OF conn_done_ok [OF ok st(1)]]) (use tot e True in simp)
    show ?thesis
      unfolding process_body_round [OF ok st(1) full] h b w using True
      by (cases "handle_request J pw this addr (c_fd conn) (xh_log_id h) body g") (auto simp: answered_def)
  next
    case False
    then have "int (length (sds_val (c_querybuf conn))) < c_bytes_expected conn + c_bytes_processed conn"
      using tot e st by (cases rest) simp_all
    from process_wait [OF ok this] False show ?thesis by simp
  qed
qed

text \<open>Looking for requests when the buffer holds the start of a message, or all of it.\<close>

lemma process_received_body:
  assumes ok: "conn_ok c" and st: "c_current_state c = STATE_BODY" "c_bytes_processed c = 36"
    and msg: "msg_ok h body" and val: "sds_val (c_querybuf c) @ rest = xhead_bytes h @ body"
  shows "\<exists>c'. c_fd c' = c_fd c \<and> (rest \<noteq> [] \<longrightarrow> awaiting h body (sds_val (c_querybuf c)) c') \<and>
    process_query_buffer (Suc (Suc fuel)) J pw this addr c g =
      (if rest = [] then res_bind (handle_request J pw this addr (c_fd c) (xh_log_id h) body g)
         (\<lambda>(ret, g'). Inr (if ret < 0 then -1 else 0, answered c' ret, g'))
       else Inr (0, c', g))"
proof -
  have "36 \<le> length (sds_val (c_querybuf c))" using ok st by (auto simp: conn_ok_def)
  then have "rest \<noteq> [] \<longrightarrow> awaiting h body (sds_val (c_querybuf c)) c"
    using ok st val by (auto simp: awaiting_def)
  with process_pending [OF ok st msg val] show ?thesis by blast
qed

lemma process_received:
  assumes ok: "conn_ok c" and st: "c_current_state c = STATE_HEAD \<or> c_bytes_processed c = 36"
    and msg: "msg_ok h body" and val: "sds_val (c_querybuf c) @ rest = xhead_bytes h @ body"
  shows "\<exists>c'. c_fd c' = c_fd c \<and> (rest \<noteq> [] \<longrightarrow> awaiting h body (sds_val (c_querybuf c)) c') \<and>
    process_query_buffer (Suc (Suc (Suc fuel))) J pw this addr c g =
      (if rest = [] then res_bind (handle_request J pw this addr (c_fd c) (xh_log_id h) body g)
         (\<lambda>(ret, g'). Inr (if ret < 0 then -1 else 0, answered c' ret, g'))
       else Inr (0, c', g))"
proof (cases "c_current_state c")
  case STATE_BODY
  then have "c_bytes_processed c = 36" using st by simp
  then show ?thesis by (rule process_received_body [OF ok STATE_BODY _ msg val])
next
  case STATE_HEAD
  show ?thesis
  proof (cases "36 \<le> length (sds_val (c_querybuf c))")
    case True
    then have mg: "xh_magic_num (query_head c) = XHEAD_MAGIC"
      using query_head_of_msg [OF _ _ val] msg by (simp add: msg_ok_def)
    note b = conn_body_ok [OF ok STATE_HEAD True mg]
    have v: "sds_val (c_querybuf (conn_body c)) @ rest = xhead_bytes h @ body" using val b(5) by simp
    have eq: "process_query_buffer (Suc (Suc (Suc fuel))) J pw this addr c g =
      process_query_buffer (Suc (Suc fuel)) J pw this addr (conn_body c) g"
      using process_head_round [OF ok STATE_HEAD True] mg by simp
    show ?thesis
      unfolding eq by (rule process_received_body [OF b(1,6,7) msg v, unfolded b(4,5)])
  next
    case False
    have "length (sds_val (c_querybuf c)) + length rest = 36 + length body"
      using arg_cong [OF val, of length] msg by (simp add: length_xhead_bytes msg_ok_def del: sds_val_length)
    then have "rest \<noteq> []" using False by auto
    moreover have "process_query_buffer (Suc (Suc (Suc fuel))) J pw this addr c g = Inr (0, c, g)"
      by (rule process_wait [OF ok]) (use False ok STATE_HEAD in \<open>auto simp: conn_ok_def\<close>)
    moreover have "awaiting h body (sds_val (c_querybuf c)) c"
      using \<open>rest \<noteq> []\<close> False STATE_HEAD ok val by (auto simp: awaiting_def)
    ultimately show ?thesis by auto
  qed
qed

lemma awaiting_expected:
  assumes aw: "awaiting h body rc conn" and msg: "msg_ok h body"
  shows "c_bytes_expected conn = (if length rc < 36 then 36 else int (length body))"
    and "sds_len (c_querybuf conn) = int (length rc)" "length rc \<le> 36 + length body"
proof -
  obtain rest where rest: "sds_val (c_querybuf conn) = rc" "rc @ rest = xhead_bytes h @ body" and ok: "conn_ok conn"
    using aw by (auto simp: awaiting_def)
  have bl: "uint (xh_body_len h) = int (length body)" using msg unat_uint32 by (metis msg_ok_def)
  have wf: "sds_wf (c_querybuf conn)" using ok by (simp add: conn_ok_def)
  show "sds_len (c_querybuf conn) = int (length rc)"
    using sds_val_length [OF wf] rest(1) wf by (simp add: sds_wf_def)
  show "length rc \<le> 36 + length body"
    using arg_cong [OF rest(2), of length] msg by (simp add: length_xhead_bytes msg_ok_def)
  show "c_bytes_expected conn = (if length rc < 36 then 36 else int (length body))"
  proof (cases "length rc < 36")
    case False
    then have "query_head conn = h"
      using query_head_of_msg [of h conn rest body] msg rest by (simp add: msg_ok_def)
    with False aw bl show ?thesis by (auto simp: awaiting_def conn_ok_def)
  qed (use aw in \<open>auto simp: awaiting_def conn_ok_def\<close>)
qed

text \<open>One read while a message is on its way.\<close>

lemma read_conn_step:
  assumes aw: "awaiting h body rc conn" and msg: "msg_ok h body" and m: "mem_ok m"
    and bs: "rd (c_bytes_expected conn) = Ok bs" "bs \<noteq> []" "int (length bs) \<le> c_bytes_expected conn"
    and part: "rc @ bs @ rest = xhead_bytes h @ body"
  shows "\<exists>conn'. c_fd conn' = c_fd conn \<and> (rest \<noteq> [] \<longrightarrow> awaiting h body (rc @ bs) conn') \<and>
    read_conn m (Suc (Suc (Suc fuel))) J pw this addr now rd conn g =
      (if rest = [] then res_bind (handle_request J pw this addr (c_fd conn) (xh_log_id h) body g)
         (\<lambda>(ret, g'). Inr (Some (if ret < 0 then -1 else 0, answered conn' ret, g')))
       else Inr (Some (0, conn', g)))"
proof -
  have ok: "conn_ok conn" and val: "sds_val (c_querybuf conn) = rc" using aw by (auto simp: awaiting_def)
  note exp = awaiting_expected [OF aw msg]
  have "length body \<le> 1000000000" using msg by (simp add: msg_ok_def)
  then have e: "c_bytes_expected conn < 2147483648" "fits (c_querybuf conn) (c_bytes_expected conn)"
    using exp by (auto simp: fits_def SDS_MAX_PREALLOC_def)
  obtain q where q: "sds_wf q" "sds_val q = rc @ bs"
    "read_conn m (Suc (Suc (Suc fuel))) J pw this addr now rd conn g =
     res_bind (process_query_buffer (Suc (Suc (Suc fuel))) J pw this addr
      (conn\<lparr>c_last_interaction_time := Some now, c_querybuf := q\<rparr>) g) (\<lambda>r. Inr (Some r))"
    using read_conn_bytes [where rd = rd and bs = bs, OF ok m e bs] val by blast
  let ?c = "conn\<lparr>c_last_interaction_time := Some now, c_querybuf := q\<rparr>"
  have vc: "sds_val (c_querybuf ?c) @ rest = xhead_bytes h @ body" using q(2) part by simp
  have st: "c_current_state ?c = STATE_HEAD \<or> c_bytes_processed ?c = 36"
    using aw by (auto simp: awaiting_def split: if_splits)
  have okc: "conn_ok ?c"
  proof (cases "length rc < 36")
    case True
    then show ?thesis using aw q(1) by (auto simp: awaiting_def conn_ok_def)
  next
    case False
    then have "query_head ?c = h" "query_head conn = h"
      using query_head_of_msg [OF _ _ vc] query_head_of_msg [of h conn "bs @ rest" body] msg q(2) val part
      by (simp_all add: msg_ok_def)
    with False aw q show ?thesis by (auto simp: awaiting_def conn_ok_def)
  qed
  obtain c' where p: "c_fd c' = c_fd ?c" "rest \<noteq> [] \<longrightarrow> awaiting h body (sds_val (c_querybuf ?c)) c'"
    "process_query_buffer (Suc (Suc (Suc fuel))) J pw this addr ?c g =
      (if rest = [] then res_bind (handle_request J pw this addr (c_fd ?c) (xh_log_id h) body g)
         (\<lambda>(ret, g'). Inr (if ret < 0 then -1 else 0, answered c' ret, g'))
       else Inr (0, c', g))"
    using process_received [OF okc st msg vc] by blast
  show ?thesis
    using p(1,2) q(2) unfolding q(3) p(3)
    by (intro exI [of _ c'], cases "handle_request J pw this addr (c_fd ?c) (xh_log_id h) body g") auto
qed

text \<open>A sequence of read events, with the bytes the kernel delivers at each.\<close>

fun read_all :: "mem_env \<Rightarrow> nat \<Rightarrow> 'j jsoncpp \<Rightarrow> pipe_env \<Rightarrow> nat \<Rightarrow> nat \<Rightarrow> int \<Rightarrow> byte list list \<Rightarrow>
    tcp_connection \<Rightarrow> mailbox option \<Rightarrow> (tcp_connection \<times> mailbox option) option res" where
  "read_all m fuel J pw this addr now [] conn g = Inr (Some (conn, g))"
| "read_all m fuel J pw this addr now (bs # rds) conn g =
     res_bind (read_conn m fuel J pw this addr now (\<lambda>_. Ok bs) conn g) (\<lambda>r.
       case r of
         None \<Rightarrow> Inr None
       | Some (ret, conn, g) \<Rightarrow> read_all m fuel J pw this addr now rds conn g)"

text \<open>
  A division of a message into reads: no read is empty and none is longer than asked for, which
  is the header size before the header is complete and the body length after it.
\<close>

fun chunks_ok :: "nat \<Rightarrow> nat \<Rightarrow> byte list list \<Rightarrow> bool" where
  "chunks_ok blen n [] \<longleftrightarrow> True"
| "chunks_ok blen n (bs # rds) \<longleftrightarrow>
     bs \<noteq> [] \<and> length bs \<le> (if n < 36 then 36 else blen) \<and> chunks_ok blen (n + length bs) rds"

lemma chunks_ok_Nil_iff: "chunks_ok blen n rds \<Longrightarrow> concat rds = [] \<longleftrightarrow> rds = []"
  by (cases rds) auto

lemma read_all_message:
  assumes "awaiting h body rc conn" "msg_ok h body" "mem_ok m"
    "chunks_ok (length body) (length rc) rds" "rc @ concat rds = xhead_bytes h @ body"
  shows "\<exists>conn'. read_all m (Suc (Suc (Suc fuel))) J pw this addr now rds conn g =
      res_bind (handle_request J pw this addr (c_fd conn) (xh_log_id h) body g)
        (\<lambda>(ret, g'). Inr (Some (answered conn' ret, g')))" (is "?all rds conn")
    and "n < length rds \<Longrightarrow>
      \<exists>conn'. read_all m (Suc (Suc (Suc fuel))) J pw this addr now (take n rds) conn g = Inr (Some (conn', g))"
proof -
  have "?all rds conn \<and> (\<forall>n<length rds. \<exists>conn'.
      read_all m (Suc (Suc (Suc fuel))) J pw this addr now (take n rds) conn g = Inr (Some (conn', g)))"
    using assms
  proof (induction rds arbitrary: rc conn)
    case Nil
    then show ?case by (auto simp: awaiting_def)
  next
    case (Cons bs rds)
    have bs: "bs \<noteq> []" "int (length bs) \<le> c_bytes_expected conn"
      using Cons.prems(4) awaiting_expected(1) [OF Cons.prems(1,2)] by (auto split: if_splits)
    have part: "rc @ bs @ concat rds = xhead_bytes h @ body" using Cons.prems(5) by simp
    let ?hr = "handle_request J pw this addr (c_fd conn) (xh_log_id h) body g"
    obtain conn1 where s: "c_fd conn1 = c_fd conn" "concat rds \<noteq> [] \<longrightarrow> awaiting h body (rc @ bs) conn1"
      "read_conn m (Suc (Suc (Suc fuel))) J pw this addr now (\<lambda>_. Ok bs) conn g =
        (if concat rds = [] then res_bind ?hr
           (\<lambda>(ret, g'). Inr (Some (if ret < 0 then -1 else 0, answered conn1 ret, g')))
         else Inr (Some (0, conn1, g)))"
      using read_conn_step [where rd = "\<lambda>_. Ok bs", OF Cons.prems(1-3) refl bs part] by blast
    have ck: "chunks_ok (length body) (length (rc @ bs)) rds" using Cons.prems(4) by simp
    show ?case
    proof (cases "concat rds = []")
      case True
      then have "rds = []" using chunks_ok_Nil_iff [OF ck] by simp
      with s show ?thesis by (cases ?hr) auto
    next
      case False
      then have aw1: "awaiting h body (rc @ bs) conn1" using s(2) by simp
      have r: "read_conn m (Suc (Suc (Suc fuel))) J pw this addr now (\<lambda>_. Ok bs) conn g = Inr (Some (0, conn1, g))"
        using s(3) False by (simp only: if_False)
      note IH = Cons.IH [OF aw1 Cons.prems(2,3) ck]
      have "\<exists>conn'. read_all m (Suc (Suc (Suc fuel))) J pw this addr now (take n (bs # rds)) conn g =
          Inr (Some (conn', g))" if "n < length (bs # rds)" for n
        using IH part r that by (cases n) auto
      with IH part r s(1) show ?thesis by simp
    qed
  qed
  then show "?all rds conn"
    and "n < length rds \<Longrightarrow>
      \<exists>conn'. read_all m (Suc (Suc (Suc fuel))) J pw this addr now (take n rds) conn g = Inr (Some (conn', g))"
    by simp_all
qed

lemma TcpConnection_new_awaiting:
  assumes "mem_ok m" "msg_ok h body"
  shows "\<exists>conn. TcpConnection_new m fd = Inr conn \<and> awaiting h body [] conn \<and> c_fd conn = fd \<and> conn_ok conn"
proof -
  obtain q where q: "sdsempty m = Inr q" "sds_wf q" "sds_val q = []" using sdsempty_correct [OF assms(1)] by blast
  have "xhead_bytes h @ body \<noteq> []"
    using length_xhead_bytes [of h] assms(2) by (auto simp: msg_ok_def)
  with q show ?thesis
    by (auto simp: TcpConnection_new_def awaiting_def conn_ok_def)
qed

section \<open>Any read on a consistent connection\<close>

lemma conn_ok_append:
  assumes ok: "conn_ok conn" and q: "sds_wf q" "sds_val q = sds_val (c_querybuf conn) @ bs"
  shows "conn_ok (conn\<lparr>c_last_interaction_time := t, c_querybuf := q\<rparr>)"
proof (cases "c_current_state conn")
  case STATE_BODY
  have "36 \<le> length (sds_val (c_querybuf conn))" using ok STATE_BODY by (auto simp: conn_ok_def)
  then have "query_head (conn\<lparr>c_last_interaction_time := t, c_querybuf := q\<rparr>) = query_head conn"
    using xhead_at_prefix [of "sds_val (c_querybuf conn)" bs] q(2) by (simp add: query_head_def)
  with ok STATE_BODY q show ?thesis by (auto simp: conn_ok_def)
qed (use ok q in \<open>simp add: conn_ok_def\<close>)

text \<open>Looking for requests changes only where the connection is in its protocol.\<close>

lemma process_query_buffer_frame:
  "process_query_buffer fuel J pw this addr conn g = Inr (ret, conn', g') \<Longrightarrow>
   \<exists>p e s. conn' = conn\<lparr>c_bytes_processed := p, c_bytes_expected := e, c_current_state := s\<rparr>"
proof (induction fuel arbitrary: conn g)
  case (Suc fuel)
  let ?upd = "\<lambda>c p e s. c\<lparr>c_bytes_processed := p, c_bytes_expected := e, c_current_state := s\<rparr>"
  have self: "\<exists>p e s. c = ?upd c p e s" for c :: tcp_connection
    by (intro exI [of _ "c_bytes_processed c"] exI [of _ "c_bytes_expected c"] exI [of _ "c_current_state c"]) simp
  have IH: "\<exists>p e s. conn' = ?upd conn p e s"
    if "process_query_buffer fuel J pw this addr (?upd conn p0 e0 s0) g0 = Inr (ret, conn', g')" for p0 e0 s0 g0
    using Suc.IH [OF that] by auto
  have IH2: "\<exists>p e s. conn' = ?upd conn p e s"
    if "process_query_buffer fuel J pw this addr (conn\<lparr>c_bytes_processed := p0\<rparr>) g0 = Inr (ret, conn', g')" for p0 g0
    using Suc.IH [OF that] by auto
  show ?case
    using Suc.prems self IH IH2
    by (auto simp: process_query_buffer.simps(2) res_bind_Inr_iff Let_def split: if_splits conn_state.splits)
qed simp

text \<open>
  A read that cannot overrun: the announced body is at most two thousand million bytes, and the
  connection stays below 65535 bytes in all.
\<close>

definition read_safe :: "tcp_connection \<Rightarrow> (int \<Rightarrow> byte list sysret) \<Rightarrow> bool" where
  "read_safe conn rd \<longleftrightarrow> c_bytes_expected conn \<le> 2000000000 \<and> length (sds_val (c_querybuf conn)) < 65535 \<and>
     (\<forall>bs. rd (c_bytes_expected conn) = Ok bs \<longrightarrow> int (length bs) \<le> c_bytes_expected conn \<and>
        length (sds_val (c_querybuf conn)) + length bs < 65535)"

definition conn_frame :: "tcp_connection \<Rightarrow> tcp_connection \<Rightarrow> bool" where
  "conn_frame c c' \<longleftrightarrow> c_fd c' = c_fd c \<and> c_io_watcher c' = c_io_watcher c \<and>
     c_timer_watcher c' = c_timer_watcher c \<and> c_reply_list c' = c_reply_list c \<and>
     c_cur_resp_pos c' = c_cur_resp_pos c"

lemma process_safe:
  assumes "conn_ok c" "length (sds_val (c_querybuf c)) < 65535" "g \<noteq> None" "\<not> request_throws J c"
  shows "\<exists>ret c' g'. process_query_buffer (Suc (Suc (Suc fuel))) J pw this addr c g = Inr (ret, c', g') \<and>
    conn_ok c' \<and> g' \<noteq> None \<and> conn_frame c c' \<and> c_last_interaction_time c' = c_last_interaction_time c"
proof -
  have "int (length (sds_val (c_querybuf c))) < uint (xh_body_len (query_head c)) + 65535"
    using assms(2) uint32_bound [of "xh_body_len (query_head c)"] by linarith
  then obtain ret c' g' where r: "process_query_buffer (Suc (Suc (Suc fuel))) J pw this addr c g = Inr (ret, c', g')"
    "conn_ok c'" "g' \<noteq> None"
    using process_query_buffer_total [OF assms(1,3) _ assms(4)] by blast
  from process_query_buffer_frame [OF r(1)] r show ?thesis by (auto simp: conn_frame_def)
qed

text \<open>A read that completes a request on whose body the JSON library throws.\<close>

definition read_throws :: "'j jsoncpp \<Rightarrow> tcp_connection \<Rightarrow> (int \<Rightarrow> byte list sysret) \<Rightarrow> bool" where
  "read_throws J conn rd \<longleftrightarrow> (\<exists>q bs. sds_val q = sds_val (c_querybuf conn) @ bs \<and>
     rd (c_bytes_expected conn) = (if bs = [] then Fail EAGAIN else Ok bs) \<and>
     request_throws J (conn\<lparr>c_querybuf := q\<rparr>))"

lemma request_throws_time [simp]:
  "request_throws J (conn\<lparr>c_last_interaction_time := t, c_querybuf := q\<rparr>) =
   request_throws J (conn\<lparr>c_querybuf := q\<rparr>)"
  by (simp add: request_throws_def query_head_def query_body_def split: conn_state.split)

text \<open>What a read does once its bytes are in the buffer: it looks for requests, or the parse throws.\<close>

lemma process_read:
  assumes ok: "conn_ok conn" and q: "sds_wf q" "sds_val q = sds_val (c_querybuf conn) @ bs"
    and len: "length (sds_val q) < 65535" and g: "g \<noteq> None"
    and rd: "rd (c_bytes_expected conn) = (if bs = [] then Fail EAGAIN else Ok bs)"
    and eq: "read_conn m (Suc (Suc (Suc fuel))) J pw this addr now rd conn g =
      res_bind (process_query_buffer (Suc (Suc (Suc fuel))) J pw this addr
        (conn\<lparr>c_last_interaction_time := Some now, c_querybuf := q\<rparr>) g) (\<lambda>r. Inr (Some r))"
  shows "read_throws J conn rd \<and>
      read_conn m (Suc (Suc (Suc fuel))) J pw this addr now rd conn g = Inl Uncaught_exception \<or>
    (\<exists>ret c' g'. read_conn m (Suc (Suc (Suc fuel))) J pw this addr now rd conn g = Inr (Some (ret, c', g')) \<and>
       conn_ok c' \<and> g' \<noteq> None \<and> conn_frame conn c' \<and> c_last_interaction_time c' = Some now)"
proof -
  let ?c = "conn\<lparr>c_last_interaction_time := Some now, c_querybuf := q\<rparr>"
  have c: "conn_ok ?c" by (rule conn_ok_append [OF ok q])
  show ?thesis
  proof (cases "request_throws J ?c")
    case True
    then have "read_throws J conn rd" using q(2) rd by (auto simp: read_throws_def)
    then show ?thesis by (simp add: eq process_query_buffer_throws [OF c True])
  next
    case False
    have "length (sds_val (c_querybuf ?c)) < 65535" using len by simp
    then obtain ret c' g' where r: "process_query_buffer (Suc (Suc (Suc fuel))) J pw this addr ?c g = Inr (ret, c', g')"
      "conn_ok c'" "g' \<noteq> None" "conn_frame ?c c'" "c_last_interaction_time c' = c_last_interaction_time ?c"
      using process_safe [OF c _ g False] by blast
    then have "conn_frame conn c'" "c_last_interaction_time c' = Some now" by (simp_all add: conn_frame_def)
    with r(1-3) show ?thesis unfolding eq by auto
  qed
qed

lemma read_conn_safe:
  assumes ok: "conn_ok conn" and m: "mem_ok m" and g: "g \<noteq> None" and rs: "read_safe conn rd"
  shows "read_conn m (Suc (Suc (Suc fuel))) J pw this addr now rd conn g = Inr None \<or>
    read_throws J conn rd \<and>
      read_conn m (Suc (Suc (Suc fuel))) J pw this addr now rd conn g = Inl Uncaught_exception \<or>
    (\<exists>ret c' g'. read_conn m (Suc (Suc (Suc fuel))) J pw this addr now rd conn g = Inr (Some (ret, c', g')) \<and>
       conn_ok c' \<and> g' \<noteq> None \<and> conn_frame conn c' \<and> c_last_interaction_time c' = Some now)"
proof -
  have wf: "sds_wf (c_querybuf conn)" using ok by (simp add: conn_ok_def)
  have e0: "0 \<le> c_bytes_expected conn"
    using ok uint32_bound by (auto simp: conn_ok_def split: conn_state.splits)
  have e: "c_bytes_expected conn < 2147483648" "c_bytes_expected conn \<le> 2000000000" using rs by (auto simp: read_safe_def)
  have sl: "sds_len (c_querybuf conn) < 65535" using rs wf by (auto simp: read_safe_def)
  then have fits: "fits (c_querybuf conn) (c_bytes_expected conn)"
    using e e0 by (simp add: fits_def SDS_MAX_PREALLOC_def)
  have conv: "i32 (c_bytes_expected conn) = c_bytes_expected conn" "usz (c_bytes_expected conn) = c_bytes_expected conn"
    using e0 e(1) by (simp_all add: i32_id usz_id)
  obtain q0 where q0: "sdsMakeRoomFor m (c_querybuf conn) (c_bytes_expected conn) = Inr q0" "sds_wf q0"
    "sds_val q0 = sds_val (c_querybuf conn)"
    using sdsMakeRoomFor_correct [OF wf m fits] by blast
  consider (eagain) "rd (c_bytes_expected conn) = Fail EAGAIN"
    | (closed) "rd (c_bytes_expected conn) = Ok [] \<or> (\<exists>err. err \<noteq> EAGAIN \<and> rd (c_bytes_expected conn) = Fail err)"
    | (bytes) bs where "rd (c_bytes_expected conn) = Ok bs" "bs \<noteq> []"
    by (cases "rd (c_bytes_expected conn)") metis+
  then show ?thesis
  proof cases
    case eagain
    have v: "sds_val q0 = sds_val (c_querybuf conn) @ []" and l: "length (sds_val q0) < 65535"
      using q0(3) rs by (auto simp: read_safe_def)
    have "read_conn m (Suc (Suc (Suc fuel))) J pw this addr now rd conn g =
        res_bind (process_query_buffer (Suc (Suc (Suc fuel))) J pw this addr
          (conn\<lparr>c_last_interaction_time := Some now, c_querybuf := q0\<rparr>) g) (\<lambda>r. Inr (Some r))"
      using eagain q0(1) by (simp add: read_conn_def conv sock_read_data_def Let_def)
    from process_read [OF ok q0(2) v l g _ this] eagain show ?thesis by simp
  next
    case closed
    then show ?thesis using q0(1) by (auto simp: read_conn_def conv sock_read_data_def Let_def)
  next
    case bytes
    have b: "int (length bs) \<le> c_bytes_expected conn" "length (sds_val (c_querybuf conn)) + length bs < 65535"
      using rs bytes(1) by (auto simp: read_safe_def)
    obtain q where q: "sds_wf q" "sds_val q = sds_val (c_querybuf conn) @ bs"
      "read_conn m (Suc (Suc (Suc fuel))) J pw this addr now rd conn g =
       res_bind (process_query_buffer (Suc (Suc (Suc fuel))) J pw this addr
        (conn\<lparr>c_last_interaction_time := Some now, c_querybuf := q\<rparr>) g) (\<lambda>r. Inr (Some r))"
      using read_conn_bytes [where rd = rd and bs = bs, OF ok m e(1) fits bytes b(1)] by blast
    have "length (sds_val q) < 65535" using q(2) b(2) by simp
    from process_read [OF ok q(1,2) this g _ q(3)] bytes show ?thesis by simp
  qed
qed

section \<open>Properties\<close>

text \<open>C1: a new connection receives one message with a good header and a body of at most \<open>10\<^sup>9\<close>
  bytes, cut into reads in any way the kernel may cut it, and the loop has fuel for three rounds.
  The reads before the last leave the rest of the server as it was. After the last one exactly one
  request was handled, with the message's log id and body, and its effect on the server is the only
  one; when the JSON library throws on the body, the exception leaves the event loop uncaught.\<close>

theorem request_framing:
  assumes "mem_ok m" "msg_ok h body" "g \<noteq> None" "chunks_ok (length body) 0 rds"
    "concat rds = xhead_bytes h @ body" "3 \<le> fuel"
  shows "\<exists>conn. TcpConnection_new m fd = Inr conn \<and>
    (\<forall>n<length rds. \<exists>conn'. read_all m fuel J pw this addr now (take n rds) conn g = Inr (Some (conn', g))) \<and>
    (if js_parse J body = None
     then read_all m fuel J pw this addr now rds conn g = Inl Uncaught_exception
     else \<exists>ret conn' g'. handle_request J pw this addr fd (xh_log_id h) body g = Inr (ret, g') \<and>
       read_all m fuel J pw this addr now rds conn g = Inr (Some (conn', g')))"
proof -
  obtain conn where c: "TcpConnection_new m fd = Inr conn" "awaiting h body [] conn" "c_fd conn = fd"
    using TcpConnection_new_awaiting [OF assms(1,2)] by blast
  obtain f where f: "fuel = Suc (Suc (Suc f))"
    using assms(6) by (metis add_2_eq_Suc le_iff_add numeral_3_eq_3 plus_nat.simps(2))
  have ck: "chunks_ok (length body) (length ([] :: byte list)) rds" "[] @ concat rds = xhead_bytes h @ body"
    using assms(4,5) by simp_all
  note all = read_all_message [OF c(2) assms(2,1) ck, where fuel = f, folded f]
  obtain conn' where a: "read_all m fuel J pw this addr now rds conn g =
      res_bind (handle_request J pw this addr fd (xh_log_id h) body g)
        (\<lambda>(ret, g'). Inr (Some (answered conn' ret, g')))"
    using all(1) c(3) by blast
  show ?thesis
  proof (cases "js_parse J body = None")
    case True
    then show ?thesis using c(1) a by (auto simp: handle_request_throws intro: all(2))
  next
    case False
    obtain ret g' where "handle_request J pw this addr fd (xh_log_id h) body g = Inr (ret, g')"
      using handle_request_total [OF assms(3) False] by blast
    then show ?thesis using c(1) a False by (auto intro: all(2))
  qed
qed

text \<open>A JSON library for the witnesses: a text is its own parse, with the four fields of a push request.\<close>

definition ex_json :: "byte list jsoncpp" where
  "ex_json = \<lparr>js_parse = (\<lambda>bs. Some (bs, [])), js_get = (\<lambda>j key. Some j), js_asInt = (\<lambda>j. Some 1),
     js_asUInt64 = (\<lambda>j. Some 7), js_asString = (\<lambda>j. Some j), js_write = (\<lambda>fs. [123, 125])\<rparr>"

definition ex_mem :: mem_env where
  "ex_mem = \<lparr>al_ok = (\<lambda>n. True), al_junk = (\<lambda>n. 170)\<rparr>"

definition ex_mailbox :: mailbox where
  "ex_mailbox = \<lparr>mb_q = [], mb_pipe = []\<rparr>"

lemma request_framing_witness:
  "\<exists>conn. TcpConnection_new ex_mem 5 = Inr conn \<and>
    (\<exists>conn'. read_all ex_mem 3 ex_json (\<lambda>_. Ok ()) 0 1 9 [xhead_bytes ex_head, [104, 101]]
       conn (Some ex_mailbox) = Inr (Some (conn', Some ex_mailbox))) \<and>
    (\<exists>ret conn' g'.
      handle_request ex_json (\<lambda>_. Ok ()) 0 1 5 77 [104, 101, 108, 108, 111] (Some ex_mailbox) = Inr (ret, g') \<and>
      read_all ex_mem 3 ex_json (\<lambda>_. Ok ()) 0 1 9
        [xhead_bytes ex_head, [104, 101], [108, 108, 111]] conn (Some ex_mailbox) = Inr (Some (conn', g')))"
proof -
  have m: "mem_ok ex_mem" by (simp add: mem_ok_def ex_mem_def)
  have msg: "msg_ok ex_head [104, 101, 108, 108, 111]"
    using ex_head_wf by (simp add: msg_ok_def ex_head_def)
  have "chunks_ok (length [104, 101, 108, 108, 111 :: byte]) 0 [xhead_bytes ex_head, [104, 101], [108, 108, 111]]"
    using length_xhead_bytes [OF ex_head_wf] by auto
  from request_framing [OF m msg _ this, of "Some ex_mailbox" 3 5 ex_json "\<lambda>_. Ok ()" 0 1 9]
  obtain conn where c: "TcpConnection_new ex_mem 5 = Inr conn"
    "\<And>n. n < 3 \<Longrightarrow> \<exists>conn'. read_all ex_mem 3 ex_json (\<lambda>_. Ok ()) 0 1 9
      (take n [xhead_bytes ex_head, [104, 101], [108, 108, 111]]) conn (Some ex_mailbox) =
      Inr (Some (conn', Some ex_mailbox))"
    "\<exists>ret conn' g'. handle_request ex_json (\<lambda>_. Ok ()) 0 1 5 (xh_log_id ex_head) [104, 101, 108, 108, 111]
       (Some ex_mailbox) = Inr (ret, g') \<and>
     read_all ex_mem 3 ex_json (\<lambda>_. Ok ()) 0 1 9
       [xhead_bytes ex_head, [104, 101], [108, 108, 111]] conn (Some ex_mailbox) = Inr (Some (conn', g'))"
    by (auto simp: ex_json_def)
  have "xh_log_id ex_head = 77" by (simp add: ex_head_def)
  with c(1,3) c(2) [of 2] show ?thesis by (auto simp: numeral_2_eq_2)
qed

text \<open>C12: as long as fewer than \<open>65535\<close> bytes beyond the announced body have arrived, looking for
  requests ends within three rounds without reading outside the query buffer. It keeps the
  connection's invariant, except in one case: the complete body of a request is in the buffer and
  the JSON library throws on it, and then the exception leaves the loop uncaught.\<close>

theorem process_query_buffer_returns:
  assumes "conn_ok conn" "g \<noteq> None" "3 \<le> fuel"
    "int (length (sds_val (c_querybuf conn))) < uint (xh_body_len (query_head conn)) + 65535"
  shows "if request_throws J conn
    then process_query_buffer fuel J pw this addr conn g = Inl Uncaught_exception
    else \<exists>ret conn' g'. process_query_buffer fuel J pw this addr conn g = Inr (ret, conn', g') \<and>
      conn_ok conn' \<and> g' \<noteq> None"
proof -
  obtain f where "fuel = Suc (Suc (Suc f))"
    using assms(3) by (metis add_2_eq_Suc le_iff_add numeral_3_eq_3 plus_nat.simps(2))
  then show ?thesis
    using process_query_buffer_total [OF assms(1,2,4), of J f pw this addr]
      process_query_buffer_throws [OF assms(1), of J "Suc f" pw this addr g]
    by (auto simp del: not_None_eq)
qed

text \<open>A connection in state \<open>STATE_BODY\<close> whose buffer holds a header and then \<open>bs\<close>.\<close>

definition ex_conn :: "byte list \<Rightarrow> tcp_connection" where
  "ex_conn bs = \<lparr>c_fd = 5, c_host = [], c_port = None, c_io_watcher = None, c_timer_watcher = None,
     c_querybuf = \<lparr>sds_len = int (36 + length bs), sds_free = 0, sds_buf = xhead_bytes ex_head @ bs @ [0]\<rparr>,
     c_bytes_expected = 5, c_bytes_processed = 36, c_current_state = STATE_BODY,
     c_last_interaction_time = None, c_reply_list = [], c_cur_resp_pos = 0\<rparr>"

lemma ex_conn_facts:
  assumes "length bs < 1000000"
  shows "conn_ok (ex_conn bs)" "query_head (ex_conn bs) = ex_head"
    "length (sds_val (c_querybuf (ex_conn bs))) = 36 + length bs"
proof -
  have l: "length (xhead_bytes ex_head) = 36" by (rule length_xhead_bytes [OF ex_head_wf])
  have v: "sds_val (c_querybuf (ex_conn bs)) = xhead_bytes ex_head @ bs"
    using l by (simp add: sds_val_def ex_conn_def nat_add_distrib)
  then show "length (sds_val (c_querybuf (ex_conn bs))) = 36 + length bs" using l by simp
  show h: "query_head (ex_conn bs) = ex_head"
    by (simp add: query_head_def v xhead_at_bytes [OF ex_head_wf])
  have "sds_wf (c_querybuf (ex_conn bs))"
    using l assms by (simp add: sds_wf_def ex_conn_def nth_append nat_add_distrib)
  then show "conn_ok (ex_conn bs)"
    using h v l unfolding conn_ok_def by (simp add: ex_conn_def ex_head_def)
qed

lemma process_query_buffer_returns_witness:
  "(\<exists>ret conn' g'. process_query_buffer 3 ex_json (\<lambda>_. Ok ()) 0 1 (ex_conn [104, 101]) (Some ex_mailbox) =
     Inr (ret, conn', g') \<and> conn_ok conn')"
proof -
  have c: "conn_ok (ex_conn [104, 101])" by (rule ex_conn_facts) simp
  have l: "int (length (sds_val (c_querybuf (ex_conn [104, 101])))) <
      uint (xh_body_len (query_head (ex_conn [104, 101]))) + 65535"
    using ex_conn_facts(2,3) [of "[104, 101]"] by (simp add: ex_head_def)
  have "\<not> request_throws ex_json (ex_conn [104, 101])"
    using ex_conn_facts(2,3) [of "[104, 101]"] by (simp add: request_throws_def ex_conn_def ex_head_def)
  with process_query_buffer_returns [OF c _ _ l, of "Some ex_mailbox" 3 ex_json "\<lambda>_. Ok ()" 0 1]
  show ?thesis by auto
qed

text \<open>A client can end the server: a body nested deeper than the JSON library allows is enough.\<close>

lemma nested_body_terminates:
  assumes "mem_ok m" "msg_ok h body" "chunks_ok (length body) 0 rds" "concat rds = xhead_bytes h @ body"
    and "js_parse J body = None"
  shows "\<exists>conn. TcpConnection_new m fd = Inr conn \<and>
    read_all m (Suc (Suc (Suc fuel))) J pw this addr now rds conn g = Inl Uncaught_exception"
proof -
  obtain conn where c: "TcpConnection_new m fd = Inr conn" "awaiting h body [] conn"
    using TcpConnection_new_awaiting [OF assms(1,2)] by blast
  from read_all_message(1) [OF c(2) assms(2,1), of rds fuel J pw this addr now g] c(1) show ?thesis
    using assms(3-5) by (simp add: handle_request_throws)
qed

text \<open>C40: after the body, \<open>bytes_processed\<close> is \<open>65535\<close> and the buffer is never emptied: once a client has
  sent that many bytes beyond its body and its request is one the server accepts, the loop handles
  the same request again and again and does not end, whatever the fuel.\<close>

theorem excess_bytes_loop_forever:
  assumes "conn_ok conn" "c_current_state conn = STATE_BODY"
    "c_bytes_expected conn + 65535 \<le> int (length (sds_val (c_querybuf conn)))" "g \<noteq> None"
    "\<And>g. g \<noteq> None \<Longrightarrow> \<exists>r g'. handle_request J pw this addr (c_fd conn)
      (xh_log_id (query_head conn)) (query_body conn) g = Inr (r, g') \<and> 0 \<le> r \<and> g' \<noteq> None"
  shows "process_query_buffer fuel J pw this addr conn g = Inl Not_finished"
  using process_query_buffer_loops [OF assms(1-3,5,4)] .

lemma excess_bytes_loop_forever_witness:
  "\<forall>fuel. process_query_buffer fuel ex_json (\<lambda>_. Ok ()) 0 1 (ex_conn (replicate 65540 65)) (Some ex_mailbox) =
     Inl Not_finished"
proof
  fix fuel
  let ?c = "ex_conn (replicate 65540 65)"
  have l: "length (replicate 65540 (65 :: byte)) < 1000000" by simp
  have c: "conn_ok ?c" "c_current_state ?c = STATE_BODY" using ex_conn_facts(1) [OF l] by (simp_all add: ex_conn_def)
  have e: "c_bytes_expected ?c + 65535 \<le> int (length (sds_val (c_querybuf ?c)))"
    unfolding ex_conn_facts(3) [OF l] by (simp add: ex_conn_def)
  show "process_query_buffer fuel ex_json (\<lambda>_. Ok ()) 0 1 ?c (Some ex_mailbox) = Inl Not_finished"
    by (rule excess_bytes_loop_forever [OF c e])
       (auto simp: handle_request_def ex_json_def js_field_def CMDNO_PUSH_def RtcServer_send_rtc_msg_def
         RtcServer_notify_def notify_pipe_def Let_def)
qed

end
