(* ===== verification/Signaling_Worker.thy ===== *)
theory Signaling_Worker
  imports Tcp_Connection Lock_Free_Queue
begin

text \<open>
  A signalling worker, \<open>src/xrtcserver/rtcserver/src/server/signaling_worker.hpp\<close> and
  \<open>signaling_worker.cpp\<close>: one thread with an event loop that owns the connections given to it.
  Connections are heap objects: \<open>w_heap\<close> maps an address to the object until it is deleted, and
  \<open>new\<close> returns an address that is an argument, so that a later allocation may reuse the address
  of a deleted connection. A handler that would dereference a dangling pointer, index a
  vector out of range or read outside a buffer ends in a fault.
\<close>

section \<open>State\<close>

record signaling_server_conf =
  sc_host :: "byte list"
  sc_port :: int
  sc_worker_num :: int
  sc_connection_timeout :: int

record 'l signaling_worker =
  w_this :: nat
  w_id :: int
  w_options :: signaling_server_conf
  w_el :: "'l event_loop"
  w_pipe_watcher :: ptr
  w_notify_recv_fd :: int
  w_notify_send_fd :: int
  w_thread :: bool
  w_q_conn :: "int lfq"
  w_conns :: "ptr list"
  w_heap :: "nat \<Rightarrow> tcp_connection option"
  w_mb :: mailbox
  w_closed :: "int list"

text \<open>What the worker's code calls: libev, the allocator, the JSON library, the kernel's pipes.\<close>

record ('l, 'j) worker_env =
  e_L :: "'l libev"
  e_mem :: mem_env
  e_json :: "'j jsoncpp"
  e_pw :: pipe_env
  e_fuel :: nat

definition get_conn :: "'l signaling_worker \<Rightarrow> ptr \<Rightarrow> (nat \<times> tcp_connection) res" where
  "get_conn w p =
     (case p of None \<Rightarrow> Inl Null_deref
      | Some a \<Rightarrow> (case w_heap w a of None \<Rightarrow> Inl Use_after_free | Some c \<Rightarrow> Inr (a, c)))"

definition put_conn :: "nat \<Rightarrow> tcp_connection \<Rightarrow> 'l signaling_worker \<Rightarrow> 'l signaling_worker" where
  "put_conn a c w = w\<lparr>w_heap := (w_heap w)(a \<mapsto> c)\<rparr>"

section \<open>Life cycle\<close>

text \<open>\<open>l\<close> is the new libev loop, \<open>a\<close> the address of the dummy node of the connection queue.\<close>

definition SignalingWorker_new ::
  "nat \<Rightarrow> 'l \<Rightarrow> nat \<Rightarrow> int \<Rightarrow> signaling_server_conf \<Rightarrow> 'l signaling_worker" where
  "SignalingWorker_new this l a worker_id options =
     \<lparr>w_this = this, w_id = worker_id, w_options = options, w_el = EventLoop_new l (Some this),
      w_pipe_watcher = None, w_notify_recv_fd = -1, w_notify_send_fd = -1, w_thread = False,
      w_q_conn = lfq_new a 0, w_conns = [], w_heap = (\<lambda>_. None), w_mb = \<lparr>mb_q = [], mb_pipe = []\<rparr>,
      w_closed = []\<rparr>"

definition SignalingWorker_init ::
  "('l, 'j) worker_env \<Rightarrow> (int \<times> int) sysret \<Rightarrow> 'l signaling_worker \<Rightarrow> (int \<times> 'l signaling_worker) res" where
  "SignalingWorker_init E p w =
     (case p of
        Fail err \<Rightarrow> Inr (-1, w)
      | Ok (fd0, fd1) \<Rightarrow>
          let (pw, el) = creat_io_event (w_el w) Signaling_worker_recv_notify (Some (w_this w))
          in res_bind (start_io_event (e_L E) el pw fd0 READ) (\<lambda>el.
               Inr (0, w\<lparr>w_notify_recv_fd := fd0, w_notify_send_fd := fd1, w_pipe_watcher := pw, w_el := el\<rparr>)))"

definition SignalingWorker_start :: "'l signaling_worker \<Rightarrow> bool \<times> 'l signaling_worker" where
  "SignalingWorker_start w = (if w_thread w then (False, w) else (True, w\<lparr>w_thread := True\<rparr>))"

definition w_notify :: "('l, 'j) worker_env \<Rightarrow> int \<Rightarrow> 'l signaling_worker \<Rightarrow> int \<times> 'l signaling_worker" where
  "w_notify E msg w =
     (let (r, mb) = SignalingWorker_notify (e_pw E) msg (w_mb w) in (r, w\<lparr>w_mb := mb\<rparr>))"

definition SignalingWorker_stop :: "('l, 'j) worker_env \<Rightarrow> 'l signaling_worker \<Rightarrow> 'l signaling_worker" where
  "SignalingWorker_stop E w = snd (w_notify E SignalingWorker_QUIT w)"

text \<open>\<open>_stop\<close>, in the worker's own thread.\<close>

definition w_stop :: "('l, 'j) worker_env \<Rightarrow> 'l signaling_worker \<Rightarrow> 'l signaling_worker res" where
  "w_stop E w =
     (if \<not> w_thread w then Inr w
      else res_bind (delete_io_event (e_L E) (w_el w) (w_pipe_watcher w)) (\<lambda>el.
        Inr (w\<lparr>w_el := el_stop (e_L E) el,
               w_closed := w_closed w @ [w_notify_recv_fd w, w_notify_send_fd w]\<rparr>)))"

section \<open>Connections\<close>

definition notify_new_conn ::
  "('l, 'j) worker_env \<Rightarrow> nat \<Rightarrow> int \<Rightarrow> 'l signaling_worker \<Rightarrow> (int \<times> 'l signaling_worker) res" where
  "notify_new_conn E a fd w =
     res_bind (produce a fd (w_q_conn w)) (\<lambda>q.
       Inr (w_notify E SignalingWorker_NEW_CONN (w\<lparr>w_q_conn := q\<rparr>)))"

text \<open>\<open>if ((size_t)fd >= conns_.size()) conns_.resize(fd * 2, nullptr);\<close>\<close>

definition grow_conns :: "int \<Rightarrow> ptr list \<Rightarrow> ptr list" where
  "grow_conns fd conns =
     (if fd \<ge> int (length conns) then conns @ replicate (nat (fd * 2) - length conns) None else conns)"

text \<open>
  \<open>addr\<close> is the address of the new connection, \<open>peer\<close> the kernel's answer to \<open>getpeername\<close>. The
  results of \<open>sock_set_nonblock\<close> and \<open>sock_set_nodelay\<close> are not used. A failing \<open>getpeername\<close> reads the
  connection's \<open>port_\<close>, which has no value yet.
\<close>

definition new_conn ::
  "('l, 'j) worker_env \<Rightarrow> nat \<Rightarrow> sockaddr_in sysret \<Rightarrow> int \<Rightarrow> 'l signaling_worker \<Rightarrow> 'l signaling_worker res" where
  "new_conn E addr peer fd w =
     (if fd < 0 then Inr w
      else
        res_bind (TcpConnection_new (e_mem E) fd) (\<lambda>conn.
        res_bind (sock_peer_to_str peer (c_host conn) (c_port conn)) (\<lambda>(r, host, port).
          let (io, el) = creat_io_event (w_el w) Conn_io_cb (Some (w_this w))
          in res_bind (start_io_event (e_L E) el io fd READ) (\<lambda>el.
               let (tm, el) = creat_timer el Conn_timer_cb (Some addr) True
               in res_bind (start_timer (e_L E) el tm 100000) (\<lambda>el.
                    let conn = conn\<lparr>c_host := host, c_port := port, c_io_watcher := io, c_timer_watcher := tm,
                          c_last_interaction_time := Some (el_now (e_L E) el)\<rparr>;
                        conns = grow_conns fd (w_conns w)
                    in if fd \<ge> int (length (w_conns w)) \<and> \<not> in_i32 (fd * 2) then Inl Signed_overflow
                       else if nat fd < length conns
                       then Inr (put_conn addr conn (w\<lparr>w_el := el, w_conns := conns[nat fd := Some addr]\<rparr>))
                       else Inl Out_of_bounds)))))"

definition close_conn :: "('l, 'j) worker_env \<Rightarrow> ptr \<Rightarrow> 'l signaling_worker \<Rightarrow> 'l signaling_worker res" where
  "close_conn E p w =
     res_bind (get_conn w p) (\<lambda>(a, conn).
     res_bind (delete_timer (e_L E) (w_el w) (c_timer_watcher conn)) (\<lambda>el.
     res_bind (delete_io_event (e_L E) el (c_io_watcher conn)) (\<lambda>el.
       if 0 \<le> c_fd conn \<and> nat (c_fd conn) < length (w_conns w)
       then Inr (w\<lparr>w_el := el, w_conns := (w_conns w)[nat (c_fd conn) := None],
                   w_heap := (w_heap w)(a := None), w_closed := w_closed w @ [c_fd conn]\<rparr>)
       else Inl Out_of_bounds)))"

text \<open>\<open>conns_[fd]\<close>, with the range checks of the callers.\<close>

definition conn_at :: "'l signaling_worker \<Rightarrow> int \<Rightarrow> ptr" where
  "conn_at w fd = (if fd < 0 \<or> int (length (w_conns w)) \<le> fd then None else w_conns w ! nat fd)"

definition read_query :: "('l, 'j) worker_env \<Rightarrow> (int \<Rightarrow> byte list sysret) \<Rightarrow> int \<Rightarrow> 'l signaling_worker \<Rightarrow>
    mailbox option \<Rightarrow> ('l signaling_worker \<times> mailbox option) res" where
  "read_query E rd fd w g =
     (case conn_at w fd of
        None \<Rightarrow> Inr (w, g)
      | Some a \<Rightarrow>
          res_bind (get_conn w (Some a)) (\<lambda>(a, conn).
          res_bind (read_conn (e_mem E) (e_fuel E) (e_json E) (e_pw E) (w_this w) a
                      (el_now (e_L E) (w_el w)) rd conn g) (\<lambda>r.
            case r of
              None \<Rightarrow> res_bind (close_conn E (Some a) w) (\<lambda>w. Inr (w, g))
            | Some (ret, conn, g) \<Rightarrow> Inr (put_conn a conn w, g))))"

text \<open>
  The loop of \<open>_write_reply\<close>: \<open>os\<close> are the kernel's answers to the writes, one per round; the bytes of
  a reply that are given to \<open>write\<close> must be inside its buffer. The result says whether the loop ended
  by itself (and not by \<open>return\<close>), what is left, and which bytes went out.
\<close>

fun write_loop :: "nat sysret list \<Rightarrow> slice list \<Rightarrow> nat \<Rightarrow> byte list \<Rightarrow>
    (bool \<times> slice list \<times> nat \<times> byte list) res" where
  "write_loop os [] pos out = Inr (True, [], pos, out)"
| "write_loop [] (reply # rl) pos out = Inl Not_finished"
| "write_loop (r # os) (reply # rl) pos out =
     res_bind (mem_read (sl_data reply + pos) (sl_size reply - pos) (sl_mem reply)) (\<lambda>bs.
       let nwritten = sock_write_data r
       in if nwritten = -1 then Inr (False, reply # rl, pos, out)
          else if nwritten = 0 then write_loop os (reply # rl) pos out
          else if nwritten + int pos \<ge> int (sl_size reply)
          then write_loop os rl 0 (out @ take (nat nwritten) bs)
          else write_loop os (reply # rl) (pos + nat nwritten) (out @ take (nat nwritten) bs))"

definition write_reply :: "('l, 'j) worker_env \<Rightarrow> nat sysret list \<Rightarrow> int \<Rightarrow> 'l signaling_worker \<Rightarrow>
    ('l signaling_worker \<times> byte list) res" where
  "write_reply E os fd w =
     (if fd \<le> 0 then Inr (w, [])
      else case conn_at w fd of
        None \<Rightarrow> Inr (w, [])
      | Some a \<Rightarrow>
          res_bind (get_conn w (Some a)) (\<lambda>(a, conn).
          res_bind (write_loop os (c_reply_list conn) (nat (c_cur_resp_pos conn)) []) (\<lambda>(fin, rl, pos, out).
            let conn = conn\<lparr>c_reply_list := rl, c_cur_resp_pos := int pos\<rparr>
            in if \<not> fin then Inr (put_conn a conn w, out)
               else
                 let conn = conn\<lparr>c_last_interaction_time := Some (el_now (e_L E) (w_el w))\<rparr>
                 in if c_reply_list conn = []
                    then res_bind (stop_io_event (e_L E) (w_el w) (c_io_watcher conn) (c_fd conn) WRITE) (\<lambda>el.
                           Inr (put_conn a conn (w\<lparr>w_el := el\<rparr>), out))
                    else Inr (put_conn a conn w, out))))"

definition conn_io_cb :: "('l, 'j) worker_env \<Rightarrow> (int \<Rightarrow> byte list sysret) \<Rightarrow> nat sysret list \<Rightarrow> int \<Rightarrow> int \<Rightarrow>
    'l signaling_worker \<Rightarrow> mailbox option \<Rightarrow> ('l signaling_worker \<times> mailbox option \<times> byte list) res" where
  "conn_io_cb E rd os fd events w g =
     res_bind (if events AND READ \<noteq> 0 then read_query E rd fd w g else Inr (w, g)) (\<lambda>(w, g).
     res_bind (if events AND WRITE \<noteq> 0 then write_reply E os fd w else Inr (w, [])) (\<lambda>(w, out).
       Inr (w, g, out)))"

definition process_timeout :: "('l, 'j) worker_env \<Rightarrow> ptr \<Rightarrow> 'l signaling_worker \<Rightarrow> 'l signaling_worker res" where
  "process_timeout E p w =
     res_bind (get_conn w p) (\<lambda>(a, conn).
     res_bind (initialised (c_last_interaction_time conn)) (\<lambda>last.
       if usz (el_now (e_L E) (w_el w) - last) \<ge> usz (sc_connection_timeout (w_options w))
       then close_conn E p w
       else Inr w))"

definition conn_timer_cb :: "('l, 'j) worker_env \<Rightarrow> ptr \<Rightarrow> 'l signaling_worker \<Rightarrow> 'l signaling_worker res" where
  "conn_timer_cb E data w = process_timeout E data w"

section \<open>Replies\<close>

definition add_reply ::
  "('l, 'j) worker_env \<Rightarrow> nat \<Rightarrow> tcp_connection \<Rightarrow> slice \<Rightarrow> 'l signaling_worker \<Rightarrow> 'l signaling_worker res" where
  "add_reply E a conn reply w =
     (let conn = conn\<lparr>c_reply_list := c_reply_list conn @ [reply]\<rparr>
      in res_bind (start_io_event (e_L E) (w_el w) (c_io_watcher conn) (c_fd conn) WRITE) (\<lambda>el.
           Inr (put_conn a conn (w\<lparr>w_el := el\<rparr>))))"

text \<open>The fields of the response, in the order they are set.\<close>

definition response_fields :: "rtc_msg \<Rightarrow> (string \<times> jval) list" where
  "response_fields msg =
     (if m_err_no msg \<noteq> 0
      then [(''err_no'', Jint (m_err_no msg)),
            (''err_msg'', Jstr (map (word_of_nat \<circ> of_char) ''process error'')), (''offer'', Jstr [])]
      else [(''err_no'', Jint (m_err_no msg)),
            (''err_msg'', Jstr (map (word_of_nat \<circ> of_char) ''process success'')), (''offer'', Jstr (m_sdp msg))])"

text \<open>
  The response buffer: \<open>zmalloc\<close>, the copy of the request's header, the new length, and \<open>snprintf\<close>, which
  writes at most \<open>MAX_RES_BUF - 1\<close> bytes of the text (up to its first null byte) and a terminator. The sum
  \<open>XHEAD_SIZE + body_len\<close> is computed in 32 bits.
\<close>

definition build_reply :: "mem_env \<Rightarrow> byte list \<Rightarrow> byte list \<Rightarrow> slice res" where
  "build_reply m querybuf json =
     (if \<not> al_ok m (nat (XHEAD_SIZE + MAX_RES_BUF)) then Inl Oom_abort
      else
        let buf = map (al_junk m) [0..<nat (XHEAD_SIZE + MAX_RES_BUF)]
        in res_bind (mem_read 0 (nat XHEAD_SIZE) querybuf) (\<lambda>hdr.
           res_bind (mem_write 0 hdr buf) (\<lambda>buf.
             let body_len = word_of_nat (length json) :: u32
             in res_bind (set_body_len body_len buf) (\<lambda>buf.
                res_bind (mem_write (nat XHEAD_SIZE)
                            (take (nat (MAX_RES_BUF - 1)) (takeWhile (\<lambda>c. c \<noteq> 0) json) @ [0]) buf) (\<lambda>buf.
                  Inr (Slice_make buf 0 (unat (word_of_int XHEAD_SIZE + body_len))))))))"

definition response_server_offer ::
  "('l, 'j) worker_env \<Rightarrow> rtc_msg \<Rightarrow> 'l signaling_worker \<Rightarrow> 'l signaling_worker res" where
  "response_server_offer E msg w =
     (if m_conn msg = None then Inr w
      else if m_fd msg < 0 \<or> m_fd msg \<ge> int (length (w_conns w)) then Inr w
      else if w_conns w ! nat (m_fd msg) \<noteq> m_conn msg then Inr w
      else
        res_bind (get_conn w (m_conn msg)) (\<lambda>(a, conn).
        res_bind (build_reply (e_mem E) (sds_buf (c_querybuf conn)) (js_write (e_json E) (response_fields msg))) (\<lambda>reply.
          add_reply E a conn reply w)))"

definition w_process_rtc_msg :: "('l, 'j) worker_env \<Rightarrow> 'l signaling_worker \<Rightarrow> 'l signaling_worker res" where
  "w_process_rtc_msg E w =
     (let (msg, mb) = SignalingWorker_pop_msg (w_mb w); w = w\<lparr>w_mb := mb\<rparr>
      in case msg of
           None \<Rightarrow> Inr w
         | Some msg \<Rightarrow> if m_cmdno msg = CMDNO_PUSH then response_server_offer E msg w else Inr w)"

section \<open>Notifications\<close>

text \<open>\<open>fresh\<close> and \<open>peer\<close> are what a new connection needs.\<close>

definition w_process_notify ::
  "('l, 'j) worker_env \<Rightarrow> nat \<Rightarrow> sockaddr_in sysret \<Rightarrow> int \<Rightarrow> 'l signaling_worker \<Rightarrow> 'l signaling_worker res" where
  "w_process_notify E fresh peer msg w =
     (if msg = SignalingWorker_QUIT then w_stop E w
      else if msg = SignalingWorker_NEW_CONN then
        res_bind (consume (w_q_conn w)) (\<lambda>(r, q).
          let w = w\<lparr>w_q_conn := q\<rparr>
          in case r of None \<Rightarrow> Inr w | Some fd \<Rightarrow> new_conn E fresh peer fd w)
      else if msg = SignalingWorker_RTC_MSG then w_process_rtc_msg E w
      else Inr w)"

definition signaling_worker_recv_notify ::
  "('l, 'j) worker_env \<Rightarrow> nat \<Rightarrow> sockaddr_in sysret \<Rightarrow> pipe_read \<Rightarrow> 'l signaling_worker \<Rightarrow> 'l signaling_worker res" where
  "signaling_worker_recv_notify E fresh peer r w =
     res_bind (recv_strict r (mb_pipe (w_mb w))) (\<lambda>(msg, pipe).
       let w = w\<lparr>w_mb := (w_mb w)\<lparr>mb_pipe := pipe\<rparr>\<rparr>
       in case msg of None \<Rightarrow> Inr w | Some msg \<Rightarrow> w_process_notify E fresh peer msg w)"

text \<open>The destructor closes the connections that are left; the vector is walked by index.\<close>

fun close_all :: "('l, 'j) worker_env \<Rightarrow> nat list \<Rightarrow> 'l signaling_worker \<Rightarrow> 'l signaling_worker res" where
  "close_all E [] w = Inr w"
| "close_all E (i # is) w =
     res_bind (case w_conns w ! i of None \<Rightarrow> Inr w | Some a \<Rightarrow> close_conn E (Some a) w) (close_all E is)"

definition SignalingWorker_destroy :: "('l, 'j) worker_env \<Rightarrow> 'l signaling_worker \<Rightarrow> 'l signaling_worker res" where
  "SignalingWorker_destroy E w =
     res_bind (close_all E [0..<length (w_conns w)] w) (\<lambda>w. Inr (w\<lparr>w_conns := [], w_thread := False\<rparr>))"

section \<open>The invariant of a running worker\<close>

definition el_ok :: "'l event_loop \<Rightarrow> bool" where
  "el_ok el \<longleftrightarrow> (\<forall>i. el_io el i \<noteq> None \<longrightarrow> i < el_fresh el) \<and> (\<forall>t. el_tm el t \<noteq> None \<longrightarrow> t < el_fresh el)"

text \<open>Replies waiting to be written: each is inside its buffer, and the write position is inside the first.\<close>

definition replies_ok :: "slice list \<Rightarrow> nat \<Rightarrow> bool" where
  "replies_ok rl pos \<longleftrightarrow> (\<forall>r \<in> set rl. slice_wf r \<and> 0 < sl_size r) \<and>
     (case rl of [] \<Rightarrow> pos = 0 | r # _ \<Rightarrow> pos < sl_size r)"

text \<open>
  A connection at rest: its object is consistent, its watchers are alive, and it waits for
  the write event exactly when it has something to write.
\<close>

definition conn_good :: "'l event_loop \<Rightarrow> tcp_connection \<Rightarrow> bool" where
  "conn_good el c \<longleftrightarrow> conn_ok c \<and> c_last_interaction_time c \<noteq> None \<and> 0 \<le> c_cur_resp_pos c \<and>
     replies_ok (c_reply_list c) (nat (c_cur_resp_pos c)) \<and>
     (\<exists>i t. c_io_watcher c = Some i \<and> c_timer_watcher c = Some t \<and> io_live el i \<and> el_tm el t \<noteq> None \<and>
        watched el i = (if c_reply_list c = [] then READ else READ OR WRITE))"

text \<open>
  The table maps a descriptor to the object that has it and the heap holds no other objects;
  no two connections share a watcher, and none uses the watcher of the notification pipe.
  Every timer belongs to a connection that is alive and passes that connection to its callback.
\<close>

definition worker_ok :: "'l signaling_worker \<Rightarrow> bool" where
  "worker_ok w \<longleftrightarrow> el_ok (w_el w) \<and>
     (\<forall>n a. n < length (w_conns w) \<longrightarrow> w_conns w ! n = Some a \<longrightarrow>
        (\<exists>c. w_heap w a = Some c \<and> c_fd c = int n)) \<and>
     (\<forall>a c. w_heap w a = Some c \<longrightarrow> conn_good (w_el w) c \<and> 0 \<le> c_fd c \<and>
        nat (c_fd c) < length (w_conns w) \<and> w_conns w ! nat (c_fd c) = Some a) \<and>
     (\<forall>a b c d. w_heap w a = Some c \<longrightarrow> w_heap w b = Some d \<longrightarrow> a \<noteq> b \<longrightarrow>
        c_io_watcher c \<noteq> c_io_watcher d \<and> c_timer_watcher c \<noteq> c_timer_watcher d) \<and>
     (\<exists>p. w_pipe_watcher w = Some p \<and> el_io (w_el w) p \<noteq> None \<and>
        (\<forall>a c. w_heap w a = Some c \<longrightarrow> c_io_watcher c \<noteq> Some p)) \<and>
     (\<forall>t tw. el_tm (w_el w) t = Some tw \<longrightarrow>
        (\<exists>a c. tw_data tw = Some a \<and> w_heap w a = Some c \<and> c_timer_watcher c = Some t))"

lemma worker_okD:
  assumes "worker_ok w"
  shows "el_ok (w_el w)"
    and "\<And>n a. n < length (w_conns w) \<Longrightarrow> w_conns w ! n = Some a \<Longrightarrow> \<exists>c. w_heap w a = Some c \<and> c_fd c = int n"
    and "\<And>a c. w_heap w a = Some c \<Longrightarrow> conn_good (w_el w) c"
    and "\<And>a c. w_heap w a = Some c \<Longrightarrow> 0 \<le> c_fd c"
    and "\<And>a c. w_heap w a = Some c \<Longrightarrow> nat (c_fd c) < length (w_conns w)"
    and "\<And>a c. w_heap w a = Some c \<Longrightarrow> w_conns w ! nat (c_fd c) = Some a"
    and "\<And>a b c d. w_heap w a = Some c \<Longrightarrow> w_heap w b = Some d \<Longrightarrow> a \<noteq> b \<Longrightarrow>
       c_io_watcher c \<noteq> c_io_watcher d \<and> c_timer_watcher c \<noteq> c_timer_watcher d"
    and "\<And>t tw. el_tm (w_el w) t = Some tw \<Longrightarrow>
       \<exists>a c. tw_data tw = Some a \<and> w_heap w a = Some c \<and> c_timer_watcher c = Some t"
  using assms unfolding worker_ok_def by blast+

lemma worker_ok_pipe:
  assumes "worker_ok w"
  obtains p where "w_pipe_watcher w = Some p" "el_io (w_el w) p \<noteq> None"
    "\<And>a c. w_heap w a = Some c \<Longrightarrow> c_io_watcher c \<noteq> Some p"
  using assms unfolding worker_ok_def by blast

lemma conn_goodD:
  assumes "conn_good el c"
  obtains i t where "c_io_watcher c = Some i" "c_timer_watcher c = Some t" "io_live el i" "el_tm el t \<noteq> None"
    "watched el i = (if c_reply_list c = [] then READ else READ OR WRITE)"
  using assms unfolding conn_good_def by blast

lemma conn_good_cong:
  assumes "conn_good el c" "\<And>i. c_io_watcher c = Some i \<Longrightarrow> watched el' i = watched el i \<and> io_live el' i = io_live el i"
    "\<And>t. c_timer_watcher c = Some t \<Longrightarrow> el_tm el' t = el_tm el t"
  shows "conn_good el' c"
  using assms by (fastforce simp: conn_good_def)

lemma io_frame_el_ok: "io_frame i el el' \<Longrightarrow> el_ok el \<Longrightarrow> el_ok el'"
  using io_frame_dom [of i el el'] by (auto simp: el_ok_def io_frame_def)

text \<open>Changing one connection, and its watcher's events with it.\<close>

lemma worker_ok_put:
  assumes ok: "worker_ok w" and c: "w_heap w a = Some c"
    and same: "c_fd c' = c_fd c" "c_io_watcher c' = c_io_watcher c" "c_timer_watcher c' = c_timer_watcher c"
    and i: "c_io_watcher c = Some i" and fr: "io_frame i (w_el w) el'" and good: "conn_good el' c'"
  shows "worker_ok (put_conn a c' (w\<lparr>w_el := el'\<rparr>))"
proof -
  obtain p where p: "w_pipe_watcher w = Some p" "el_io (w_el w) p \<noteq> None"
    "\<And>a c. w_heap w a = Some c \<Longrightarrow> c_io_watcher c \<noteq> Some p"
    using worker_ok_pipe [OF ok] by blast
  have others: "conn_good el' d" if d: "w_heap w b = Some d" "b \<noteq> a" for b d
  proof (rule conn_good_cong [OF worker_okD(3) [OF ok d(1)]])
    show "watched el' j = watched (w_el w) j \<and> io_live el' j = io_live (w_el w) j" if "c_io_watcher d = Some j" for j
      using io_frame_watched [OF fr, of j] worker_okD(7) [OF ok d(1) c d(2)] i that by simp
    show "el_tm el' t = el_tm (w_el w) t" for t using fr by (simp add: io_frame_def)
  qed
  have timers: "\<exists>b d. tw_data tw = Some b \<and> ((w_heap w)(a \<mapsto> c')) b = Some d \<and> c_timer_watcher d = Some t"
    if "el_tm el' t = Some tw" for t tw
  proof -
    have "el_tm (w_el w) t = Some tw" using that fr by (simp add: io_frame_def)
    from worker_okD(8) [OF ok this] obtain b d where
      b: "tw_data tw = Some b" "w_heap w b = Some d" "c_timer_watcher d = Some t" by blast
    then show ?thesis using c same(3) by (cases "b = a") auto
  qed
  have "el_ok el'" using io_frame_el_ok [OF fr worker_okD(1) [OF ok]] .
  then show ?thesis
    unfolding worker_ok_def put_conn_def
    using worker_okD(2,4-7) [OF ok] c same good others p io_frame_dom [OF fr] timers
    by (auto split: if_splits) (metis option.inject)+
qed

text \<open>A change that leaves the watchers alone.\<close>

lemma worker_ok_put_same:
  assumes ok: "worker_ok w" and c: "w_heap w a = Some c"
    and same: "c_fd c' = c_fd c" "c_io_watcher c' = c_io_watcher c" "c_timer_watcher c' = c_timer_watcher c"
    and good: "conn_good (w_el w) c'"
  shows "worker_ok (put_conn a c' w)"
proof -
  obtain i where "c_io_watcher c = Some i" using conn_goodD [OF worker_okD(3) [OF ok c]] by blast
  from worker_ok_put [OF ok c same this io_frame_refl good] show ?thesis by simp
qed

section \<open>Closing and opening connections\<close>

lemma delete_timer_ok:
  assumes "el_tm el t \<noteq> None"
  shows "\<exists>el'. delete_timer L el (Some t) = Inr el' \<and> el_io el' = el_io el \<and>
    el_tm el' = (el_tm el)(t := None) \<and> el_fresh el' = el_fresh el"
  using assms by (auto simp: delete_timer_def stop_timer_def get_tm_def put_tm_def)

lemma delete_io_event_ok:
  assumes "el_io el i \<noteq> None"
  shows "\<exists>el'. delete_io_event L el (Some i) = Inr el' \<and> el_tm el' = el_tm el \<and>
    el_io el' = (el_io el)(i := None) \<and> el_fresh el' = el_fresh el"
  using assms by (auto simp: delete_io_event_def get_io_def split_beta)

lemma io_live_not_None: "io_live el i \<Longrightarrow> el_io el i \<noteq> None"
  by (auto simp: io_live_def)

lemma close_conn_ok:
  assumes ok: "worker_ok w" and c: "w_heap w a = Some c"
  shows "\<exists>w'. close_conn E (Some a) w = Inr w' \<and> worker_ok w' \<and> w_heap w' = (w_heap w)(a := None) \<and>
    w_conns w' = (w_conns w)[nat (c_fd c) := None] \<and> w_closed w' = w_closed w @ [c_fd c] \<and>
    w_mb w' = w_mb w \<and> w_q_conn w' = w_q_conn w"
proof -
  obtain i t where it: "c_io_watcher c = Some i" "c_timer_watcher c = Some t" "io_live (w_el w) i"
    "el_tm (w_el w) t \<noteq> None"
    using conn_goodD [OF worker_okD(3) [OF ok c]] by metis
  obtain el1 where el1: "delete_timer (e_L E) (w_el w) (Some t) = Inr el1" "el_io el1 = el_io (w_el w)"
    "el_tm el1 = (el_tm (w_el w))(t := None)" "el_fresh el1 = el_fresh (w_el w)"
    using delete_timer_ok [OF it(4)] by blast
  obtain el2 where el2: "delete_io_event (e_L E) el1 (Some i) = Inr el2" "el_tm el2 = el_tm el1"
    "el_io el2 = (el_io el1)(i := None)" "el_fresh el2 = el_fresh el1"
    using delete_io_event_ok [of el1 i] io_live_not_None [OF it(3)] el1(2) by auto
  note fd = worker_okD(4,5,6) [OF ok c]
  let ?w = "w\<lparr>w_el := el2, w_conns := (w_conns w)[nat (c_fd c) := None],
     w_heap := (w_heap w)(a := None), w_closed := w_closed w @ [c_fd c]\<rparr>"
  have eq: "close_conn E (Some a) w = Inr ?w"
    using c it(1,2) el1(1) el2(1) fd by (simp add: close_conn_def get_conn_def)
  have others: "conn_good el2 d \<and> (w_conns w)[nat (c_fd c) := None] ! nat (c_fd d) = Some b"
    if d: "w_heap w b = Some d" "b \<noteq> a" for b d
  proof
    show "conn_good el2 d"
      by (rule conn_good_cong [OF worker_okD(3) [OF ok d(1)]])
         (use worker_okD(7) [OF ok d(1) c d(2)] it el1 el2 in \<open>auto simp: watched_def io_live_def\<close>)
    have "nat (c_fd d) \<noteq> nat (c_fd c)" using worker_okD(6) [OF ok d(1)] fd(3) d(2) by auto
    then show "(w_conns w)[nat (c_fd c) := None] ! nat (c_fd d) = Some b" using worker_okD(6) [OF ok d(1)] by simp
  qed
  have elok: "el_ok el2" using worker_okD(1) [OF ok] el1 el2 by (auto simp: el_ok_def)
  have tab: "\<exists>d. ((w_heap w)(a := None)) b = Some d \<and> c_fd d = int n"
    if "n < length (w_conns w)" "(w_conns w)[nat (c_fd c) := None] ! n = Some b" for n b
  proof -
    have ne: "n \<noteq> nat (c_fd c)" using that by auto
    then have n: "w_conns w ! n = Some b" using that by simp
    have "b \<noteq> a" using worker_okD(2) [OF ok that(1) n] c ne by auto
    then show ?thesis using worker_okD(2) [OF ok that(1) n] c by auto
  qed
  obtain p where p: "w_pipe_watcher w = Some p" "el_io (w_el w) p \<noteq> None"
    "\<And>a c. w_heap w a = Some c \<Longrightarrow> c_io_watcher c \<noteq> Some p"
    using worker_ok_pipe [OF ok] by blast
  have timers: "\<exists>b d. tw_data tw = Some b \<and> ((w_heap w)(a := None)) b = Some d \<and> c_timer_watcher d = Some u"
    if u: "el_tm el2 u = Some tw" for u tw
  proof -
    have "el_tm (w_el w) u = Some tw" "u \<noteq> t" using u el1(3) el2(2) by (auto split: if_splits)
    from worker_okD(8) [OF ok this(1)] obtain b d where
      b: "tw_data tw = Some b" "w_heap w b = Some d" "c_timer_watcher d = Some u" by blast
    with \<open>u \<noteq> t\<close> c it(2) have "b \<noteq> a" by auto
    with b show ?thesis by auto
  qed
  have "p \<noteq> i" using p(3) [OF c] it(1) by auto
  then have "worker_ok ?w"
    unfolding worker_ok_def using elok tab others worker_okD(4-7) [OF ok] p el1(2) el2(3) timers by auto
  with eq show ?thesis by simp
qed

lemma creat_start_io:
  assumes "libev_ok L" "el_ok el" "creat_io_event el cb d = (p, el1)"
  shows "\<exists>i el2. p = Some i \<and> start_io_event L el1 p fd READ = Inr el2 \<and> el_ok el2 \<and>
    el_io el i = None \<and> el_tm el i = None \<and> io_live el2 i \<and> watched el2 i = READ \<and> i < el_fresh el2 \<and>
    (\<forall>b. b \<noteq> i \<longrightarrow> el_io el2 b = el_io el b) \<and> el_tm el2 = el_tm el"
proof -
  let ?i = "el_fresh el"
  have p: "p = Some ?i" and el1: "el_tm el1 = el_tm el" "el_fresh el1 = Suc ?i" "\<And>b. b \<noteq> ?i \<Longrightarrow> el_io el1 b = el_io el b"
    and live: "io_live el1 ?i" "watched el1 ?i = 0"
    using assms(3) by (auto simp: creat_io_event_def Let_def io_live_def watched_def)
  obtain el2 where el2: "start_io_event L el1 (Some ?i) fd READ = Inr el2" "io_live el2 ?i"
    "watched el2 ?i = (0 OR take_bit 2 READ)" "io_frame ?i el1 el2"
    using start_io_event_watched [OF assms(1) live(1)] live(2) by metis
  have fresh: "el_io el ?i = None" "el_tm el ?i = None" using assms(2) by (auto simp: el_ok_def)
  have "el_ok el1"
    using assms(2,3) by (auto simp: creat_io_event_def Let_def el_ok_def less_Suc_eq)
  then have "el_ok el2" by (rule io_frame_el_ok [OF el2(4)])
  with p el1 el2 fresh show ?thesis by (auto simp: io_frame_def READ_def)
qed

lemma creat_start_timer:
  assumes "el_ok el" "creat_timer el cb d True = (p, el1)"
  shows "\<exists>t el2. p = Some t \<and> start_timer L el1 p usec = Inr el2 \<and> el_ok el2 \<and> el_tm el t = None \<and>
    (\<exists>tw. el_tm el2 t = Some tw \<and> tw_data tw = d) \<and> (\<forall>b. b \<noteq> t \<longrightarrow> el_tm el2 b = el_tm el b) \<and> el_io el2 = el_io el"
proof -
  have "el_tm el (el_fresh el) = None" using assms(1) by (auto simp: el_ok_def)
  with assms show ?thesis
    by (auto simp: creat_timer_def start_timer_def get_tm_def put_tm_def Let_def el_ok_def less_Suc_eq)
qed

text \<open>Entering a new object in the table at an unused descriptor, with watchers of its own.\<close>

lemma worker_ok_insert:
  assumes ok: "worker_ok w" and addr: "w_heap w a = None"
    and c: "conn_good el' c" "c_fd c = int n" "c_io_watcher c = Some i" "c_timer_watcher c = Some t"
    and el: "el_ok el'" "el_io (w_el w) i = None" "el_tm (w_el w) t = None"
      "\<And>b. b \<noteq> i \<Longrightarrow> el_io el' b = el_io (w_el w) b" "\<And>b. b \<noteq> t \<Longrightarrow> el_tm el' b = el_tm (w_el w) b"
      "el_tm el' t = Some tw" "tw_data tw = Some a"
    and conns: "n < length conns" "length (w_conns w) \<le> length conns" "conns ! n = None"
      "\<And>k. k < length (w_conns w) \<Longrightarrow> conns ! k = w_conns w ! k"
      "\<And>k. length (w_conns w) \<le> k \<Longrightarrow> k < length conns \<Longrightarrow> conns ! k = None"
  shows "worker_ok (put_conn a c (w\<lparr>w_el := el', w_conns := conns[n := Some a]\<rparr>))"
proof -
  have others: "conn_good el' d \<and> c_io_watcher d \<noteq> Some i \<and> c_timer_watcher d \<noteq> Some t \<and>
      nat (c_fd d) < length conns \<and> conns[n := Some a] ! nat (c_fd d) = Some b" if d: "w_heap w b = Some d" for b d
  proof -
    obtain j u where ju: "c_io_watcher d = Some j" "c_timer_watcher d = Some u" "io_live (w_el w) j"
      "el_tm (w_el w) u \<noteq> None"
      using conn_goodD [OF worker_okD(3) [OF ok d]] by metis
    then have ne: "j \<noteq> i" "u \<noteq> t" using el(2,3) io_live_not_None [OF ju(3)] by auto
    have "conn_good el' d"
      by (rule conn_good_cong [OF worker_okD(3) [OF ok d]])
         (use ju ne el(4,5) in \<open>auto simp: watched_def io_live_def\<close>)
    moreover have "conns ! nat (c_fd d) = Some b" "nat (c_fd d) < length conns"
      using worker_okD(5,6) [OF ok d] conns(2,4) by auto
    moreover from this have "nat (c_fd d) \<noteq> n" using conns(3) by auto
    ultimately show ?thesis using ju ne by simp
  qed
  have tab: "\<exists>d. (if b = a then Some c else w_heap w b) = Some d \<and> c_fd d = int k"
    if k: "k < length conns" "conns[n := Some a] ! k = Some b" for k b
  proof (cases "k = n")
    case False
    then have "conns ! k = Some b" using k by simp
    then have "k < length (w_conns w)" "w_conns w ! k = Some b" using conns(4,5) k(1) by (metis not_le option.distinct(1))+
    from worker_okD(2) [OF ok this] addr show ?thesis by auto
  qed (use k c(2) in auto)
  obtain p where p: "w_pipe_watcher w = Some p" "el_io (w_el w) p \<noteq> None"
    "\<And>a c. w_heap w a = Some c \<Longrightarrow> c_io_watcher c \<noteq> Some p"
    using worker_ok_pipe [OF ok] by blast
  have timers: "\<exists>b d. tw_data v = Some b \<and> ((w_heap w)(a \<mapsto> c)) b = Some d \<and> c_timer_watcher d = Some u"
    if u: "el_tm el' u = Some v" for u v
  proof (cases "u = t")
    case False
    then have "el_tm (w_el w) u = Some v" using u el(5) by simp
    from worker_okD(8) [OF ok this] addr show ?thesis by auto
  qed (use u el(6,7) c(4) in auto)
  have "p \<noteq> i" using p(2) el(2) by auto
  then show ?thesis
    unfolding worker_ok_def put_conn_def
    using el(1,4) tab others c conns(1) p worker_okD(4,7) [OF ok] timers by auto blast+
qed

lemma grow_conns_facts:
  assumes "0 < fd"
  shows "nat fd < length (grow_conns fd conns)" "length conns \<le> length (grow_conns fd conns)"
    "\<And>k. k < length conns \<Longrightarrow> grow_conns fd conns ! k = conns ! k"
    "\<And>k. length conns \<le> k \<Longrightarrow> k < length (grow_conns fd conns) \<Longrightarrow> grow_conns fd conns ! k = None"
  using assms by (auto simp: grow_conns_def nat_less_iff nth_append split: if_splits)

text \<open>A connection for a descriptor that is not in use, from a peer that has a name.\<close>

lemma new_conn_ok:
  assumes ok: "worker_ok w" and L: "libev_ok (e_L E)" and m: "mem_ok (e_mem E)"
    and fd: "0 < fd" "fd < 1073741824" "conn_at w fd = None" and addr: "w_heap w addr = None"
  shows "\<exists>w' c. new_conn E addr (Ok peer) fd w = Inr w' \<and> worker_ok w' \<and>
    w_heap w' = (w_heap w)(addr \<mapsto> c) \<and> conn_at w' fd = Some addr \<and> c_fd c = fd \<and>
    sds_val (c_querybuf c) = [] \<and> c_current_state c = STATE_HEAD \<and> w_mb w' = w_mb w \<and> w_q_conn w' = w_q_conn w"
proof -
  obtain q where q: "sdsempty (e_mem E) = Inr q" "sds_wf q" "sds_val q = []" using sdsempty_correct [OF m] by blast
  obtain io el1 where c1: "creat_io_event (w_el w) Conn_io_cb (Some (w_this w)) = (io, el1)" by fastforce
  obtain i el2 where s1: "io = Some i" "start_io_event (e_L E) el1 (Some i) fd READ = Inr el2" "el_ok el2"
    "el_io (w_el w) i = None" "io_live el2 i" "watched el2 i = READ"
    "\<And>b. b \<noteq> i \<Longrightarrow> el_io el2 b = el_io (w_el w) b" "el_tm el2 = el_tm (w_el w)"
    using creat_start_io [OF L worker_okD(1) [OF ok] c1, of fd] by blast
  obtain tm el3 where c2: "creat_timer el2 Conn_timer_cb (Some addr) True = (tm, el3)" by fastforce
  obtain t el4 tw where s2: "tm = Some t" "start_timer (e_L E) el3 (Some t) 100000 = Inr el4" "el_ok el4"
    "el_tm el2 t = None" "el_tm el4 t = Some tw" "tw_data tw = Some addr" "\<And>b. b \<noteq> t \<Longrightarrow> el_tm el4 b = el_tm el2 b" "el_io el4 = el_io el2"
    using creat_start_timer [OF s1(3) c2, of "e_L E" 100000] by blast
  define c where "c = \<lparr>c_fd = fd, c_host = inet_ntoa (sin_addr peer), c_port = Some (uint (ntohs (sin_port peer))),
     c_io_watcher = Some i, c_timer_watcher = Some t, c_querybuf = q, c_bytes_expected = 36,
     c_bytes_processed = 0, c_current_state = STATE_HEAD,
     c_last_interaction_time = Some (el_now (e_L E) el4), c_reply_list = [], c_cur_resp_pos = 0\<rparr>"
  let ?conns = "grow_conns fd (w_conns w)"
  note gr = grow_conns_facts [OF fd(1), where conns = "w_conns w"]
  let ?w = "put_conn addr c (w\<lparr>w_el := el4, w_conns := ?conns[nat fd := Some addr]\<rparr>)"
  have "new_conn E addr (Ok peer) fd w = Inr ?w"
    using fd(1,2) q(1) c1 s1(1,2) c2 s2(1,2) gr(1)
    by (simp add: new_conn_def TcpConnection_new_def sock_peer_to_str_def in_i32_def c_def)
  moreover have "worker_ok ?w"
  proof (rule worker_ok_insert [OF ok addr])
    show "conn_good el4 c"
      using q s1(5,6) s2(5,8) by (simp add: c_def conn_good_def conn_ok_def replies_ok_def watched_def io_live_def)
    show "?conns ! nat fd = None"
      using gr fd by (cases "nat fd < length (w_conns w)") (auto simp: conn_at_def nat_less_iff split: if_splits)
  qed (use s1 s2 gr fd in \<open>simp_all add: c_def\<close>)
  moreover have "conn_at ?w fd = Some addr" using fd(1) gr(1) by (simp add: conn_at_def put_conn_def nat_less_iff)
  ultimately show ?thesis using q(3) by (intro exI [of _ ?w] exI [of _ c]) (simp add: put_conn_def c_def)
qed

section \<open>Reading, writing and answering\<close>

lemma conn_at_heap:
  assumes "worker_ok w" "conn_at w fd = Some a"
  shows "\<exists>c. w_heap w a = Some c \<and> c_fd c = fd"
proof -
  have "0 \<le> fd" "nat fd < length (w_conns w)" "w_conns w ! nat fd = Some a"
    using assms(2) by (auto simp: conn_at_def split: if_splits)
  with worker_okD(2) [OF assms(1) this(2,3)] show ?thesis by auto
qed

lemma conn_good_frame:
  assumes "conn_good el c" "conn_ok c'" "conn_frame c c'" "c_last_interaction_time c' \<noteq> None"
  shows "conn_good el c'"
  using assms by (auto simp: conn_good_def conn_frame_def)

definition reads_safe :: "'l signaling_worker \<Rightarrow> int \<Rightarrow> (int \<Rightarrow> byte list sysret) \<Rightarrow> bool" where
  "reads_safe w fd rd \<longleftrightarrow> (\<forall>a c. conn_at w fd = Some a \<longrightarrow> w_heap w a = Some c \<longrightarrow> read_safe c rd)"

text \<open>A readable connection whose next read completes a body on which the JSON library throws.\<close>

definition query_throws :: "('l, 'j) worker_env \<Rightarrow> (int \<Rightarrow> byte list sysret) \<Rightarrow> int \<Rightarrow> 'l signaling_worker \<Rightarrow> bool" where
  "query_throws E rd fd w \<longleftrightarrow>
     (\<exists>a c. conn_at w fd = Some a \<and> w_heap w a = Some c \<and> read_throws (e_json E) c rd)"

lemma read_query_ok:
  assumes ok: "worker_ok w" and m: "mem_ok (e_mem E)" and f: "3 \<le> e_fuel E" and g: "g \<noteq> None"
    and rs: "reads_safe w fd rd"
  shows "query_throws E rd fd w \<and> read_query E rd fd w g = Inl Uncaught_exception \<or>
    (\<exists>w' g'. read_query E rd fd w g = Inr (w', g') \<and> worker_ok w' \<and> g' \<noteq> None \<and> w_mb w' = w_mb w \<and>
       w_q_conn w' = w_q_conn w)"
proof (cases "conn_at w fd")
  case None
  then show ?thesis using ok g by (simp add: read_query_def)
next
  case (Some a)
  obtain c where c: "w_heap w a = Some c" using conn_at_heap [OF ok Some] by blast
  have good: "conn_good (w_el w) c" by (rule worker_okD(3) [OF ok c])
  then have cok: "conn_ok c" by (simp add: conn_good_def)
  have rsc: "read_safe c rd" using rs Some c by (simp add: reads_safe_def)
  obtain n where n: "e_fuel E = Suc (Suc (Suc n))" using f by (metis add_2_eq_Suc le_iff_add numeral_3_eq_3 plus_nat.simps(2))
  let ?r = "read_conn (e_mem E) (e_fuel E) (e_json E) (e_pw E) (w_this w) a (el_now (e_L E) (w_el w)) rd c g"
  consider "?r = Inr None" | "read_throws (e_json E) c rd" "?r = Inl Uncaught_exception"
    | ret c' g' where "?r = Inr (Some (ret, c', g'))" "conn_ok c'" "g' \<noteq> None" "conn_frame c c'"
        "c_last_interaction_time c' = Some (el_now (e_L E) (w_el w))"
    using read_conn_safe [OF cok m g rsc] unfolding n by blast
  then show ?thesis
  proof cases
    case 1
    then show ?thesis
      using close_conn_ok [OF ok c, of E] g Some c by (auto simp: read_query_def get_conn_def)
  next
    case 2
    then have "query_throws E rd fd w" using Some c by (auto simp: query_throws_def)
    with 2(2) show ?thesis using Some c by (simp add: read_query_def get_conn_def)
  next
    case 3
    have "worker_ok (put_conn a c' w)"
      by (rule worker_ok_put_same [OF ok c])
         (use 3 conn_good_frame [OF good 3(2,4)] in \<open>auto simp: conn_frame_def\<close>)
    with 3 show ?thesis using Some c by (auto simp: read_query_def get_conn_def put_conn_def)
  qed
qed

text \<open>The bytes still to be written.\<close>

definition pending :: "slice list \<Rightarrow> nat \<Rightarrow> byte list" where
  "pending rl pos = drop pos (concat (map slice_val rl))"

text \<open>The kernel never takes more than it is offered.\<close>

fun writes_ok :: "nat sysret list \<Rightarrow> slice list \<Rightarrow> nat \<Rightarrow> bool" where
  "writes_ok os [] pos \<longleftrightarrow> True"
| "writes_ok [] (r # rl) pos \<longleftrightarrow> True"
| "writes_ok (Fail e # os) (r # rl) pos \<longleftrightarrow> writes_ok os (r # rl) pos"
| "writes_ok (Ok n # os) (r # rl) pos \<longleftrightarrow> n \<le> sl_size r - pos \<and>
     (if n + pos \<ge> sl_size r then writes_ok os rl 0 else writes_ok os (r # rl) (pos + n))"

lemma replies_ok_Cons:
  "replies_ok (r # rl) pos \<longleftrightarrow> slice_wf r \<and> pos < sl_size r \<and> replies_ok rl 0"
  by (cases rl) (auto simp: replies_ok_def)

lemma pending_Cons:
  "replies_ok (r # rl) pos \<Longrightarrow> pending (r # rl) pos = drop pos (slice_val r) @ pending rl 0"
  by (simp add: replies_ok_Cons pending_def)

lemma reply_bytes:
  assumes "replies_ok (r # rl) pos"
  shows "mem_read (sl_data r + pos) (sl_size r - pos) (sl_mem r) = Inr (drop pos (slice_val r))"
proof -
  have "sl_data r + pos + (sl_size r - pos) \<le> length (sl_mem r)"
    using assms by (simp add: replies_ok_Cons slice_wf_def)
  then show ?thesis by (simp add: slice_val_def drop_take add.commute)
qed

text \<open>What is written and what is left make up what was to be written, in order.\<close>

lemma write_loop_stream:
  assumes "replies_ok rl pos" "writes_ok os rl pos" "write_loop os rl pos out = Inr (fin, rl', pos', out')"
  shows "replies_ok rl' pos' \<and> (fin \<longrightarrow> rl' = []) \<and> (\<not> fin \<longrightarrow> rl' \<noteq> []) \<and>
    (\<exists>sent. out' = out @ sent \<and> sent @ pending rl' pos' = pending rl pos)"
  using assms
proof (induction os rl pos out rule: write_loop.induct)
  case (1 os pos out)
  then show ?case by auto
next
  case (3 x os r rl pos out)
  note rb = reply_bytes [OF "3.prems"(1)] and pc = pending_Cons [OF "3.prems"(1)]
  have len: "length (slice_val r) = sl_size r" "pos < sl_size r" using "3.prems"(1) by (simp_all add: replies_ok_Cons)
  show ?case
  proof (cases x)
    case (Fail err)
    then show ?thesis
      using "3.prems" "3.IH"(1) [OF refl] rb by (auto simp: sock_write_data_def split: if_splits)
  next
    case (Ok n)
    have n: "n \<le> sl_size r - pos" using "3.prems"(2) Ok by simp
    show ?thesis
    proof (cases "n = 0")
      case True
      then show ?thesis using "3.prems" "3.IH"(1) [OF refl] rb Ok len by (simp add: sock_write_data_def)
    next
      case nz: False
      show ?thesis
      proof (cases "n + pos \<ge> sl_size r")
        case True
        then have all: "take n (drop pos (slice_val r)) = drop pos (slice_val r)" using len by simp
        have "replies_ok rl 0" using "3.prems"(1) by (simp add: replies_ok_Cons)
        with True all nz Ok "3.prems"(2,3) "3.IH"(2) [where x = "drop pos (slice_val r)", OF refl] rb pc show ?thesis
          by (auto simp: sock_write_data_def)
      next
        case False
        have ok: "replies_ok (r # rl) (pos + n)" using False "3.prems"(1) by (simp add: replies_ok_Cons)
        have "take n (drop pos (slice_val r)) @ pending (r # rl) (pos + n) = pending (r # rl) pos"
          unfolding pc pending_Cons [OF ok] by (metis append.assoc append_take_drop_id drop_drop add.commute)
        with False nz Ok ok "3.prems"(2,3) "3.IH"(3) [where x = "drop pos (slice_val r)", OF refl] rb show ?thesis
          by (fastforce simp: sock_write_data_def)
      qed
    qed
  qed
qed simp

text \<open>Enough answers that each take something, and the loop ends.\<close>

lemma length_pending:
  "replies_ok rl pos \<Longrightarrow> length (pending rl pos) = sum_list (map sl_size rl) - pos"
proof -
  assume ok: "replies_ok rl pos"
  then have "\<forall>r \<in> set rl. length (slice_val r) = sl_size r" by (auto simp: replies_ok_def)
  then have "map (\<lambda>r. length (slice_val r)) rl = map sl_size rl" by simp
  then show ?thesis by (simp only: pending_def length_drop length_concat map_map comp_def)
qed

text \<open>The answers of the kernel that are not \<open>EAGAIN\<close>: each takes a byte at least, or ends the loop.\<close>

definition answers :: "nat sysret list \<Rightarrow> nat" where
  "answers os = length (filter (\<lambda>x. sock_write_data x \<noteq> 0) os)"

lemma answers_simps [simp]:
  "answers [] = 0"
  "answers (x # os) = (if sock_write_data x = 0 then answers os else Suc (answers os))"
  by (simp_all add: answers_def)

lemma write_loop_finishes:
  assumes "replies_ok rl pos" "writes_ok os rl pos" "length (pending rl pos) \<le> answers os"
  shows "\<exists>r. write_loop os rl pos out = Inr r"
  using assms
proof (induction os rl pos out rule: write_loop.induct)
  case (1 os pos out)
  show ?case by auto
next
  case (2 r rl pos out)
  have "length (slice_val r) = sl_size r" "pos < sl_size r" using "2.prems"(1) by (simp_all add: replies_ok_Cons)
  then have "pending (r # rl) pos \<noteq> []" using pending_Cons [OF "2.prems"(1)] by simp
  then show ?case using "2.prems"(3) by simp
next
  case (3 x os r rl pos out)
  note rb = reply_bytes [OF "3.prems"(1)] and pc = pending_Cons [OF "3.prems"(1)]
  have len: "length (slice_val r) = sl_size r" "pos < sl_size r" using "3.prems"(1) by (simp_all add: replies_ok_Cons)
  show ?case
  proof (cases x)
    case (Fail err)
    then show ?thesis
      using "3.prems" "3.IH"(1) [OF refl] rb by (auto simp: sock_write_data_def split: if_splits)
  next
    case (Ok n)
    show ?thesis
    proof (cases "n = 0")
      case True
      then show ?thesis using "3.prems" "3.IH"(1) [OF refl] rb Ok len by (simp add: sock_write_data_def)
    next
      case nz: False
      have n: "0 < n" "n \<le> sl_size r - pos" using "3.prems"(2) Ok nz by auto
      have a: "answers (x # os) = Suc (answers os)" using Ok nz by (simp add: sock_write_data_def)
      show ?thesis
      proof (cases "n + pos \<ge> sl_size r")
        case True
        have "replies_ok rl 0" using "3.prems"(1) by (simp add: replies_ok_Cons)
        moreover have "length (pending rl 0) \<le> answers os" using "3.prems"(3) pc len unfolding a by simp
        ultimately show ?thesis
          using True n Ok "3.prems"(2) "3.IH"(2) [where x = "drop pos (slice_val r)", OF refl] rb
          by (simp add: sock_write_data_def)
      next
        case False
        have ok: "replies_ok (r # rl) (pos + n)" using False "3.prems"(1) by (simp add: replies_ok_Cons)
        have "length (pending (r # rl) (pos + n)) \<le> answers os"
          using "3.prems"(3) n length_pending [OF ok] length_pending [OF "3.prems"(1)] unfolding a by simp
        then show ?thesis
          using False n Ok ok "3.prems"(2) "3.IH"(3) [where x = "drop pos (slice_val r)", OF refl] rb
          by (simp add: sock_write_data_def)
      qed
    qed
  qed
qed

text \<open>While the kernel answers \<open>EAGAIN\<close> the loop neither sends nor returns.\<close>

lemma write_loop_spins:
  assumes "replies_ok rl pos" "rl \<noteq> []" "\<forall>x\<in>set os. sock_write_data x = 0"
  shows "write_loop os rl pos out = Inl Not_finished"
  using assms(2,3,1)
proof (induction os)
  case Nil
  then show ?case by (cases rl) simp_all
next
  case (Cons x os)
  then obtain r rl' where "rl = r # rl'" by (cases rl) auto
  with Cons show ?case by (simp add: reply_bytes)
qed

text \<open>One write event, when its loop ends.\<close>

lemma write_reply_conn:
  assumes ok: "worker_ok w" and L: "libev_ok (e_L E)" and at: "conn_at w fd = Some a" "0 < fd"
    and c: "w_heap w a = Some c"
    and wr: "writes_ok os (c_reply_list c) (nat (c_cur_resp_pos c))"
      "write_loop os (c_reply_list c) (nat (c_cur_resp_pos c)) [] = Inr r"
  shows "\<exists>w' out c'. write_reply E os fd w = Inr (w', out) \<and> worker_ok w' \<and> w_heap w' = (w_heap w)(a \<mapsto> c') \<and>
    out @ pending (c_reply_list c') (nat (c_cur_resp_pos c')) =
      pending (c_reply_list c) (nat (c_cur_resp_pos c)) \<and> w_mb w' = w_mb w \<and> w_q_conn w' = w_q_conn w"
proof -
  obtain fin rl pos out where r: "r = (fin, rl, pos, out)" by (cases r) auto
  have good: "conn_good (w_el w) c" by (rule worker_okD(3) [OF ok c])
  then have rep: "replies_ok (c_reply_list c) (nat (c_cur_resp_pos c))" by (simp add: conn_good_def)
  have st: "replies_ok rl pos" "fin \<longrightarrow> rl = []" "\<not> fin \<longrightarrow> rl \<noteq> []"
    "out @ pending rl pos = pending (c_reply_list c) (nat (c_cur_resp_pos c))"
    using write_loop_stream [OF rep wr(1) wr(2) [unfolded r]] by auto
  obtain i t where it: "c_io_watcher c = Some i" "c_timer_watcher c = Some t" "io_live (w_el w) i"
    "el_tm (w_el w) t \<noteq> None" "watched (w_el w) i = (if c_reply_list c = [] then READ else READ OR WRITE)"
    using conn_goodD [OF good] by blast
  let ?c = "c\<lparr>c_reply_list := rl, c_cur_resp_pos := int pos\<rparr>"
  have okc: "conn_ok ?c" "conn_ok (?c\<lparr>c_last_interaction_time := l\<rparr>)" for l
    using good by (auto simp: conn_good_def conn_ok_def query_head_def split: conn_state.splits)
  show ?thesis
  proof (cases fin)
    case True
    let ?d = "?c\<lparr>c_last_interaction_time := Some (el_now (e_L E) (w_el w))\<rparr>"
    have wnz: "watched (w_el w) i \<noteq> 0" "watched (w_el w) i AND NOT WRITE = READ"
      using it(5) by (auto simp: READ_def WRITE_def)
    obtain el' where el': "stop_io_event (e_L E) (w_el w) (Some i) (c_fd c) WRITE = Inr el'" "io_live el' i"
      "watched el' i = READ" "io_frame i (w_el w) el'"
      using stop_io_event_watched [OF L it(3) wnz(1)] wnz(2) by metis
    have "el_tm el' t \<noteq> None" using it(4) el'(4) by (simp add: io_frame_def)
    then have "conn_good el' ?d"
      using okc(2) st True it(1,2) el' by (simp add: conn_good_def)
    then have "worker_ok (put_conn a ?d (w\<lparr>w_el := el'\<rparr>))"
      by (intro worker_ok_put [OF ok c _ _ _ it(1) el'(4)]) simp_all
    then show ?thesis
      using True at c wr(2) r st el'(1) it(1)
      by (intro exI [of _ "put_conn a ?d (w\<lparr>w_el := el'\<rparr>)"] exI [of _ out] exI [of _ ?d])
         (simp add: write_reply_def get_conn_def put_conn_def)
  next
    case False
    then have "c_reply_list c \<noteq> []" using wr(2) r st by auto
    then have "conn_good (w_el w) ?c"
      using okc(1) st False it good by (simp add: conn_good_def)
    then have "worker_ok (put_conn a ?c w)" by (intro worker_ok_put_same [OF ok c]) simp_all
    then show ?thesis
      using False at c wr(2) r st
      by (intro exI [of _ "put_conn a ?c w"] exI [of _ out] exI [of _ ?c])
         (simp add: write_reply_def get_conn_def put_conn_def)
  qed
qed

lemma process_timeout_ok:
  assumes ok: "worker_ok w" and c: "w_heap w a = Some c"
  shows "\<exists>w'. process_timeout E (Some a) w = Inr w' \<and> worker_ok w' \<and> w_mb w' = w_mb w \<and> w_q_conn w' = w_q_conn w"
proof -
  obtain l where "c_last_interaction_time c = Some l"
    using worker_okD(3) [OF ok c] by (auto simp: conn_good_def)
  then show ?thesis
    using ok c close_conn_ok [OF ok c, of E] by (auto simp: process_timeout_def get_conn_def initialised_def)
qed

subsection \<open>Building and queueing a response\<close>

lemma build_reply_correct:
  assumes m: "mem_ok m" and hdr: "take 36 qb = xhead_bytes h" "36 \<le> length qb" "xhead_wf h"
    and json: "length json \<le> 4095" "0 \<notin> set json"
  shows "\<exists>r. build_reply m qb json = Inr r \<and> slice_wf r \<and> 0 < sl_size r \<and>
    slice_val r = xhead_bytes (h\<lparr>xh_body_len := word_of_nat (length json)\<rparr>) @ json"
proof -
  let ?bl = "word_of_nat (length json) :: u32"
  let ?h = "h\<lparr>xh_body_len := ?bl\<rparr>"
  let ?junk = "map (al_junk m) [0..<4132]"
  have wf: "xhead_wf ?h" using hdr(3) by (simp add: xhead_wf_def)
  have lh: "length (xhead_bytes h) = 36" "length (xhead_bytes ?h) = 36"
    by (rule length_xhead_bytes [OF hdr(3)], rule length_xhead_bytes [OF wf])
  have w1: "mem_write 0 (xhead_bytes h) ?junk = Inr (xhead_bytes h @ drop 36 ?junk)"
    using lh(1) by (simp add: mem_write_def overwrite_def del: upt_conv_Cons)
  have w2: "set_body_len ?bl (xhead_bytes h @ drop 36 ?junk) = Inr (xhead_bytes ?h @ drop 36 ?junk)"
    by (rule xhead_set_body_len [OF hdr(3)])
  have w3: "mem_write 36 (json @ [0]) (xhead_bytes ?h @ drop 36 ?junk) =
      Inr (xhead_bytes ?h @ json @ 0 # drop (37 + length json) ?junk)"
    using lh(2) json(1) by (simp add: mem_write_def overwrite_def del: upt_conv_Cons)
  have sz: "unat (word_of_int 36 + ?bl) = 36 + length json"
    using json(1) by (simp add: unat_word_ariths unat_of_nat take_bit_nat_eq_self)
  have "takeWhile (\<lambda>c. c \<noteq> 0) json = json" using json(2) by (induction json) auto
  then have tw: "take 4095 (takeWhile (\<lambda>c. c \<noteq> 0) json) = json" using json(1) by (simp only:) simp
  have "build_reply m qb json =
      Inr (Slice_make (xhead_bytes ?h @ json @ 0 # drop (37 + length json) ?junk) 0 (36 + length json))"
    using m hdr(1,2) json(1) w1 w2 w3 sz
    by (simp add: tw build_reply_def MAX_RES_BUF_def mem_ok_def Let_def del: upt_conv_Cons)
  then show ?thesis using lh(2) by (simp add: Slice_make_def slice_wf_def slice_val_def)
qed

lemma replies_ok_snoc:
  assumes "replies_ok rl pos" "slice_wf r" "0 < sl_size r"
  shows "replies_ok (rl @ [r]) pos" "pending (rl @ [r]) pos = pending rl pos @ slice_val r"
proof -
  show "replies_ok (rl @ [r]) pos" using assms by (cases rl) (auto simp: replies_ok_def)
  have "pos \<le> length (concat (map slice_val rl))"
    using assms(1) by (cases rl) (auto simp: replies_ok_def)
  then show "pending (rl @ [r]) pos = pending rl pos @ slice_val r" by (simp add: pending_def)
qed

lemma add_reply_ok:
  assumes ok: "worker_ok w" and L: "libev_ok (e_L E)" and c: "w_heap w a = Some c"
    and r: "slice_wf r" "0 < sl_size r"
  shows "\<exists>w' c'. add_reply E a c r w = Inr w' \<and> worker_ok w' \<and> w_heap w' = (w_heap w)(a \<mapsto> c') \<and>
    pending (c_reply_list c') (nat (c_cur_resp_pos c')) =
      pending (c_reply_list c) (nat (c_cur_resp_pos c)) @ slice_val r \<and>
    w_mb w' = w_mb w \<and> w_q_conn w' = w_q_conn w \<and> w_conns w' = w_conns w \<and> w_closed w' = w_closed w"
proof -
  have good: "conn_good (w_el w) c" by (rule worker_okD(3) [OF ok c])
  then have rep: "replies_ok (c_reply_list c) (nat (c_cur_resp_pos c))" by (simp add: conn_good_def)
  obtain i t where it: "c_io_watcher c = Some i" "c_timer_watcher c = Some t" "io_live (w_el w) i"
    "el_tm (w_el w) t \<noteq> None" "watched (w_el w) i = (if c_reply_list c = [] then READ else READ OR WRITE)"
    using conn_goodD [OF good] by blast
  obtain el' where el': "start_io_event (e_L E) (w_el w) (Some i) (c_fd c) WRITE = Inr el'" "io_live el' i"
    "watched el' i = (watched (w_el w) i OR take_bit 2 WRITE)" "io_frame i (w_el w) el'"
    using start_io_event_watched [OF L it(3)] by blast
  let ?c = "c\<lparr>c_reply_list := c_reply_list c @ [r]\<rparr>"
  have "watched el' i = (READ OR WRITE)" using el'(3) it(5) by (auto simp: READ_def WRITE_def)
  moreover have "el_tm el' t \<noteq> None" using it(4) el'(4) by (simp add: io_frame_def)
  moreover have "conn_ok ?c"
    using good by (auto simp: conn_good_def conn_ok_def query_head_def split: conn_state.splits)
  ultimately have "conn_good el' ?c"
    using good it(1,2) el'(2) replies_ok_snoc(1) [OF rep r] by (simp add: conn_good_def)
  then have "worker_ok (put_conn a ?c (w\<lparr>w_el := el'\<rparr>))"
    by (intro worker_ok_put [OF ok c _ _ _ it(1) el'(4)]) simp_all
  then show ?thesis
    using el'(1) it(1) replies_ok_snoc(2) [OF rep r]
    by (intro exI [of _ "put_conn a ?c (w\<lparr>w_el := el'\<rparr>)"] exI [of _ ?c])
       (simp add: add_reply_def put_conn_def)
qed

end
