(* ===== verification/Worker_Events.thy ===== *)
theory Worker_Events
  imports Signaling_Worker Data_Refinement
begin

text \<open>
  A signalling worker under its events: what its own event loop delivers (readable and writable
  connections, timers, notifications) and what other threads do to it (a new connection, a
  message), in any order. The properties here are those of whole runs.
\<close>

section \<open>Answering\<close>

text \<open>The response a message gets, and when it can be built: it fits the buffer, and the
  connection still holds the request.\<close>

definition response_json :: "('l, 'j) worker_env \<Rightarrow> rtc_msg \<Rightarrow> byte list" where
  "response_json E msg = js_write (e_json E) (response_fields msg)"

definition addressee :: "rtc_msg \<Rightarrow> 'l signaling_worker \<Rightarrow> (nat \<times> tcp_connection) option" where
  "addressee msg w =
     (case m_conn msg of
        None \<Rightarrow> None
      | Some a \<Rightarrow> if conn_at w (m_fd msg) = Some a
                  then (case w_heap w a of None \<Rightarrow> None | Some c \<Rightarrow> Some (a, c)) else None)"

definition offer_safe :: "('l, 'j) worker_env \<Rightarrow> rtc_msg \<Rightarrow> 'l signaling_worker \<Rightarrow> bool" where
  "offer_safe E msg w \<longleftrightarrow> length (response_json E msg) \<le> 4095 \<and> 0 \<notin> set (response_json E msg) \<and>
     (\<forall>a c. addressee msg w = Some (a, c) \<longrightarrow> 36 \<le> length (sds_val (c_querybuf c)))"

lemma response_unaddressed:
  assumes "worker_ok w" "addressee msg w = None"
  shows "response_server_offer E msg w = Inr w"
proof -
  have "m_conn msg = None \<or> conn_at w (m_fd msg) \<noteq> m_conn msg"
    using assms conn_at_heap [OF assms(1)] by (fastforce simp: addressee_def split: option.splits if_splits)
  then show ?thesis by (auto simp: response_server_offer_def conn_at_def split: if_splits)
qed

lemma response_addressed:
  assumes ok: "worker_ok w" and L: "libev_ok (e_L E)" and m: "mem_ok (e_mem E)" and safe: "offer_safe E msg w"
    and a: "addressee msg w = Some (a, c)"
  shows "\<exists>w' c'. response_server_offer E msg w = Inr w' \<and> worker_ok w' \<and> w_heap w' = (w_heap w)(a \<mapsto> c') \<and>
    pending (c_reply_list c') (nat (c_cur_resp_pos c')) =
      pending (c_reply_list c) (nat (c_cur_resp_pos c)) @
      xhead_bytes ((query_head c)\<lparr>xh_body_len := word_of_nat (length (response_json E msg))\<rparr>) @ response_json E msg \<and>
    w_mb w' = w_mb w \<and> w_q_conn w' = w_q_conn w \<and> w_conns w' = w_conns w \<and> w_closed w' = w_closed w"
proof -
  have at: "m_conn msg = Some a" "conn_at w (m_fd msg) = Some a" and c: "w_heap w a = Some c"
    using a by (auto simp: addressee_def split: option.splits if_splits)
  then have fd: "0 \<le> m_fd msg" "m_fd msg < int (length (w_conns w))" "w_conns w ! nat (m_fd msg) = Some a"
    by (auto simp: conn_at_def split: if_splits)
  have "conn_ok c" using worker_okD(3) [OF ok c] by (simp add: conn_good_def)
  then have wf: "sds_wf (c_querybuf c)" by (simp add: conn_ok_def)
  have len: "36 \<le> length (sds_val (c_querybuf c))" using safe a by (simp add: offer_safe_def)
  obtain h where h: "xhead_at (sds_val (c_querybuf c)) = Inr h" "xhead_wf h"
    "xhead_bytes h = take 36 (sds_val (c_querybuf c))"
    using xhead_bytes_at [OF len] by blast
  have hq: "query_head c = h" using h(1) by (simp add: query_head_def)
  obtain rest where r: "sds_buf (c_querybuf c) = sds_val (c_querybuf c) @ 0 # rest" using sds_buf_split [OF wf] by blast
  have "take 36 (sds_buf (c_querybuf c)) = xhead_bytes h" "36 \<le> length (sds_buf (c_querybuf c))"
    using h(3) len unfolding r by simp_all
  from build_reply_correct [OF m this h(2)] safe obtain rp where rp:
    "build_reply (e_mem E) (sds_buf (c_querybuf c)) (response_json E msg) = Inr rp" "slice_wf rp" "0 < sl_size rp"
    "slice_val rp = xhead_bytes (h\<lparr>xh_body_len := word_of_nat (length (response_json E msg))\<rparr>) @ response_json E msg"
    unfolding offer_safe_def by blast
  have "response_server_offer E msg w = add_reply E a c rp w"
    using at(1) fd c rp(1) by (simp add: response_server_offer_def get_conn_def response_json_def)
  with add_reply_ok [OF ok L c rp(2,3)] rp(4) hq show ?thesis by auto
qed

section \<open>Events\<close>

datatype worker_event =
    Ev_io "int \<Rightarrow> byte list sysret" "nat sysret list" int int
  | Ev_timer nat
  | Ev_notify nat "sockaddr_in sysret" pipe_read
  | Ev_new_conn nat int
  | Ev_send rtc_msg

type_synonym 'l wstate = "'l signaling_worker \<times> mailbox option"

fun run_event :: "('l, 'j) worker_env \<Rightarrow> worker_event \<Rightarrow> 'l wstate \<Rightarrow> 'l wstate res" where
  "run_event E (Ev_io rd os fd events) (w, g) =
     res_bind (conn_io_cb E rd os fd events w g) (\<lambda>(w, g, out). Inr (w, g))"
| "run_event E (Ev_timer t) (w, g) =
     res_bind (generic_time_cb (w_el w) (Some t)) (\<lambda>(cb, data).
     res_bind (conn_timer_cb E data w) (\<lambda>w. Inr (w, g)))"
| "run_event E (Ev_notify fresh peer r) (w, g) =
     res_bind (signaling_worker_recv_notify E fresh peer r w) (\<lambda>w. Inr (w, g))"
| "run_event E (Ev_new_conn a fd) (w, g) = res_bind (notify_new_conn E a fd w) (\<lambda>(r, w). Inr (w, g))"
| "run_event E (Ev_send msg) (w, g) =
     Inr (w\<lparr>w_mb := snd (SignalingWorker_send_rtc_msg (e_pw E) msg (w_mb w))\<rparr>, g)"

text \<open>
  What the environment grants with each event. Kernel: a read returns no more than was asked for
  and a write takes no more than it was given; among its answers to the writes of one event there
  are as many that are not \<open>EAGAIN\<close> as there are bytes to write (a blocked socket keeps the handler
  in its loop until it has taken them); \<open>getpeername\<close> works on a fresh connection. libev: the timer that fires has not been
  deleted. The descriptor of a new connection is positive and not in use, and \<open>new\<close> does not
  return the address of a live object. Peers: bounds on what one connection sends, and replies that
  fit the buffer. Stopping is not one of these events: it ends the loop.
\<close>

definition writes_safe :: "'l signaling_worker \<Rightarrow> int \<Rightarrow> nat sysret list \<Rightarrow> bool" where
  "writes_safe w fd os \<longleftrightarrow> (\<forall>a c. conn_at w fd = Some a \<longrightarrow> w_heap w a = Some c \<longrightarrow>
     writes_ok os (c_reply_list c) (nat (c_cur_resp_pos c)) \<and>
     length (pending (c_reply_list c) (nat (c_cur_resp_pos c))) \<le> answers os)"

fun event_ok :: "('l, 'j) worker_env \<Rightarrow> worker_event \<Rightarrow> 'l wstate \<Rightarrow> bool" where
  "event_ok E (Ev_io rd os fd events) (w, g) \<longleftrightarrow>
     (events AND READ \<noteq> 0 \<longrightarrow> reads_safe w fd rd) \<and>
     (events AND WRITE \<noteq> 0 \<longrightarrow>
       (case (if events AND READ \<noteq> 0 then read_query E rd fd w g else Inr (w, g)) of
          Inl e \<Rightarrow> True | Inr (w', g') \<Rightarrow> writes_safe w' fd os))"
| "event_ok E (Ev_timer t) (w, g) \<longleftrightarrow> el_tm (w_el w) t \<noteq> None"
| "event_ok E (Ev_notify fresh peer r) (w, g) \<longleftrightarrow>
     (case mb_pipe (w_mb w) of
        [] \<Rightarrow> r \<noteq> Read_int
      | msg # _ \<Rightarrow> msg \<noteq> SignalingWorker_QUIT \<and>
          (\<forall>fd q. consume (w_q_conn w) = Inr (Some fd, q) \<longrightarrow>
             (\<exists>a. peer = Ok a) \<and> 0 < fd \<and> fd < 1073741824 \<and> conn_at w fd = None) \<and>
          w_heap w fresh = None \<and>
          (\<forall>m rest. mb_q (w_mb w) = m # rest \<longrightarrow> offer_safe E m w))"
| "event_ok E (Ev_new_conn a fd) (w, g) \<longleftrightarrow> lfq_fresh a (w_q_conn w)"
| "event_ok E (Ev_send msg) (w, g) \<longleftrightarrow> True"

text \<open>The one event on which a handler does not end: a read that completes a body whose parse throws.\<close>

fun event_throws :: "('l, 'j) worker_env \<Rightarrow> worker_event \<Rightarrow> 'l wstate \<Rightarrow> bool" where
  "event_throws E (Ev_io rd os fd events) (w, g) \<longleftrightarrow> events AND READ \<noteq> 0 \<and> query_throws E rd fd w"
| "event_throws E ev s \<longleftrightarrow> False"

definition state_ok :: "'l wstate \<Rightarrow> bool" where
  "state_ok s \<longleftrightarrow> worker_ok (fst s) \<and> snd s \<noteq> None \<and> (\<exists>xs. lfq_rep (w_q_conn (fst s)) xs)"

definition env_ok :: "('l, 'j) worker_env \<Rightarrow> bool" where
  "env_ok E \<longleftrightarrow> libev_ok (e_L E) \<and> mem_ok (e_mem E) \<and> 3 \<le> e_fuel E"

lemma worker_ok_mb [simp]: "worker_ok (w\<lparr>w_mb := mb\<rparr>) = worker_ok w"
  by (simp add: worker_ok_def)

lemma worker_ok_q_conn [simp]: "worker_ok (w\<lparr>w_q_conn := q\<rparr>) = worker_ok w"
  by (simp add: worker_ok_def)

lemma conn_at_upd [simp]:
  "conn_at (w\<lparr>w_mb := mb\<rparr>) fd = conn_at w fd" "conn_at (w\<lparr>w_q_conn := q\<rparr>) fd = conn_at w fd"
  by (simp_all add: conn_at_def)

lemma addressee_upd [simp]: "addressee msg (w\<lparr>w_mb := mb\<rparr>) = addressee msg w"
  by (simp add: addressee_def split: option.split)

lemma offer_safe_upd [simp]: "offer_safe E msg (w\<lparr>w_mb := mb\<rparr>) = offer_safe E msg w"
  by (simp add: offer_safe_def)

lemma write_reply_ok:
  assumes "worker_ok w" "libev_ok (e_L E)" "writes_safe w fd os"
  shows "\<exists>w' out. write_reply E os fd w = Inr (w', out) \<and> worker_ok w' \<and> w_q_conn w' = w_q_conn w"
proof (cases "0 < fd \<and> conn_at w fd \<noteq> None")
  case True
  then obtain a where a: "conn_at w fd = Some a" "0 < fd" by blast
  obtain c where c: "w_heap w a = Some c" using conn_at_heap [OF assms(1) a(1)] by blast
  have wr: "writes_ok os (c_reply_list c) (nat (c_cur_resp_pos c))"
    "length (pending (c_reply_list c) (nat (c_cur_resp_pos c))) \<le> answers os"
    using assms(3) a(1) c by (auto simp: writes_safe_def)
  have "replies_ok (c_reply_list c) (nat (c_cur_resp_pos c))"
    using worker_okD(3) [OF assms(1) c] by (simp add: conn_good_def)
  from write_loop_finishes [OF this wr] obtain r where
    "write_loop os (c_reply_list c) (nat (c_cur_resp_pos c)) [] = Inr r" by blast
  from write_reply_conn [OF assms(1,2) a c wr(1) this] show ?thesis by blast
next
  case False
  then show ?thesis using assms(1) by (auto simp: write_reply_def)
qed

lemma conn_io_cb_ok:
  assumes E: "env_ok E" and s: "state_ok (w, g)" and ev: "event_ok E (Ev_io rd os fd events) (w, g)"
  shows "event_throws E (Ev_io rd os fd events) (w, g) \<and>
      conn_io_cb E rd os fd events w g = Inl Uncaught_exception \<or>
    (\<exists>w' g' out. conn_io_cb E rd os fd events w g = Inr (w', g', out) \<and> state_ok (w', g'))"
proof -
  let ?r = "if events AND READ \<noteq> 0 then read_query E rd fd w g else Inr (w, g)"
  have ok: "worker_ok w" "g \<noteq> None" and e: "libev_ok (e_L E)" "mem_ok (e_mem E)" "3 \<le> e_fuel E"
    using E s by (auto simp: state_ok_def env_ok_def)
  consider (throws) "event_throws E (Ev_io rd os fd events) (w, g)" "?r = Inl Uncaught_exception"
    | (read) w1 g1 where "?r = Inr (w1, g1)" "worker_ok w1" "g1 \<noteq> None" "w_q_conn w1 = w_q_conn w"
  proof (cases "events AND READ \<noteq> 0")
    case True
    with read_query_ok [OF ok(1) e(2,3) ok(2), of fd rd] ev that show ?thesis by auto
  qed (use ok that in auto)
  then show ?thesis
  proof cases
    case throws
    then show ?thesis by (simp add: conn_io_cb_def)
  next
    case r: read
    have ws: "events AND WRITE \<noteq> 0 \<longrightarrow> writes_safe w1 fd os" using ev r(1) by simp
    obtain w2 out where "(if events AND WRITE \<noteq> 0 then write_reply E os fd w1 else Inr (w1, [])) = Inr (w2, out)"
      "worker_ok w2" "w_q_conn w2 = w_q_conn w1"
      using write_reply_ok [OF r(2) e(1), of fd os] ws r(2) by (cases "events AND WRITE \<noteq> 0") auto
    with r s show ?thesis unfolding conn_io_cb_def by (auto simp: state_ok_def)
  qed
qed

lemma w_process_rtc_msg_ok:
  assumes ok: "worker_ok w" and e: "libev_ok (e_L E)" "mem_ok (e_mem E)"
    and safe: "\<And>m rest. mb_q (w_mb w) = m # rest \<Longrightarrow> offer_safe E m w"
  shows "\<exists>w'. w_process_rtc_msg E w = Inr w' \<and> worker_ok w' \<and> w_q_conn w' = w_q_conn w"
proof (cases "mb_q (w_mb w)")
  case Nil
  then show ?thesis using ok by (simp add: w_process_rtc_msg_def SignalingWorker_pop_msg_def)
next
  case (Cons msg rest)
  let ?w = "w\<lparr>w_mb := (w_mb w)\<lparr>mb_q := rest\<rparr>\<rparr>"
  have ok': "worker_ok ?w" and os: "offer_safe E msg ?w" using ok safe [OF Cons] by simp_all
  have "\<exists>w'. response_server_offer E msg ?w = Inr w' \<and> worker_ok w' \<and> w_q_conn w' = w_q_conn w"
  proof (cases "addressee msg ?w")
    case None
    then show ?thesis using response_unaddressed [OF ok' None, of E] ok' by simp
  next
    case (Some ac)
    obtain a c where "ac = (a, c)" by (cases ac)
    with response_addressed [OF ok' e os, of a c] Some show ?thesis by auto
  qed
  with Cons ok' show ?thesis
    by (auto simp: w_process_rtc_msg_def SignalingWorker_pop_msg_def Let_def)
qed

lemma recv_notify_ok:
  assumes E: "env_ok E" and s: "state_ok (w, g)" and ev: "event_ok E (Ev_notify fresh peer r) (w, g)"
  shows "\<exists>w'. signaling_worker_recv_notify E fresh peer r w = Inr w' \<and> state_ok (w', g)"
proof (cases "r = Read_int")
  case False
  then show ?thesis using s by (cases r) (auto simp: signaling_worker_recv_notify_def recv_strict_def state_ok_def)
next
  case True
  obtain xs where ok: "worker_ok w" "g \<noteq> None" "lfq_rep (w_q_conn w) xs"
    and e: "libev_ok (e_L E)" "mem_ok (e_mem E)" using E s by (auto simp: state_ok_def env_ok_def)
  obtain msg rest where p: "mb_pipe (w_mb w) = msg # rest" using ev True by (auto split: list.splits)
  let ?w = "w\<lparr>w_mb := (w_mb w)\<lparr>mb_pipe := rest\<rparr>\<rparr>"
  have recv: "signaling_worker_recv_notify E fresh peer r w = w_process_notify E fresh peer msg ?w"
    using p True by (simp add: signaling_worker_recv_notify_def recv_strict_def)
  have ev': "msg \<noteq> SignalingWorker_QUIT" "w_heap w fresh = None"
    "\<And>fd q. consume (w_q_conn w) = Inr (Some fd, q) \<Longrightarrow>
       (\<exists>a. peer = Ok a) \<and> 0 < fd \<and> fd < 1073741824 \<and> conn_at w fd = None"
    "\<And>m rest. mb_q (w_mb w) = m # rest \<Longrightarrow> offer_safe E m w"
    using ev p by auto
  consider (new) "msg = SignalingWorker_NEW_CONN" | (rtc) "msg = SignalingWorker_RTC_MSG"
    | (other) "msg \<noteq> SignalingWorker_NEW_CONN" "msg \<noteq> SignalingWorker_RTC_MSG" by blast
  then show ?thesis
  proof cases
    case new
    show ?thesis
    proof (cases xs)
      case Nil
      have "consume (w_q_conn w) = Inr (None, w_q_conn w)" by (rule consume_rep_Nil [OF ok(3) [unfolded Nil]])
      then show ?thesis
        unfolding recv using new ok by (auto simp: w_process_notify_def SignalingWorker_NEW_CONN_def
            SignalingWorker_QUIT_def state_ok_def)
    next
      case (Cons fd ys)
      obtain q where q: "consume (w_q_conn w) = Inr (Some fd, q)" "lfq_rep q ys"
        using consume_rep_Cons [OF ok(3) [unfolded Cons]] by blast
      then obtain pa where fd: "peer = Ok pa" "0 < fd" "fd < 1073741824" "conn_at w fd = None" using ev'(3) by blast
      let ?v = "?w\<lparr>w_q_conn := q\<rparr>"
      have v: "worker_ok ?v" "conn_at ?v fd = None" "w_heap ?v fresh = None" using ok(1) fd(4) ev'(2) by simp_all
      obtain w' where w': "new_conn E fresh (Ok pa) fd ?v = Inr w'" "worker_ok w'" "w_q_conn w' = w_q_conn ?v"
        using new_conn_ok [OF v(1) e fd(2,3) v(2,3)] by blast
      have "w_process_notify E fresh peer msg ?w = Inr w'"
        using new q(1) fd(1) w'(1)
        by (simp add: w_process_notify_def SignalingWorker_NEW_CONN_def SignalingWorker_QUIT_def Let_def)
      moreover have "state_ok (w', g)" using w'(2,3) q(2) ok(2) by (auto simp: state_ok_def)
      ultimately show ?thesis unfolding recv by blast
    qed
  next
    case rtc
    have "\<exists>w'. w_process_rtc_msg E ?w = Inr w' \<and> worker_ok w' \<and> w_q_conn w' = w_q_conn ?w"
      by (rule w_process_rtc_msg_ok) (use ok e ev'(4) in simp_all)
    then show ?thesis
      unfolding recv using rtc ok by (auto simp: w_process_notify_def SignalingWorker_NEW_CONN_def
            SignalingWorker_RTC_MSG_def SignalingWorker_QUIT_def state_ok_def)
  next
    case other
    then show ?thesis unfolding recv using ev'(1) ok by (auto simp: w_process_notify_def state_ok_def)
  qed
qed

lemma run_event_ok:
  assumes E: "env_ok E" and s: "state_ok s" and ev: "event_ok E ev s"
  shows "event_throws E ev s \<and> run_event E ev s = Inl Uncaught_exception \<or>
    (\<exists>s'. run_event E ev s = Inr s' \<and> state_ok s')"
proof -
  obtain w g where w: "s = (w, g)" by (cases s)
  obtain xs where ok: "worker_ok w" "g \<noteq> None" "lfq_rep (w_q_conn w) xs" using s w by (auto simp: state_ok_def)
  show ?thesis
  proof (cases ev)
    case (Ev_io rd os fd events)
    from conn_io_cb_ok [OF E s [unfolded w] ev [unfolded w Ev_io]] show ?thesis
      unfolding w Ev_io by (elim disjE conjE exE) auto
  next
    case (Ev_timer t)
    then obtain tw where tw: "el_tm (w_el w) t = Some tw" using ev w by auto
    obtain a c where "tw_data tw = Some a" "w_heap w a = Some c" using worker_okD(8) [OF ok(1) tw] by blast
    then show ?thesis
      using process_timeout_ok [OF ok(1), of a c E] Ev_timer w tw ok
      by (auto simp: generic_time_cb_def get_tm_def conn_timer_cb_def state_ok_def)
  next
    case (Ev_notify fresh peer r)
    then show ?thesis using recv_notify_ok [OF E] s ev w by fastforce
  next
    case (Ev_new_conn a fd)
    then obtain q where "produce a fd (w_q_conn w) = Inr q" "lfq_rep q (xs @ [fd])"
      using produce_rep [OF ok(3)] ev w by auto
    with Ev_new_conn w ok show ?thesis
      by (auto simp: notify_new_conn_def w_notify_def state_ok_def split: prod.splits)
  next
    case (Ev_send msg)
    then show ?thesis using w ok by (auto simp: state_ok_def)
  qed
qed

fun events_ok :: "('l, 'j) worker_env \<Rightarrow> worker_event list \<Rightarrow> 'l wstate \<Rightarrow> bool" where
  "events_ok E [] s \<longleftrightarrow> True"
| "events_ok E (ev # evs) s \<longleftrightarrow>
     event_ok E ev s \<and> (case run_event E ev s of Inl e \<Rightarrow> True | Inr s' \<Rightarrow> events_ok E evs s')"

lemma run_events_ok:
  assumes "env_ok E" "state_ok s" "events_ok E evs s"
  shows "(\<exists>s'. run_res (run_event E) evs s = Inr s' \<and> state_ok s') \<or>
    run_res (run_event E) evs s = Inl Uncaught_exception \<and>
    (\<exists>before ev after s1. evs = before @ ev # after \<and> run_res (run_event E) before s = Inr s1 \<and>
       state_ok s1 \<and> event_throws E ev s1)"
  using assms
proof (induction evs arbitrary: s)
  case (Cons ev evs)
  then consider (throws) "event_throws E ev s" "run_event E ev s = Inl Uncaught_exception"
    | (runs) s1 where "run_event E ev s = Inr s1" "state_ok s1"
    using run_event_ok by fastforce
  then show ?case
  proof cases
    case throws
    have "\<exists>before ev' after s1. ev # evs = before @ ev' # after \<and> run_res (run_event E) before s = Inr s1 \<and>
        state_ok s1 \<and> event_throws E ev' s1"
      by (rule exI [of _ "[]"]) (use throws(1) Cons.prems(2) in simp)
    with throws(2) show ?thesis by simp
  next
    case runs
    from Cons.prems(3) runs have "events_ok E evs s1" by simp
    from Cons.IH [OF Cons.prems(1) runs(2) this] show ?thesis
    proof (elim disjE conjE exE)
      fix before ev' after s2
      assume "run_res (run_event E) evs s1 = Inl Uncaught_exception"
        and a: "evs = before @ ev' # after" "run_res (run_event E) before s1 = Inr s2" "state_ok s2"
          "event_throws E ev' s2"
      moreover have "\<exists>before ev' after s1. ev # evs = before @ ev' # after \<and>
          run_res (run_event E) before s = Inr s1 \<and> state_ok s1 \<and> event_throws E ev' s1"
        by (rule exI [of _ "ev # before"]) (use a runs(1) in simp)
      ultimately show ?thesis using runs(1) by simp
    qed (use runs(1) in simp)
  qed
qed simp

text \<open>A worker fresh from its constructor and \<open>init\<close>.\<close>

lemma init_worker_ok:
  assumes "libev_ok (e_L E)"
  shows "\<exists>w. SignalingWorker_init E (Ok (r, s)) (SignalingWorker_new this l a wid options) = Inr (0, w) \<and>
    worker_ok w \<and> lfq_rep (w_q_conn w) [] \<and> w_heap w = (\<lambda>_. None) \<and> w_conns w = [] \<and>
    w_mb w = \<lparr>mb_q = [], mb_pipe = []\<rparr> \<and> w_q_conn w = lfq_new a 0"
proof -
  let ?el = "EventLoop_new l (Some this)"
  have el: "el_ok ?el" by (simp add: el_ok_def EventLoop_new_def)
  obtain p el1 where c: "creat_io_event ?el Signaling_worker_recv_notify (Some this) = (p, el1)" by fastforce
  obtain i el2 where s: "p = Some i" "start_io_event (e_L E) el1 (Some i) r READ = Inr el2" "el_ok el2"
    "io_live el2 i" "el_tm el2 = el_tm ?el"
    using creat_start_io [OF assms el c, of r] by blast
  have "el_io el2 i \<noteq> None" by (rule io_live_not_None [OF s(4)])
  with c s show ?thesis
    by (auto simp: SignalingWorker_init_def SignalingWorker_new_def worker_ok_def lfq_new_rep EventLoop_new_def)
qed

lemma write_loop_all_ok:
  assumes "\<forall>x \<in> set os. sock_write_data x \<noteq> -1" "write_loop os rl pos out = Inr (fin, rl', pos', out')"
  shows fin
  using assms
proof (induction os rl pos out rule: write_loop.induct)
  case (3 x os r rl pos out)
  then show ?case by (auto simp: res_bind_Inr_iff Let_def split: if_splits)
qed simp_all

section \<open>Properties\<close>

definition ex_env :: "(nat, byte list) worker_env" where
  "ex_env = \<lparr>e_L = ex_libev, e_mem = ex_mem, e_json = ex_json, e_pw = (\<lambda>_. Ok ()), e_fuel = 3\<rparr>"

definition ex_conf :: signaling_server_conf where
  "ex_conf = \<lparr>sc_host = [], sc_port = 9000, sc_worker_num = 2, sc_connection_timeout = 5000000\<rparr>"

lemma ex_env_ok: "env_ok ex_env"
  using ex_libev_ok by (simp add: env_ok_def ex_env_def mem_ok_def ex_mem_def)

text \<open>C2: a worker sees any sequence of events other than its stop, and the kernel, libev and the peers
  keep within bounds: a connection stays below 65535 bytes, the body it announces is at most
  \<open>2 * 10\<^sup>9\<close> bytes, a response is at most 4095 bytes without a NUL and its connection holds the
  request's header, a blocked write goes on in the end, \<open>getpeername\<close> works, \<open>new\<close> gives a fresh address.
  Then every handler runs to its end without a fault: no dangling or null pointer is used, no vector
  or buffer is read or written outside its bounds, no unset variable is read; and the worker's
  invariant holds at the end: in particular a connection waits for the write event exactly when
  it has replies to write, and every timer belongs to a live connection. The only exception is that
  the JSON library throws on the body of a request that a readable connection has completed: the
  events before that one run as described, and the exception leaves the worker uncaught.\<close>

theorem worker_runs_safe:
  assumes "env_ok E" "state_ok s" "events_ok E evs s"
  shows "(\<exists>s'. run_res (run_event E) evs s = Inr s' \<and> state_ok s') \<or>
    run_res (run_event E) evs s = Inl Uncaught_exception \<and>
    (\<exists>before ev after s1. evs = before @ ev # after \<and> run_res (run_event E) before s = Inr s1 \<and>
       state_ok s1 \<and> event_throws E ev s1)"
  by (rule run_events_ok [OF assms])

lemma worker_runs_safe_witness:
  "\<exists>w s'. SignalingWorker_init ex_env (Ok (3, 4)) (SignalingWorker_new 0 0 0 0 ex_conf) = Inr (0, w) \<and>
     state_ok (w, Some ex_mailbox) \<and>
     run_res (run_event ex_env)
       [Ev_new_conn 1 7, Ev_notify 5 (Ok \<lparr>sin_port = 1, sin_addr = [127, 0, 0, 1]\<rparr>) Read_int]
       (w, Some ex_mailbox) = Inr s' \<and> state_ok s'"
proof -
  have L: "libev_ok (e_L ex_env)" using ex_env_ok by (simp add: env_ok_def)
  obtain w where w: "SignalingWorker_init ex_env (Ok (3, 4)) (SignalingWorker_new 0 0 0 0 ex_conf) = Inr (0, w)"
    "worker_ok w" "lfq_rep (w_q_conn w) []" "w_heap w = (\<lambda>_. None)" "w_conns w = []"
    "w_mb w = \<lparr>mb_q = [], mb_pipe = []\<rparr>" "w_q_conn w = lfq_new 0 0"
    using init_worker_ok [OF L, of 3 4 0 0 0 0 ex_conf] by blast
  have s: "state_ok (w, Some ex_mailbox)" using w by (auto simp: state_ok_def)
  have fr: "lfq_fresh 1 (w_q_conn w)" using w(7) by (simp add: lfq_fresh_def lfq_new_def)
  obtain q where q: "produce 1 7 (w_q_conn w) = Inr q" "lfq_rep q [7]" using produce_rep [OF w(3) fr] by auto
  obtain q2 where "consume q = Inr (Some 7, q2)" using consume_rep_Cons [OF q(2)] by blast
  with w q fr have "events_ok ex_env
     [Ev_new_conn 1 7, Ev_notify 5 (Ok \<lparr>sin_port = 1, sin_addr = [127, 0, 0, 1]\<rparr>) Read_int] (w, Some ex_mailbox)"
    by (simp add: notify_new_conn_def w_notify_def SignalingWorker_notify_def notify_pipe_def ex_env_def
        conn_at_def SignalingWorker_QUIT_def SignalingWorker_NEW_CONN_def split: sum.split)
  note run = worker_runs_safe [OF ex_env_ok s this]
  have "\<not> event_throws ex_env ev s1"
    if "[Ev_new_conn 1 7, Ev_notify 5 (Ok \<lparr>sin_port = 1, sin_addr = [127, 0, 0, 1]\<rparr>) Read_int] = before @ ev # after"
    for before ev after and s1 :: "nat wstate"
    using that by (cases s1) (auto simp: Cons_eq_append_conv)
  with run w(1) s show ?thesis by blast
qed

text \<open>
  A worker for the witnesses: one connection, on descriptor 7, that has sent a request and
  whose reply list is \<open>rl\<close>.
\<close>

definition ex_served :: "slice list \<Rightarrow> tcp_connection" where
  "ex_served rl = (ex_conn [104, 101, 108, 108, 111])\<lparr>c_fd := 7, c_io_watcher := Some 1, c_timer_watcher := Some 2,
     c_last_interaction_time := Some 1000000, c_reply_list := rl\<rparr>"

definition ex_worker :: "slice list \<Rightarrow> nat signaling_worker" where
  "ex_worker rl = \<lparr>w_this = 0, w_id = 0, w_options = ex_conf,
     w_el = \<lparr>el_loop = 6, el_owner = Some 0,
       el_io = [0 \<mapsto> \<lparr>iw_cb = Signaling_worker_recv_notify, iw_data = Some 0,
                    iw_io = \<lparr>io_active = True, io_fd = Some 3, io_events = Some 1\<rparr>\<rparr>,
                1 \<mapsto> \<lparr>iw_cb = Conn_io_cb, iw_data = Some 0,
                    iw_io = \<lparr>io_active = True, io_fd = Some 7, io_events = Some (if rl = [] then 1 else 3)\<rparr>\<rparr>],
       el_tm = [2 \<mapsto> \<lparr>tw_cb = Conn_timer_cb, tw_data = Some 5, tw_repeat = True,
                    tw_timer = \<lparr>tm_active = True, tm_at = None, tm_repeat = Some (1 / 10)\<rparr>\<rparr>],
       el_fresh = 3\<rparr>,
     w_pipe_watcher = Some 0, w_notify_recv_fd = 3, w_notify_send_fd = 4, w_thread = True,
     w_q_conn = lfq_new 0 0, w_conns = (replicate 14 None)[7 := Some 5], w_heap = [5 \<mapsto> ex_served rl],
     w_mb = \<lparr>mb_q = [], mb_pipe = []\<rparr>, w_closed = []\<rparr>"

lemma ex_served_ok: "conn_ok (ex_served rl)"
  using ex_conn_facts(1) [of "[104, 101, 108, 108, 111]"]
  by (auto simp: ex_served_def conn_ok_def query_head_def split: conn_state.splits)

lemma ex_worker_ok:
  assumes "replies_ok rl 0"
  shows "worker_ok (ex_worker rl)"
proof -
  have good: "conn_good (w_el (ex_worker rl)) (ex_served rl)"
    using assms ex_served_ok [of rl]
    by (auto simp: conn_good_def ex_served_def ex_conn_def ex_worker_def io_live_def watched_def READ_def WRITE_def)
  have tab: "(replicate 14 None)[7 := Some (5 :: nat)] ! n = Some a \<longleftrightarrow> n = 7 \<and> a = 5" if "n < 14" for n a
    using that by (cases "n = 7") auto
  have el: "el_ok (w_el (ex_worker rl))" by (auto simp: el_ok_def ex_worker_def split: if_splits)
  have sv: "c_fd (ex_served rl) = 7" "c_io_watcher (ex_served rl) = Some 1" "c_timer_watcher (ex_served rl) = Some 2"
    by (simp_all add: ex_served_def)
  show ?thesis
    using good el sv tab unfolding worker_ok_def
    by (auto simp: ex_worker_def split: if_splits)
qed

text \<open>C8: the kernel answers the writes of a write event in any way: it takes some of the bytes offered, says
  \<open>EAGAIN\<close>, or fails. Once its answers other than \<open>EAGAIN\<close> are as many as the bytes that were
  waiting, the event has ended: it sent a prefix of those bytes and kept the rest, in order, and if
  no write failed it sent all of them, the reply list is empty and the connection waits for reading
  only. While the kernel only says \<open>EAGAIN\<close> and a reply waits, the handler stays in its loop.\<close>

theorem write_event_sends_stream:
  assumes "worker_ok w" "libev_ok (e_L E)" "conn_at w fd = Some a" "0 < fd" "w_heap w a = Some c"
    "writes_ok os (c_reply_list c) (nat (c_cur_resp_pos c))"
  shows "(length (pending (c_reply_list c) (nat (c_cur_resp_pos c))) \<le> answers os \<longrightarrow>
      (\<exists>w' out c'. write_reply E os fd w = Inr (w', out) \<and> worker_ok w' \<and> w_heap w' = (w_heap w)(a \<mapsto> c') \<and>
        out @ pending (c_reply_list c') (nat (c_cur_resp_pos c')) = pending (c_reply_list c) (nat (c_cur_resp_pos c)) \<and>
        ((\<forall>x \<in> set os. sock_write_data x \<noteq> -1) \<longrightarrow>
          out = pending (c_reply_list c) (nat (c_cur_resp_pos c)) \<and> c_reply_list c' = []))) \<and>
    (c_reply_list c \<noteq> [] \<and> (\<forall>x \<in> set os. sock_write_data x = 0) \<longrightarrow> write_reply E os fd w = Inl Not_finished)"
proof (intro conjI impI)
  have rep: "replies_ok (c_reply_list c) (nat (c_cur_resp_pos c))"
    using worker_okD(3) [OF assms(1,5)] by (simp add: conn_good_def)
  {
    assume "length (pending (c_reply_list c) (nat (c_cur_resp_pos c))) \<le> answers os"
    from write_loop_finishes [OF rep assms(6) this] obtain fin rl pos out where
      r: "write_loop os (c_reply_list c) (nat (c_cur_resp_pos c)) [] = Inr (fin, rl, pos, out)" by fastforce
    obtain w' o2 c' where w': "write_reply E os fd w = Inr (w', o2)" "worker_ok w'" "w_heap w' = (w_heap w)(a \<mapsto> c')"
      "o2 @ pending (c_reply_list c') (nat (c_cur_resp_pos c')) = pending (c_reply_list c) (nat (c_cur_resp_pos c))"
      using write_reply_conn [OF assms(1-6) r] by blast
    have "c_reply_list c' = []" if all: "\<forall>x \<in> set os. sock_write_data x \<noteq> -1"
    proof -
      have "fin" using write_loop_all_ok [OF all r] .
      then have "rl = []" using write_loop_stream [OF rep assms(6) r] by auto
      with \<open>fin\<close> w'(1,3) assms(3,4,5) r show ?thesis
        by (auto simp: write_reply_def get_conn_def put_conn_def res_bind_Inr_iff Let_def fun_eq_iff split: if_splits)
    qed
    with w' show "\<exists>w' out c'. write_reply E os fd w = Inr (w', out) \<and> worker_ok w' \<and> w_heap w' = (w_heap w)(a \<mapsto> c') \<and>
        out @ pending (c_reply_list c') (nat (c_cur_resp_pos c')) = pending (c_reply_list c) (nat (c_cur_resp_pos c)) \<and>
        ((\<forall>x \<in> set os. sock_write_data x \<noteq> -1) \<longrightarrow>
          out = pending (c_reply_list c) (nat (c_cur_resp_pos c)) \<and> c_reply_list c' = [])"
      by (auto simp: pending_def)
  }
  assume "c_reply_list c \<noteq> [] \<and> (\<forall>x \<in> set os. sock_write_data x = 0)"
  then show "write_reply E os fd w = Inl Not_finished"
    using write_loop_spins [OF rep] assms(3-5) by (simp add: write_reply_def get_conn_def)
qed

lemma write_event_sends_stream_witness:
  "\<exists>w' c'. write_reply ex_env [Ok 2, Fail EAGAIN, Ok 1, Ok 1] 7 (ex_worker [Slice_make [1, 2, 3] 0 3]) = Inr (w', [1, 2, 3]) \<and>
     w_heap w' = [5 \<mapsto> c'] \<and> c_reply_list c' = []"
proof -
  let ?rl = "[Slice_make [1, 2, 3] 0 3]" and ?os = "[Ok 2, Fail EAGAIN, Ok 1, Ok 1] :: nat sysret list"
  have rep: "replies_ok ?rl 0" by (simp add: replies_ok_def Slice_make_def slice_wf_def)
  have c: "conn_at (ex_worker ?rl) 7 = Some 5" "w_heap (ex_worker ?rl) 5 = Some (ex_served ?rl)"
    "c_reply_list (ex_served ?rl) = ?rl" "nat (c_cur_resp_pos (ex_served ?rl)) = 0"
    by (simp_all add: conn_at_def ex_worker_def ex_served_def ex_conn_def)
  have p: "pending ?rl 0 = [1, 2, 3]" by (simp add: pending_def Slice_make_def slice_val_def)
  have os: "writes_ok ?os ?rl 0" "answers ?os = 3" "\<forall>x \<in> set ?os. sock_write_data x \<noteq> -1"
    by (simp_all add: Slice_make_def sock_write_data_def)
  have L: "libev_ok (e_L ex_env)" using ex_env_ok by (simp add: env_ok_def)
  from write_event_sends_stream [OF ex_worker_ok [OF rep] L c(1) _ c(2), of ?os] c(3,4) p os
  show ?thesis by (auto simp: ex_worker_def)
qed






end
