(* ===== verification/Signaling_Server.thy ===== *)
theory Signaling_Server
  imports Worker_Events
begin

text \<open>
  The acceptor, \<open>src/xrtcserver/rtcserver/src/server/signaling_server.hpp\<close> and
  \<open>signaling_server.cpp\<close>: it listens, accepts connections and deals them out to the signalling
  workers in turn. The YAML library is an argument: the four entries of the file, each \<open>None\<close>
  where reading it throws.
\<close>

section \<open>State\<close>

record 'l signaling_server =
  ss_this :: nat
  ss_options :: signaling_server_conf
  ss_el :: "'l event_loop"
  ss_conn_watcher :: ptr
  ss_thread :: bool
  ss_pipe_watcher :: ptr
  ss_notify_recv_fd :: int
  ss_notify_send_fd :: int
  ss_listen_fd :: int
  ss_workers :: "'l signaling_worker list"
  ss_next_worker :: int
  ss_pipe :: "int list"
  ss_closed :: "int list"

definition SignalingServer_new :: "nat \<Rightarrow> 'l \<Rightarrow> signaling_server_conf \<Rightarrow> 'l signaling_server" where
  "SignalingServer_new this l garbage =
     \<lparr>ss_this = this, ss_options = garbage, ss_el = EventLoop_new l (Some this), ss_conn_watcher = None,
      ss_thread = False, ss_pipe_watcher = None, ss_notify_recv_fd = -1, ss_notify_send_fd = -1,
      ss_listen_fd = -1, ss_workers = [], ss_next_worker = 0, ss_pipe = [], ss_closed = []\<rparr>"

text \<open>The destructor deletes the workers in order.\<close>

fun destroy_workers :: "('l, 'j) worker_env \<Rightarrow> 'l signaling_worker list \<Rightarrow> unit res" where
  "destroy_workers E [] = Inr ()"
| "destroy_workers E (w # ws) = res_bind (SignalingWorker_destroy E w) (\<lambda>_. destroy_workers E ws)"

definition SignalingServer_destroy :: "('l, 'j) worker_env \<Rightarrow> 'l signaling_server \<Rightarrow> 'l signaling_server res" where
  "SignalingServer_destroy E ss =
     res_bind (destroy_workers E (ss_workers ss)) (\<lambda>_. Inr (ss\<lparr>ss_thread := False, ss_workers := []\<rparr>))"

section \<open>Configuration and start\<close>

record conf_yaml =
  y_host :: "byte list option"
  y_port :: "int option"
  y_worker_num :: "int option"
  y_connection_timeout :: "int option"

text \<open>The assignments inside \<open>try\<close>: those before the one that throws stay.\<close>

definition read_conf :: "conf_yaml \<Rightarrow> signaling_server_conf \<Rightarrow> bool \<times> signaling_server_conf" where
  "read_conf y o0 =
     (case y_host y of None \<Rightarrow> (False, o0) | Some h \<Rightarrow>
      let o1 = o0\<lparr>sc_host := h\<rparr>
      in case y_port y of None \<Rightarrow> (False, o1) | Some p \<Rightarrow>
      let o2 = o1\<lparr>sc_port := p\<rparr>
      in case y_worker_num y of None \<Rightarrow> (False, o2) | Some n \<Rightarrow>
      let o3 = o2\<lparr>sc_worker_num := n\<rparr>
      in case y_connection_timeout y of None \<Rightarrow> (False, o3) | Some t \<Rightarrow> (True, o3\<lparr>sc_connection_timeout := t\<rparr>))"

text \<open>What creating a worker draws from its surroundings.\<close>

record 'l sw_res =
  sr_this :: nat
  sr_loop :: 'l
  sr_dummy :: nat
  sr_pipe :: "(int \<times> int) sysret"

definition create_worker ::
  "('l, 'j) worker_env \<Rightarrow> 'l sw_res \<Rightarrow> int \<Rightarrow> 'l signaling_server \<Rightarrow> (int \<times> 'l signaling_server) res" where
  "create_worker E sr worker_id ss =
     (let w = SignalingWorker_new (sr_this sr) (sr_loop sr) (sr_dummy sr) worker_id (ss_options ss)
      in res_bind (SignalingWorker_init E (sr_pipe sr) w) (\<lambda>(r, w).
           if r \<noteq> 0 then Inr (-1, ss)
           else let (ok, w) = SignalingWorker_start w
                in if \<not> ok then Inr (-1, ss) else Inr (0, ss\<lparr>ss_workers := ss_workers ss @ [w]\<rparr>)))"

fun create_workers ::
  "('l, 'j) worker_env \<Rightarrow> (nat \<Rightarrow> 'l sw_res) \<Rightarrow> nat list \<Rightarrow> 'l signaling_server \<Rightarrow> (int \<times> 'l signaling_server) res" where
  "create_workers E sr [] ss = Inr (0, ss)"
| "create_workers E sr (i # is) ss =
     res_bind (create_worker E (sr i) (int i) ss) (\<lambda>(r, ss).
       if r \<noteq> 0 then Inr (-1, ss) else create_workers E sr is ss)"

text \<open>\<open>load\<close> is \<open>YAML::LoadFile\<close>, \<open>p\<close> the answer to \<open>pipe\<close>, \<open>le\<close> what the kernel answers to the listening socket.\<close>

definition SignalingServer_Init :: "('l, 'j) worker_env \<Rightarrow> (byte list \<Rightarrow> conf_yaml option) \<Rightarrow> (int \<times> int) sysret \<Rightarrow>
    listen_env \<Rightarrow> (nat \<Rightarrow> 'l sw_res) \<Rightarrow> byte list \<Rightarrow> 'l signaling_server \<Rightarrow> (int \<times> 'l signaling_server) res" where
  "SignalingServer_Init E load p le sr conf_file ss =
     (if conf_file = [] then Inr (-1, ss)
      else case load conf_file of
        None \<Rightarrow> Inr (-1, ss)
      | Some y \<Rightarrow>
          let (ok, opts) = read_conf y (ss_options ss); ss = ss\<lparr>ss_options := opts\<rparr>
          in if \<not> ok then Inr (-1, ss)
             else case p of
               Fail err \<Rightarrow> Inr (-1, ss)
             | Ok (fd0, fd1) \<Rightarrow>
                 let (pw, el) = creat_io_event (ss_el ss) Signaling_server_recv_notify (Some (ss_this ss))
                 in res_bind (start_io_event (e_L E) el pw fd0 READ) (\<lambda>el.
                      let (lfd, fds) = create_tcp_server le (sc_host opts) (sc_port opts) [];
                          ss = ss\<lparr>ss_notify_recv_fd := fd0, ss_notify_send_fd := fd1, ss_pipe_watcher := pw,
                                 ss_el := el, ss_listen_fd := lfd\<rparr>
                      in if lfd < 0 then Inr (-1, ss)
                         else
                           let (cw, el) = creat_io_event (ss_el ss) Accept_new_conn (Some (ss_this ss))
                           in res_bind (start_io_event (e_L E) el cw lfd READ) (\<lambda>el.
                                create_workers E sr [0..<nat (sc_worker_num opts)]
                                  (ss\<lparr>ss_conn_watcher := cw, ss_el := el\<rparr>))))"

definition SignalingServer_start :: "'l signaling_server \<Rightarrow> bool \<times> 'l signaling_server" where
  "SignalingServer_start ss = (if ss_thread ss then (False, ss) else (True, ss\<lparr>ss_thread := True\<rparr>))"

definition SignalingServer_notify :: "pipe_env \<Rightarrow> int \<Rightarrow> 'l signaling_server \<Rightarrow> int \<times> 'l signaling_server" where
  "SignalingServer_notify pw msg ss = (let (r, pipe) = notify_pipe pw msg (ss_pipe ss) in (r, ss\<lparr>ss_pipe := pipe\<rparr>))"

definition SignalingServer_stop :: "pipe_env \<Rightarrow> 'l signaling_server \<Rightarrow> 'l signaling_server" where
  "SignalingServer_stop pw ss = snd (SignalingServer_notify pw SignalingServer_QUIT ss)"

text \<open>\<open>_stop\<close>: it asks every worker to quit and waits for it (the \<open>join\<close> is not modelled).\<close>

definition ss_stop :: "('l, 'j) worker_env \<Rightarrow> 'l signaling_server \<Rightarrow> 'l signaling_server res" where
  "ss_stop E ss =
     (if \<not> ss_thread ss then Inr ss
      else res_bind (delete_io_event (e_L E) (ss_el ss) (ss_pipe_watcher ss)) (\<lambda>el.
           res_bind (delete_io_event (e_L E) el (ss_conn_watcher ss)) (\<lambda>el.
             Inr (ss\<lparr>ss_el := el_stop (e_L E) el,
                     ss_closed := ss_closed ss @ [ss_notify_recv_fd ss, ss_notify_send_fd ss, ss_listen_fd ss],
                     ss_workers := map (SignalingWorker_stop E) (ss_workers ss)\<rparr>))))"

definition ss_process_notify :: "('l, 'j) worker_env \<Rightarrow> int \<Rightarrow> 'l signaling_server \<Rightarrow> 'l signaling_server res" where
  "ss_process_notify E msg ss = (if msg = SignalingServer_QUIT then ss_stop E ss else Inr ss)"

definition signaling_server_recv_notify ::
  "('l, 'j) worker_env \<Rightarrow> pipe_read \<Rightarrow> 'l signaling_server \<Rightarrow> 'l signaling_server res" where
  "signaling_server_recv_notify E r ss =
     res_bind (recv_lax r (ss_pipe ss)) (\<lambda>(msg, pipe).
       let ss = ss\<lparr>ss_pipe := pipe\<rparr>
       in case msg of None \<Rightarrow> Inr ss | Some msg \<Rightarrow> ss_process_notify E msg ss)"

section \<open>Accepting\<close>

definition dispatch_conn ::
  "('l, 'j) worker_env \<Rightarrow> nat \<Rightarrow> int \<Rightarrow> 'l signaling_server \<Rightarrow> 'l signaling_server res" where
  "dispatch_conn E a fd ss =
     (let index = ss_next_worker ss;
          nxt = i32 (ss_next_worker ss + 1);
          nxt = (if usz nxt \<ge> int (length (ss_workers ss)) then 0 else nxt);
          ss = ss\<lparr>ss_next_worker := nxt\<rparr>
      in if 0 \<le> index \<and> nat index < length (ss_workers ss)
         then res_bind (notify_new_conn E a fd (ss_workers ss ! nat index)) (\<lambda>(r, w).
                Inr (ss\<lparr>ss_workers := (ss_workers ss)[nat index := w]\<rparr>))
         else Inl Out_of_bounds)"

definition accept_new_conn :: "('l, 'j) worker_env \<Rightarrow> nat \<Rightarrow> (int \<times> sockaddr_in) sysret \<Rightarrow> byte list \<Rightarrow>
    'l signaling_server \<Rightarrow> 'l signaling_server res" where
  "accept_new_conn E a r cip ss =
     res_bind (tcp_accept r (Some cip)) (\<lambda>(cfd, ip, port).
       if cfd = -1 then Inr ss else dispatch_conn E a cfd ss)"

section \<open>Lemmas\<close>

text \<open>A server that deals: it has workers, the next index is one of them, and the queues are sound.\<close>

definition ss_ready :: "'l signaling_server \<Rightarrow> bool" where
  "ss_ready ss \<longleftrightarrow> 0 \<le> ss_next_worker ss \<and> ss_next_worker ss < int (length (ss_workers ss)) \<and>
     length (ss_workers ss) < 2147483648 \<and> (\<forall>w \<in> set (ss_workers ss). \<exists>xs. lfq_rep (w_q_conn w) xs)"

text \<open>A worker that was just started: no connections, no messages, a watched pipe.\<close>

definition idle_worker :: "'l signaling_worker \<Rightarrow> bool" where
  "idle_worker w \<longleftrightarrow> w_thread w \<and> lfq_rep (w_q_conn w) [] \<and> w_conns w = [] \<and> w_heap w = (\<lambda>_. None) \<and>
     w_mb w = \<lparr>mb_q = [], mb_pipe = []\<rparr> \<and> (\<exists>p. w_pipe_watcher w = Some p \<and> el_io (w_el w) p \<noteq> None)"

lemma create_worker_ok:
  assumes "libev_ok (e_L E)" "sr_pipe sr = Ok (f0, f1)"
  shows "\<exists>w. create_worker E sr i ss = Inr (0, ss\<lparr>ss_workers := ss_workers ss @ [w]\<rparr>) \<and> w_id w = i \<and>
    w_options w = ss_options ss \<and> idle_worker w"
proof -
  let ?w = "SignalingWorker_new (sr_this sr) (sr_loop sr) (sr_dummy sr) i (ss_options ss)"
  obtain p el el' where c: "creat_io_event (w_el ?w) Signaling_worker_recv_notify (Some (w_this ?w)) = (p, el)"
    "start_io_event (e_L E) el p f0 READ = Inr el'" "p = Some (el_fresh (w_el ?w))"
    "\<forall>j. el_io el' j = None \<longleftrightarrow> j \<noteq> el_fresh (w_el ?w) \<and> el_io (w_el ?w) j = None"
    "el_fresh el' = Suc (el_fresh (w_el ?w))"
    using fresh_io_started [where lp = "w_el ?w" and cb = Signaling_worker_recv_notify and d = "Some (w_this ?w)" and fd = f0, OF assms(1)] by blast
  then have "el_io el' (el_fresh (w_el ?w)) \<noteq> None" by blast
  with c(1-3) assms(2) show ?thesis
    by (auto simp: create_worker_def SignalingWorker_init_def SignalingWorker_start_def SignalingWorker_new_def
        idle_worker_def lfq_new_rep)
qed

lemma create_workers_ok:
  assumes "libev_ok (e_L E)" "\<And>i. i \<in> set is \<Longrightarrow> \<exists>f0 f1. sr_pipe (sr i) = Ok (f0, f1)"
  shows "\<exists>ws. create_workers E sr is ss = Inr (0, ss\<lparr>ss_workers := ss_workers ss @ ws\<rparr>) \<and>
    map w_id ws = map int is \<and> (\<forall>w \<in> set ws. w_options w = ss_options ss \<and> idle_worker w)"
  using assms(2)
proof (induction "is" arbitrary: ss)
  case Nil
  show ?case by (intro exI [of _ "[]"]) simp
next
  case (Cons i "is")
  obtain f0 f1 where "sr_pipe (sr i) = Ok (f0, f1)" using Cons.prems by (meson list.set_intros(1))
  from create_worker_ok [OF assms(1) this] obtain w where
    w: "create_worker E (sr i) (int i) ss = Inr (0, ss\<lparr>ss_workers := ss_workers ss @ [w]\<rparr>)" "w_id w = int i"
      "w_options w = ss_options ss" "idle_worker w" by blast
  let ?ss = "ss\<lparr>ss_workers := ss_workers ss @ [w]\<rparr>"
  obtain ws where ws: "create_workers E sr is ?ss = Inr (0, ?ss\<lparr>ss_workers := ss_workers ?ss @ ws\<rparr>)"
    "map w_id ws = map int is" "\<forall>w \<in> set ws. w_options w = ss_options ?ss \<and> idle_worker w"
    using Cons.IH [of ?ss] Cons.prems by auto
  show ?case using w ws by (intro exI [of _ "w # ws"]) simp
qed

text \<open>A server whose two watchers are alive.\<close>

definition ss_watching :: "'l signaling_server \<Rightarrow> bool" where
  "ss_watching ss \<longleftrightarrow> (\<exists>p c. ss_pipe_watcher ss = Some p \<and> ss_conn_watcher ss = Some c \<and> p \<noteq> c \<and>
     el_io (ss_el ss) p \<noteq> None \<and> el_io (ss_el ss) c \<noteq> None)"

lemma SignalingServer_Init_ok:
  assumes L: "libev_ok (e_L E)" and load: "conf_file \<noteq> []" "load conf_file = Some y" "read_conf y garbage = (True, opts)"
    and p: "p = Ok (f0, f1)" "\<And>i. i < nat (sc_worker_num opts) \<Longrightarrow> \<exists>f0 f1. sr_pipe (sr i) = Ok (f0, f1)"
    and le: "create_tcp_server le (sc_host opts) (sc_port opts) [] = (lfd, fds)" "0 \<le> lfd"
  shows "\<exists>ss. SignalingServer_Init E load p le sr conf_file (SignalingServer_new this l garbage) = Inr (0, ss) \<and>
    ss_watching ss \<and> ss_listen_fd ss = lfd \<and> ss_pipe ss = [] \<and> ss_next_worker ss = 0 \<and> ss_options ss = opts \<and>
    ss_closed ss = [] \<and> ss_notify_recv_fd ss = f0 \<and> ss_notify_send_fd ss = f1 \<and> \<not> ss_thread ss \<and>
    map w_id (ss_workers ss) = map int [0..<nat (sc_worker_num opts)] \<and>
    (\<forall>w \<in> set (ss_workers ss). w_options w = opts \<and> idle_worker w)"
proof -
  let ?s0 = "(SignalingServer_new this l garbage)\<lparr>ss_options := opts\<rparr>"
  obtain pw el el' where c: "creat_io_event (ss_el ?s0) Signaling_server_recv_notify (Some (ss_this ?s0)) = (pw, el)"
    "start_io_event (e_L E) el pw f0 READ = Inr el'" "pw = Some (el_fresh (ss_el ?s0))"
    "\<forall>j. el_io el' j = None \<longleftrightarrow> j \<noteq> el_fresh (ss_el ?s0) \<and> el_io (ss_el ?s0) j = None"
    "el_fresh el' = Suc (el_fresh (ss_el ?s0))"
    using fresh_io_started [where lp = "ss_el ?s0" and cb = Signaling_server_recv_notify and d = "Some (ss_this ?s0)" and fd = f0, OF L] by blast
  let ?s1 = "?s0\<lparr>ss_notify_recv_fd := f0, ss_notify_send_fd := f1, ss_pipe_watcher := pw, ss_el := el', ss_listen_fd := lfd\<rparr>"
  obtain cw em em' where d: "creat_io_event el' Accept_new_conn (Some (ss_this ?s1)) = (cw, em)"
    "start_io_event (e_L E) em cw lfd READ = Inr em'" "cw = Some (el_fresh el')"
    "\<forall>j. el_io em' j = None \<longleftrightarrow> j \<noteq> el_fresh el' \<and> el_io el' j = None"
    "el_fresh em' = Suc (el_fresh el')"
    using fresh_io_started [where lp = el' and cb = Accept_new_conn and d = "Some (ss_this ?s1)" and fd = lfd, OF L] by blast
  let ?s2 = "?s1\<lparr>ss_conn_watcher := cw, ss_el := em'\<rparr>"
  obtain ws where ws: "create_workers E sr [0..<nat (sc_worker_num opts)] ?s2 = Inr (0, ?s2\<lparr>ss_workers := ss_workers ?s2 @ ws\<rparr>)"
    "map w_id ws = map int [0..<nat (sc_worker_num opts)]" "\<forall>w \<in> set ws. w_options w = ss_options ?s2 \<and> idle_worker w"
    using create_workers_ok [OF L, of "[0..<nat (sc_worker_num opts)]" sr ?s2] p(2) by auto
  have eq: "SignalingServer_Init E load p le sr conf_file (SignalingServer_new this l garbage) =
      Inr (0, ?s2\<lparr>ss_workers := ss_workers ?s2 @ ws\<rparr>)"
    using load p(1) c(1,2) d(1,2) le ws(1) by (simp add: SignalingServer_Init_def SignalingServer_new_def)
  have "el_io em' (el_fresh (ss_el ?s0)) \<noteq> None" "el_io em' (el_fresh el') \<noteq> None" using c(4) d(4) by blast+
  then have "ss_watching (?s2\<lparr>ss_workers := ss_workers ?s2 @ ws\<rparr>)"
    using c(3,5) d(3) by (simp add: ss_watching_def)
  with eq ws(2,3) show ?thesis by (simp add: SignalingServer_new_def)
qed

text \<open>When \<open>Init\<close> fails: a configuration entry cannot be read, a pipe cannot be made, or the server cannot listen.\<close>

definition ss_init_fails :: "(byte list \<Rightarrow> conf_yaml option) \<Rightarrow> (int \<times> int) sysret \<Rightarrow> listen_env \<Rightarrow>
    (nat \<Rightarrow> 'l sw_res) \<Rightarrow> byte list \<Rightarrow> signaling_server_conf \<Rightarrow> bool" where
  "ss_init_fails load p le sr conf_file garbage \<longleftrightarrow> conf_file = [] \<or>
     (case load conf_file of
        None \<Rightarrow> True
      | Some y \<Rightarrow> \<not> fst (read_conf y garbage) \<or> (\<exists>err. p = Fail err) \<or>
          fst (create_tcp_server le (sc_host (snd (read_conf y garbage))) (sc_port (snd (read_conf y garbage))) []) < 0 \<or>
          (\<exists>i < nat (sc_worker_num (snd (read_conf y garbage))). \<exists>err. sr_pipe (sr i) = Fail err))"

lemma create_workers_result:
  assumes "libev_ok (e_L E)"
  shows "\<exists>r ss'. create_workers E sr is ss = Inr (r, ss') \<and> (r = 0 \<longleftrightarrow> (\<forall>i \<in> set is. \<forall>err. sr_pipe (sr i) \<noteq> Fail err))"
proof (induction "is" arbitrary: ss)
  case (Cons i "is")
  show ?case
  proof (cases "sr_pipe (sr i)")
    case (Ok f)
    then obtain w where "create_worker E (sr i) (int i) ss = Inr (0, ss\<lparr>ss_workers := ss_workers ss @ [w]\<rparr>)"
      using create_worker_ok [OF assms, of "sr i" "fst f" "snd f"] by auto
    with Cons.IH [of "ss\<lparr>ss_workers := ss_workers ss @ [w]\<rparr>"] Ok show ?thesis by auto
  qed (simp add: create_worker_def SignalingWorker_init_def)
qed simp

lemma SignalingServer_Init_result:
  assumes L: "libev_ok (e_L E)"
  shows "\<exists>r ss. SignalingServer_Init E load p le sr conf_file (SignalingServer_new this l garbage) = Inr (r, ss) \<and>
    (r \<noteq> 0 \<longleftrightarrow> ss_init_fails load p le sr conf_file garbage)"
proof -
  have start: "\<exists>el'. start_io_event (e_L E) (snd (creat_io_event lp cb d)) (fst (creat_io_event lp cb d)) fd READ = Inr el'"
    for lp cb d fd
    using fresh_io_started [where lp = lp and cb = cb and d = d and fd = fd, OF L] by fastforce
  show ?thesis
  proof (cases "conf_file = [] \<or> load conf_file = None")
    case False
    then obtain y where y: "conf_file \<noteq> []" "load conf_file = Some y" by auto
    obtain ok opts where ok: "read_conf y garbage = (ok, opts)" by fastforce
    obtain lfd fds where le: "create_tcp_server le (sc_host opts) (sc_port opts) [] = (lfd, fds)" by fastforce
    let ?s0 = "(SignalingServer_new this l garbage)\<lparr>ss_options := opts\<rparr>"
    show ?thesis
    proof (cases "\<not> ok \<or> (\<exists>err. p = Fail err)")
      case True
      then show ?thesis
        using y ok by (auto simp: SignalingServer_Init_def ss_init_fails_def SignalingServer_new_def Let_def)
    next
      case False
      then obtain f0 f1 where p: "ok" "p = Ok (f0, f1)" by (cases p) auto
      obtain el where el: "start_io_event (e_L E) (snd (creat_io_event (ss_el ?s0) Signaling_server_recv_notify (Some (ss_this ?s0))))
          (fst (creat_io_event (ss_el ?s0) Signaling_server_recv_notify (Some (ss_this ?s0)))) f0 READ = Inr el"
        using start by blast
      show ?thesis
      proof (cases "lfd < 0")
        case True
        with y ok le p el show ?thesis
          by (simp add: SignalingServer_Init_def ss_init_fails_def SignalingServer_new_def Let_def split_beta)
      next
        case lfd: False
        obtain em where em: "start_io_event (e_L E) (snd (creat_io_event el Accept_new_conn (Some (ss_this ?s0))))
            (fst (creat_io_event el Accept_new_conn (Some (ss_this ?s0)))) lfd READ = Inr em"
          using start by blast
        have "\<exists>ss. SignalingServer_Init E load p le sr conf_file (SignalingServer_new this l garbage) =
            create_workers E sr [0..<nat (sc_worker_num opts)] ss"
          using y ok le p el em lfd by (auto simp: SignalingServer_Init_def SignalingServer_new_def Let_def split_beta)
        then obtain ss where eq: "SignalingServer_Init E load p le sr conf_file (SignalingServer_new this l garbage) =
            create_workers E sr [0..<nat (sc_worker_num opts)] ss" by blast
        show ?thesis
          unfolding eq using create_workers_result [OF L, of sr "[0..<nat (sc_worker_num opts)]" ss] y ok le p lfd
          by (auto simp: ss_init_fails_def)
      qed
    qed
  qed (auto simp: SignalingServer_Init_def ss_init_fails_def)
qed

text \<open>Quitting: the loop is broken, the descriptors are closed, and every worker is told to quit.\<close>

lemma ss_stop_ok:
  assumes "ss_thread ss" "ss_watching ss"
  shows "\<exists>el. ss_stop E ss = Inr (ss\<lparr>ss_el := el_stop (e_L E) el,
      ss_closed := ss_closed ss @ [ss_notify_recv_fd ss, ss_notify_send_fd ss, ss_listen_fd ss],
      ss_workers := map (SignalingWorker_stop E) (ss_workers ss)\<rparr>)"
proof -
  obtain p c where pc: "ss_pipe_watcher ss = Some p" "ss_conn_watcher ss = Some c" "p \<noteq> c"
    "el_io (ss_el ss) p \<noteq> None" "el_io (ss_el ss) c \<noteq> None" using assms(2) by (auto simp: ss_watching_def)
  obtain el where el: "delete_io_event (e_L E) (ss_el ss) (Some p) = Inr el" "el_io el = (el_io (ss_el ss))(p := None)"
    using delete_io_event_ok [OF pc(4)] by blast
  obtain el' where "delete_io_event (e_L E) el (Some c) = Inr el'"
    using delete_io_event_ok [of el c] el(2) pc(3,5) by auto
  with el pc(1,2) assms(1) show ?thesis by (auto simp: ss_stop_def)
qed

lemma notify_new_conn_queue:
  assumes "lfq_rep (w_q_conn w) xs" "lfq_fresh a (w_q_conn w)"
  shows "\<exists>r w'. notify_new_conn E a fd w = Inr (r, w') \<and> lfq_rep (w_q_conn w') (xs @ [fd]) \<and>
    mb_pipe (w_mb w') = snd (notify_pipe (e_pw E) SignalingWorker_NEW_CONN (mb_pipe (w_mb w)))"
proof -
  obtain q where "produce a fd (w_q_conn w) = Inr q" "lfq_rep q (xs @ [fd])" using produce_rep [OF assms] by blast
  then show ?thesis
    by (auto simp: notify_new_conn_def w_notify_def SignalingWorker_notify_def split: prod.splits)
qed

lemma dispatch_conn_ok:
  assumes ready: "ss_ready ss" and k: "k = nat (ss_next_worker ss)" and n: "n = length (ss_workers ss)"
    and q: "lfq_rep (w_q_conn (ss_workers ss ! k)) xs" "lfq_fresh a (w_q_conn (ss_workers ss ! k))"
  shows "\<exists>w'. dispatch_conn E a fd ss =
      Inr (ss\<lparr>ss_next_worker := int (Suc k mod n), ss_workers := (ss_workers ss)[k := w']\<rparr>) \<and>
    lfq_rep (w_q_conn w') (xs @ [fd]) \<and>
    ss_ready (ss\<lparr>ss_next_worker := int (Suc k mod n), ss_workers := (ss_workers ss)[k := w']\<rparr>)"
proof -
  have b: "k < n" "ss_next_worker ss = int k" "n < 2147483648" using ready k n by (auto simp: ss_ready_def)
  obtain r w' where w': "notify_new_conn E a fd (ss_workers ss ! k) = Inr (r, w')" "lfq_rep (w_q_conn w') (xs @ [fd])"
    using notify_new_conn_queue [OF q] by blast
  have i: "i32 (int k + 1) = int k + 1" "usz (int k + 1) = int k + 1" using b by (simp_all add: i32_id usz_id)
  have nxt: "(if usz (i32 (int k + 1)) \<ge> int n then 0 else i32 (int k + 1)) = int (Suc k mod n)"
    unfolding i using b(1) by (cases "Suc k = n") auto
  have "dispatch_conn E a fd ss =
      Inr (ss\<lparr>ss_next_worker := int (Suc k mod n), ss_workers := (ss_workers ss)[k := w']\<rparr>)"
    using b w'(1) nxt n by (simp add: dispatch_conn_def Let_def)
  moreover have "\<exists>ys. lfq_rep (w_q_conn v) ys" if "v \<in> set ((ss_workers ss)[k := w'])" for v
    using set_update_subset_insert [of "ss_workers ss" k w'] that w'(2) ready by (auto simp: ss_ready_def)
  moreover have "Suc k mod n < n" using b(1) by (intro mod_less_divisor) simp
  ultimately show ?thesis
    using w'(2) b n by (intro exI [of _ w']) (simp add: ss_ready_def)
qed

text \<open>Dealing out a sequence of connections, each with the address its queue node gets.\<close>

fun dispatch_all ::
  "('l, 'j) worker_env \<Rightarrow> (nat \<times> int) list \<Rightarrow> 'l signaling_server \<Rightarrow> 'l signaling_server res" where
  "dispatch_all E [] ss = Inr ss"
| "dispatch_all E ((a, fd) # cs) ss = res_bind (dispatch_conn E a fd ss) (dispatch_all E cs)"

fun addrs_ok :: "('l, 'j) worker_env \<Rightarrow> (nat \<times> int) list \<Rightarrow> 'l signaling_server \<Rightarrow> bool" where
  "addrs_ok E [] ss \<longleftrightarrow> True"
| "addrs_ok E ((a, fd) # cs) ss \<longleftrightarrow>
     lfq_fresh a (w_q_conn (ss_workers ss ! nat (ss_next_worker ss))) \<and>
     (case dispatch_conn E a fd ss of Inl e \<Rightarrow> True | Inr ss' \<Rightarrow> addrs_ok E cs ss')"

text \<open>The connections of a sequence that are worker \<open>j\<close>'s turn, when dealing starts at \<open>k\<close> of \<open>n\<close>.\<close>

definition dealt :: "nat \<Rightarrow> nat \<Rightarrow> nat \<Rightarrow> int list \<Rightarrow> int list" where
  "dealt n k j fds = map ((!) fds) (filter (\<lambda>i. (k + i) mod n = j) [0..<length fds])"

lemma dealt_Cons:
  assumes "k < n"
  shows "dealt n k j (fd # fds) = (if k = j then [fd] else []) @ dealt n (Suc k mod n) j fds"
proof -
  have up: "[0..<length (fd # fds)] = 0 # map Suc [0..<length fds]"
    unfolding map_Suc_upt by (simp add: upt_rec [of 0] del: upt_Suc)
  have "(k + Suc i) mod n = (Suc k mod n + i) mod n" for i by (simp add: mod_add_left_eq)
  then have "map ((!) (fd # fds)) (filter (\<lambda>i. (k + i) mod n = j) (map Suc [0..<length fds])) =
      dealt n (Suc k mod n) j fds"
    by (simp add: dealt_def filter_map comp_def)
  then show ?thesis unfolding dealt_def [of n k] up using assms by auto
qed

lemma dispatch_all_ok:
  assumes "ss_ready ss" "addrs_ok E cs ss" "\<And>j. j < length (ss_workers ss) \<Longrightarrow> lfq_rep (w_q_conn (ss_workers ss ! j)) (qs j)"
  shows "\<exists>ss'. dispatch_all E cs ss = Inr ss' \<and> ss_ready ss' \<and> length (ss_workers ss') = length (ss_workers ss) \<and>
    (\<forall>j < length (ss_workers ss). lfq_rep (w_q_conn (ss_workers ss' ! j))
       (qs j @ dealt (length (ss_workers ss)) (nat (ss_next_worker ss)) j (map snd cs)))"
  using assms
proof (induction cs arbitrary: ss qs)
  case Nil
  then show ?case by (simp add: dealt_def)
next
  case (Cons c cs)
  obtain a fd where c: "c = (a, fd)" by (cases c)
  let ?k = "nat (ss_next_worker ss)" and ?n = "length (ss_workers ss)"
  have k: "?k < ?n" using Cons.prems(1) by (auto simp: ss_ready_def)
  have fr: "lfq_fresh a (w_q_conn (ss_workers ss ! ?k))" using Cons.prems(2) c by simp
  obtain w' where w': "dispatch_conn E a fd ss =
      Inr (ss\<lparr>ss_next_worker := int (Suc ?k mod ?n), ss_workers := (ss_workers ss)[?k := w']\<rparr>)"
    "lfq_rep (w_q_conn w') (qs ?k @ [fd])"
    "ss_ready (ss\<lparr>ss_next_worker := int (Suc ?k mod ?n), ss_workers := (ss_workers ss)[?k := w']\<rparr>)"
    using dispatch_conn_ok [OF Cons.prems(1) refl refl Cons.prems(3) [OF k] fr] by blast
  let ?ss = "ss\<lparr>ss_next_worker := int (Suc ?k mod ?n), ss_workers := (ss_workers ss)[?k := w']\<rparr>"
  let ?qs = "qs(?k := qs ?k @ [fd])"
  have ad: "addrs_ok E cs ?ss" using Cons.prems(2) c w'(1) by simp
  have rep: "lfq_rep (w_q_conn (ss_workers ?ss ! j)) (?qs j)" if "j < length (ss_workers ?ss)" for j
    using that w'(2) Cons.prems(3) by (cases "j = ?k") simp_all
  obtain ss' where ss': "dispatch_all E cs ?ss = Inr ss'" "ss_ready ss'"
    "length (ss_workers ss') = length (ss_workers ?ss)"
    "\<forall>j < length (ss_workers ?ss). lfq_rep (w_q_conn (ss_workers ss' ! j))
       (?qs j @ dealt (length (ss_workers ?ss)) (nat (ss_next_worker ?ss)) j (map snd cs))"
    using Cons.IH [OF w'(3) ad, of ?qs] rep by blast
  have "?qs j @ dealt ?n (Suc ?k mod ?n) j (map snd cs) = qs j @ dealt ?n ?k j (map snd (c # cs))" for j
    using dealt_Cons [OF k] c by simp
  with ss' w'(1) c show ?case by simp
qed

section \<open>Properties\<close>

text \<open>C11: connections are dealt out in strict rotation: of any sequence of accepted connections, a worker
  receives exactly those whose turn is its own, in the order of acceptance, behind what was
  already in its queue; the next index stays in range.\<close>

theorem connections_dealt_round_robin:
  assumes "ss_ready ss" "addrs_ok E cs ss"
    "\<And>j. j < length (ss_workers ss) \<Longrightarrow> lfq_rep (w_q_conn (ss_workers ss ! j)) (qs j)"
  shows "\<exists>ss'. dispatch_all E cs ss = Inr ss' \<and> ss_ready ss' \<and> length (ss_workers ss') = length (ss_workers ss) \<and>
    (\<forall>j < length (ss_workers ss). lfq_rep (w_q_conn (ss_workers ss' ! j))
       (qs j @ map ((!) (map snd cs))
          (filter (\<lambda>i. (nat (ss_next_worker ss) + i) mod length (ss_workers ss) = j) [0..<length cs])))"
  using dispatch_all_ok [OF assms] by (simp add: dealt_def)

definition ex_acceptor :: "nat signaling_server" where
  "ex_acceptor = (SignalingServer_new 0 0 ex_conf)\<lparr>ss_workers :=
     [SignalingWorker_new 1 0 0 0 ex_conf, SignalingWorker_new 2 0 0 1 ex_conf]\<rparr>"

lemma ex_acceptor_ready:
  "ss_ready ex_acceptor" "length (ss_workers ex_acceptor) = 2"
  "j < 2 \<Longrightarrow> w_q_conn (ss_workers ex_acceptor ! j) = lfq_new 0 0"
  by (auto simp: ss_ready_def ex_acceptor_def SignalingServer_new_def SignalingWorker_new_def less_2_cases_iff
      intro: lfq_new_rep)

lemma connections_dealt_round_robin_witness:
  "\<exists>ss'. dispatch_all ex_env [(1, 7), (1, 8)] ex_acceptor = Inr ss' \<and>
     lfq_rep (w_q_conn (ss_workers ss' ! 0)) [7] \<and> lfq_rep (w_q_conn (ss_workers ss' ! 1)) [8]"
proof -
  have q: "lfq_rep (w_q_conn (ss_workers ex_acceptor ! j)) []" "lfq_fresh 1 (w_q_conn (ss_workers ex_acceptor ! j))"
    if "j < 2" for j using ex_acceptor_ready(3) [OF that] by (simp_all add: lfq_new_rep lfq_fresh_new)
  have nw: "nat (ss_next_worker ex_acceptor) = 0" by (simp add: ex_acceptor_def SignalingServer_new_def)
  obtain w' where "dispatch_conn ex_env 1 7 ex_acceptor =
      Inr (ex_acceptor\<lparr>ss_next_worker := 1, ss_workers := (ss_workers ex_acceptor)[0 := w']\<rparr>)"
    using dispatch_conn_ok [OF ex_acceptor_ready(1) refl refl, of "[]" 1 ex_env 7] q [of 0] nw ex_acceptor_ready(2)
    by auto
  then have "addrs_ok ex_env [(1, 7), (1, 8)] ex_acceptor"
    using q nw ex_acceptor_ready(2) by (auto simp: nth_list_update split: sum.splits)
  then obtain ss' where ss': "dispatch_all ex_env [(1, 7), (1, 8)] ex_acceptor = Inr ss'"
    "\<forall>j < length (ss_workers ex_acceptor). lfq_rep (w_q_conn (ss_workers ss' ! j))
       ([] @ map ((!) (map snd [(1 :: nat, 7), (1, 8)]))
          (filter (\<lambda>i. (nat (ss_next_worker ex_acceptor) + i) mod length (ss_workers ex_acceptor) = j)
             [0..<length [(1 :: nat, 7 :: int), (1, 8)]]))"
    using connections_dealt_round_robin [OF ex_acceptor_ready(1), of ex_env "[(1, 7), (1, 8)]" "\<lambda>_. []"] q
      ex_acceptor_ready(2) by metis
  have "[0..<length [(1 :: nat, 7 :: int), (1, 8)]] = [0, 1]" by simp
  with ss'(2) [rule_format, of 0] ss'(2) [rule_format, of 1] ss'(1) nw ex_acceptor_ready(2) show ?thesis by simp
qed

end
