(* ===== verification/Server_Main.thy ===== *)
theory Server_Main
  imports Log Rtc_Server Signaling_Server
begin

text \<open>
  The general configuration, \<open>src/xrtcserver/rtcserver/src/base/conf.cpp\<close>, and the program's
  \<open>main.cpp\<close>: the order in which the parts are brought up, what happens when one of them fails,
  and the signal handler that shuts the process down. The globals of \<open>main.cpp\<close> are the fields of
  \<open>process\<close>; what the libraries and the kernel answer during start-up is the record \<open>main_env\<close>.
\<close>

section \<open>The general configuration\<close>

record general_conf =
  gc_log_dir :: string
  gc_log_level :: string
  gc_log_name :: string
  gc_log_to_stderr :: bool

text \<open>\<open>new GeneralConf()\<close> value-initialises the object.\<close>

definition GeneralConf_new :: general_conf where
  "GeneralConf_new = \<lparr>gc_log_dir = [], gc_log_level = [], gc_log_name = [], gc_log_to_stderr = False\<rparr>"

text \<open>The entries below \<open>log\<close> in the file; \<open>None\<close> where reading the entry throws.\<close>

record general_yaml =
  gy_log_dir :: "string option"
  gy_log_name :: "string option"
  gy_log_level :: "string option"
  gy_log_to_stderr :: "bool option"

definition Load_Genaral_Conf ::
  "(byte list \<Rightarrow> general_yaml option) \<Rightarrow> byte list \<Rightarrow> general_conf \<Rightarrow> int \<times> general_conf" where
  "Load_Genaral_Conf load conf_file conf =
     (if conf_file = [] \<or> length conf_file > 1024 then (-1, conf)
      else case load conf_file of
        None \<Rightarrow> (-1, conf)
      | Some y \<Rightarrow>
          (case gy_log_dir y of None \<Rightarrow> (-1, conf) | Some d \<Rightarrow>
           let conf = conf\<lparr>gc_log_dir := d\<rparr>
           in case gy_log_name y of None \<Rightarrow> (-1, conf) | Some n \<Rightarrow>
           let conf = conf\<lparr>gc_log_name := n\<rparr>
           in case gy_log_level y of None \<Rightarrow> (-1, conf) | Some l \<Rightarrow>
           let conf = conf\<lparr>gc_log_level := l\<rparr>
           in case gy_log_to_stderr y of None \<Rightarrow> (-1, conf) | Some e \<Rightarrow> (0, conf\<lparr>gc_log_to_stderr := e\<rparr>)))"

section \<open>The process\<close>

record 'l process =
  g_conf :: "general_conf option"
  g_log :: "xrtc_log option"
  g_signaling_server :: "'l signaling_server option"
  g_rtc_server :: "'l rtc_server option"
  p_stderr :: bool
  p_handlers :: bool

definition process_new :: "'l process" where
  "process_new = \<lparr>g_conf = None, g_log = None, g_signaling_server = None, g_rtc_server = None,
     p_stderr = False, p_handlers = False\<rparr>"

record ('l, 'j) main_env =
  me_general :: "byte list \<Rightarrow> general_yaml option"
  me_mkdir :: "unit sysret"
  me_open_out :: "byte list option"
  me_open_err :: "byte list option"
  me_E :: "('l, 'j) worker_env"
  me_ss :: "nat \<times> 'l \<times> signaling_server_conf"
  me_ss_load :: "byte list \<Rightarrow> conf_yaml option"
  me_ss_pipe :: "(int \<times> int) sysret"
  me_listen :: listen_env
  me_ss_res :: "nat \<Rightarrow> 'l sw_res"
  me_rs :: "nat \<times> 'l"
  me_rs_load :: "byte list \<Rightarrow> int option"
  me_rs_pipe :: "(int \<times> int) sysret"
  me_rs_res :: "nat \<Rightarrow> 'l rw_res"

definition path_bytes :: "string \<Rightarrow> byte list" where
  "path_bytes s = map (word_of_nat \<circ> of_char) s"

definition InitGeneralConf :: "('l, 'j) main_env \<Rightarrow> byte list \<Rightarrow> 'l process \<Rightarrow> int \<times> 'l process" where
  "InitGeneralConf M conf_file P =
     (if conf_file = [] then (-1, P)
      else let (r, conf) = Load_Genaral_Conf (me_general M) conf_file GeneralConf_new; P = P\<lparr>g_conf := Some conf\<rparr>
           in if r \<noteq> 0 then (-1, P) else (0, P))"

text \<open>\<open>log_thread\<close> is started when \<open>InitLog\<close> of the sink succeeds; its result is not used.\<close>

definition main_InitLog :: "('l, 'j) main_env \<Rightarrow> string \<Rightarrow> string \<Rightarrow> string \<Rightarrow> 'l process \<Rightarrow> int \<times> 'l process" where
  "main_InitLog M log_dir log_level log_name P =
     (let (r, sev, lg) = InitLog (me_mkdir M) (me_open_out M) (me_open_err M) (XrtcLog_new log_dir log_level log_name)
      in if r \<noteq> 0 then (-1, P\<lparr>g_log := Some lg\<rparr>)
         else (0, P\<lparr>g_log := Some (snd (start_log_thread lg))\<rparr>))"

definition InitSignalingServer :: "('l, 'j) main_env \<Rightarrow> byte list \<Rightarrow> 'l process \<Rightarrow> (int \<times> 'l process) res" where
  "InitSignalingServer M conf_file P =
     (let (this, l, garbage) = me_ss M; ss = SignalingServer_new this l garbage
      in res_bind (SignalingServer_Init (me_E M) (me_ss_load M) (me_ss_pipe M) (me_listen M) (me_ss_res M) conf_file ss)
           (\<lambda>(r, ss). let P = P\<lparr>g_signaling_server := Some ss\<rparr> in Inr (if r \<noteq> 0 then (-1, P) else (0, P))))"

definition InitRtcServer :: "('l, 'j) main_env \<Rightarrow> byte list \<Rightarrow> 'l process \<Rightarrow> (int \<times> 'l process) res" where
  "InitRtcServer M conf_file P =
     (let (this, l) = me_rs M; rs = RtcServer_new this l
      in res_bind (RtcServer_Init (e_L (me_E M)) (me_rs_load M) (me_rs_pipe M) (me_rs_res M) conf_file rs)
           (\<lambda>(r, rs). let P = P\<lparr>g_rtc_server := Some rs\<rparr> in Inr (if r \<noteq> 0 then (-1, P) else (0, P))))"



text \<open>\<open>main\<close> either returns with a code, or it has started both servers and waits in \<open>join\<close>.\<close>

datatype main_state = Returned int | Joining

definition server_main :: "('l, 'j) main_env \<Rightarrow> (main_state \<times> 'l process) res" where
  "server_main M =
     (let (r, P) = InitGeneralConf M (path_bytes ''../conf/general.yaml'') process_new
      in if r \<noteq> 0 then Inr (Returned (-1), P)
         else case g_conf P of
           None \<Rightarrow> Inl Null_deref
         | Some conf \<Rightarrow>
             let (r, P) = main_InitLog M (gc_log_dir conf) (gc_log_level conf) (gc_log_name conf) P
             in if r \<noteq> 0 then Inr (Returned (-1), P)
                else
                  let P = P\<lparr>p_stderr := gc_log_to_stderr conf\<rparr>
                  in res_bind (InitSignalingServer M (path_bytes ''../conf/signaling_server.yaml'') P) (\<lambda>(r, P).
                       if r \<noteq> 0 then Inr (Returned (-1), P)
                       else res_bind (InitRtcServer M (path_bytes ''../conf/rtc_server.yaml'') P) (\<lambda>(r, P).
                         if r \<noteq> 0 then Inr (Returned (-1), P)
                         else Inr (Joining, P\<lparr>p_handlers := True,
                                g_signaling_server := map_option (snd \<circ> SignalingServer_start) (g_signaling_server P),
                                g_rtc_server := map_option (snd \<circ> RtcServer_start) (g_rtc_server P)\<rparr>))))"

section \<open>Lemmas\<close>

text \<open>Surroundings in which every step of the start-up succeeds.\<close>

definition boots :: "('l, 'j) main_env \<Rightarrow> signaling_server_conf \<Rightarrow> int \<Rightarrow> int \<Rightarrow> bool" where
  "boots M opts lfd n \<longleftrightarrow> libev_ok (e_L (me_E M)) \<and>
     fst (Load_Genaral_Conf (me_general M) (path_bytes ''../conf/general.yaml'') GeneralConf_new) = 0 \<and>
     (me_mkdir M = Ok () \<or> me_mkdir M = Fail EEXIST) \<and> me_open_out M \<noteq> None \<and> me_open_err M \<noteq> None \<and>
     (\<exists>y. me_ss_load M (path_bytes ''../conf/signaling_server.yaml'') = Some y \<and>
          read_conf y (snd (snd (me_ss M))) = (True, opts)) \<and>
     (\<exists>f0 f1. me_ss_pipe M = Ok (f0, f1)) \<and> (\<forall>i < nat (sc_worker_num opts). \<exists>f0 f1. sr_pipe (me_ss_res M i) = Ok (f0, f1)) \<and>
     fst (create_tcp_server (me_listen M) (sc_host opts) (sc_port opts) []) = lfd \<and> 0 \<le> lfd \<and>
     me_rs_load M (path_bytes ''../conf/rtc_server.yaml'') = Some n \<and> 0 < n \<and> n < 2147483648 \<and>
     (\<exists>f0 f1. me_rs_pipe M = Ok (f0, f1)) \<and> (\<forall>i < nat n. \<exists>f0 f1. rr_pipe (me_rs_res M i) = Ok (f0, f1))"

lemma path_bytes_nonempty [simp]: "path_bytes s = [] \<longleftrightarrow> s = []"
  by (simp add: path_bytes_def)

lemma main_InitLog_ok:
  assumes "me_mkdir M = Ok () \<or> me_mkdir M = Fail EEXIST" "me_open_out M \<noteq> None" "me_open_err M \<noteq> None"
  shows "\<exists>lg. main_InitLog M d lv nm P = (0, P\<lparr>g_log := Some lg\<rparr>) \<and> lg_running lg \<and> ofs_open (lg_out lg) \<and> ofs_open (lg_err lg)"
  using assms by (auto simp: main_InitLog_def InitLog_def start_log_thread_def XrtcLog_new_def ofs_reopen_def Let_def)

lemma InitSignalingServer_ok:
  assumes "boots M opts lfd n"
  shows "\<exists>ss. InitSignalingServer M (path_bytes ''../conf/signaling_server.yaml'') P =
      Inr (0, P\<lparr>g_signaling_server := Some ss\<rparr>) \<and> ss_watching ss \<and> ss_listen_fd ss = lfd \<and> ss_pipe ss = [] \<and>
    ss_next_worker ss = 0 \<and> \<not> ss_thread ss \<and> map w_id (ss_workers ss) = map int [0..<nat (sc_worker_num opts)] \<and>
    (\<forall>w \<in> set (ss_workers ss). w_options w = opts \<and> idle_worker w)"
proof -
  obtain this l garbage where m: "me_ss M = (this, l, garbage)" by (cases "me_ss M") auto
  obtain y f0 f1 where y: "me_ss_load M (path_bytes ''../conf/signaling_server.yaml'') = Some y"
    "read_conf y garbage = (True, opts)" and p: "me_ss_pipe M = Ok (f0, f1)"
    using assms m by (auto simp: boots_def)
  obtain fds where le: "create_tcp_server (me_listen M) (sc_host opts) (sc_port opts) [] = (lfd, fds)"
    using assms by (metis boots_def prod.collapse)
  have "libev_ok (e_L (me_E M))" "0 \<le> lfd"
    "\<And>i. i < nat (sc_worker_num opts) \<Longrightarrow> \<exists>f0 f1. sr_pipe (me_ss_res M i) = Ok (f0, f1)"
    using assms by (auto simp: boots_def)
  from SignalingServer_Init_ok [where sr = "me_ss_res M" and load = "me_ss_load M" and E = "me_E M" and this = this
      and l = l, OF this(1) _ y p this(3) le this(2)] m
  show ?thesis by (auto simp: InitSignalingServer_def)
qed

lemma InitRtcServer_ok:
  assumes "boots M opts lfd n"
  shows "\<exists>rs. InitRtcServer M (path_bytes ''../conf/rtc_server.yaml'') P = Inr (0, P\<lparr>g_rtc_server := Some rs\<rparr>) \<and>
    rs_ready rs \<and> rs_watching rs \<and> rs_mb rs = \<lparr>mb_q = [], mb_pipe = []\<rparr> \<and> \<not> rs_thread rs \<and>
    map rw_id (rs_workers rs) = map int [0..<nat n] \<and>
    (\<forall>rw \<in> set (rs_workers rs). rw_thread rw \<and> rw_holds rw [] \<and> rw_pipe rw = [])"
proof -
  obtain this l where m: "me_rs M = (this, l)" by (cases "me_rs M") auto
  obtain f0 f1 where p: "me_rs_pipe M = Ok (f0, f1)" using assms by (auto simp: boots_def)
  have "libev_ok (e_L (me_E M))" "me_rs_load M (path_bytes ''../conf/rtc_server.yaml'') = Some n" "0 < n" "n < 2147483648"
    "\<And>i. i < nat n \<Longrightarrow> \<exists>f0 f1. rr_pipe (me_rs_res M i) = Ok (f0, f1)"
    using assms by (auto simp: boots_def)
  from RtcServer_Init_ok [where rr = "me_rs_res M" and load = "me_rs_load M"
      and conf_file = "path_bytes ''../conf/rtc_server.yaml''" and this = this and l = l, OF this(1-4) p this(5)] m
  show ?thesis by (auto simp: InitRtcServer_def)
qed

text \<open>No \<open>Init\<close> starts the thread of its server.\<close>

lemma create_worker_thread: "create_worker E sr i ss = Inr (r, ss') \<Longrightarrow> ss_thread ss' = ss_thread ss"
  by (auto simp: create_worker_def Let_def res_bind_Inr_iff split_beta split: if_splits)

lemma create_rtc_worker_thread: "create_rtc_worker L rr i rs = Inr (r, rs') \<Longrightarrow> rs_thread rs' = rs_thread rs"
  by (auto simp: create_rtc_worker_def Let_def res_bind_Inr_iff split_beta split: if_splits)

lemma create_workers_thread:
  "create_workers E sr is ss = Inr (r, ss') \<Longrightarrow> ss_thread ss' = ss_thread ss"
proof (induction "is" arbitrary: ss)
  case (Cons i "is")
  from Cons.prems obtain c s1 where
    c: "create_worker E (sr i) (int i) ss = Inr (c, s1)" "ss' = s1 \<or> create_workers E sr is s1 = Inr (r, ss')"
    by (auto simp: res_bind_Inr_iff split: if_splits)
  from create_worker_thread [OF c(1)] c(2) Cons.IH [of s1] show ?case by auto
qed simp

lemma create_rtc_workers_thread:
  "create_rtc_workers L rr is rs = Inr (r, rs') \<Longrightarrow> rs_thread rs' = rs_thread rs"
proof (induction "is" arbitrary: rs)
  case (Cons i "is")
  from Cons.prems obtain c s1 where
    c: "create_rtc_worker L (rr i) (int i) rs = Inr (c, s1)" "rs' = s1 \<or> create_rtc_workers L rr is s1 = Inr (r, rs')"
    by (auto simp: res_bind_Inr_iff split: if_splits)
  from create_rtc_worker_thread [OF c(1)] c(2) Cons.IH [of s1] show ?case by auto
qed simp

lemma SignalingServer_Init_thread:
  "SignalingServer_Init E load p le sr f ss = Inr (r, ss') \<Longrightarrow> ss_thread ss' = ss_thread ss"
  by (auto simp: SignalingServer_Init_def Let_def res_bind_Inr_iff split_beta split: if_splits option.splits sysret.splits
      dest!: create_workers_thread)

lemma RtcServer_Init_thread:
  "RtcServer_Init L load p rr f rs = Inr (r, rs') \<Longrightarrow> rs_thread rs' = rs_thread rs"
  by (auto simp: RtcServer_Init_def Let_def res_bind_Inr_iff split: if_splits prod.splits option.splits sysret.splits
      dest!: create_rtc_workers_thread)

lemma InitGeneralConf_conf:
  "InitGeneralConf M f P = (0, P') \<Longrightarrow> \<exists>conf. P' = P\<lparr>g_conf := Some conf\<rparr>"
  by (auto simp: InitGeneralConf_def Let_def split: if_splits prod.splits)

lemma InitGeneralConf_ok:
  assumes "f \<noteq> []" "fst (Load_Genaral_Conf (me_general M) f GeneralConf_new) = 0"
  shows "\<exists>P'. InitGeneralConf M f P = (0, P')"
  using assms by (simp add: InitGeneralConf_def split_beta)

section \<open>Properties\<close>

text \<open>C13: when the configuration can be read and the kernel grants what the start-up asks for, \<open>main\<close> reaches its
  \<open>join\<close> with the log thread running, the signal handlers installed and both servers started: the
  acceptor listens on the configured address and has the configured number of idle signalling workers,
  numbered from zero, and the dispatcher has the configured number of idle media workers, which must be positive.\<close>

theorem startup_serves:
  assumes "boots M opts lfd n"
  shows "\<exists>P ss rs lg. server_main M = Inr (Joining, P) \<and> p_handlers P \<and> g_log P = Some lg \<and> lg_running lg \<and>
    g_signaling_server P = Some ss \<and> ss_thread ss \<and> ss_watching ss \<and> ss_listen_fd ss = lfd \<and> ss_pipe ss = [] \<and>
    map w_id (ss_workers ss) = map int [0..<nat (sc_worker_num opts)] \<and>
    (\<forall>w \<in> set (ss_workers ss). w_options w = opts \<and> idle_worker w) \<and>
    g_rtc_server P = Some rs \<and> rs_thread rs \<and> rs_watching rs \<and> rs_ready rs \<and>
    rs_mb rs = \<lparr>mb_q = [], mb_pipe = []\<rparr> \<and> map rw_id (rs_workers rs) = map int [0..<nat n] \<and>
    (\<forall>rw \<in> set (rs_workers rs). rw_thread rw \<and> rw_holds rw [])"
proof -
  obtain P1 where P1: "InitGeneralConf M (path_bytes ''../conf/general.yaml'') process_new = (0, P1)"
    using InitGeneralConf_ok [of "path_bytes ''../conf/general.yaml''" M process_new] assms by (auto simp: boots_def)
  then obtain conf where conf: "g_conf P1 = Some conf" using InitGeneralConf_conf [OF P1] by auto
  obtain lg where lg: "main_InitLog M (gc_log_dir conf) (gc_log_level conf) (gc_log_name conf) P1 =
      (0, P1\<lparr>g_log := Some lg\<rparr>)" "lg_running lg"
    using main_InitLog_ok [of M] assms unfolding boots_def by metis
  let ?P2 = "P1\<lparr>g_log := Some lg, p_stderr := gc_log_to_stderr conf\<rparr>"
  obtain ss where ss: "InitSignalingServer M (path_bytes ''../conf/signaling_server.yaml'') ?P2 =
      Inr (0, ?P2\<lparr>g_signaling_server := Some ss\<rparr>)" "ss_watching ss" "ss_listen_fd ss = lfd" "ss_pipe ss = []"
    "\<not> ss_thread ss" "map w_id (ss_workers ss) = map int [0..<nat (sc_worker_num opts)]"
    "\<forall>w \<in> set (ss_workers ss). w_options w = opts \<and> idle_worker w"
    using InitSignalingServer_ok [OF assms] by blast
  let ?P3 = "?P2\<lparr>g_signaling_server := Some ss\<rparr>"
  obtain rs where rs: "InitRtcServer M (path_bytes ''../conf/rtc_server.yaml'') ?P3 = Inr (0, ?P3\<lparr>g_rtc_server := Some rs\<rparr>)"
    "rs_ready rs" "rs_watching rs" "rs_mb rs = \<lparr>mb_q = [], mb_pipe = []\<rparr>" "\<not> rs_thread rs"
    "map rw_id (rs_workers rs) = map int [0..<nat n]" "\<forall>rw \<in> set (rs_workers rs). rw_thread rw \<and> rw_holds rw []"
    using InitRtcServer_ok [OF assms] by blast
  show ?thesis
    using P1 conf lg ss rs
    by (simp add: server_main_def SignalingServer_start_def RtcServer_start_def ss_watching_def rs_watching_def rs_ready_def)
qed

definition ex_main :: "(nat, byte list) main_env" where
  "ex_main =
     \<lparr>me_general = (\<lambda>_. Some \<lparr>gy_log_dir = Some ''log'', gy_log_name = Some ''xrtc'', gy_log_level = Some ''INFO'',
        gy_log_to_stderr = Some True\<rparr>),
      me_mkdir = Fail EEXIST, me_open_out = Some [], me_open_err = Some [], me_E = ex_env, me_ss = (1, 0, ex_conf),
      me_ss_load = (\<lambda>_. Some \<lparr>y_host = Some [], y_port = Some 9000, y_worker_num = Some 2,
        y_connection_timeout = Some 5000000\<rparr>),
      me_ss_pipe = Ok (3, 4), me_listen = \<lparr>le_socket = Ok 5, le_setsockopt = Ok (), le_aton = (\<lambda>_. None),
        le_bind = (\<lambda>_. Ok ()), le_listen = Ok ()\<rparr>,
      me_ss_res = (\<lambda>i. \<lparr>sr_this = 2 + i, sr_loop = 0, sr_dummy = 0, sr_pipe = Ok (6, 7)\<rparr>),
      me_rs = (9, 0), me_rs_load = (\<lambda>_. Some 2), me_rs_pipe = Ok (8, 9), me_rs_res = ex_rr\<rparr>"

lemma startup_serves_witness:
  "\<exists>P ss rs. boots ex_main ex_conf 5 2 \<and> server_main ex_main = Inr (Joining, P) \<and> g_signaling_server P = Some ss \<and>
     length (ss_workers ss) = 2 \<and> g_rtc_server P = Some rs \<and> length (rs_workers rs) = 2"
proof -
  have b: "boots ex_main ex_conf 5 2"
    using ex_libev_ok by (simp add: boots_def ex_main_def ex_env_def ex_conf_def ex_rr_def Load_Genaral_Conf_def read_conf_def
        create_tcp_server_def path_bytes_def)
  from startup_serves [OF b] obtain P ss rs where
    P: "server_main ex_main = Inr (Joining, P)" "g_signaling_server P = Some ss" "g_rtc_server P = Some rs" and
    ids: "map w_id (ss_workers ss) = map int [0..<nat (sc_worker_num ex_conf)]" "map rw_id (rs_workers rs) = map int [0..<nat 2]"
    by blast
  have "length (ss_workers ss) = 2" "length (rs_workers rs) = 2"
    using arg_cong [OF ids(1), of length] arg_cong [OF ids(2), of length] by (simp_all add: ex_conf_def)
  with b P show ?thesis by blast
qed

text \<open>
  When a step of the start-up fails: the general configuration cannot be read, the log directory
  cannot be made or a log file not opened, or the \<open>Init\<close> of a server fails.
\<close>

definition startup_fails :: "('l, 'j) main_env \<Rightarrow> bool" where
  "startup_fails M \<longleftrightarrow>
     fst (Load_Genaral_Conf (me_general M) (path_bytes ''../conf/general.yaml'') GeneralConf_new) \<noteq> 0 \<or>
     \<not> (me_mkdir M = Ok () \<or> me_mkdir M = Fail EEXIST) \<or> me_open_out M = None \<or> me_open_err M = None \<or>
     ss_init_fails (me_ss_load M) (me_ss_pipe M) (me_listen M) (me_ss_res M)
       (path_bytes ''../conf/signaling_server.yaml'') (snd (snd (me_ss M))) \<or>
     rs_init_fails (me_rs_load M) (me_rs_pipe M) (me_rs_res M) (path_bytes ''../conf/rtc_server.yaml'')"

text \<open>A process in which \<open>main\<close> has not got beyond the initialisation.\<close>

definition not_serving :: "'l process \<Rightarrow> bool" where
  "not_serving P \<longleftrightarrow> \<not> p_handlers P \<and> (\<forall>ss. g_signaling_server P = Some ss \<longrightarrow> \<not> ss_thread ss) \<and>
     (\<forall>rs. g_rtc_server P = Some rs \<longrightarrow> \<not> rs_thread rs)"

lemma InitGeneralConf_result:
  "\<exists>r P. InitGeneralConf M (path_bytes ''../conf/general.yaml'') process_new = (r, P) \<and>
     (r = 0 \<longleftrightarrow> fst (Load_Genaral_Conf (me_general M) (path_bytes ''../conf/general.yaml'') GeneralConf_new) = 0) \<and>
     g_conf P \<noteq> None \<and> g_signaling_server P = None \<and> g_rtc_server P = None \<and> \<not> p_handlers P"
  by (simp add: InitGeneralConf_def process_new_def Let_def split_beta)

lemma main_InitLog_result:
  "\<exists>r lg. main_InitLog M d lv nm P = (r, P\<lparr>g_log := Some lg\<rparr>) \<and>
     (r = 0 \<longleftrightarrow> (me_mkdir M = Ok () \<or> me_mkdir M = Fail EEXIST) \<and> me_open_out M \<noteq> None \<and> me_open_err M \<noteq> None)"
  by (auto simp: main_InitLog_def InitLog_def XrtcLog_new_def ofstream_new_def ofs_reopen_def Let_def split_beta
      split: sysret.splits option.splits)

lemma InitSignalingServer_result:
  assumes "libev_ok (e_L (me_E M))"
  shows "\<exists>r ss. InitSignalingServer M f P = Inr (r, P\<lparr>g_signaling_server := Some ss\<rparr>) \<and> \<not> ss_thread ss \<and>
    (r \<noteq> 0 \<longleftrightarrow> ss_init_fails (me_ss_load M) (me_ss_pipe M) (me_listen M) (me_ss_res M) f (snd (snd (me_ss M))))"
proof -
  obtain this l garbage where m: "me_ss M = (this, l, garbage)" by (cases "me_ss M") auto
  obtain r ss where i: "SignalingServer_Init (me_E M) (me_ss_load M) (me_ss_pipe M) (me_listen M) (me_ss_res M) f
      (SignalingServer_new this l garbage) = Inr (r, ss)"
    "r \<noteq> 0 \<longleftrightarrow> ss_init_fails (me_ss_load M) (me_ss_pipe M) (me_listen M) (me_ss_res M) f garbage"
    using SignalingServer_Init_result [OF assms] by blast
  have "\<not> ss_thread ss" using SignalingServer_Init_thread [OF i(1)] by (simp add: SignalingServer_new_def)
  with i m show ?thesis by (cases "r = 0") (auto simp: InitSignalingServer_def Let_def)
qed

lemma InitRtcServer_result:
  assumes "libev_ok (e_L (me_E M))"
  shows "\<exists>r rs. InitRtcServer M f P = Inr (r, P\<lparr>g_rtc_server := Some rs\<rparr>) \<and> \<not> rs_thread rs \<and>
    (r \<noteq> 0 \<longleftrightarrow> rs_init_fails (me_rs_load M) (me_rs_pipe M) (me_rs_res M) f)"
proof -
  obtain this l where m: "me_rs M = (this, l)" by (cases "me_rs M") auto
  obtain r rs where i: "RtcServer_Init (e_L (me_E M)) (me_rs_load M) (me_rs_pipe M) (me_rs_res M) f (RtcServer_new this l) =
      Inr (r, rs)" "r \<noteq> 0 \<longleftrightarrow> rs_init_fails (me_rs_load M) (me_rs_pipe M) (me_rs_res M) f"
    using RtcServer_Init_result [OF assms] by blast
  have "\<not> rs_thread rs" using RtcServer_Init_thread [OF i(1)] by (simp add: RtcServer_new_def)
  with i m show ?thesis by (cases "r = 0") (auto simp: InitRtcServer_def Let_def)
qed

text \<open>C39: with an event library that keeps its contract, \<open>main\<close> returns \<open>-1\<close> exactly when a step of the
  start-up fails: the general configuration, the log directory or a log file, the signalling server's
  configuration, pipe, listening socket or one of its workers' pipes, the media server's configuration, pipe or
  one of its workers' pipes. No signal handler is installed then and the thread of neither server
  is started (workers that were created before the failure do run). Otherwise both servers are started and \<open>main\<close> waits.\<close>

theorem failed_startup_starts_nothing:
  assumes "libev_ok (e_L (me_E M))"
  shows "if startup_fails M
    then \<exists>P. server_main M = Inr (Returned (-1), P) \<and> not_serving P
    else \<exists>P ss rs. server_main M = Inr (Joining, P) \<and> p_handlers P \<and>
      g_signaling_server P = Some ss \<and> ss_thread ss \<and> g_rtc_server P = Some rs \<and> rs_thread rs"
proof -
  obtain r1 P1 where P1: "InitGeneralConf M (path_bytes ''../conf/general.yaml'') process_new = (r1, P1)"
    "r1 = 0 \<longleftrightarrow> fst (Load_Genaral_Conf (me_general M) (path_bytes ''../conf/general.yaml'') GeneralConf_new) = 0"
    "g_conf P1 \<noteq> None" "g_signaling_server P1 = None" "g_rtc_server P1 = None" "\<not> p_handlers P1"
    using InitGeneralConf_result [of M] by blast
  obtain conf where conf: "g_conf P1 = Some conf" using P1(3) by blast
  obtain r2 lg where lg: "main_InitLog M (gc_log_dir conf) (gc_log_level conf) (gc_log_name conf) P1 =
      (r2, P1\<lparr>g_log := Some lg\<rparr>)"
    "r2 = 0 \<longleftrightarrow> (me_mkdir M = Ok () \<or> me_mkdir M = Fail EEXIST) \<and> me_open_out M \<noteq> None \<and> me_open_err M \<noteq> None"
    using main_InitLog_result by blast
  let ?P2 = "P1\<lparr>g_log := Some lg, p_stderr := gc_log_to_stderr conf\<rparr>"
  obtain r3 ss where ss: "InitSignalingServer M (path_bytes ''../conf/signaling_server.yaml'') ?P2 =
      Inr (r3, ?P2\<lparr>g_signaling_server := Some ss\<rparr>)" "\<not> ss_thread ss"
    "r3 \<noteq> 0 \<longleftrightarrow> ss_init_fails (me_ss_load M) (me_ss_pipe M) (me_listen M) (me_ss_res M)
       (path_bytes ''../conf/signaling_server.yaml'') (snd (snd (me_ss M)))"
    using InitSignalingServer_result [OF assms] by blast
  let ?P3 = "?P2\<lparr>g_signaling_server := Some ss\<rparr>"
  obtain r4 rs where rs: "InitRtcServer M (path_bytes ''../conf/rtc_server.yaml'') ?P3 = Inr (r4, ?P3\<lparr>g_rtc_server := Some rs\<rparr>)"
    "\<not> rs_thread rs" "r4 \<noteq> 0 \<longleftrightarrow> rs_init_fails (me_rs_load M) (me_rs_pipe M) (me_rs_res M) (path_bytes ''../conf/rtc_server.yaml'')"
    using InitRtcServer_result [OF assms] by blast
  have f: "startup_fails M \<longleftrightarrow> \<not> (r1 = 0 \<and> r2 = 0 \<and> r3 = 0 \<and> r4 = 0)"
    unfolding startup_fails_def using P1(2) lg(2) ss(3) rs(3) by (simp del: not_None_eq)
  show ?thesis
    unfolding f using P1 conf lg(1) ss(1,2) rs(1,2)
    by (simp add: server_main_def not_serving_def SignalingServer_start_def RtcServer_start_def)
qed

lemma failed_startup_starts_nothing_witness:
  "(\<exists>P. server_main (ex_main\<lparr>me_rs_pipe := Fail 24\<rparr>) = Inr (Returned (-1), P) \<and> not_serving P) \<and>
   (\<exists>P. server_main ex_main = Inr (Joining, P) \<and> p_handlers P)"
proof -
  have L: "libev_ok (e_L (me_E ex_main))" "libev_ok (e_L (me_E (ex_main\<lparr>me_rs_pipe := Fail 24\<rparr>)))"
    using ex_libev_ok by (simp_all add: ex_main_def ex_env_def)
  have "startup_fails (ex_main\<lparr>me_rs_pipe := Fail 24\<rparr>)"
    by (simp add: startup_fails_def rs_init_fails_def ex_main_def)
  moreover have "\<not> startup_fails ex_main"
    by (simp add: startup_fails_def rs_init_fails_def ss_init_fails_def ex_main_def ex_rr_def Load_Genaral_Conf_def read_conf_def
        create_tcp_server_def path_bytes_def)
  ultimately show ?thesis
    using failed_startup_starts_nothing [OF L(1)] failed_startup_starts_nothing [OF L(2)] by auto
qed

section \<open>Shutting down\<close>















end
