(* ===== verification/Lfq_Concurrent.thy ===== *)
theory Lfq_Concurrent
  imports Lock_Free_Queue
begin

text \<open>
  The lock-free queue under its intended use, one producer thread and one consumer
  thread: the statements of \<open>produce\<close> and \<open>consume\<close> as single steps, interleaved in
  any order (under sequential consistency: the pointers of the C++ class are plain,
  so an order weaker than this is outside the language's guarantees). The invariant
  says which nodes each thread owns between its steps; from it follow that no step
  touches freed memory and that elements arrive in order.
\<close>

section \<open>Definitions\<close>

text \<open>Where the producer stands: the next statement of \<open>produce\<close>.\<close>

datatype ppc =
    PIdle  \<comment> \<open>not in \<open>produce\<close>; next \<open>tail_->next = new Node(t)\<close>\<close>
  | PTail  \<comment> \<open>next \<open>tail_ = tail_->next\<close>\<close>
  | PSize  \<comment> \<open>next \<open>++size_\<close>\<close>
  | PLoop  \<comment> \<open>next the test \<open>head_ != divider_\<close>\<close>
  | PFree  \<comment> \<open>next the body: advance \<open>head_\<close>, delete the old node\<close>

text \<open>Where the consumer stands: the next statement of \<open>consume\<close>.\<close>

datatype 'a cpc =
    CIdle     \<comment> \<open>next the test \<open>divider_ != tail_\<close>\<close>
  | CRead     \<comment> \<open>next \<open>*result = divider_->next->data\<close>\<close>
  | CAdv 'a   \<comment> \<open>next \<open>divider_ = divider_->next\<close>; holds \<open>*result\<close>\<close>
  | CDec      \<comment> \<open>next \<open>--size_\<close>\<close>

text \<open>\<open>sent\<close> and \<open>received\<close> record the elements linked in and taken out so far.\<close>

record 'a conc =
  cq :: "'a lfq"
  ppc :: ppc
  cpc :: "'a cpc"
  sent :: "'a list"
  received :: "'a list"

definition conc_init :: "nat \<Rightarrow> 'a \<Rightarrow> 'a conc" where
  "conc_init a dflt =
     \<lparr>cq = lfq_new a dflt, ppc = PIdle, cpc = CIdle, sent = [], received = []\<rparr>"

definition pstep :: "nat \<Rightarrow> 'a \<Rightarrow> 'a conc \<Rightarrow> 'a conc res" where
  "pstep a t s = (let q = cq s in
     case ppc s of
       PIdle \<Rightarrow>
         (let h = AList.update a \<lparr>node_data = t, node_next = None\<rparr> (lf_heap q)
          in res_bind (deref h (lf_tail q)) (\<lambda>n.
            Inr (s\<lparr>cq := q\<lparr>lf_heap := AList.update (the (lf_tail q)) (n\<lparr>node_next := Some a\<rparr>) h\<rparr>,
                   ppc := PTail, sent := sent s @ [t]\<rparr>)))
     | PTail \<Rightarrow>
         res_bind (deref (lf_heap q) (lf_tail q)) (\<lambda>n.
           Inr (s\<lparr>cq := q\<lparr>lf_tail := node_next n\<rparr>, ppc := PSize\<rparr>))
     | PSize \<Rightarrow> Inr (s\<lparr>cq := q\<lparr>lf_size := i32 (lf_size q + 1)\<rparr>, ppc := PLoop\<rparr>)
     | PLoop \<Rightarrow> Inr (s\<lparr>ppc := (if lf_head q \<noteq> lf_divider q then PFree else PIdle)\<rparr>)
     | PFree \<Rightarrow>
         res_bind (deref (lf_heap q) (lf_head q)) (\<lambda>n.
           Inr (s\<lparr>cq := q\<lparr>lf_heap := AList.delete (the (lf_head q)) (lf_heap q),
                           lf_head := node_next n\<rparr>, ppc := PLoop\<rparr>)))"

definition cstep :: "'a conc \<Rightarrow> 'a conc res" where
  "cstep s = (let q = cq s in
     case cpc s of
       CIdle \<Rightarrow> Inr (s\<lparr>cpc := (if lf_divider q \<noteq> lf_tail q then CRead else CIdle)\<rparr>)
     | CRead \<Rightarrow>
         res_bind (deref (lf_heap q) (lf_divider q)) (\<lambda>d.
         res_bind (deref (lf_heap q) (node_next d)) (\<lambda>n.
           Inr (s\<lparr>cpc := CAdv (node_data n)\<rparr>)))
     | CAdv x \<Rightarrow>
         res_bind (deref (lf_heap q) (lf_divider q)) (\<lambda>d.
           Inr (s\<lparr>cq := q\<lparr>lf_divider := node_next d\<rparr>, cpc := CDec,
                  received := received s @ [x]\<rparr>))
     | CDec \<Rightarrow> Inr (s\<lparr>cq := q\<lparr>lf_size := i32 (lf_size q - 1)\<rparr>, cpc := CIdle\<rparr>))"

text \<open>All interleavings. The address \<open>operator new\<close> returns is one that is not allocated.\<close>

inductive conc_reach :: "'a conc \<Rightarrow> bool" where
  conc_start: "conc_reach (conc_init a dflt)"
| conc_produce: "conc_reach s \<Longrightarrow> ppc s = PIdle \<longrightarrow> lfq_fresh a (cq s) \<Longrightarrow>
     pstep a t s = Inr s' \<Longrightarrow> conc_reach s'"
| conc_consume: "conc_reach s \<Longrightarrow> cstep s = Inr s' \<Longrightarrow> conc_reach s'"

section \<open>The invariant\<close>

definition pending_size :: "ppc \<Rightarrow> 'a cpc \<Rightarrow> int" where
  "pending_size p c =
     (if p = PTail \<or> p = PSize then -1 else 0) + (if c = CDec then 1 else 0)"

text \<open>The last node the consumer may see: before \<open>tail_\<close> moves, the new node is not yet visible.\<close>

definition visible :: "ppc \<Rightarrow> nat list \<Rightarrow> nat list" where
  "visible p ls = (if p = PTail then butlast ls else ls)"

definition conc_shape :: "'a conc \<Rightarrow> nat list \<Rightarrow> nat \<Rightarrow> nat list \<Rightarrow> bool" where
  "conc_shape s gs d ls \<longleftrightarrow>
     path (lf_heap (cq s)) (lf_head (cq s)) gs (lf_divider (cq s)) \<and>
     path (lf_heap (cq s)) (lf_divider (cq s)) (d # ls) None \<and>
     lf_tail (cq s) = Some (last (d # visible (ppc s) ls)) \<and>
     distinct (gs @ d # ls) \<and>
     distinct (map fst (lf_heap (cq s))) \<and>
     set (map fst (lf_heap (cq s))) = set (gs @ d # ls) \<and>
     (ppc s = PTail \<longrightarrow> ls \<noteq> []) \<and>
     (ppc s = PFree \<longrightarrow> gs \<noteq> []) \<and>
     (case cpc s of
        CRead \<Rightarrow> visible (ppc s) ls \<noteq> []
      | CAdv x \<Rightarrow> visible (ppc s) ls \<noteq> [] \<and> x = data_at (lf_heap (cq s)) (hd ls)
      | _ \<Rightarrow> True) \<and>
     lf_size (cq s) = i32 (int (length ls) + pending_size (ppc s) (cpc s)) \<and>
     sent s = received s @ map (data_at (lf_heap (cq s))) ls"

lemma conc_init_shape: "conc_shape (conc_init a dflt) [] a []"
  by (simp add: conc_shape_def conc_init_def lfq_new_def visible_def pending_size_def c_int_simps)

lemma visible_subset: "set (visible p ls) \<subseteq> set ls"
  by (auto simp: visible_def dest: in_set_butlastD)

lemma hd_visible: "visible p ls \<noteq> [] \<Longrightarrow> \<exists>l ls'. ls = l # ls'"
  by (cases ls) (auto simp: visible_def split: if_splits)

lemma path_hd: "path h p (a # as) q \<Longrightarrow> \<exists>n. p = Some a \<and> map_of h a = Some n \<and> path h (node_next n) as q"
  by (auto split: option.splits)

text \<open>The consumer's steps.\<close>

lemma cstep_CIdle:
  assumes "conc_shape s gs d ls" "cpc s = CIdle"
  shows "\<exists>s'. cstep s = Inr s' \<and> conc_shape s' gs d ls"
proof -
  let ?s = "s\<lparr>cpc := (if lf_divider (cq s) \<noteq> lf_tail (cq s) then CRead else CIdle)\<rparr>"
  have "visible (ppc s) ls \<noteq> []" if "lf_divider (cq s) \<noteq> lf_tail (cq s)"
    using that assms(1) by (auto simp: conc_shape_def)
  then have "conc_shape ?s gs d ls"
    using assms unfolding conc_shape_def
    by (cases "lf_divider (cq s) = lf_tail (cq s)")
       (auto simp add: pending_size_def simp del: path.simps(2) last.simps)
  then show ?thesis using assms(2) by (auto simp add: cstep_def Let_def)
qed

lemma cstep_CRead:
  assumes "conc_shape s gs d ls" "cpc s = CRead"
  shows "\<exists>s'. cstep s = Inr s' \<and> conc_shape s' gs d ls"
proof -
  from assms have vis: "visible (ppc s) ls \<noteq> []" by (simp add: conc_shape_def)
  then obtain l ls' where ls: "ls = l # ls'" using hd_visible by blast
  from assms(1) have p: "path (lf_heap (cq s)) (lf_divider (cq s)) (d # l # ls') None"
    unfolding conc_shape_def ls by blast
  then obtain m n where mn: "lf_divider (cq s) = Some d" "map_of (lf_heap (cq s)) d = Some m"
    "node_next m = Some l" "map_of (lf_heap (cq s)) l = Some n"
    by (auto split: option.splits)
  let ?s = "s\<lparr>cpc := CAdv (node_data n)\<rparr>"
  have "conc_shape ?s gs d ls"
    using assms vis mn ls unfolding conc_shape_def
    by (simp add: pending_size_def data_at_def)
  then show ?thesis using assms(2) mn by (simp add: cstep_def deref_def)
qed

lemma cstep_CAdv:
  assumes "conc_shape s gs d ls" "cpc s = CAdv x"
  shows "\<exists>s'. cstep s = Inr s' \<and> conc_shape s' (gs @ [d]) (hd ls) (tl ls)"
proof -
  from assms have vis: "visible (ppc s) ls \<noteq> []" by (simp add: conc_shape_def)
  then obtain l ls' where ls: "ls = l # ls'" using hd_visible by blast
  from assms(1) have p: "path (lf_heap (cq s)) (lf_divider (cq s)) (d # l # ls') None"
    unfolding conc_shape_def ls by blast
  then obtain m where m: "lf_divider (cq s) = Some d" "map_of (lf_heap (cq s)) d = Some m"
    "node_next m = Some l" "path (lf_heap (cq s)) (Some l) (l # ls') None"
    by (auto split: option.splits)
  let ?s = "s\<lparr>cq := (cq s)\<lparr>lf_divider := Some l\<rparr>, cpc := CDec, received := received s @ [x]\<rparr>"
  have "path (lf_heap (cq s)) (lf_head (cq s)) (gs @ [d]) (Some l)"
    using assms(1) m unfolding conc_shape_def path_append by auto
  moreover have "last (d # visible (ppc s) (l # ls')) = last (l # visible (ppc s) ls')"
    using vis by (auto simp: visible_def ls)
  moreover have "ppc s = PTail \<Longrightarrow> ls' \<noteq> []"
    using vis by (auto simp: visible_def ls)
  ultimately have "conc_shape ?s (gs @ [d]) l ls'"
    using assms m(4) unfolding conc_shape_def ls
    by (simp add: pending_size_def algebra_simps del: path.simps(2) last.simps)
  then show ?thesis using assms(2) m ls by (simp add: cstep_def deref_def)
qed

lemma cstep_CDec:
  assumes "conc_shape s gs d ls" "cpc s = CDec"
  shows "\<exists>s'. cstep s = Inr s' \<and> conc_shape s' gs d ls"
proof -
  have "i32 (lf_size (cq s) - 1) = i32 (int (length ls) + pending_size (ppc s) CIdle)"
    using assms i32_i32_add(1) [of "int (length ls) + pending_size (ppc s) CDec" "- 1"]
    by (simp add: conc_shape_def pending_size_def)
  then show ?thesis
    using assms unfolding cstep_def conc_shape_def by (simp del: path.simps(2))
qed

lemma cstep_shape:
  assumes "conc_shape s gs d ls"
  shows "\<exists>s' gs' d' ls'. cstep s = Inr s' \<and> conc_shape s' gs' d' ls'"
proof (cases "cpc s")
  case CIdle
  then show ?thesis using cstep_CIdle [OF assms] by blast
next
  case CRead
  then show ?thesis using cstep_CRead [OF assms] by blast
next
  case (CAdv x)
  then show ?thesis using cstep_CAdv [OF assms] by blast
next
  case CDec
  then show ?thesis using cstep_CDec [OF assms] by blast
qed

text \<open>The producer's steps.\<close>

lemma pstep_PIdle:
  assumes sh: "conc_shape s gs d ls" and pc: "ppc s = PIdle" and fresh: "lfq_fresh a (cq s)"
  shows "\<exists>s'. pstep a t s = Inr s' \<and> conc_shape s' gs d (ls @ [a])"
proof -
  let ?q = "cq s"
  obtain as b where dls: "d # ls = as @ [b]" by (metis append_butlast_last_id list.discI)
  have pl: "path (lf_heap ?q) (lf_divider ?q) (as @ [b]) None"
    using sh dls unfolding conc_shape_def by metis
  then obtain n where n: "map_of (lf_heap ?q) b = Some n"
    by (auto simp: path_append split: option.splits)
  let ?h = "AList.update b (n\<lparr>node_next := Some a\<rparr>)
    (AList.update a \<lparr>node_data = t, node_next = None\<rparr> (lf_heap ?q))"
  have fr: "a \<notin> set (gs @ as @ [b])"
    using sh fresh dls unfolding conc_shape_def lfq_fresh_def by metis
  have tl: "lf_tail ?q = Some b" using sh dls pc by (simp add: conc_shape_def visible_def)
  have d: "distinct (gs @ as @ [b])" using sh dls unfolding conc_shape_def by metis
  have dls': "d # ls @ [a] = as @ [b, a]" using dls by (simp flip: append_Cons)
  have live: "path ?h (lf_divider ?q) (d # ls @ [a]) None"
    unfolding dls' using pl d fr by (intro path_link) (auto simp: n)
  have garb: "path ?h (lf_head ?q) gs (lf_divider ?q)"
    using sh d fr by (auto simp: conc_shape_def path_update_other)
  have "set (map fst (lf_heap ?q)) = set (gs @ as @ [b])"
    using sh dls unfolding conc_shape_def by metis
  then have dom: "set (map fst ?h) = set (gs @ d # ls @ [a])"
    unfolding dls' dom_map_fst by (auto simp: update_conv dom_def split: if_splits)
  have data: "data_at ?h x = data_at (lf_heap ?q) x" if "x \<in> set (as @ [b])" for x
    using that fr n by (auto simp: data_at_def update_conv)
  have sub: "set ls \<subseteq> set (as @ [b])" by (metis dls set_subset_Cons)
  then have datas: "map (data_at ?h) ls = map (data_at (lf_heap ?q)) ls" using data by auto
  have hdd: "ls \<noteq> [] \<Longrightarrow> data_at ?h (hd ls) = data_at (lf_heap ?q) (hd ls)"
    using data sub by (metis hd_in_set subsetD)
  have dat: "data_at ?h a = t" using fr by (simp add: data_at_def update_conv)
  have dist: "distinct (gs @ d # ls @ [a])" unfolding dls' using d fr by auto
  have dk: "distinct (map fst ?h)" using sh by (simp add: conc_shape_def distinct_update)
  let ?s = "s\<lparr>cq := ?q\<lparr>lf_heap := ?h\<rparr>, ppc := PTail, sent := sent s @ [t]\<rparr>"
  have "pstep a t s = Inr ?s"
    using pc tl n fr by (simp add: pstep_def deref_def update_conv Let_def)
  moreover have "conc_shape ?s gs d (ls @ [a])"
    using sh pc live garb dom dist dk dat datas hdd unfolding conc_shape_def
    by (cases "cpc s") (simp_all add: visible_def pending_size_def add.commute del: path.simps(2))
  ultimately show ?thesis by blast
qed

lemma pstep_PTail:
  assumes sh: "conc_shape s gs d ls" and pc: "ppc s = PTail"
  shows "\<exists>s'. pstep a t s = Inr s' \<and> conc_shape s' gs d ls"
proof -
  obtain ls0 e where ls: "ls = ls0 @ [e]"
    using assms by (metis append_butlast_last_id conc_shape_def)
  obtain as b where dls: "d # ls0 = as @ [b]" by (metis append_butlast_last_id list.discI)
  have "path (lf_heap (cq s)) (lf_divider (cq s)) (as @ [b, e]) None"
    using sh ls dls unfolding conc_shape_def by (metis append.assoc append_Cons append_Nil)
  then obtain n where n: "map_of (lf_heap (cq s)) b = Some n" "node_next n = Some e"
    by (auto simp: path_append split: option.splits)
  have tl: "lf_tail (cq s) = Some b"
    using sh pc ls dls by (simp add: conc_shape_def visible_def)
  let ?s = "s\<lparr>cq := (cq s)\<lparr>lf_tail := Some e\<rparr>, ppc := PSize\<rparr>"
  have "pstep a t s = Inr ?s" using pc tl n by (simp add: pstep_def deref_def)
  moreover have "conc_shape ?s gs d ls"
    using sh pc ls unfolding conc_shape_def
    by (cases "cpc s") (auto simp: visible_def pending_size_def simp del: path.simps(2))
  ultimately show ?thesis by blast
qed

lemma pstep_PSize:
  assumes "conc_shape s gs d ls" "ppc s = PSize"
  shows "\<exists>s'. pstep a t s = Inr s' \<and> conc_shape s' gs d ls"
proof -
  have "i32 (lf_size (cq s) + 1) = i32 (int (length ls) + pending_size PLoop (cpc s))"
    using assms by (simp add: conc_shape_def pending_size_def algebra_simps)
  then have "conc_shape (s\<lparr>cq := (cq s)\<lparr>lf_size := i32 (lf_size (cq s) + 1)\<rparr>, ppc := PLoop\<rparr>) gs d ls"
    using assms unfolding conc_shape_def visible_def
    by (cases "cpc s") (simp_all del: path.simps(2))
  then show ?thesis using assms(2) by (simp add: pstep_def Let_def)
qed

lemma pstep_PLoop:
  assumes "conc_shape s gs d ls" "ppc s = PLoop"
  shows "\<exists>s'. pstep a t s = Inr s' \<and> conc_shape s' gs d ls"
proof -
  have "gs \<noteq> []" if "lf_head (cq s) \<noteq> lf_divider (cq s)"
    using that assms(1) by (auto simp: conc_shape_def)
  then have "conc_shape (s\<lparr>ppc := (if lf_head (cq s) \<noteq> lf_divider (cq s) then PFree else PIdle)\<rparr>) gs d ls"
    using assms unfolding conc_shape_def visible_def pending_size_def
    by (cases "lf_head (cq s) = lf_divider (cq s)"; cases "cpc s") (simp_all del: path.simps(2))
  then show ?thesis using assms(2) by (auto simp add: pstep_def Let_def)
qed

lemma pstep_PFree:
  assumes sh: "conc_shape s gs d ls" and pc: "ppc s = PFree"
  shows "\<exists>s'. pstep a t s = Inr s' \<and> conc_shape s' (tl gs) d ls"
proof -
  obtain g gs' where gs: "gs = g # gs'" using assms by (cases gs) (auto simp: conc_shape_def)
  have "path (lf_heap (cq s)) (lf_head (cq s)) (g # gs') (lf_divider (cq s))"
    using sh unfolding conc_shape_def gs by blast
  then obtain n where n: "lf_head (cq s) = Some g" "map_of (lf_heap (cq s)) g = Some n"
    "path (lf_heap (cq s)) (node_next n) gs' (lf_divider (cq s))"
    by (auto split: option.splits)
  have dist: "g \<notin> set gs'" "g \<noteq> d" "g \<notin> set ls" using sh gs by (auto simp: conc_shape_def)
  let ?h = "AList.delete g (lf_heap (cq s))"
  let ?s = "s\<lparr>cq := (cq s)\<lparr>lf_heap := ?h, lf_head := node_next n\<rparr>, ppc := PLoop\<rparr>"
  have "pstep a t s = Inr ?s" using pc n by (simp add: pstep_def deref_def Let_def)
  moreover have "path ?h (node_next n) gs' (lf_divider (cq s))"
    using n(3) dist by (simp add: path_delete_other)
  moreover have "path ?h (lf_divider (cq s)) (d # ls) None"
    using sh dist unfolding conc_shape_def by (simp add: path_delete_other del: path.simps(2))
  moreover have "set (map fst ?h) = set (gs' @ d # ls)" "distinct (map fst ?h)"
    using sh dist unfolding conc_shape_def gs by (auto simp: delete_keys distinct_removeAll)
  moreover have "map (data_at ?h) ls = map (data_at (lf_heap (cq s))) ls"
    "ls \<noteq> [] \<Longrightarrow> data_at ?h (hd ls) = data_at (lf_heap (cq s)) (hd ls)"
    using dist by (auto intro!: data_at_delete_other)
  ultimately have "pstep a t s = Inr ?s \<and> conc_shape ?s gs' d ls"
    using sh pc gs unfolding conc_shape_def
    by (cases "cpc s") (simp_all add: visible_def pending_size_def del: path.simps(2))
  with gs show ?thesis by auto
qed

lemma pstep_shape:
  assumes "conc_shape s gs d ls" "ppc s = PIdle \<longrightarrow> lfq_fresh a (cq s)"
  shows "\<exists>s' gs' d' ls'. pstep a t s = Inr s' \<and> conc_shape s' gs' d' ls'"
proof (cases "ppc s")
  case PIdle
  then show ?thesis using pstep_PIdle [OF assms(1)] assms(2) by blast
next
  case PTail
  then show ?thesis using pstep_PTail [OF assms(1)] by blast
next
  case PSize
  then show ?thesis using pstep_PSize [OF assms(1)] by blast
next
  case PLoop
  then show ?thesis using pstep_PLoop [OF assms(1)] by blast
next
  case PFree
  then show ?thesis using pstep_PFree [OF assms(1)] by blast
qed

lemma conc_reach_shape: "conc_reach s \<Longrightarrow> \<exists>gs d ls. conc_shape s gs d ls"
proof (induction rule: conc_reach.induct)
  case (conc_start a dflt)
  show ?case by (intro exI) (rule conc_init_shape)
next
  case (conc_produce s a t s')
  then show ?case using pstep_shape by (metis sum.inject(2))
next
  case (conc_consume s s')
  then show ?case using cstep_shape by (metis sum.inject(2))
qed

section \<open>Properties\<close>

text \<open>C3: with one producer and one consumer thread, in every state that any interleaving of their statements can
  reach, the next statement of either thread runs without a fault (no null or freed node is used), the elements
  received are a prefix of those sent, and when both threads are outside their operations the queue
  holds exactly the rest.\<close>

theorem lfq_interleavings_safe:
  assumes "conc_reach s"
  shows "(\<forall>a t. (ppc s = PIdle \<longrightarrow> lfq_fresh a (cq s)) \<longrightarrow> (\<exists>s'. pstep a t s = Inr s')) \<and> (\<exists>s'. cstep s = Inr s') \<and>
    (\<exists>rest. sent s = received s @ rest \<and> (ppc s = PIdle \<longrightarrow> cpc s = CIdle \<longrightarrow> lfq_rep (cq s) rest))"
proof -
  obtain gs d ls where sh: "conc_shape s gs d ls" using conc_reach_shape [OF assms] by blast
  have rest: "sent s = received s @ map (data_at (lf_heap (cq s))) ls"
    using sh unfolding conc_shape_def by blast
  have "lfq_rep (cq s) (map (data_at (lf_heap (cq s))) ls)" if "ppc s = PIdle" "cpc s = CIdle"
  proof -
    have "lfq_shape (cq s) gs d ls" "lf_size (cq s) = i32 (int (length ls))"
      using sh that unfolding conc_shape_def lfq_shape_def visible_def pending_size_def
      by (simp_all del: path.simps(2) last.simps)
    then show ?thesis unfolding lfq_rep_def by (metis length_map)
  qed
  with rest pstep_shape [OF sh] cstep_shape [OF sh] show ?thesis by blast
qed

lemma lfq_interleavings_safe_witness:
  "\<exists>s s1. pstep 1 (7::int) (conc_init 0 0) = Inr s \<and> ppc s = PTail \<and> cstep s = Inr s1 \<and> sent s = [7]"
proof -
  obtain s where s: "pstep 1 (7::int) (conc_init 0 0) = Inr s" "ppc s = PTail" "sent s = [7]"
    by (simp add: pstep_def conc_init_def lfq_new_def deref_def)
  have "conc_reach s"
    using conc_produce [OF conc_start [of 0 0] _ s(1)] by (simp add: conc_init_def lfq_fresh_new)
  from lfq_interleavings_safe [OF this] s show ?thesis by blast
qed

end
