(* ===== verification/Zmalloc.thy ===== *)
theory Zmalloc
  imports Prelude
begin

unbundle bit_operations_syntax

text \<open>
  The accounting allocator \<open>src/xrtcserver/rtcbase/src/rtc_base/zmalloc.cc\<close> in the
  configuration the build selects (glibc \<open>malloc\<close>, so \<open>HAVE_MALLOC_SIZE\<close> is not
  defined and every block carries an 8-byte prefix with its sz). The state is the
  counter \<open>used_memory\<close>, the flag and handler variables, and the live blocks: the
  address \<open>malloc\<close> returned and the sz stored in the prefix. What \<open>malloc\<close>,
  \<open>calloc\<close> or \<open>realloc\<close> returned is an argument of each operation.
\<close>

section \<open>Definitions\<close>

text \<open>The handler installed: the default one aborts, another one may return to \<open>zmalloc\<close>.\<close>

datatype oom_handler = Default_oom | Returning_oom

record zstate =
  used_memory :: int
  zmalloc_thread_safe :: int
  zmalloc_oom_handler :: oom_handler
  zblocks :: "(nat \<times> int) list"

definition zstate_init :: zstate where
  "zstate_init = \<lparr>used_memory = 0, zmalloc_thread_safe = 0,
     zmalloc_oom_handler = Default_oom, zblocks = []\<rparr>"

definition PREFIX_SIZE :: nat where
  "PREFIX_SIZE = 8"

text \<open>\<open>if (_n&(sizeof(long)-1)) _n += sizeof(long)-(_n&(sizeof(long)-1));\<close>\<close>

definition zround :: "int \<Rightarrow> int" where
  "zround n = (if n AND 7 \<noteq> 0 then usz (n + (8 - (n AND 7))) else n)"

text \<open>Both branches of the macros (locked or not) change the counter the same way.\<close>

definition update_zmalloc_stat_alloc :: "int \<Rightarrow> zstate \<Rightarrow> zstate" where
  "update_zmalloc_stat_alloc n st =
     (if zmalloc_thread_safe st \<noteq> 0 then st\<lparr>used_memory := usz (used_memory st + zround n)\<rparr>
      else st\<lparr>used_memory := usz (used_memory st + zround n)\<rparr>)"

definition update_zmalloc_stat_free :: "int \<Rightarrow> zstate \<Rightarrow> zstate" where
  "update_zmalloc_stat_free n st =
     (if zmalloc_thread_safe st \<noteq> 0 then st\<lparr>used_memory := usz (used_memory st - zround n)\<rparr>
      else st\<lparr>used_memory := usz (used_memory st - zround n)\<rparr>)"

text \<open>Calling the handler on a failed allocation: abort, or return to write through null.\<close>

definition zmalloc_oom :: "zstate \<Rightarrow> 'a res" where
  "zmalloc_oom st =
     (case zmalloc_oom_handler st of Default_oom \<Rightarrow> Inl Oom_abort | Returning_oom \<Rightarrow> Inl Null_deref)"

definition zmalloc :: "ptr \<Rightarrow> int \<Rightarrow> zstate \<Rightarrow> (nat \<times> zstate) res" where
  "zmalloc p sz st =
     (case p of
        None \<Rightarrow> zmalloc_oom st
      | Some a \<Rightarrow>
          Inr (a + PREFIX_SIZE,
               update_zmalloc_stat_alloc (usz (sz + int PREFIX_SIZE))
                 (st\<lparr>zblocks := AList.update a sz (zblocks st)\<rparr>)))"

definition zcalloc :: "ptr \<Rightarrow> int \<Rightarrow> zstate \<Rightarrow> (nat \<times> zstate) res" where
  "zcalloc p sz st =
     (case p of
        None \<Rightarrow> zmalloc_oom st
      | Some a \<Rightarrow>
          Inr (a + PREFIX_SIZE,
               update_zmalloc_stat_alloc (usz (sz + int PREFIX_SIZE))
                 (st\<lparr>zblocks := AList.update a sz (zblocks st)\<rparr>)))"

text \<open>The prefix of a block, read through the pointer handed out.\<close>

definition zprefix :: "nat \<Rightarrow> zstate \<Rightarrow> int res" where
  "zprefix x st =
     (if x < PREFIX_SIZE then Inl Out_of_bounds
      else case map_of (zblocks st) (x - PREFIX_SIZE) of
             None \<Rightarrow> Inl Use_after_free
           | Some sz \<Rightarrow> Inr sz)"

definition zrealloc :: "ptr \<Rightarrow> ptr \<Rightarrow> int \<Rightarrow> zstate \<Rightarrow> (nat \<times> zstate) res" where
  "zrealloc p x sz st =
     (case x of
        None \<Rightarrow> zmalloc p sz st
      | Some x \<Rightarrow>
          res_bind (zprefix x st) (\<lambda>oldsize.
            case p of
              None \<Rightarrow> zmalloc_oom st
            | Some a \<Rightarrow>
                Inr (a + PREFIX_SIZE,
                     update_zmalloc_stat_alloc sz (update_zmalloc_stat_free oldsize
                       (st\<lparr>zblocks := AList.update a sz
                              (AList.delete (x - PREFIX_SIZE) (zblocks st))\<rparr>)))))"

definition zmalloc_size :: "nat \<Rightarrow> zstate \<Rightarrow> int res" where
  "zmalloc_size x st =
     res_bind (zprefix x st) (\<lambda>sz. Inr (usz (zround sz + int PREFIX_SIZE)))"

definition zfree :: "ptr \<Rightarrow> zstate \<Rightarrow> zstate res" where
  "zfree x st =
     (case x of
        None \<Rightarrow> Inr st
      | Some x \<Rightarrow>
          res_bind (zprefix x st) (\<lambda>oldsize.
            Inr (update_zmalloc_stat_free (usz (oldsize + int PREFIX_SIZE))
                   (st\<lparr>zblocks := AList.delete (x - PREFIX_SIZE) (zblocks st)\<rparr>))))"

definition zmalloc_used_memory :: "zstate \<Rightarrow> int" where
  "zmalloc_used_memory st =
     (if zmalloc_thread_safe st \<noteq> 0 then used_memory st else used_memory st)"

definition zmalloc_enable_thread_safeness :: "zstate \<Rightarrow> zstate" where
  "zmalloc_enable_thread_safeness st = st\<lparr>zmalloc_thread_safe := 1\<rparr>"

definition zmalloc_set_oom_handler :: "oom_handler \<Rightarrow> zstate \<Rightarrow> zstate" where
  "zmalloc_set_oom_handler h st = st\<lparr>zmalloc_oom_handler := h\<rparr>"

section \<open>The invariant: the counter is the sum over the live blocks\<close>

definition block_cost :: "int \<Rightarrow> int" where
  "block_cost sz = zround sz + 8"

text \<open>A request size for which neither the prefix nor the rounding wraps.\<close>

definition zsize_ok :: "int \<Rightarrow> bool" where
  "zsize_ok n \<longleftrightarrow> 0 \<le> n \<and> n + 16 < 18446744073709551616"

definition zinv :: "zstate \<Rightarrow> bool" where
  "zinv st \<longleftrightarrow> distinct (map fst (zblocks st)) \<and> (\<forall>b \<in> set (zblocks st). zsize_ok (snd b)) \<and>
     used_memory st = usz (\<Sum>b\<leftarrow>zblocks st. block_cost (snd b))"

datatype zop =
    Zmalloc ptr int
  | Zcalloc ptr int
  | Zrealloc ptr ptr int
  | Zfree ptr
  | Zthread_safe
  | Zset_oom oom_handler

fun zstep :: "zop \<Rightarrow> zstate \<Rightarrow> zstate res" where
  "zstep (Zmalloc p n) st = res_bind (zmalloc p n st) (\<lambda>(x, st). Inr st)"
| "zstep (Zcalloc p n) st = res_bind (zcalloc p n st) (\<lambda>(x, st). Inr st)"
| "zstep (Zrealloc p x n) st = res_bind (zrealloc p x n st) (\<lambda>(y, st). Inr st)"
| "zstep (Zfree x) st = zfree x st"
| "zstep Zthread_safe st = Inr (zmalloc_enable_thread_safeness st)"
| "zstep (Zset_oom h) st = Inr (zmalloc_set_oom_handler h st)"

text \<open>
  What the C library promises about the address it returns: it is not a live block
  (for \<open>realloc\<close>, it may be the block being resized).
\<close>

fun zop_ok :: "zop \<Rightarrow> zstate \<Rightarrow> bool" where
  "zop_ok (Zmalloc p n) st \<longleftrightarrow> zsize_ok n \<and> (\<forall>a. p = Some a \<longrightarrow> map_of (zblocks st) a = None)"
| "zop_ok (Zcalloc p n) st \<longleftrightarrow> zsize_ok n \<and> (\<forall>a. p = Some a \<longrightarrow> map_of (zblocks st) a = None)"
| "zop_ok (Zrealloc p x n) st \<longleftrightarrow> zsize_ok n \<and>
     (\<forall>a. p = Some a \<longrightarrow> map_of (zblocks st) a = None \<or> x = Some (a + PREFIX_SIZE))"
| "zop_ok _ st \<longleftrightarrow> True"

section \<open>Lemmas\<close>

lemma and_7: "(n :: int) AND 7 = n mod 8"
  using and_exp_eq_0_iff_not_bit [of n 3] take_bit_eq_mask [of 3 n]
  by (simp add: mask_eq_exp_minus_1 take_bit_eq_mod)

lemma round_up_8: "(n::int) mod 8 \<noteq> 0 \<Longrightarrow> n + (8 - n mod 8) = 8 * ((n + 7) div 8)"
  "(n::int) mod 8 = 0 \<Longrightarrow> n = 8 * ((n + 7) div 8)"
  by presburger+

lemma round_up_8_bounds: "(n::int) \<le> 8 * ((n + 7) div 8)" "8 * ((n + 7) div 8) \<le> n + 7"
  by presburger+

lemma zround_nonneg:
  "0 \<le> n \<Longrightarrow> n + 8 < 18446744073709551616 \<Longrightarrow> zround n = 8 * ((n + 7) div 8)"
  using round_up_8 [of n] pos_mod_bound [of 8 n]
  unfolding zround_def and_7 by (auto simp: c_int_simps)

lemma zround_eq: "zsize_ok n \<Longrightarrow> zround n = 8 * ((n + 7) div 8)"
  by (rule zround_nonneg) (simp_all add: zsize_ok_def)

lemma zround_prefix:
  "zsize_ok n \<Longrightarrow> zround (usz (n + int PREFIX_SIZE)) = block_cost n"
proof -
  assume n: "zsize_ok n"
  then have "usz (n + int PREFIX_SIZE) = n + 8"
    by (simp add: c_int_simps zsize_ok_def PREFIX_SIZE_def)
  moreover have "zround (n + 8) = 8 * ((n + 8 + 7) div 8)"
    using n by (intro zround_nonneg) (simp_all add: zsize_ok_def)
  moreover have "8 * ((n + 8 + 7) div 8) = 8 * ((n + 7) div 8) + 8" by presburger
  ultimately show ?thesis using zround_eq [OF n] by (simp add: block_cost_def)
qed

lemma usz_add [simp]: "usz (usz a + b) = usz (a + b)" "usz (a + usz b) = usz (a + b)"
  by (simp_all add: usz_def take_bit_eq_mod mod_simps)

lemma usz_diff [simp]: "usz (usz a - b) = usz (a - b)"
  by (simp add: usz_def take_bit_eq_mod mod_simps)

text \<open>Adding and removing one block changes the sum by its cost.\<close>

lemma sum_update_fresh:
  "map_of bs a = None \<Longrightarrow>
   (\<Sum>b\<leftarrow>AList.update a n bs. block_cost (snd b)) = (\<Sum>b\<leftarrow>bs. block_cost (snd b)) + block_cost n"
  by (induction bs) (auto split: if_splits)

lemma sum_delete:
  "distinct (map fst bs) \<Longrightarrow> map_of bs a = Some n \<Longrightarrow>
   (\<Sum>b\<leftarrow>AList.delete a bs. block_cost (snd b)) = (\<Sum>b\<leftarrow>bs. block_cost (snd b)) - block_cost n"
proof (induction bs)
  case (Cons b bs)
  show ?case
  proof (cases "fst b = a")
    case True
    then have "a \<notin> set (map fst bs)" using Cons.prems by auto
    then have "AList.delete a bs = bs" by (simp add: delete_id)
    with True Cons.prems show ?thesis by (cases b) simp
  next
    case False
    with Cons show ?thesis by (cases b) auto
  qed
qed simp

lemma set_update_sub: "set (AList.update a n bs) \<subseteq> insert (a, n) (set bs)"
  by (induction bs) (auto split: if_splits)

lemma set_delete_sub: "set (AList.delete a bs) \<subseteq> set bs"
  by (auto simp: AList.delete_eq)

lemma zblock_ok: "zinv st \<Longrightarrow> map_of (zblocks st) a = Some n \<Longrightarrow> zsize_ok n"
  by (auto simp: zinv_def dest!: map_of_SomeD)

lemmas zstat_defs = update_zmalloc_stat_alloc_def update_zmalloc_stat_free_def

lemma zinv_add_block:
  assumes "zinv st" "zsize_ok n" "map_of (zblocks st) a = None"
  shows "zinv (update_zmalloc_stat_alloc (usz (n + int PREFIX_SIZE))
           (st\<lparr>zblocks := AList.update a n (zblocks st)\<rparr>))"
  using assms zround_prefix [OF assms(2)] sum_update_fresh [OF assms(3)]
    set_update_sub [of a n "zblocks st"]
  by (auto simp: zinv_def zstat_defs distinct_update)

lemma zinv_remove_block:
  assumes "zinv st" "map_of (zblocks st) a = Some n"
  shows "zinv (update_zmalloc_stat_free (usz (n + int PREFIX_SIZE))
           (st\<lparr>zblocks := AList.delete a (zblocks st)\<rparr>))"
  using assms zround_prefix [OF zblock_ok [OF assms]] sum_delete [OF _ assms(2)]
    set_delete_sub [of a "zblocks st"]
  by (auto simp: zinv_def zstat_defs distinct_delete)

lemma zinv_resize_block:
  assumes st: "zinv st" and old: "map_of (zblocks st) a = Some m" and n: "zsize_ok n"
    and new: "map_of (AList.delete a (zblocks st)) b = None"
  shows "zinv (update_zmalloc_stat_alloc n (update_zmalloc_stat_free m
           (st\<lparr>zblocks := AList.update b n (AList.delete a (zblocks st))\<rparr>)))"
proof -
  let ?bs = "AList.delete a (zblocks st)"
  have d: "distinct (map fst (zblocks st))" using st by (simp add: zinv_def)
  have "(\<Sum>b\<leftarrow>AList.update b n ?bs. block_cost (snd b)) =
      (\<Sum>b\<leftarrow>zblocks st. block_cost (snd b)) - zround m + zround n"
    using sum_update_fresh [OF new] sum_delete [OF d old] by (simp add: block_cost_def)
  moreover have "\<forall>c \<in> set (AList.update b n ?bs). zsize_ok (snd c)"
    using st n set_update_sub [of b n ?bs] set_delete_sub [of a "zblocks st"]
    by (fastforce simp: zinv_def)
  ultimately show ?thesis
    using st d by (simp add: zinv_def zstat_defs distinct_update distinct_delete)
qed

lemma zinv_init: "zinv zstate_init"
  by (simp add: zinv_def zstate_init_def c_int_simps)

lemma zstep_zinv:
  assumes "zinv st" "zop_ok op st" "zstep op st = Inr st'"
  shows "zinv st'"
proof (cases op)
  case (Zmalloc p n)
  with assms show ?thesis
    by (auto simp: zmalloc_def zmalloc_oom_def intro!: zinv_add_block
        split: option.splits oom_handler.splits)
next
  case (Zcalloc p n)
  with assms show ?thesis
    by (auto simp: zcalloc_def zmalloc_oom_def intro!: zinv_add_block
        split: option.splits oom_handler.splits)
next
  case (Zrealloc p x n)
  show ?thesis
  proof (cases x)
    case None
    with Zrealloc assms show ?thesis
      by (auto simp: zrealloc_def zmalloc_def zmalloc_oom_def intro!: zinv_add_block
          split: option.splits oom_handler.splits)
  next
    case (Some y)
    with Zrealloc assms show ?thesis
      by (auto simp: zrealloc_def zprefix_def zmalloc_oom_def delete_conv' PREFIX_SIZE_def
          intro!: zinv_resize_block split: option.splits oom_handler.splits if_splits)
  qed
next
  case (Zfree x)
  with assms show ?thesis
    by (auto simp: zfree_def zprefix_def intro!: zinv_remove_block
        split: option.splits if_splits)
qed (use assms in \<open>auto simp: zinv_def zmalloc_enable_thread_safeness_def zmalloc_set_oom_handler_def\<close>)

section \<open>Properties\<close>

text \<open>The states the allocator can be in: any sequence of calls that return.\<close>

inductive zreach :: "zstate \<Rightarrow> bool" where
  zreach_init: "zreach zstate_init"
| zreach_step: "zreach st \<Longrightarrow> zop_ok op st \<Longrightarrow> zstep op st = Inr st' \<Longrightarrow> zreach st'"

lemma zreach_zinv: "zreach st \<Longrightarrow> zinv st"
  by (induction rule: zreach.induct) (auto intro: zinv_init zstep_zinv)

definition live_sizes :: "zstate \<Rightarrow> int" where
  "live_sizes st =
     (\<Sum>b\<leftarrow>zblocks st. case zmalloc_size (fst b + PREFIX_SIZE) st of Inl e \<Rightarrow> 0 | Inr n \<Rightarrow> n)"

lemma zmalloc_size_live:
  assumes "zinv st" "b \<in> set (zblocks st)"
  shows "zmalloc_size (fst b + PREFIX_SIZE) st = Inr (block_cost (snd b))"
proof -
  have m: "map_of (zblocks st) (fst b) = Some (snd b)"
    using assms by (simp add: zinv_def)
  then have ok: "zsize_ok (snd b)" using assms(1) zblock_ok by blast
  then have "usz (zround (snd b) + 8) = zround (snd b) + 8"
    using zround_eq [OF ok] round_up_8_bounds [of "snd b"] ok
    unfolding zsize_ok_def by (intro usz_id) linarith+
  with m show ?thesis
    by (simp add: zmalloc_size_def zprefix_def PREFIX_SIZE_def block_cost_def)
qed

text \<open>C15: The memory counter is exact: after any sequence of allocator calls,
  \<open>zmalloc_used_memory\<close> is the sum, over the blocks that are still live, of what
  \<open>zmalloc_size\<close> reports for them (as a 64-bit value), although \<open>zrealloc\<close> updates the
  counter without the prefix that \<open>zmalloc\<close> and \<open>zfree\<close> count.\<close>

theorem zmalloc_used_memory_exact:
  assumes "zreach st"
  shows "zmalloc_used_memory st = usz (live_sizes st)"
proof -
  have inv: "zinv st" using assms by (rule zreach_zinv)
  have "live_sizes st = (\<Sum>b\<leftarrow>zblocks st. block_cost (snd b))"
    unfolding live_sizes_def
    by (rule arg_cong [where f = sum_list], rule map_cong) (simp_all add: zmalloc_size_live [OF inv])
  with inv show ?thesis by (simp add: zmalloc_used_memory_def zinv_def)
qed

theorem zmalloc_used_memory_exact_witness:
  "\<exists>st. zstep (Zmalloc (Some 100) 13) zstate_init = Inr st \<and>
     zmalloc_used_memory st = usz (live_sizes st)"
proof -
  obtain st where st: "zstep (Zmalloc (Some 100) 13) zstate_init = Inr st"
    by (simp add: zmalloc_def)
  have "zreach st"
    by (rule zreach_step [OF zreach_init _ st]) (simp add: zsize_ok_def zstate_init_def)
  with st zmalloc_used_memory_exact show ?thesis by blast
qed

end
