(* ===== verification/Sds_Text.thy ===== *)
theory Sds_Text
  imports Sds Data_Refinement "HOL-Library.Sublist"
begin

text \<open>
  The text functions of \<open>src/xrtcserver/rtcbase/src/rtc_base/sds.cc\<close>: trimming,
  ranges, comparison, case and character mapping (on the header, in place), number
  formatting, splitting, and the quoting and unquoting of arguments. The functions
  that build new strings (\<open>sdssplitlen\<close>, \<open>sdssplitargs\<close>, \<open>sdsfromlonglong\<close>) are given on string
  values: \<open>sdsnewlen_correct\<close> and \<open>sdscatlen_correct\<close> of theory \<open>Sds\<close> say that the
  header operations they are made of compute these values.
  Character classes are those of the C locale, the only one the program runs in.
\<close>

section \<open>Definitions\<close>

definition c_isspace :: "byte \<Rightarrow> bool" where
  "c_isspace c \<longleftrightarrow> c = 32 \<or> (9 \<le> c \<and> c \<le> 13)"

definition c_isprint :: "byte \<Rightarrow> bool" where
  "c_isprint c \<longleftrightarrow> 32 \<le> c \<and> c \<le> 126"

definition c_tolower :: "byte \<Rightarrow> byte" where
  "c_tolower c = (if 65 \<le> c \<and> c \<le> 90 then c + 32 else c)"

definition c_toupper :: "byte \<Rightarrow> byte" where
  "c_toupper c = (if 97 \<le> c \<and> c \<le> 122 then c - 32 else c)"

text \<open>\<open>strchr(cset, c)\<close> is not null: the terminator of \<open>cset\<close> counts as one of its characters.\<close>

definition c_strchr :: "byte list \<Rightarrow> byte \<Rightarrow> bool" where
  "c_strchr cset c \<longleftrightarrow> c \<in> set (takeWhile (\<lambda>x. x \<noteq> 0) cset) \<or> c = 0"

subsection \<open>In place: trim, range, case, mapping, comparison\<close>

text \<open>\<open>while(sp <= end && strchr(cset, *sp)) sp++;\<close> and \<open>while(ep > start && strchr(cset, *ep)) ep--;\<close>\<close>

function trim_sp :: "byte list \<Rightarrow> byte list \<Rightarrow> int \<Rightarrow> int \<Rightarrow> int" where
  "trim_sp cset buf end_ix sp =
     (if sp \<le> end_ix \<and> c_strchr cset (buf ! nat sp) then trim_sp cset buf end_ix (sp + 1) else sp)"
  by pat_completeness auto
termination
  by (relation "measure (\<lambda>(c, b, e, sp). nat (e + 1 - sp))") auto

function trim_ep :: "byte list \<Rightarrow> byte list \<Rightarrow> int \<Rightarrow> int" where
  "trim_ep cset buf ep =
     (if ep > 0 \<and> c_strchr cset (buf ! nat ep) then trim_ep cset buf (ep - 1) else ep)"
  by pat_completeness auto
termination
  by (relation "measure (\<lambda>(c, b, ep). nat ep)") auto

declare trim_sp.simps [simp del] trim_ep.simps [simp del]

definition sdstrim :: "sdshdr \<Rightarrow> byte list \<Rightarrow> sdshdr res" where
  "sdstrim s cset =
     (let end_ix = sdslen s - 1;
          sp = trim_sp cset (sds_buf s) end_ix 0;
          ep = trim_ep cset (sds_buf s) end_ix;
          len = (if sp > ep then 0 else ep - sp + 1)
      in res_bind (if sp \<noteq> 0
                   then res_bind (mem_read (nat sp) (nat len) (sds_buf s)) (\<lambda>bs.
                          mem_write 0 bs (sds_buf s))
                   else Inr (sds_buf s)) (\<lambda>buf.
         res_bind (mem_write (nat len) [0] buf) (\<lambda>buf.
           Inr \<lparr>sds_len = i32 len, sds_free = i32 (sds_free s + (sds_len s - len)), sds_buf = buf\<rparr>)))"

text \<open>\<open>(start > end) ? 0 : (end-start)+1\<close> is \<open>int\<close> arithmetic, stored in a \<open>size_t\<close>.\<close>

definition range_len :: "int \<Rightarrow> int \<Rightarrow> int res" where
  "range_len start end_ix =
     (if start > end_ix then Inr 0
      else if in_i32 (end_ix - start) \<and> in_i32 (end_ix - start + 1) then Inr (usz (end_ix - start + 1))
      else Inl Signed_overflow)"

definition sdsrange :: "sdshdr \<Rightarrow> int \<Rightarrow> int \<Rightarrow> sdshdr res" where
  "sdsrange s start0 end0 =
     (let len = sdslen s
      in if len = 0 then Inr s
         else
           let start = (if start0 < 0 then (let x = i32 (len + start0) in if x < 0 then 0 else x) else start0);
               end_ix = (if end0 < 0 then (let x = i32 (len + end0) in if x < 0 then 0 else x) else end0)
           in res_bind (range_len start end_ix) (\<lambda>newlen.
              res_bind (if newlen \<noteq> 0 then
                          if start \<ge> i32 len then Inr (start, 0)
                          else if end_ix \<ge> i32 len then
                            res_bind (range_len start (i32 (len - 1))) (\<lambda>newlen. Inr (start, newlen))
                          else Inr (start, newlen)
                        else Inr (0, newlen)) (\<lambda>(start, newlen).
              res_bind (if start \<noteq> 0 \<and> newlen \<noteq> 0
                        then res_bind (mem_read (nat start) (nat newlen) (sds_buf s)) (\<lambda>bs.
                               mem_write 0 bs (sds_buf s))
                        else Inr (sds_buf s)) (\<lambda>buf.
              res_bind (mem_write (nat newlen) [0] buf) (\<lambda>buf.
                Inr \<lparr>sds_len = i32 newlen, sds_free = i32 (sds_free s + (sds_len s - newlen)),
                     sds_buf = buf\<rparr>)))))"

text \<open>The loops \<open>for (j = 0; j < len; j++) s[j] = f(s[j]);\<close>\<close>

definition sdstolower :: "sdshdr \<Rightarrow> sdshdr" where
  "sdstolower s =
     (let len = nat (i32 (sdslen s))
      in s\<lparr>sds_buf := map c_tolower (take len (sds_buf s)) @ drop len (sds_buf s)\<rparr>)"

definition sdstoupper :: "sdshdr \<Rightarrow> sdshdr" where
  "sdstoupper s =
     (let len = nat (i32 (sdslen s))
      in s\<lparr>sds_buf := map c_toupper (take len (sds_buf s)) @ drop len (sds_buf s)\<rparr>)"

definition sdscmp :: "sdshdr \<Rightarrow> sdshdr \<Rightarrow> int" where
  "sdscmp s1 s2 =
     (let l1 = sdslen s1; l2 = sdslen s2;
          minlen = (if l1 < l2 then l1 else l2);
          cmp = c_memcmp (take (nat minlen) (sds_buf s1)) (take (nat minlen) (sds_buf s2))
      in if cmp = 0 then i32 (l1 - l2) else cmp)"

text \<open>The inner loop of \<open>sdsmapchars\<close>: the first \<open>i\<close> with \<open>s[j] == from[i]\<close> decides.\<close>

function map_char :: "byte list \<Rightarrow> byte list \<Rightarrow> nat \<Rightarrow> nat \<Rightarrow> byte \<Rightarrow> byte" where
  "map_char from to setlen i c =
     (if i < setlen then if c = from ! i then to ! i else map_char from to setlen (Suc i) c else c)"
  by pat_completeness auto
termination
  by (relation "measure (\<lambda>(f, t, n, i, c). n - i)") auto

declare map_char.simps [simp del]

definition sdsmapchars :: "sdshdr \<Rightarrow> byte list \<Rightarrow> byte list \<Rightarrow> nat \<Rightarrow> sdshdr res" where
  "sdsmapchars s from to setlen =
     (if length from < setlen \<or> length to < setlen then Inl Out_of_bounds
      else let l = nat (sdslen s)
        in Inr (s\<lparr>sds_buf := map (map_char from to setlen 0) (take l (sds_buf s)) @
                   drop l (sds_buf s)\<rparr>))"

subsection \<open>Formatted appends and quoting\<close>

text \<open>
  \<open>sdscatvprintf\<close>: \<open>out\<close> is the whole formatted output. Each round has a buffer of
  \<open>buflen\<close> bytes whose last but one byte is cleared; if that byte is set after
  \<open>vsnprintf\<close> the output may have been cut and the round is repeated with twice the size.
\<close>

definition fmt_buffer :: "mem_env \<Rightarrow> nat \<Rightarrow> byte list \<Rightarrow> byte list" where
  "fmt_buffer m buflen out =
     overwrite 0 (take (buflen - 1) out @ [0]) ((map (al_junk m) [0..<buflen])[buflen - 2 := 0])"

function catvprintf_loop :: "mem_env \<Rightarrow> sdshdr \<Rightarrow> byte list \<Rightarrow> nat \<Rightarrow> sdshdr res" where
  "catvprintf_loop m s out buflen =
     (if buflen < 2 then Inl Out_of_bounds
      else if \<not> al_ok m buflen then Inl Oom_abort
      else let buf = fmt_buffer m buflen out
        in if buf ! (buflen - 2) \<noteq> 0 then catvprintf_loop m s out (2 * buflen)
           else sdscat m s buf)"
  by pat_completeness auto

lemma fmt_buffer_short:
  assumes "2 \<le> n" "length out \<le> n - 2"
  shows "fmt_buffer m n out ! (n - 2) = 0"
proof -
  have "take (n - 1) out = out" using assms by simp
  moreover have "Suc (n - 3) = n - 2" if "length out \<noteq> n - 2" using that assms by arith
  ultimately show ?thesis
    using assms by (cases "length out = n - 2") (simp_all add: fmt_buffer_def overwrite_def nth_append)
qed

termination catvprintf_loop
proof (relation "measure (\<lambda>(m, s, out, n). length out + 2 - n)", goal_cases)
  case (2 m s out n x)
  then have "\<not> length out \<le> n - 2" using fmt_buffer_short [of n out m] by auto
  with 2(1) show ?case by simp
qed simp

declare catvprintf_loop.simps [simp del]

definition sdscatvprintf :: "mem_env \<Rightarrow> sdshdr \<Rightarrow> byte list \<Rightarrow> sdshdr res" where
  "sdscatvprintf m s out = catvprintf_loop m s out 16"

text \<open>\<open>%02x\<close> of a byte.\<close>

definition hex_char :: "nat \<Rightarrow> byte" where
  "hex_char n = (if n < 10 then 48 + word_of_nat n else 87 + word_of_nat n)"

definition fmt_02x :: "byte \<Rightarrow> byte list" where
  "fmt_02x c = [hex_char (unat c div 16), hex_char (unat c mod 16)]"

fun catrepr_loop :: "mem_env \<Rightarrow> sdshdr \<Rightarrow> byte list \<Rightarrow> sdshdr res" where
  "catrepr_loop m s [] = Inr s"
| "catrepr_loop m s (c # p) =
     res_bind
       (if c = 92 \<or> c = 34 then sdscatvprintf m s [92, c]
        else if c = 10 then sdscatlen m s [92, 110] 2
        else if c = 13 then sdscatlen m s [92, 114] 2
        else if c = 9 then sdscatlen m s [92, 116] 2
        else if c = 7 then sdscatlen m s [92, 97] 2
        else if c = 8 then sdscatlen m s [92, 98] 2
        else if c_isprint c then sdscatvprintf m s [c]
        else sdscatvprintf m s ([92, 120] @ fmt_02x c))
       (\<lambda>s. catrepr_loop m s p)"

definition sdscatrepr :: "mem_env \<Rightarrow> sdshdr \<Rightarrow> byte list \<Rightarrow> int \<Rightarrow> sdshdr res" where
  "sdscatrepr m s p len =
     res_bind (sdscatlen m s [34] 1) (\<lambda>s.
     res_bind (mem_read 0 (nat len) p) (\<lambda>bs.
     res_bind (catrepr_loop m s bs) (\<lambda>s.
       sdscatlen m s [34] 1)))"

subsection \<open>Splitting arguments\<close>

definition is_hex_digit :: "byte \<Rightarrow> bool" where
  "is_hex_digit c \<longleftrightarrow> (48 \<le> c \<and> c \<le> 57) \<or> (97 \<le> c \<and> c \<le> 102) \<or> (65 \<le> c \<and> c \<le> 70)"

definition hex_digit_to_int :: "byte \<Rightarrow> int" where
  "hex_digit_to_int c =
     (if 48 \<le> c \<and> c \<le> 57 then int (unat c) - 48
      else if 97 \<le> c \<and> c \<le> 102 then int (unat c) - 87
      else if 65 \<le> c \<and> c \<le> 70 then int (unat c) - 55
      else 0)"

definition unescape :: "byte \<Rightarrow> byte" where
  "unescape c =
     (if c = 110 then 10 else if c = 114 then 13 else if c = 116 then 9
      else if c = 98 then 8 else if c = 97 then 7 else c)"

text \<open>\<open>inq\<close>, \<open>insq\<close>, or neither.\<close>

datatype qmode = Unquoted | In_quotes | In_single

text \<open>
  The loop \<open>while(!done)\<close>: \<open>p\<close> is what is left of the line before its terminator
  (the empty list is \<open>*p == 0\<close>), \<open>cur\<close> the token so far; \<open>None\<close> is \<open>goto err\<close>.
\<close>

fun get_token :: "qmode \<Rightarrow> byte list \<Rightarrow> byte list \<Rightarrow> (byte list \<times> byte list) option" where
  "get_token In_quotes [] cur = None"
| "get_token In_quotes (c # p) cur =
     (if c = 92 \<and> 3 \<le> length p \<and> p ! 0 = 120 \<and> is_hex_digit (p ! 1) \<and> is_hex_digit (p ! 2)
      then get_token In_quotes (drop 3 p)
             (cur @ [word_of_int (hex_digit_to_int (p ! 1) * 16 + hex_digit_to_int (p ! 2))])
      else if c = 92 \<and> p \<noteq> [] then get_token In_quotes (drop 1 p) (cur @ [unescape (p ! 0)])
      else if c = 34 then (if p \<noteq> [] \<and> \<not> c_isspace (p ! 0) then None else Some (cur, p))
      else get_token In_quotes p (cur @ [c]))"
| "get_token In_single [] cur = None"
| "get_token In_single (c # p) cur =
     (if c = 92 \<and> p \<noteq> [] \<and> p ! 0 = 39 then get_token In_single (drop 1 p) (cur @ [39])
      else if c = 39 then (if p \<noteq> [] \<and> \<not> c_isspace (p ! 0) then None else Some (cur, p))
      else get_token In_single p (cur @ [c]))"
| "get_token Unquoted [] cur = Some (cur, [])"
| "get_token Unquoted (c # p) cur =
     (if c = 32 \<or> c = 10 \<or> c = 13 \<or> c = 9 then Some (cur, p)
      else if c = 34 then get_token In_quotes p cur
      else if c = 39 then get_token In_single p cur
      else get_token Unquoted p (cur @ [c]))"

lemma get_token_le: "get_token q p cur = Some (t, r) \<Longrightarrow> length r \<le> length p"
proof (induction "length p" arbitrary: q p cur rule: less_induct)
  case less
  show ?case
  proof (cases p)
    case Nil
    then show ?thesis using less.prems by (cases q) simp_all
  next
    case (Cons c p1)
    have IH: "length r \<le> length p1"
      if "get_token q' (drop k p1) cur' = Some (t, r)" for q' k cur'
      using less.hyps [OF _ that] Cons by fastforce
    note IH0 = IH [where k = 0, simplified]
    show ?thesis
      using less.prems Cons IH0 IH [of _ 1] IH [of _ 3]
      by (cases q) (auto split: if_splits intro: le_SucI)
  qed
qed

lemma get_token_shorter:
  "get_token Unquoted p cur = Some (t, r) \<Longrightarrow> p \<noteq> [] \<Longrightarrow> length r < length p"
  by (cases p) (auto split: if_splits dest!: get_token_le)

function splitargs_loop :: "byte list \<Rightarrow> byte list list \<Rightarrow> byte list list option" where
  "splitargs_loop p vec =
     (let p = dropWhile c_isspace p
      in if p = [] then Some vec
         else case get_token Unquoted p [] of
                None \<Rightarrow> None
              | Some (tok, rest) \<Rightarrow> splitargs_loop rest (vec @ [tok]))"
  by pat_completeness auto
termination
proof (relation "measure (\<lambda>(p, vec). length p)", goal_cases)
  case (2 p vec x a b c)
  then have "length c < length x" using get_token_shorter by metis
  also have "\<dots> \<le> length p" using 2(1) length_dropWhile_le by auto
  finally show ?case by simp
qed simp

declare splitargs_loop.simps [simp del]

text \<open>
  The result is \<open>None\<close> where the code returns through \<open>err\<close>. (A blank line gives no
  tokens: the code returns the null vector there too, with \<open>*argc\<close> zero.)
\<close>

definition sdssplitargs :: "byte list \<Rightarrow> byte list list option res" where
  "sdssplitargs line =
     res_bind (c_strlen line) (\<lambda>n. Inr (splitargs_loop (take (nat n) line) []))"

subsection \<open>Splitting on a separator, formatting numbers\<close>

text \<open>
  The loop of \<open>sdssplitlen\<close>. The separator has \<open>k + 1\<close> bytes (the code uses
  \<open>seplen-1\<close>); \<open>slots\<close> is the capacity of the token array and every store into the
  array is checked against it.
\<close>

function split_loop :: "byte list \<Rightarrow> nat \<Rightarrow> byte list \<Rightarrow> nat \<Rightarrow> nat \<Rightarrow> nat \<Rightarrow> nat \<Rightarrow> byte list list \<Rightarrow>
    byte list list res" where
  "split_loop s len sep k slots start j toks =
     (if int j < int len - int k then
        let slots = (if slots < length toks + 2 then slots * 2 else slots)
        in if (k = 0 \<and> s ! j = sep ! 0) \<or> take (Suc k) (drop j s) = take (Suc k) sep
           then if length toks < slots
             then split_loop s len sep k slots (j + Suc k) (j + Suc k)
                    (toks @ [take (j - start) (drop start s)])
             else Inl Out_of_bounds
           else split_loop s len sep k slots start (Suc j) toks
      else if length toks < slots then Inr (toks @ [take (len - start) (drop start s)])
      else Inl Out_of_bounds)"
  by pat_completeness auto
termination
  by (relation "measure (\<lambda>(s, len, sep, k, slots, start, j, toks). len - j)") auto

declare split_loop.simps [simp del]

text \<open>\<open>None\<close> is the null result; otherwise the tokens, whose number goes to \<open>*count\<close>.\<close>

definition sdssplitlen :: "byte list \<Rightarrow> int \<Rightarrow> byte list \<Rightarrow> int \<Rightarrow> byte list list option res" where
  "sdssplitlen s len sep seplen =
     (if seplen < 1 \<or> len < 0 then Inr None
      else if len = 0 then Inr (Some [])
      else res_bind (split_loop s (nat len) sep (nat (seplen - 1)) 5 0 0 []) (\<lambda>toks. Inr (Some toks)))"

text \<open>The \<open>do\<close> loop of \<open>sdsfromlonglong\<close>, which fills the 32-byte buffer from its end.\<close>

function llong_digits :: "int \<Rightarrow> nat \<Rightarrow> byte list \<Rightarrow> (int \<times> byte list) res" where
  "llong_digits p v acc =
     (if p < 0 then Inl Out_of_bounds
      else let acc = (48 + word_of_nat (v mod 10)) # acc
        in if v div 10 \<noteq> 0 then llong_digits (p - 1) (v div 10) acc else Inr (p - 1, acc))"
  by pat_completeness auto
termination
  by (relation "measure (\<lambda>(p, v, acc). v)") auto

declare llong_digits.simps [simp del]

text \<open>Negating the least \<open>long long\<close> overflows.\<close>

definition sdsfromlonglong :: "int \<Rightarrow> byte list res" where
  "sdsfromlonglong val =
     (if val = - 9223372036854775808 then Inl Signed_overflow
      else res_bind (llong_digits 31 (nat \<bar>val\<bar>) []) (\<lambda>(p, acc).
             if val < 0 then (if p < 0 then Inl Out_of_bounds else Inr (45 # acc)) else Inr acc))"

section \<open>Lemmas\<close>

subsection \<open>Trim and range\<close>

definition strip :: "('a \<Rightarrow> bool) \<Rightarrow> 'a list \<Rightarrow> 'a list" where
  "strip P v = rev (dropWhile P (rev (dropWhile P v)))"

lemma trim_sp_eq:
  "0 \<le> sp \<Longrightarrow> nat sp \<le> n \<Longrightarrow> n \<le> length buf \<Longrightarrow>
   trim_sp cset buf (int n - 1) sp = sp + int (length (takeWhile (c_strchr cset) (drop (nat sp) (take n buf))))"
proof (induction cset buf "int n - 1" sp rule: trim_sp.induct)
  case (1 cset buf sp)
  show ?case
  proof (cases "sp \<le> int n - 1")
    case True
    then have lt: "nat sp < n" using "1.prems" by linarith
    then have "drop (nat sp) (take n buf) = buf ! nat sp # drop (Suc (nat sp)) (take n buf)"
      using "1.prems" by (subst Cons_nth_drop_Suc [symmetric]) simp_all
    with True "1.hyps" "1.prems" lt show ?thesis
      by (subst trim_sp.simps) (simp add: nat_add_distrib)
  next
    case False
    with "1.prems" show ?thesis by (subst trim_sp.simps) simp
  qed
qed

text \<open>Scanning back from index \<open>n - 1\<close> stops after the last character that is kept.\<close>

lemma trim_ep_eq:
  "0 < n \<Longrightarrow> n \<le> length buf \<Longrightarrow> \<exists>c \<in> set (take n buf). \<not> c_strchr cset c \<Longrightarrow>
   trim_ep cset buf (int n - 1) = int (length (dropWhile (c_strchr cset) (rev (take n buf)))) - 1"
proof (induction n)
  case (Suc n)
  have tk: "take (Suc n) buf = take n buf @ [buf ! n]"
    using Suc.prems by (simp add: take_Suc_conv_app_nth)
  show ?case
  proof (cases "c_strchr cset (buf ! n)")
    case True
    then have ex: "\<exists>c \<in> set (take n buf). \<not> c_strchr cset c" using Suc.prems tk by auto
    then have "0 < n" by (cases n) auto
    with True Suc ex tk show ?thesis
      by (subst trim_ep.simps) simp
  next
    case False
    with tk Suc.prems show ?thesis by (subst trim_ep.simps) simp
  qed
qed simp

lemma trim_ep_all:
  "0 < n \<Longrightarrow> n \<le> length buf \<Longrightarrow> \<forall>c \<in> set (take n buf). c_strchr cset c \<Longrightarrow>
   trim_ep cset buf (int n - 1) = 0"
proof (induction n)
  case (Suc n)
  have tk: "take (Suc n) buf = take n buf @ [buf ! n]"
    using Suc.prems by (simp add: take_Suc_conv_app_nth)
  show ?case
  proof (cases "n = 0")
    case True
    then show ?thesis by (subst trim_ep.simps) simp
  next
    case False
    with Suc tk show ?thesis by (subst trim_ep.simps) simp
  qed
qed simp

lemma strip_all: "\<forall>c \<in> set v. P c \<Longrightarrow> strip P v = []"
  by (auto simp: strip_def dest: set_dropWhileD)

lemma strip_split:
  assumes "\<exists>c \<in> set v. \<not> P c"
  shows "rev (dropWhile P (rev v)) = takeWhile P v @ strip P v" and "strip P v \<noteq> []"
proof -
  have ex: "\<exists>c \<in> set (dropWhile P v). \<not> P c"
    using assms by (metis Un_iff set_append set_takeWhileD takeWhile_dropWhile_id)
  have "rev v = rev (dropWhile P v) @ rev (takeWhile P v)"
    by (metis rev_append takeWhile_dropWhile_id)
  then have "dropWhile P (rev v) = dropWhile P (rev (dropWhile P v)) @ rev (takeWhile P v)"
    using ex by (metis dropWhile_append1 set_rev)
  then show "rev (dropWhile P (rev v)) = takeWhile P v @ strip P v" by (simp add: strip_def)
  show "strip P v \<noteq> []" using ex by (auto simp: strip_def)
qed

lemma strip_take_drop:
  assumes "\<exists>c \<in> set v. \<not> P c"
  defines "a \<equiv> length (takeWhile P v)" and "e \<equiv> length (dropWhile P (rev v))"
  shows "a < e" and "take (e - a) (drop a v) = strip P v" and "e \<le> length v"
proof -
  note sp = strip_split [OF assms(1)]
  have e: "e = a + length (strip P v)"
    using arg_cong [OF sp(1), of length] by (simp add: a_def e_def)
  then show "a < e" using sp(2) by simp
  show "e \<le> length v" using length_dropWhile_le [of P "rev v"] by (simp add: e_def)
  have "rev (dropWhile P (rev v)) = take e v"
    unfolding e_def by (metis append_take_drop_id length_rev rev_append rev_rev_ident
        dropWhile_eq_drop rev_drop rev_take diff_diff_cancel length_drop length_dropWhile_le)
  with sp(1) have "take e v = takeWhile P v @ strip P v" by simp
  then have "drop a (take e v) = strip P v" by (simp add: a_def)
  then show "take (e - a) (drop a v) = strip P v" by (simp add: drop_take)
qed

text \<open>Keeping the slice of \<open>n\<close> bytes from \<open>a\<close>: what trim and range do at the end.\<close>

lemma sds_keep_slice:
  assumes wf: "sds_wf s" and an: "a + n \<le> nat (sds_len s)"
  defines "bs \<equiv> take n (drop a (sds_val s))"
  shows "\<exists>buf s'. (if a \<noteq> 0 then res_bind (mem_read a n (sds_buf s)) (\<lambda>bs. mem_write 0 bs (sds_buf s))
       else Inr (sds_buf s)) = Inr buf \<and>
     res_bind (mem_write n [0] buf) (\<lambda>buf. Inr \<lparr>sds_len = i32 (int n),
       sds_free = i32 (sds_free s + (sds_len s - int n)), sds_buf = buf\<rparr>) = Inr s' \<and>
     sds_wf s' \<and> sds_val s' = bs"
proof -
  have b: "nat (sds_len s) \<le> length (sds_buf s)" "0 \<le> sds_len s" "0 \<le> sds_free s"
    "sds_len s + sds_free s < 2147483647" using wf by (auto simp: sds_wf_def)
  have bs: "bs = take n (drop a (sds_buf s))"
    unfolding bs_def sds_val_def using an by (simp add: drop_take min_def)
  have n: "length bs = n" unfolding bs using an b(1) by simp
  have le: "int (length bs) \<le> sds_len s + sds_free s" using n an b by linarith
  note rep = sds_replace [OF wf le, unfolded n]
  have "(if a \<noteq> 0 then res_bind (mem_read a n (sds_buf s)) (\<lambda>bs. mem_write 0 bs (sds_buf s))
       else Inr (sds_buf s)) = Inr (overwrite 0 bs (sds_buf s))"
    using rep(1) an b(1) by (simp add: bs)
  moreover have "i32 (int n) = int n" "i32 (sds_free s + (sds_len s - int n)) = sds_len s + sds_free s - int n"
    using an b by (simp_all add: i32_id)
  ultimately show ?thesis using rep(2-4) by simp
qed

lemma sdstrim_correct:
  assumes wf: "sds_wf s"
  shows "\<exists>s'. sdstrim s cset = Inr s' \<and> sds_wf s' \<and> sds_val s' = strip (c_strchr cset) (sds_val s)"
proof -
  let ?P = "c_strchr cset" and ?n = "nat (sds_len s)" and ?buf = "sds_buf s"
  have n: "int ?n = sds_len s" "?n \<le> length ?buf" using wf by (auto simp: sds_wf_def)
  have tk: "take ?n ?buf = sds_val s" by (simp add: sds_val_def)
  have sp: "trim_sp cset ?buf (int ?n - 1) 0 = int (length (takeWhile ?P (sds_val s)))"
    using trim_sp_eq [of 0 ?n ?buf cset] n by (simp add: sds_val_def)
  let ?sp = "trim_sp cset ?buf (int ?n - 1) 0" and ?ep = "trim_ep cset ?buf (int ?n - 1)"
  obtain a k where ak: "?sp = int a" "(if ?sp > ?ep then 0 else ?ep - ?sp + 1) = int k"
    "a + k \<le> ?n" "take k (drop a (sds_val s)) = strip ?P (sds_val s)"
  proof (cases "\<exists>c \<in> set (sds_val s). \<not> ?P c")
    case True
    then have "0 < ?n" by (cases "?n = 0") (auto simp: sds_val_def)
    with True n have ep: "?ep = int (length (dropWhile ?P (rev (sds_val s)))) - 1"
      using trim_ep_eq [of ?n ?buf cset] by (simp add: tk)
    note st = strip_take_drop [OF True]
    show ?thesis
      using st n wf sp ep
      by (intro that [of "length (takeWhile ?P (sds_val s))"
            "length (dropWhile ?P (rev (sds_val s))) - length (takeWhile ?P (sds_val s))"]) auto
  next
    case False
    then have all: "takeWhile ?P (sds_val s) = sds_val s" by (simp add: takeWhile_eq_all_conv)
    have "?sp > ?ep"
    proof (cases "?n = 0")
      case True
      then show ?thesis by (simp add: trim_sp.simps trim_ep.simps)
    next
      case False
      then have "?ep = 0" using trim_ep_all [of ?n ?buf cset] \<open>\<not> (\<exists>c \<in> set (sds_val s). \<not> ?P c)\<close> n tk by auto
      then show ?thesis using sp all False wf by simp
    qed
    then show ?thesis
      using that [of ?n 0] sp all wf False by (simp add: strip_all n(1))
  qed
  note keep = sds_keep_slice [OF wf ak(3)]
  have "sdslen s - 1 = int ?n - 1" using n wf by (simp add: sdslen_eq)
  then show ?thesis
    unfolding sdstrim_def Let_def using keep ak by auto
qed

text \<open>What \<open>sdsrange\<close> selects: an inclusive range, negative indices counting from the end.\<close>

definition range_spec :: "'a list \<Rightarrow> int \<Rightarrow> int \<Rightarrow> 'a list" where
  "range_spec v a b =
     (let n = int (length v);
          st = (if a < 0 then max 0 (n + a) else a);
          en = (if b < 0 then max 0 (n + b) else b)
      in take (nat (min en (n - 1) + 1 - st)) (drop (nat st) v))"

text \<open>The one range whose length is not an \<open>int\<close>: from the first byte to \<open>INT_MAX\<close>.\<close>

definition range_overflows :: "'a list \<Rightarrow> int \<Rightarrow> int \<Rightarrow> bool" where
  "range_overflows v a b \<longleftrightarrow> v \<noteq> [] \<and> b = 2147483647 \<and> (a = 0 \<or> a < 0 \<and> int (length v) + a \<le> 0)"

text \<open>Which start and length the code computes from indices that are not negative any more.\<close>

lemma range_len_ok: "0 \<le> a \<Longrightarrow> b - a < 2147483647 \<Longrightarrow> range_len a b = Inr (if a > b then 0 else b - a + 1)"
  by (auto simp: range_len_def in_i32_def usz_id)

lemma range_select:
  fixes n st en :: int
  assumes n: "0 < n" "n < 2147483647" and nb: "0 \<le> st" "0 \<le> en" "en - st < 2147483647"
    and k: "k = nat (min en (n - 1) + 1 - st)"
  shows "\<exists>newlen st2. range_len st en = Inr newlen \<and>
    (if newlen \<noteq> 0 then
        if st \<ge> i32 n then Inr (st, 0)
        else if en \<ge> i32 n then res_bind (range_len st (i32 (n - 1))) (\<lambda>newlen. Inr (st, newlen))
        else Inr (st, newlen)
      else Inr (0, newlen)) = Inr (st2, int k) \<and> (k \<noteq> 0 \<longrightarrow> st2 = st)"
proof -
  have in_n: "i32 n = n" "i32 (n - 1) = n - 1" using n by (simp_all add: i32_id)
  have "range_len st (n - 1) = Inr (if st > n - 1 then 0 else n - 1 - st + 1)"
    by (rule range_len_ok) (use n nb in auto)
  then show ?thesis using n k by (auto simp: in_n range_len_ok [OF nb(1,3)])
qed

lemma sdsrange_correct:
  assumes wf: "sds_wf s" and a: "in_i32 a" and b: "in_i32 b" and ov: "\<not> range_overflows (sds_val s) a b"
  shows "\<exists>s'. sdsrange s a b = Inr s' \<and> sds_wf s' \<and> sds_val s' = range_spec (sds_val s) a b"
proof (cases "sds_len s = 0")
  case True
  then show ?thesis using wf by (simp add: sdsrange_def sdslen_eq range_spec_def sds_val_def)
next
  case False
  define n where "n = sds_len s"
  have n: "0 < n" "n < 2147483647" "sdslen s = n" "int (length (sds_val s)) = n"
    using wf False sds_val_length [OF wf] by (auto simp: sds_wf_def sdslen_eq n_def)
  then have ne: "sds_val s \<noteq> []" by auto
  define st where "st = (if a < 0 then max 0 (n + a) else a)"
  define en where "en = (if b < 0 then max 0 (n + b) else b)"
  have nb: "0 \<le> st" "0 \<le> en" "en - st < 2147483647"
    using n(1,2) a b ov [unfolded range_overflows_def n(4)] ne by (auto simp: st_def en_def in_i32_def)
  have st': "(if a < 0 then (let x = i32 (n + a) in if x < 0 then 0 else x) else a) = st"
    and en': "(if b < 0 then (let x = i32 (n + b) in if x < 0 then 0 else x) else b) = en"
    using n a b by (auto simp: st_def en_def in_i32_def i32_id Let_def)
  define k where "k = nat (min en (n - 1) + 1 - st)"
  obtain newlen st2 where sel: "range_len st en = Inr newlen" "(if newlen \<noteq> 0 then
        if st \<ge> i32 n then Inr (st, 0)
        else if en \<ge> i32 n then res_bind (range_len st (i32 (n - 1))) (\<lambda>newlen. Inr (st, newlen))
        else Inr (st, newlen)
      else Inr (0, newlen)) = Inr (st2, int k)" "k \<noteq> 0 \<longrightarrow> st2 = st"
    using range_select [OF n(1,2) nb k_def] by blast
  have spec: "range_spec (sds_val s) a b = take k (drop (nat st) (sds_val s))"
    using wf n by (simp add: range_spec_def st_def en_def k_def n_def Let_def)
  let ?a = "if k = 0 then 0 else nat st"
  have an: "?a + k \<le> nat (sds_len s)" using nb n by (auto simp: k_def n_def)
  have cond: "(st2 \<noteq> 0 \<and> int k \<noteq> 0) = (?a \<noteq> 0)" "?a \<noteq> 0 \<Longrightarrow> nat st2 = ?a"
    using sel(3) nb by (auto split: if_splits)
  have "sdsrange s a b =
     res_bind (if ?a \<noteq> 0 then res_bind (mem_read ?a k (sds_buf s)) (\<lambda>bs. mem_write 0 bs (sds_buf s))
       else Inr (sds_buf s)) (\<lambda>buf. res_bind (mem_write k [0] buf) (\<lambda>buf. Inr \<lparr>sds_len = i32 (int k),
       sds_free = i32 (sds_free s + (sds_len s - int k)), sds_buf = buf\<rparr>))"
    unfolding sdsrange_def n(3) st' en' Let_def [of n] Let_def [of st] Let_def [of en]
      sel(1) res_bind_simps(2) sel(2)
    using n(1) cond by (cases "?a = 0") auto
  with sds_keep_slice [OF wf an] spec show ?thesis by (auto split: if_splits)
qed

text \<open>That range is undefined behaviour on every string that is not empty.\<close>

lemma sdsrange_overflow:
  assumes "sds_wf s" "sds_val s \<noteq> []"
  shows "sdsrange s 0 2147483647 = Inl Signed_overflow"
proof -
  have "sdslen s \<noteq> 0" using assms sds_val_length [OF assms(1)] by (auto simp: sdslen_eq sds_val_def)
  then show ?thesis by (simp add: sdsrange_def range_len_def in_i32_def Let_def)
qed

subsection \<open>Comparison\<close>

text \<open>The common prefix decides, then the lengths.\<close>

lemma sdscmp_eq:
  assumes "sds_wf s1" "sds_wf s2"
  defines "k \<equiv> min (length (sds_val s1)) (length (sds_val s2))"
  shows "sdscmp s1 s2 = (let c = c_memcmp (take k (sds_val s1)) (take k (sds_val s2))
     in if c = 0 then int (length (sds_val s1)) - int (length (sds_val s2)) else c)"
proof -
  have b: "0 \<le> sds_len s1" "0 \<le> sds_len s2" "sds_len s1 < 2147483647" "sds_len s2 < 2147483647"
    using assms by (auto simp: sds_wf_def)
  have k: "k = nat (min (sds_len s1) (sds_len s2))"
    using assms b by (simp add: k_def min_def)
  have "take k (sds_buf s1) = take k (sds_val s1)" "take k (sds_buf s2) = take k (sds_val s2)"
    using b by (simp_all add: sds_val_def k min_def)
  moreover have "nat (if sds_len s1 < sds_len s2 then sds_len s1 else sds_len s2) = k"
    by (simp add: k min_def)
  ultimately show ?thesis
    using assms b by (simp add: sdscmp_def sdslen_eq i32_id Let_def)
qed

lemma sdscmp_order:
  assumes "sds_wf s1" "sds_wf s2"
  shows "sdscmp s1 s2 = 0 \<longleftrightarrow> sds_val s1 = sds_val s2"
    and "sdscmp s1 s2 < 0 \<longleftrightarrow> (sds_val s1, sds_val s2) \<in> lexord {(x, y). x < y}"
  using sdscmp_eq [OF assms] memcmp_prefix_order [of "sds_val s1" "sds_val s2"] by (auto simp: Let_def)

subsection \<open>Formatted append and quoting\<close>

lemma fmt_buffer_fits:
  assumes "2 \<le> n" "length out \<le> n - 2"
  shows "\<exists>rest. fmt_buffer m n out = out @ 0 # rest"
  using assms by (simp add: fmt_buffer_def overwrite_def)

lemma catvprintf_loop_correct:
  assumes "sds_wf s" "mem_ok m" "fits s (int (length out))" "0 \<notin> set out" "2 \<le> n"
  shows "\<exists>s'. catvprintf_loop m s out n = Inr s' \<and> sds_wf s' \<and> sds_val s' = sds_val s @ out"
  using assms
proof (induction m s out n rule: catvprintf_loop.induct)
  case (1 m s out n)
  have ok: "al_ok m n" using "1.prems"(2) by (simp add: mem_ok_def)
  show ?case
  proof (cases "length out \<le> n - 2")
    case True
    then obtain rest where f: "fmt_buffer m n out = out @ 0 # rest"
      using fmt_buffer_fits "1.prems"(5) by blast
    have "fmt_buffer m n out ! (n - 2) = 0" by (rule fmt_buffer_short [OF "1.prems"(5) True])
    with f show ?thesis
      using sdscat_correct [OF "1.prems"(1-4)] ok "1.prems"(5)
      by (subst catvprintf_loop.simps) (simp add: Let_def)
  next
    case False
    have "n - 2 < n - 1" using "1.prems"(5) by arith
    then have "fmt_buffer m n out ! (n - 2) = out ! (n - 2)"
      using False "1.prems"(5) by (simp add: fmt_buffer_def overwrite_def nth_append)
    moreover have "out ! (n - 2) \<noteq> 0" using False "1.prems"(4) by (metis not_le nth_mem)
    ultimately show ?thesis
      using "1.IH" "1.prems" ok by (subst catvprintf_loop.simps) (simp add: Let_def)
  qed
qed

text \<open>The escape sequence of one byte, and the quoted form of a string.\<close>

definition esc :: "byte \<Rightarrow> byte list" where
  "esc c =
     (if c = 92 \<or> c = 34 then [92, c] else if c = 10 then [92, 110] else if c = 13 then [92, 114]
      else if c = 9 then [92, 116] else if c = 7 then [92, 97] else if c = 8 then [92, 98]
      else if c_isprint c then [c] else [92, 120] @ fmt_02x c)"

definition repr :: "byte list \<Rightarrow> byte list" where
  "repr bs = [34] @ concat (map esc bs) @ [34]"

lemma hex_char_cases:
  assumes "n < 16"
  shows "hex_char n \<noteq> 0 \<and> is_hex_digit (hex_char n) \<and> hex_digit_to_int (hex_char n) = int n"
proof -
  have "n \<in> {0,1,2,3,4,5,6,7,8,9,10,11,12,13,14,15}" using assms by (simp, presburger)
  then show ?thesis
    by (elim insertE) (simp_all add: hex_char_def is_hex_digit_def hex_digit_to_int_def)
qed

lemma byte_nibbles: "unat (c :: byte) div 16 < 16" "unat (c :: byte) mod 16 < 16"
  using unat_byte_bound [of c] by simp_all

lemma esc_nonzero: "0 \<notin> set (esc c)"
  using hex_char_cases [OF byte_nibbles(1) [of c]] hex_char_cases [OF byte_nibbles(2) [of c]]
  by (auto simp: esc_def fmt_02x_def c_isprint_def)

lemma length_esc: "length (esc c) \<le> 4"
  by (simp add: esc_def fmt_02x_def)

lemma catrepr_step:
  assumes "sds_wf s" "mem_ok m" "fits s (int (length (esc c)))"
  shows "\<exists>s'. catrepr_loop m s [c] = Inr s' \<and> sds_wf s' \<and> sds_val s' = sds_val s @ esc c"
proof -
  have two: "fits s 2 \<Longrightarrow> \<exists>s'. sdscatlen m s [x, y] 2 = Inr s' \<and> sds_wf s' \<and>
      sds_val s' = sds_val s @ [x, y]" for x y
    using sdscatlen_correct [OF assms(1,2), of 2 "[x, y]"] by simp
  have pr: "fits s (int (length out)) \<Longrightarrow> 0 \<notin> set out \<Longrightarrow>
      \<exists>s'. sdscatvprintf m s out = Inr s' \<and> sds_wf s' \<and> sds_val s' = sds_val s @ out" for out
    using catvprintf_loop_correct [OF assms(1,2), of out 16] by (simp add: sdscatvprintf_def)
  show ?thesis
    using assms(3) esc_nonzero [of c] two [of 92 110] two [of 92 114] two [of 92 116]
      two [of 92 97] two [of 92 98] pr [of "[92, c]"] pr [of "[c]"] pr [of "[92, 120] @ fmt_02x c"]
    by (auto simp: esc_def)
qed

lemma fits_mono: "fits s n \<Longrightarrow> 0 \<le> k \<Longrightarrow> k \<le> n \<Longrightarrow> fits s k"
  by (simp add: fits_def)

lemma fits_after:
  assumes "fits s (int (length a) + n)" "0 \<le> n" "sds_wf s" "sds_wf s'" "sds_val s' = sds_val s @ a"
  shows "fits s' n"
proof -
  have "sds_len s' = int (length (sds_val s'))" "sds_len s = int (length (sds_val s))"
    using assms(3,4) by (simp_all add: sds_wf_def)
  then have "sds_len s' = sds_len s + int (length a)" using assms(5) by simp
  with assms(1,2) show ?thesis by (simp add: fits_def)
qed

lemma catrepr_loop_Cons:
  "catrepr_loop m s (c # bs) = res_bind (catrepr_loop m s [c]) (\<lambda>s. catrepr_loop m s bs)"
  by (simp add: res_bind_def split: sum.splits)

lemma catrepr_loop_correct:
  assumes "sds_wf s" "mem_ok m" "fits s (int (length (concat (map esc bs))))"
  shows "\<exists>s'. catrepr_loop m s bs = Inr s' \<and> sds_wf s' \<and> sds_val s' = sds_val s @ concat (map esc bs)"
  using assms
proof (induction bs arbitrary: s)
  case (Cons c bs)
  have "fits s (int (length (esc c)))" using Cons.prems(3) by (rule fits_mono) simp_all
  then obtain r where r: "catrepr_loop m s [c] = Inr r" "sds_wf r" "sds_val r = sds_val s @ esc c"
    using catrepr_step Cons.prems by blast
  have "fits r (int (length (concat (map esc bs))))"
    by (rule fits_after [of s "esc c"]) (use Cons.prems r in simp_all)
  from Cons.IH [OF r(2) Cons.prems(2) this] r show ?case
    by (simp only: catrepr_loop_Cons [of m s c bs] res_bind_simps) simp
qed simp

lemma sdscatrepr_correct:
  assumes wf: "sds_wf s" and ok: "mem_ok m" and f: "fits s (int (length (repr bs)))"
  shows "\<exists>s'. sdscatrepr m s bs (int (length bs)) = Inr s' \<and> sds_wf s' \<and>
    sds_val s' = sds_val s @ repr bs"
proof -
  let ?body = "concat (map esc bs)"
  have "fits s 1" using f by (rule fits_mono) (simp_all add: repr_def)
  then obtain a where a: "sdscatlen m s [34] 1 = Inr a" "sds_wf a" "sds_val a = sds_val s @ [34]"
    using sdscatlen_correct [OF wf ok, of 1 "[34]"] by (simp, blast)
  have fa: "fits a (int (length ?body) + 1)"
    by (rule fits_after [of s "[34]"]) (use f wf a in \<open>simp_all add: repr_def add.commute\<close>)
  then have "fits a (int (length ?body))" by (rule fits_mono) simp_all
  then obtain b where b: "catrepr_loop m a bs = Inr b" "sds_wf b" "sds_val b = sds_val a @ ?body"
    using catrepr_loop_correct [OF a(2) ok] by blast
  have "fits b 1" by (rule fits_after [of a ?body]) (use fa a b in simp_all)
  then show ?thesis
    using sdscatlen_correct [OF b(2) ok, of 1 "[34]"] a(1,3) b(1,3)
    by (simp add: sdscatrepr_def repr_def)
qed

text \<open>Reading one escape sequence inside quotes gives the byte back.\<close>

lemma get_token_esc:
  "get_token In_quotes (esc c @ p) cur = get_token In_quotes p (cur @ [c])"
proof (cases "c = 92 \<or> c = 34 \<or> c = 10 \<or> c = 13 \<or> c = 9 \<or> c = 7 \<or> c = 8")
  case True
  then show ?thesis by (elim disjE) (simp_all add: esc_def unescape_def is_hex_digit_def)
next
  case False
  show ?thesis
  proof (cases "c_isprint c")
    case True
    with False show ?thesis by (simp add: esc_def)
  next
    case np: False
    note h = hex_char_cases [OF byte_nibbles(1) [of c]] hex_char_cases [OF byte_nibbles(2) [of c]]
    have "int (unat c div 16) * 16 + int (unat c mod 16) = int (unat c)"
      by (metis div_mult_mod_eq of_nat_add of_nat_mult of_nat_numeral)
    then have "word_of_int (int (unat c div 16) * 16 + int (unat c mod 16)) = c"
      by (simp only:) simp
    with False np h show ?thesis
      by (simp only: esc_def if_False simp_thms fmt_02x_def append.simps get_token.simps) simp
  qed
qed

lemma get_token_repr_body:
  "get_token In_quotes (concat (map esc bs) @ [34]) cur = Some (cur @ bs, [])"
proof (induction bs arbitrary: cur)
  case (Cons c bs)
  then show ?case by (simp add: get_token_esc)
qed simp

lemma splitargs_repr: "splitargs_loop (repr bs) [] = Some [bs]"
proof -
  have "get_token Unquoted (repr bs) [] = Some (bs, [])"
    using get_token_repr_body [of bs "[]"] by (simp add: repr_def)
  moreover have "dropWhile c_isspace (repr bs) = repr bs" "repr bs \<noteq> []"
    by (simp_all add: repr_def c_isspace_def)
  ultimately show ?thesis
    by (subst splitargs_loop.simps) (simp add: splitargs_loop.simps [of "[]"])
qed

lemma repr_nonzero: "0 \<notin> set (repr bs)"
  using esc_nonzero by (auto simp: repr_def)

lemma takeWhile_nonzero: "0 \<notin> set bs \<Longrightarrow> takeWhile (\<lambda>c. c \<noteq> 0) bs = bs"
  by (induction bs) auto

subsection \<open>Case and character mapping\<close>

lemma sds_map_prefix:
  assumes wf: "sds_wf s"
  defines "k \<equiv> nat (sds_len s)"
  shows "sds_wf (s\<lparr>sds_buf := map f (take k (sds_buf s)) @ drop k (sds_buf s)\<rparr>)"
    and "sds_val (s\<lparr>sds_buf := map f (take k (sds_buf s)) @ drop k (sds_buf s)\<rparr>) = map f (sds_val s)"
proof -
  have "k < length (sds_buf s)" "sds_buf s ! k = 0" using wf by (auto simp: sds_wf_def k_def)
  with wf show "sds_wf (s\<lparr>sds_buf := map f (take k (sds_buf s)) @ drop k (sds_buf s)\<rparr>)"
    and "sds_val (s\<lparr>sds_buf := map f (take k (sds_buf s)) @ drop k (sds_buf s)\<rparr>) = map f (sds_val s)"
    by (simp_all add: sds_wf_def sds_val_def nth_append flip: k_def)
qed

lemma sds_case_correct:
  assumes "sds_wf s"
  shows "sds_wf (sdstolower s) \<and> sds_val (sdstolower s) = map c_tolower (sds_val s)"
    and "sds_wf (sdstoupper s) \<and> sds_val (sdstoupper s) = map c_toupper (sds_val s)"
proof -
  have "nat (i32 (sdslen s)) = nat (sds_len s)"
    using assms by (simp add: sdslen_eq) (simp add: sds_wf_def i32_id)
  then show "sds_wf (sdstolower s) \<and> sds_val (sdstolower s) = map c_tolower (sds_val s)"
    and "sds_wf (sdstoupper s) \<and> sds_val (sdstoupper s) = map c_toupper (sds_val s)"
    using sds_map_prefix [OF assms] by (simp_all add: sdstolower_def sdstoupper_def Let_def)
qed

text \<open>The replacement of the first matching character of the set.\<close>

lemma map_char_eq:
  assumes "n \<le> length from" "n \<le> length to"
  shows "map_char from to n i c =
    (case map_of (drop i (zip (take n from) (take n to))) c of None \<Rightarrow> c | Some d \<Rightarrow> d)"
  using assms
proof (induction "n - i" arbitrary: i)
  case 0
  then show ?case by (simp add: map_char.simps)
next
  case (Suc k)
  then have i: "i < n" by simp
  then have "drop i (zip (take n from) (take n to)) =
    (from ! i, to ! i) # drop (Suc i) (zip (take n from) (take n to))"
    using Suc.prems by (subst Cons_nth_drop_Suc [symmetric]) simp_all
  with Suc i show ?case by (subst map_char.simps) simp
qed

definition map_spec :: "byte list \<Rightarrow> byte list \<Rightarrow> byte \<Rightarrow> byte" where
  "map_spec from to c = (case map_of (zip from to) c of None \<Rightarrow> c | Some d \<Rightarrow> d)"

lemma sdsmapchars_correct:
  assumes "sds_wf s" "n \<le> length from" "n \<le> length to"
  shows "\<exists>s'. sdsmapchars s from to n = Inr s' \<and> sds_wf s' \<and>
    sds_val s' = map (map_spec (take n from) (take n to)) (sds_val s)"
proof -
  have "map_char from to n 0 = map_spec (take n from) (take n to)"
    using assms(2,3) by (intro ext) (simp add: map_char_eq map_spec_def)
  then show ?thesis
    using sds_map_prefix [OF assms(1)] assms by (simp add: sdsmapchars_def sdslen_eq Let_def)
qed

subsection \<open>Splitting on a separator and numbers\<close>

fun join_sep :: "'a list \<Rightarrow> 'a list list \<Rightarrow> 'a list" where
  "join_sep sep [] = []"
| "join_sep sep [t] = t"
| "join_sep sep (t # ts) = t @ sep @ join_sep sep ts"

lemma join_snoc: "ts \<noteq> [] \<Longrightarrow> join_sep sep (ts @ [t]) = join_sep sep ts @ sep @ t"
proof (induction sep ts rule: join_sep.induct)
  case (3 sep t u ts)
  then show ?case by simp
qed simp_all

text \<open>
  Joining the tokens found so far gives the part of the string before \<open>start\<close>, none of
  them contains the separator, and the separator does not begin between \<open>start\<close> and \<open>j\<close>.
\<close>

definition sep_free :: "byte list \<Rightarrow> byte list \<Rightarrow> nat \<Rightarrow> nat \<Rightarrow> bool" where
  "sep_free sep s a b \<longleftrightarrow> (\<forall>i. a \<le> i \<longrightarrow> i < b \<longrightarrow> take (length sep) (drop i s) \<noteq> sep)"

lemma sep_free_token:
  assumes "sep_free sep s a b" "a \<le> b" "sep \<noteq> []"
  shows "\<not> sublist sep (take (b - a) (drop a s))"
proof
  assume "sublist sep (take (b - a) (drop a s))"
  then obtain u v where uv: "take (b - a) (drop a s) = u @ sep @ v" by (auto simp: sublist_def)
  then have "length (u @ sep @ v) \<le> b - a" by (metis length_take min.cobounded2)
  then have "length u + length sep \<le> b - a" by simp
  then have lt: "a + length u < b" using assms(3) by (cases sep) auto
  have "drop a s = u @ sep @ v @ drop (b - a) (drop a s)" using uv by (metis append_take_drop_id append_assoc)
  then have "drop (length u) (drop a s) = sep @ v @ drop (b - a) (drop a s)" by (metis append_eq_conv_conj)
  then have "take (length sep) (drop (a + length u) s) = sep" by (simp add: add.commute)
  with assms(1) lt show False by (simp add: sep_free_def)
qed

text \<open>The three ways a round of the loop can go: the separator no longer fits, it is here, or it is not.\<close>

lemma sep_free_end:
  assumes "sep_free sep s start j" "length s < j + length sep"
  shows "sep_free sep s start (length s)"
  unfolding sep_free_def
proof (intro allI impI)
  fix i assume i: "start \<le> i" "i < length s"
  show "take (length sep) (drop i s) \<noteq> sep"
  proof (cases "i < j")
    case False
    then have "length s - i < length sep" using assms(2) i by linarith
    then have "length (take (length sep) (drop i s)) < length sep" by simp
    then show ?thesis by auto
  qed (use assms(1) i in \<open>simp add: sep_free_def\<close>)
qed

lemma sep_here:
  assumes "(k = 0 \<and> s ! j = sep ! 0) \<or> take (Suc k) (drop j s) = take (Suc k) sep" "length sep = Suc k" "j < length s"
  shows "take (Suc k) (drop j s) = sep"
  using assms(1)
proof
  assume "k = 0 \<and> s ! j = sep ! 0"
  moreover from this assms(2) obtain x where "sep = [x]" by (auto simp: length_Suc_conv)
  ultimately show ?thesis using assms(3) by (simp add: take_Suc_conv_app_nth)
qed (use assms(2) in simp)

lemma join_token:
  assumes "toks = [] \<longrightarrow> start = 0" "toks \<noteq> [] \<longrightarrow> join_sep sep toks @ sep = take start s" "start \<le> j"
  shows "join_sep sep (toks @ [take (j - start) (drop start s)]) = take j s"
proof -
  have "take start s @ take (j - start) (drop start s) = take j s" using assms(3) by (simp flip: take_add)
  then show ?thesis using assms(1,2) by (cases "toks = []") (simp_all add: join_snoc flip: append_assoc)
qed

lemma split_loop_correct:
  assumes "length s = len" "length sep = Suc k" "start \<le> j" "start \<le> len"
    "toks = [] \<longrightarrow> start = 0" "toks \<noteq> [] \<longrightarrow> join_sep sep toks @ sep = take start s"
    "length toks < slots" "\<forall>t \<in> set toks. \<not> sublist sep t" "sep_free sep s start j"
  shows "\<exists>ts. split_loop s len sep k slots start j toks = Inr ts \<and> join_sep sep ts = s \<and>
    (\<forall>t \<in> set ts. \<not> sublist sep t)"
  using assms
proof (induction s len sep k slots start j toks rule: split_loop.induct)
  case (1 s len sep k slots start j toks)
  note prems = "1.prems"
  have sep: "sep \<noteq> []" using prems(2) by auto
  let ?tok = "take (j - start) (drop start s)"
  let ?slots = "if slots < length toks + 2 then slots * 2 else slots"
  let ?match = "(k = 0 \<and> s ! j = sep ! 0) \<or> take (Suc k) (drop j s) = take (Suc k) sep"
  have room: "Suc (length toks) < ?slots" "length toks < ?slots" using prems(7) by simp_all
  have split: "split_loop s len sep k slots start j toks =
    (if int j < int len - int k then
       if ?match then split_loop s len sep k ?slots (j + Suc k) (j + Suc k) (toks @ [?tok])
       else split_loop s len sep k ?slots start (Suc j) toks
     else Inr (toks @ [take (len - start) (drop start s)]))"
    using prems(7) by (subst split_loop.simps) (simp add: Let_def)
  consider (last) "\<not> int j < int len - int k" | (hit) "int j < int len - int k" ?match
    | (miss) "int j < int len - int k" "\<not> ?match" by blast
  then show ?case
  proof cases
    case last
    have "sep_free sep s start len" using sep_free_end [OF prems(9)] last prems(1,2) by simp
    then have "\<not> sublist sep (take (len - start) (drop start s))" by (rule sep_free_token [OF _ prems(4) sep])
    with join_token [OF prems(5,6,4)] last split prems(1,8) show ?thesis by simp
  next
    case hit
    have fit: "j < length s" "j + Suc k \<le> len" using hit(1) prems(1) by linarith+
    have "take j s @ sep = take (j + Suc k) s"
      using take_add [of j "Suc k" s] sep_here [OF hit(2) prems(2) fit(1)] by simp
    then have "join_sep sep (toks @ [?tok]) @ sep = take (j + Suc k) s" using join_token [OF prems(5,6,3)] by simp
    moreover have "\<forall>t \<in> set (toks @ [?tok]). \<not> sublist sep t"
      using prems(8) sep_free_token [OF prems(9,3) sep] by auto
    moreover have "sep_free sep s (j + Suc k) (j + Suc k)" by (simp add: sep_free_def)
    ultimately show ?thesis
      using "1.IH"(1) [OF hit(1) refl hit(2)] prems(1,2) split hit fit room by simp
  next
    case miss
    have "take (length sep) (drop j s) \<noteq> sep" using miss(2) prems(2) by auto
    then have "sep_free sep s start (Suc j)"
      using prems(9) by (auto simp: sep_free_def less_Suc_eq)
    moreover have "split_loop s len sep k slots start j toks = split_loop s len sep k ?slots start (Suc j) toks"
      using split miss by (simp only: if_True if_False)
    ultimately show ?thesis
      using "1.IH"(2) [OF miss(1) refl miss(2)] prems(1-6,8) room by simp
  qed
qed

text \<open>The value a decimal numeral stands for.\<close>

definition dec_val :: "byte list \<Rightarrow> int" where
  "dec_val ds = foldl (\<lambda>a d. a * 10 + (int (unat d) - 48)) 0 ds"

definition num_val :: "byte list \<Rightarrow> int" where
  "num_val bs = (case bs of c # ds \<Rightarrow> if c = 45 then - dec_val ds else dec_val bs | [] \<Rightarrow> 0)"

lemma uint_digit: "uint (48 + word_of_nat (v mod 10) :: byte) = 48 + int (v mod 10)"
  using unat_digit [of v] by (metis of_nat_add of_nat_numeral of_nat_unat)

lemma llong_digits_correct:
  assumes "v < 10 ^ n" "0 < n" "int n \<le> p + 1"
  shows "\<exists>ds q. llong_digits p v acc = Inr (q, ds @ acc) \<and> dec_val ds = int v \<and> p - int n \<le> q \<and>
    ds \<noteq> [] \<and> hd ds \<noteq> 45"
  using assms
proof (induction n arbitrary: p v acc)
  case (Suc n)
  let ?d = "48 + word_of_nat (v mod 10) :: byte"
  have p: "0 \<le> p" using Suc.prems by simp
  have "?d \<noteq> 45"
  proof
    assume "?d = 45"
    then have "unat ?d = unat (45 :: byte)" by (rule arg_cong)
    then show False using unat_digit [of v] by simp
  qed
  show ?case
  proof (cases "v div 10 = 0")
    case True
    then have "v mod 10 = v" by auto
    with True p have "llong_digits p v acc = Inr (p - 1, [?d] @ acc)" "dec_val [?d] = int v"
      using uint_digit [of v] by (simp_all add: llong_digits.simps dec_val_def)
    with \<open>?d \<noteq> 45\<close> show ?thesis by (intro exI [of _ "[?d]"] exI [of _ "p - 1"]) simp
  next
    case False
    have "v div 10 < 10 ^ n" using Suc.prems(1) by (simp add: less_mult_imp_div_less mult.commute)
    moreover from this False have "0 < n" by (cases n) auto
    ultimately obtain ds q where ds: "llong_digits (p - 1) (v div 10) (?d # acc) = Inr (q, ds @ ?d # acc)"
      "dec_val ds = int (v div 10)" "p - 1 - int n \<le> q" "ds \<noteq> []" "hd ds \<noteq> 45"
      using Suc.IH [of "v div 10" "p - 1" "?d # acc"] Suc.prems(3) by auto
    have "dec_val (ds @ [?d]) = dec_val ds * 10 + int (v mod 10)"
      using uint_digit [of v] by (simp add: dec_val_def)
    also have "\<dots> = int v" using ds(2) by (metis div_mult_mod_eq of_nat_add of_nat_mult of_nat_numeral)
    finally have "dec_val (ds @ [?d]) = int v" .
    with ds False p show ?thesis
      by (intro exI [of _ "ds @ [?d]"] exI [of _ q]) (simp add: llong_digits.simps [of p v])
  qed
qed simp

lemma sdsfromlonglong_correct:
  assumes "- 9223372036854775808 < v" "v < 9223372036854775808"
  shows "\<exists>bs. sdsfromlonglong v = Inr bs \<and> num_val bs = v"
proof -
  have "nat \<bar>v\<bar> < 10 ^ 19" using assms by simp
  then obtain ds q where ds: "llong_digits 31 (nat \<bar>v\<bar>) [] = Inr (q, ds)" "dec_val ds = \<bar>v\<bar>"
    "12 \<le> q" "ds \<noteq> []" "hd ds \<noteq> 45"
    using llong_digits_correct [of "nat \<bar>v\<bar>" 19 31 "[]"] by auto
  then show ?thesis using assms
    by (cases ds) (auto simp: sdsfromlonglong_def num_val_def)
qed

section \<open>Properties\<close>

text \<open>
  The operations that change a string, with their effect on its value and the condition
  under which the new length stays in the range of the header.
\<close>

datatype sds_op =
    Cat "byte list" | Cpy "byte list" | Clear | Trim "byte list" | Range int int | Grow_zero int
  | To_lower | To_upper | Map_chars "byte list" "byte list" nat | Cat_repr "byte list"
  | Remove_free | Update_len

fun sds_exec :: "mem_env \<Rightarrow> sds_op \<Rightarrow> sdshdr \<Rightarrow> sdshdr res" where
  "sds_exec m (Cat bs) s = sdscatlen m s bs (int (length bs))"
| "sds_exec m (Cpy bs) s = sdscpylen m s bs (int (length bs))"
| "sds_exec m Clear s = sdsclear s"
| "sds_exec m (Trim cset) s = sdstrim s cset"
| "sds_exec m (Range a b) s = sdsrange s a b"
| "sds_exec m (Grow_zero n) s = sdsgrowzero m s n"
| "sds_exec m To_lower s = Inr (sdstolower s)"
| "sds_exec m To_upper s = Inr (sdstoupper s)"
| "sds_exec m (Map_chars from to n) s = sdsmapchars s from to n"
| "sds_exec m (Cat_repr bs) s = sdscatrepr m s bs (int (length bs))"
| "sds_exec m Remove_free s = sdsRemoveFreeSpace m s"
| "sds_exec m Update_len s = sdsupdatelen s"

fun sds_spec :: "sds_op \<Rightarrow> byte list \<Rightarrow> byte list" where
  "sds_spec (Cat bs) v = v @ bs"
| "sds_spec (Cpy bs) v = bs"
| "sds_spec Clear v = []"
| "sds_spec (Trim cset) v = strip (c_strchr cset) v"
| "sds_spec (Range a b) v = range_spec v a b"
| "sds_spec (Grow_zero n) v = v @ replicate (nat n - length v) 0"
| "sds_spec To_lower v = map c_tolower v"
| "sds_spec To_upper v = map c_toupper v"
| "sds_spec (Map_chars from to n) v = map (map_spec (take n from) (take n to)) v"
| "sds_spec (Cat_repr bs) v = v @ repr bs"
| "sds_spec Remove_free v = v"
| "sds_spec Update_len v = takeWhile (\<lambda>c. c \<noteq> 0) v"

definition len_ok :: "int \<Rightarrow> bool" where
  "len_ok n \<longleftrightarrow> n + SDS_MAX_PREALLOC < 2147483647"

fun sds_op_ok :: "sds_op \<Rightarrow> byte list \<Rightarrow> bool" where
  "sds_op_ok (Cat bs) v = len_ok (int (length v + length bs))"
| "sds_op_ok (Cpy bs) v = len_ok (int (length bs))"
| "sds_op_ok (Range a b) v = (in_i32 a \<and> in_i32 b \<and> \<not> range_overflows v a b)"
| "sds_op_ok (Grow_zero n) v = len_ok n"
| "sds_op_ok (Map_chars from to n) v = (n \<le> length from \<and> n \<le> length to)"
| "sds_op_ok (Cat_repr bs) v = len_ok (int (length v + length (repr bs)))"
| "sds_op_ok _ v = True"

lemma fits_len_ok: "sds_wf s \<Longrightarrow> len_ok (int (length (sds_val s) + n)) \<Longrightarrow> fits s (int n)"
  by (simp add: fits_def len_ok_def) (simp add: sds_wf_def)

lemma sds_exec_refines:
  assumes ok: "mem_ok m" and wf: "sds_wf s" and p: "sds_op_ok p (sds_val s)"
  shows "\<exists>s'. sds_exec m p s = Inr s' \<and> sds_wf s' \<and> sds_val s' = sds_spec p (sds_val s)"
proof (cases p)
  case (Cat bs)
  then show ?thesis
    using sdscatlen_correct [OF wf ok fits_len_ok [OF wf], of "length bs" bs] p by simp
next
  case (Cpy bs)
  then show ?thesis
    using sdscpylen_correct [OF wf ok, of "int (length bs)" bs] p by (simp add: len_ok_def)
next
  case (Cat_repr bs)
  then show ?thesis
    using sdscatrepr_correct [OF wf ok fits_len_ok [OF wf]] p by simp
next
  case (Grow_zero n)
  then have "sds_len s < n \<Longrightarrow> fits s (n - sds_len s)"
    using p wf by (simp add: fits_def len_ok_def)
  moreover have "nat n - length (sds_val s) = nat (n - sds_len s)"
    using wf sds_val_length [OF wf] by (auto simp: sds_wf_def)
  ultimately show ?thesis using sdsgrowzero_correct [OF wf ok] Grow_zero by simp
qed (use sdsclear_correct [OF wf] sdstrim_correct [OF wf] sdsrange_correct [OF wf]
    sds_case_correct [OF wf] sdsmapchars_correct [OF wf] sdsRemoveFreeSpace_correct [OF wf ok]
    sdsupdatelen_correct [OF wf] p in simp_all)

text \<open>A string in a buffer with spare room, for the witnesses.\<close>

definition ex_sds :: "byte list \<Rightarrow> sdshdr" where
  "ex_sds bs = \<lparr>sds_len = int (length bs), sds_free = 3, sds_buf = bs @ [0, 0, 0, 0]\<rparr>"

definition ex_alloc :: mem_env where
  "ex_alloc = \<lparr>al_ok = (\<lambda>n. True), al_junk = (\<lambda>n. 170)\<rparr>"

lemma mem_ok_ex_alloc: "mem_ok ex_alloc"
  by (simp add: mem_ok_def ex_alloc_def)

text \<open>With an allocator that does not run out, the library refines operations on byte lists.\<close>

interpretation sds_ref: data_refinement
  "\<lambda>(m, s). mem_ok m \<and> sds_wf s" "\<lambda>(m, s). sds_val s"
  "\<lambda>p (m, s). res_bind (sds_exec m p s) (\<lambda>s'. Inr (m, s'))" sds_spec sds_op_ok
proof (unfold_locales, goal_cases)
  case (1 s p)
  then show ?case using sds_exec_refines [of "fst s" "snd s" p] by (auto split: prod.splits)
qed

lemma run_res_sds:
  "run_res (\<lambda>p (m, s). res_bind (sds_exec m p s) (\<lambda>s'. Inr (m, s'))) ops (m, s) =
   res_bind (run_res (sds_exec m) ops s) (\<lambda>s'. Inr (m, s'))"
  by (induction ops arbitrary: s) (simp_all add: res_bind_def split: sum.splits)

text \<open>C9: any sequence of string operations whose lengths stay in the range of the header, and in which
  no \<open>sdsrange\<close> on a non-empty string goes from its first byte to \<open>INT_MAX\<close> (whose length overflows), runs
  without signed overflow and without touching a byte outside its allocation, ends in a well-formed string, and computes the
  operations' effects on plain byte lists.\<close>

theorem sds_runs_refine_lists:
  assumes "mem_ok m" "sds_wf s" "run_ok sds_op_ok sds_spec ops (sds_val s)"
  shows "\<exists>s'. run_res (sds_exec m) ops s = Inr s' \<and> sds_wf s' \<and>
    sds_val s' = fold sds_spec ops (sds_val s)"
  using sds_ref.run_refines [of "(m, s)" ops] assms
  by (auto simp: run_res_sds res_bind_Inr_iff)

lemma sds_runs_refine_lists_witness:
  "\<exists>s'. run_res (sds_exec ex_alloc) [Cat [32, 65], To_lower, Trim [32, 0]] (ex_sds []) = Inr s' \<and>
    sds_val s' = [97]"
proof -
  have "sds_wf (ex_sds [])" "sds_val (ex_sds []) = []"
    by (simp_all add: sds_wf_def ex_sds_def sds_val_def)
  then show ?thesis
    using sds_runs_refine_lists [OF mem_ok_ex_alloc, of "ex_sds []" "[Cat [32, 65], To_lower, Trim [32, 0]]"]
    by (auto simp: len_ok_def SDS_MAX_PREALLOC_def c_tolower_def strip_def c_strchr_def)
qed

text \<open>The sign of \<open>sdscmp\<close> is the lexicographic order of the string values: zero exactly for
  equal values, negative exactly when the first value comes first.\<close>

theorem sdscmp_is_lexicographic:
  assumes "sds_wf s1" "sds_wf s2"
  shows "(sdscmp s1 s2 = 0 \<longleftrightarrow> sds_val s1 = sds_val s2) \<and>
    (sdscmp s1 s2 < 0 \<longleftrightarrow> (sds_val s1, sds_val s2) \<in> lexord {(x, y). x < y})"
  using sdscmp_order [OF assms] by blast

lemma sdscmp_is_lexicographic_witness:
  "sdscmp (ex_sds [97]) (ex_sds [97, 98]) < 0"
proof -
  have "sds_wf (ex_sds [97])" "sds_wf (ex_sds [97, 98])" by (simp_all add: sds_wf_def ex_sds_def)
  from sdscmp_is_lexicographic [OF this] show ?thesis by (simp add: sds_val_def ex_sds_def)
qed

text \<open>C17: quoting a byte string with \<open>sdscatrepr\<close> appends a text that \<open>sdssplitargs\<close> reads back as
  one argument with the same bytes, null and control bytes included.\<close>

theorem sdscatrepr_splitargs_roundtrip:
  assumes "sds_wf s" "sds_val s = []" "mem_ok m" "fits s (int (length (repr bs)))"
  shows "\<exists>s'. sdscatrepr m s bs (int (length bs)) = Inr s' \<and> sds_wf s' \<and>
    sdssplitargs (sds_buf s') = Inr (Some [bs])"
proof -
  obtain s' where s': "sdscatrepr m s bs (int (length bs)) = Inr s'" "sds_wf s'" "sds_val s' = repr bs"
    using sdscatrepr_correct [OF assms(1,3,4)] assms(2) by auto
  have "c_strlen (sds_buf s') = Inr (int (length (repr bs)))"
    using c_strlen_sds [OF s'(2)] s'(3) takeWhile_nonzero [OF repr_nonzero] by simp
  moreover have "take (length (repr bs)) (sds_buf s') = repr bs"
    using s' sds_val_length [OF s'(2)] by (simp add: sds_val_def)
  ultimately show ?thesis
    using s' by (simp add: sdssplitargs_def splitargs_repr)
qed

lemma sdscatrepr_splitargs_roundtrip_witness:
  "\<exists>s'. sdscatrepr ex_alloc (ex_sds []) [0, 34, 10, 200, 65] 5 = Inr s' \<and>
    sdssplitargs (sds_buf s') = Inr (Some [[0, 34, 10, 200, 65]])"
proof -
  have "sds_wf (ex_sds [])" "sds_val (ex_sds []) = []" "mem_ok ex_alloc"
    by (simp_all add: sds_wf_def ex_sds_def sds_val_def mem_ok_def ex_alloc_def)
  moreover have "fits (ex_sds []) (int (length (repr [0, 34, 10, 200, 65])))"
    by (simp add: fits_def ex_sds_def SDS_MAX_PREALLOC_def repr_def esc_def fmt_02x_def c_isprint_def)
  ultimately show ?thesis
    using sdscatrepr_splitargs_roundtrip [of "ex_sds []" ex_alloc "[0, 34, 10, 200, 65]"] by auto
qed

text \<open>\<open>sdssplitlen\<close> cuts a string exactly at the separator: it stores every token inside its
  growing array, joining the tokens with the separator gives the string back, and no token
  contains the separator.\<close>

theorem sdssplitlen_splits:
  assumes "s \<noteq> []" "sep \<noteq> []"
  shows "\<exists>ts. sdssplitlen s (int (length s)) sep (int (length sep)) = Inr (Some ts) \<and>
    join_sep sep ts = s \<and> (\<forall>t \<in> set ts. \<not> sublist sep t)"
proof -
  obtain k where k: "length sep = Suc k" using assms(2) by (cases sep) auto
  then have "nat (int (length sep) - 1) = k" "\<not> int (length sep) < 1" by simp_all
  with split_loop_correct [of s "length s" sep k 0 0 "[]" 5] k assms(1) show ?thesis
    by (auto simp: sdssplitlen_def sep_free_def)
qed

lemma sdssplitlen_splits_witness:
  "\<exists>ts. sdssplitlen [97, 44, 44, 98] 4 [44] 1 = Inr (Some ts) \<and> join_sep [44] ts = [97, 44, 44, 98]"
  using sdssplitlen_splits [of "[97, 44, 44, 98]" "[44]"] by auto

text \<open>\<open>sdsfromlonglong\<close> prints every \<open>long long\<close> but the least as a decimal numeral of that value,
  inside its 32-byte buffer.\<close>

theorem sdsfromlonglong_value:
  assumes "- 9223372036854775808 < v" "v < 9223372036854775808"
  shows "\<exists>bs. sdsfromlonglong v = Inr bs \<and> num_val bs = v"
  by (rule sdsfromlonglong_correct [OF assms])

lemma sdsfromlonglong_value_witness: "\<exists>bs. sdsfromlonglong (- 120) = Inr bs \<and> num_val bs = - 120"
  using sdsfromlonglong_value [of "- 120"] by simp

end
