(* ===== verification/Base64.thy ===== *)
theory Base64
  imports Prelude
begin

text \<open>
  Base64, \<open>src/xrtcserver/rtcbase/src/rtc_base/third_party/base64/base64.cc\<close> and \<open>base64.h\<close>: the encoder, which
  fills a string of the right size, and the decoder with its flags for how strictly characters, padding and the
  end of the data are read. A \<open>char\<close> is its byte.
\<close>

section \<open>Definitions\<close>

definition kPad :: byte where "kPad = 61"
definition pd :: byte where "pd = 0xFD"
definition sp :: byte where "sp = 0xFE"
definition il :: byte where "il = 0xFF"

definition Base64Table :: "byte list" where
  "Base64Table = [65, 66, 67, 68, 69, 70, 71, 72, 73, 74, 75, 76, 77, 78, 79, 80, 81, 82, 83, 84, 85, 86, 87, 88, 89, 90,
     97, 98, 99, 100, 101, 102, 103, 104, 105, 106, 107, 108, 109, 110, 111, 112, 113, 114, 115, 116, 117, 118, 119,
     120, 121, 122, 48, 49, 50, 51, 52, 53, 54, 55, 56, 57, 43, 47]"

definition DecodeTable :: "byte list" where
  "DecodeTable =
    [il, il, il, il, il, il, il, il, il, sp,
     sp, sp, sp, sp, il, il, il, il, il, il,
     il, il, il, il, il, il, il, il, il, il,
     il, il, sp, il, il, il, il, il, il, il,
     il, il, il, 62, il, il, il, 63, 52, 53,
     54, 55, 56, 57, 58, 59, 60, 61, il, il,
     il, pd, il, il, il, 0,  1,  2,  3,  4,
     5,  6,  7,  8,  9,  10, 11, 12, 13, 14,
     15, 16, 17, 18, 19, 20, 21, 22, 23, 24,
     25, il, il, il, il, il, il, 26, 27, 28,
     29, 30, 31, 32, 33, 34, 35, 36, 37, 38,
     39, 40, 41, 42, 43, 44, 45, 46, 47, 48,
     49, 50, 51, il, il, il, il, il, il, il,
     il, il, il, il, il, il, il, il, il, il,
     il, il, il, il, il, il, il, il, il, il,
     il, il, il, il, il, il, il, il, il, il,
     il, il, il, il, il, il, il, il, il, il,
     il, il, il, il, il, il, il, il, il, il,
     il, il, il, il, il, il, il, il, il, il,
     il, il, il, il, il, il, il, il, il, il,
     il, il, il, il, il, il, il, il, il, il,
     il, il, il, il, il, il, il, il, il, il,
     il, il, il, il, il, il, il, il, il, il,
     il, il, il, il, il, il, il, il, il, il,
     il, il, il, il, il, il, il, il, il, il,
     il, il, il, il, il, il]"

definition IsBase64Char :: "byte \<Rightarrow> bool" where
  "IsBase64Char ch \<longleftrightarrow> (65 \<le> ch \<and> ch \<le> 90) \<or> (97 \<le> ch \<and> ch \<le> 122) \<or> (48 \<le> ch \<and> ch \<le> 57) \<or> ch = 43 \<or> ch = 47"

text \<open>\<open>strchr\<close> also finds the terminator of the table, and the code then reads behind it.\<close>

fun next_in_table :: "byte list \<Rightarrow> byte \<Rightarrow> byte option res" where
  "next_in_table [] ch = (if ch = 0 then Inl Out_of_bounds else Inr None)"
| "next_in_table (x # xs) ch =
     (if x = ch then Inr (Some (case xs of [] \<Rightarrow> hd Base64Table | y # _ \<Rightarrow> y)) else next_in_table xs ch)"

definition GetNextBase64Char :: "byte \<Rightarrow> bool \<Rightarrow> byte option res" where
  "GetNextBase64Char ch has_next_ch = (if \<not> has_next_ch then Inr None else next_in_table Base64Table ch)"

definition IsBase64Encoded :: "byte list \<Rightarrow> bool" where
  "IsBase64Encoded str = list_all IsBase64Char str"

text \<open>\<open>Base64Table[c]\<close>\<close>

definition enc :: "byte \<Rightarrow> byte" where
  "enc c = Base64Table ! unat c"

text \<open>\<open>DecodeTable[c]\<close>\<close>

definition dec :: "byte \<Rightarrow> byte" where
  "dec c = DecodeTable ! unat c"

text \<open>One round of the encoder: the index behind the bytes it used and the four characters it writes.\<close>

definition encode_quantum :: "byte list \<Rightarrow> nat \<Rightarrow> nat \<times> byte list" where
  "encode_quantum d i =
     (let len = length d;
          c1 = drop_bit 2 (d ! i) AND 0x3f;
          c2 = push_bit 4 (d ! i) AND 0x3f;
          i = i + 1;
          c2 = (if i < len then c2 OR (drop_bit 4 (d ! i) AND 0x0f) else c2);
          (o3, i) = (if i < len
                     then let c = push_bit 2 (d ! i) AND 0x3f;
                              i = i + 1;
                              c = (if i < len then c OR (drop_bit 6 (d ! i) AND 0x03) else c)
                          in (enc c, i)
                     else (kPad, i));
          (o4, i) = (if i < len then (enc (d ! i AND 0x3f), i + 1) else (kPad, i))
      in (i, [enc c1, enc c2, o3, o4]))"

lemma encode_quantum_advance: "i < fst (encode_quantum d i)"
  by (simp add: encode_quantum_def Let_def split: prod.splits)

function encode_loop :: "byte list \<Rightarrow> nat \<Rightarrow> nat \<Rightarrow> byte list \<Rightarrow> byte list res" where
  "encode_loop d i dest_ix result =
     (if i < length d
      then res_bind (mem_write dest_ix (snd (encode_quantum d i)) result)
             (encode_loop d (fst (encode_quantum d i)) (dest_ix + 4))
      else Inr result)"
  by pat_completeness auto

termination
  by (relation "measure (\<lambda>(d, i, _). length d - i)") (use encode_quantum_advance in \<open>auto intro: diff_less_mono2 less_le_trans\<close>)

declare encode_loop.simps [simp del]

definition EncodeFromArray :: "byte list \<Rightarrow> byte list res" where
  "EncodeFromArray d = encode_loop d 0 0 (replicate ((length d + 2) div 3 * 4) 0)"

section \<open>Decoding\<close>

definition DO_PARSE_STRICT :: int where "DO_PARSE_STRICT = 1"
definition DO_PARSE_WHITE :: int where "DO_PARSE_WHITE = 2"
definition DO_PARSE_ANY :: int where "DO_PARSE_ANY = 3"
definition DO_PARSE_MASK :: int where "DO_PARSE_MASK = 3"
definition DO_PAD_YES :: int where "DO_PAD_YES = 4"
definition DO_PAD_ANY :: int where "DO_PAD_ANY = 8"
definition DO_PAD_NO :: int where "DO_PAD_NO = 12"
definition DO_PAD_MASK :: int where "DO_PAD_MASK = 12"
definition DO_TERM_BUFFER :: int where "DO_TERM_BUFFER = 16"
definition DO_TERM_CHAR :: int where "DO_TERM_CHAR = 32"
definition DO_TERM_ANY :: int where "DO_TERM_ANY = 48"
definition DO_TERM_MASK :: int where "DO_TERM_MASK = 48"

definition DO_STRICT :: int where "DO_STRICT = DO_PARSE_STRICT OR DO_PAD_YES OR DO_TERM_BUFFER"
definition DO_LAX :: int where "DO_LAX = DO_PARSE_ANY OR DO_PAD_ANY OR DO_TERM_CHAR"

text \<open>The locals of \<open>GetNextQuantum\<close>.\<close>

record quantum =
  q_dpos :: nat
  q_buf :: "byte list"
  q_byte_len :: nat
  q_pad_len :: nat
  q_pad_start :: nat

text \<open>
  The body of the loop on the character at \<open>dpos\<close>, before the increment of \<open>dpos\<close>; the second result is \<open>False\<close> at
  a \<open>break\<close>.
\<close>

definition quantum_step :: "int \<Rightarrow> bool \<Rightarrow> byte list \<Rightarrow> quantum \<Rightarrow> quantum \<times> bool" where
  "quantum_step parse_flags illegal_pads d q =
     (let v = dec (d ! q_dpos q); n = q_byte_len q;
          q = q\<lparr>q_buf := (q_buf q)[n := v]\<rparr>
      in if il = v \<or> (illegal_pads \<and> pd = v) then (q, parse_flags = DO_PARSE_ANY)
         else if sp = v then (q, parse_flags \<noteq> DO_PARSE_STRICT)
         else if pd = v then
           (if n < 2 then (q, parse_flags = DO_PARSE_ANY)
            else if n + q_pad_len q \<ge> 4 then (q, parse_flags = DO_PARSE_ANY)
            else (q\<lparr>q_pad_len := q_pad_len q + 1,
                    q_pad_start := (if q_pad_len q + 1 = 1 then q_dpos q else q_pad_start q)\<rparr>, True))
         else if q_pad_len q > 0 \<and> parse_flags \<noteq> DO_PARSE_ANY then (q, False)
         else (q\<lparr>q_pad_len := 0, q_byte_len := n + 1\<rparr>, True))"

lemma quantum_step_dpos [simp]: "q_dpos (fst (quantum_step pf ip d q)) = q_dpos q"
  by (simp add: quantum_step_def Let_def)

function quantum_loop :: "int \<Rightarrow> bool \<Rightarrow> byte list \<Rightarrow> quantum \<Rightarrow> quantum" where
  "quantum_loop pf ip d q =
     (if q_byte_len q < 4 \<and> q_dpos q < length d
      then let (q, go) = quantum_step pf ip d q
           in if go then quantum_loop pf ip d (q\<lparr>q_dpos := q_dpos q + 1\<rparr>) else q
      else q)"
  by pat_completeness auto

termination
  by (relation "measure (\<lambda>(pf, ip, d, q). length d - q_dpos q)")
     (auto, metis diff_less_mono2 fst_conv lessI quantum_step_dpos)

declare quantum_loop.simps [simp del]

text \<open>The result: the number of characters, \<open>dpos\<close>, the buffer and \<open>padded\<close>.\<close>

definition GetNextQuantum :: "int \<Rightarrow> bool \<Rightarrow> byte list \<Rightarrow> nat \<Rightarrow> byte list \<Rightarrow> nat \<times> nat \<times> byte list \<times> bool" where
  "GetNextQuantum pf ip d dpos qbuf =
     (let q = quantum_loop pf ip d \<lparr>q_dpos = dpos, q_buf = qbuf, q_byte_len = 0, q_pad_len = 0, q_pad_start = 0\<rparr>;
          buf = take (q_byte_len q) (q_buf q) @ replicate (4 - q_byte_len q) 0
      in if 4 = q_byte_len q + q_pad_len q then (q_byte_len q, q_dpos q, buf, True)
         else (q_byte_len q, if q_pad_len q > 0 then q_pad_start q else q_dpos q, buf, False))"

text \<open>A round that found four characters has moved \<open>dpos\<close> by at least one.\<close>

lemma quantum_step_bytes:
  assumes "q_byte_len q < 4"
  shows "q_byte_len (fst (quantum_step pf ip d q)) \<le> q_byte_len q + (if snd (quantum_step pf ip d q) then 1 else 0)"
    "q_byte_len (fst (quantum_step pf ip d q)) = 4 \<longrightarrow> q_pad_len (fst (quantum_step pf ip d q)) = 0"
  using assms by (simp_all add: quantum_step_def Let_def)

lemma quantum_loop_bytes:
  assumes "q_byte_len q \<le> 4" "q_byte_len q = 4 \<longrightarrow> q_pad_len q = 0"
  shows "q_byte_len (quantum_loop pf ip d q) \<le> 4 \<and>
    (q_byte_len (quantum_loop pf ip d q) = 4 \<longrightarrow> q_pad_len (quantum_loop pf ip d q) = 0) \<and>
    q_dpos q + (q_byte_len (quantum_loop pf ip d q) - q_byte_len q) \<le> q_dpos (quantum_loop pf ip d q)"
  using assms
proof (induction pf ip d q rule: quantum_loop.induct)
  case (1 pf ip d q)
  show ?case
  proof (cases "q_byte_len q < 4 \<and> q_dpos q < length d")
    case True
    obtain q1 go where st: "quantum_step pf ip d q = (q1, go)" by fastforce
    note b = quantum_step_bytes [of q pf ip d, unfolded st]
    have dp: "q_dpos q1 = q_dpos q" using quantum_step_dpos [of pf ip d q] st by simp
    show ?thesis
    proof (cases go)
      case go: True
      have "q_byte_len q1 \<le> q_byte_len q + 1" "q_byte_len q1 = 4 \<longrightarrow> q_pad_len q1 = 0" using b True go by auto
      with "1.IH" [OF True st [symmetric] refl go] True st go dp show ?thesis
        by (subst (1 2 3 4 5) quantum_loop.simps) auto
    next
      case go: False
      then show ?thesis using b True st dp by (subst (1 2 3 4 5) quantum_loop.simps) auto
    qed
  next
    case False
    then show ?thesis using "1.prems" by (subst (1 2 3 4 5) quantum_loop.simps) auto
  qed
qed

lemma GetNextQuantum_advance:
  assumes "GetNextQuantum pf ip d dpos qbuf = (qlen, dpos', qbuf', padded)" "\<not> qlen < 4"
  shows "dpos < dpos'"
proof -
  let ?q = "\<lparr>q_dpos = dpos, q_buf = qbuf, q_byte_len = 0, q_pad_len = 0, q_pad_start = 0\<rparr>"
  from quantum_loop_bytes [of ?q pf ip d] assms show ?thesis
    by (auto simp: GetNextQuantum_def Let_def split: if_splits)
qed

text \<open>The loop of \<open>DecodeFromArrayTemplate\<close>; \<open>qbuf\<close> keeps its contents from round to round.\<close>

function decode_loop :: "int \<Rightarrow> int \<Rightarrow> int \<Rightarrow> byte list \<Rightarrow> nat \<Rightarrow> byte list \<Rightarrow> byte list \<Rightarrow> bool \<times> byte list \<times> nat" where
  "decode_loop parse_flags pad_flags term_flags d dpos qbuf result =
     (if dpos < length d then
        case GetNextQuantum parse_flags (DO_PAD_NO = pad_flags) d dpos qbuf of (qlen, dpos, qbuf, padded) \<Rightarrow>
        let c1 = push_bit 2 (qbuf ! 0) OR (drop_bit 4 (qbuf ! 1) AND 0x3);
            c2 = (push_bit 4 (qbuf ! 1) AND 0xf0) OR (drop_bit 2 (qbuf ! 2) AND 0xf);
            c3 = (push_bit 6 (qbuf ! 2) AND 0xc0) OR qbuf ! 3;
            result = result @ (if qlen \<ge> 4 then [c1, c2, c3] else if qlen \<ge> 3 then [c1, c2] else if qlen \<ge> 2 then [c1] else []);
            c = (if qlen \<ge> 4 then 0 else if qlen \<ge> 3 then c3 else if qlen \<ge> 2 then c2 else c1)
        in if qlen < 4
           then (\<not> (DO_TERM_ANY \<noteq> term_flags \<and> 0 \<noteq> c) \<and> \<not> (DO_PAD_YES = pad_flags \<and> \<not> padded), result, dpos)
           else decode_loop parse_flags pad_flags term_flags d dpos qbuf result
      else (True, result, dpos))"
  by pat_completeness auto

termination
  by (relation "measure (\<lambda>(pf, pa, te, d, dpos, _). length d - dpos)") (auto dest!: GetNextQuantum_advance [OF sym])

declare decode_loop.simps [simp del]

text \<open>The result: success, the bytes, and \<open>data_used\<close>. \<open>junk\<close> is what \<open>qbuf\<close> holds before it is set.\<close>

definition DecodeFromArray :: "byte list \<Rightarrow> byte list \<Rightarrow> int \<Rightarrow> bool \<times> byte list \<times> nat" where
  "DecodeFromArray junk d flags =
     (let parse_flags = flags AND DO_PARSE_MASK;
          pad_flags = flags AND DO_PAD_MASK;
          term_flags = flags AND DO_TERM_MASK;
          (success, result, dpos) = decode_loop parse_flags pad_flags term_flags d 0 junk []
      in (success \<and> \<not> (DO_TERM_BUFFER = term_flags \<and> dpos \<noteq> length d), result, dpos))"

section \<open>Lemmas\<close>

text \<open>The two tables are inverse to each other.\<close>

lemma length_tables [simp]: "length Base64Table = 64" "length DecodeTable = 256"
  by (simp_all add: Base64Table_def DecodeTable_def)

lemma all_bytes: "(\<forall>c :: byte. P c) \<longleftrightarrow> list_all P (map word_of_nat [0..<256])"
proof
  assume l: "list_all P (map word_of_nat [0..<256])"
  show "\<forall>c. P c"
  proof
    fix c :: byte
    have "c = word_of_nat (unat c)" "unat c \<in> set [0..<256]" using unat_byte_bound [of c] by simp_all
    then have "c \<in> set (map word_of_nat [0..<256])" unfolding set_map by (rule image_eqI)
    then show "P c" using l by (auto simp: list_all_iff)
  qed
qed (simp add: list_all_iff)

lemma tables_inverse:
  "\<forall>c. (c < 64 \<longrightarrow> dec (enc c) = c) \<and> (dec c < 64 \<longrightarrow> enc (dec c) = c) \<and>
     (dec c < 64 \<or> dec c = il \<or> dec c = sp \<or> (dec c = pd \<and> c = kPad))"
  unfolding all_bytes by code_simp

lemma dec_enc: "c < 64 \<Longrightarrow> dec (enc c) = c"
  and enc_dec: "dec c < 64 \<Longrightarrow> enc (dec c) = c"
  and dec_cases: "dec c < 64 \<or> dec c = il \<or> dec c = sp \<or> (dec c = pd \<and> c = kPad)"
  using tables_inverse by blast+

lemma dec_pad [simp]: "dec kPad = pd"
  by (simp add: dec_def kPad_def DecodeTable_def)

lemma marks [simp]: "\<not> il < 64" "\<not> sp < 64" "\<not> pd < 64" "il \<noteq> sp" "il \<noteq> pd" "sp \<noteq> il" "sp \<noteq> pd" "pd \<noteq> il" "pd \<noteq> sp"
  by (simp_all add: il_def sp_def pd_def)

text \<open>Reading six bits as a word.\<close>

lemma and_masks:
  fixes x :: byte
  shows "x AND 63 = take_bit 6 x" "x AND 15 = take_bit 4 x" "x AND 3 = take_bit 2 x"
    "x AND 240 = push_bit 4 (drop_bit 4 x)" "x AND 192 = push_bit 6 (drop_bit 6 x)"
proof -
  have m: "(63::byte) = mask 6" "(15::byte) = mask 4" "(3::byte) = mask 2" by (simp_all add: mask_eq_exp_minus_1)
  show "x AND 63 = take_bit 6 x" "x AND 15 = take_bit 4 x" "x AND 3 = take_bit 2 x"
    by (simp_all only: m take_bit_eq_mask)
  have h: "(240::byte) = NOT (mask 4)" "(192::byte) = NOT (mask 6)" by (simp_all add: mask_eq_exp_minus_1)
  show "x AND 240 = push_bit 4 (drop_bit 4 x)" "x AND 192 = push_bit 6 (drop_bit 6 x)"
    unfolding h by (auto intro!: bit_word_eqI simp: bit_simps)
qed

lemma six_bits [simp]: "take_bit 6 (x :: byte) < 64"
proof -
  have "take_bit 6 x = x AND mask 6" by (rule take_bit_eq_mask)
  also have "\<dots> \<le> mask 6" by (rule word_and_le1)
  also have "(mask 6 :: byte) < 64" by (simp add: mask_eq_exp_minus_1)
  finally show ?thesis .
qed

lemma six_bits_eq: "(x :: byte) < 64 \<Longrightarrow> take_bit 6 x = x"
proof -
  have "\<forall>x :: byte. x < 64 \<longrightarrow> take_bit 6 x = x" unfolding all_bytes by code_simp
  then show "x < 64 \<Longrightarrow> take_bit 6 x = x" by blast
qed

text \<open>The four six-bit groups of three bytes, and the three bytes of four groups.\<close>

definition sx1 :: "byte \<Rightarrow> byte" where "sx1 a = take_bit 6 (drop_bit 2 a)"
definition sx2 :: "byte \<Rightarrow> byte \<Rightarrow> byte" where "sx2 a b = take_bit 6 (push_bit 4 a) OR take_bit 4 (drop_bit 4 b)"
definition sx3 :: "byte \<Rightarrow> byte \<Rightarrow> byte" where "sx3 b c = take_bit 6 (push_bit 2 b) OR take_bit 2 (drop_bit 6 c)"
definition sx4 :: "byte \<Rightarrow> byte" where "sx4 c = take_bit 6 c"
definition ox1 :: "byte \<Rightarrow> byte \<Rightarrow> byte" where "ox1 p q = push_bit 2 p OR take_bit 2 (drop_bit 4 q)"
definition ox2 :: "byte \<Rightarrow> byte \<Rightarrow> byte" where
  "ox2 q r = push_bit 4 (drop_bit 4 (push_bit 4 q)) OR take_bit 4 (drop_bit 2 r)"
definition ox3 :: "byte \<Rightarrow> byte \<Rightarrow> byte" where "ox3 r s = push_bit 6 (drop_bit 6 (push_bit 6 r)) OR s"

lemmas groups = sx1_def sx2_def sx3_def sx4_def ox1_def ox2_def ox3_def

lemma sx_small [simp]: "sx1 a < 64" "sx2 a b < 64" "sx3 b c < 64" "sx4 c < 64"
proof -
  have "take_bit 6 (sx2 a b) = sx2 a b" "take_bit 6 (sx3 b c) = sx3 b c"
    by (auto intro!: bit_word_eqI simp: groups bit_simps)
  then show "sx2 a b < 64" "sx3 b c < 64" by (metis six_bits)+
qed (simp_all add: groups)

lemma byte_eqI:
  assumes "bit x 0 = bit y 0" "bit x 1 = bit y 1" "bit x 2 = bit y 2" "bit x 3 = bit y 3"
    "bit x 4 = bit y 4" "bit x 5 = bit y 5" "bit x 6 = bit y 6" "bit x 7 = bit y 7"
  shows "x = (y :: byte)"
proof (rule bit_word_eqI)
  fix n assume "n < LENGTH(8)"
  then consider "n = 0" | "n = 1" | "n = 2" | "n = 3" | "n = 4" | "n = 5" | "n = 6" | "n = 7" by (fastforce simp: numeral_eq_Suc less_Suc_eq)
  then show "bit x n = bit y n" using assms by cases simp_all
qed

lemma ox_sx:
  "ox1 (sx1 a) (sx2 a b) = a" "ox2 (sx2 a b) (sx3 b c) = b" "ox3 (sx3 b c) (sx4 c) = c"
  by (rule byte_eqI; simp add: groups bit_simps)+

lemma sx_ox:
  assumes "p < 64" "q < 64" "r < 64" "s < 64"
  shows "sx1 (ox1 p q) = p" "sx2 (ox1 p q) (ox2 q r) = q" "sx3 (ox2 q r) (ox3 r s) = r" "sx4 (ox3 r s) = s"
proof -
  note t = assms [THEN six_bits_eq, symmetric]
  show "sx1 (ox1 p q) = p"
    by (subst (1 2) t(1)) (rule byte_eqI; simp add: groups bit_simps)
  show "sx2 (ox1 p q) (ox2 q r) = q"
    by (subst (1 2 3) t(2), subst t(3)) (rule byte_eqI; simp add: groups bit_simps)
  show "sx3 (ox2 q r) (ox3 r s) = r"
    by (subst (1 2 3) t(3), subst t(4)) (rule byte_eqI; simp add: groups bit_simps)
  show "sx4 (ox3 r s) = s"
    by (subst (1 2) t(4)) (rule byte_eqI; simp add: groups bit_simps)
qed

text \<open>What the encoder computes, three bytes at a time.\<close>

fun b64 :: "byte list \<Rightarrow> byte list" where
  "b64 [] = []"
| "b64 [a] = [enc (sx1 a), enc (sx2 a 0), kPad, kPad]"
| "b64 [a, b] = [enc (sx1 a), enc (sx2 a b), enc (sx3 b 0), kPad]"
| "b64 (a # b # c # d) = [enc (sx1 a), enc (sx2 a b), enc (sx3 b c), enc (sx4 c)] @ b64 d"

lemma length_b64: "length (b64 d) = (length d + 2) div 3 * 4"
proof (induction d rule: b64.induct)
  case (4 a b c d)
  have "(length (a # b # c # d) + 2) div 3 = Suc ((length d + 2) div 3)" by simp
  with 4 show ?case by simp
qed simp_all

lemma drop_nth: "drop i d = x # r \<Longrightarrow> i < length d \<and> d ! i = x \<and> drop (Suc i) d = r"
  by (metis drop_eq_Nil2 list.discI list.inject not_le_imp_less Cons_nth_drop_Suc)

lemma encode_quantum_drop:
  "drop i d = [a] \<Longrightarrow> encode_quantum d i = (i + 1, b64 [a])"
  "drop i d = [a, b] \<Longrightarrow> encode_quantum d i = (i + 2, b64 [a, b])"
  "drop i d = a # b # c # r \<Longrightarrow> encode_quantum d i = (i + 3, take 4 (b64 (a # b # c # r)))"
proof -
  assume "drop i d = [a]"
  then have "i < length d" "d ! i = a" "length d = i + 1" using drop_nth [of i d a "[]"] by (auto dest: arg_cong [of _ _ length])
  then show "encode_quantum d i = (i + 1, b64 [a])" by (simp add: encode_quantum_def groups and_masks)
next
  assume h: "drop i d = [a, b]"
  then have "d ! i = a" "d ! Suc i = b" "length d = i + 2"
    using drop_nth [of i d a "[b]"] drop_nth [of "Suc i" d b "[]"] by (auto dest: arg_cong [of _ _ length])
  then show "encode_quantum d i = (i + 2, b64 [a, b])" by (simp add: encode_quantum_def groups and_masks)
next
  assume h: "drop i d = a # b # c # r"
  then have "d ! i = a" "d ! Suc i = b" "d ! Suc (Suc i) = c" "Suc (Suc i) < length d"
    using drop_nth [of i d a "b # c # r"] drop_nth [of "Suc i" d b "c # r"] drop_nth [of "Suc (Suc i)" d c r] by auto
  then show "encode_quantum d i = (i + 3, take 4 (b64 (a # b # c # r)))" by (simp add: encode_quantum_def groups and_masks)
qed

lemma overwrite_append:
  assumes "i + length as + length bs \<le> length buf"
  shows "overwrite (i + length as) bs (overwrite i as buf) = overwrite i (as @ bs) buf"
  using assms by (simp add: overwrite_def ac_simps)

lemma encode_loop_end: "length d \<le> i \<Longrightarrow> encode_loop d i dest buf = Inr buf"
  by (simp add: encode_loop.simps)

lemma encode_loop_b64:
  assumes "drop i d = xs" "dest + length (b64 xs) \<le> length buf"
  shows "encode_loop d i dest buf = Inr (overwrite dest (b64 xs) buf)"
  using assms
proof (induction xs arbitrary: i dest buf rule: b64.induct)
  case 1
  then show ?case by (simp add: encode_loop.simps)
next
  case (2 a)
  then show ?case
    using drop_nth [of i d a "[]"] encode_quantum_drop(1) [OF 2(1)]
    by (subst encode_loop.simps) (simp add: encode_loop_end)
next
  case (3 a b)
  then show ?case
    using drop_nth [of i d a "[b]"] drop_nth [of "Suc i" d b "[]"] encode_quantum_drop(2) [OF 3(1)]
    by (subst encode_loop.simps) (simp add: encode_loop_end)
next
  case (4 a b c r)
  have d3: "drop (i + 3) d = r"
    using drop_nth [of i d a] drop_nth [of "Suc i" d b] drop_nth [of "Suc (Suc i)" d c] 4(2) by (simp add: numeral_3_eq_3)
  let ?q = "[enc (sx1 a), enc (sx2 a b), enc (sx3 b c), enc (sx4 c)]"
  have "encode_loop d i dest buf = encode_loop d (i + 3) (dest + 4) (overwrite dest ?q buf)"
    using drop_nth [OF 4(2)] encode_quantum_drop(3) [OF 4(2)] 4(3) by (subst encode_loop.simps) (simp add: mem_write_ok)
  also have "\<dots> = Inr (overwrite (dest + 4) (b64 r) (overwrite dest ?q buf))"
    using 4(1) [OF d3] 4(3) by simp
  also have "overwrite (dest + 4) (b64 r) (overwrite dest ?q buf) = overwrite dest (?q @ b64 r) buf"
    using overwrite_append [of dest ?q "b64 r" buf] 4(3) by (simp add: numeral_eq_Suc)
  finally show ?case by simp
qed

lemma EncodeFromArray_b64: "EncodeFromArray d = Inr (b64 d)"
  unfolding EncodeFromArray_def by (subst encode_loop_b64 [OF refl]) (simp_all add: length_b64 overwrite_def)

section \<open>Decoding\<close>

text \<open>Steps of the character loop.\<close>

lemma quantum_char:
  assumes "q_byte_len q < 4" "q_dpos q < length d" "dec (d ! q_dpos q) < 64" "q_pad_len q = 0"
  shows "quantum_loop pf ip d q = quantum_loop pf ip d
    (q\<lparr>q_buf := (q_buf q)[q_byte_len q := dec (d ! q_dpos q)], q_byte_len := q_byte_len q + 1, q_dpos := q_dpos q + 1\<rparr>)"
proof -
  have "dec (d ! q_dpos q) \<noteq> il" "dec (d ! q_dpos q) \<noteq> pd" "dec (d ! q_dpos q) \<noteq> sp" using assms(3) by auto
  then have "quantum_step pf ip d q =
      (q\<lparr>q_buf := (q_buf q)[q_byte_len q := dec (d ! q_dpos q)], q_byte_len := q_byte_len q + 1\<rparr>, True)"
    using assms(4) by (auto simp: quantum_step_def Let_def)
  then show ?thesis using assms by (subst quantum_loop.simps) simp
qed

lemma quantum_pad:
  assumes "2 \<le> q_byte_len q" "q_byte_len q + q_pad_len q < 4" "q_dpos q < length d" "d ! q_dpos q = kPad"
  shows "quantum_loop pf False d q = quantum_loop pf False d
    (q\<lparr>q_buf := (q_buf q)[q_byte_len q := pd], q_pad_len := q_pad_len q + 1,
       q_pad_start := (if q_pad_len q = 0 then q_dpos q else q_pad_start q), q_dpos := q_dpos q + 1\<rparr>)"
  using assms by (subst quantum_loop.simps) (simp add: quantum_step_def Let_def)

lemma quantum_stop: "4 \<le> q_byte_len q \<or> length d \<le> q_dpos q \<Longrightarrow> quantum_loop pf ip d q = q"
  by (subst quantum_loop.simps) auto

lemma four_eq: "length q = 4 \<Longrightarrow> \<exists>a b c d. q = [a, b, c, d]"
  by (auto simp: numeral_eq_Suc length_Suc_conv)

lemma quantum_full:
  assumes "drop i d = x0 # x1 # x2 # x3 # r" "dec x0 < 64" "dec x1 < 64" "dec x2 < 64" "dec x3 < 64" "length qbuf = 4"
  shows "GetNextQuantum pf ip d i qbuf = (4, i + 4, [dec x0, dec x1, dec x2, dec x3], True)"
proof -
  note n0 = drop_nth [OF assms(1)]
  note n1 = drop_nth [OF n0 [THEN conjunct2, THEN conjunct2]]
  note n2 = drop_nth [OF n1 [THEN conjunct2, THEN conjunct2]]
  note n3 = drop_nth [OF n2 [THEN conjunct2, THEN conjunct2]]
  obtain u v w z where "qbuf = [u, v, w, z]" using four_eq [OF assms(6)] by blast
  then show ?thesis
    using n0 n1 n2 n3 assms(2-5) by (simp add: GetNextQuantum_def quantum_char quantum_stop)
qed

lemma quantum_padded:
  assumes "drop i d = [x0, x1, kPad, kPad]" "dec x0 < 64" "dec x1 < 64" "length qbuf = 4"
  shows "GetNextQuantum pf False d i qbuf = (2, i + 4, [dec x0, dec x1, 0, 0], True)"
proof -
  note n0 = drop_nth [OF assms(1)]
  note n1 = drop_nth [OF n0 [THEN conjunct2, THEN conjunct2]]
  note n2 = drop_nth [OF n1 [THEN conjunct2, THEN conjunct2]]
  note n3 = drop_nth [OF n2 [THEN conjunct2, THEN conjunct2]]
  obtain u v w z where "qbuf = [u, v, w, z]" using four_eq [OF assms(4)] by blast
  then show ?thesis
    using n0 n1 n2 n3 assms(2-3) by (simp add: GetNextQuantum_def quantum_char quantum_pad quantum_stop numeral_2_eq_2)
qed

lemma quantum_padded1:
  assumes "drop i d = [x0, x1, x2, kPad]" "dec x0 < 64" "dec x1 < 64" "dec x2 < 64" "length qbuf = 4"
  shows "GetNextQuantum pf False d i qbuf = (3, i + 4, [dec x0, dec x1, dec x2, 0], True)"
proof -
  note n0 = drop_nth [OF assms(1)]
  note n1 = drop_nth [OF n0 [THEN conjunct2, THEN conjunct2]]
  note n2 = drop_nth [OF n1 [THEN conjunct2, THEN conjunct2]]
  note n3 = drop_nth [OF n2 [THEN conjunct2, THEN conjunct2]]
  obtain u v w z where "qbuf = [u, v, w, z]" using four_eq [OF assms(5)] by blast
  then show ?thesis
    using n0 n1 n2 n3 assms(2-4) by (simp add: GetNextQuantum_def quantum_char quantum_pad quantum_stop numeral_3_eq_3)
qed

text \<open>One round of the decoder on a quantum of four characters, or on the padded last one.\<close>

lemma decode_round:
  assumes "GetNextQuantum pf (DO_PAD_NO = pa) d i qbuf = (qlen, i', [p, q, r, s], padded)" "i < length d"
  shows "qlen = 4 \<Longrightarrow> decode_loop pf pa te d i qbuf res =
      decode_loop pf pa te d i' [p, q, r, s] (res @ [ox1 p q, ox2 q r, ox3 r s])"
    "qlen = 3 \<Longrightarrow> decode_loop pf pa te d i qbuf res =
      ((DO_TERM_ANY = te \<or> ox3 r s = 0) \<and> (DO_PAD_YES \<noteq> pa \<or> padded), res @ [ox1 p q, ox2 q r], i')"
    "qlen = 2 \<Longrightarrow> decode_loop pf pa te d i qbuf res =
      ((DO_TERM_ANY = te \<or> ox2 q r = 0) \<and> (DO_PAD_YES \<noteq> pa \<or> padded), res @ [ox1 p q], i')"
  using assms by (subst decode_loop.simps, simp add: groups and_masks Let_def, blast?)+

lemma decode_end: "length d \<le> i \<Longrightarrow> decode_loop pf pa te d i qbuf res = (True, res, i)"
  by (simp add: decode_loop.simps)

lemma ox_zero [simp]: "ox2 (sx2 a 0) 0 = 0" "ox3 (sx3 b 0) 0 = 0"
  by (rule byte_eqI; simp add: groups bit_simps)+

lemma ox1_last [simp]: "ox1 (sx1 a) (sx2 a b) = a" "ox2 (sx2 a b) (sx3 b c) = b" "ox3 (sx3 b c) (sx4 c) = c"
  by (rule ox_sx)+

lemma decode_loop_b64:
  assumes "drop i d = b64 xs" "pa \<noteq> DO_PAD_NO" "length qbuf = 4" "i \<le> length d"
  shows "decode_loop pf pa te d i qbuf res = (True, res @ xs, length d)"
  using assms
proof (induction xs arbitrary: i qbuf res rule: b64.induct)
  case 1
  then show ?case by (simp add: decode_end)
next
  case (2 a)
  have l: "length d = i + 4" "i < length d" using arg_cong [OF 2(1), of length] 2(4) by auto
  have "GetNextQuantum pf (DO_PAD_NO = pa) d i qbuf = (2, i + 4, [sx1 a, sx2 a 0, 0, 0], True)"
    using quantum_padded [of i d "enc (sx1 a)" "enc (sx2 a 0)" qbuf pf] 2 by (simp add: dec_enc)
  from decode_round(3) [OF this l(2) refl] l show ?case by simp
next
  case (3 a b)
  have l: "length d = i + 4" "i < length d" using arg_cong [OF 3(1), of length] 3(4) by auto
  have "GetNextQuantum pf (DO_PAD_NO = pa) d i qbuf = (3, i + 4, [sx1 a, sx2 a b, sx3 b 0, 0], True)"
    using quantum_padded1 [of i d "enc (sx1 a)" "enc (sx2 a b)" "enc (sx3 b 0)" qbuf pf] 3 by (simp add: dec_enc)
  from decode_round(2) [OF this l(2) refl] l show ?case by simp
next
  case (4 a b c r)
  have l: "i + 4 \<le> length d" "i < length d" using arg_cong [OF 4(2), of length] 4(5) by auto
  have dr: "drop (i + 4) d = b64 r" using arg_cong [OF 4(2), of "drop 4"] by (simp add: add.commute)
  have "GetNextQuantum pf (DO_PAD_NO = pa) d i qbuf = (4, i + 4, [sx1 a, sx2 a b, sx3 b c, sx4 c], True)"
    using quantum_full [of i d "enc (sx1 a)" "enc (sx2 a b)" "enc (sx3 b c)" "enc (sx4 c)" "b64 r" qbuf pf] 4
    by (simp add: dec_enc)
  from decode_round(1) [OF this l(2) refl] 4(1) [OF dr 4(3) _ l(1)] show ?case by simp
qed

text \<open>In strict mode the characters read so far, with their padding, are a prefix of what was there.\<close>

definition read_so_far :: "byte list \<Rightarrow> nat \<Rightarrow> quantum \<Rightarrow> bool" where
  "read_so_far d i q \<longleftrightarrow> (\<exists>cs. drop i d = cs @ replicate (q_pad_len q) kPad @ drop (q_dpos q) d \<and>
     length cs = q_byte_len q \<and> (\<forall>x \<in> set cs. dec x < 64) \<and> take (q_byte_len q) (q_buf q) = map dec cs) \<and>
     length (q_buf q) = 4 \<and> q_byte_len q + q_pad_len q \<le> 4 \<and> (q_pad_len q > 0 \<longrightarrow> 2 \<le> q_byte_len q)"

lemma quantum_step_read:
  assumes r: "read_so_far d i q" and q: "q_byte_len q < 4" "q_dpos q < length d"
    and st: "quantum_step DO_PARSE_STRICT False d q = (q1, go)"
  shows "read_so_far d i (if go then q1\<lparr>q_dpos := q_dpos q1 + 1\<rparr> else q1)"
proof -
  obtain cs where cs: "drop i d = cs @ replicate (q_pad_len q) kPad @ drop (q_dpos q) d" "length cs = q_byte_len q"
    "\<forall>x \<in> set cs. dec x < 64" "take (q_byte_len q) (q_buf q) = map dec cs" "length (q_buf q) = 4"
    "q_byte_len q + q_pad_len q \<le> 4" "q_pad_len q > 0 \<longrightarrow> 2 \<le> q_byte_len q"
    using r by (auto simp: read_so_far_def)
  let ?x = "d ! q_dpos q"
  have dr: "drop (q_dpos q) d = ?x # drop (Suc (q_dpos q)) d" using q(2) by (simp add: Cons_nth_drop_Suc)
  have tk: "take (q_byte_len q) ((q_buf q)[q_byte_len q := v]) = take (q_byte_len q) (q_buf q)" for v by simp
  consider (stop) "\<not> go" "q1 = q\<lparr>q_buf := (q_buf q)[q_byte_len q := dec ?x]\<rparr>"
    | (pad) "go" "?x = kPad" "2 \<le> q_byte_len q" "q_byte_len q + q_pad_len q < 4" "q_dpos q1 = q_dpos q"
        "q_pad_len q1 = Suc (q_pad_len q)" "q_byte_len q1 = q_byte_len q" "q_buf q1 = (q_buf q)[q_byte_len q := dec ?x]"
    | (char) "go" "dec ?x < 64" "q_pad_len q = 0"
        "q1 = q\<lparr>q_buf := (q_buf q)[q_byte_len q := dec ?x], q_pad_len := 0, q_byte_len := q_byte_len q + 1\<rparr>"
    using st dec_cases [of ?x] by (auto simp: quantum_step_def Let_def DO_PARSE_STRICT_def DO_PARSE_ANY_def split: if_splits)
  then show ?thesis
  proof cases
    case stop
    with cs show ?thesis by (auto simp: read_so_far_def)
  next
    case pad
    then show ?thesis
      using cs dr unfolding read_so_far_def
      by (intro conjI exI [of _ cs]) (auto simp: replicate_append_same simp flip: replicate_Suc)
  next
    case char
    then show ?thesis
      using cs dr q(1) unfolding read_so_far_def
      by (intro conjI exI [of _ "cs @ [?x]"]) (auto simp: take_Suc_conv_app_nth)
  qed
qed

lemma quantum_loop_read:
  assumes "read_so_far d i q"
  shows "read_so_far d i (quantum_loop DO_PARSE_STRICT False d q)"
  using assms
proof (induction DO_PARSE_STRICT False d q rule: quantum_loop.induct)
  case (1 d q)
  show ?case
  proof (cases "q_byte_len q < 4 \<and> q_dpos q < length d")
    case True
    obtain q1 go where st: "quantum_step DO_PARSE_STRICT False d q = (q1, go)" by fastforce
    from quantum_step_read [OF "1.prems" _ _ st] True "1.hyps" [OF True st [symmetric] refl] st show ?thesis
      by (subst quantum_loop.simps) (auto split: if_splits)
  next
    case False
    with "1.prems" show ?thesis by (subst quantum_loop.simps) auto
  qed
qed

lemma strict_quantum:
  assumes g: "GetNextQuantum DO_PARSE_STRICT False d i qbuf = (qlen, i', buf, padded)" and len: "length qbuf = 4"
  shows "qlen \<le> 4" "qlen = 4 \<Longrightarrow> padded"
    "padded \<Longrightarrow> \<exists>cs. drop i d = cs @ replicate (4 - qlen) kPad @ drop i' d \<and> length cs = qlen \<and> 2 \<le> qlen \<and>
      (\<forall>x \<in> set cs. dec x < 64) \<and> buf = map dec cs @ replicate (4 - qlen) 0"
proof -
  let ?start = "\<lparr>q_dpos = i, q_buf = qbuf, q_byte_len = 0, q_pad_len = 0, q_pad_start = 0\<rparr>"
  let ?q = "quantum_loop DO_PARSE_STRICT False d ?start"
  have "read_so_far d i ?start" using len by (simp add: read_so_far_def)
  then have "read_so_far d i ?q" by (rule quantum_loop_read)
  then obtain cs where cs: "drop i d = cs @ replicate (q_pad_len ?q) kPad @ drop (q_dpos ?q) d" "length cs = q_byte_len ?q"
    "\<forall>x \<in> set cs. dec x < 64" "take (q_byte_len ?q) (q_buf ?q) = map dec cs" "q_byte_len ?q + q_pad_len ?q \<le> 4"
    "q_pad_len ?q > 0 \<longrightarrow> 2 \<le> q_byte_len ?q"
    by (auto simp: read_so_far_def)
  show "qlen \<le> 4" "qlen = 4 \<Longrightarrow> padded"
    using g quantum_loop_bytes [of ?start DO_PARSE_STRICT False d] by (auto simp: GetNextQuantum_def Let_def split: if_splits)
  assume padded
  with g have "qlen = q_byte_len ?q" "i' = q_dpos ?q" "q_pad_len ?q = 4 - qlen"
    "buf = take (q_byte_len ?q) (q_buf ?q) @ replicate (4 - q_byte_len ?q) 0" "qlen = 4 \<or> q_pad_len ?q > 0"
    by (auto simp: GetNextQuantum_def Let_def split: if_splits)
  with cs show "\<exists>cs. drop i d = cs @ replicate (4 - qlen) kPad @ drop i' d \<and> length cs = qlen \<and> 2 \<le> qlen \<and>
      (\<forall>x \<in> set cs. dec x < 64) \<and> buf = map dec cs @ replicate (4 - qlen) 0"
    by (intro exI [of _ cs]) auto
qed

lemma sx_ox_last:
  assumes "p < 64" "q < 64" "r < 64"
  shows "ox2 q 0 = 0 \<Longrightarrow> sx2 (ox1 p q) 0 = q" "ox3 r 0 = 0 \<Longrightarrow> sx3 (ox2 q r) 0 = r"
  using sx_ox(2) [OF assms(1,2), of 0 0] sx_ox(3) [OF assms, of 0] by simp_all

lemma decode_loop_short:
  assumes "GetNextQuantum pf (DO_PAD_NO = pa) d i qbuf = (qlen, i', buf, padded)" "i < length d" "qlen < 4"
    "pa = DO_PAD_YES" "decode_loop pf pa te d i qbuf res = (True, out, j)"
  shows padded
  using assms by (subst (asm) decode_loop.simps) (auto simp: Let_def split: if_splits)

text \<open>A last quantum of two or three characters stands for one or two bytes.\<close>

lemma strict_last:
  assumes g: "GetNextQuantum pf (DO_PAD_NO = pa) d i qbuf = (qlen, i', map dec cs @ replicate (4 - qlen) 0, padded)" "i < length d"
    and cs: "drop i d = cs @ replicate (4 - qlen) kPad @ drop i' d" "length cs = qlen" "\<forall>x \<in> set cs. dec x < 64" "qlen = 2 \<or> qlen = 3"
    and r: "decode_loop pf pa te d i qbuf res = (True, out, length d)" "DO_TERM_ANY \<noteq> te"
  shows "\<exists>xs. out = res @ xs \<and> drop i d = b64 xs"
  using cs(4)
proof
  assume two: "qlen = 2"
  then obtain x y where xy: "cs = [x, y]" using cs(2) by (auto simp: numeral_eq_Suc length_Suc_conv)
  have "map dec cs @ replicate (4 - qlen) 0 = [dec x, dec y, 0, 0]" using xy two by (simp add: numeral_eq_Suc)
  from decode_round(3) [OF g(1) [unfolded this] g(2) two] r
  have "out = res @ [ox1 (dec x) (dec y)]" "ox2 (dec y) 0 = 0" "i' = length d" by auto
  moreover from this cs(3) xy have "sx1 (ox1 (dec x) (dec y)) = dec x" "sx2 (ox1 (dec x) (dec y)) 0 = dec y"
    using sx_ox_last(1) [of "dec x" "dec y" 0] sx_ox(1) [of "dec x" "dec y" 0 0] by simp_all
  moreover have "drop i d = [x, y, kPad, kPad] @ drop i' d" using cs(1) xy two by (simp add: numeral_eq_Suc)
  ultimately show ?thesis using cs(3) xy by (intro exI [of _ "[ox1 (dec x) (dec y)]"]) (simp add: enc_dec)
next
  assume three: "qlen = 3"
  then obtain x y z where xyz: "cs = [x, y, z]" using cs(2) by (auto simp: numeral_eq_Suc length_Suc_conv)
  have "map dec cs @ replicate (4 - qlen) 0 = [dec x, dec y, dec z, 0]" using xyz three by (simp add: numeral_eq_Suc)
  from decode_round(2) [OF g(1) [unfolded this] g(2) three] r
  have "out = res @ [ox1 (dec x) (dec y), ox2 (dec y) (dec z)]" "ox3 (dec z) 0 = 0" "i' = length d" by auto
  moreover from this cs(3) xyz have "sx1 (ox1 (dec x) (dec y)) = dec x" "sx2 (ox1 (dec x) (dec y)) (ox2 (dec y) (dec z)) = dec y"
    "sx3 (ox2 (dec y) (dec z)) 0 = dec z"
    using sx_ox_last(2) [of "dec x" "dec y" "dec z"] sx_ox(1,2) [of "dec x" "dec y" "dec z" 0] by simp_all
  moreover have "drop i d = [x, y, z, kPad] @ drop i' d" using cs(1) xyz three by (simp add: numeral_eq_Suc)
  ultimately show ?thesis using cs(3) xyz
    by (intro exI [of _ "[ox1 (dec x) (dec y), ox2 (dec y) (dec z)]"]) (simp add: enc_dec)
qed

lemma decode_loop_strict:
  assumes "decode_loop DO_PARSE_STRICT DO_PAD_YES DO_TERM_BUFFER d i qbuf res = (True, out, length d)"
    "length qbuf = 4" "i \<le> length d"
  shows "\<exists>xs. out = res @ xs \<and> drop i d = b64 xs"
  using assms
proof (induction "length d - i" arbitrary: i qbuf res rule: less_induct)
  case less
  let ?P = DO_PARSE_STRICT and ?Y = DO_PAD_YES and ?T = DO_TERM_BUFFER
  show ?case
  proof (cases "i < length d")
    case False
    with less.prems have "out = res" by (simp add: decode_end)
    with False show ?thesis by (intro exI [of _ "[]"]) simp
  next
    case True
    obtain qlen i' buf padded where g: "GetNextQuantum ?P (DO_PAD_NO = ?Y) d i qbuf = (qlen, i', buf, padded)"
      by (cases "GetNextQuantum ?P (DO_PAD_NO = ?Y) d i qbuf") auto
    have flags: "(DO_PAD_NO = ?Y) = False" "DO_TERM_ANY \<noteq> ?T"
      by (simp_all add: DO_PAD_NO_def DO_PAD_YES_def DO_TERM_ANY_def DO_TERM_BUFFER_def)
    note q = strict_quantum [OF g [unfolded flags(1)] less.prems(2)]
    have padded using decode_loop_short [OF g True _ refl less.prems(1)] q(1,2) by (cases "qlen < 4") simp_all
    from q(3) [OF this] obtain cs where cs: "drop i d = cs @ replicate (4 - qlen) kPad @ drop i' d" "length cs = qlen"
      "2 \<le> qlen" "\<forall>x \<in> set cs. dec x < 64" "buf = map dec cs @ replicate (4 - qlen) 0" by blast
    consider (last) "qlen = 2 \<or> qlen = 3" | (four) x y z w where "qlen = 4" "cs = [x, y, z, w]"
      using cs(2,3) q(1) by (auto simp: numeral_eq_Suc length_Suc_conv le_Suc_eq)
    then show ?thesis
    proof cases
      case last
      show ?thesis by (rule strict_last [OF g [unfolded cs(5)] True cs(1,2,4) last less.prems(1) flags(2)])
    next
      case four
      let ?o = "[ox1 (dec x) (dec y), ox2 (dec y) (dec z), ox3 (dec z) (dec w)]"
      have buf: "buf = [dec x, dec y, dec z, dec w]" using cs(5) four by simp
      have adv: "length d - i' < length d - i" using GetNextQuantum_advance [OF g] four True by simp
      from decode_round(1) [OF g [unfolded buf] True four(1)] less.prems(1)
      have "decode_loop ?P ?Y ?T d i' buf (res @ ?o) = (True, out, length d)" by (simp add: buf)
      moreover from this have le: "i' \<le> length d" using decode_end [of d i'] by (cases "i' \<le> length d") auto
      ultimately obtain xs where
        xs: "out = (res @ ?o) @ xs" "drop i' d = b64 xs"
        using less.hyps [of i' buf "res @ ?o"] adv buf by auto
      with cs four sx_ox [of "dec x" "dec y" "dec z" "dec w"] show ?thesis
        by (intro exI [of _ "?o @ xs"]) (simp add: enc_dec)
    qed
  qed
qed

section \<open>Properties\<close>

text \<open>C21: encoding writes exactly the string it has made room for, and decoding the result with any flags that do not
  forbid padding succeeds, consumes it all and gives the bytes back.\<close>

theorem base64_roundtrip:
  assumes "flags AND DO_PAD_MASK \<noteq> DO_PAD_NO" "length junk = 4"
  shows "\<exists>s. EncodeFromArray d = Inr s \<and> length s = (length d + 2) div 3 * 4 \<and>
    DecodeFromArray junk s flags = (True, d, length s)"
proof -
  have "decode_loop pf pa te (b64 d) 0 junk [] = (True, d, length (b64 d))" if "pa \<noteq> DO_PAD_NO" for pf pa te
    using decode_loop_b64 [of 0 "b64 d" d pa junk pf te "[]"] that assms(2) by simp
  then show ?thesis using assms(1) by (simp add: EncodeFromArray_b64 DecodeFromArray_def length_b64)
qed

lemma base64_roundtrip_witness:
  "\<exists>s. EncodeFromArray [77, 97] = Inr s \<and> length s = 4 \<and> DecodeFromArray [0, 0, 0, 0] s DO_LAX = (True, [77, 97], 4)"
proof -
  have "DO_LAX AND DO_PAD_MASK \<noteq> DO_PAD_NO"
    by (simp add: DO_LAX_def DO_PAD_MASK_def DO_PAD_NO_def DO_PARSE_ANY_def DO_PAD_ANY_def DO_TERM_CHAR_def)
  from base64_roundtrip [OF this, of "[0, 0, 0, 0]" "[77, 97]"] show ?thesis by auto
qed

text \<open>The strict decoder accepts the encodings and nothing else: whatever it accepts is the encoding of the bytes
  it returns.\<close>

theorem base64_strict_canonical:
  assumes "DecodeFromArray junk s DO_STRICT = (True, d, used)" "length junk = 4"
  shows "EncodeFromArray d = Inr s \<and> used = length s"
proof -
  have f: "DO_STRICT AND DO_PARSE_MASK = DO_PARSE_STRICT" "DO_STRICT AND DO_PAD_MASK = DO_PAD_YES"
    "DO_STRICT AND DO_TERM_MASK = DO_TERM_BUFFER"
    by (simp_all add: DO_STRICT_def DO_PARSE_MASK_def DO_PAD_MASK_def DO_TERM_MASK_def DO_PARSE_STRICT_def DO_PAD_YES_def
        DO_TERM_BUFFER_def)
  with assms(1) have "decode_loop DO_PARSE_STRICT DO_PAD_YES DO_TERM_BUFFER s 0 junk [] = (True, d, length s)"
    "used = length s"
    by (auto simp: DecodeFromArray_def Let_def split: prod.splits)
  with decode_loop_strict [OF this(1) assms(2)] show ?thesis by (auto simp: EncodeFromArray_b64)
qed

lemma base64_strict_canonical_witness:
  "DecodeFromArray [0, 0, 0, 0] [84, 81, 61, 61] DO_STRICT = (True, [77], 4) \<and> EncodeFromArray [77] = Inr [84, 81, 61, 61]"
proof -
  have "DecodeFromArray [0, 0, 0, 0] [84, 81, 61, 61] DO_STRICT = (True, [77], 4)" by code_simp
  with base64_strict_canonical [OF this] show ?thesis by simp
qed

end
