(* ===== verification/Buffer.thy ===== *)
theory Buffer
  imports Data_Refinement
begin

text \<open>
  The growable buffer \<open>src/xrtcserver/rtcbase/src/rtc_base/buffer.h\<close>, \<open>BufferT\<close> for byte elements. The block the buffer
  owns is a list of \<open>capacity_\<close> bytes (no block is the empty list); bytes of a new block that were
  not set hold what the allocator left there, the argument \<open>junk\<close>. The template argument
  \<open>ZeroOnFree\<close> is the argument \<open>z\<close>, and blocks given back to the allocator are recorded with their
  contents, so that what they reveal can be stated. Sizes of bytes that are in memory are natural
  numbers, since all memory together has fewer than \<open>2 ^ 64\<close> bytes; the one sum with a number that the caller only
  names, in \<open>AppendData\<close> with a setter, is the sum of two \<open>size_t\<close>. Checks that only a debug build has are not part of the model.
\<close>

section \<open>Definitions\<close>

record buffer =
  bf_size :: nat
  bf_capacity :: nat
  bf_data :: "byte list"
  bf_released :: "byte list list"

definition IsConsistent :: "buffer \<Rightarrow> bool" where
  "IsConsistent b \<longleftrightarrow> (bf_data b \<noteq> [] \<or> bf_capacity b = 0) \<and> bf_capacity b \<ge> bf_size b"

definition Buffer_empty :: buffer where
  "Buffer_empty = \<lparr>bf_size = 0, bf_capacity = 0, bf_data = [], bf_released = []\<rparr>"

definition Buffer_sized :: "(nat \<Rightarrow> byte) \<Rightarrow> nat \<Rightarrow> nat \<Rightarrow> buffer" where
  "Buffer_sized junk sz cap =
     \<lparr>bf_size = sz, bf_capacity = max sz cap, bf_data = map junk [0..<max sz cap], bf_released = []\<rparr>"

text \<open>The constructor that copies \<open>size\<close> bytes; \<open>d\<close> is the source from the pointer on.\<close>

definition Buffer_from :: "(nat \<Rightarrow> byte) \<Rightarrow> byte list \<Rightarrow> nat \<Rightarrow> nat \<Rightarrow> buffer res" where
  "Buffer_from junk d sz cap =
     (let b = Buffer_sized junk sz cap
      in res_bind (mem_read 0 sz d) (\<lambda>bs. res_bind (mem_write 0 bs (bf_data b)) (\<lambda>m. Inr (b\<lparr>bf_data := m\<rparr>))))"

definition MaybeZeroCompleteBuffer :: "bool \<Rightarrow> buffer \<Rightarrow> buffer" where
  "MaybeZeroCompleteBuffer z b =
     (if z \<and> bf_capacity b > 0 then b\<lparr>bf_data := replicate (bf_capacity b) 0\<rparr> else b)"

text \<open>Giving the block back: \<open>unique_ptr\<close> deletes it unless it is null.\<close>

definition release_block :: "buffer \<Rightarrow> buffer" where
  "release_block b = (if bf_data b = [] then b else b\<lparr>bf_released := bf_released b @ [bf_data b], bf_data := []\<rparr>)"

definition Buffer_destroy :: "bool \<Rightarrow> buffer \<Rightarrow> buffer" where
  "Buffer_destroy z b = release_block (MaybeZeroCompleteBuffer z b)"

definition ZeroTrailingData :: "nat \<Rightarrow> buffer \<Rightarrow> buffer res" where
  "ZeroTrailingData count b = res_bind (mem_write (bf_size b) (replicate count 0) (bf_data b)) (\<lambda>m. Inr (b\<lparr>bf_data := m\<rparr>))"

definition EnsureCapacityWithHeadroom :: "bool \<Rightarrow> (nat \<Rightarrow> byte) \<Rightarrow> nat \<Rightarrow> bool \<Rightarrow> buffer \<Rightarrow> buffer res" where
  "EnsureCapacityWithHeadroom z junk cap extra_headroom b =
     (if cap \<le> bf_capacity b then Inr b
      else
        let new_capacity = (if extra_headroom then max cap (bf_capacity b + bf_capacity b div 2) else cap);
            new_data = map junk [0..<new_capacity]
        in res_bind (if bf_data b \<noteq> []
                     then res_bind (mem_read 0 (bf_size b) (bf_data b)) (\<lambda>bs. mem_write 0 bs new_data)
                     else Inr new_data) (\<lambda>new_data.
             Inr ((release_block (MaybeZeroCompleteBuffer z b))\<lparr>bf_data := new_data, bf_capacity := new_capacity\<rparr>)))"

definition Buffer_AppendData :: "bool \<Rightarrow> (nat \<Rightarrow> byte) \<Rightarrow> byte list \<Rightarrow> nat \<Rightarrow> buffer \<Rightarrow> buffer res" where
  "Buffer_AppendData z junk d sz b =
     (let new_size = bf_size b + sz
      in res_bind (EnsureCapacityWithHeadroom z junk new_size True b) (\<lambda>b.
         res_bind (mem_read 0 sz d) (\<lambda>bs.
         res_bind (mem_write (bf_size b) bs (bf_data b)) (\<lambda>m.
           Inr (b\<lparr>bf_data := m, bf_size := new_size\<rparr>)))))"

definition Buffer_SetSize :: "bool \<Rightarrow> (nat \<Rightarrow> byte) \<Rightarrow> nat \<Rightarrow> buffer \<Rightarrow> buffer res" where
  "Buffer_SetSize z junk sz b =
     (let old_size = bf_size b
      in res_bind (EnsureCapacityWithHeadroom z junk sz True b) (\<lambda>b.
           let b = b\<lparr>bf_size := sz\<rparr>
           in if z \<and> bf_size b < old_size then ZeroTrailingData (old_size - bf_size b) b else Inr b))"

definition Buffer_SetData :: "bool \<Rightarrow> (nat \<Rightarrow> byte) \<Rightarrow> byte list \<Rightarrow> nat \<Rightarrow> buffer \<Rightarrow> buffer res" where
  "Buffer_SetData z junk d sz b =
     (let old_size = bf_size b
      in res_bind (Buffer_AppendData z junk d sz (b\<lparr>bf_size := 0\<rparr>)) (\<lambda>b.
           if z \<and> bf_size b < old_size then ZeroTrailingData (old_size - bf_size b) b else Inr b))"

text \<open>
  The variants with a setter: it is given the bytes of its view and returns how many it wrote and the new
  bytes of the view; more than it was given is a failed \<open>RTC_CHECK\<close>.
\<close>

type_synonym setter = "byte list \<Rightarrow> nat \<times> byte list"

definition Buffer_AppendWith :: "bool \<Rightarrow> (nat \<Rightarrow> byte) \<Rightarrow> nat \<Rightarrow> setter \<Rightarrow> buffer \<Rightarrow> (nat \<times> buffer) res" where
  "Buffer_AppendWith z junk max_elements setter b =
     (let old_size = bf_size b
      in res_bind (Buffer_SetSize z junk ((old_size + max_elements) mod 2 ^ 64) b) (\<lambda>b.
         res_bind (mem_read old_size max_elements (bf_data b)) (\<lambda>view.
           let (written, view) = setter view
           in res_bind (mem_write old_size (take max_elements view) (bf_data b)) (\<lambda>m.
                if written \<le> max_elements then Inr (written, b\<lparr>bf_data := m, bf_size := old_size + written\<rparr>)
                else Inl Assert_failed))))"

definition Buffer_SetWith :: "bool \<Rightarrow> (nat \<Rightarrow> byte) \<Rightarrow> nat \<Rightarrow> setter \<Rightarrow> buffer \<Rightarrow> (nat \<times> buffer) res" where
  "Buffer_SetWith z junk max_elements setter b =
     (let old_size = bf_size b
      in res_bind (Buffer_AppendWith z junk max_elements setter (b\<lparr>bf_size := 0\<rparr>)) (\<lambda>(written, b).
         res_bind (if z \<and> bf_size b < old_size then ZeroTrailingData (old_size - bf_size b) b else Inr b) (\<lambda>b.
           Inr (written, b))))"

definition Buffer_EnsureCapacity :: "bool \<Rightarrow> (nat \<Rightarrow> byte) \<Rightarrow> nat \<Rightarrow> buffer \<Rightarrow> buffer res" where
  "Buffer_EnsureCapacity z junk cap b = EnsureCapacityWithHeadroom z junk cap False b"

definition Buffer_Clear :: "bool \<Rightarrow> buffer \<Rightarrow> buffer" where
  "Buffer_Clear z b = (MaybeZeroCompleteBuffer z b)\<lparr>bf_size := 0\<rparr>"

definition Buffer_at :: "nat \<Rightarrow> buffer \<Rightarrow> byte res" where
  "Buffer_at i b = (if i < length (bf_data b) then Inr (bf_data b ! i) else Inl Out_of_bounds)"

definition Buffer_eq :: "buffer \<Rightarrow> buffer \<Rightarrow> bool res" where
  "Buffer_eq b c =
     (if bf_size b \<noteq> bf_size c then Inr False
      else res_bind (mem_read 0 (bf_size b) (bf_data b)) (\<lambda>x. res_bind (mem_read 0 (bf_size b) (bf_data c)) (\<lambda>y.
             Inr (c_memcmp x y = 0))))"

text \<open>Moving: the source is left empty. Assignment first clears the target's block, then the swap hands it to the source, which deletes it.\<close>

definition OnMovedFrom :: "buffer \<Rightarrow> buffer" where
  "OnMovedFrom b = b\<lparr>bf_size := 0, bf_capacity := 0\<rparr>"

definition Buffer_move :: "buffer \<Rightarrow> buffer \<times> buffer" where
  "Buffer_move b =
     (\<lparr>bf_size = bf_size b, bf_capacity = bf_capacity b, bf_data = bf_data b, bf_released = []\<rparr>, OnMovedFrom (b\<lparr>bf_data := []\<rparr>))"

definition Buffer_assign :: "bool \<Rightarrow> buffer \<Rightarrow> buffer \<Rightarrow> buffer \<times> buffer" where
  "Buffer_assign z a b =
     (let a = MaybeZeroCompleteBuffer z a
      in (a\<lparr>bf_size := bf_size b, bf_capacity := bf_capacity b, bf_data := bf_data b\<rparr>,
          OnMovedFrom (release_block (b\<lparr>bf_data := bf_data a\<rparr>))))"

definition Buffer_swap :: "buffer \<Rightarrow> buffer \<Rightarrow> buffer \<times> buffer" where
  "Buffer_swap a b =
     (a\<lparr>bf_size := bf_size b, bf_capacity := bf_capacity b, bf_data := bf_data b\<rparr>,
      b\<lparr>bf_size := bf_size a, bf_capacity := bf_capacity a, bf_data := bf_data a\<rparr>)"

section \<open>Lemmas\<close>

text \<open>A buffer between operations, and the bytes it holds.\<close>

definition bf_wf :: "buffer \<Rightarrow> bool" where
  "bf_wf b \<longleftrightarrow> length (bf_data b) = bf_capacity b \<and> bf_size b \<le> bf_capacity b"

definition bf_val :: "buffer \<Rightarrow> byte list" where
  "bf_val b = take (bf_size b) (bf_data b)"

lemma bf_wf_consistent: "bf_wf b \<Longrightarrow> IsConsistent b"
  by (auto simp: bf_wf_def IsConsistent_def)

lemma length_bf_val: "bf_wf b \<Longrightarrow> length (bf_val b) = bf_size b"
  by (simp add: bf_wf_def bf_val_def)

lemma zero_simps [simp]:
  "bf_size (MaybeZeroCompleteBuffer z b) = bf_size b" "bf_capacity (MaybeZeroCompleteBuffer z b) = bf_capacity b"
  "bf_released (MaybeZeroCompleteBuffer z b) = bf_released b"
  "bf_size (release_block b) = bf_size b" "bf_capacity (release_block b) = bf_capacity b"
  by (simp_all add: MaybeZeroCompleteBuffer_def release_block_def)

lemma zero_length [simp]: "length (bf_data b) = bf_capacity b \<Longrightarrow> length (bf_data (MaybeZeroCompleteBuffer z b)) = bf_capacity b"
  by (simp add: MaybeZeroCompleteBuffer_def)

lemma Buffer_sized_wf: "bf_wf (Buffer_sized junk sz cap)" "bf_size (Buffer_sized junk sz cap) = sz"
  by (simp_all add: bf_wf_def Buffer_sized_def)

lemma Buffer_from_val:
  assumes "sz \<le> length d"
  shows "\<exists>b. Buffer_from junk d sz cap = Inr b \<and> bf_wf b \<and> bf_val b = take sz d \<and> bf_capacity b = max sz cap \<and> bf_released b = []"
  using assms by (auto simp: Buffer_from_def Buffer_sized_def bf_wf_def bf_val_def overwrite_def)

text \<open>Growing keeps the contents; the blocks given back are the old one, cleared if asked.\<close>

definition all_zero :: "byte list \<Rightarrow> bool" where
  "all_zero bs \<longleftrightarrow> (\<forall>x \<in> set bs. x = 0)"

definition clean :: "bool \<Rightarrow> buffer \<Rightarrow> bool" where
  "clean z b \<longleftrightarrow> (z \<longrightarrow> (\<forall>bs \<in> set (bf_released b). all_zero bs))"

lemma release_clean: "bf_wf b \<Longrightarrow> clean z b \<Longrightarrow> clean z (release_block (MaybeZeroCompleteBuffer z b))"
  by (auto simp: clean_def release_block_def MaybeZeroCompleteBuffer_def all_zero_def bf_wf_def)

lemma Ensure_ok:
  assumes "bf_wf b" "clean z b"
  shows "\<exists>b'. EnsureCapacityWithHeadroom z junk cap extra b = Inr b' \<and> bf_wf b' \<and> bf_val b' = bf_val b \<and>
    bf_size b' = bf_size b \<and> max cap (bf_capacity b) \<le> bf_capacity b' \<and> clean z b'"
proof (cases "cap \<le> bf_capacity b")
  case True
  with assms show ?thesis by (simp add: EnsureCapacityWithHeadroom_def)
next
  case False
  let ?n = "if extra then max cap (bf_capacity b + bf_capacity b div 2) else cap"
  let ?new = "overwrite 0 (bf_val b) (map junk [0..<?n])"
  have n: "bf_capacity b \<le> ?n" "cap \<le> ?n" "bf_size b \<le> ?n" using False assms(1) by (auto simp: bf_wf_def)
  have "(if bf_data b \<noteq> [] then res_bind (mem_read 0 (bf_size b) (bf_data b)) (\<lambda>bs. mem_write 0 bs (map junk [0..<?n]))
      else Inr (map junk [0..<?n])) = Inr ?new"
    using assms(1) n(3) by (auto simp: bf_wf_def bf_val_def)
  then have eq: "EnsureCapacityWithHeadroom z junk cap extra b =
      Inr ((release_block (MaybeZeroCompleteBuffer z b))\<lparr>bf_data := ?new, bf_capacity := ?n\<rparr>)"
    using False by (simp add: EnsureCapacityWithHeadroom_def Let_def)
  have l: "length (bf_val b) = bf_size b" using length_bf_val [OF assms(1)] .
  have c: "clean z ((release_block (MaybeZeroCompleteBuffer z b))\<lparr>bf_data := ?new, bf_capacity := ?n\<rparr>)"
    using release_clean [OF assms] by (simp add: clean_def)
  have "length ?new = ?n" "take (bf_size b) ?new = bf_val b"
    using n(3) l take_overwrite_upto [of 0 "map junk [0..<?n]" "bf_val b"] by simp_all
  then show ?thesis using eq n c by (simp add: bf_wf_def bf_val_def)
qed

lemma AppendData_ok:
  assumes "bf_wf b" "clean z b" "sz \<le> length d"
  shows "\<exists>b'. Buffer_AppendData z junk d sz b = Inr b' \<and> bf_wf b' \<and> bf_val b' = bf_val b @ take sz d \<and> clean z b' \<and>
    bf_capacity b \<le> bf_capacity b'"
proof -
  obtain b1 where b1: "EnsureCapacityWithHeadroom z junk (bf_size b + sz) True b = Inr b1" "bf_wf b1" "bf_val b1 = bf_val b"
    "bf_size b1 = bf_size b" "max (bf_size b + sz) (bf_capacity b) \<le> bf_capacity b1" "clean z b1"
    using Ensure_ok [OF assms(1,2)] by blast
  have len: "bf_size b + sz \<le> length (bf_data b1)" "bf_size b \<le> length (bf_data b1)" using b1(2,5) by (simp_all add: bf_wf_def)
  have "take (bf_size b + sz) (overwrite (bf_size b) (take sz d) (bf_data b1)) = take (bf_size b) (bf_data b1) @ take sz d"
    using take_overwrite_upto [of "bf_size b" "bf_data b1" "take sz d"] len assms(3) by (simp add: min_absorb2)
  with b1 len assms(3) show ?thesis
    by (auto simp: Buffer_AppendData_def bf_wf_def bf_val_def clean_def min_absorb2)
qed

lemma ZeroTrailing_ok:
  assumes "bf_wf b" "clean z b" "bf_size b + n \<le> bf_capacity b"
  shows "\<exists>b'. ZeroTrailingData n b = Inr b' \<and> bf_wf b' \<and> bf_val b' = bf_val b \<and> clean z b' \<and> bf_capacity b' = bf_capacity b"
  using assms by (auto simp: ZeroTrailingData_def bf_wf_def bf_val_def clean_def take_overwrite_before)

lemma SetData_ok:
  assumes "bf_wf b" "clean z b" "sz \<le> length d"
  shows "\<exists>b'. Buffer_SetData z junk d sz b = Inr b' \<and> bf_wf b' \<and> bf_val b' = take sz d \<and> clean z b' \<and>
    bf_capacity b \<le> bf_capacity b'"
proof -
  let ?b = "b\<lparr>bf_size := 0\<rparr>"
  have "bf_wf ?b" "clean z ?b" using assms by (simp_all add: bf_wf_def clean_def)
  from AppendData_ok [OF this assms(3), of junk] obtain b1 where
    b1: "Buffer_AppendData z junk d sz ?b = Inr b1" "bf_wf b1" "bf_val b1 = take sz d" "clean z b1" "bf_capacity b \<le> bf_capacity b1"
    by (auto simp: bf_val_def)
  show ?thesis
  proof (cases "z \<and> bf_size b1 < bf_size b")
    case True
    then have "bf_size b1 + (bf_size b - bf_size b1) \<le> bf_capacity b1" using b1(5) assms(1) by (auto simp: bf_wf_def)
    from ZeroTrailing_ok [OF b1(2,4) this] True b1 show ?thesis by (auto simp: Buffer_SetData_def)
  next
    case False
    with b1 show ?thesis by (auto simp: Buffer_SetData_def)
  qed
qed

text \<open>A new size keeps the old bytes; what is added is not specified.\<close>

lemma SetSize_ok:
  assumes "bf_wf b" "clean z b"
  shows "\<exists>b'. Buffer_SetSize z junk sz b = Inr b' \<and> bf_wf b' \<and> bf_size b' = sz \<and>
    take (bf_size b) (bf_val b') = take sz (bf_val b) \<and> clean z b' \<and> bf_capacity b \<le> bf_capacity b'"
proof -
  obtain b1 where b1: "EnsureCapacityWithHeadroom z junk sz True b = Inr b1" "bf_wf b1" "bf_val b1 = bf_val b"
    "bf_size b1 = bf_size b" "max sz (bf_capacity b) \<le> bf_capacity b1" "clean z b1"
    using Ensure_ok [OF assms] by blast
  let ?b = "b1\<lparr>bf_size := sz\<rparr>"
  have wf: "bf_wf ?b" "clean z ?b" using b1 by (simp_all add: bf_wf_def clean_def)
  have v: "take (bf_size b) (bf_val ?b) = take sz (bf_val b)"
  proof -
    have "take (bf_size b) (take sz (bf_data b1)) = take sz (take (bf_size b) (bf_data b1))" by (simp add: min.commute)
    also have "\<dots> = take sz (bf_val b)" using b1(3,4) by (simp only: bf_val_def)
    finally show ?thesis by (simp add: bf_val_def)
  qed
  show ?thesis
  proof (cases "z \<and> sz < bf_size b")
    case True
    then have "bf_size ?b + (bf_size b - sz) \<le> bf_capacity ?b" using b1(5) assms(1) by (auto simp: bf_wf_def)
    from ZeroTrailing_ok [OF wf this] obtain b2 where
      b2: "ZeroTrailingData (bf_size b - sz) ?b = Inr b2" "bf_wf b2" "bf_val b2 = bf_val ?b" "clean z b2" "bf_capacity b2 = bf_capacity ?b"
      by blast
    have "bf_size b2 = sz" using b2(1) by (auto simp: ZeroTrailingData_def res_bind_Inr_iff)
    with b2 b1 True v show ?thesis by (auto simp: Buffer_SetSize_def)
  next
    case False
    with b1 wf v show ?thesis by (auto simp: Buffer_SetSize_def)
  qed
qed

lemma Clear_ok: "bf_wf b \<Longrightarrow> clean z b \<Longrightarrow> bf_wf (Buffer_Clear z b) \<and> bf_val (Buffer_Clear z b) = [] \<and> clean z (Buffer_Clear z b)"
  by (simp add: Buffer_Clear_def bf_wf_def bf_val_def clean_def)

lemma Buffer_eq_val: "bf_wf b \<Longrightarrow> bf_wf c \<Longrightarrow> Buffer_eq b c = Inr (bf_val b = bf_val c)"
  by (auto simp: Buffer_eq_def bf_wf_def bf_val_def c_memcmp_lexord(1) dest: arg_cong [of _ _ length])

lemma AppendWith_ok:
  assumes "bf_wf b" "clean z b" "length xs \<le> n" "bf_size b + n < 2 ^ 64"
  shows "\<exists>b'. Buffer_AppendWith z junk n (\<lambda>view. (length xs, xs @ drop (length xs) view)) b = Inr (length xs, b') \<and> bf_wf b' \<and>
    bf_val b' = bf_val b @ xs \<and> clean z b'"
proof -
  obtain b1 where b1: "Buffer_SetSize z junk (bf_size b + n) b = Inr b1" "bf_wf b1" "bf_size b1 = bf_size b + n"
    "take (bf_size b) (bf_val b1) = take (bf_size b + n) (bf_val b)" "clean z b1"
    using SetSize_ok [OF assms(1,2)] by blast
  have len: "bf_size b + n \<le> length (bf_data b1)" using b1(2,3) by (simp add: bf_wf_def)
  let ?view = "xs @ drop (length xs) (take n (drop (bf_size b) (bf_data b1)))"
  have lv: "length ?view = n" using len assms(3) by simp
  have tk: "take (bf_size b) (bf_data b1) = bf_val b"
    using b1(3,4) length_bf_val [OF assms(1)] by (simp add: bf_val_def min_absorb1)
  have "take (bf_size b + length xs) (overwrite (bf_size b) ?view (bf_data b1)) = bf_val b @ xs"
    using len lv tk length_bf_val [OF assms(1)] by (simp add: overwrite_def min_absorb2)
  moreover have "(bf_size b + n) mod 2 ^ 64 = bf_size b + n" using assms(4) by (rule mod_less)
  ultimately show ?thesis using b1 len lv assms(3)
    by (auto simp: Buffer_AppendWith_def bf_wf_def bf_val_def clean_def Let_def)
qed

section \<open>Refinement of byte lists\<close>

text \<open>Operations whose result the contract fixes: a larger size leaves new bytes open and is left out.\<close>

text \<open>
  The bound is needed: asked for enough room that the sum wraps, the buffer is set to a small size and
  the view begins behind its block.
\<close>

lemma AppendWith_wraps:
  assumes "b = \<lparr>bf_size = 2, bf_capacity = 2, bf_data = [1, 2], bf_released = []\<rparr>"
  shows "Buffer_AppendWith False junk (2 ^ 64 - 1) setter b = Inl Out_of_bounds"
  using assms by (simp add: Buffer_AppendWith_def Buffer_SetSize_def EnsureCapacityWithHeadroom_def mem_read_def Let_def)

datatype buf_op = BAppend "byte list" | BSet "byte list" | BShrink nat | BReserve nat | BClear | BFill nat "byte list"

definition buf_exec :: "bool \<Rightarrow> (nat \<Rightarrow> byte) \<Rightarrow> buf_op \<Rightarrow> buffer \<Rightarrow> buffer res" where
  "buf_exec z junk p b =
     (case p of
        BAppend d \<Rightarrow> Buffer_AppendData z junk d (length d) b
      | BSet d \<Rightarrow> Buffer_SetData z junk d (length d) b
      | BShrink n \<Rightarrow> Buffer_SetSize z junk n b
      | BReserve n \<Rightarrow> Buffer_EnsureCapacity z junk n b
      | BClear \<Rightarrow> Inr (Buffer_Clear z b)
      | BFill n xs \<Rightarrow> res_bind (Buffer_AppendWith z junk n (\<lambda>view. (length xs, xs @ drop (length xs) view)) b) (\<lambda>(_, b). Inr b))"

definition buf_spec :: "buf_op \<Rightarrow> byte list \<Rightarrow> byte list" where
  "buf_spec p v =
     (case p of BAppend d \<Rightarrow> v @ d | BSet d \<Rightarrow> d | BShrink n \<Rightarrow> take n v | BReserve n \<Rightarrow> v | BClear \<Rightarrow> [] | BFill n xs \<Rightarrow> v @ xs)"

definition buf_ok :: "buf_op \<Rightarrow> byte list \<Rightarrow> bool" where
  "buf_ok p v \<longleftrightarrow> (case p of BShrink n \<Rightarrow> n \<le> length v | BFill n xs \<Rightarrow> length xs \<le> n \<and> length v + n < 2 ^ 64 | _ \<Rightarrow> True)"

lemma buf_exec_refines:
  assumes "bf_wf b" "clean z b" "buf_ok p (bf_val b)"
  shows "\<exists>b'. buf_exec z junk p b = Inr b' \<and> (bf_wf b' \<and> clean z b') \<and> bf_val b' = buf_spec p (bf_val b)"
proof (cases p)
  case (BShrink n)
  obtain b' where b': "Buffer_SetSize z junk n b = Inr b'" "bf_wf b'" "bf_size b' = n"
    "take (bf_size b) (bf_val b') = take n (bf_val b)" "clean z b'"
    using SetSize_ok [OF assms(1,2)] by blast
  have "n \<le> bf_size b" using assms(3) BShrink length_bf_val [OF assms(1)] by (simp add: buf_ok_def)
  then have "bf_val b' = take n (bf_val b)" using b'(3,4) length_bf_val [OF b'(2)] by simp
  with b' BShrink show ?thesis by (simp add: buf_exec_def buf_spec_def)
next
  case (BFill n xs)
  then show ?thesis using AppendWith_ok [OF assms(1,2), of xs n junk] assms(3) length_bf_val [OF assms(1)]
    by (auto simp: buf_exec_def buf_spec_def buf_ok_def)
qed (use assms AppendData_ok [OF assms(1,2) order_refl] SetData_ok [OF assms(1,2) order_refl] Ensure_ok [OF assms(1,2)]
    Clear_ok [OF assms(1,2)] in \<open>fastforce simp: buf_exec_def buf_spec_def Buffer_EnsureCapacity_def\<close>)+

interpretation buf_ref: data_refinement "\<lambda>b. bf_wf b \<and> clean z b" bf_val "buf_exec z junk" buf_spec buf_ok for z junk
  by unfold_locales (use buf_exec_refines in blast)

lemma destroy_clean: "bf_wf b \<Longrightarrow> clean z b \<Longrightarrow> clean z (Buffer_destroy z b)"
  unfolding Buffer_destroy_def by (rule release_clean)

section \<open>Properties\<close>

text \<open>C19: any sequence of appends, replacements, truncations, reservations, clears and appends through a setter that
  writes no more than the room it asked for, old size and room together fitting \<open>size_t\<close>, runs without writing or reading outside
  a block, keeps the consistency condition of the class and computes on the contents what the operations
  mean on byte lists; and with \<open>ZeroOnFree\<close> every block given back on the way or by the destructor holds only zeros.\<close>

theorem buffer_runs_refine_lists:
  assumes "run_ok buf_ok buf_spec ops []"
  shows "\<exists>b. run_res (buf_exec z junk) ops Buffer_empty = Inr b \<and> IsConsistent b \<and> bf_val b = fold buf_spec ops [] \<and>
    (z \<longrightarrow> (\<forall>block \<in> set (bf_released (Buffer_destroy z b)). \<forall>x \<in> set block. x = 0))"
proof -
  have "bf_wf Buffer_empty \<and> clean z Buffer_empty" "bf_val Buffer_empty = []"
    by (simp_all add: bf_wf_def clean_def bf_val_def Buffer_empty_def)
  with buf_ref.run_refines [of Buffer_empty z ops junk] assms obtain b where
    b: "run_res (buf_exec z junk) ops Buffer_empty = Inr b" "bf_wf b" "clean z b" "bf_val b = fold buf_spec ops []"
    by auto
  with bf_wf_consistent [OF b(2)] destroy_clean [OF b(2,3)] show ?thesis by (auto simp: clean_def all_zero_def)
qed

lemma buffer_runs_refine_lists_witness:
  "\<exists>b. run_res (buf_exec True (\<lambda>_. 170)) [BAppend [1, 2, 3], BReserve 9, BShrink 2, BFill 4 [7]] Buffer_empty = Inr b \<and>
     IsConsistent b \<and> bf_val b = [1, 2, 7]"
proof -
  have "run_ok buf_ok buf_spec [BAppend [1, 2, 3], BReserve 9, BShrink 2, BFill 4 [7]] []" by (simp add: buf_ok_def buf_spec_def)
  from buffer_runs_refine_lists [OF this, of True "\<lambda>_. 170"] show ?thesis by (auto simp: buf_spec_def)
qed

end
