(* ===== verification/Ref_Count.thy ===== *)
theory Ref_Count
  imports Prelude
begin

text \<open>
  Shared ownership: the counter \<open>src/xrtcserver/rtcbase/src/rtc_base/ref_counter.h\<close>, the counted object
  \<open>ref_counted_object.h\<close> and the pointer \<open>src/xrtcserver/rtcbase/src/api/scoped_refptr.h\<close>. The heap maps an address to an object and
  its counter until the object is deleted; the pointers of the program are the entries of a list. The
  operations of one pointer are done one after another (the counter itself is atomic).
\<close>

section \<open>Definitions\<close>

type_synonym 'o rc_heap = "nat \<Rightarrow> ('o \<times> int) option"

record 'o rc_state =
  rc_heap :: "'o rc_heap"
  rc_vars :: "ptr list"

definition IncRef :: "nat \<Rightarrow> 'o rc_heap \<Rightarrow> 'o rc_heap res" where
  "IncRef a h = (case h a of None \<Rightarrow> Inl Use_after_free | Some (v, n) \<Rightarrow> Inr (h(a \<mapsto> (v, n + 1))))"

text \<open>The flag is \<open>kDroppedLastRef\<close>.\<close>

definition DecRef :: "nat \<Rightarrow> 'o rc_heap \<Rightarrow> (bool \<times> 'o rc_heap) res" where
  "DecRef a h = (case h a of None \<Rightarrow> Inl Use_after_free | Some (v, n) \<Rightarrow> Inr (n - 1 = 0, h(a \<mapsto> (v, n - 1))))"

definition HasOneRef :: "nat \<Rightarrow> 'o rc_heap \<Rightarrow> bool res" where
  "HasOneRef a h = (case h a of None \<Rightarrow> Inl Use_after_free | Some (v, n) \<Rightarrow> Inr (n = 1))"

definition Release :: "nat \<Rightarrow> 'o rc_heap \<Rightarrow> 'o rc_heap res" where
  "Release a h = res_bind (DecRef a h) (\<lambda>(last, h). Inr (if last then h(a := None) else h))"

definition if_ptr :: "(nat \<Rightarrow> 'o rc_heap \<Rightarrow> 'o rc_heap res) \<Rightarrow> ptr \<Rightarrow> 'o rc_heap \<Rightarrow> 'o rc_heap res" where
  "if_ptr f p h = (case p of None \<Rightarrow> Inr h | Some a \<Rightarrow> f a h)"

definition refptr_assign :: "nat \<Rightarrow> ptr \<Rightarrow> 'o rc_state \<Rightarrow> 'o rc_state res" where
  "refptr_assign x p s =
     res_bind (if_ptr IncRef p (rc_heap s)) (\<lambda>h.
     res_bind (if_ptr Release (rc_vars s ! x) h) (\<lambda>h.
       Inr (s\<lparr>rc_heap := h, rc_vars := (rc_vars s)[x := p]\<rparr>)))"

definition refptr_copy :: "nat \<Rightarrow> nat \<Rightarrow> 'o rc_state \<Rightarrow> 'o rc_state res" where
  "refptr_copy x y s = refptr_assign x (rc_vars s ! y) s"

text \<open>\<open>scoped_refptr<T>(std::move(r)).swap(*this)\<close>: the temporary ends up with the old pointer and releases it.\<close>

definition refptr_move :: "nat \<Rightarrow> nat \<Rightarrow> 'o rc_state \<Rightarrow> 'o rc_state res" where
  "refptr_move x y s =
     (let tmp = rc_vars s ! y;
          vars = (rc_vars s)[y := None];
          old = vars ! x;
          vars = vars[x := tmp]
      in res_bind (if_ptr Release old (rc_heap s)) (\<lambda>h. Inr (s\<lparr>rc_heap := h, rc_vars := vars\<rparr>)))"

definition refptr_swap :: "nat \<Rightarrow> nat \<Rightarrow> 'o rc_state \<Rightarrow> 'o rc_state" where
  "refptr_swap x y s = s\<lparr>rc_vars := (rc_vars s)[x := rc_vars s ! y, y := rc_vars s ! x]\<rparr>"

text \<open>The destructor of the pointer, after which the entry is null.\<close>

definition refptr_destroy :: "nat \<Rightarrow> 'o rc_state \<Rightarrow> 'o rc_state res" where
  "refptr_destroy x s =
     res_bind (if_ptr Release (rc_vars s ! x) (rc_heap s)) (\<lambda>h. Inr (s\<lparr>rc_heap := h, rc_vars := (rc_vars s)[x := None]\<rparr>))"

text \<open>\<open>p = new RefCountedObject<T>(v)\<close>: \<open>new\<close> returned \<open>a\<close>, the counter starts at zero.\<close>

definition refptr_new :: "nat \<Rightarrow> 'o \<Rightarrow> nat \<Rightarrow> 'o rc_state \<Rightarrow> 'o rc_state res" where
  "refptr_new a v x s = refptr_assign x (Some a) (s\<lparr>rc_heap := (rc_heap s)(a \<mapsto> (v, 0))\<rparr>)"

section \<open>Lemmas\<close>

text \<open>
  The counter of an object is the number of pointers to it. While an object is being assigned for the first time
  it may have none: \<open>fresh\<close> is that object.
\<close>

definition rc_counts :: "ptr \<Rightarrow> 'o rc_state \<Rightarrow> bool" where
  "rc_counts fresh s \<longleftrightarrow>
     (\<forall>a v n. rc_heap s a = Some (v, n) \<longrightarrow> n = int (count_list (rc_vars s) (Some a)) \<and> (0 < n \<or> fresh = Some a)) \<and>
     (\<forall>a. Some a \<in> set (rc_vars s) \<longrightarrow> rc_heap s a \<noteq> None)"

abbreviation rc_wf :: "'o rc_state \<Rightarrow> bool" where
  "rc_wf \<equiv> rc_counts None"

text \<open>The object a pointer refers to.\<close>

definition rc_obj :: "'o rc_state \<Rightarrow> ptr \<Rightarrow> 'o option" where
  "rc_obj s p = (case p of None \<Rightarrow> None | Some a \<Rightarrow> map_option fst (rc_heap s a))"

definition rc_val :: "'o rc_state \<Rightarrow> 'o option list" where
  "rc_val s = map (rc_obj s) (rc_vars s)"

lemma length_rc_val [simp]: "length (rc_val s) = length (rc_vars s)"
  by (simp add: rc_val_def)

lemma count_list_update:
  "x < length xs \<Longrightarrow> count_list (xs[x := v]) a + (if xs ! x = a then 1 else 0) = count_list xs a + (if v = a then 1 else 0)"
proof (induction xs arbitrary: x)
  case (Cons y ys)
  then show ?case
  proof (cases x)
    case (Suc k)
    then show ?thesis using Cons.IH [of k] Cons.prems by auto
  qed auto
qed simp

lemma count_list_pos: "x < length xs \<Longrightarrow> xs ! x = a \<Longrightarrow> 0 < count_list xs a"
  by (metis count_list_0_iff gr0I nth_mem)

lemma count_one_unique:
  assumes "count_list xs a = 1" "x < length xs" "xs ! x = a" "y < length xs" "xs ! y = a"
  shows "y = x"
proof (rule ccontr)
  assume ne: "y \<noteq> x"
  obtain b where b: "b \<noteq> Some a" by blast
  let ?ys = "(map Some xs)[x := None]"
  have "count_list (map Some xs) (Some a) = count_list xs a" by (induction xs) auto
  moreover have "count_list ?ys (Some a) + 1 = count_list (map Some xs) (Some a)"
    using count_list_update [of x "map Some xs" None "Some a"] assms(2,3) by simp
  ultimately have "count_list ?ys (Some a) = 0" using assms(1) by simp
  moreover have "0 < count_list ?ys (Some a)" using assms(4,5) ne by (intro count_list_pos [of y]) auto
  ultimately show False by simp
qed

lemma rc_live: "rc_counts f s \<Longrightarrow> x < length (rc_vars s) \<Longrightarrow> rc_vars s ! x = Some a \<Longrightarrow>
  \<exists>v. rc_heap s a = Some (v, int (count_list (rc_vars s) (Some a))) \<and> 0 < count_list (rc_vars s) (Some a)"
  unfolding rc_counts_def by (metis count_list_pos nth_mem not_None_eq surj_pair)

text \<open>The two halves of an assignment, as updates of the counters.\<close>

definition rc_add :: "ptr \<Rightarrow> int \<Rightarrow> 'o rc_heap \<Rightarrow> 'o rc_heap" where
  "rc_add p k h = (case p of None \<Rightarrow> h | Some a \<Rightarrow> h(a := map_option (\<lambda>(v, n). (v, n + k)) (h a)))"

lemma rc_add_at: "rc_add p k h a = map_option (\<lambda>(v, n). (v, n + (if p = Some a then k else 0))) (h a)"
  by (cases "h a") (auto simp: rc_add_def split: option.splits)

lemma IncRef_add: "(\<And>a. p = Some a \<Longrightarrow> h a \<noteq> None) \<Longrightarrow> if_ptr IncRef p h = Inr (rc_add p 1 h)"
  by (force simp: if_ptr_def IncRef_def rc_add_def split: option.splits)

text \<open>An object whose counter falls to zero is deleted.\<close>

definition rc_drop :: "ptr \<Rightarrow> 'o rc_heap \<Rightarrow> 'o rc_heap" where
  "rc_drop p h = (\<lambda>a. case rc_add p (- 1) h a of None \<Rightarrow> None | Some (v, n) \<Rightarrow> if p = Some a \<and> n = 0 then None else Some (v, n))"

lemma Release_drop: "(\<And>a. p = Some a \<Longrightarrow> h a \<noteq> None) \<Longrightarrow> if_ptr Release p h = Inr (rc_drop p h)"
  by (force simp: if_ptr_def Release_def DecRef_def rc_drop_def rc_add_at fun_eq_iff split: option.splits)

text \<open>Assigning a pointer keeps the counts exact and changes only that pointer.\<close>

lemma refptr_assign_ok:
  assumes inv: "rc_counts p s" and x: "x < length (rc_vars s)" and p: "\<And>a. p = Some a \<Longrightarrow> rc_heap s a \<noteq> None"
  shows "\<exists>s'. refptr_assign x p s = Inr s' \<and> rc_wf s' \<and> rc_vars s' = (rc_vars s)[x := p] \<and>
    (\<forall>a. Some a \<in> set (rc_vars s') \<longrightarrow> map_option fst (rc_heap s' a) = map_option fst (rc_heap s a)) \<and>
    (\<forall>a. rc_heap s a = None \<longrightarrow> rc_heap s' a = None)"
proof -
  let ?vs = "rc_vars s" and ?old = "rc_vars s ! x" and ?h = "rc_add p 1 (rc_heap s)"
  let ?vs2 = "?vs[x := p]" and ?h2 = "rc_drop ?old ?h"
  let ?s = "s\<lparr>rc_heap := ?h2, rc_vars := ?vs2\<rparr>"
  have "?h a \<noteq> None" if "?old = Some a" for a using rc_live [OF inv x that] by (auto simp: rc_add_at)
  then have run: "refptr_assign x p s = Inr ?s"
    using IncRef_add [of p "rc_heap s"] p Release_drop [of ?old ?h] by (simp add: refptr_assign_def)
  have upd: "int (count_list ?vs2 (Some a)) =
      int (count_list ?vs (Some a)) + (if p = Some a then 1 else 0) - (if ?old = Some a then 1 else 0)" for a
    using count_list_update [OF x, of p "Some a"] by (auto split: if_splits)
  have at: "?h2 a = (case rc_heap s a of None \<Rightarrow> None | Some (v, n) \<Rightarrow>
      if ?old = Some a \<and> count_list ?vs2 (Some a) = 0 then None else Some (v, int (count_list ?vs2 (Some a))))" for a
  proof (cases "rc_heap s a")
    case (Some vn)
    obtain v n where vn: "vn = (v, n)" by (cases vn)
    then have "n = int (count_list ?vs (Some a))" using inv Some by (auto simp: rc_counts_def)
    with Some vn upd [of a] show ?thesis by (auto simp: rc_drop_def rc_add_at split: if_splits)
  qed (simp add: rc_drop_def rc_add_at)
  have pos: "0 < count_list ?vs2 (Some a)" if nn: "rc_heap s a \<noteq> None" and oo: "?old \<noteq> Some a" for a
  proof (cases "p = Some a")
    case False
    obtain v n where "rc_heap s a = Some (v, n)" using nn by auto
    then have "0 < int (count_list ?vs (Some a))" using inv False unfolding rc_counts_def by blast
    with upd [of a] oo False show ?thesis by simp
  qed (use upd [of a] oo in simp)
  have live: "rc_heap s a \<noteq> None \<and> 0 < count_list ?vs2 (Some a)" if "Some a \<in> set ?vs2" for a
  proof -
    have "Some a \<in> insert p (set ?vs)" using that set_update_subset_insert by (rule subsetD [rotated])
    then have "rc_heap s a \<noteq> None" using p inv by (auto simp: rc_counts_def)
    moreover have "count_list ?vs2 (Some a) \<noteq> 0" using that by (simp add: count_list_0_iff)
    ultimately show ?thesis by simp
  qed
  have "n = int (count_list ?vs2 (Some a)) \<and> 0 < n" if "?h2 a = Some (v, n)" for a v n
    using that pos [of a] unfolding at by (auto split: option.splits if_splits)
  moreover have "?h2 a \<noteq> None" if "Some a \<in> set ?vs2" for a
    using live [OF that] by (auto simp: at)
  ultimately have "rc_wf ?s" by (simp add: rc_counts_def)
  moreover have "map_option fst (?h2 a) = map_option fst (rc_heap s a)" if "Some a \<in> set ?vs2" for a
    using live [OF that] unfolding at by (auto split: option.splits)
  moreover have "\<forall>a. rc_heap s a = None \<longrightarrow> ?h2 a = None" by (simp add: at)
  ultimately show ?thesis using run by simp
qed

text \<open>The operations as updates of the list of objects the pointers refer to.\<close>

lemma rc_val_assign:
  assumes "rc_vars s' = (rc_vars s)[x := p]"
    "\<forall>a. Some a \<in> set (rc_vars s') \<longrightarrow> map_option fst (rc_heap s' a) = map_option fst (rc_heap s a)"
  shows "rc_val s' = (rc_val s)[x := rc_obj s p]"
proof -
  have "rc_obj s' q = rc_obj s q" if "q \<in> set (rc_vars s')" for q
    using that assms(2) by (auto simp: rc_obj_def split: option.splits)
  then have "rc_val s' = map (rc_obj s) (rc_vars s')" by (simp add: rc_val_def)
  then show ?thesis by (simp add: rc_val_def assms(1) map_update)
qed

lemma refptr_copy_ok:
  assumes "rc_wf s" "x < length (rc_vars s)" "y < length (rc_vars s)"
  shows "\<exists>s'. refptr_copy x y s = Inr s' \<and> rc_wf s' \<and> rc_val s' = (rc_val s)[x := rc_val s ! y]"
proof -
  have "rc_counts (rc_vars s ! y) s" using assms(1) by (auto simp: rc_counts_def)
  from refptr_assign_ok [OF this assms(2)] rc_live [OF assms(1,3)] obtain s' where
    s': "refptr_assign x (rc_vars s ! y) s = Inr s'" "rc_wf s'" "rc_vars s' = (rc_vars s)[x := rc_vars s ! y]"
    "\<forall>a. Some a \<in> set (rc_vars s') \<longrightarrow> map_option fst (rc_heap s' a) = map_option fst (rc_heap s a)" by fastforce
  with rc_val_assign [OF s'(3,4)] assms(3) show ?thesis by (simp add: refptr_copy_def rc_val_def)
qed

lemma refptr_new_ok:
  assumes wf: "rc_wf s" and x: "x < length (rc_vars s)" and a: "rc_heap s a = None"
  shows "\<exists>s'. refptr_new a v x s = Inr s' \<and> rc_wf s' \<and> rc_vars s' = (rc_vars s)[x := Some a] \<and> rc_val s' = (rc_val s)[x := Some v]"
proof -
  let ?s = "s\<lparr>rc_heap := (rc_heap s)(a \<mapsto> (v, 0))\<rparr>"
  have na: "Some a \<notin> set (rc_vars s)" using wf a by (auto simp: rc_counts_def)
  then have "rc_counts (Some a) ?s" using wf by (auto simp: rc_counts_def count_list_0_iff)
  from refptr_assign_ok [OF this, of x] x obtain s' where
    s': "refptr_assign x (Some a) ?s = Inr s'" "rc_wf s'" "rc_vars s' = (rc_vars ?s)[x := Some a]"
    "\<forall>b. Some b \<in> set (rc_vars s') \<longrightarrow> map_option fst (rc_heap s' b) = map_option fst (rc_heap ?s b)" by auto
  have "rc_val ?s = rc_val s" using na by (auto simp: rc_val_def rc_obj_def split: option.splits)
  then show ?thesis using s' rc_val_assign [OF s'(3,4)] by (simp add: refptr_new_def rc_obj_def)
qed

lemma refptr_destroy_assign: "refptr_destroy x s = refptr_assign x None s"
  by (simp add: refptr_destroy_def refptr_assign_def if_ptr_def)

lemma refptr_destroy_ok:
  assumes "rc_wf s" "x < length (rc_vars s)"
  shows "\<exists>s'. refptr_destroy x s = Inr s' \<and> rc_wf s' \<and> rc_val s' = (rc_val s)[x := None]"
proof -
  from refptr_assign_ok [OF assms] obtain s' where
    s': "refptr_assign x None s = Inr s'" "rc_wf s'" "rc_vars s' = (rc_vars s)[x := None]"
    "\<forall>a. Some a \<in> set (rc_vars s') \<longrightarrow> map_option fst (rc_heap s' a) = map_option fst (rc_heap s a)" by auto
  with rc_val_assign [OF s'(3,4)] show ?thesis by (simp add: refptr_destroy_assign rc_obj_def)
qed

text \<open>Swapping pointers leaves the counts alone, and moving is swapping after releasing the target.\<close>

lemma count_list_swap:
  assumes "x < length xs" "y < length xs"
  shows "count_list (xs[x := xs ! y, y := xs ! x]) a = count_list xs a"
  using assms count_list_update [of y "xs[x := xs ! y]" "xs ! x" a] count_list_update [of x xs "xs ! y" a]
  by (cases "x = y") (auto split: if_splits)

lemma refptr_swap_ok:
  assumes "rc_wf s" "x < length (rc_vars s)" "y < length (rc_vars s)"
  shows "rc_wf (refptr_swap x y s) \<and> rc_val (refptr_swap x y s) = (rc_val s)[x := rc_val s ! y, y := rc_val s ! x]"
proof -
  have "set ((rc_vars s)[x := rc_vars s ! y, y := rc_vars s ! x]) = set (rc_vars s)" using assms(2,3) by (simp add: set_swap)
  moreover have "rc_val (refptr_swap x y s) = (rc_val s)[x := rc_val s ! y, y := rc_val s ! x]"
  proof -
    have "rc_obj (refptr_swap x y s) = rc_obj s" by (auto simp: fun_eq_iff rc_obj_def refptr_swap_def split: option.splits)
    then show ?thesis using assms(2,3) by (simp add: rc_val_def map_update) (simp add: refptr_swap_def map_update)
  qed
  ultimately show ?thesis
    using assms by (simp add: rc_counts_def refptr_swap_def count_list_swap)
qed

lemma refptr_move_eq:
  assumes "x < length (rc_vars s)" "y < length (rc_vars s)" "x \<noteq> y"
  shows "refptr_move x y s = res_bind (refptr_destroy x s) (\<lambda>s. Inr (refptr_swap x y s))"
  using assms
  by (cases "if_ptr Release (rc_vars s ! x) (rc_heap s)")
     (simp_all add: refptr_move_def refptr_destroy_def refptr_swap_def Let_def list_update_swap)

lemma refptr_move_ok:
  assumes "rc_wf s" "x < length (rc_vars s)" "y < length (rc_vars s)" "x \<noteq> y"
  shows "\<exists>s'. refptr_move x y s = Inr s' \<and> rc_wf s' \<and> rc_val s' = (rc_val s)[x := rc_val s ! y, y := None]"
proof -
  obtain s1 where s1: "refptr_destroy x s = Inr s1" "rc_wf s1" "rc_val s1 = (rc_val s)[x := None]"
    using refptr_destroy_ok [OF assms(1,2)] by blast
  have len: "length (rc_vars s1) = length (rc_vars s)" using arg_cong [OF s1(3), of length] by simp
  from refptr_swap_ok [OF s1(2), of x y] assms s1 len show ?thesis by (auto simp: refptr_move_eq)
qed

text \<open>Changing an object that only one pointer refers to.\<close>

lemma rc_modify_ok:
  assumes wf: "rc_wf s" and x: "x < length (rc_vars s)" "rc_vars s ! x = Some a" and h: "rc_heap s a = Some (v, 1)"
  shows "rc_wf (s\<lparr>rc_heap := (rc_heap s)(a \<mapsto> (w, 1))\<rparr>) \<and>
    rc_val (s\<lparr>rc_heap := (rc_heap s)(a \<mapsto> (w, 1))\<rparr>) = (rc_val s)[x := Some w]"
proof
  let ?s = "s\<lparr>rc_heap := (rc_heap s)(a \<mapsto> (w, 1))\<rparr>"
  have "1 = int (count_list (rc_vars s) (Some a))" using wf h unfolding rc_counts_def by blast
  then have c: "count_list (rc_vars s) (Some a) = 1" by simp
  then show "rc_wf ?s" using wf by (auto simp: rc_counts_def)
  have o: "rc_vars s ! y \<noteq> Some a" if "y < length (rc_vars s)" "y \<noteq> x" for y
    using count_one_unique [OF c x that(1)] that(2) by blast
  show "rc_val ?s = (rc_val s)[x := Some w]"
  proof (rule nth_equalityI)
    fix i assume "i < length (rc_val ?s)"
    then show "rc_val ?s ! i = (rc_val s)[x := Some w] ! i"
      using x o [of i] by (cases "i = x") (auto simp: rc_val_def rc_obj_def split: option.splits)
  qed simp
qed

end
