(* ===== verification/Cow_Buffer.thy ===== *)
theory Cow_Buffer
  imports Buffer Ref_Count
begin

text \<open>
  The copy-on-write buffer \<open>src/xrtcserver/rtcbase/src/rtc_base/copy_on_write_buffer.h\<close> and \<open>copy_on_write_buffer.cc\<close>: a counted pointer to
  a buffer that several copies share until one of them is changed. The buffers of the program are the entries of the list
  of pointers, named by their index. \<open>al\<close> chooses the address \<open>new\<close> returns and \<open>junk\<close> is what new memory holds.
  A \<open>Buffer\<close> does not clear its memory (\<open>ZeroOnFree\<close> is false).
\<close>

section \<open>Definitions\<close>

type_synonym cow = "buffer rc_state"

type_synonym new_env = "(buffer rc_heap \<Rightarrow> nat) \<times> (nat \<Rightarrow> byte)"

definition cow_object :: "nat \<Rightarrow> cow \<Rightarrow> (nat \<times> buffer) res" where
  "cow_object x w =
     (case rc_vars w ! x of None \<Rightarrow> Inl Null_deref
      | Some a \<Rightarrow> (case rc_heap w a of None \<Rightarrow> Inl Use_after_free | Some (b, n) \<Rightarrow> Inr (a, b)))"

text \<open>\<open>buffer_ = new RefCountedObject<Buffer>(...)\<close>\<close>

definition cow_new :: "new_env \<Rightarrow> nat \<Rightarrow> buffer res \<Rightarrow> cow \<Rightarrow> cow res" where
  "cow_new E x mk w = res_bind mk (\<lambda>b. refptr_new (fst E (rc_heap w)) b x w)"

text \<open>Calling a member function of the shared \<open>Buffer\<close>.\<close>

definition cow_call :: "nat \<Rightarrow> (buffer \<Rightarrow> buffer res) \<Rightarrow> cow \<Rightarrow> cow res" where
  "cow_call x f w =
     res_bind (cow_object x w) (\<lambda>(a, b). res_bind (f b) (\<lambda>b.
       Inr (w\<lparr>rc_heap := (rc_heap w)(a \<mapsto> (b, snd (the (rc_heap w a))))\<rparr>)))"

definition cow_one_ref :: "nat \<Rightarrow> cow \<Rightarrow> bool res" where
  "cow_one_ref x w = res_bind (cow_object x w) (\<lambda>(a, b). HasOneRef a (rc_heap w))"

definition CloneDataIfReferenced :: "new_env \<Rightarrow> nat \<Rightarrow> nat \<Rightarrow> cow \<Rightarrow> cow res" where
  "CloneDataIfReferenced E x new_capacity w =
     res_bind (cow_one_ref x w) (\<lambda>one.
       if one then Inr w
       else res_bind (cow_object x w) (\<lambda>(a, b).
              cow_new E x (Buffer_from (snd E) (bf_data b) (bf_size b) new_capacity) w))"

text \<open>The constructor with a size and a capacity, on a pointer that is null.\<close>

definition cow_construct :: "new_env \<Rightarrow> nat \<Rightarrow> nat \<Rightarrow> nat \<Rightarrow> cow \<Rightarrow> cow res" where
  "cow_construct E x sz cap w =
     (if sz > 0 \<or> cap > 0 then cow_new E x (Inr (Buffer_sized (snd E) sz cap)) w else Inr w)"

definition cow_size :: "nat \<Rightarrow> cow \<Rightarrow> nat res" where
  "cow_size x w = (if rc_vars w ! x = None then Inr 0 else res_bind (cow_object x w) (\<lambda>(a, b). Inr (bf_size b)))"

definition cow_capacity :: "nat \<Rightarrow> cow \<Rightarrow> nat res" where
  "cow_capacity x w = (if rc_vars w ! x = None then Inr 0 else res_bind (cow_object x w) (\<lambda>(a, b). Inr (bf_capacity b)))"

text \<open>The assignments; both do nothing when the two objects are the same.\<close>

definition cow_assign :: "nat \<Rightarrow> nat \<Rightarrow> cow \<Rightarrow> cow res" where
  "cow_assign x y w = (if y \<noteq> x then refptr_copy x y w else Inr w)"

definition cow_move :: "nat \<Rightarrow> nat \<Rightarrow> cow \<Rightarrow> cow res" where
  "cow_move x y w = refptr_move x y w"

definition cow_swap :: "nat \<Rightarrow> nat \<Rightarrow> cow \<Rightarrow> cow" where
  "cow_swap x y w = refptr_swap x y w"

definition cow_eq :: "nat \<Rightarrow> nat \<Rightarrow> cow \<Rightarrow> bool res" where
  "cow_eq x y w =
     (if rc_vars w ! x = rc_vars w ! y then Inr True
      else if rc_vars w ! x = None \<or> rc_vars w ! y = None then Inr False
      else res_bind (cow_object x w) (\<lambda>(_, b). res_bind (cow_object y w) (\<lambda>(_, c). Buffer_eq b c)))"

text \<open>\<open>buf[i] = v\<close>: the writable pointer is asked for first.\<close>

definition cow_write :: "new_env \<Rightarrow> nat \<Rightarrow> nat \<Rightarrow> byte \<Rightarrow> cow \<Rightarrow> cow res" where
  "cow_write E x i v w =
     (if rc_vars w ! x = None then Inl Null_deref
      else res_bind (cow_object x w) (\<lambda>(a, b).
           res_bind (CloneDataIfReferenced E x (bf_capacity b) w) (\<lambda>w.
             cow_call x (\<lambda>b. res_bind (mem_write i [v] (bf_data b)) (\<lambda>m. Inr (b\<lparr>bf_data := m\<rparr>))) w)))"

definition cow_SetData :: "new_env \<Rightarrow> nat \<Rightarrow> byte list \<Rightarrow> cow \<Rightarrow> cow res" where
  "cow_SetData E x d w =
     (if rc_vars w ! x = None
      then if length d > 0 then cow_new E x (Buffer_from (snd E) d (length d) (length d)) w else refptr_assign x None w
      else res_bind (cow_one_ref x w) (\<lambda>one.
             if \<not> one then res_bind (cow_object x w) (\<lambda>(a, b).
                             cow_new E x (Buffer_from (snd E) d (length d) (bf_capacity b)) w)
             else cow_call x (Buffer_SetData False (snd E) d (length d)) w))"

definition cow_AppendData :: "new_env \<Rightarrow> nat \<Rightarrow> byte list \<Rightarrow> cow \<Rightarrow> cow res" where
  "cow_AppendData E x d w =
     (if rc_vars w ! x = None then cow_new E x (Buffer_from (snd E) d (length d) (length d)) w
      else res_bind (cow_object x w) (\<lambda>(a, b).
           res_bind (CloneDataIfReferenced E x (max (bf_capacity b) (bf_size b + length d)) w) (\<lambda>w.
             cow_call x (Buffer_AppendData False (snd E) d (length d)) w)))"

text \<open>
  Appending another buffer passes its bytes by pointer. Appended to itself, a buffer that has no other owner
  and no room gives its block back before the bytes are copied.
\<close>

definition cow_AppendBuffer :: "new_env \<Rightarrow> nat \<Rightarrow> nat \<Rightarrow> cow \<Rightarrow> cow res" where
  "cow_AppendBuffer E x y w =
     (if rc_vars w ! y = None then cow_AppendData E x [] w
      else res_bind (cow_object y w) (\<lambda>(a, b).
           res_bind (cow_one_ref y w) (\<lambda>one.
             if x = y \<and> one \<and> bf_capacity b < bf_size b + bf_size b then Inl Use_after_free
             else cow_AppendData E x (take (bf_size b) (bf_data b)) w)))"

definition cow_SetSize :: "new_env \<Rightarrow> nat \<Rightarrow> nat \<Rightarrow> cow \<Rightarrow> cow res" where
  "cow_SetSize E x sz w =
     (if rc_vars w ! x = None
      then if sz > 0 then cow_new E x (Inr (Buffer_sized (snd E) sz sz)) w else Inr w
      else res_bind (cow_one_ref x w) (\<lambda>one.
           res_bind (if \<not> one then res_bind (cow_object x w) (\<lambda>(a, b).
                        cow_new E x (Buffer_from (snd E) (bf_data b) (min (bf_size b) sz) (max (bf_capacity b) sz)) w)
                     else Inr w) (\<lambda>w.
             cow_call x (Buffer_SetSize False (snd E) sz) w)))"

definition cow_EnsureCapacity :: "new_env \<Rightarrow> nat \<Rightarrow> nat \<Rightarrow> cow \<Rightarrow> cow res" where
  "cow_EnsureCapacity E x cap w =
     (if rc_vars w ! x = None
      then if cap > 0 then cow_new E x (Inr (Buffer_sized (snd E) 0 cap)) w else Inr w
      else res_bind (cow_object x w) (\<lambda>(a, b).
             if cap \<le> bf_capacity b then Inr w
             else res_bind (CloneDataIfReferenced E x (max (bf_capacity b) cap) w) (\<lambda>w.
                    cow_call x (Buffer_EnsureCapacity False (snd E) cap) w)))"

definition cow_Clear :: "new_env \<Rightarrow> nat \<Rightarrow> cow \<Rightarrow> cow res" where
  "cow_Clear E x w =
     (if rc_vars w ! x = None then Inr w
      else res_bind (cow_one_ref x w) (\<lambda>one.
             if one then cow_call x (\<lambda>b. Inr (Buffer_Clear False b)) w
             else res_bind (cow_object x w) (\<lambda>(a, b). cow_new E x (Inr (Buffer_sized (snd E) 0 (bf_capacity b))) w)))"

section \<open>Lemmas\<close>

text \<open>A consistent program state: exact counts, sound buffers, and an allocator that returns free addresses.\<close>

definition cow_wf :: "new_env \<Rightarrow> cow \<Rightarrow> bool" where
  "cow_wf E w \<longleftrightarrow> rc_wf w \<and> (\<forall>v \<in> set (rc_val w). \<forall>b. v = Some b \<longrightarrow> bf_wf b) \<and>
     fresh_alloc (fst E)"

text \<open>The bytes each buffer holds.\<close>

definition opt_val :: "buffer option \<Rightarrow> byte list" where
  "opt_val v = (case v of None \<Rightarrow> [] | Some b \<Rightarrow> bf_val b)"

definition cow_abs :: "cow \<Rightarrow> byte list list" where
  "cow_abs w = map opt_val (rc_val w)"

lemma length_cow_abs [simp]: "length (cow_abs w) = length (rc_vars w)"
  by (simp add: cow_abs_def)

lemma rc_heap_dom:
  assumes "rc_wf w"
  shows "dom (rc_heap w) = {a. Some a \<in> set (rc_vars w)}"
proof
  show "dom (rc_heap w) \<subseteq> {a. Some a \<in> set (rc_vars w)}"
  proof
    fix a assume "a \<in> dom (rc_heap w)"
    then obtain v n where "rc_heap w a = Some (v, n)" by auto
    then have "0 < int (count_list (rc_vars w) (Some a))" using assms unfolding rc_counts_def by blast
    then have "count_list (rc_vars w) (Some a) \<noteq> 0" by simp
    then show "a \<in> {a. Some a \<in> set (rc_vars w)}" by (simp add: count_list_0_iff)
  qed
  show "{a. Some a \<in> set (rc_vars w)} \<subseteq> dom (rc_heap w)" using assms unfolding rc_counts_def by blast
qed

lemma finite_rc_heap: "rc_wf w \<Longrightarrow> finite (dom (rc_heap w))"
  using finite_vimageI [of "set (rc_vars w)" Some] by (simp add: rc_heap_dom vimage_def)

text \<open>The result every change of one buffer has: the state stays consistent, that buffer gets a new value, no other does.\<close>

definition cow_changed :: "new_env \<Rightarrow> nat \<Rightarrow> (buffer option \<Rightarrow> bool) \<Rightarrow> cow \<Rightarrow> cow res \<Rightarrow> bool" where
  "cow_changed E x P w r \<longleftrightarrow> (\<exists>w' v. r = Inr w' \<and> cow_wf E w' \<and> rc_val w' = (rc_val w)[x := v] \<and> P v)"

lemma cow_new_changed:
  assumes "cow_wf E w" "x < length (rc_vars w)" "mk = Inr b" "bf_wf b" "P (Some b)"
  shows "cow_changed E x P w (cow_new E x mk w) \<and>
    (\<exists>w'. cow_new E x mk w = Inr w' \<and> cow_wf E w' \<and> rc_val w' = (rc_val w)[x := Some b] \<and> rc_vars w' ! x \<noteq> None)"
proof -
  have fr: "rc_heap w (fst E (rc_heap w)) = None" and wf: "rc_wf w" using assms(1) finite_rc_heap by (auto simp: cow_wf_def fresh_alloc_def)
  obtain w' where w': "refptr_new (fst E (rc_heap w)) b x w = Inr w'" "rc_wf w'"
    "rc_vars w' = (rc_vars w)[x := Some (fst E (rc_heap w))]" "rc_val w' = (rc_val w)[x := Some b]"
    using refptr_new_ok [OF wf assms(2) fr] by blast
  have "v \<in> set (rc_val w') \<Longrightarrow> v = Some c \<Longrightarrow> bf_wf c" for v c
    using assms(1,4) set_update_subset_insert [of "rc_val w" x "Some b"] w'(4) by (auto simp: cow_wf_def)
  then have "cow_wf E w'" using w'(2) assms(1) by (auto simp: cow_wf_def)
  with w' assms show ?thesis by (auto simp: cow_changed_def cow_new_def)
qed

text \<open>A buffer that is there, and its object.\<close>

lemma cow_object_ok:
  assumes "cow_wf E w" "x < length (rc_vars w)" "rc_vars w ! x \<noteq> None"
  shows "\<exists>a b. cow_object x w = Inr (a, b) \<and> rc_vars w ! x = Some a \<and> rc_val w ! x = Some b \<and> bf_wf b \<and>
    rc_heap w a = Some (b, int (count_list (rc_vars w) (Some a))) \<and>
    cow_one_ref x w = Inr (count_list (rc_vars w) (Some a) = 1)"
proof -
  obtain a where a: "rc_vars w ! x = Some a" using assms(3) by auto
  obtain b where b: "rc_heap w a = Some (b, int (count_list (rc_vars w) (Some a)))"
    using rc_live [of None w x a] assms(1,2) a by (auto simp: cow_wf_def)
  have v: "rc_val w ! x = Some b" using assms(2) a b by (simp add: rc_val_def rc_obj_def)
  have "bf_wf b" using assms(1,2) v by (metis cow_wf_def length_rc_val nth_mem)
  then show ?thesis using a b v by (auto simp: cow_object_def cow_one_ref_def HasOneRef_def)
qed

text \<open>Changing the buffer in place when nobody else has it.\<close>

lemma cow_call_changed:
  assumes wf: "cow_wf E w" "x < length (rc_vars w)" and a: "rc_vars w ! x = Some a" "rc_heap w a = Some (b, 1)"
    and f: "f b = Inr c" "bf_wf c" "P (Some c)"
  shows "cow_changed E x P w (cow_call x f w)"
proof -
  let ?w = "w\<lparr>rc_heap := (rc_heap w)(a \<mapsto> (c, 1))\<rparr>"
  have m: "rc_wf ?w \<and> rc_val ?w = (rc_val w)[x := Some c]"
    using rc_modify_ok [of w x a b c] wf a by (auto simp: cow_wf_def)
  then have "v \<in> set (rc_val ?w) \<Longrightarrow> v = Some d \<Longrightarrow> bf_wf d" for v d
    using wf(1) f(2) set_update_subset_insert [of "rc_val w" x "Some c"] by (auto simp: cow_wf_def)
  then have "cow_wf E ?w" using m wf(1) by (auto simp: cow_wf_def)
  with m a f show ?thesis by (auto simp: cow_changed_def cow_call_def cow_object_def)
qed

lemma fresh_count_one:
  assumes wf: "cow_wf E w" "x < length (rc_vars w)" and r: "refptr_new (fst E (rc_heap w)) c x w = Inr w'"
    and a: "rc_vars w' ! x = Some a"
  shows "count_list (rc_vars w') (Some a) = 1"
proof -
  have v: "rc_vars w' = (rc_vars w)[x := Some (fst E (rc_heap w))]"
    using r by (auto simp: refptr_new_def refptr_assign_def res_bind_Inr_iff)
  have "rc_heap w (fst E (rc_heap w)) = None" using wf(1) finite_rc_heap [of w] by (simp add: cow_wf_def fresh_alloc_def)
  then have n: "Some (fst E (rc_heap w)) \<notin> set (rc_vars w)" using wf(1) unfolding cow_wf_def rc_counts_def by blast
  then have "rc_vars w ! x \<noteq> Some (fst E (rc_heap w))" using nth_mem [OF wf(2)] by auto
  then show ?thesis using count_list_update [OF wf(2), of "Some a" "Some a"] a v wf(2) n by (auto simp: count_list_0_iff)
qed

lemma cow_new_own:
  assumes wf: "cow_wf E w" "x < length (rc_vars w)" and c: "bf_wf c"
  shows "\<exists>w' a. cow_new E x (Inr c) w = Inr w' \<and> cow_wf E w' \<and> rc_vars w' ! x = Some a \<and>
    rc_heap w' a = Some (c, 1) \<and> rc_val w' = (rc_val w)[x := Some c]"
proof -
  obtain w' where w': "cow_new E x (Inr c) w = Inr w'" "cow_wf E w'" "rc_val w' = (rc_val w)[x := Some c]" "rc_vars w' ! x \<noteq> None"
    using cow_new_changed [OF wf refl c, of "\<lambda>_. True"] by auto
  have len: "x < length (rc_vars w')" using arg_cong [OF w'(3), of length] wf(2) by simp
  obtain a' where a': "rc_vars w' ! x = Some a'" "rc_heap w' a' = Some (c, int (count_list (rc_vars w') (Some a')))"
    using cow_object_ok [OF w'(2) len w'(4)] w'(3) wf(2) by auto
  have "refptr_new (fst E (rc_heap w)) c x w = Inr w'" using w'(1) by (simp add: cow_new_def)
  then have "count_list (rc_vars w') (Some a') = 1" by (rule fresh_count_one [OF wf _ a'(1)])
  with w' a' show ?thesis by auto
qed

text \<open>Cloning gives the caller a buffer of its own with the same bytes.\<close>

lemma clone_own:
  assumes wf: "cow_wf E w" "x < length (rc_vars w)" "rc_vars w ! x \<noteq> None"
  shows "\<exists>w' a b. CloneDataIfReferenced E x cap w = Inr w' \<and> cow_wf E w' \<and> rc_vars w' ! x = Some a \<and>
    rc_heap w' a = Some (b, 1) \<and> bf_wf b \<and> bf_val b = opt_val (rc_val w ! x) \<and> rc_val w' = (rc_val w)[x := Some b]"
proof -
  obtain a b where ab: "cow_object x w = Inr (a, b)" "rc_vars w ! x = Some a" "rc_val w ! x = Some b" "bf_wf b"
    "rc_heap w a = Some (b, int (count_list (rc_vars w) (Some a)))" "cow_one_ref x w = Inr (count_list (rc_vars w) (Some a) = 1)"
    using cow_object_ok [OF wf] by blast
  show ?thesis
  proof (cases "count_list (rc_vars w) (Some a) = 1")
    case True
    have "(rc_val w)[x := Some b] = rc_val w" using ab(3) by (metis list_update_id)
    with ab True wf(1) show ?thesis by (simp add: CloneDataIfReferenced_def opt_val_def)
  next
    case False
    have "bf_size b \<le> length (bf_data b)" using ab(4) by (simp add: bf_wf_def)
    from Buffer_from_val [OF this, of "snd E" cap] obtain c where
      c: "Buffer_from (snd E) (bf_data b) (bf_size b) cap = Inr c" "bf_wf c" "bf_val c = bf_val b"
      by (auto simp: bf_val_def)
    from cow_new_own [OF wf(1,2) c(2)] c ab False show ?thesis by (auto simp: CloneDataIfReferenced_def opt_val_def)
  qed
qed

text \<open>Clone first, then call: the shape of the operations that change a buffer.\<close>

lemma clone_call_changed:
  assumes wf: "cow_wf E w" "x < length (rc_vars w)" "rc_vars w ! x \<noteq> None"
    and f: "\<And>b. bf_wf b \<Longrightarrow> bf_val b = opt_val (rc_val w ! x) \<Longrightarrow> \<exists>c. f b = Inr c \<and> bf_wf c \<and> P (Some c)"
  shows "cow_changed E x P w (res_bind (CloneDataIfReferenced E x cap w) (cow_call x f))"
proof -
  obtain w' a b where w': "CloneDataIfReferenced E x cap w = Inr w'" "cow_wf E w'" "rc_vars w' ! x = Some a"
    "rc_heap w' a = Some (b, 1)" "bf_wf b" "bf_val b = opt_val (rc_val w ! x)" "rc_val w' = (rc_val w)[x := Some b]"
    using clone_own [OF wf] by blast
  have len: "x < length (rc_vars w')" using arg_cong [OF w'(7), of length] wf(2) by simp
  obtain c where "f b = Inr c" "bf_wf c" "P (Some c)" using f [OF w'(5,6)] by blast
  from cow_call_changed [where P = P and f = f, OF w'(2) len w'(3,4) this] w'(1,7) show ?thesis
    by (auto simp: cow_changed_def)
qed

text \<open>Each operation, on the bytes of its buffer.\<close>

abbreviation becomes :: "byte list \<Rightarrow> buffer option \<Rightarrow> bool" where
  "becomes u v \<equiv> opt_val v = u"

lemma cow_changed_abs:
  "cow_changed E x (becomes u) w r \<Longrightarrow> \<exists>w'. r = Inr w' \<and> cow_wf E w' \<and> cow_abs w' = (cow_abs w)[x := u]"
  by (auto simp: cow_changed_def cow_abs_def map_update)

lemma cow_keep: "cow_wf E w \<Longrightarrow> x < length (rc_vars w) \<Longrightarrow> opt_val (rc_val w ! x) = u \<Longrightarrow> cow_changed E x (becomes u) w (Inr w)"
  unfolding cow_changed_def by (intro exI [of _ w] exI [of _ "rc_val w ! x"]) simp

lemma null_val: "x < length (rc_vars w) \<Longrightarrow> rc_vars w ! x = None \<Longrightarrow> rc_val w ! x = None"
  by (simp add: rc_val_def rc_obj_def)

lemma bf_clean [simp]: "clean False b"
  by (simp add: clean_def)

lemma Buffer_from_all: "\<exists>b. Buffer_from junk d (length d) cap = Inr b \<and> bf_wf b \<and> bf_val b = d"
  using Buffer_from_val [of "length d" d junk cap] by auto

lemma AppendData_changed:
  assumes "cow_wf E w" "x < length (rc_vars w)"
  shows "cow_changed E x (becomes (opt_val (rc_val w ! x) @ d)) w (cow_AppendData E x d w)"
proof (cases "rc_vars w ! x = None")
  case True
  obtain b where "Buffer_from (snd E) d (length d) (length d) = Inr b" "bf_wf b" "bf_val b = d" using Buffer_from_all by blast
  with cow_new_changed [OF assms this(1,2), of "becomes d"] True null_val [OF assms(2) True] show ?thesis
    by (simp add: cow_AppendData_def opt_val_def)
next
  case False
  obtain a b where ab: "cow_object x w = Inr (a, b)" "rc_vars w ! x = Some a" using cow_object_ok [OF assms False] by blast
  have "\<exists>c'. Buffer_AppendData False (snd E) d (length d) c = Inr c' \<and> bf_wf c' \<and> becomes (opt_val (rc_val w ! x) @ d) (Some c')"
    if "bf_wf c" "bf_val c = opt_val (rc_val w ! x)" for c
    using AppendData_ok [OF that(1), of False "length d" d "snd E"] that(2) by (auto simp: opt_val_def)
  from clone_call_changed [where f = "Buffer_AppendData False (snd E) d (length d)" and P = "becomes (opt_val (rc_val w ! x) @ d)"
      and cap = "max (bf_capacity b) (bf_size b + length d)", OF assms False this] ab
  show ?thesis by (simp add: cow_AppendData_def)
qed

lemma SetData_changed:
  assumes "cow_wf E w" "x < length (rc_vars w)"
  shows "cow_changed E x (becomes d) w (cow_SetData E x d w)"
proof (cases "rc_vars w ! x = None")
  case True
  show ?thesis
  proof (cases "d = []")
    case d: True
    have "refptr_assign x None w = Inr w" using True by (simp add: refptr_assign_def if_ptr_def list_update_same_conv assms(2))
    with cow_keep [OF assms, of d] True d null_val [OF assms(2) True] show ?thesis by (simp add: cow_SetData_def opt_val_def)
  next
    case d: False
    obtain b where "Buffer_from (snd E) d (length d) (length d) = Inr b" "bf_wf b" "bf_val b = d" using Buffer_from_all by blast
    with cow_new_changed [OF assms this(1,2), of "becomes d"] True d show ?thesis by (simp add: cow_SetData_def opt_val_def)
  qed
next
  case False
  obtain a b where ab: "cow_object x w = Inr (a, b)" "rc_vars w ! x = Some a" "bf_wf b"
    "rc_heap w a = Some (b, int (count_list (rc_vars w) (Some a)))" "cow_one_ref x w = Inr (count_list (rc_vars w) (Some a) = 1)"
    using cow_object_ok [OF assms False] by blast
  show ?thesis
  proof (cases "count_list (rc_vars w) (Some a) = 1")
    case True
    obtain c where c: "Buffer_SetData False (snd E) d (length d) b = Inr c" "bf_wf c" "becomes d (Some c)"
      using SetData_ok [OF ab(3), of False "length d" d "snd E"] by (auto simp: opt_val_def)
    have h: "rc_heap w a = Some (b, 1)" using ab(4) True by simp
    from cow_call_changed [where P = "becomes d" and f = "Buffer_SetData False (snd E) d (length d)", OF assms ab(2) h c] True ab
    show ?thesis by (simp add: cow_SetData_def)
  next
    case one: False
    obtain c where c: "Buffer_from (snd E) d (length d) (bf_capacity b) = Inr c" "bf_wf c" "bf_val c = d" using Buffer_from_all by blast
    have "becomes d (Some c)" using c(3) by (simp add: opt_val_def)
    from cow_new_changed [where P = "becomes d", OF assms c(1,2) this] one ab show ?thesis by (simp add: cow_SetData_def)
  qed
qed

lemma shrink_ok:
  assumes c: "bf_wf c" "n \<le> bf_size c"
  shows "\<exists>c'. Buffer_SetSize False junk n c = Inr c' \<and> bf_wf c' \<and> becomes (take n (bf_val c)) (Some c')"
proof -
  obtain c' where c': "Buffer_SetSize False junk n c = Inr c'" "bf_wf c'" "bf_size c' = n"
    "take (bf_size c) (bf_val c') = take n (bf_val c)" using SetSize_ok [OF c(1), of False junk n] by auto
  with c length_bf_val [OF c'(2)] show ?thesis by (auto simp: opt_val_def)
qed

lemma SetSize_changed:
  assumes "cow_wf E w" "x < length (rc_vars w)" "n \<le> length (opt_val (rc_val w ! x))"
  shows "cow_changed E x (becomes (take n (opt_val (rc_val w ! x)))) w (cow_SetSize E x n w)"
proof (cases "rc_vars w ! x = None")
  case True
  then have "n = 0" using null_val [OF assms(2) True] assms(3) by (simp add: opt_val_def)
  with cow_keep [OF assms(1,2), of "[]"] True null_val [OF assms(2) True] show ?thesis by (simp add: cow_SetSize_def opt_val_def)
next
  case False
  let ?u = "opt_val (rc_val w ! x)"
  let ?P = "becomes (take n ?u)" and ?f = "Buffer_SetSize False (snd E) n"
  obtain a b where ab: "cow_object x w = Inr (a, b)" "rc_vars w ! x = Some a" "rc_val w ! x = Some b" "bf_wf b"
    "rc_heap w a = Some (b, int (count_list (rc_vars w) (Some a)))" "cow_one_ref x w = Inr (count_list (rc_vars w) (Some a) = 1)"
    using cow_object_ok [OF assms(1,2) False] by blast
  have u: "?u = bf_val b" using ab(3) by (simp add: opt_val_def)
  have n: "n \<le> bf_size b" using assms(3) u length_bf_val [OF ab(4)] by simp
  show ?thesis
  proof (cases "count_list (rc_vars w) (Some a) = 1")
    case True
    obtain c where c: "?f b = Inr c" "bf_wf c" "?P (Some c)" using shrink_ok [OF ab(4) n] u by auto
    have h: "rc_heap w a = Some (b, 1)" using ab(5) True by simp
    from cow_call_changed [where P = ?P and f = ?f, OF assms(1,2) ab(2) h c] True ab show ?thesis by (simp add: cow_SetSize_def)
  next
    case one: False
    have "min (bf_size b) n \<le> length (bf_data b)" using ab(4) by (simp add: bf_wf_def min_le_iff_disj)
    from Buffer_from_val [OF this, of "snd E" "max (bf_capacity b) n"] obtain c where
      c: "Buffer_from (snd E) (bf_data b) (min (bf_size b) n) (max (bf_capacity b) n) = Inr c" "bf_wf c"
      "bf_val c = take (min (bf_size b) n) (bf_data b)" by blast
    have cv: "bf_val c = take n (bf_val b)" using c(3) n by (simp add: bf_val_def min_absorb2)
    have cn: "n \<le> bf_size c" using cv n length_bf_val [OF c(2)] length_bf_val [OF ab(4)] by simp
    obtain w' a' where w': "cow_new E x (Inr c) w = Inr w'" "cow_wf E w'" "rc_vars w' ! x = Some a'"
      "rc_heap w' a' = Some (c, 1)" "rc_val w' = (rc_val w)[x := Some c]" using cow_new_own [OF assms(1,2) c(2)] by blast
    have len: "x < length (rc_vars w')" using arg_cong [OF w'(5), of length] assms(2) by simp
    obtain c' where c': "?f c = Inr c'" "bf_wf c'" "?P (Some c')" using shrink_ok [OF c(2) cn] cv u by auto
    have "cow_changed E x ?P w' (cow_call x ?f w')"
      by (rule cow_call_changed [where f = ?f and P = ?P, OF w'(2) len w'(3,4) c'])
    then show ?thesis using w' ab one c(1) by (auto simp: cow_SetSize_def cow_changed_def)
  qed
qed

lemma EnsureCapacity_changed:
  assumes "cow_wf E w" "x < length (rc_vars w)"
  shows "cow_changed E x (becomes (opt_val (rc_val w ! x))) w (cow_EnsureCapacity E x n w)"
proof (cases "rc_vars w ! x = None")
  case True
  have "opt_val (rc_val w ! x) = []" using null_val [OF assms(2) True] by (simp add: opt_val_def)
  moreover have "becomes [] (Some (Buffer_sized (snd E) 0 n))" by (simp add: opt_val_def bf_val_def Buffer_sized_def)
  ultimately show ?thesis
    using True cow_keep [OF assms, of "[]"] cow_new_changed [OF assms refl Buffer_sized_wf(1), of "becomes []" "snd E" 0 n]
    by (simp add: cow_EnsureCapacity_def)
next
  case False
  let ?P = "becomes (opt_val (rc_val w ! x))" and ?f = "Buffer_EnsureCapacity False (snd E) n"
  obtain a b where ab: "cow_object x w = Inr (a, b)" "rc_vars w ! x = Some a" using cow_object_ok [OF assms False] by blast
  have "\<exists>c'. ?f c = Inr c' \<and> bf_wf c' \<and> ?P (Some c')" if "bf_wf c" "bf_val c = opt_val (rc_val w ! x)" for c
    using Ensure_ok [OF that(1), of False "snd E" n False] that(2) by (auto simp: opt_val_def Buffer_EnsureCapacity_def)
  from clone_call_changed [where f = ?f and P = ?P and cap = "max (bf_capacity b) n", OF assms False this] ab cow_keep [OF assms refl]
  show ?thesis by (cases "n \<le> bf_capacity b") (simp_all add: cow_EnsureCapacity_def max_def)
qed

lemma Clear_changed:
  assumes "cow_wf E w" "x < length (rc_vars w)"
  shows "cow_changed E x (becomes []) w (cow_Clear E x w)"
proof (cases "rc_vars w ! x = None")
  case True
  then show ?thesis using cow_keep [OF assms, of "[]"] null_val [OF assms(2) True] by (simp add: cow_Clear_def opt_val_def)
next
  case False
  obtain a b where ab: "cow_object x w = Inr (a, b)" "rc_vars w ! x = Some a" "bf_wf b"
    "rc_heap w a = Some (b, int (count_list (rc_vars w) (Some a)))" "cow_one_ref x w = Inr (count_list (rc_vars w) (Some a) = 1)"
    using cow_object_ok [OF assms False] by blast
  show ?thesis
  proof (cases "count_list (rc_vars w) (Some a) = 1")
    case True
    have h: "rc_heap w a = Some (b, 1)" using ab(4) True by simp
    have c: "bf_wf (Buffer_Clear False b)" "becomes [] (Some (Buffer_Clear False b))"
      using Clear_ok [OF ab(3), of False] by (simp_all add: opt_val_def)
    from cow_call_changed [where P = "becomes []" and f = "\<lambda>b. Inr (Buffer_Clear False b)", OF assms ab(2) h refl c] True ab
    show ?thesis by (simp add: cow_Clear_def)
  next
    case one: False
    have "becomes [] (Some (Buffer_sized (snd E) 0 (bf_capacity b)))" by (simp add: opt_val_def bf_val_def Buffer_sized_def)
    from cow_new_changed [where P = "becomes []", OF assms refl Buffer_sized_wf(1) this] one ab show ?thesis
      by (simp add: cow_Clear_def)
  qed
qed

lemma write_changed:
  assumes "cow_wf E w" "x < length (rc_vars w)" "i < length (opt_val (rc_val w ! x))"
  shows "cow_changed E x (becomes ((opt_val (rc_val w ! x))[i := v])) w (cow_write E x i v w)"
proof -
  let ?P = "becomes ((opt_val (rc_val w ! x))[i := v])"
  let ?f = "\<lambda>b. res_bind (mem_write i [v] (bf_data b)) (\<lambda>m. Inr (b\<lparr>bf_data := m\<rparr>))"
  have False: "rc_vars w ! x \<noteq> None" using assms(3) null_val [OF assms(2)] by (fastforce simp: opt_val_def)
  obtain a b where ab: "cow_object x w = Inr (a, b)" "rc_vars w ! x = Some a" using cow_object_ok [OF assms(1,2) False] by blast
  have "\<exists>c'. ?f c = Inr c' \<and> bf_wf c' \<and> ?P (Some c')" if c: "bf_wf c" "bf_val c = opt_val (rc_val w ! x)" for c
  proof -
    have i: "i < bf_size c" "i < length (bf_data c)" using assms(3) c length_bf_val [OF c(1)] by (auto simp: bf_wf_def)
    then have "overwrite i [v] (bf_data c) = (bf_data c)[i := v]" by (simp add: overwrite_def upd_conv_take_nth_drop)
    then show ?thesis using i c by (auto simp: bf_wf_def opt_val_def bf_val_def take_update_swap)
  qed
  from clone_call_changed [where f = ?f and P = ?P and cap = "bf_capacity b", OF assms(1,2) False this] ab
  show ?thesis by (simp add: cow_write_def)
qed

text \<open>Appending one buffer to another reads exactly the bytes of the other.\<close>

lemma AppendBuffer_changed:
  assumes "cow_wf E w" "x < length (rc_vars w)" "y < length (rc_vars w)" "x \<noteq> y"
  shows "cow_changed E x (becomes (opt_val (rc_val w ! x) @ opt_val (rc_val w ! y))) w (cow_AppendBuffer E x y w)"
proof (cases "rc_vars w ! y = None")
  case True
  then show ?thesis using AppendData_changed [OF assms(1,2), of "[]"] null_val [OF assms(3) True]
    by (simp add: cow_AppendBuffer_def opt_val_def)
next
  case False
  obtain a b where ab: "cow_object y w = Inr (a, b)" "rc_val w ! y = Some b" "rc_vars w ! y = Some a"
    "cow_one_ref y w = Inr (count_list (rc_vars w) (Some a) = 1)"
    using cow_object_ok [OF assms(1,3) False] by blast
  with AppendData_changed [OF assms(1,2), of "bf_val b"] assms(4) show ?thesis
    by (simp add: cow_AppendBuffer_def opt_val_def bf_val_def)
qed

text \<open>The pointer operations move values between entries.\<close>

lemma cow_wf_sub:
  "cow_wf E w \<Longrightarrow> rc_wf w' \<Longrightarrow> set (rc_val w') \<subseteq> insert None (set (rc_val w)) \<Longrightarrow> cow_wf E w'"
  by (auto simp: cow_wf_def)

lemma assign_ok:
  assumes "cow_wf E w" "x < length (rc_vars w)" "y < length (rc_vars w)"
  shows "\<exists>w'. cow_assign x y w = Inr w' \<and> cow_wf E w' \<and> cow_abs w' = (cow_abs w)[x := cow_abs w ! y]"
proof (cases "y = x")
  case False
  obtain w' where w': "refptr_copy x y w = Inr w'" "rc_wf w'" "rc_val w' = (rc_val w)[x := rc_val w ! y]"
    using refptr_copy_ok [of w x y] assms by (auto simp: cow_wf_def)
  have "set (rc_val w') \<subseteq> insert None (set (rc_val w))"
    using w'(3) set_update_subset_insert [of "rc_val w" x] assms(3) by fastforce
  with w' False cow_wf_sub [OF assms(1) w'(2)] assms(3) show ?thesis by (auto simp: cow_assign_def cow_abs_def map_update)
qed (use assms in \<open>auto simp: cow_assign_def\<close>)

lemma destroy_ok:
  assumes "cow_wf E w" "x < length (rc_vars w)"
  shows "\<exists>w'. refptr_destroy x w = Inr w' \<and> cow_wf E w' \<and> cow_abs w' = (cow_abs w)[x := []]"
proof -
  obtain w' where w': "refptr_destroy x w = Inr w'" "rc_wf w'" "rc_val w' = (rc_val w)[x := None]"
    using refptr_destroy_ok [of w x] assms by (auto simp: cow_wf_def)
  with set_update_subset_insert [of "rc_val w" x None] cow_wf_sub [OF assms(1) w'(2)] show ?thesis
    by (auto simp: cow_abs_def map_update opt_val_def)
qed

lemma swap_ok:
  assumes "cow_wf E w" "x < length (rc_vars w)" "y < length (rc_vars w)"
  shows "cow_wf E (cow_swap x y w) \<and> cow_abs (cow_swap x y w) = (cow_abs w)[x := cow_abs w ! y, y := cow_abs w ! x]"
proof -
  have w': "rc_wf (cow_swap x y w)" "rc_val (cow_swap x y w) = (rc_val w)[x := rc_val w ! y, y := rc_val w ! x]"
    using refptr_swap_ok [of w x y] assms by (auto simp: cow_wf_def cow_swap_def)
  have "set (rc_val (cow_swap x y w)) = set (rc_val w)" using w'(2) assms(2,3) by (simp add: set_swap)
  with w' cow_wf_sub [OF assms(1) w'(1)] assms(2,3) show ?thesis by (auto simp: cow_abs_def map_update)
qed

lemma move_ok:
  assumes "cow_wf E w" "x < length (rc_vars w)" "y < length (rc_vars w)" "x \<noteq> y"
  shows "\<exists>w'. cow_move x y w = Inr w' \<and> cow_wf E w' \<and> cow_abs w' = (cow_abs w)[x := cow_abs w ! y, y := []]"
proof -
  obtain w1 where w1: "refptr_destroy x w = Inr w1" "cow_wf E w1" "cow_abs w1 = (cow_abs w)[x := []]"
    using destroy_ok [OF assms(1,2)] by blast
  have len: "length (rc_vars w1) = length (rc_vars w)" using arg_cong [OF w1(3), of length] by simp
  have "cow_move x y w = Inr (cow_swap x y w1)"
    using assms w1(1) by (simp add: cow_move_def refptr_move_eq cow_swap_def)
  with swap_ok [OF w1(2), of x y] w1(3) assms len show ?thesis by simp
qed

section \<open>Refinement of separate byte lists\<close>

datatype cow_op = CAppend nat "byte list" | CSet nat "byte list" | CShrink nat nat | CReserve nat nat | CClear nat
  | CWrite nat nat byte | CAppendBuffer nat nat | CAssign nat nat | CMove nat nat | CSwap nat nat | CDestroy nat

definition cow_exec :: "new_env \<Rightarrow> cow_op \<Rightarrow> cow \<Rightarrow> cow res" where
  "cow_exec E p w =
     (case p of
        CAppend x d \<Rightarrow> cow_AppendData E x d w
      | CSet x d \<Rightarrow> cow_SetData E x d w
      | CShrink x n \<Rightarrow> cow_SetSize E x n w
      | CReserve x n \<Rightarrow> cow_EnsureCapacity E x n w
      | CClear x \<Rightarrow> cow_Clear E x w
      | CWrite x i v \<Rightarrow> cow_write E x i v w
      | CAppendBuffer x y \<Rightarrow> cow_AppendBuffer E x y w
      | CAssign x y \<Rightarrow> cow_assign x y w
      | CMove x y \<Rightarrow> cow_move x y w
      | CSwap x y \<Rightarrow> Inr (cow_swap x y w)
      | CDestroy x \<Rightarrow> refptr_destroy x w)"

text \<open>The same operations on variables that hold byte lists: nothing is shared.\<close>

definition cow_spec :: "cow_op \<Rightarrow> byte list list \<Rightarrow> byte list list" where
  "cow_spec p vs =
     (case p of
        CAppend x d \<Rightarrow> vs[x := vs ! x @ d]
      | CSet x d \<Rightarrow> vs[x := d]
      | CShrink x n \<Rightarrow> vs[x := take n (vs ! x)]
      | CReserve x n \<Rightarrow> vs
      | CClear x \<Rightarrow> vs[x := []]
      | CWrite x i v \<Rightarrow> vs[x := (vs ! x)[i := v]]
      | CAppendBuffer x y \<Rightarrow> vs[x := vs ! x @ vs ! y]
      | CAssign x y \<Rightarrow> vs[x := vs ! y]
      | CMove x y \<Rightarrow> vs[x := vs ! y, y := []]
      | CSwap x y \<Rightarrow> vs[x := vs ! y, y := vs ! x]
      | CDestroy x \<Rightarrow> vs[x := []])"

text \<open>
  What callers have to keep to: existing buffers, sizes and indices within them, and two different buffers to append
  (appending a buffer to itself copies from the block it has freed) and to move (\<open>operator=\<close> from itself loses the value).
\<close>

definition cow_ok :: "cow_op \<Rightarrow> byte list list \<Rightarrow> bool" where
  "cow_ok p vs \<longleftrightarrow>
     (case p of
        CAppend x d \<Rightarrow> x < length vs
      | CSet x d \<Rightarrow> x < length vs
      | CShrink x n \<Rightarrow> x < length vs \<and> n \<le> length (vs ! x)
      | CReserve x n \<Rightarrow> x < length vs
      | CClear x \<Rightarrow> x < length vs
      | CWrite x i v \<Rightarrow> x < length vs \<and> i < length (vs ! x)
      | CAppendBuffer x y \<Rightarrow> x < length vs \<and> y < length vs \<and> x \<noteq> y
      | CAssign x y \<Rightarrow> x < length vs \<and> y < length vs
      | CMove x y \<Rightarrow> x < length vs \<and> y < length vs \<and> x \<noteq> y
      | CSwap x y \<Rightarrow> x < length vs \<and> y < length vs
      | CDestroy x \<Rightarrow> x < length vs)"

lemma cow_abs_nth: "x < length (rc_vars w) \<Longrightarrow> cow_abs w ! x = opt_val (rc_val w ! x)"
  by (simp add: cow_abs_def)

lemma cow_abs_same: "x < length (rc_vars w) \<Longrightarrow> (cow_abs w)[x := opt_val (rc_val w ! x)] = cow_abs w"
  by (metis cow_abs_nth list_update_id)

lemmas cow_changes =
  AppendData_changed [THEN cow_changed_abs] SetData_changed [THEN cow_changed_abs] SetSize_changed [THEN cow_changed_abs]
  EnsureCapacity_changed [THEN cow_changed_abs] Clear_changed [THEN cow_changed_abs] write_changed [THEN cow_changed_abs]
  AppendBuffer_changed [THEN cow_changed_abs] assign_ok move_ok destroy_ok

lemma cow_exec_refines:
  "cow_wf E w \<Longrightarrow> cow_ok p (cow_abs w) \<Longrightarrow> \<exists>w'. cow_exec E p w = Inr w' \<and> cow_wf E w' \<and> cow_abs w' = cow_spec p (cow_abs w)"
  using swap_ok [of E w] cow_changes [of E w]
  by (cases p) (auto simp: cow_exec_def cow_spec_def cow_ok_def cow_abs_nth cow_abs_same)

interpretation cow_ref: data_refinement "cow_wf E" cow_abs "cow_exec E" cow_spec cow_ok for E
  by unfold_locales (rule cow_exec_refines)

section \<open>Properties\<close>

text \<open>A program with \<open>n\<close> buffers, all empty.\<close>

definition cow_start :: "nat \<Rightarrow> cow" where
  "cow_start n = \<lparr>rc_heap = Map.empty, rc_vars = replicate n None\<rparr>"

lemma cow_start_wf:
  "fresh_alloc (fst E) \<Longrightarrow> cow_wf E (cow_start n)"
  by (auto simp: cow_wf_def cow_start_def rc_counts_def rc_val_def rc_obj_def count_list_0_iff)

lemma cow_start_abs: "cow_abs (cow_start n) = replicate n []"
  by (simp add: cow_abs_def cow_start_def rc_val_def rc_obj_def opt_val_def)

text \<open>C18: sharing is invisible. Any program of appends, replacements, truncations, reservations, clears, byte writes, copies, moves, swaps and
  destructions on any number of buffers, whose indices and truncated sizes are within the buffers and in which no buffer
  is appended to itself or moved onto itself, runs without touching freed or foreign memory and leaves in every buffer the bytes
  that the same program leaves in variables that are separate byte lists; and at its end the objects allocated are
  exactly those some buffer refers to, each counted as often as it is referred to.\<close>

theorem cow_value_semantics:
  assumes "fresh_alloc (fst E)" "run_ok cow_ok cow_spec ops (replicate n [])"
  shows "\<exists>w. run_res (cow_exec E) ops (cow_start n) = Inr w \<and> cow_abs w = fold cow_spec ops (replicate n []) \<and>
    dom (rc_heap w) = {a. Some a \<in> set (rc_vars w)} \<and>
    (\<forall>a b k. rc_heap w a = Some (b, k) \<longrightarrow> k = int (count_list (rc_vars w) (Some a)))"
proof -
  obtain w where w: "run_res (cow_exec E) ops (cow_start n) = Inr w" "cow_wf E w" "cow_abs w = fold cow_spec ops (replicate n [])"
    using cow_ref.run_refines [OF cow_start_wf [OF assms(1)], of ops] assms(2) by (auto simp: cow_start_abs)
  have c: "rc_wf w" using w(2) by (simp add: cow_wf_def)
  then have "dom (rc_heap w) = {a. Some a \<in> set (rc_vars w)}" by (rule rc_heap_dom)
  moreover have "\<forall>a b k. rc_heap w a = Some (b, k) \<longrightarrow> k = int (count_list (rc_vars w) (Some a))"
    using c unfolding rc_counts_def by blast
  ultimately show ?thesis using w(1,3) by blast
qed

lemma cow_value_semantics_witness:
  "\<exists>w. run_res (cow_exec (next_address, \<lambda>_. 0)) [CAppend 0 [1, 2], CAssign 1 0, CWrite 1 0 9, CAppendBuffer 0 1]
     (cow_start 2) = Inr w \<and> cow_abs w = [[1, 2, 9, 2], [9, 2]]"
proof -
  have "run_ok cow_ok cow_spec [CAppend 0 [1, 2], CAssign 1 0, CWrite 1 0 9, CAppendBuffer 0 1] (replicate 2 [])"
    by (simp add: cow_ok_def cow_spec_def numeral_2_eq_2)
  from cow_value_semantics [OF _ this, of "(next_address, \<lambda>_. 0)"] fresh_next_address show ?thesis
    by (simp add: cow_spec_def numeral_2_eq_2) blast
qed

end
