(* ===== verification/Byte_Buffer.thy ===== *)
theory Byte_Buffer
  imports Buffer
begin

text \<open>
  Writing and reading binary messages: \<open>byte_order.h\<close> and \<open>byte_buffer.h\<close>, \<open>byte_buffer.cc\<close> under \<open>src/xrtcserver/rtcbase/src/rtc_base\<close>.
  The host is little endian, as the build's target is, so the object representation of an integer of \<open>n\<close> bytes is
  \<open>le_bytes n\<close> of its value, and \<open>htobe16\<close> and its relatives reverse the bytes. \<open>char\<close> is signed. The writer is a buffer
  that is not cleared on free. The argument \<open>val\<close> of a read says whether the caller's pointer is not null; \<open>None\<close> is the
  result false, with nothing stored.
\<close>

section \<open>Definitions\<close>

subsection \<open>Byte order\<close>

definition swap_bytes :: "nat \<Rightarrow> 'a::len word \<Rightarrow> 'a word" where
  "swap_bytes n v = word_of_nat (le_nat (rev (le_bytes n (unat v))))"

definition HostToNetwork16 :: "16 word \<Rightarrow> 16 word" where
  "HostToNetwork16 n = swap_bytes 2 n"

definition HostToNetwork32 :: "32 word \<Rightarrow> 32 word" where
  "HostToNetwork32 n = swap_bytes 4 n"

definition HostToNetwork64 :: "64 word \<Rightarrow> 64 word" where
  "HostToNetwork64 n = swap_bytes 8 n"

definition NetworkToHost16 :: "16 word \<Rightarrow> 16 word" where
  "NetworkToHost16 n = swap_bytes 2 n"

definition NetworkToHost32 :: "32 word \<Rightarrow> 32 word" where
  "NetworkToHost32 n = swap_bytes 4 n"

definition NetworkToHost64 :: "64 word \<Rightarrow> 64 word" where
  "NetworkToHost64 n = swap_bytes 8 n"

text \<open>Integers of a fixed byte order in memory; each works at the pointer it is given, here the start of the list.\<close>

definition Set8 :: "byte list \<Rightarrow> nat \<Rightarrow> byte \<Rightarrow> byte list res" where
  "Set8 memory offset v = mem_write offset [v] memory"

definition Get8 :: "byte list \<Rightarrow> nat \<Rightarrow> byte res" where
  "Get8 memory offset = res_bind (mem_read offset 1 memory) (\<lambda>bs. Inr (hd bs))"

definition set_host :: "nat \<Rightarrow> byte list \<Rightarrow> 'a::len word \<Rightarrow> byte list res" where
  "set_host n memory v = mem_write 0 (le_bytes n (unat v)) memory"

definition get_host :: "nat \<Rightarrow> byte list \<Rightarrow> 'a::len word res" where
  "get_host n memory = res_bind (mem_read 0 n memory) (\<lambda>bs. Inr (word_of_nat (le_nat bs)))"

definition SetBE16 :: "byte list \<Rightarrow> 16 word \<Rightarrow> byte list res" where
  "SetBE16 memory v = set_host 2 memory (HostToNetwork16 v)"

definition SetBE32 :: "byte list \<Rightarrow> 32 word \<Rightarrow> byte list res" where
  "SetBE32 memory v = set_host 4 memory (HostToNetwork32 v)"

definition SetBE64 :: "byte list \<Rightarrow> 64 word \<Rightarrow> byte list res" where
  "SetBE64 memory v = set_host 8 memory (HostToNetwork64 v)"

definition GetBE16 :: "byte list \<Rightarrow> 16 word res" where
  "GetBE16 memory = res_bind (get_host 2 memory) (\<lambda>v. Inr (NetworkToHost16 v))"

definition GetBE32 :: "byte list \<Rightarrow> 32 word res" where
  "GetBE32 memory = res_bind (get_host 4 memory) (\<lambda>v. Inr (NetworkToHost32 v))"

definition GetBE64 :: "byte list \<Rightarrow> 64 word res" where
  "GetBE64 memory = res_bind (get_host 8 memory) (\<lambda>v. Inr (NetworkToHost64 v))"

definition SetLE16 :: "byte list \<Rightarrow> 16 word \<Rightarrow> byte list res" where
  "SetLE16 memory v = set_host 2 memory v"

definition SetLE32 :: "byte list \<Rightarrow> 32 word \<Rightarrow> byte list res" where
  "SetLE32 memory v = set_host 4 memory v"

definition SetLE64 :: "byte list \<Rightarrow> 64 word \<Rightarrow> byte list res" where
  "SetLE64 memory v = set_host 8 memory v"

definition GetLE16 :: "byte list \<Rightarrow> 16 word res" where
  "GetLE16 memory = get_host 2 memory"

definition GetLE32 :: "byte list \<Rightarrow> 32 word res" where
  "GetLE32 memory = get_host 4 memory"

definition GetLE64 :: "byte list \<Rightarrow> 64 word res" where
  "GetLE64 memory = get_host 8 memory"

definition IsHostBigEndian :: bool where
  "IsHostBigEndian = False"

subsection \<open>Writer\<close>

definition kDefaultCapacity :: nat where
  "kDefaultCapacity = 4096"

definition WriteBytes :: "(nat \<Rightarrow> byte) \<Rightarrow> byte list \<Rightarrow> nat \<Rightarrow> buffer \<Rightarrow> buffer res" where
  "WriteBytes junk val len b = Buffer_AppendData False junk val len b"

text \<open>The constructor; no bytes given is the null pointer.\<close>

definition Writer_Construct :: "(nat \<Rightarrow> byte) \<Rightarrow> byte list option \<Rightarrow> nat \<Rightarrow> buffer res" where
  "Writer_Construct junk bytes sz =
     (case bytes of Some bs \<Rightarrow> Buffer_AppendData False junk bs sz Buffer_empty
      | None \<Rightarrow> Buffer_EnsureCapacity False junk sz Buffer_empty)"

definition ByteBufferWriter :: "(nat \<Rightarrow> byte) \<Rightarrow> buffer res" where
  "ByteBufferWriter junk = Writer_Construct junk None kDefaultCapacity"

definition WriteUInt8 :: "(nat \<Rightarrow> byte) \<Rightarrow> byte \<Rightarrow> buffer \<Rightarrow> buffer res" where
  "WriteUInt8 junk val b = WriteBytes junk (le_bytes 1 (unat val)) 1 b"

definition WriteUInt16 :: "(nat \<Rightarrow> byte) \<Rightarrow> 16 word \<Rightarrow> buffer \<Rightarrow> buffer res" where
  "WriteUInt16 junk val b = (let v = HostToNetwork16 val in WriteBytes junk (le_bytes 2 (unat v)) 2 b)"

definition WriteUInt24 :: "(nat \<Rightarrow> byte) \<Rightarrow> 32 word \<Rightarrow> buffer \<Rightarrow> buffer res" where
  "WriteUInt24 junk val b =
     (let v = HostToNetwork32 val; start = drop 1 (le_bytes 4 (unat v)) in WriteBytes junk start 3 b)"

definition WriteUInt32 :: "(nat \<Rightarrow> byte) \<Rightarrow> 32 word \<Rightarrow> buffer \<Rightarrow> buffer res" where
  "WriteUInt32 junk val b = (let v = HostToNetwork32 val in WriteBytes junk (le_bytes 4 (unat v)) 4 b)"

definition WriteUInt64 :: "(nat \<Rightarrow> byte) \<Rightarrow> 64 word \<Rightarrow> buffer \<Rightarrow> buffer res" where
  "WriteUInt64 junk val b = (let v = HostToNetwork64 val in WriteBytes junk (le_bytes 8 (unat v)) 8 b)"

function uvarint_loop :: "(nat \<Rightarrow> byte) \<Rightarrow> 64 word \<Rightarrow> buffer \<Rightarrow> (64 word \<times> buffer) res" where
  "uvarint_loop junk val b =
     (if val \<ge> 0x80
      then let byte = ucast val OR 0x80
           in res_bind (WriteBytes junk [byte] 1 b) (uvarint_loop junk (drop_bit 7 val))
      else Inr (val, b))"
  by pat_completeness auto
termination uvarint_loop
proof (relation "measure (\<lambda>(junk, val, b). unat val)")
  fix junk :: "nat \<Rightarrow> byte" and val :: "64 word" and b byte x
  assume "0x80 \<le> val"
  then have "128 \<le> unat val" by (simp add: word_le_nat_alt)
  then have "unat (drop_bit 7 val) < unat val" by (simp add: drop_bit_eq_div unat_div)
  then show "((junk, drop_bit 7 val, x), (junk, val, b)) \<in> measure (\<lambda>(junk, val, b). unat val)" by simp
qed simp

definition WriteUVarint :: "(nat \<Rightarrow> byte) \<Rightarrow> 64 word \<Rightarrow> buffer \<Rightarrow> buffer res" where
  "WriteUVarint junk val b =
     res_bind (uvarint_loop junk val b) (\<lambda>(val, b). let last_byte = ucast val in WriteBytes junk [last_byte] 1 b)"

definition WriteString :: "(nat \<Rightarrow> byte) \<Rightarrow> byte list \<Rightarrow> buffer \<Rightarrow> buffer res" where
  "WriteString junk val b = WriteBytes junk val (length val) b"

definition ReserveWriteBuffer :: "(nat \<Rightarrow> byte) \<Rightarrow> nat \<Rightarrow> buffer \<Rightarrow> buffer res" where
  "ReserveWriteBuffer junk len b = Buffer_SetSize False junk (bf_size b + len) b"

definition Writer_Resize :: "(nat \<Rightarrow> byte) \<Rightarrow> nat \<Rightarrow> buffer \<Rightarrow> buffer res" where
  "Writer_Resize junk sz b = Buffer_SetSize False junk sz b"

definition Writer_Clear :: "buffer \<Rightarrow> buffer" where
  "Writer_Clear b = Buffer_Clear False b"

subsection \<open>Reader\<close>

record reader =
  br_bytes :: "byte list"
  br_size :: nat
  br_start :: nat
  br_end :: nat

definition Reader_Construct :: "byte list \<Rightarrow> nat \<Rightarrow> reader" where
  "Reader_Construct bytes len = \<lparr>br_bytes = bytes, br_size = len, br_start = 0, br_end = len\<rparr>"

definition Reader_of_writer :: "buffer \<Rightarrow> reader" where
  "Reader_of_writer b = Reader_Construct (bf_data b) (bf_size b)"

definition Reader_Length :: "reader \<Rightarrow> nat" where
  "Reader_Length r = br_end r - br_start r"

definition ReadBytes :: "nat \<Rightarrow> reader \<Rightarrow> (byte list option \<times> reader) res" where
  "ReadBytes len r =
     (if len > Reader_Length r then Inr (None, r)
      else res_bind (mem_read (br_start r) len (br_bytes r)) (\<lambda>bs. Inr (Some bs, r\<lparr>br_start := br_start r + len\<rparr>)))"

definition ReadString :: "bool \<Rightarrow> nat \<Rightarrow> reader \<Rightarrow> (byte list option \<times> reader) res" where
  "ReadString val len r =
     (if \<not> val then Inr (None, r)
      else if len > Reader_Length r then Inr (None, r)
      else res_bind (mem_read (br_start r) len (br_bytes r)) (\<lambda>bs. Inr (Some bs, r\<lparr>br_start := br_start r + len\<rparr>)))"

definition Consume :: "nat \<Rightarrow> reader \<Rightarrow> bool \<times> reader" where
  "Consume sz r = (if sz > Reader_Length r then (False, r) else (True, r\<lparr>br_start := br_start r + sz\<rparr>))"

definition ReadUInt8 :: "bool \<Rightarrow> reader \<Rightarrow> (byte option \<times> reader) res" where
  "ReadUInt8 val r =
     (if \<not> val then Inr (None, r)
      else res_bind (ReadBytes 1 r) (\<lambda>(v, r). Inr (map_option (\<lambda>bs. word_of_nat (le_nat bs)) v, r)))"

definition ReadUInt16 :: "bool \<Rightarrow> reader \<Rightarrow> (16 word option \<times> reader) res" where
  "ReadUInt16 val r =
     (if \<not> val then Inr (None, r)
      else res_bind (ReadBytes 2 r) (\<lambda>(v, r).
             case v of None \<Rightarrow> Inr (None, r) | Some bs \<Rightarrow> Inr (Some (NetworkToHost16 (word_of_nat (le_nat bs))), r)))"

definition ReadUInt24 :: "bool \<Rightarrow> reader \<Rightarrow> (32 word option \<times> reader) res" where
  "ReadUInt24 val r =
     (if \<not> val then Inr (None, r)
      else let v0 = le_bytes 4 0
           in res_bind (ReadBytes 3 r) (\<lambda>(v, r).
                case v of None \<Rightarrow> Inr (None, r)
                | Some bs \<Rightarrow> Inr (Some (NetworkToHost32 (word_of_nat (le_nat (overwrite 1 bs v0)))), r)))"

definition ReadUInt32 :: "bool \<Rightarrow> reader \<Rightarrow> (32 word option \<times> reader) res" where
  "ReadUInt32 val r =
     (if \<not> val then Inr (None, r)
      else res_bind (ReadBytes 4 r) (\<lambda>(v, r).
             case v of None \<Rightarrow> Inr (None, r) | Some bs \<Rightarrow> Inr (Some (NetworkToHost32 (word_of_nat (le_nat bs))), r)))"

definition ReadUInt64 :: "bool \<Rightarrow> reader \<Rightarrow> (64 word option \<times> reader) res" where
  "ReadUInt64 val r =
     (if \<not> val then Inr (None, r)
      else res_bind (ReadBytes 8 r) (\<lambda>(v, r).
             case v of None \<Rightarrow> Inr (None, r) | Some bs \<Rightarrow> Inr (Some (NetworkToHost64 (word_of_nat (le_nat bs))), r)))"

text \<open>The loop of \<open>ReadUVarint\<close>; \<open>static_cast<uint64_t>\<close> of a \<open>char\<close> extends its sign.\<close>

function read_uvarint :: "nat \<Rightarrow> 64 word \<Rightarrow> reader \<Rightarrow> (64 word option \<times> reader) res" where
  "read_uvarint i v r =
     (if i < 64
      then res_bind (ReadBytes 1 r) (\<lambda>(bs, r).
             case bs of None \<Rightarrow> Inr (None, r)
             | Some bs \<Rightarrow>
                 let byte = scast (hd bs); v = v OR push_bit i (byte AND 0x7F)
                 in if byte < 0x80 then Inr (Some v, r) else read_uvarint (i + 7) v r)
      else Inr (None, r))"
  by pat_completeness auto
termination read_uvarint by (relation "measure (\<lambda>(i, v, r). 64 - i)") auto

declare uvarint_loop.simps [simp del] read_uvarint.simps [simp del]

definition ReadUVarint :: "bool \<Rightarrow> reader \<Rightarrow> (64 word option \<times> reader) res" where
  "ReadUVarint val r = (if \<not> val then Inr (None, r) else read_uvarint 0 0 r)"

section \<open>Lemmas\<close>

subsection \<open>Byte order\<close>

lemma le_bytes_mod: "le_bytes n (v mod 256 ^ n) = le_bytes n v"
  by (metis le_bytes_le_nat le_nat_le_bytes length_le_bytes)

lemma unat_of_le:
  assumes "LENGTH('a::len) = 8 * length bs"
  shows "unat (word_of_nat (le_nat bs) :: 'a word) = le_nat bs"
proof -
  have "(256 :: nat) ^ length bs = 2 ^ LENGTH('a)" using assms by (simp add: power_mult)
  then show ?thesis using le_nat_bound [of bs] by (simp add: unat_of_nat take_bit_nat_eq_self)
qed

lemma swap_bytes_layout:
  fixes v :: "'a::len word"
  assumes "LENGTH('a) = 8 * n"
  shows "le_bytes n (unat (swap_bytes n v)) = rev (le_bytes n (unat v))"
  using unat_of_le [of "rev (le_bytes n (unat v))", where 'a = 'a] le_bytes_le_nat [of "rev (le_bytes n (unat v))"] assms
  by (simp add: swap_bytes_def)

lemma word_of_le_bytes: "LENGTH('a::len) = 8 * n \<Longrightarrow> word_of_nat (le_nat (le_bytes n (unat v))) = (v :: 'a word)"
proof -
  assume "LENGTH('a) = 8 * n"
  then have "(256 :: nat) ^ n = 2 ^ LENGTH('a)" by (simp add: power_mult)
  then have "unat v mod 256 ^ n = unat v" using unsigned_less [of v] by simp
  then show ?thesis by (simp add: le_nat_le_bytes)
qed

lemma swap_of_rev:
  assumes "LENGTH('a::len) = 8 * n"
  shows "swap_bytes n (word_of_nat (le_nat (rev (le_bytes n (unat v))))) = (v :: 'a word)"
  using assms by (simp add: swap_bytes_def unat_of_le le_bytes_le_nat [of "rev (le_bytes n (unat v))", simplified] word_of_le_bytes)

lemma swap_bytes_swap: "LENGTH('a::len) = 8 * n \<Longrightarrow> swap_bytes n (swap_bytes n v) = (v :: 'a word)"
  using swap_of_rev [of n v] by (simp add: swap_bytes_def)

text \<open>What is stored big endian or little endian is read back.\<close>

lemma set_get_host:
  "LENGTH('a::len) = 8 * n \<Longrightarrow> n \<le> length memory \<Longrightarrow> \<exists>m. set_host n memory (v :: 'a word) = Inr m \<and> get_host n m = Inr v \<and>
    take n m = le_bytes n (unat v) \<and> drop n m = drop n memory"
  by (simp add: set_host_def get_host_def overwrite_def word_of_le_bytes)

subsection \<open>Writing\<close>

abbreviation big_endian :: "nat \<Rightarrow> 'a::len word \<Rightarrow> byte list" where
  "big_endian n v \<equiv> rev (le_bytes n (unat v))"

lemma WriteBytes_ok: "bf_wf b \<Longrightarrow> \<exists>b'. WriteBytes junk bs (length bs) b = Inr b' \<and> bf_wf b' \<and> bf_val b' = bf_val b @ bs"
  using AppendData_ok [of b False "length bs" bs junk] by (auto simp: WriteBytes_def clean_def)

lemma ByteBufferWriter_ok: "\<exists>b. ByteBufferWriter junk = Inr b \<and> bf_wf b \<and> bf_val b = [] \<and> kDefaultCapacity \<le> bf_capacity b"
proof -
  have "bf_wf Buffer_empty" "clean False Buffer_empty" by (simp_all add: bf_wf_def clean_def Buffer_empty_def)
  from Ensure_ok [OF this, of junk kDefaultCapacity False] show ?thesis
    by (auto simp: ByteBufferWriter_def Writer_Construct_def Buffer_EnsureCapacity_def bf_val_def Buffer_empty_def)
qed

text \<open>The bytes of a variable length integer, as the format defines them.\<close>

fun uv_enc :: "nat \<Rightarrow> byte list" where
  "uv_enc n = (if n < 128 then [word_of_nat n] else word_of_nat (n mod 128 + 128) # uv_enc (n div 128))"

declare uv_enc.simps [simp del]

lemma top_bit: "n < 8 \<Longrightarrow> n < 7 \<or> n = (7 :: nat)"
  by arith

lemma uvarint_byte: "(ucast (val :: 64 word) OR 0x80 :: byte) = word_of_nat (unat val mod 128 + 128)"
proof -
  have "(word_of_nat (unat val mod 128) :: byte) = take_bit 7 (ucast val)"
    by (rule word_unat_eq_iff [THEN iffD2])
      (simp add: unat_of_nat take_bit_nat_eq_self take_bit_eq_mod unat_mod unsigned_ucast_eq mod_mod_cancel)
  moreover have "(0x80 :: byte) = push_bit 7 1" by simp
  moreover have "take_bit 7 (ucast val) + push_bit 7 1 = (take_bit 7 (ucast val) OR push_bit 7 1 :: byte)"
    by (rule disjunctive_add) (unfold bit_take_bit_iff bit_push_bit_iff, auto)
  moreover have "(take_bit 7 (ucast val) OR push_bit 7 1 :: byte) = ucast val OR push_bit 7 1"
    by (rule bit_word_eqI) (unfold bit_or_iff bit_take_bit_iff bit_push_bit_iff, auto simp: bit_simps dest: top_bit)
  ultimately show ?thesis by simp
qed

lemma uvarint_loop_ok:
  "bf_wf b \<Longrightarrow> \<exists>val' b' bs. uvarint_loop junk val b = Inr (val', b') \<and> bf_wf b' \<and> bf_val b' = bf_val b @ bs \<and>
    uv_enc (unat val) = bs @ [ucast val']"
proof (induction junk val b rule: uvarint_loop.induct)
  case (1 junk val b)
  show ?case
  proof (cases "0x80 \<le> val")
    case True
    let ?byte = "ucast val OR 0x80 :: byte"
    obtain b1 where b1: "WriteBytes junk [?byte] 1 b = Inr b1" "bf_wf b1" "bf_val b1 = bf_val b @ [?byte]"
      using WriteBytes_ok [OF "1.prems", of junk "[?byte]"] by auto
    have "128 \<le> unat val" using True by (simp add: word_le_nat_alt)
    then have "uv_enc (unat val) = ?byte # uv_enc (unat (drop_bit 7 val))"
      by (subst uv_enc.simps) (simp add: uvarint_byte drop_bit_eq_div unat_div)
    with "1.IH" [OF True refl b1(2)] b1 True show ?thesis by (subst uvarint_loop.simps) auto
  next
    case False
    then have "unat val < 128" by (simp add: word_less_nat_alt not_le)
    then have "uv_enc (unat val) = [ucast val]" by (subst uv_enc.simps) simp
    with False "1.prems" show ?thesis by (subst uvarint_loop.simps) simp
  qed
qed

lemma WriteUVarint_ok:
  assumes "bf_wf b"
  shows "\<exists>b'. WriteUVarint junk val b = Inr b' \<and> bf_wf b' \<and> bf_val b' = bf_val b @ uv_enc (unat val)"
proof -
  obtain val' b1 bs where b1: "uvarint_loop junk val b = Inr (val', b1)" "bf_wf b1" "bf_val b1 = bf_val b @ bs"
    "uv_enc (unat val) = bs @ [ucast val']" using uvarint_loop_ok [OF assms] by blast
  with WriteBytes_ok [OF b1(2), of junk "[ucast val']"] show ?thesis by (auto simp: WriteUVarint_def)
qed

subsection \<open>Reading\<close>

definition rd_wf :: "reader \<Rightarrow> bool" where
  "rd_wf r \<longleftrightarrow> br_start r \<le> br_end r \<and> br_end r \<le> length (br_bytes r)"

text \<open>The bytes not yet read.\<close>

definition rest :: "reader \<Rightarrow> byte list" where
  "rest r = take (br_end r - br_start r) (drop (br_start r) (br_bytes r))"

lemma length_rest: "rd_wf r \<Longrightarrow> length (rest r) = Reader_Length r"
  by (auto simp: rd_wf_def rest_def Reader_Length_def)

text \<open>The state after \<open>n\<close> more bytes.\<close>

abbreviation adv :: "nat \<Rightarrow> reader \<Rightarrow> reader" where
  "adv n r \<equiv> r\<lparr>br_start := br_start r + n\<rparr>"

lemma adv_ok: "rd_wf r \<Longrightarrow> n \<le> length (rest r) \<Longrightarrow> rd_wf (adv n r) \<and> rest (adv n r) = drop n (rest r)"
  by (simp add: length_rest) (auto simp: rd_wf_def rest_def Reader_Length_def drop_take add.commute)

lemma ReadBytes_eq:
  assumes "rd_wf r"
  shows "ReadBytes n r = Inr (if n \<le> length (rest r) then (Some (take n (rest r)), adv n r) else (None, r))"
  using assms by (auto simp: ReadBytes_def length_rest Reader_Length_def rest_def rd_wf_def min_absorb1)

lemma ReadString_eq:
  assumes "rd_wf r"
  shows "ReadString True n r = Inr (if n \<le> length (rest r) then (Some (take n (rest r)), adv n r) else (None, r))"
  using assms by (auto simp: ReadString_def length_rest Reader_Length_def rest_def rd_wf_def min_absorb1)

lemma ReadBytes_prefix:
  assumes "rd_wf r" "rest r = xs @ ys" "length xs = n"
  shows "ReadBytes n r = Inr (Some xs, adv n r)" "rd_wf (adv n r)" "rest (adv n r) = ys"
  using assms adv_ok [of r n] by (simp_all add: ReadBytes_eq)

text \<open>The value of the groups of seven bits of a variable length integer.\<close>

fun uv_value :: "byte list \<Rightarrow> nat" where
  "uv_value [] = 0"
| "uv_value (b # bs) = unat b mod 128 + 128 * uv_value bs"

lemma uv_value_bound: "uv_value bs < 128 ^ length bs"
proof (induction bs)
  case (Cons b bs)
  then have "unat b mod 128 + 128 * uv_value bs < 128 + 128 * uv_value bs" by simp
  also have "\<dots> \<le> 128 * 128 ^ length bs" using Cons by simp
  finally show ?case by simp
qed simp

lemma uv_value_snoc: "uv_value (bs @ [b]) = uv_value bs + 128 ^ length bs * (unat b mod 128)"
  by (induction bs) (simp_all add: algebra_simps)

lemma scast_low: "(scast (b :: byte) AND 0x7F :: 64 word) = word_of_nat (unat b mod 128)"
proof -
  have m: "(0x7F :: 64 word) = mask 7" by (simp add: mask_eq_exp_minus_1)
  have "(scast b AND mask 7 :: 64 word) = ucast (take_bit 7 b)"
    by (rule bit_word_eqI) (auto simp: bit_simps)
  moreover have "unat (take_bit 7 b) = unat b mod 128" by (simp add: take_bit_eq_mod unat_mod)
  then have "ucast (take_bit 7 b) = (word_of_nat (unat b mod 128) :: 64 word)" by (metis of_nat_unat)
  ultimately show ?thesis by (simp add: m)
qed

lemma scast_last: "(scast (b :: byte) :: 64 word) < 0x80 \<longleftrightarrow> b < 0x80"
proof -
  have n: "k mod 128 = k \<longleftrightarrow> k < 128" for k :: nat by (metis mod_less mod_less_divisor zero_less_numeral)
  have w: "x < 0x80 \<longleftrightarrow> take_bit 7 x = x" for x :: "64 word"
    by (simp add: word_less_nat_alt word_unat_eq_iff take_bit_eq_mod unat_mod n)
  have v: "x < 0x80 \<longleftrightarrow> take_bit 7 x = x" for x :: byte
    by (simp add: word_less_nat_alt word_unat_eq_iff take_bit_eq_mod unat_mod n)
  have "take_bit 7 (scast b :: 64 word) = scast b \<longleftrightarrow> take_bit 7 b = b"
  proof
    assume h: "take_bit 7 (scast b :: 64 word) = scast b"
    have "\<not> bit b 7" using arg_cong [OF h, of "\<lambda>w. bit w 7"] by (simp add: bit_simps)
    then show "take_bit 7 b = b"
      by (intro bit_word_eqI) (auto simp: bit_simps dest: top_bit)
  next
    assume h: "take_bit 7 b = b"
    have nb: "bit b n \<Longrightarrow> n < 7" for n using arg_cong [OF h, of "\<lambda>w. bit w n"] by (simp add: bit_simps)
    show "take_bit 7 (scast b :: 64 word) = scast b" by (rule bit_word_eqI) (auto simp: bit_simps dest: nb)
  qed
  then show ?thesis by (simp only: v w)
qed

lemma uv_accumulate:
  assumes "length bs = k"
  shows "(word_of_nat (uv_value bs) OR push_bit (7 * k) (word_of_nat m) :: 64 word) = word_of_nat (uv_value bs + 128 ^ k * m)"
proof -
  have p: "(128 :: nat) ^ k = 2 ^ (7 * k)" by (simp add: power_mult)
  have "uv_value bs < 2 ^ (7 * k)" using uv_value_bound [of bs] assms p by simp
  then have "take_bit (7 * k) (uv_value bs) = uv_value bs" by (rule take_bit_nat_eq_self)
  then have b: "bit (uv_value bs) n \<Longrightarrow> n < 7 * k" for n by (metis bit_take_bit_iff)
  have plus: "(word_of_nat (uv_value bs) OR push_bit (7 * k) (word_of_nat m) :: 64 word) =
      word_of_nat (uv_value bs) + push_bit (7 * k) (word_of_nat m)"
    by (rule disjunctive_add [symmetric]) (auto simp: bit_simps dest: b)
  have "push_bit (7 * k) (word_of_nat m) = (word_of_nat (128 ^ k * m) :: 64 word)"
    by (simp add: push_bit_eq_mult p mult.commute)
  with plus show ?thesis by (simp only: of_nat_add)
qed

abbreviation uv_more :: "byte list \<Rightarrow> nat" where
  "uv_more bs \<equiv> length (takeWhile (\<lambda>b. 0x80 \<le> b) bs)"

text \<open>The loop after some groups have been read: on to the first byte below 128, ten bytes in all at most.\<close>

lemma read_uvarint_eq:
  "rd_wf r \<Longrightarrow> length bs \<le> 10 \<Longrightarrow> rest r = ys \<Longrightarrow>
   read_uvarint (7 * length bs) (word_of_nat (uv_value bs)) r =
     Inr (if uv_more ys < length ys \<and> length bs + uv_more ys < 10
          then (Some (word_of_nat (uv_value (bs @ take (Suc (uv_more ys)) ys))), adv (Suc (uv_more ys)) r)
          else (None, adv (min (length ys) (10 - length bs)) r))"
proof (induction ys arbitrary: bs r)
  case Nil
  then show ?case by (subst read_uvarint.simps) (simp add: ReadBytes_eq)
next
  case (Cons y ys)
  note rb = ReadBytes_prefix [of r "[y]" ys 1]
  show ?case
  proof (cases "length bs = 10")
    case True
    then show ?thesis by (subst read_uvarint.simps) simp
  next
    case False
    then have k: "7 * length bs < 64" "length (bs @ [y]) \<le> 10" using Cons.prems(2) by simp_all
    have acc: "(word_of_nat (uv_value bs) OR push_bit (7 * length bs) (scast y AND 0x7F) :: 64 word) = word_of_nat (uv_value (bs @ [y]))"
      unfolding scast_low uv_accumulate [OF refl] by (simp add: uv_value_snoc)
    have step: "read_uvarint (7 * length bs) (word_of_nat (uv_value bs)) r =
        (if y < 0x80 then Inr (Some (word_of_nat (uv_value (bs @ [y]))), adv 1 r)
         else read_uvarint (7 * length (bs @ [y])) (word_of_nat (uv_value (bs @ [y]))) (adv 1 r))"
      using rb(1) Cons.prems k(1) by (subst read_uvarint.simps) (simp add: acc [simplified] scast_last Let_def add.commute)
    show ?thesis
    proof (cases "y < 0x80")
      case True
      then have "\<not> 0x80 \<le> y" by simp
      with True show ?thesis using step False Cons.prems(2) by simp
    next
      case more: False
      have "rd_wf (adv 1 r)" "rest (adv 1 r) = ys" using rb Cons.prems by simp_all
      from Cons.IH [OF this(1) k(2) this(2)] more step False Cons.prems(2) show ?thesis
        by (simp add: not_less) (auto simp: min_def)
    qed
  qed
qed

text \<open>Encoded integers are read back.\<close>

lemma unat_more: "unat (word_of_nat (n mod 128 + 128) :: byte) = n mod 128 + 128"
  by (simp only: unat_of_nat) (simp add: take_bit_nat_eq_self)

lemma uv_enc_value: "uv_value (uv_enc n) = n"
proof (induction n rule: uv_enc.induct)
  case (1 n)
  have "n < 128 \<Longrightarrow> unat (word_of_nat n :: byte) = n" by (simp add: unat_of_nat take_bit_nat_eq_self)
  with 1 show ?case by (subst uv_enc.simps) (simp add: unat_more del: of_nat_add)
qed

lemma uv_enc_more: "uv_more (uv_enc n @ ys) + 1 = length (uv_enc n)"
proof (induction n rule: uv_enc.induct)
  case (1 n)
  have "n < 128 \<Longrightarrow> (word_of_nat n :: byte) < 0x80" by (simp add: word_less_nat_alt unat_of_nat take_bit_nat_eq_self)
  moreover have "0x80 \<le> (word_of_nat (n mod 128 + 128) :: byte)"
    by (simp only: word_le_nat_alt unat_more) simp
  ultimately show ?case using 1 by (subst (1 2) uv_enc.simps) (auto simp: not_le)
qed

lemma uv_enc_length: "n < 128 ^ Suc k \<Longrightarrow> length (uv_enc n) \<le> Suc k"
proof (induction k arbitrary: n)
  case (Suc k)
  then have "n div 128 < 128 ^ Suc k" by (simp add: less_mult_imp_div_less)
  with Suc.IH [of "n div 128"] show ?case by (subst uv_enc.simps) simp
qed (simp add: uv_enc.simps)

lemma ReadUVarint_back:
  assumes "rd_wf r" "rest r = uv_enc (unat val) @ ys"
  shows "ReadUVarint True r = Inr (Some val, adv (length (uv_enc (unat val))) r)"
proof -
  let ?e = "uv_enc (unat val)"
  have "unat val < 2 ^ LENGTH(64)" by (rule unsigned_less)
  then have "unat val < 128 ^ Suc 9" by simp
  then have "length ?e \<le> 10" using uv_enc_length by fastforce
  moreover have m: "uv_more (?e @ ys) + 1 = length ?e" by (rule uv_enc_more)
  ultimately have "uv_more (?e @ ys) < length (?e @ ys) \<and> uv_more (?e @ ys) < 10" "Suc (uv_more (?e @ ys)) = length ?e"
    by simp_all
  with read_uvarint_eq [of r "[]"] assms show ?thesis by (simp add: ReadUVarint_def uv_enc_value)
qed

section \<open>Messages\<close>

text \<open>A message is a sequence of fields; the reader knows their kinds, and the lengths of the strings.\<close>

datatype field = U8 byte | U16 "16 word" | U24 "32 word" | U32 "32 word" | U64 "64 word" | UV "64 word" | Str "byte list"

datatype kind = K8 | K16 | K24 | K32 | K64 | KV | KS nat

fun kind_of :: "field \<Rightarrow> kind" where
  "kind_of (U8 v) = K8"
| "kind_of (U16 v) = K16"
| "kind_of (U24 v) = K24"
| "kind_of (U32 v) = K32"
| "kind_of (U64 v) = K64"
| "kind_of (UV v) = KV"
| "kind_of (Str bs) = KS (length bs)"

fun write_field :: "(nat \<Rightarrow> byte) \<Rightarrow> field \<Rightarrow> buffer \<Rightarrow> buffer res" where
  "write_field junk (U8 v) = WriteUInt8 junk v"
| "write_field junk (U16 v) = WriteUInt16 junk v"
| "write_field junk (U24 v) = WriteUInt24 junk v"
| "write_field junk (U32 v) = WriteUInt32 junk v"
| "write_field junk (U64 v) = WriteUInt64 junk v"
| "write_field junk (UV v) = WriteUVarint junk v"
| "write_field junk (Str bs) = WriteString junk bs"

definition as_field :: "('v \<Rightarrow> field) \<Rightarrow> ('v option \<times> reader) res \<Rightarrow> (field option \<times> reader) res" where
  "as_field c m = res_bind m (\<lambda>(v, r). Inr (map_option c v, r))"

fun read_field :: "kind \<Rightarrow> reader \<Rightarrow> (field option \<times> reader) res" where
  "read_field K8 r = as_field U8 (ReadUInt8 True r)"
| "read_field K16 r = as_field U16 (ReadUInt16 True r)"
| "read_field K24 r = as_field U24 (ReadUInt24 True r)"
| "read_field K32 r = as_field U32 (ReadUInt32 True r)"
| "read_field K64 r = as_field U64 (ReadUInt64 True r)"
| "read_field KV r = as_field UV (ReadUVarint True r)"
| "read_field (KS n) r = as_field Str (ReadString True n r)"

fun read_fields :: "kind list \<Rightarrow> reader \<Rightarrow> (field option list \<times> reader) res" where
  "read_fields [] r = Inr ([], r)"
| "read_fields (k # ks) r = res_bind (read_field k r) (\<lambda>(v, r). res_bind (read_fields ks r) (\<lambda>(vs, r). Inr (v # vs, r)))"

text \<open>The network format: big endian integers, and groups of seven bits from the lowest up.\<close>

fun wire :: "field \<Rightarrow> byte list" where
  "wire (U8 v) = [v]"
| "wire (U16 v) = big_endian 2 v"
| "wire (U24 v) = drop 1 (big_endian 4 v)"
| "wire (U32 v) = big_endian 4 v"
| "wire (U64 v) = big_endian 8 v"
| "wire (UV v) = uv_enc (unat v)"
| "wire (Str bs) = bs"

text \<open>Only the low 24 bits of a 24-bit field are written.\<close>

fun sent :: "field \<Rightarrow> field" where
  "sent (U24 v) = U24 (take_bit 24 v)"
| "sent f = f"

lemma unat_byte_mod [simp]: "unat (v :: byte) mod 256 = unat v"
  using unat_byte_bound [of v] by simp

lemma write_field_ok:
  assumes "bf_wf b"
  shows "\<exists>b'. write_field junk f b = Inr b' \<and> bf_wf b' \<and> bf_val b' = bf_val b @ wire f"
proof (cases f)
  case (U8 v)
  then show ?thesis using WriteBytes_ok [OF assms, of junk "[v]"] by (auto simp: WriteUInt8_def)
next
  case (U16 v)
  then show ?thesis using WriteBytes_ok [OF assms, of junk "wire f"]
    by (auto simp: WriteUInt16_def HostToNetwork16_def swap_bytes_layout)
next
  case (U24 v)
  then show ?thesis using WriteBytes_ok [OF assms, of junk "wire f"]
    by (auto simp: WriteUInt24_def HostToNetwork32_def swap_bytes_layout)
next
  case (U32 v)
  then show ?thesis using WriteBytes_ok [OF assms, of junk "wire f"]
    by (auto simp: WriteUInt32_def HostToNetwork32_def swap_bytes_layout)
next
  case (U64 v)
  then show ?thesis using WriteBytes_ok [OF assms, of junk "wire f"]
    by (auto simp: WriteUInt64_def HostToNetwork64_def swap_bytes_layout)
next
  case (UV v)
  then show ?thesis using WriteUVarint_ok [OF assms, of junk v] by auto
next
  case (Str bs)
  then show ?thesis using WriteBytes_ok [OF assms, of junk bs] by (auto simp: WriteString_def)
qed

lemma le_bytes_append: "le_bytes (k + m) v = le_bytes k v @ le_bytes m (v div 256 ^ k)"
  by (induction k arbitrary: v) (simp_all add: div_mult2_eq)

lemma le_bytes_zero: "le_bytes m 0 = replicate m 0"
  by (induction m) simp_all

lemma le_bytes_pad: "le_bytes (k + m) (v mod 256 ^ k) = le_bytes k v @ replicate m 0"
  by (simp add: le_bytes_append le_bytes_mod le_bytes_zero)

lemma low_24: "drop 1 (big_endian 4 v) = rev (le_bytes 3 (unat v))"
  using le_bytes_append [of 3 1 "unat v"] by simp

lemma overwrite_zero: "length w = 3 \<Longrightarrow> overwrite 1 w (le_bytes 4 0) = 0 # w"
  by (simp add: overwrite_def le_bytes_zero)

lemma swap_24:
  fixes v :: "32 word"
  shows "swap_bytes 4 (word_of_nat (le_nat (0 # rev (le_bytes 3 (unat v))))) = take_bit 24 v"
proof -
  let ?bs = "0 # rev (le_bytes 3 (unat v))"
  have b: "take_bit 24 v = word_of_nat (unat v mod 256 ^ 3)"
    by (simp add: take_bit_eq_mod word_unat_eq_iff unat_mod unat_of_nat take_bit_nat_eq_self)
  have "rev ?bs = le_bytes 4 (unat v mod 256 ^ 3)" using le_bytes_pad [of 3 1 "unat v"] by simp
  then have "swap_bytes 4 (word_of_nat (le_nat ?bs)) = (word_of_nat (le_nat (le_bytes 4 (unat v mod 256 ^ 3))) :: 32 word)"
    using unat_of_le [of ?bs, where 'a = 32] le_bytes_le_nat [of ?bs] by (simp add: swap_bytes_def)
  also have "\<dots> = word_of_nat (unat v mod 256 ^ 3)" by (simp add: le_nat_le_bytes)
  finally show ?thesis using b by simp
qed

lemma read_field_ok:
  assumes "rd_wf r" "rest r = wire f @ ys"
  shows "\<exists>r'. read_field (kind_of f) r = Inr (Some (sent f), r') \<and> rd_wf r' \<and> rest r' = ys"
proof -
  note rb = ReadBytes_prefix [OF assms]
  have adv: "rd_wf (adv (length (wire f)) r) \<and> rest (adv (length (wire f)) r) = ys"
    using adv_ok [OF assms(1), of "length (wire f)"] assms(2) by simp
  show ?thesis
  proof (cases f)
    case (U8 v)
    with rb [of 1] show ?thesis by (simp add: ReadUInt8_def as_field_def)
  next
    case (U16 v)
    with rb [of 2] show ?thesis by (simp add: ReadUInt16_def as_field_def NetworkToHost16_def swap_of_rev)
  next
    case (U24 v)
    then have w: "wire f = rev (le_bytes 3 (unat v))" using low_24 by simp
    have ov: "overwrite 1 (rev (le_bytes 3 (unat v))) (le_bytes 4 0) = 0 # rev (le_bytes 3 (unat v))" by (rule overwrite_zero) simp
    have "ReadBytes 3 r = Inr (Some (rev (le_bytes 3 (unat v))), adv 3 r)" using rb(1) [of 3] by (simp add: w)
    then have "read_field K24 r = Inr (Some (U24 (take_bit 24 v)), adv 3 r)"
      using ov by (simp add: ReadUInt24_def as_field_def NetworkToHost32_def swap_24 [simplified])
    then show ?thesis using adv w U24 by simp
  next
    case (U32 v)
    with rb [of 4] show ?thesis by (simp add: ReadUInt32_def as_field_def NetworkToHost32_def swap_of_rev)
  next
    case (U64 v)
    with rb [of 8] show ?thesis by (simp add: ReadUInt64_def as_field_def NetworkToHost64_def swap_of_rev)
  next
    case (UV v)
    with ReadUVarint_back [OF assms(1), of v ys] assms(2) adv show ?thesis by (simp add: as_field_def)
  next
    case (Str bs)
    with ReadString_eq [OF assms(1), of "length bs"] assms(2) adv show ?thesis by (simp add: as_field_def)
  qed
qed

lemma write_fields_ok:
  "bf_wf b \<Longrightarrow> \<exists>b'. run_res (write_field junk) fs b = Inr b' \<and> bf_wf b' \<and> bf_val b' = bf_val b @ concat (map wire fs)"
proof (induction fs arbitrary: b)
  case (Cons f fs)
  obtain b1 where b1: "write_field junk f b = Inr b1" "bf_wf b1" "bf_val b1 = bf_val b @ wire f"
    using write_field_ok [OF Cons.prems] by blast
  with Cons.IH [OF b1(2)] show ?case by auto
qed simp

lemma read_fields_ok:
  "rd_wf r \<Longrightarrow> rest r = concat (map wire fs) @ ys \<Longrightarrow>
   \<exists>r'. read_fields (map kind_of fs) r = Inr (map (\<lambda>f. Some (sent f)) fs, r') \<and> rd_wf r' \<and> rest r' = ys"
proof (induction fs arbitrary: r)
  case (Cons f fs)
  obtain r1 where r1: "read_field (kind_of f) r = Inr (Some (sent f), r1)" "rd_wf r1" "rest r1 = concat (map wire fs) @ ys"
    using read_field_ok [OF Cons.prems(1), of f] Cons.prems(2) by auto
  with Cons.IH [OF r1(2,3)] show ?case by auto
qed simp

section \<open>Properties\<close>

text \<open>C20: whatever sequence of fields a writer is given, writing succeeds, the buffer holds the fields in network byte order, and a reader made
  from the writer returns exactly these fields and is then at its end; of a 24-bit field the low 24 bits are sent.\<close>

theorem byte_buffer_roundtrip:
  "\<exists>b r. res_bind (ByteBufferWriter junk) (run_res (write_field junk) fs) = Inr b \<and> bf_val b = concat (map wire fs) \<and>
     read_fields (map kind_of fs) (Reader_of_writer b) = Inr (map (\<lambda>f. Some (sent f)) fs, r) \<and> Reader_Length r = 0"
proof -
  obtain b0 where b0: "ByteBufferWriter junk = Inr b0" "bf_wf b0" "bf_val b0 = []" using ByteBufferWriter_ok by blast
  obtain b where b: "run_res (write_field junk) fs b0 = Inr b" "bf_wf b" "bf_val b = concat (map wire fs)"
    using write_fields_ok [OF b0(2), of junk fs] b0(3) by auto
  have "rd_wf (Reader_of_writer b)" "rest (Reader_of_writer b) = concat (map wire fs) @ []"
    using b(2,3) by (simp_all add: rd_wf_def rest_def Reader_of_writer_def Reader_Construct_def bf_wf_def bf_val_def)
  from read_fields_ok [OF this] obtain r where
    r: "read_fields (map kind_of fs) (Reader_of_writer b) = Inr (map (\<lambda>f. Some (sent f)) fs, r)" "rd_wf r" "rest r = []" by blast
  with length_rest [OF r(2)] b b0 show ?thesis by auto
qed

text \<open>On any input, reading a variable length integer ends without reading outside the input. It succeeds exactly if one of the first ten bytes is below 128;
  the value is then that of the groups of seven bits up to there, modulo two to the 64, and the reader stands right
  after that byte. Otherwise it fails after ten bytes or at the end of the input.\<close>

theorem read_uvarint_exact:
  "ReadUVarint True (Reader_Construct bs (length bs)) =
     Inr (let n = length (takeWhile (\<lambda>b. 0x80 \<le> b) bs); r = Reader_Construct bs (length bs)
          in if n < length bs \<and> n < 10 then (Some (word_of_nat (uv_value (take (n + 1) bs))), r\<lparr>br_start := n + 1\<rparr>)
             else (None, r\<lparr>br_start := min (length bs) 10\<rparr>))"
proof -
  have "rd_wf (Reader_Construct bs (length bs))" "rest (Reader_Construct bs (length bs)) = bs"
    "br_start (Reader_Construct bs (length bs)) = 0"
    by (simp_all add: rd_wf_def rest_def Reader_Construct_def)
  with read_uvarint_eq [of _ "[]"] show ?thesis by (simp add: ReadUVarint_def Let_def)
qed

end
