(* ===== verification/Buffer_Queue.thy ===== *)
theory Buffer_Queue
  imports Buffer
begin

text \<open>
  The bounded packet queue \<open>src/xrtcserver/rtcbase/src/rtc_base/buffer_queue.h\<close> and \<open>buffer_queue.cc\<close>. The queue owns its buffers through plain
  pointers, so the model has a heap of buffers; buffers that were read go to a list and are used
  again. \<open>al\<close> chooses the address \<open>new\<close> returns and \<open>junk\<close> is what new memory holds.
\<close>

section \<open>Definitions\<close>

record buffer_queue =
  bq_capacity :: nat
  bq_default_size :: nat
  bq_queue :: "nat list"
  bq_free :: "nat list"
  bq_heap :: "nat \<rightharpoonup> buffer"

definition BufferQueue :: "nat \<Rightarrow> nat \<Rightarrow> buffer_queue" where
  "BufferQueue cap default_size =
     \<lparr>bq_capacity = cap, bq_default_size = default_size, bq_queue = [], bq_free = [], bq_heap = Map.empty\<rparr>"

fun delete_all :: "nat list \<Rightarrow> (nat \<rightharpoonup> buffer) \<Rightarrow> (nat \<rightharpoonup> buffer) res" where
  "delete_all [] h = Inr h"
| "delete_all (a # as) h = (if h a = None then Inl Use_after_free else delete_all as (h(a := None)))"

definition BufferQueue_destroy :: "buffer_queue \<Rightarrow> (nat \<rightharpoonup> buffer) res" where
  "BufferQueue_destroy q = res_bind (delete_all (bq_queue q) (bq_heap q)) (delete_all (bq_free q))"

definition bq_size :: "buffer_queue \<Rightarrow> nat" where
  "bq_size q = length (bq_queue q)"

fun clear_loop :: "nat list \<Rightarrow> nat list \<Rightarrow> nat list \<times> nat list" where
  "clear_loop [] fl = ([], fl)"
| "clear_loop (a # as) fl = clear_loop as (fl @ [a])"

definition bq_Clear :: "buffer_queue \<Rightarrow> buffer_queue" where
  "bq_Clear q = (let (as, fl) = clear_loop (bq_queue q) (bq_free q) in q\<lparr>bq_queue := as, bq_free := fl\<rparr>)"

text \<open>\<open>None\<close> is the result false; otherwise the bytes copied to the caller, \<open>bytes_read\<close> of them.\<close>

definition ReadFront :: "nat \<Rightarrow> buffer_queue \<Rightarrow> (byte list option \<times> buffer_queue) res" where
  "ReadFront bytes q =
     (case bq_queue q of
        [] \<Rightarrow> Inr (None, q)
      | packet # as \<Rightarrow>
          (case bq_heap q packet of
             None \<Rightarrow> Inl Use_after_free
           | Some b \<Rightarrow>
               let q = q\<lparr>bq_queue := as\<rparr>; bytes = min bytes (bf_size b)
               in res_bind (mem_read 0 bytes (bf_data b)) (\<lambda>d. Inr (Some d, q\<lparr>bq_free := bq_free q @ [packet]\<rparr>))))"

definition WriteBack :: "((nat \<rightharpoonup> buffer) \<Rightarrow> nat) \<Rightarrow> (nat \<Rightarrow> byte) \<Rightarrow> byte list \<Rightarrow> buffer_queue \<Rightarrow> (bool \<times> buffer_queue) res" where
  "WriteBack al junk d q =
     (if length (bq_queue q) = bq_capacity q then Inr (False, q)
      else
        let (packet, q) =
              (if bq_free q \<noteq> [] then (last (bq_free q), q\<lparr>bq_free := butlast (bq_free q)\<rparr>)
               else let a = al (bq_heap q) in (a, q\<lparr>bq_heap := (bq_heap q)(a \<mapsto> Buffer_sized junk (length d) (bq_default_size q))\<rparr>))
        in (case bq_heap q packet of
              None \<Rightarrow> Inl Use_after_free
            | Some b \<Rightarrow>
                res_bind (Buffer_SetData False junk d (length d) b) (\<lambda>b.
                  Inr (True, q\<lparr>bq_heap := (bq_heap q)(packet \<mapsto> b), bq_queue := bq_queue q @ [packet]\<rparr>))))"

definition bq_is_writable :: "buffer_queue \<Rightarrow> bool" where
  "bq_is_writable q \<longleftrightarrow> length (bq_queue q) < bq_capacity q"

definition bq_is_readable :: "buffer_queue \<Rightarrow> bool" where
  "bq_is_readable q \<longleftrightarrow> bq_queue q \<noteq> []"

section \<open>Lemmas\<close>

text \<open>Every buffer is in exactly one place, is sound, and there are never more than the capacity.\<close>

definition bq_wf :: "buffer_queue \<Rightarrow> bool" where
  "bq_wf q \<longleftrightarrow> distinct (bq_queue q @ bq_free q) \<and> dom (bq_heap q) = set (bq_queue q @ bq_free q) \<and>
     (\<forall>a b. bq_heap q a = Some b \<longrightarrow> bf_wf b) \<and> length (bq_queue q @ bq_free q) \<le> bq_capacity q"

definition bq_packets :: "buffer_queue \<Rightarrow> byte list list" where
  "bq_packets q = map (\<lambda>a. bf_val (the (bq_heap q a))) (bq_queue q)"

lemma clear_loop_eq: "clear_loop as fl = ([], fl @ as)"
  by (induction as arbitrary: fl) simp_all

lemma Clear_bq: "bq_wf q \<Longrightarrow> bq_wf (bq_Clear q) \<and> bq_packets (bq_Clear q) = [] \<and> bq_capacity (bq_Clear q) = bq_capacity q"
  by (auto simp: bq_wf_def bq_packets_def bq_Clear_def clear_loop_eq)

lemma ReadFront_ok:
  assumes "bq_wf q" "bq_queue q = a # as"
  shows "\<exists>q'. ReadFront n q = Inr (Some (take n (hd (bq_packets q))), q') \<and> bq_wf q' \<and> bq_packets q' = tl (bq_packets q) \<and>
    bq_capacity q' = bq_capacity q"
proof -
  obtain b where b: "bq_heap q a = Some b" "bf_wf b" using assms by (fastforce simp: bq_wf_def)
  let ?q = "q\<lparr>bq_queue := as, bq_free := bq_free q @ [a]\<rparr>"
  have "ReadFront n q = Inr (Some (take n (bf_val b)), ?q)"
    using assms b by (auto simp: ReadFront_def bf_wf_def bf_val_def)
  moreover have "bq_wf ?q" using assms by (auto simp: bq_wf_def)
  moreover have "bq_packets q = bf_val b # bq_packets ?q" using assms b by (simp add: bq_packets_def)
  ultimately show ?thesis by simp
qed

text \<open>The buffer a packet is written to: one given back, or a new one.\<close>

definition bq_taken :: "nat \<Rightarrow> buffer_queue \<Rightarrow> bool" where
  "bq_taken a q \<longleftrightarrow> distinct (a # bq_queue q @ bq_free q) \<and> dom (bq_heap q) = set (a # bq_queue q @ bq_free q) \<and>
     (\<forall>a b. bq_heap q a = Some b \<longrightarrow> bf_wf b) \<and> length (bq_queue q @ bq_free q) < bq_capacity q"

lemma taken_reuse:
  assumes "bq_wf q" "bq_free q \<noteq> []"
  shows "bq_taken (last (bq_free q)) (q\<lparr>bq_free := butlast (bq_free q)\<rparr>)"
proof -
  obtain fl a where "bq_free q = fl @ [a]" using assms(2) by (meson rev_exhaust)
  with assms(1) show ?thesis by (auto simp: bq_taken_def bq_wf_def)
qed

lemma taken_new:
  assumes "fresh_alloc al" "bq_wf q" "bq_free q = []" "length (bq_queue q) \<noteq> bq_capacity q"
  shows "bq_taken (al (bq_heap q)) (q\<lparr>bq_heap := (bq_heap q)(al (bq_heap q) \<mapsto> Buffer_sized junk n m)\<rparr>)"
proof -
  have "bq_heap q (al (bq_heap q)) = None" using assms(1,2) by (simp add: fresh_alloc_def bq_wf_def)
  then have "al (bq_heap q) \<notin> set (bq_queue q)" using assms(2) by (auto simp: bq_wf_def)
  with assms(2-4) Buffer_sized_wf(1) show ?thesis by (auto simp: bq_taken_def bq_wf_def)
qed

lemma taken_write:
  assumes "bq_taken a q"
  shows "\<exists>b c. bq_heap q a = Some b \<and> Buffer_SetData False junk d (length d) b = Inr c \<and>
    bq_wf (q\<lparr>bq_heap := (bq_heap q)(a \<mapsto> c), bq_queue := bq_queue q @ [a]\<rparr>) \<and>
    bq_packets (q\<lparr>bq_heap := (bq_heap q)(a \<mapsto> c), bq_queue := bq_queue q @ [a]\<rparr>) = bq_packets q @ [d]"
proof -
  obtain b where b: "bq_heap q a = Some b" "bf_wf b" using assms by (fastforce simp: bq_taken_def)
  obtain c where c: "Buffer_SetData False junk d (length d) b = Inr c" "bf_wf c" "bf_val c = d"
    using SetData_ok [OF b(2), of False "length d" d junk] by (auto simp: clean_def)
  let ?r = "q\<lparr>bq_heap := (bq_heap q)(a \<mapsto> c), bq_queue := bq_queue q @ [a]\<rparr>"
  have "bq_wf ?r" using assms c(2) by (auto simp: bq_taken_def bq_wf_def)
  moreover have "bq_packets ?r = bq_packets q @ [d]" using assms c(3) by (auto simp: bq_taken_def bq_packets_def)
  ultimately show ?thesis using b(1) c(1) by blast
qed

lemma WriteBack_ok:
  assumes "fresh_alloc al" "bq_wf q"
  shows "\<exists>q'. WriteBack al junk d q = Inr (length (bq_queue q) \<noteq> bq_capacity q, q') \<and> bq_wf q' \<and> bq_capacity q' = bq_capacity q \<and>
    bq_packets q' = (if length (bq_queue q) = bq_capacity q then bq_packets q else bq_packets q @ [d])"
proof (cases "length (bq_queue q) = bq_capacity q")
  case True
  then show ?thesis using assms by (simp add: WriteBack_def)
next
  case False
  show ?thesis
  proof (cases "bq_free q = []")
    case fl: True
    let ?q = "q\<lparr>bq_heap := (bq_heap q)(al (bq_heap q) \<mapsto> Buffer_sized junk (length d) (bq_default_size q))\<rparr>"
    have "bq_packets ?q = bq_packets q"
      using taken_new [OF assms fl False, of junk "length d" "bq_default_size q"] by (auto simp: bq_packets_def bq_taken_def)
    with taken_write [OF taken_new [OF assms fl False, of junk "length d" "bq_default_size q"], of junk d] fl False
    show ?thesis by (auto simp: WriteBack_def Let_def)
  next
    case fl: False
    have "bq_packets (q\<lparr>bq_free := butlast (bq_free q)\<rparr>) = bq_packets q" by (simp add: bq_packets_def)
    with taken_write [OF taken_reuse [OF assms(2) fl], of junk d] fl False show ?thesis by (auto simp: WriteBack_def)
  qed
qed

text \<open>The destructor deletes every buffer once.\<close>

lemma delete_all_ok: "distinct as \<Longrightarrow> set as \<subseteq> dom h \<Longrightarrow> delete_all as h = Inr (h |` (- set as))"
proof (induction as arbitrary: h)
  case (Cons a as)
  then have "h(a := None) |` (- set as) = h |` (- set (a # as))" by (auto simp: restrict_map_def fun_eq_iff)
  moreover have "set as \<subseteq> dom (h(a := None))" using Cons.prems by auto
  ultimately show ?case using Cons by auto
qed (simp add: restrict_map_def)

lemma destroy_bq: "bq_wf q \<Longrightarrow> BufferQueue_destroy q = Inr Map.empty"
proof -
  assume wf: "bq_wf q"
  let ?h = "bq_heap q |` (- set (bq_queue q))"
  have "delete_all (bq_queue q) (bq_heap q) = Inr ?h" using wf by (intro delete_all_ok) (auto simp: bq_wf_def)
  moreover have "delete_all (bq_free q) ?h = Inr (?h |` (- set (bq_free q)))" using wf by (intro delete_all_ok) (auto simp: bq_wf_def)
  moreover have "?h |` (- set (bq_free q)) = Map.empty"
    using wf by (auto simp: bq_wf_def restrict_map_def fun_eq_iff dom_def set_eq_iff)
  ultimately show ?thesis by (simp add: BufferQueue_destroy_def)
qed

section \<open>Refinement of a bounded queue\<close>

datatype bq_op = BWrite "byte list" | BRead nat | BReset

text \<open>The state of a run has the queue and, latest first, the results its callers got.\<close>

datatype bq_out = Wrote bool | Got "byte list option"

definition bq_exec ::
    "((nat \<rightharpoonup> buffer) \<Rightarrow> nat) \<Rightarrow> (nat \<Rightarrow> byte) \<Rightarrow> bq_op \<Rightarrow> buffer_queue \<times> bq_out list \<Rightarrow> (buffer_queue \<times> bq_out list) res" where
  "bq_exec al junk p = (\<lambda>(q, out).
     case p of
       BWrite d \<Rightarrow> res_bind (WriteBack al junk d q) (\<lambda>(ok, q). Inr (q, Wrote ok # out))
     | BRead n \<Rightarrow> res_bind (ReadFront n q) (\<lambda>(d, q). Inr (q, Got d # out))
     | BReset \<Rightarrow> Inr (bq_Clear q, out))"

definition bq_spec :: "nat \<Rightarrow> bq_op \<Rightarrow> byte list list \<times> bq_out list \<Rightarrow> byte list list \<times> bq_out list" where
  "bq_spec cap p = (\<lambda>(ps, out).
     case p of
       BWrite d \<Rightarrow> if length ps = cap then (ps, Wrote False # out) else (ps @ [d], Wrote True # out)
     | BRead n \<Rightarrow> (case ps of [] \<Rightarrow> ([], Got None # out) | p # ps \<Rightarrow> (ps, Got (Some (take n p)) # out))
     | BReset \<Rightarrow> ([], out))"

lemma length_bq_packets [simp]: "length (bq_packets q) = length (bq_queue q)"
  by (simp add: bq_packets_def)

lemma bq_exec_refines:
  assumes "fresh_alloc al" "bq_wf (fst s)" "bq_capacity (fst s) = cap"
  shows "\<exists>s'. bq_exec al junk p s = Inr s' \<and> (bq_wf (fst s') \<and> bq_capacity (fst s') = cap) \<and>
    (bq_packets (fst s'), snd s') = bq_spec cap p (bq_packets (fst s), snd s)"
proof (cases p)
  case (BWrite d)
  then show ?thesis using WriteBack_ok [OF assms(1,2), of junk d] assms(3) by (auto simp: bq_exec_def bq_spec_def split_beta)
next
  case (BRead n)
  show ?thesis
  proof (cases "bq_queue (fst s)")
    case Nil
    then show ?thesis using BRead assms by (auto simp: bq_exec_def bq_spec_def split_beta ReadFront_def bq_packets_def)
  next
    case (Cons a as)
    then have "bq_packets (fst s) \<noteq> []" by (simp add: bq_packets_def)
    then show ?thesis using ReadFront_ok [OF assms(2) Cons, of n] BRead assms(3)
      by (auto simp: bq_exec_def bq_spec_def split_beta neq_Nil_conv)
  qed
next
  case BReset
  then show ?thesis using Clear_bq [OF assms(2)] assms(3) by (simp add: bq_exec_def bq_spec_def split_beta)
qed

text \<open>Chosen for one allocator and one capacity, the operations refine their specification.\<close>

interpretation bq_ref: data_refinement "\<lambda>s. fresh_alloc al \<and> bq_wf (fst s) \<and> bq_capacity (fst s) = cap"
    "\<lambda>s. (bq_packets (fst s), snd s)" "bq_exec al junk" "bq_spec cap" "\<lambda>_ _. True" for al junk cap
  by unfold_locales (use bq_exec_refines in blast)

lemma run_ok_True [simp]: "run_ok (\<lambda>_ _. True) spec ops v"
  by (induction ops arbitrary: v) simp_all

section \<open>Properties\<close>

text \<open>Every sequence of writes, reads and clears runs without touching a deleted buffer and returns to its callers what a first-in first-out
  queue of packets bounded by the capacity returns: a write to a full queue is refused and a packet longer than the reader's
  memory is cut. Never more buffers than the capacity exist, and the destructor deletes each of them once.\<close>

theorem buffer_queue_bounded_fifo:
  assumes "fresh_alloc al"
  shows "\<exists>q out. run_res (bq_exec al junk) ops (BufferQueue cap default_size, []) = Inr (q, out) \<and>
    (bq_packets q, out) = fold (bq_spec cap) ops ([], []) \<and> length (bq_queue q) \<le> cap \<and> card (dom (bq_heap q)) \<le> cap \<and>
    BufferQueue_destroy q = Inr Map.empty"
proof -
  let ?s = "(BufferQueue cap default_size, []) :: buffer_queue \<times> bq_out list"
  have "fresh_alloc al \<and> bq_wf (fst ?s) \<and> bq_capacity (fst ?s) = cap" "bq_packets (fst ?s) = []"
    using assms by (simp_all add: BufferQueue_def bq_wf_def bq_packets_def)
  with bq_ref.run_refines [of al ?s cap ops junk] obtain q out where
    q: "run_res (bq_exec al junk) ops ?s = Inr (q, out)" "bq_wf q" "bq_capacity q = cap"
    "(bq_packets q, out) = fold (bq_spec cap) ops ([], [])" by auto
  then have "dom (bq_heap q) = set (bq_queue q @ bq_free q)" "length (bq_queue q @ bq_free q) \<le> cap" by (auto simp: bq_wf_def)
  then have "card (dom (bq_heap q)) \<le> cap" using card_length [of "bq_queue q @ bq_free q"] by simp
  with q destroy_bq [OF q(2)] show ?thesis by (auto simp: bq_wf_def)
qed

lemma buffer_queue_bounded_fifo_witness:
  "\<exists>q. run_res (bq_exec next_address (\<lambda>_. 0)) [BWrite [1, 2], BWrite [3], BWrite [4], BRead 1, BWrite [5, 6]] (BufferQueue 2 16, []) =
     Inr (q, [Wrote True, Got (Some [1]), Wrote False, Wrote True, Wrote True]) \<and> bq_packets q = [[3], [5, 6]]"
  using buffer_queue_bounded_fifo [OF fresh_next_address, of "\<lambda>_. 0" "[BWrite [1, 2], BWrite [3], BWrite [4], BRead 1, BWrite [5, 6]]" 2 16]
  by (auto simp: bq_spec_def)

end
