(* ===== verification/String_Encode.thy ===== *)
theory String_Encode
  imports Prelude
begin

text \<open>
  The string utilities of \<open>src/xrtcserver/rtcbase/src/rtc_base/string_encode.cc\<close>: hexadecimal encoding with an optional delimiter, splitting,
  tokenizing and joining. Strings are lists of bytes; the ranges \<open>hex_decode\<close> tests lie in the characters below 128, on which
  the comparisons of signed characters are those of bytes. Output goes to memory of a fixed size, and every write is checked.
\<close>

section \<open>Definitions\<close>

subsection \<open>Hexadecimal\<close>

definition HEX :: "byte list" where
  "HEX = map of_char ''0123456789abcdef''"

definition hex_encode_digit :: "byte \<Rightarrow> byte" where
  "hex_encode_digit val = (if val < 16 then HEX ! unat val else 0x21)"

definition hex_decode_digit :: "byte \<Rightarrow> byte option" where
  "hex_decode_digit ch =
     (if ch \<ge> 0x30 \<and> ch \<le> 0x39 then Some (ch - 0x30)
      else if ch \<ge> 0x41 \<and> ch \<le> 0x46 then Some (ch - 0x41 + 10)
      else if ch \<ge> 0x61 \<and> ch \<le> 0x66 then Some (ch - 0x61 + 10)
      else None)"

definition hex_encode_output_length :: "nat \<Rightarrow> byte \<Rightarrow> nat" where
  "hex_encode_output_length srclen delimiter = (if delimiter \<noteq> 0 \<and> srclen > 0 then srclen * 3 - 1 else srclen * 2)"

text \<open>The loop of the encoder; its state is the position in the source, the position in the buffer and the buffer.\<close>

function hex_encode_loop :: "byte list \<Rightarrow> byte \<Rightarrow> nat \<Rightarrow> nat \<Rightarrow> byte list \<Rightarrow> byte list res" where
  "hex_encode_loop source delimiter srcpos bufpos buffer =
     (if srcpos < length source
      then let ch = source ! srcpos; srcpos = srcpos + 1
           in res_bind (mem_write bufpos [hex_encode_digit (drop_bit 4 ch AND 0xF)] buffer) (\<lambda>buffer.
              res_bind (mem_write (bufpos + 1) [hex_encode_digit (ch AND 0xF)] buffer) (\<lambda>buffer.
                let bufpos = bufpos + 2
                in if delimiter \<noteq> 0 \<and> srcpos < length source
                   then res_bind (mem_write bufpos [delimiter] buffer) (hex_encode_loop source delimiter srcpos (bufpos + 1))
                   else hex_encode_loop source delimiter srcpos bufpos buffer))
      else Inr buffer)"
  by pat_completeness auto
termination hex_encode_loop by (relation "measure (\<lambda>(source, delimiter, srcpos, bufpos, buffer). length source - srcpos)") auto

definition hex_encode_with_delimiter :: "byte list \<Rightarrow> byte \<Rightarrow> byte list res" where
  "hex_encode_with_delimiter source delimiter =
     (let s = replicate (hex_encode_output_length (length source) delimiter) 0
      in hex_encode_loop source delimiter 0 0 s)"

definition hex_encode :: "byte list \<Rightarrow> byte list res" where
  "hex_encode str = hex_encode_with_delimiter str 0"

text \<open>
  The decoder returns how many bytes it decoded, zero for bad input, and the caller's memory. The read of the
  second digit and of the delimiter is guarded by the lengths tested before.
\<close>

function hex_decode_loop :: "byte list \<Rightarrow> byte \<Rightarrow> nat \<Rightarrow> nat \<Rightarrow> byte list \<Rightarrow> (nat \<times> byte list) res" where
  "hex_decode_loop source delimiter srcpos bufpos buffer =
     (if srcpos < length source
      then if length source - srcpos < 2 then Inr (0, buffer)
           else (case hex_decode_digit (source ! srcpos) of None \<Rightarrow> Inr (0, buffer)
                 | Some h1 \<Rightarrow>
                   (case hex_decode_digit (source ! (srcpos + 1)) of None \<Rightarrow> Inr (0, buffer)
                    | Some h2 \<Rightarrow>
                        res_bind (mem_write bufpos [push_bit 4 h1 OR h2] buffer) (\<lambda>buffer.
                          let bufpos = bufpos + 1; srcpos = srcpos + 2
                          in if delimiter \<noteq> 0 \<and> length source - srcpos > 1
                             then if source ! srcpos \<noteq> delimiter then Inr (0, buffer)
                                  else hex_decode_loop source delimiter (srcpos + 1) bufpos buffer
                             else hex_decode_loop source delimiter srcpos bufpos buffer)))
      else Inr (bufpos, buffer))"
  by pat_completeness auto
termination hex_decode_loop by (relation "measure (\<lambda>(source, delimiter, srcpos, bufpos, buffer). length source - srcpos)") auto

definition hex_decode_with_delimiter :: "byte list \<Rightarrow> byte list \<Rightarrow> byte \<Rightarrow> (nat \<times> byte list) res" where
  "hex_decode_with_delimiter buffer source delimiter =
     (if length buffer = 0 then Inr (0, buffer)
      else let needed = (if delimiter \<noteq> 0 then (length source + 1) div 3 else length source div 2)
           in if length buffer < needed then Inr (0, buffer)
              else hex_decode_loop source delimiter 0 0 buffer)"

definition hex_decode :: "byte list \<Rightarrow> byte list \<Rightarrow> (nat \<times> byte list) res" where
  "hex_decode buffer source = hex_decode_with_delimiter buffer source 0"

subsection \<open>Fields\<close>

definition substr :: "nat \<Rightarrow> nat \<Rightarrow> byte list \<Rightarrow> byte list" where
  "substr pos n s = take n (drop pos s)"

function tokenize_loop :: "byte list \<Rightarrow> byte \<Rightarrow> nat \<Rightarrow> nat \<Rightarrow> byte list list \<Rightarrow> byte list list \<times> nat" where
  "tokenize_loop source delimiter i last_pos fields =
     (if i < length source
      then if source ! i = delimiter
           then tokenize_loop source delimiter (i + 1) (i + 1) (if i \<noteq> last_pos then fields @ [substr last_pos (i - last_pos) source] else fields)
           else tokenize_loop source delimiter (i + 1) last_pos fields
      else (fields, last_pos))"
  by pat_completeness auto
termination tokenize_loop by (relation "measure (\<lambda>(source, delimiter, i, last_pos, fields). length source - i)") auto

definition tokenize :: "byte list \<Rightarrow> byte \<Rightarrow> byte list list" where
  "tokenize source delimiter =
     (let (fields, last_pos) = tokenize_loop source delimiter 0 0 []
      in if last_pos \<noteq> length source then fields @ [substr last_pos (length source - last_pos) source] else fields)"

fun find_char :: "byte list \<Rightarrow> byte \<Rightarrow> nat option" where
  "find_char [] c = None"
| "find_char (x # xs) c = (if x = c then Some 0 else map_option Suc (find_char xs c))"

function skip_loop :: "byte list \<Rightarrow> byte \<Rightarrow> nat \<Rightarrow> nat" where
  "skip_loop source delimiter right_pos =
     (if right_pos < length source \<and> source ! right_pos = delimiter then skip_loop source delimiter (right_pos + 1) else right_pos)"
  by pat_completeness auto
termination skip_loop by (relation "measure (\<lambda>(source, delimiter, right_pos). length source - right_pos)") auto

definition tokenize_first :: "byte list \<Rightarrow> byte \<Rightarrow> (byte list \<times> byte list) option" where
  "tokenize_first source delimiter =
     (case find_char source delimiter of
        None \<Rightarrow> None
      | Some left_pos \<Rightarrow>
          let right_pos = skip_loop source delimiter (left_pos + 1)
          in Some (substr 0 left_pos source, drop right_pos source))"

fun join_loop :: "byte list list \<Rightarrow> byte \<Rightarrow> nat \<Rightarrow> byte list \<Rightarrow> byte list" where
  "join_loop [] delimiter i joined = joined"
| "join_loop (x # xs) delimiter i joined =
     (let joined = (if i \<noteq> 0 then joined @ [delimiter] else joined) in join_loop xs delimiter (i + 1) (joined @ x))"

definition join :: "byte list list \<Rightarrow> byte \<Rightarrow> byte list" where
  "join source delimiter = (if length source = 0 then [] else join_loop source delimiter 0 [])"

function split_scan :: "byte list \<Rightarrow> byte \<Rightarrow> nat \<Rightarrow> nat \<Rightarrow> byte list list \<Rightarrow> byte list list \<times> nat" where
  "split_scan source delimiter i last_pos fields =
     (if i < length source
      then if source ! i = delimiter
           then split_scan source delimiter (i + 1) (i + 1) (fields @ [substr last_pos (i - last_pos) source])
           else split_scan source delimiter (i + 1) last_pos fields
      else (fields, last_pos))"
  by pat_completeness auto
termination split_scan by (relation "measure (\<lambda>(source, delimiter, i, last_pos, fields). length source - i)") auto

definition split :: "byte list \<Rightarrow> byte \<Rightarrow> byte list list" where
  "split source delimiter = (let (fields, last_pos) = split_scan source delimiter 0 0 [] in fields @ [drop last_pos source])"

definition bool_ToString :: "bool \<Rightarrow> byte list" where
  "bool_ToString b = (if b then map of_char ''true'' else map of_char ''false'')"

definition bool_FromString :: "byte list \<Rightarrow> bool option" where
  "bool_FromString s =
     (if s = map of_char ''false'' then Some False else if s = map of_char ''true'' then Some True else None)"

declare hex_encode_loop.simps [simp del] hex_decode_loop.simps [simp del] tokenize_loop.simps [simp del]
  skip_loop.simps [simp del] split_scan.simps [simp del]

section \<open>Lemmas\<close>

subsection \<open>Hexadecimal\<close>

lemma overwrite_overwrite:
  assumes "i + length xs + length ys \<le> length b"
  shows "overwrite (i + length xs) ys (overwrite i xs b) = overwrite i (xs @ ys) b"
  using assms by (simp add: overwrite_def add.assoc add.commute add.left_commute)

lemma overwrite_all: "length xs = length b \<Longrightarrow> overwrite 0 xs b = xs"
  by (simp add: overwrite_def)

definition hex_pair :: "byte \<Rightarrow> byte list" where
  "hex_pair b = [hex_encode_digit (drop_bit 4 b AND 0xF), hex_encode_digit (b AND 0xF)]"

abbreviation sep :: "byte \<Rightarrow> byte list" where
  "sep d \<equiv> (if d = 0 then [] else [d])"

text \<open>The text of a byte string: two digits a byte, delimiters in between.\<close>

fun hex_text :: "byte \<Rightarrow> byte list \<Rightarrow> byte list" where
  "hex_text d [] = []"
| "hex_text d [b] = hex_pair b"
| "hex_text d (b # c # bs) = hex_pair b @ sep d @ hex_text d (c # bs)"

lemma length_hex_pair [simp]: "length (hex_pair b) = 2"
  by (simp add: hex_pair_def)

lemma length_hex_text: "length (hex_text d bs) = hex_encode_output_length (length bs) d"
  by (induction d bs rule: hex_text.induct) (auto simp: hex_encode_output_length_def)

lemma overwrite_pair: "i + 2 \<le> length b \<Longrightarrow> overwrite (Suc i) [y] (overwrite i [x] b) = overwrite i [x, y] b"
  using overwrite_overwrite [of i "[x]" "[y]" b] by simp

lemma drop_eq_ConsD:
  assumes "drop i xs = y # ys"
  shows "i < length xs" "xs ! i = y" "drop (Suc i) xs = ys"
proof -
  show i: "i < length xs" using assms by (metis drop_eq_Nil2 leI list.discI)
  then show "xs ! i = y" "drop (Suc i) xs = ys" using assms Cons_nth_drop_Suc [of i xs] by simp_all
qed

lemma hex_encode_loop_eq:
  "drop srcpos source = xs \<Longrightarrow> bufpos + length (hex_text d xs) \<le> length buffer \<Longrightarrow>
   hex_encode_loop source d srcpos bufpos buffer = Inr (overwrite bufpos (hex_text d xs) buffer)"
proof (induction d xs arbitrary: srcpos bufpos buffer rule: hex_text.induct)
  case (1 d)
  then show ?case by (subst hex_encode_loop.simps) simp
next
  case (2 d b)
  note src = drop_eq_ConsD [OF "2.prems"(1)]
  have "hex_encode_loop source d (srcpos + 1) (bufpos + 2) m = Inr m" for m
    using src(3) by (subst hex_encode_loop.simps) simp
  moreover have "\<not> srcpos + 1 < length source" using src(3) by simp
  ultimately show ?case using src "2.prems"(2)
    by (subst hex_encode_loop.simps) (simp add: hex_pair_def Let_def overwrite_pair)
next
  case (3 d b c bs)
  note src = drop_eq_ConsD [OF "3.prems"(1)]
  let ?t = "hex_text d (c # bs)" and ?b = "overwrite bufpos (hex_pair b) buffer"
  have more: "srcpos + 1 < length source" using drop_eq_ConsD(1) [OF src(3)] by simp
  have len: "bufpos + 2 \<le> length buffer" "bufpos + 2 + length (sep d) + length ?t \<le> length buffer" using "3.prems"(2) by auto
  have one: "d \<noteq> 0 \<Longrightarrow> bufpos + 3 \<le> length buffer" using len(2) by simp
  have step: "hex_encode_loop source d srcpos bufpos buffer =
      (if d = 0 then hex_encode_loop source d (Suc srcpos) (bufpos + 2) ?b
       else hex_encode_loop source d (Suc srcpos) (bufpos + 2 + 1) (overwrite (bufpos + 2) [d] ?b))"
    using src(1,2) more len one
    by (subst hex_encode_loop.simps) (cases "d = 0"; simp add: hex_pair_def Let_def overwrite_pair)
  show ?case
  proof (cases "d = 0")
    case True
    have "hex_encode_loop source d (Suc srcpos) (bufpos + 2) ?b = Inr (overwrite (bufpos + 2) ?t ?b)"
      using "3.IH" [OF src(3), of "bufpos + 2" ?b] len True by simp
    with step True overwrite_overwrite [of bufpos "hex_pair b" ?t buffer] len show ?thesis by simp
  next
    case False
    have "hex_encode_loop source d (Suc srcpos) (bufpos + 2 + 1) (overwrite (bufpos + 2) [d] ?b) =
        Inr (overwrite (bufpos + 2 + 1) ?t (overwrite (bufpos + 2) [d] ?b))"
      using "3.IH" [OF src(3), of "bufpos + 2 + 1" "overwrite (bufpos + 2) [d] ?b"] len False by simp
    with step False overwrite_overwrite [of bufpos "hex_pair b" "[d]" buffer]
      overwrite_overwrite [of bufpos "hex_pair b @ [d]" ?t buffer] len show ?thesis by (simp add: numeral_3_eq_3)
  qed
qed

lemma hex_encode_text: "hex_encode_with_delimiter bs d = Inr (hex_text d bs)"
  using hex_encode_loop_eq [of 0 bs bs 0 d "replicate (hex_encode_output_length (length bs) d) 0"] length_hex_text [of d bs]
  by (simp add: hex_encode_with_delimiter_def overwrite_all)

text \<open>Digits.\<close>

lemma below_16: "v < (16 :: byte) \<Longrightarrow> v \<in> {0, 1, 2, 3, 4, 5, 6, 7, 8, 9, 10, 11, 12, 13, 14, 15}"
proof -
  assume "v < 16"
  then have "unat v < 16" by (simp add: word_less_nat_alt)
  then have "unat v \<in> {0, 1, 2, 3, 4, 5, 6, 7, 8, 9, 10, 11, 12, 13, 14, 15}" by (simp add: insert_iff) presburger
  then show ?thesis by (auto simp: word_unat_eq_iff)
qed

lemma digit_back: "v < 16 \<Longrightarrow> hex_decode_digit (hex_encode_digit v) = Some v"
  by (drule below_16, elim insertE emptyE) (simp_all add: hex_encode_digit_def hex_decode_digit_def HEX_def)

definition hex_lower :: "byte \<Rightarrow> byte" where
  "hex_lower c = (if 0x41 \<le> c \<and> c \<le> 0x46 then c + 0x20 else c)"

lemma nibble_less: "w AND 0xF < (16 :: byte)"
  by (rule le_less_trans [OF word_and_le1]) simp

lemma nibbles: "push_bit 4 (drop_bit 4 b AND 0xF) OR (b AND 0xF) = (b :: byte)"
proof -
  have m: "(0xF :: byte) = mask 4" by (simp add: mask_eq_exp_minus_1)
  show ?thesis unfolding m by (rule bit_word_eqI) (auto simp: bit_simps)
qed

text \<open>What a text decodes to, read from the left.\<close>

definition hex_value :: "byte \<Rightarrow> byte \<Rightarrow> byte option" where
  "hex_value x y =
     (case hex_decode_digit x of None \<Rightarrow> None | Some h1 \<Rightarrow>
        (case hex_decode_digit y of None \<Rightarrow> None | Some h2 \<Rightarrow> Some (push_bit 4 h1 OR h2)))"

fun hex_parse :: "byte \<Rightarrow> byte list \<Rightarrow> byte list option" where
  "hex_parse d [] = Some []"
| "hex_parse d [x] = None"
| "hex_parse d [x, y] = map_option (\<lambda>b. [b]) (hex_value x y)"
| "hex_parse d [x, y, z] = None"
| "hex_parse d (x # y # z # zs) =
     (case hex_value x y of None \<Rightarrow> None
      | Some b \<Rightarrow> if d = 0 then map_option (Cons b) (hex_parse d (z # zs))
                 else if z \<noteq> d then None else map_option (Cons b) (hex_parse d zs))"

lemma hex_value_pair: "hex_value (hex_encode_digit (drop_bit 4 b AND 0xF)) (hex_encode_digit (b AND 0xF)) = Some b"
  by (simp only: hex_value_def digit_back [OF nibble_less] option.case nibbles)

lemma hex_text_nonempty: "hex_text d (c # bs) = [] \<longleftrightarrow> False" "\<exists>x y zs. hex_text d (c # bs) = x # y # zs"
  by (cases bs; simp add: hex_pair_def)+

lemma hex_parse_text: "hex_parse d (hex_text d bs) = Some bs"
proof (induction d bs rule: hex_text.induct)
  case (3 d b c bs)
  obtain x y zs where t: "hex_text d (c # bs) = x # y # zs" using hex_text_nonempty(2) by blast
  show ?case using 3 by (auto simp: hex_pair_def t hex_value_pair)
qed (simp_all add: hex_pair_def hex_value_pair)

text \<open>How many bytes a text of a given length can hold.\<close>

abbreviation hex_needed :: "byte \<Rightarrow> byte list \<Rightarrow> nat" where
  "hex_needed d src \<equiv> (if d \<noteq> 0 then (length src + 1) div 3 else length src div 2)"

lemma hex_decode_step:
  assumes "drop srcpos source = x # y # zs"
  shows "hex_decode_loop source d srcpos bufpos buffer =
    (case hex_value x y of None \<Rightarrow> Inr (0, buffer)
     | Some b \<Rightarrow> res_bind (mem_write bufpos [b] buffer) (\<lambda>buffer.
         if d \<noteq> 0 \<and> length zs > 1
         then if hd zs \<noteq> d then Inr (0, buffer) else hex_decode_loop source d (srcpos + 3) (bufpos + 1) buffer
         else hex_decode_loop source d (srcpos + 2) (bufpos + 1) buffer))"
proof -
  note a = drop_eq_ConsD [OF assms]
  note b = drop_eq_ConsD [OF a(3)]
  have zs: "length source - Suc (Suc srcpos) = length zs" using arg_cong [OF b(3), of length] by simp
  have hd: "zs \<noteq> [] \<Longrightarrow> source ! Suc (Suc srcpos) = hd zs" using b(3) by (metis drop_eq_ConsD(2) list.collapse)
  have "\<not> length source - srcpos < 2" using b(1) by simp
  moreover have "1 < length zs \<Longrightarrow> zs \<noteq> []" by auto
  ultimately show ?thesis using a(1,2) b(1,2) zs hd
    by (subst hex_decode_loop.simps, cases "hex_decode_digit x"; cases "hex_decode_digit y"; cases "1 < length zs")
      (simp_all add: hex_value_def Let_def numeral_3_eq_3 cong: if_cong)
qed

text \<open>The loop decodes what the text stands for, inside the memory that the test before it asked for.\<close>

definition decodes_to :: "byte \<Rightarrow> byte list \<Rightarrow> nat \<Rightarrow> byte list \<Rightarrow> (nat \<times> byte list) res \<Rightarrow> bool" where
  "decodes_to d xs bufpos buffer r \<longleftrightarrow>
     (\<exists>buffer'. length buffer' = length buffer \<and>
        r = Inr (case hex_parse d xs of None \<Rightarrow> 0 | Some bs \<Rightarrow> bufpos + length bs, buffer') \<and>
        (\<forall>bs. hex_parse d xs = Some bs \<longrightarrow> length bs \<le> hex_needed d xs \<and> buffer' = overwrite bufpos bs buffer))"

lemma decodes_bad: "hex_parse d xs = None \<Longrightarrow> length buffer' = length buffer \<Longrightarrow> decodes_to d xs bufpos buffer (Inr (0, buffer'))"
  by (simp add: decodes_to_def)

lemma decodes_Cons:
  assumes "decodes_to d ys (bufpos + 1) (overwrite bufpos [b] buffer) r" "hex_parse d xs = map_option (Cons b) (hex_parse d ys)"
    "1 + hex_needed d ys \<le> hex_needed d xs" "bufpos + hex_needed d xs \<le> length buffer"
  shows "decodes_to d xs bufpos buffer r"
proof (cases "hex_parse d ys")
  case None
  with assms show ?thesis by (auto simp: decodes_to_def)
next
  case (Some bs)
  have le: "length bs \<le> hex_needed d ys" using assms(1) Some by (auto simp: decodes_to_def)
  then have "overwrite (bufpos + 1) bs (overwrite bufpos [b] buffer) = overwrite bufpos (b # bs) buffer"
    using overwrite_overwrite [of bufpos "[b]" bs buffer] assms(3,4) by auto
  with assms Some le show ?thesis by (auto simp: decodes_to_def)
qed

text \<open>A round in the middle of a text: at least two more characters follow the pair.\<close>

lemma decode_more:
  assumes src: "drop srcpos source = x # y # z # w # zs" and need: "bufpos + hex_needed d (x # y # z # w # zs) \<le> length buffer"
    and plain: "\<And>v m. hex_value x y = Some v \<Longrightarrow> d = 0 \<Longrightarrow> length m = length buffer \<Longrightarrow>
      decodes_to d (z # w # zs) (bufpos + 1) m (hex_decode_loop source d (srcpos + 2) (bufpos + 1) m)"
    and delimited: "\<And>v m. hex_value x y = Some v \<Longrightarrow> d \<noteq> 0 \<Longrightarrow> z = d \<Longrightarrow> length m = length buffer \<Longrightarrow>
      decodes_to d (w # zs) (bufpos + 1) m (hex_decode_loop source d (srcpos + 3) (bufpos + 1) m)"
  shows "decodes_to d (x # y # z # w # zs) bufpos buffer (hex_decode_loop source d srcpos bufpos buffer)"
proof (cases "hex_value x y")
  case None
  then show ?thesis using hex_decode_step [OF src, of d bufpos buffer] decodes_bad by simp
next
  case (Some v)
  note step = hex_decode_step [OF src, of d bufpos buffer]
  let ?m = "overwrite bufpos [v] buffer"
  have fit: "bufpos + 1 \<le> length buffer" using need by (auto split: if_splits)
  then have len: "length ?m = length buffer" by simp
  consider (plain) "d = 0" | (delim) "d \<noteq> 0" "z = d" | (bad) "d \<noteq> 0" "z \<noteq> d" by blast
  then show ?thesis
  proof cases
    case plain
    from decodes_Cons [OF assms(3) [OF Some plain len]] step Some plain fit need show ?thesis by simp
  next
    case delim
    have "decodes_to d (x # y # z # w # zs) bufpos buffer (hex_decode_loop source d (srcpos + 3) (bufpos + 1) ?m)"
      by (rule decodes_Cons [OF delimited [OF Some delim len]]) (use Some delim need in simp_all)
    moreover have "hex_decode_loop source d srcpos bufpos buffer = hex_decode_loop source d (srcpos + 3) (bufpos + 1) ?m"
      using Some delim fit by (simp add: step)
    ultimately show ?thesis by simp
  next
    case bad
    with step Some fit len show ?thesis using decodes_bad [of d "x # y # z # w # zs" ?m buffer] by simp
  qed
qed

lemma hex_decode_loop_eq:
  "drop srcpos source = xs \<Longrightarrow> bufpos + hex_needed d xs \<le> length buffer \<Longrightarrow>
   decodes_to d xs bufpos buffer (hex_decode_loop source d srcpos bufpos buffer)"
proof (induction d xs arbitrary: srcpos bufpos buffer rule: hex_parse.induct)
  case (1 d)
  then show ?case by (subst hex_decode_loop.simps) (simp add: decodes_to_def)
next
  case (2 d x)
  note src = drop_eq_ConsD [OF "2.prems"(1)]
  then have "length source - srcpos < 2" by simp
  then show ?case using src decodes_bad [of d "[x]" buffer buffer] by (subst hex_decode_loop.simps) simp
next
  case (3 d x y)
  note a = drop_eq_ConsD [OF "3.prems"(1)]
  note b = drop_eq_ConsD [OF a(3)]
  have "hex_decode_loop source d (srcpos + 2) (bufpos + 1) m = Inr (bufpos + 1, m)" for m
    using b(3) by (subst hex_decode_loop.simps) simp
  moreover have "bufpos + 1 \<le> length buffer" using "3.prems"(2) by (auto split: if_splits)
  ultimately show ?case by (auto simp add: hex_decode_step [OF "3.prems"(1)] decodes_to_def split: option.splits)
next
  case (4 d x y z)
  note a = drop_eq_ConsD [OF "4.prems"(1)]
  note b = drop_eq_ConsD [OF a(3)]
  note c = drop_eq_ConsD [OF b(3)]
  have "length source - Suc (Suc srcpos) < 2" using c(3) by simp
  then have "hex_decode_loop source d (srcpos + 2) (bufpos + 1) m = Inr (0, m)" for m
    using c by (subst hex_decode_loop.simps) simp
  moreover have "bufpos + 1 \<le> length buffer" using "4.prems"(2) by (auto split: if_splits)
  ultimately show ?case by (auto simp add: hex_decode_step [OF "4.prems"(1)] decodes_to_def split: option.splits)
next
  case (5 d x y z w zs)
  note a = drop_eq_ConsD [OF "5.prems"(1)]
  note b = drop_eq_ConsD [OF a(3)]
  note c = drop_eq_ConsD [OF b(3)]
  have z: "drop (srcpos + 2) source = z # w # zs" "drop (srcpos + 3) source = w # zs"
    using b(3) c(3) by (simp_all add: numeral_3_eq_3)
  show ?case
  proof (rule decode_more [OF "5.prems"])
    fix v and m :: "byte list" assume v: "hex_value x y = Some v" "d = 0" "length m = length buffer"
    show "decodes_to d (z # w # zs) (bufpos + 1) m (hex_decode_loop source d (srcpos + 2) (bufpos + 1) m)"
      by (rule "5.IH"(1) [OF v(1,2) z(1)]) (use "5.prems"(2) v in simp)
  next
    fix v and m :: "byte list" assume v: "hex_value x y = Some v" "d \<noteq> 0" "z = d" "length m = length buffer"
    show "decodes_to d (w # zs) (bufpos + 1) m (hex_decode_loop source d (srcpos + 3) (bufpos + 1) m)"
      by (rule "5.IH"(2) [OF v(1,2) _ z(2)]) (use "5.prems"(2) v in simp_all)
  qed
qed

text \<open>What is decoded is the text, up to the case of the digits.\<close>

lemma hex_digit_cases:
  assumes "hex_decode_digit c = Some h"
  shows "c \<in> {0x30, 0x31, 0x32, 0x33, 0x34, 0x35, 0x36, 0x37, 0x38, 0x39, 0x41, 0x42, 0x43, 0x44, 0x45, 0x46, 0x61, 0x62, 0x63, 0x64, 0x65, 0x66}"
proof -
  have "unat c \<in> set ([0x30..<0x3A] @ [0x41..<0x47] @ [0x61..<0x67])"
    using assms by (auto simp: hex_decode_digit_def word_le_nat_alt simp del: upt_rec_numeral split: if_splits)
  then show ?thesis by (simp add: word_unat_eq_iff)
qed

lemma digit_lower: "hex_decode_digit c = Some h \<Longrightarrow> hex_encode_digit h = hex_lower c \<and> h < 16"
  by (frule hex_digit_cases, elim insertE emptyE) (auto simp: hex_decode_digit_def hex_encode_digit_def hex_lower_def HEX_def)

lemma value_lower:
  assumes "hex_value x y = Some b"
  shows "hex_pair b = [hex_lower x, hex_lower y]"
proof -
  obtain h k where h: "hex_decode_digit x = Some h" "hex_decode_digit y = Some k" "b = push_bit 4 h OR k"
    using assms by (auto simp: hex_value_def split: option.splits)
  have m: "(0xF :: byte) = mask 4" by (simp add: mask_eq_exp_minus_1)
  have small: "w < 16 \<Longrightarrow> take_bit 4 w = w" for w :: byte
    by (simp add: word_less_nat_alt word_unat_eq_iff take_bit_eq_mod unat_mod)
  have bits: "bit h n \<Longrightarrow> n < 4" "bit k n \<Longrightarrow> n < 4" for n
    using digit_lower [OF h(1)] digit_lower [OF h(2)] small by (metis bit_take_bit_iff)+
  have "drop_bit 4 b AND mask 4 = h" "b AND mask 4 = k"
    unfolding h(3) by (rule bit_word_eqI; auto simp: bit_simps dest: bits)+
  then show ?thesis using digit_lower [OF h(1)] digit_lower [OF h(2)] unfolding hex_pair_def m by simp
qed

lemma hex_parse_lower: "hex_parse d xs = Some bs \<Longrightarrow> d = 0 \<Longrightarrow> hex_text d bs = map hex_lower xs"
proof (induction d xs arbitrary: bs rule: hex_parse.induct)
  case (5 d x y z w zs)
  then obtain b cs where b: "hex_value x y = Some b" "hex_parse d (z # w # zs) = Some cs" "bs = b # cs"
    by (auto split: option.splits)
  then have t: "hex_text d cs = map hex_lower (z # w # zs)" using "5.IH"(1) "5.prems"(2) by simp
  then obtain c ds where "cs = c # ds" by (cases cs) auto
  with t b value_lower [OF b(1)] "5.prems"(2) show ?case by simp
qed (auto simp: value_lower)

subsection \<open>Fields\<close>

text \<open>The fields of a string, by recursion on it.\<close>

definition glue :: "byte list \<Rightarrow> byte list list \<Rightarrow> byte list list" where
  "glue u xs = (u @ hd xs) # tl xs"

fun fields_of :: "byte \<Rightarrow> byte list \<Rightarrow> byte list list" where
  "fields_of d [] = [[]]"
| "fields_of d (c # cs) = (if c = d then [] # fields_of d cs else glue [c] (fields_of d cs))"

lemma fields_of_nonempty [simp]: "fields_of d s \<noteq> []"
  by (cases s) (simp_all add: glue_def)

lemma glue_simps: "xs \<noteq> [] \<Longrightarrow> glue [] xs = xs" "glue u (glue v xs) = glue (u @ v) xs" "glue u (v # xs) = (u @ v) # xs"
  by (simp_all add: glue_def)

lemma substr_Suc: "l \<le> i \<Longrightarrow> i < length s \<Longrightarrow> substr l (Suc i - l) s = substr l (i - l) s @ [s ! i]"
  by (simp add: substr_def Suc_diff_le take_Suc_conv_app_nth)

lemma split_loop_eq:
  "l \<le> i \<Longrightarrow> i \<le> length s \<Longrightarrow> split_scan s d i l fs = (gs, l') \<Longrightarrow>
   l' \<le> length s \<and> gs @ [drop l' s] = fs @ glue (substr l (i - l) s) (fields_of d (drop i s))"
proof (induction s d i l fs rule: split_scan.induct)
  case (1 s d i l fs)
  show ?case
  proof (cases "i < length s")
    case True
    note dr = Cons_nth_drop_Suc [OF True, symmetric]
    show ?thesis
    proof (cases "s ! i = d")
      case eq: True
      have "split_scan s d (i + 1) (i + 1) (fs @ [substr l (i - l) s]) = (gs, l')"
        using "1.prems"(3) True eq by (subst (asm) split_scan.simps) simp
      from "1.IH"(1) [OF True eq _ _ this] True eq show ?thesis by (simp add: dr glue_simps) (simp add: substr_def glue_simps)
    next
      case ne: False
      have "split_scan s d (i + 1) l fs = (gs, l')"
        using "1.prems"(3) True ne by (subst (asm) split_scan.simps) simp
      from "1.IH"(2) [OF True ne _ _ this] True ne "1.prems"(1) show ?thesis by (simp add: dr glue_simps substr_Suc)
    qed
  next
    case False
    then have "i = length s" "gs = fs" "l' = l" using "1.prems" by (auto simp: split_scan.simps)
    with "1.prems" show ?thesis by (simp add: glue_def substr_def)
  qed
qed

lemma split_eq: "split s d = fields_of d s"
proof -
  obtain gs l' where r: "split_scan s d 0 0 [] = (gs, l')" by fastforce
  from split_loop_eq [OF _ _ r] r show ?thesis by (simp add: split_def substr_def glue_simps)
qed

abbreviation nonempty :: "byte list list \<Rightarrow> byte list list" where
  "nonempty \<equiv> filter (\<lambda>f. f \<noteq> [])"

lemma tokenize_loop_eq:
  "l \<le> i \<Longrightarrow> i \<le> length s \<Longrightarrow>
   tokenize_loop s d i l (nonempty fs) = (nonempty (fst (split_scan s d i l fs)), snd (split_scan s d i l fs))"
proof (induction s d i l fs rule: split_scan.induct)
  case (1 s d i l fs)
  show ?case
  proof (cases "i < length s")
    case True
    then have sub: "substr l (i - l) s = [] \<longleftrightarrow> i = l" using "1.prems" by (auto simp: substr_def)
    with True "1.IH" "1.prems"(1) show ?thesis
      by (subst tokenize_loop.simps, subst (1 2) split_scan.simps) (cases "i = l"; auto)
  qed (simp add: tokenize_loop.simps split_scan.simps)
qed

lemma tokenize_eq: "tokenize s d = nonempty (split s d)"
proof -
  obtain gs l' where r: "split_scan s d 0 0 [] = (gs, l')" by fastforce
  have "l' \<le> length s" using split_loop_eq [OF _ _ r] by simp
  with tokenize_loop_eq [of 0 0 s d "[]"] r show ?thesis by (auto simp: tokenize_def split_def substr_def)
qed

lemma join_loop_eq: "0 < i \<Longrightarrow> join_loop xs d i u = u @ concat (map (Cons d) xs)"
  by (induction xs arbitrary: i u) simp_all

lemma join_Cons: "join (x # xs) d = x @ concat (map (Cons d) xs)"
  by (simp add: join_def join_loop_eq)

lemma join_fields: "join (fields_of d s) d = s"
proof (induction s)
  case (Cons c cs)
  obtain f fs where f: "fields_of d cs = f # fs" by (cases "fields_of d cs") auto
  then show ?case using Cons by (auto simp: join_Cons glue_def)
qed (simp add: join_Cons)

lemma fields_append: "d \<notin> set x \<Longrightarrow> fields_of d (x @ s) = glue x (fields_of d s)"
  by (induction x) (auto simp: glue_simps)

lemma fields_join: "d \<notin> set x \<Longrightarrow> \<forall>f \<in> set xs. d \<notin> set f \<Longrightarrow> fields_of d (join (x # xs) d) = x # xs"
proof (induction xs arbitrary: x)
  case Nil
  then show ?case using fields_append [of d x "[]"] by (simp add: join_Cons glue_def)
next
  case (Cons y xs)
  then have "fields_of d (join (y # xs) d) = y # xs" by simp
  with Cons.prems show ?case by (simp add: join_Cons fields_append glue_simps)
qed

text \<open>The first token and what follows the run of delimiters after it.\<close>

lemma find_char_eq: "find_char s c = (if c \<in> set s then Some (length (takeWhile (\<lambda>x. x \<noteq> c) s)) else None)"
  by (induction s) auto

lemma skip_loop_eq: "i \<le> length s \<Longrightarrow> drop (skip_loop s d i) s = dropWhile (\<lambda>x. x = d) (drop i s)"
proof (induction s d i rule: skip_loop.induct)
  case (1 s d i)
  show ?case
  proof (cases "i < length s \<and> s ! i = d")
    case True
    then show ?thesis using "1.IH" by (subst skip_loop.simps) (simp add: Cons_nth_drop_Suc [of i s, symmetric])
  next
    case False
    then show ?thesis using "1.prems" by (subst skip_loop.simps) (cases "drop i s"; auto simp: hd_drop_conv_nth dest: drop_eq_ConsD)
  qed
qed

lemma tokenize_first_eq:
  "tokenize_first s d =
     (if d \<in> set s then Some (takeWhile (\<lambda>x. x \<noteq> d) s, dropWhile (\<lambda>x. x = d) (dropWhile (\<lambda>x. x \<noteq> d) s)) else None)"
proof (cases "d \<in> set s")
  case True
  let ?n = "length (takeWhile (\<lambda>x. x \<noteq> d) s)"
  have ne: "dropWhile (\<lambda>x. x \<noteq> d) s \<noteq> []" using True by simp
  obtain zs where "dropWhile (\<lambda>x. x \<noteq> d) s = d # zs"
    using ne hd_dropWhile [OF ne] by (cases "dropWhile (\<lambda>x. x \<noteq> d) s") simp_all
  then have z: "drop ?n s = d # zs" by (simp add: dropWhile_eq_drop)
  then have "drop (skip_loop s d (?n + 1)) s = dropWhile (\<lambda>x. x = d) zs"
    using skip_loop_eq [of "?n + 1" s d] drop_eq_ConsD [OF z] by simp
  then show ?thesis using True z by (simp add: tokenize_first_def find_char_eq substr_def takeWhile_eq_take [symmetric] dropWhile_eq_drop)
qed (simp add: tokenize_first_def find_char_eq)

lemma bool_roundtrip: "bool_FromString (bool_ToString b) = Some b"
  by (simp add: bool_FromString_def bool_ToString_def)

section \<open>Properties\<close>

text \<open>Hexadecimal text decodes to the bytes it was made from, with any delimiter or none, into any memory that can hold them.\<close>

theorem hex_roundtrip:
  assumes "length bs \<le> length buffer"
  shows "\<exists>src buffer'. hex_encode_with_delimiter bs d = Inr src \<and>
    hex_decode_with_delimiter buffer src d = Inr (length bs, buffer') \<and> take (length bs) buffer' = bs \<and>
    drop (length bs) buffer' = drop (length bs) buffer"
proof -
  let ?t = "hex_text d bs"
  have need: "hex_needed d ?t \<le> length bs" using length_hex_text [of d bs] by (cases "d = 0") (auto simp: hex_encode_output_length_def)
  have "hex_decode_with_delimiter buffer ?t d = Inr (length bs, overwrite 0 bs buffer)"
  proof (cases "buffer = []")
    case False
    have "decodes_to d ?t 0 buffer (hex_decode_loop ?t d 0 0 buffer)" using hex_decode_loop_eq [of 0 ?t ?t 0 d buffer] need assms by simp
    with False need assms show ?thesis by (simp add: decodes_to_def hex_parse_text hex_decode_with_delimiter_def)
  qed (use assms in \<open>simp add: hex_decode_with_delimiter_def\<close>)
  then show ?thesis using assms by (simp add: hex_encode_text overwrite_def)
qed

lemma hex_roundtrip_witness:
  "\<exists>src buffer'. hex_encode_with_delimiter [0xAB, 0x01] 0x3A = Inr src \<and>
    hex_decode_with_delimiter [0, 0, 7] src 0x3A = Inr (2, buffer') \<and> take 2 buffer' = [0xAB, 0x01] \<and> drop 2 buffer' = [7]"
  using hex_roundtrip [of "[0xAB, 0x01]" "[0, 0, 7]" "0x3A"] by (simp add: numeral_2_eq_2)

text \<open>On any text, decoding ends inside the caller's memory, of which it reports no more than there is; and without delimiter, when it reports bytes,
  their encoding is the text it was given with its digits in lower case.\<close>

theorem hex_decode_exact:
  "\<exists>n buffer'. hex_decode_with_delimiter buffer src d = Inr (n, buffer') \<and> length buffer' = length buffer \<and> n \<le> length buffer \<and>
     (d = 0 \<longrightarrow> n = 0 \<or> hex_encode (take n buffer') = Inr (map hex_lower src))"
proof (cases "buffer = [] \<or> length buffer < hex_needed d src")
  case True
  then show ?thesis by (auto simp: hex_decode_with_delimiter_def)
next
  case False
  then have eq: "hex_decode_with_delimiter buffer src d = hex_decode_loop src d 0 0 buffer"
    by (auto simp: hex_decode_with_delimiter_def)
  have dec: "decodes_to d src 0 buffer (hex_decode_loop src d 0 0 buffer)"
    using hex_decode_loop_eq [of 0 src src 0 d buffer] False by simp
  show ?thesis
  proof (cases "hex_parse d src")
    case None
    then show ?thesis using eq dec by (auto simp: decodes_to_def)
  next
    case (Some bs)
    then have "hex_decode_with_delimiter buffer src d = Inr (length bs, overwrite 0 bs buffer)" "length bs \<le> length buffer"
      using eq dec False by (auto simp: decodes_to_def)
    with hex_parse_lower [OF Some] show ?thesis by (auto simp: hex_encode_def hex_encode_text overwrite_def)
  qed
qed

lemma hex_decode_exact_witness:
  "\<exists>n buffer'. hex_decode_with_delimiter [0, 0] [0x41, 0x62] 0 = Inr (n, buffer') \<and> n \<le> 2 \<and>
     (n = 0 \<or> hex_encode (take n buffer') = Inr [0x61, 0x62])"
  using hex_decode_exact [of "[0, 0]" "[0x41, 0x62]" 0] by (fastforce simp: hex_lower_def)

text \<open>Joining the fields that splitting a string returns gives the string back; tokenizing returns the fields that are not empty; and splitting what was joined
  returns the fields, when there is one and none has the delimiter in it.\<close>

theorem split_join_tokenize:
  "join (split s d) d = s \<and> tokenize s d = filter (\<lambda>f. f \<noteq> []) (split s d) \<and>
   (fs \<noteq> [] \<longrightarrow> (\<forall>f \<in> set fs. d \<notin> set f) \<longrightarrow> split (join fs d) d = fs)"
proof -
  have "split (join fs d) d = fs" if "fs \<noteq> []" "\<forall>f \<in> set fs. d \<notin> set f"
    using that fields_join [of d "hd fs" "tl fs"] by (cases fs) (simp_all add: split_eq)
  then show ?thesis by (simp add: split_eq join_fields tokenize_eq)
qed

lemma split_join_tokenize_witness:
  "join (split [1, 7, 7, 2] 7) 7 = [1, 7, 7, 2] \<and> split (join [[1], [], [2]] 7) 7 = [[1], [], [2]]"
  using split_join_tokenize [of "[1, 7, 7, 2]" 7 "[[1], [], [2]]"] by simp

end
