(* ===== verification/Message_Queue.thy ===== *)
theory Message_Queue
  imports Prelude "HOL-Library.Multiset" "HOL-Library.Product_Lexorder"
begin

text \<open>
  The message queue of \<open>rtc::Thread\<close>: \<open>thread.h\<close>, \<open>thread.cc\<close> and \<open>thread_message.h\<close> under \<open>src/xrtcserver/rtcbase/src/rtc_base\<close>. A queue holds
  messages in the order they were posted, delayed messages in a priority queue, and at most one message that was peeked.

  Message data is a heap object that the queue owns from the post until the message is handed out; \<open>mq_live\<close> is the set of objects that are
  allocated, \<open>mq_given\<close> those handed to a post and \<open>mq_deleted\<close> the deletions, in order, and deleting an object that is not allocated is a fault. \<open>mq_wakeups\<close> counts the calls that wake the
  socket server. Times are milliseconds; \<open>int64_t\<close> sums do not leave its range. What the lock makes atomic is one step here; what
  other threads do before \<open>Get\<close> tests the stop flag and while it waits is an argument, the list of their operations. The lock is also free for a
  moment after a disposal was pulled; what other threads do there, and destructors of message data that post messages, are not modelled.
\<close>

section \<open>Definitions\<close>

subsection \<open>Messages\<close>

definition MQID_ANY :: u32 where
  "MQID_ANY = - 1"

definition MQID_DISPOSE :: u32 where
  "MQID_DISPOSE = - 2"

definition kForever :: int where
  "kForever = - 1"

record message =
  posted_from :: string
  phandler :: ptr
  message_id :: u32
  pdata :: ptr

definition Message_new :: message where
  "Message_new = \<lparr>posted_from = [], phandler = None, message_id = 0, pdata = None\<rparr>"

definition msg_Match :: "ptr \<Rightarrow> u32 \<Rightarrow> message \<Rightarrow> bool" where
  "msg_Match handler i m \<longleftrightarrow> (handler = None \<or> handler = phandler m) \<and> (i = MQID_ANY \<or> i = message_id m)"

subsection \<open>Delayed messages\<close>

record delayed_message =
  dm_delay_ms :: int
  dm_run_time_ms :: int
  dm_message_number :: u32
  dm_msg :: message

definition dm_less :: "delayed_message \<Rightarrow> delayed_message \<Rightarrow> bool" where
  "dm_less d dmsg \<longleftrightarrow>
     dm_run_time_ms dmsg < dm_run_time_ms d \<or>
     dm_run_time_ms dmsg = dm_run_time_ms d \<and> dm_message_number dmsg < dm_message_number d"

text \<open>
  \<open>std::priority_queue\<close>: a container and a largest element of it. The order the heap keeps its container in is not fixed by the
  standard; here it is the order of insertion, and no property below depends on it.
\<close>

definition pq_push :: "delayed_message \<Rightarrow> delayed_message list \<Rightarrow> delayed_message list" where
  "pq_push d c = c @ [d]"

definition pq_top :: "delayed_message list \<Rightarrow> delayed_message" where
  "pq_top c = foldl (\<lambda>m d. if dm_less m d then d else m) (hd c) (tl c)"

definition pq_pop :: "delayed_message list \<Rightarrow> delayed_message list" where
  "pq_pop c = remove1 (pq_top c) c"

subsection \<open>The queue\<close>

record mqueue =
  fPeekKeep :: bool
  msgPeek :: message
  messages :: "message list"
  delayed_messages :: "delayed_message list"
  delayed_next_num :: u32
  mq_stop :: int
  dispatch_warning_ms :: int
  mq_live :: "nat set"
  mq_given :: "nat list"
  mq_deleted :: "nat list"
  mq_wakeups :: nat

definition kSlowDispatchLoggingThreshold :: int where
  "kSlowDispatchLoggingThreshold = 50"

definition Thread_new :: "nat set \<Rightarrow> mqueue" where
  "Thread_new live =
     \<lparr>fPeekKeep = False, msgPeek = Message_new, messages = [], delayed_messages = [], delayed_next_num = 0, mq_stop = 0,
      dispatch_warning_ms = kSlowDispatchLoggingThreshold, mq_live = live, mq_given = [], mq_deleted = [], mq_wakeups = 0\<rparr>"

definition delete_data :: "ptr \<Rightarrow> mqueue \<Rightarrow> mqueue res" where
  "delete_data p q =
     (case p of None \<Rightarrow> Inr q
      | Some a \<Rightarrow>
          if a \<in> mq_live q then Inr (q\<lparr>mq_live := mq_live q - {a}, mq_deleted := mq_deleted q @ [a]\<rparr>)
          else Inl Use_after_free)"

definition WakeUpSocketServer :: "mqueue \<Rightarrow> mqueue" where
  "WakeUpSocketServer q = q\<lparr>mq_wakeups := Suc (mq_wakeups q)\<rparr>"

definition IsQuitting :: "mqueue \<Rightarrow> bool" where
  "IsQuitting q \<longleftrightarrow> mq_stop q \<noteq> 0"

definition Quit :: "mqueue \<Rightarrow> mqueue" where
  "Quit q = WakeUpSocketServer (q\<lparr>mq_stop := 1\<rparr>)"

definition Restart :: "mqueue \<Rightarrow> mqueue" where
  "Restart q = q\<lparr>mq_stop := 0\<rparr>"

definition mq_size :: "mqueue \<Rightarrow> nat" where
  "mq_size q = length (messages q) + length (delayed_messages q) + (if fPeekKeep q then 1 else 0)"

definition mq_empty :: "mqueue \<Rightarrow> bool" where
  "mq_empty q \<longleftrightarrow> mq_size q = 0"

subsection \<open>Posting\<close>

text \<open>A post hands its message data to the queue, also to a stopped one, which deletes it.\<close>

definition hand_over :: "ptr \<Rightarrow> mqueue \<Rightarrow> mqueue" where
  "hand_over p q = (case p of None \<Rightarrow> q | Some a \<Rightarrow> q\<lparr>mq_given := mq_given q @ [a]\<rparr>)"

definition Post :: "message \<Rightarrow> mqueue \<Rightarrow> mqueue res" where
  "Post msg q =
     (let q = hand_over (pdata msg) q
      in if IsQuitting q then delete_data (pdata msg) q
         else Inr (WakeUpSocketServer (q\<lparr>messages := messages q @ [msg]\<rparr>)))"

definition DoDelayPost :: "int \<Rightarrow> int \<Rightarrow> message \<Rightarrow> mqueue \<Rightarrow> mqueue res" where
  "DoDelayPost delay_ms run_at_ms msg q =
     (let q = hand_over (pdata msg) q
      in if IsQuitting q then delete_data (pdata msg) q
         else let delayed = \<lparr>dm_delay_ms = delay_ms, dm_run_time_ms = run_at_ms, dm_message_number = delayed_next_num q, dm_msg = msg\<rparr>
              in Inr (WakeUpSocketServer
                        (q\<lparr>delayed_messages := pq_push delayed (delayed_messages q), delayed_next_num := delayed_next_num q + 1\<rparr>)))"

text \<open>The clock reads \<open>now\<close>.\<close>

definition TimeAfter :: "int \<Rightarrow> int \<Rightarrow> int" where
  "TimeAfter now elapsed = now + elapsed"

definition TimeDiff :: "int \<Rightarrow> int \<Rightarrow> int" where
  "TimeDiff later earlier = later - earlier"

definition TimeUntil :: "int \<Rightarrow> int \<Rightarrow> int" where
  "TimeUntil now later = later - now"

definition PostDelayed :: "int \<Rightarrow> int \<Rightarrow> message \<Rightarrow> mqueue \<Rightarrow> mqueue res" where
  "PostDelayed now delay_ms msg q = DoDelayPost delay_ms (TimeAfter now delay_ms) msg q"

definition PostAt :: "int \<Rightarrow> int \<Rightarrow> message \<Rightarrow> mqueue \<Rightarrow> mqueue res" where
  "PostAt now run_at_ms msg q = DoDelayPost (TimeUntil now run_at_ms) run_at_ms msg q"

text \<open>\<open>Dispose\<close>: \<open>data\<close> is the new \<open>DisposeData\<close> object that holds the doomed one.\<close>

definition Dispose :: "ptr \<Rightarrow> nat \<Rightarrow> string \<Rightarrow> mqueue \<Rightarrow> mqueue res" where
  "Dispose doomed data here q =
     (if doomed \<noteq> None
      then Post \<lparr>posted_from = here, phandler = None, message_id = MQID_DISPOSE, pdata = Some data\<rparr> q
      else Inr q)"

definition GetDelay :: "int \<Rightarrow> mqueue \<Rightarrow> int" where
  "GetDelay now q =
     (if messages q \<noteq> [] then 0
      else if delayed_messages q \<noteq> []
      then let delay = i32 (TimeUntil now (dm_run_time_ms (pq_top (delayed_messages q)))) in if delay < 0 then 0 else delay
      else kForever)"

subsection \<open>Clearing\<close>

text \<open>Each message that matches is handed over or its data deleted.\<close>

fun take_out :: "bool \<Rightarrow> message list \<Rightarrow> mqueue \<Rightarrow> (message list \<times> mqueue) res" where
  "take_out keep [] q = Inr ([], q)"
| "take_out keep (m # ms) q =
     (if keep then res_bind (take_out keep ms q) (\<lambda>(removed, q). Inr (m # removed, q))
      else res_bind (delete_data (pdata m) q) (take_out keep ms))"

text \<open>\<open>keep\<close> says whether the caller passed a list for the removed messages.\<close>

definition ClearInternal :: "ptr \<Rightarrow> u32 \<Rightarrow> bool \<Rightarrow> mqueue \<Rightarrow> (message list \<times> mqueue) res" where
  "ClearInternal handler i keep q =
     res_bind
       (if fPeekKeep q \<and> msg_Match handler i (msgPeek q)
        then res_bind (take_out keep [msgPeek q] q) (\<lambda>(r, q). Inr (r, q\<lparr>fPeekKeep := False\<rparr>))
        else Inr ([], q)) (\<lambda>(r1, q).
     res_bind (take_out keep (filter (msg_Match handler i) (messages q)) q) (\<lambda>(r2, q).
       let q = q\<lparr>messages := filter (\<lambda>m. \<not> msg_Match handler i m) (messages q)\<rparr>
       in res_bind (take_out keep (filter (msg_Match handler i) (map dm_msg (delayed_messages q))) q) (\<lambda>(r3, q).
          Inr (r1 @ r2 @ r3, q\<lparr>delayed_messages := filter (\<lambda>d. \<not> msg_Match handler i (dm_msg d)) (delayed_messages q)\<rparr>))))"

definition Clear :: "ptr \<Rightarrow> u32 \<Rightarrow> bool \<Rightarrow> mqueue \<Rightarrow> (message list \<times> mqueue) res" where
  "Clear handler i keep q = ClearInternal handler i keep q"

subsection \<open>What other threads do\<close>

datatype mq_op =
    Op_Post message
  | Op_PostDelayed int int message
  | Op_PostAt int int message
  | Op_Dispose ptr nat string
  | Op_Clear ptr u32 bool
  | Op_Quit
  | Op_Restart

fun mq_exec :: "mq_op \<Rightarrow> mqueue \<Rightarrow> (message list \<times> mqueue) res" where
  "mq_exec (Op_Post msg) q = res_bind (Post msg q) (\<lambda>q. Inr ([], q))"
| "mq_exec (Op_PostDelayed now delay msg) q = res_bind (PostDelayed now delay msg q) (\<lambda>q. Inr ([], q))"
| "mq_exec (Op_PostAt now run_at msg) q = res_bind (PostAt now run_at msg q) (\<lambda>q. Inr ([], q))"
| "mq_exec (Op_Dispose doomed data here) q = res_bind (Dispose doomed data here q) (\<lambda>q. Inr ([], q))"
| "mq_exec (Op_Clear handler i keep) q = Clear handler i keep q"
| "mq_exec Op_Quit q = Inr ([], Quit q)"
| "mq_exec Op_Restart q = Inr ([], Restart q)"

fun mq_execs :: "mq_op list \<Rightarrow> mqueue \<Rightarrow> (message list \<times> mqueue) res" where
  "mq_execs [] q = Inr ([], q)"
| "mq_execs (x # xs) q = res_bind (mq_exec x q) (\<lambda>(r, q). res_bind (mq_execs xs q) (\<lambda>(rs, q). Inr (r @ rs, q)))"

subsection \<open>Getting messages\<close>

text \<open>Delayed messages that are due move to the queue; the result is the time until the next one.\<close>

lemma pq_top_fold: "foldl (\<lambda>m d. if dm_less m d then d else m) a c \<in> insert a (set c)"
proof (induction c arbitrary: a)
  case (Cons d c)
  then show ?case using Cons.IH [of d] Cons.IH [of a] by auto
qed simp

lemma pq_top_in: "c \<noteq> [] \<Longrightarrow> pq_top c \<in> set c"
  using pq_top_fold [of "hd c" "tl c"] by (cases c) (simp_all add: pq_top_def)

lemma length_pq_pop: "c \<noteq> [] \<Longrightarrow> length (pq_pop c) < length c"
  using pq_top_in [of c] length_pos_if_in_set [of "pq_top c" c] by (simp add: pq_pop_def length_remove1)

function due_loop :: "int \<Rightarrow> message list \<Rightarrow> delayed_message list \<Rightarrow> int \<times> message list \<times> delayed_message list" where
  "due_loop msCurrent ms ds =
     (if ds \<noteq> []
      then if msCurrent < dm_run_time_ms (pq_top ds) then (TimeDiff (dm_run_time_ms (pq_top ds)) msCurrent, ms, ds)
           else due_loop msCurrent (ms @ [dm_msg (pq_top ds)]) (pq_pop ds)
      else (kForever, ms, ds))"
  by pat_completeness auto
termination by (relation "measure (\<lambda>(_, _, ds). length ds)") (auto simp: length_pq_pop)

declare due_loop.simps [simp del]

text \<open>Messages are pulled until one is not a dispose message; the data of the others is deleted.\<close>

fun pull_from :: "message list \<Rightarrow> mqueue \<Rightarrow> (message option \<times> mqueue) res" where
  "pull_from [] q = Inr (None, q)"
| "pull_from (m # ms) q =
     (let q = q\<lparr>messages := ms\<rparr>
      in if message_id m = MQID_DISPOSE then res_bind (delete_data (pdata m) q) (pull_from ms)
         else Inr (Some m, q))"

definition pull :: "mqueue \<Rightarrow> (message option \<times> mqueue) res" where
  "pull q = pull_from (messages q) q"

text \<open>The first pass and the passes after it.\<close>

definition get_pass :: "int \<Rightarrow> mqueue \<Rightarrow> (message option \<times> int \<times> mqueue) res" where
  "get_pass msCurrent q =
     (let (cmsDelayNext, ms, ds) = due_loop msCurrent (messages q) (delayed_messages q);
          q = q\<lparr>messages := ms, delayed_messages := ds\<rparr>
      in res_bind (pull q) (\<lambda>(m, q). Inr (m, cmsDelayNext, q)))"

text \<open>
  One round of waiting: what other threads do before the flag is tested and while the thread waits, whether \<open>Wait\<close> succeeded, and the time
  after it.
\<close>

record wait_round =
  rd_check :: "mq_op list"
  rd_wait :: "mq_op list"
  rd_ok :: bool
  rd_now :: int

text \<open>
  A call of \<open>Get\<close> returns a message, returns false, or is about to wait when the rounds it was given are used up: it has found no message and
  the queue is not stopping. The waits asked for
  and the messages that clearing threads received are part of the result.
\<close>

datatype get_result = Got message | No_message | Waiting

record got =
  g_result :: get_result
  g_waits :: "int list"
  g_removed :: "message list"
  g_queue :: mqueue

definition wait_time :: "int \<Rightarrow> int \<Rightarrow> int \<Rightarrow> int" where
  "wait_time cmsWait cmsElapsed cmsDelayNext =
     (if cmsWait = kForever then cmsDelayNext
      else let cmsNext = max 0 (cmsWait - cmsElapsed)
           in if cmsDelayNext \<noteq> kForever \<and> cmsDelayNext < cmsNext then cmsDelayNext else cmsNext)"

fun get_loop :: "int \<Rightarrow> int \<Rightarrow> int \<Rightarrow> int \<Rightarrow> wait_round list \<Rightarrow> mqueue \<Rightarrow> got res" where
  "get_loop cmsWait msStart msCurrent cmsElapsed rounds q =
     res_bind (get_pass msCurrent q) (\<lambda>(m, cmsDelayNext, q).
       case m of Some msg \<Rightarrow> Inr \<lparr>g_result = Got msg, g_waits = [], g_removed = [], g_queue = q\<rparr>
       | None \<Rightarrow>
           (case rounds of [] \<Rightarrow> Inr \<lparr>g_result = (if IsQuitting q then No_message else Waiting), g_waits = [], g_removed = [], g_queue = q\<rparr>
            | rd # rounds \<Rightarrow>
                res_bind (mq_execs (rd_check rd) q) (\<lambda>(r1, q).
                  if IsQuitting q then Inr \<lparr>g_result = No_message, g_waits = [], g_removed = r1, g_queue = q\<rparr>
                  else let cmsNext = i32 (wait_time cmsWait cmsElapsed cmsDelayNext)
                       in res_bind (mq_execs (rd_wait rd) q) (\<lambda>(r2, q).
                            if \<not> rd_ok rd
                            then Inr \<lparr>g_result = No_message, g_waits = [cmsNext], g_removed = r1 @ r2, g_queue = q\<rparr>
                            else let msCurrent = rd_now rd; cmsElapsed = TimeDiff msCurrent msStart
                                 in if cmsWait \<noteq> kForever \<and> cmsElapsed \<ge> cmsWait
                                    then Inr \<lparr>g_result = No_message, g_waits = [cmsNext], g_removed = r1 @ r2, g_queue = q\<rparr>
                                    else res_bind (get_loop cmsWait msStart msCurrent cmsElapsed rounds q) (\<lambda>g.
                                           Inr (g\<lparr>g_waits := cmsNext # g_waits g, g_removed := r1 @ r2 @ g_removed g\<rparr>))))))"

declare get_loop.simps [simp del]

definition Get :: "int \<Rightarrow> int \<Rightarrow> wait_round list \<Rightarrow> mqueue \<Rightarrow> got res" where
  "Get cmsWait now rounds q =
     (if fPeekKeep q
      then Inr \<lparr>g_result = Got (msgPeek q), g_waits = [], g_removed = [], g_queue = q\<lparr>fPeekKeep := False\<rparr>\<rparr>
      else get_loop cmsWait now now 0 rounds q)"

definition Peek :: "int \<Rightarrow> int \<Rightarrow> wait_round list \<Rightarrow> mqueue \<Rightarrow> got res" where
  "Peek cmsWait now rounds q =
     (if fPeekKeep q then Inr \<lparr>g_result = Got (msgPeek q), g_waits = [], g_removed = [], g_queue = q\<rparr>
      else res_bind (Get cmsWait now rounds q) (\<lambda>g.
        case g_result g of
          Got m \<Rightarrow> Inr (g\<lparr>g_queue := (g_queue g)\<lparr>msgPeek := m, fPeekKeep := True\<rparr>\<rparr>)
        | _ \<Rightarrow> Inr g))"

subsection \<open>Dispatching\<close>

text \<open>What a handler does to this queue is an argument; the handler owns the data of the message it is given.\<close>

definition Dispatch :: "(nat \<Rightarrow> message \<Rightarrow> mq_op list) \<Rightarrow> int \<Rightarrow> int \<Rightarrow> message \<Rightarrow> mqueue \<Rightarrow> (message list \<times> mqueue) res" where
  "Dispatch on_message start_time end_time msg q =
     (case phandler msg of None \<Rightarrow> Inl Null_deref
      | Some h \<Rightarrow>
          res_bind (mq_execs (on_message h msg) q) (\<lambda>(r, q).
            let diff = TimeDiff end_time start_time
            in Inr (r, if diff \<ge> dispatch_warning_ms q then q\<lparr>dispatch_warning_ms := diff + 1\<rparr> else q)))"

text \<open>An iteration of \<open>ProcessMessages\<close>: the clock when \<open>Get\<close> is called, its rounds, the clock before and after the handler and after the dispatch.\<close>

record iteration =
  it_now :: int
  it_rounds :: "wait_round list"
  it_start :: int
  it_end :: int
  it_after :: int

text \<open>The result is what \<open>ProcessMessages\<close> returns, or nothing while it runs, and the messages dispatched.\<close>

fun process_loop ::
  "(nat \<Rightarrow> message \<Rightarrow> mq_op list) \<Rightarrow> int \<Rightarrow> int \<Rightarrow> int \<Rightarrow> iteration list \<Rightarrow> mqueue \<Rightarrow>
   (bool option \<times> message list \<times> message list \<times> mqueue) res" where
  "process_loop on_message cmsLoop msEnd cmsNext [] q = Inr (None, [], [], q)"
| "process_loop on_message cmsLoop msEnd cmsNext (it # its) q =
     res_bind (Get cmsNext (it_now it) (it_rounds it) q) (\<lambda>g.
       case g_result g of
         Waiting \<Rightarrow> Inr (None, [], g_removed g, g_queue g)
       | No_message \<Rightarrow> Inr (Some (\<not> IsQuitting (g_queue g)), [], g_removed g, g_queue g)
       | Got msg \<Rightarrow>
           res_bind (Dispatch on_message (it_start it) (it_end it) msg (g_queue g)) (\<lambda>(r, q).
             let cmsNext' = (if cmsLoop \<noteq> kForever then i32 (TimeUntil (it_after it) msEnd) else cmsNext)
             in if cmsLoop \<noteq> kForever \<and> cmsNext' < 0 then Inr (Some True, [msg], g_removed g @ r, q)
                else res_bind (process_loop on_message cmsLoop msEnd cmsNext' its q) (\<lambda>(b, ds, rs, q).
                       Inr (b, msg # ds, g_removed g @ r @ rs, q))))"

definition ProcessMessages ::
  "(nat \<Rightarrow> message \<Rightarrow> mq_op list) \<Rightarrow> int \<Rightarrow> int \<Rightarrow> iteration list \<Rightarrow> mqueue \<Rightarrow>
   (bool option \<times> message list \<times> message list \<times> mqueue) res" where
  "ProcessMessages on_message cmsLoop now its q =
     (let msEnd = (if kForever = cmsLoop then 0 else TimeAfter now cmsLoop)
      in process_loop on_message cmsLoop msEnd cmsLoop its q)"

section \<open>Ownership of message data\<close>

fun datas :: "message list \<Rightarrow> nat list" where
  "datas [] = []"
| "datas (m # ms) = (case pdata m of None \<Rightarrow> datas ms | Some a \<Rightarrow> a # datas ms)"

lemma datas_append [simp]: "datas (xs @ ys) = datas xs @ datas ys"
  by (induction xs) (auto split: option.splits)

lemma mset_datas_cong: "mset xs = mset ys \<Longrightarrow> mset (datas xs) = mset (datas ys)"
proof -
  have "mset (datas ms) = (\<Sum>m\<in>#mset ms. case pdata m of None \<Rightarrow> {#} | Some a \<Rightarrow> {#a#})" for ms
    by (induction ms) (auto split: option.splits)
  then show "mset xs = mset ys \<Longrightarrow> mset (datas xs) = mset (datas ys)" by simp
qed

lemma datas_filter: "mset (datas (filter P ms)) + mset (datas (filter (\<lambda>m. \<not> P m) ms)) = mset (datas ms)"
  by (induction ms) (auto split: option.splits)

text \<open>The messages a queue holds, the data they own, and everything the queue has ever been responsible for.\<close>

definition held :: "mqueue \<Rightarrow> message list" where
  "held q = (if fPeekKeep q then [msgPeek q] else []) @ messages q @ map dm_msg (delayed_messages q)"

definition owned :: "mqueue \<Rightarrow> nat multiset" where
  "owned q = mset (datas (held q))"

definition total :: "mqueue \<Rightarrow> nat multiset" where
  "total q = mset (mq_deleted q) + owned q"

text \<open>The objects of \<open>Y\<close> are allocated, each once.\<close>

definition lives :: "nat multiset \<Rightarrow> mqueue \<Rightarrow> bool" where
  "lives Y q \<longleftrightarrow> finite (mq_live q) \<and> Y \<subseteq># mset_set (mq_live q)"

abbreviation safe :: "nat multiset \<Rightarrow> mqueue \<Rightarrow> bool" where
  "safe X q \<equiv> lives (owned q + X) q"

text \<open>
  An operation that is handed the data \<open>G\<close>: whatever other data \<open>X\<close> is allocated, it does not fault, it takes over a part of \<open>G\<close>, and what
  it took, which is what \<open>mq_given\<close> grows by, is afterwards deleted, held, or handed out with the messages it returns.
\<close>

definition conserves :: "nat multiset \<Rightarrow> (mqueue \<Rightarrow> (message list \<times> mqueue) res) \<Rightarrow> bool" where
  "conserves G f \<longleftrightarrow>
     (\<forall>X q. safe (X + G) q \<longrightarrow>
        (\<exists>r q' S. f q = Inr (r, q') \<and> S \<subseteq># G \<and> safe (X + (G - S) + mset (datas r)) q' \<and> total q' + mset (datas r) = total q + S \<and>
           mset (mq_given q') = mset (mq_given q) + S))"

lemma conservesI:
  assumes "\<And>X q. safe (X + G) q \<Longrightarrow> \<exists>r q'. f q = Inr (r, q') \<and> safe (X + mset (datas r)) q' \<and>
    total q' + mset (datas r) = total q + G \<and> mset (mq_given q') = mset (mq_given q) + G"
  shows "conserves G f"
  unfolding conserves_def
proof (intro allI impI)
  fix X q assume "safe (X + G) q"
  then obtain r q' where "f q = Inr (r, q')" "safe (X + mset (datas r)) q'" "total q' + mset (datas r) = total q + G"
    "mset (mq_given q') = mset (mq_given q) + G"
    using assms by blast
  then show "\<exists>r q' S. f q = Inr (r, q') \<and> S \<subseteq># G \<and> safe (X + (G - S) + mset (datas r)) q' \<and> total q' + mset (datas r) = total q + S \<and>
      mset (mq_given q') = mset (mq_given q) + S"
    by (intro exI [of _ r] exI [of _ q'] exI [of _ G]) simp
qed

lemma conserves_then:
  assumes "conserves G1 f" "\<And>r. conserves G2 (g r)"
  shows "conserves (G1 + G2) (\<lambda>q. res_bind (f q) (\<lambda>(r, q). res_bind (g r q) (\<lambda>(rs, q). Inr (r @ rs, q))))"
  unfolding conserves_def
proof (intro allI impI)
  fix X q assume "safe (X + (G1 + G2)) q"
  then have "safe (X + G2 + G1) q" by (simp add: ac_simps)
  then obtain r q1 S1 where 1: "f q = Inr (r, q1)" "S1 \<subseteq># G1" "safe (X + G2 + (G1 - S1) + mset (datas r)) q1"
    "total q1 + mset (datas r) = total q + S1" "mset (mq_given q1) = mset (mq_given q) + S1"
    using assms(1) unfolding conserves_def by blast
  have "safe (X + (G1 - S1) + mset (datas r) + G2) q1" using 1(3) by (simp add: ac_simps)
  then obtain rs q2 S2 where 2: "g r q1 = Inr (rs, q2)" "S2 \<subseteq># G2"
    "safe (X + (G1 - S1) + mset (datas r) + (G2 - S2) + mset (datas rs)) q2" "total q2 + mset (datas rs) = total q1 + S2"
    "mset (mq_given q2) = mset (mq_given q1) + S2"
    using assms(2) unfolding conserves_def by blast
  have "G1 + G2 - (S1 + S2) = (G1 - S1) + (G2 - S2)"
    using 1(2) 2(2) by (simp add: multiset_eq_iff subseteq_mset_def)
  moreover have "S1 + S2 \<subseteq># G1 + G2" using 1(2) 2(2) by (rule subset_mset.add_mono)
  moreover have "total q2 + mset (datas (r @ rs)) = total q + (S1 + S2)" using 1(4) 2(4) by (simp add: ac_simps) (metis add.assoc add.commute)
  ultimately show "\<exists>r q' S. res_bind (f q) (\<lambda>(r, q). res_bind (g r q) (\<lambda>(rs, q). Inr (r @ rs, q))) = Inr (r, q') \<and> S \<subseteq># G1 + G2 \<and>
      safe (X + (G1 + G2 - S) + mset (datas r)) q' \<and> total q' + mset (datas r) = total q + S \<and> mset (mq_given q') = mset (mq_given q) + S"
    using 1(1,5) 2(1,3,5) by (intro exI [of _ "r @ rs"] exI [of _ q2] exI [of _ "S1 + S2"]) (simp add: ac_simps)
qed

subsection \<open>Deleting\<close>

abbreviation data_of :: "ptr \<Rightarrow> nat multiset" where
  "data_of p \<equiv> (case p of None \<Rightarrow> {#} | Some a \<Rightarrow> {#a#})"

text \<open>Only the heap changes.\<close>

definition heap_only :: "mqueue \<Rightarrow> mqueue \<Rightarrow> bool" where
  "heap_only q q' \<longleftrightarrow> q' = q\<lparr>mq_live := mq_live q', mq_deleted := mq_deleted q'\<rparr>"

lemma heap_only_refl [simp]: "heap_only q q"
  by (simp add: heap_only_def)

lemma heap_only_trans: "heap_only q q1 \<Longrightarrow> heap_only q1 q2 \<Longrightarrow> heap_only q q2"
  by (cases q; cases q1; cases q2) (simp add: heap_only_def)

lemma heap_only_simps:
  assumes "heap_only q q'"
  shows "fPeekKeep q' = fPeekKeep q" "msgPeek q' = msgPeek q" "messages q' = messages q" "delayed_messages q' = delayed_messages q"
    "mq_stop q' = mq_stop q" "held q' = held q" "owned q' = owned q" "mq_given q' = mq_given q"
  using assms by (cases q; cases q'; simp add: heap_only_def held_def owned_def)+

lemma delete_data_ok:
  assumes "lives (data_of p + Y) q"
  shows "\<exists>q'. delete_data p q = Inr q' \<and> heap_only q q' \<and> lives Y q' \<and> mset (mq_deleted q') = mset (mq_deleted q) + data_of p"
proof (cases p)
  case (Some a)
  have fin: "finite (mq_live q)" and sub: "add_mset a Y \<subseteq># mset_set (mq_live q)" using assms Some by (simp_all add: lives_def)
  have a: "a \<in> mq_live q" using mset_subset_eqD [OF sub, of a] fin by simp
  then have "mset_set (mq_live q - {a}) = mset_set (mq_live q) - {#a#}" using fin by (simp add: mset_set_Diff)
  moreover have "Y \<subseteq># mset_set (mq_live q) - {#a#}" using sub by (simp add: insert_subset_eq_iff)
  ultimately show ?thesis using Some a fin by (simp add: delete_data_def heap_only_def lives_def)
qed (use assms in \<open>simp add: delete_data_def\<close>)

lemma take_out_ok:
  assumes "lives (mset (datas ms) + Y) q"
  shows "\<exists>q'. take_out keep ms q = Inr (if keep then ms else [], q') \<and> heap_only q q' \<and>
    lives (mset (datas (if keep then ms else [])) + Y) q' \<and>
    mset (mq_deleted q') + mset (datas (if keep then ms else [])) = mset (mq_deleted q) + mset (datas ms)"
proof (cases keep)
  case True
  have "take_out True ms q = Inr (ms, q)" by (induction ms) simp_all
  then show ?thesis using True assms by simp
next
  case False
  have "\<exists>q'. take_out False ms q = Inr ([], q') \<and> heap_only q q' \<and> lives Y q' \<and> mset (mq_deleted q') = mset (mq_deleted q) + mset (datas ms)"
    using assms
  proof (induction ms arbitrary: q)
    case (Cons m ms)
    have "mset (datas (m # ms)) = data_of (pdata m) + mset (datas ms)" by (cases "pdata m") simp_all
    then have "lives (data_of (pdata m) + (mset (datas ms) + Y)) q" using Cons.prems by (simp add: ac_simps)
    from delete_data_ok [OF this] obtain q1 where q1: "delete_data (pdata m) q = Inr q1" "heap_only q q1" "lives (mset (datas ms) + Y) q1"
      "mset (mq_deleted q1) = mset (mq_deleted q) + data_of (pdata m)" by blast
    from Cons.IH [OF q1(3)] q1 show ?case by (auto intro: heap_only_trans simp: ac_simps split: option.splits)
  qed simp
  with False show ?thesis by simp
qed

subsection \<open>Posting and clearing\<close>

lemma heap_fields [simp]:
  "held (q\<lparr>mq_live := L, mq_deleted := D\<rparr>) = held q" "held (WakeUpSocketServer q) = held q"
  "held (q\<lparr>mq_stop := n\<rparr>) = held q" "mq_live (WakeUpSocketServer q) = mq_live q" "mq_deleted (WakeUpSocketServer q) = mq_deleted q"
  "held (q\<lparr>dispatch_warning_ms := k\<rparr>) = held q" "mq_given (WakeUpSocketServer q) = mq_given q"
  by (simp_all add: held_def WakeUpSocketServer_def)

lemma hand_over_fields [simp]:
  "held (hand_over p q) = held q" "owned (hand_over p q) = owned q" "mq_live (hand_over p q) = mq_live q"
  "mq_deleted (hand_over p q) = mq_deleted q" "IsQuitting (hand_over p q) = IsQuitting q" "fPeekKeep (hand_over p q) = fPeekKeep q"
  "lives Y (hand_over p q) = lives Y q" "mset (mq_given (hand_over p q)) = mset (mq_given q) + data_of p" "hand_over None q = q"
  by (simp_all add: hand_over_def held_def owned_def lives_def IsQuitting_def split: option.split)

text \<open>A post either enqueues the message or, when the queue is stopped, deletes its data.\<close>

lemma post_conserves:
  assumes "\<And>q. post q = (if IsQuitting q then delete_data (pdata msg) (hand_over (pdata msg) q) else Inr (enqueue (hand_over (pdata msg) q)))"
    and "\<And>q. mset (held (enqueue q)) = add_mset msg (mset (held q))"
    and "\<And>q. mq_live (enqueue q) = mq_live q \<and> mq_deleted (enqueue q) = mq_deleted q \<and> mq_given (enqueue q) = mq_given q"
  shows "conserves (data_of (pdata msg)) (\<lambda>q. res_bind (post q) (\<lambda>q. Inr ([], q)))"
proof (rule conservesI)
  fix X q assume safe: "safe (X + data_of (pdata msg)) q"
  let ?h = "hand_over (pdata msg) q"
  show "\<exists>r q'. res_bind (post q) (\<lambda>q. Inr ([], q)) = Inr (r, q') \<and> safe (X + mset (datas r)) q' \<and>
    total q' + mset (datas r) = total q + data_of (pdata msg) \<and> mset (mq_given q') = mset (mq_given q) + data_of (pdata msg)"
  proof (cases "IsQuitting q")
    case True
    have "lives (data_of (pdata msg) + (owned q + X)) ?h" using safe by (simp add: ac_simps)
    from delete_data_ok [OF this] show ?thesis
      using True assms(1) by (auto simp: total_def heap_only_simps ac_simps)
  next
    case False
    have "mset (datas (held (enqueue ?h))) = mset (datas (msg # held q))" by (rule mset_datas_cong) (simp add: assms(2))
    then have "owned (enqueue ?h) = owned q + data_of (pdata msg)" by (cases "pdata msg") (simp_all add: owned_def)
    then show ?thesis using False safe assms(1) [of q] assms(3) [of ?h] by (simp add: lives_def total_def add.assoc add.commute [of X])
  qed
qed

lemma Post_conserves: "conserves (data_of (pdata msg)) (\<lambda>q. res_bind (Post msg q) (\<lambda>q. Inr ([], q)))"
  by (rule post_conserves [where enqueue = "\<lambda>q. WakeUpSocketServer (q\<lparr>messages := messages q @ [msg]\<rparr>)"])
    (simp_all add: Post_def held_def WakeUpSocketServer_def Let_def)

lemma DoDelayPost_conserves: "conserves (data_of (pdata msg)) (\<lambda>q. res_bind (DoDelayPost delay run_at msg q) (\<lambda>q. Inr ([], q)))"
  by (rule post_conserves [where enqueue = "\<lambda>q. WakeUpSocketServer
        (q\<lparr>delayed_messages := delayed_messages q @ [\<lparr>dm_delay_ms = delay, dm_run_time_ms = run_at, dm_message_number = delayed_next_num q, dm_msg = msg\<rparr>],
           delayed_next_num := delayed_next_num q + 1\<rparr>)"])
    (simp_all add: DoDelayPost_def held_def pq_push_def WakeUpSocketServer_def Let_def)

text \<open>What matches is taken out; the rest stays in its order.\<close>

definition cleared :: "ptr \<Rightarrow> u32 \<Rightarrow> mqueue \<Rightarrow> mqueue" where
  "cleared handler i q =
     q\<lparr>fPeekKeep := fPeekKeep q \<and> \<not> msg_Match handler i (msgPeek q),
       messages := filter (\<lambda>m. \<not> msg_Match handler i m) (messages q),
       delayed_messages := filter (\<lambda>d. \<not> msg_Match handler i (dm_msg d)) (delayed_messages q)\<rparr>"

lemma cleared_given: "mq_given (cleared handler i q) = mq_given q"
  by (simp add: cleared_def)

lemma held_cleared: "held (cleared handler i q) = filter (\<lambda>m. \<not> msg_Match handler i m) (held q)"
  by (simp add: held_def cleared_def filter_map comp_def)

text \<open>One of the three steps: the messages \<open>ms\<close> that match are taken out, then a field of the queue is set.\<close>

lemma clear_step:
  assumes "lives (R + mset (datas ms) + Y) q" "out = (if keep then ms else [])"
  obtains q' where "take_out keep ms q = Inr (out, q')" "heap_only q q'" "lives (R + mset (datas out) + Y) q'"
    "mset (mq_deleted q') + mset (datas out) = mset (mq_deleted q) + mset (datas ms)"
proof -
  have "lives (mset (datas ms) + (R + Y)) q" using assms(1) by (simp only: ac_simps)
  from take_out_ok [OF this, of keep] obtain q' where "take_out keep ms q = Inr (out, q')" "heap_only q q'"
    "lives (mset (datas out) + (R + Y)) q'" "mset (mq_deleted q') + mset (datas out) = mset (mq_deleted q) + mset (datas ms)"
    unfolding assms(2) by blast
  with that show ?thesis by (simp only: ac_simps)
qed

lemma clear_peek:
  assumes "lives (mset (datas (filter M (if fPeekKeep q then [msgPeek q] else []))) + Y) q"
    "out = (if keep then filter M (if fPeekKeep q then [msgPeek q] else []) else [])"
  obtains q' where
    "(if fPeekKeep q \<and> M (msgPeek q) then res_bind (take_out keep [msgPeek q] q) (\<lambda>(r, q). Inr (r, q\<lparr>fPeekKeep := False\<rparr>)) else Inr ([], q)) =
      Inr (out, q')" "heap_only (q\<lparr>fPeekKeep := fPeekKeep q \<and> \<not> M (msgPeek q)\<rparr>) q'" "lives (mset (datas out) + Y) q'"
    "mset (mq_deleted q') + mset (datas out) = mset (mq_deleted q) + mset (datas (filter M (if fPeekKeep q then [msgPeek q] else [])))"
proof (cases "fPeekKeep q \<and> M (msgPeek q)")
  case True
  have "lives ({#} + mset (datas [msgPeek q]) + Y) q" using assms(1) True by simp
  then obtain q1 where "take_out keep [msgPeek q] q = Inr (out, q1)" "heap_only q q1" "lives ({#} + mset (datas out) + Y) q1"
    "mset (mq_deleted q1) + mset (datas out) = mset (mq_deleted q) + mset (datas [msgPeek q])"
    by (rule clear_step [where out = out and keep = keep]) (use assms(2) True in simp)
  then show ?thesis using True by (intro that [of "q1\<lparr>fPeekKeep := False\<rparr>"])
    (cases q; cases q1; auto simp: heap_only_def lives_def)+
next
  case False
  then show ?thesis using assms by (intro that [of q]) (cases q; auto simp: heap_only_def)+
qed

lemma add_steps:
  fixes d0 d1 d2 d3 :: "'a multiset"
  assumes "d1 + x = d0 + a" "d2 + y = d1 + b" "d3 + z = d2 + c"
  shows "d3 + (x + (y + z)) = d0 + (a + b + c)"
proof -
  have "d3 + (x + (y + z)) = (d3 + z) + y + x" by (simp only: ac_simps)
  also have "\<dots> = (d2 + y) + c + x" by (simp only: assms(3) ac_simps)
  also have "\<dots> = (d1 + x) + b + c" by (simp only: assms(2) ac_simps)
  finally show ?thesis by (simp only: assms(1) ac_simps)
qed

lemma ClearInternal_ok:
  assumes "safe X q" "out = (if keep then filter (msg_Match handler i) (held q) else [])"
  obtains q' where "ClearInternal handler i keep q = Inr (out, q')" "heap_only (cleared handler i q) q'"
    "lives (owned q' + X + mset (datas out)) q'" "total q' + mset (datas out) = total q"
proof -
  define M where "M = msg_Match handler i"
  define a where "a = filter M (if fPeekKeep q then [msgPeek q] else [])"
  define b where "b = filter M (messages q)"
  define c where "c = filter M (map dm_msg (delayed_messages q))"
  define oa ob oc where "oa = (if keep then a else [])" and "ob = (if keep then b else [])" and "oc = (if keep then c else [])"
  define N where "N = mset (datas (filter (\<lambda>m. \<not> M m) (held q)))"
  have abc: "a @ b @ c = filter M (held q)" by (simp add: held_def a_def b_def c_def)
  have own: "owned q = mset (datas a) + mset (datas b) + mset (datas c) + N"
    unfolding owned_def N_def datas_filter [of M "held q", symmetric] unfolding abc [symmetric] by (simp only: datas_append mset_append add.assoc)
  have out: "out = oa @ ob @ oc" using assms(2) abc by (cases keep) (simp_all add: oa_def ob_def oc_def M_def)
  have "lives (mset (datas a) + (mset (datas b) + mset (datas c) + N + X)) q" using assms(1) unfolding own by (simp only: ac_simps)
  then obtain q1 where 1: "(if fPeekKeep q \<and> M (msgPeek q) then res_bind (take_out keep [msgPeek q] q) (\<lambda>(r, q). Inr (r, q\<lparr>fPeekKeep := False\<rparr>)) else Inr ([], q)) =
      Inr (oa, q1)" "heap_only (q\<lparr>fPeekKeep := fPeekKeep q \<and> \<not> M (msgPeek q)\<rparr>) q1" "lives (mset (datas oa) + (mset (datas b) + mset (datas c) + N + X)) q1"
    "mset (mq_deleted q1) + mset (datas oa) = mset (mq_deleted q) + mset (datas a)"
    using clear_peek [where M = M and q = q and out = oa and keep = keep] unfolding a_def oa_def by blast
  have "lives (mset (datas oa) + mset (datas b) + (mset (datas c) + N + X)) q1" using 1(3) by (simp only: ac_simps)
  then obtain q2 where 2: "take_out keep b q1 = Inr (ob, q2)" "heap_only q1 q2" "lives (mset (datas oa) + mset (datas ob) + (mset (datas c) + N + X)) q2"
    "mset (mq_deleted q2) + mset (datas ob) = mset (mq_deleted q1) + mset (datas b)"
    by (rule clear_step [OF _ ob_def])
  let ?q2 = "q2\<lparr>messages := filter (\<lambda>m. \<not> M m) (messages q2)\<rparr>"
  have "lives (mset (datas oa) + mset (datas ob) + mset (datas c) + (N + X)) ?q2" using 2(3) unfolding lives_def by (simp add: ac_simps)
  then obtain q3 where 3: "take_out keep c ?q2 = Inr (oc, q3)" "heap_only ?q2 q3"
    "lives (mset (datas oa) + mset (datas ob) + mset (datas oc) + (N + X)) q3"
    "mset (mq_deleted q3) + mset (datas oc) = mset (mq_deleted ?q2) + mset (datas c)"
    by (rule clear_step [OF _ oc_def])
  let ?q3 = "q3\<lparr>delayed_messages := filter (\<lambda>d. \<not> M (dm_msg d)) (delayed_messages q3)\<rparr>"
  have fields: "messages q1 = messages q" "delayed_messages ?q2 = delayed_messages q"
    using heap_only_simps [OF 1(2)] heap_only_simps [OF 2(2)] by simp_all
  have heap: "heap_only (cleared handler i q) ?q3"
    using 1(2) 2(2) 3(2) unfolding M_def by (cases q; cases q1; cases q2; cases q3) (simp add: heap_only_def cleared_def)
  then have N: "owned ?q3 = N" by (simp only: heap_only_simps) (simp add: owned_def held_cleared N_def M_def)
  have "ClearInternal handler i keep q = Inr (out, ?q3)"
    using 1(1) 2(1) 3(1) fields unfolding ClearInternal_def M_def [symmetric] b_def c_def by (simp add: out)
  moreover have "mset (mq_deleted q3) + mset (datas out) = mset (mq_deleted q) + (mset (datas a) + mset (datas b) + mset (datas c))"
    using add_steps [OF 1(4) 2(4)] 3(4) unfolding out by simp
  moreover have "lives (N + X + mset (datas out)) ?q3" using 3(3) unfolding out lives_def by (simp add: ac_simps)
  ultimately show ?thesis using heap N by (intro that [of ?q3]) (simp_all add: total_def own ac_simps)
qed

lemma Clear_conserves: "conserves {#} (Clear handler i keep)"
proof (rule conservesI)
  fix X q assume "safe (X + {#}) q"
  then have "safe X q" by simp
    define out where "out = (if keep then filter (msg_Match handler i) (held q) else [])"
  from ClearInternal_ok [OF \<open>safe X q\<close> out_def]
  show "\<exists>r q'. Clear handler i keep q = Inr (r, q') \<and> safe (X + mset (datas r)) q' \<and> total q' + mset (datas r) = total q + {#} \<and>
      mset (mq_given q') = mset (mq_given q) + {#}"
    unfolding Clear_def by (metis (no_types, lifting) add.assoc add.right_neutral heap_only_simps(8) cleared_given)
qed

fun op_data :: "mq_op \<Rightarrow> nat multiset" where
  "op_data (Op_Post msg) = data_of (pdata msg)"
| "op_data (Op_PostDelayed now delay msg) = data_of (pdata msg)"
| "op_data (Op_PostAt now run_at msg) = data_of (pdata msg)"
| "op_data (Op_Dispose doomed data here) = (if doomed \<noteq> None then {#data#} else {#})"
| "op_data x = {#}"

lemma conserves_state:
  "(\<And>q. held (f q) = held q \<and> mq_live (f q) = mq_live q \<and> mq_deleted (f q) = mq_deleted q \<and> mq_given (f q) = mq_given q) \<Longrightarrow> conserves {#} (\<lambda>q. Inr ([], f q))"
  by (rule conservesI) (simp add: lives_def owned_def total_def)

lemma conserves_cong: "conserves G f \<Longrightarrow> (\<And>q. g q = f q) \<Longrightarrow> conserves G g"
  by (simp add: conserves_def)

lemma mq_exec_conserves: "conserves (op_data x) (mq_exec x)"
proof (cases x)
  case (Op_Post msg)
  show ?thesis unfolding Op_Post by (rule conserves_cong, unfold op_data.simps, rule Post_conserves) simp
next
  case (Op_PostDelayed now delay msg)
  show ?thesis unfolding Op_PostDelayed by (rule conserves_cong, unfold op_data.simps, rule DoDelayPost_conserves) (simp add: PostDelayed_def)
next
  case (Op_PostAt now run_at msg)
  show ?thesis unfolding Op_PostAt by (rule conserves_cong, unfold op_data.simps, rule DoDelayPost_conserves) (simp add: PostAt_def)
next
  case (Op_Dispose doomed data here)
  show ?thesis
  proof (cases "doomed = None")
    case True
    then show ?thesis using conserves_state [of "\<lambda>q. q"] Op_Dispose by (auto elim!: conserves_cong simp: Dispose_def)
  next
    case False
    then show ?thesis
      using Post_conserves [of "\<lparr>posted_from = here, phandler = None, message_id = MQID_DISPOSE, pdata = Some data\<rparr>"] Op_Dispose
      by (auto elim!: conserves_cong simp: Dispose_def)
  qed
next
  case (Op_Clear handler i keep)
  then show ?thesis using Clear_conserves [of handler i keep] by (auto elim!: conserves_cong)
next
  case Op_Quit
  then show ?thesis using conserves_state [of Quit] by (auto elim!: conserves_cong simp: Quit_def)
next
  case Op_Restart
  then show ?thesis using conserves_state [of Restart] by (auto elim!: conserves_cong simp: Restart_def)
qed

fun ops_data :: "mq_op list \<Rightarrow> nat multiset" where
  "ops_data [] = {#}"
| "ops_data (x # xs) = op_data x + ops_data xs"

lemma mq_execs_conserves: "conserves (ops_data xs) (mq_execs xs)"
proof (induction xs)
  case Nil
  then show ?case using conserves_state [of "\<lambda>q. q"] by (auto elim!: conserves_cong)
next
  case (Cons x xs)
  show ?case unfolding ops_data.simps by (rule conserves_cong, rule conserves_then [OF mq_exec_conserves Cons.IH]) simp
qed

section \<open>Order of delayed messages\<close>

definition dm_key :: "delayed_message \<Rightarrow> int \<times> u32" where
  "dm_key d = (dm_run_time_ms d, dm_message_number d)"

lemma dm_less_key: "dm_less d e \<longleftrightarrow> dm_key e < dm_key d"
  by (auto simp: dm_less_def dm_key_def)

text \<open>The top is the first element with the least key.\<close>

lemma pq_top_split:
  "\<exists>xs ys. a # c = xs @ foldl (\<lambda>m d. if dm_less m d then d else m) a c # ys \<and>
    (\<forall>x \<in> set xs. dm_key (foldl (\<lambda>m d. if dm_less m d then d else m) a c) < dm_key x) \<and>
    (\<forall>y \<in> set ys. dm_key (foldl (\<lambda>m d. if dm_less m d then d else m) a c) \<le> dm_key y)"
proof (induction c rule: rev_induct)
  case (snoc d c)
  define t where "t = foldl (\<lambda>m d. if dm_less m d then d else m) a c"
  obtain xs ys where xy: "a # c = xs @ t # ys" "\<forall>x \<in> set xs. dm_key t < dm_key x" "\<forall>y \<in> set ys. dm_key t \<le> dm_key y"
    using snoc unfolding t_def by blast
  have f: "foldl (\<lambda>m d. if dm_less m d then d else m) a (c @ [d]) = (if dm_less t d then d else t)" by (simp add: t_def)
  show ?case
  proof (cases "dm_less t d")
    case True
    then have "\<forall>x \<in> set (xs @ t # ys). dm_key d < dm_key x" using xy by (auto simp: dm_less_key)
    with True xy(1) show ?thesis unfolding f by (intro exI [of _ "xs @ t # ys"] exI [of _ "[]"]) simp
  next
    case False
    with xy show ?thesis unfolding f by (intro exI [of _ xs] exI [of _ "ys @ [d]"]) (auto simp: dm_less_key)
  qed
qed (intro exI [of _ "[]"], simp)

lemma sort_key_top:
  assumes "c \<noteq> []"
  shows "sort_key dm_key c = pq_top c # sort_key dm_key (pq_pop c)"
proof -
  obtain xs ys where c: "c = xs @ pq_top c # ys" and xs: "\<forall>x \<in> set xs. dm_key (pq_top c) < dm_key x"
    and ys: "\<forall>y \<in> set ys. dm_key (pq_top c) \<le> dm_key y"
    using pq_top_split [of "hd c" "tl c"] assms by (auto simp: pq_top_def)
  define t where "t = pq_top c"
  have "t \<notin> set xs" using xs by (auto simp: t_def)
  then have "remove1 t (xs @ t # ys) = xs @ ys" by (simp add: remove1_append)
  then have pop: "pq_pop c = xs @ ys" using c by (simp add: pq_pop_def t_def)
  show ?thesis unfolding pop t_def [symmetric]
  proof (rule properties_for_sort_key)
    show "mset (t # sort_key dm_key (xs @ ys)) = mset c" by (subst c) (simp add: t_def)
    show "sorted (map dm_key (t # sort_key dm_key (xs @ ys)))" using xs ys by (auto simp: t_def)
    fix k
    have "filter (\<lambda>x. dm_key k = dm_key x) xs = []" if "dm_key k = dm_key t" using xs that by (auto simp: t_def filter_empty_conv)
    moreover have "filter (\<lambda>x. dm_key k = dm_key x) (sort_key dm_key (xs @ ys)) = filter (\<lambda>x. dm_key k = dm_key x) (xs @ ys)"
      unfolding eq_commute [of "dm_key k"] by (rule sort_key_stable)
    ultimately show "filter (\<lambda>x. dm_key k = dm_key x) (t # sort_key dm_key (xs @ ys)) = filter (\<lambda>x. dm_key k = dm_key x) c"
      by (cases "dm_key k = dm_key t") (subst c, simp add: t_def)+
  qed
qed

lemma mset_pq_pop: "c \<noteq> [] \<Longrightarrow> mset c = add_mset (pq_top c) (mset (pq_pop c))"
  using pq_top_in [of c] by (simp add: pq_pop_def)

lemma pq_top_least:
  assumes "d \<in> set c"
  shows "dm_run_time_ms (pq_top c) \<le> dm_run_time_ms d"
proof -
  have "c \<noteq> []" using assms by auto
  then have s: "sorted (map dm_key (pq_top c # sort_key dm_key (pq_pop c)))" using sort_key_top [of c] by (metis sorted_sort_key)
  have "d = pq_top c \<or> d \<in> set (pq_pop c)" using assms mset_pq_pop [OF \<open>c \<noteq> []\<close>] by (metis insert_iff set_mset_add_mset_insert set_mset_mset)
  then have "dm_key (pq_top c) \<le> dm_key d" using s by auto
  then show ?thesis by (auto simp: dm_key_def)
qed

text \<open>The messages that are due, in the order they are run, and the time until the next one.\<close>

definition due :: "int \<Rightarrow> delayed_message list \<Rightarrow> delayed_message list" where
  "due now ds = sort_key dm_key (filter (\<lambda>d. dm_run_time_ms d \<le> now) ds)"

definition not_due :: "int \<Rightarrow> delayed_message list \<Rightarrow> delayed_message list" where
  "not_due now ds = filter (\<lambda>d. now < dm_run_time_ms d) ds"

definition next_delay :: "int \<Rightarrow> delayed_message list \<Rightarrow> int" where
  "next_delay now ds = (if ds = [] then kForever else dm_run_time_ms (pq_top ds) - now)"

lemma due_loop_spec:
  "due_loop now ms ds = (next_delay now (not_due now ds), ms @ map dm_msg (due now ds), not_due now ds)"
proof (induction now ms ds rule: due_loop.induct)
  case (1 now ms ds)
  consider "ds = []" | "ds \<noteq> []" "now < dm_run_time_ms (pq_top ds)" | "ds \<noteq> []" "dm_run_time_ms (pq_top ds) \<le> now" by linarith
  then show ?case
  proof cases
    case 2
    then have "\<forall>d \<in> set ds. now < dm_run_time_ms d" using pq_top_least by force
    then have "filter (\<lambda>d. dm_run_time_ms d \<le> now) ds = []" "not_due now ds = ds" by (auto simp: not_due_def filter_empty_conv)
    with 2 show ?thesis by (subst due_loop.simps) (simp add: next_delay_def due_def TimeDiff_def)
  next
    case 3
    have "due now ds = filter (\<lambda>d. dm_run_time_ms d \<le> now) (sort_key dm_key ds)" by (simp add: due_def filter_sort)
    also have "\<dots> = pq_top ds # due now (pq_pop ds)" using 3 by (simp add: sort_key_top due_def filter_sort)
    finally have d: "due now ds = pq_top ds # due now (pq_pop ds)" .
    have "not_due now (pq_pop ds) = not_due now ds"
      using 3(2) by (simp add: not_due_def pq_pop_def filter_remove1 remove1_idem)
    with 1 3 d show ?thesis by (subst due_loop.simps) simp
  qed (subst due_loop.simps, simp add: due_def not_due_def next_delay_def)
qed

lemma held_due:
  "mset (ms @ map dm_msg (due now ds)) + mset (map dm_msg (not_due now ds)) = mset (ms @ map dm_msg ds)"
proof -
  have "not_due now ds = filter (\<lambda>d. \<not> dm_run_time_ms d \<le> now) ds" by (simp add: not_due_def not_le)
  then show ?thesis by (simp add: due_def flip: image_mset_union filter_filter_mset)
qed

section \<open>Getting a message\<close>

abbreviation disposal :: "message \<Rightarrow> bool" where
  "disposal m \<equiv> message_id m = MQID_DISPOSE"

lemma pull_from_ok:
  assumes "messages q = ms" "lives (mset (datas ms) + Y) q"
  shows "\<exists>q'. pull_from ms q = Inr (case dropWhile disposal ms of [] \<Rightarrow> None | m # _ \<Rightarrow> Some m, q') \<and>
    heap_only (q\<lparr>messages := tl (dropWhile disposal ms)\<rparr>) q' \<and> lives (mset (datas (dropWhile disposal ms)) + Y) q' \<and>
    mset (mq_deleted q') = mset (mq_deleted q) + mset (datas (takeWhile disposal ms))"
  using assms
proof (induction ms arbitrary: q)
  case Nil
  then show ?case by (cases q) (simp add: heap_only_def)
next
  case (Cons m ms)
  show ?case
  proof (cases "disposal m")
    case True
    have "mset (datas (m # ms)) = data_of (pdata m) + mset (datas ms)" by (cases "pdata m") simp_all
    then have "lives (data_of (pdata m) + (mset (datas ms) + Y)) (q\<lparr>messages := ms\<rparr>)" using Cons.prems(2) by (simp add: lives_def ac_simps)
    from delete_data_ok [OF this] obtain q1 where q1: "delete_data (pdata m) (q\<lparr>messages := ms\<rparr>) = Inr q1"
      "heap_only (q\<lparr>messages := ms\<rparr>) q1" "lives (mset (datas ms) + Y) q1"
      "mset (mq_deleted q1) = mset (mq_deleted q) + data_of (pdata m)" by auto
    have "messages q1 = ms" using heap_only_simps [OF q1(2)] by simp
    from Cons.IH [OF this q1(3)] obtain q' where
      q': "pull_from ms q1 = Inr (case dropWhile disposal ms of [] \<Rightarrow> None | m # _ \<Rightarrow> Some m, q')"
      "heap_only (q1\<lparr>messages := tl (dropWhile disposal ms)\<rparr>) q'" "lives (mset (datas (dropWhile disposal ms)) + Y) q'"
      "mset (mq_deleted q') = mset (mq_deleted q1) + mset (datas (takeWhile disposal ms))" by blast
    have "heap_only (q\<lparr>messages := tl (dropWhile disposal ms)\<rparr>) q'"
      using q1(2) q'(2) by (cases q; cases q1; cases q') (simp add: heap_only_def)
    then show ?thesis using True q1 q' by (cases "pdata m") (simp_all add: Let_def)
  next
    case False
    then show ?thesis using Cons.prems by (cases q) (simp add: heap_only_def lives_def)
  qed
qed

text \<open>What is ready at a time: the posted messages, then the delayed ones that are due.\<close>

definition ready :: "int \<Rightarrow> mqueue \<Rightarrow> message list" where
  "ready now q = messages q @ map dm_msg (due now (delayed_messages q))"

text \<open>The queue after the messages up to the first one that is not a disposal are gone.\<close>

definition after_pass :: "int \<Rightarrow> mqueue \<Rightarrow> mqueue" where
  "after_pass now q =
     q\<lparr>messages := tl (dropWhile disposal (ready now q)), delayed_messages := not_due now (delayed_messages q)\<rparr>"

abbreviation first_ready :: "int \<Rightarrow> mqueue \<Rightarrow> message option" where
  "first_ready now q \<equiv> (case dropWhile disposal (ready now q) of [] \<Rightarrow> None | m # _ \<Rightarrow> Some m)"

definition opt_list :: "'a option \<Rightarrow> 'a list" where
  "opt_list x = (case x of None \<Rightarrow> [] | Some a \<Rightarrow> [a])"

lemma get_pass_ok:
  assumes "safe X q"
  obtains q' where "get_pass now q = Inr (first_ready now q, next_delay now (not_due now (delayed_messages q)), q')"
    "heap_only (after_pass now q) q'" "safe (X + mset (datas (opt_list (first_ready now q)))) q'"
    "total q' + mset (datas (opt_list (first_ready now q))) = total q"
proof -
  define D where "D = dropWhile disposal (ready now q)"
  define P where "P = (if fPeekKeep q then [msgPeek q] else [])"
  define N where "N = map dm_msg (not_due now (delayed_messages q))"
  let ?q = "q\<lparr>messages := ready now q, delayed_messages := not_due now (delayed_messages q)\<rparr>"
  have "mset (ready now q) + mset N = mset (messages q @ map dm_msg (delayed_messages q))"
    unfolding ready_def N_def by (rule held_due)
  then have "mset (held q) = mset (ready now q @ P @ N)" by (simp add: held_def P_def ac_simps)
  from mset_datas_cong [OF this] have own: "owned q = mset (datas (ready now q)) + (mset (datas P) + mset (datas N))"
    by (simp add: owned_def)
  have "lives (mset (datas (ready now q)) + (mset (datas P) + mset (datas N) + X)) ?q" using assms unfolding own lives_def by (simp add: ac_simps)
  from pull_from_ok [OF _ this] obtain q' where q': "pull_from (ready now q) ?q = Inr (first_ready now q, q')"
    "heap_only (?q\<lparr>messages := tl D\<rparr>) q'" "lives (mset (datas D) + (mset (datas P) + mset (datas N) + X)) q'"
    "mset (mq_deleted q') = mset (mq_deleted q) + mset (datas (takeWhile disposal (ready now q)))"
    unfolding D_def by auto
  have heap: "heap_only (after_pass now q) q'" using q'(2) by (cases q) (simp add: after_pass_def D_def)
  have "owned q' = mset (datas P) + mset (datas (tl D)) + mset (datas N)"
    using heap_only_simps(7) [OF heap] by (simp add: owned_def held_def after_pass_def P_def N_def D_def)
  moreover have "mset (datas D) = mset (datas (opt_list (first_ready now q))) + mset (datas (tl D))"
    by (cases D) (auto simp: opt_list_def D_def [symmetric] split: option.splits)
  moreover have "mset (datas (ready now q)) = mset (datas (takeWhile disposal (ready now q))) + mset (datas D)"
    unfolding D_def by (metis datas_append mset_append takeWhile_dropWhile_id)
  ultimately show ?thesis
    using q' heap by (intro that [of q']) (simp_all add: get_pass_def due_loop_spec pull_def ready_def [symmetric] total_def own lives_def ac_simps)
qed

subsection \<open>Whole calls\<close>

lemma conserves_mono:
  assumes "conserves G f" "G \<subseteq># H"
  shows "conserves H f"
  unfolding conserves_def
proof (intro allI impI)
  fix X q assume "safe (X + H) q"
  moreover have HG: "X + (H - G) + G = X + H" using assms(2) by (metis add.assoc subset_mset.diff_add)
  ultimately have "safe (X + (H - G) + G) q" by (simp only: HG)
  then obtain r q' S where *: "f q = Inr (r, q')" "S \<subseteq># G" "safe (X + (H - G) + (G - S) + mset (datas r)) q'" "total q' + mset (datas r) = total q + S"
    "mset (mq_given q') = mset (mq_given q) + S"
    using assms(1) unfolding conserves_def by blast
  have "(H - G) + (G - S) = H - S" using *(2) assms(2) by (simp add: multiset_eq_iff subseteq_mset_def)
  then have "safe (X + (H - S) + mset (datas r)) q'" using *(3) by (metis add.assoc)
  then show "\<exists>r q' S. f q = Inr (r, q') \<and> S \<subseteq># H \<and> safe (X + (H - S) + mset (datas r)) q' \<and> total q' + mset (datas r) = total q + S \<and>
      mset (mq_given q') = mset (mq_given q) + S"
    using * assms(2) by (blast intro: subset_mset.order_trans)
qed

lemma conserves_if: "conserves G f \<Longrightarrow> conserves G g \<Longrightarrow> conserves G (\<lambda>q. if P q then f q else g q)"
  unfolding conserves_def by simp

lemma conserves_id: "conserves G (\<lambda>q. Inr ([], q))"
  using conserves_mono [OF conserves_state [of "\<lambda>q. q"]] by simp

lemma get_pass_conserves:
  assumes "\<And>d. conserves G (K d)"
  shows "conserves G (\<lambda>q. res_bind (get_pass now q) (\<lambda>(m, d, q). case m of Some m \<Rightarrow> Inr ([m], q) | None \<Rightarrow> K d q))"
  unfolding conserves_def
proof (intro allI impI)
  fix X q assume "safe (X + G) q"
  then obtain q1 where q1: "get_pass now q = Inr (first_ready now q, next_delay now (not_due now (delayed_messages q)), q1)"
    "safe (X + G + mset (datas (opt_list (first_ready now q)))) q1" "total q1 + mset (datas (opt_list (first_ready now q))) = total q"
    "heap_only (after_pass now q) q1"
    by (rule get_pass_ok [where now = now])
  have given: "mq_given q1 = mq_given q" using heap_only_simps(8) [OF q1(4)] by (simp add: after_pass_def)
  let ?f = "\<lambda>q. res_bind (get_pass now q) (\<lambda>(m, d, q). case m of Some m \<Rightarrow> Inr ([m], q) | None \<Rightarrow> K d q)"
  show "\<exists>r q' S. ?f q = Inr (r, q') \<and> S \<subseteq># G \<and> safe (X + (G - S) + mset (datas r)) q' \<and> total q' + mset (datas r) = total q + S \<and>
      mset (mq_given q') = mset (mq_given q) + S"
  proof (cases "first_ready now q")
    case None
    then have "safe (X + G) q1" "total q1 = total q" using q1 by (simp_all add: opt_list_def)
    then show ?thesis using assms q1(1) None given unfolding conserves_def by fastforce
  next
    case (Some m)
    then show ?thesis using q1 given by (intro exI [of _ "[m]"] exI [of _ q1] exI [of _ "{#}"]) (simp add: opt_list_def)
  qed
qed

definition taken :: "got \<Rightarrow> message list" where
  "taken g = g_removed g @ (case g_result g of Got m \<Rightarrow> [m] | _ \<Rightarrow> [])"

definition rounds_data :: "wait_round list \<Rightarrow> nat multiset" where
  "rounds_data rounds = sum_list (map (\<lambda>rd. ops_data (rd_check rd) + ops_data (rd_wait rd)) rounds)"

abbreviation out :: "got res \<Rightarrow> (message list \<times> mqueue) res" where
  "out r \<equiv> res_bind r (\<lambda>g. Inr (taken g, g_queue g))"

lemma res_bind_assoc: "res_bind (res_bind m f) g = res_bind m (\<lambda>x. res_bind (f x) g)"
  by (cases m) simp_all

text \<open>One round of the loop as a composition of its parts, for the messages handed out.\<close>

lemma out_get_loop:
  "out (get_loop cmsWait msStart msCurrent cmsElapsed [] q) =
     res_bind (get_pass msCurrent q) (\<lambda>(m, d, q). case m of Some m \<Rightarrow> Inr ([m], q) | None \<Rightarrow> Inr ([], q))"
  "out (get_loop cmsWait msStart msCurrent cmsElapsed (rd # rounds) q) =
     res_bind (get_pass msCurrent q) (\<lambda>(m, d, q). case m of Some m \<Rightarrow> Inr ([m], q) | None \<Rightarrow>
       res_bind (mq_execs (rd_check rd) q) (\<lambda>(r, q). res_bind (if IsQuitting q then Inr ([], q) else
         res_bind (mq_execs (rd_wait rd) q) (\<lambda>(r, q). res_bind
           (if \<not> rd_ok rd \<or> cmsWait \<noteq> kForever \<and> TimeDiff (rd_now rd) msStart \<ge> cmsWait then Inr ([], q)
            else out (get_loop cmsWait msStart (rd_now rd) (TimeDiff (rd_now rd) msStart) rounds q))
           (\<lambda>(rs, q). Inr (r @ rs, q)))) (\<lambda>(rs, q). Inr (r @ rs, q))))"
proof -
  show "out (get_loop cmsWait msStart msCurrent cmsElapsed [] q) =
     res_bind (get_pass msCurrent q) (\<lambda>(m, d, q). case m of Some m \<Rightarrow> Inr ([m], q) | None \<Rightarrow> Inr ([], q))"
    by (cases "get_pass msCurrent q") (auto simp: get_loop.simps taken_def split: option.splits)
  show "out (get_loop cmsWait msStart msCurrent cmsElapsed (rd # rounds) q) =
     res_bind (get_pass msCurrent q) (\<lambda>(m, d, q). case m of Some m \<Rightarrow> Inr ([m], q) | None \<Rightarrow>
       res_bind (mq_execs (rd_check rd) q) (\<lambda>(r, q). res_bind (if IsQuitting q then Inr ([], q) else
         res_bind (mq_execs (rd_wait rd) q) (\<lambda>(r, q). res_bind
           (if \<not> rd_ok rd \<or> cmsWait \<noteq> kForever \<and> TimeDiff (rd_now rd) msStart \<ge> cmsWait then Inr ([], q)
            else out (get_loop cmsWait msStart (rd_now rd) (TimeDiff (rd_now rd) msStart) rounds q))
           (\<lambda>(rs, q). Inr (r @ rs, q)))) (\<lambda>(rs, q). Inr (r @ rs, q))))"
  proof (cases "get_pass msCurrent q")
    case (Inr x)
    obtain m d q1 where x: "x = (m, d, q1)" by (cases x)
    show ?thesis
    proof (cases "m = None \<and> (\<exists>y. mq_execs (rd_check rd) q1 = Inr y)")
      case True
      then obtain r1 q2 where e: "m = None" "mq_execs (rd_check rd) q1 = Inr (r1, q2)" by auto
      show ?thesis
      proof (cases "mq_execs (rd_wait rd) q2")
        case w: (Inr y)
        obtain r2 q3 where y: "y = (r2, q3)" by (cases y)
        show ?thesis
          by (cases "get_loop cmsWait msStart (rd_now rd) (TimeDiff (rd_now rd) msStart) rounds q3"; cases "cmsWait = kForever")
            (simp_all add: Inr x e w y get_loop.simps [of _ _ _ _ "rd # rounds"] taken_def Let_def)
      qed (simp add: Inr x e get_loop.simps [of _ _ _ _ "rd # rounds"] taken_def Let_def)
    next
      case False
      then show ?thesis
        by (cases m; cases "mq_execs (rd_check rd) q1") (auto simp: Inr x get_loop.simps [of _ _ _ _ "rd # rounds"] taken_def)
    qed
  qed (simp add: get_loop.simps [of _ _ _ _ "rd # rounds"])
qed

lemma get_loop_conserves: "conserves (rounds_data rounds) (\<lambda>q. out (get_loop cmsWait msStart msCurrent cmsElapsed rounds q))"
proof (induction rounds arbitrary: msCurrent cmsElapsed)
  case Nil
  show ?case unfolding out_get_loop by (intro get_pass_conserves conserves_id)
next
  case (Cons rd rounds)
  have d: "rounds_data (rd # rounds) = ops_data (rd_check rd) + (ops_data (rd_wait rd) + rounds_data rounds)" by (simp add: rounds_data_def ac_simps)
  show ?case unfolding out_get_loop d
    by (intro get_pass_conserves conserves_then [OF mq_execs_conserves] conserves_if conserves_id Cons.IH)
qed

text \<open>Other threads never set the peeked message, so it is gone while \<open>Get\<close> runs.\<close>

lemma delete_data_heap: "delete_data p q = Inr q' \<Longrightarrow> heap_only q q'"
  by (auto simp: delete_data_def heap_only_def split: option.splits if_splits)

lemma take_out_heap: "take_out keep ms q = Inr (r, q') \<Longrightarrow> heap_only q q'"
proof (induction ms arbitrary: q r)
  case (Cons m ms)
  then show ?case by (auto simp: res_bind_Inr_iff split: if_splits intro: heap_only_trans dest: delete_data_heap)
qed simp

lemma no_peek_exec:
  assumes "\<not> fPeekKeep q" "mq_exec x q = Inr (r, q')"
  shows "\<not> fPeekKeep q'"
proof -
  have post: "\<not> fPeekKeep q'" if "Post m q = Inr q'" for m
    using that assms(1) by (auto simp: Post_def Let_def WakeUpSocketServer_def heap_only_simps dest!: delete_data_heap split: if_splits)
  have delay: "\<not> fPeekKeep q'" if "DoDelayPost d t m q = Inr q'" for d t m
    using that assms(1) by (auto simp: DoDelayPost_def Let_def WakeUpSocketServer_def heap_only_simps dest!: delete_data_heap split: if_splits)
  have clear: "\<not> fPeekKeep q'" if "ClearInternal h i keep q = Inr (r, q')" for h i keep
    using that assms(1) by (auto simp: ClearInternal_def res_bind_Inr_iff Let_def heap_only_simps dest!: take_out_heap)
  show ?thesis using assms post delay clear
    by (cases x) (auto simp: res_bind_Inr_iff PostDelayed_def PostAt_def Dispose_def Clear_def Quit_def Restart_def WakeUpSocketServer_def split: if_splits)
qed

lemma no_peek_execs: "\<not> fPeekKeep q \<Longrightarrow> mq_execs xs q = Inr (r, q') \<Longrightarrow> \<not> fPeekKeep q'"
  by (induction xs arbitrary: q r) (auto simp: res_bind_Inr_iff dest: no_peek_exec)

lemma no_peek_pull: "\<not> fPeekKeep q \<Longrightarrow> pull_from ms q = Inr (m, q') \<Longrightarrow> \<not> fPeekKeep q'"
proof (induction ms arbitrary: q)
  case (Cons a ms)
  then show ?case
    by (cases "disposal a") (auto simp: Let_def res_bind_Inr_iff dest!: delete_data_heap heap_only_simps(1))
qed simp

lemma no_peek_pass: "\<not> fPeekKeep q \<Longrightarrow> get_pass now q = Inr (m, d, q') \<Longrightarrow> \<not> fPeekKeep q'"
  by (auto simp: get_pass_def Let_def pull_def due_loop_spec res_bind_Inr_iff dest: no_peek_pull [rotated])

text \<open>How a call of the loop ends.\<close>

lemma get_loop_Nil_cases:
  assumes "get_loop w s c e [] q = Inr g"
  obtains m d q1 where "get_pass c q = Inr (m, d, q1)"
    "g = \<lparr>g_result = (case m of Some msg \<Rightarrow> Got msg | None \<Rightarrow> if IsQuitting q1 then No_message else Waiting), g_waits = [], g_removed = [], g_queue = q1\<rparr>"
  using assms by (auto simp: get_loop.simps [of _ _ _ _ "[]"] res_bind_Inr_iff split: option.splits)

lemma get_loop_Cons_cases:
  assumes "get_loop w s c e (rd # rounds) q = Inr g"
  obtains (got) m d q1 where "get_pass c q = Inr (Some m, d, q1)" "g = \<lparr>g_result = Got m, g_waits = [], g_removed = [], g_queue = q1\<rparr>"
  | (quit) d q1 r q2 where "get_pass c q = Inr (None, d, q1)" "mq_execs (rd_check rd) q1 = Inr (r, q2)" "IsQuitting q2"
      "g = \<lparr>g_result = No_message, g_waits = [], g_removed = r, g_queue = q2\<rparr>"
  | (stop) d q1 r q2 r' q3 where "get_pass c q = Inr (None, d, q1)" "mq_execs (rd_check rd) q1 = Inr (r, q2)" "\<not> IsQuitting q2"
      "mq_execs (rd_wait rd) q2 = Inr (r', q3)" "\<not> rd_ok rd \<or> w \<noteq> kForever \<and> w \<le> TimeDiff (rd_now rd) s"
      "g = \<lparr>g_result = No_message, g_waits = [i32 (wait_time w e d)], g_removed = r @ r', g_queue = q3\<rparr>"
  | (again) d q1 r q2 r' q3 g' where "get_pass c q = Inr (None, d, q1)" "mq_execs (rd_check rd) q1 = Inr (r, q2)" "\<not> IsQuitting q2"
      "mq_execs (rd_wait rd) q2 = Inr (r', q3)" "rd_ok rd" "w = kForever \<or> TimeDiff (rd_now rd) s < w"
      "get_loop w s (rd_now rd) (TimeDiff (rd_now rd) s) rounds q3 = Inr g'"
      "g = g'\<lparr>g_waits := i32 (wait_time w e d) # g_waits g', g_removed := r @ r' @ g_removed g'\<rparr>"
proof -
  note eq = assms [unfolded get_loop.simps [of w s c e "rd # rounds" q]]
  obtain m d q1 where p: "get_pass c q = Inr (m, d, q1)" using eq by (cases "get_pass c q") auto
  show ?thesis
  proof (cases m)
    case (Some msg)
    then show ?thesis using got p eq by auto
  next
    case None
    then obtain r q2 where q2: "mq_execs (rd_check rd) q1 = Inr (r, q2)" using eq p by (auto simp: res_bind_Inr_iff)
    show ?thesis
    proof (cases "IsQuitting q2")
      case True
      then show ?thesis using quit p None q2 eq by auto
    next
      case False
      then obtain r' q3 where q3: "mq_execs (rd_wait rd) q2 = Inr (r', q3)" using eq p None q2 by (auto simp: res_bind_Inr_iff Let_def)
      show ?thesis
      proof (cases "\<not> rd_ok rd \<or> w \<noteq> kForever \<and> w \<le> TimeDiff (rd_now rd) s")
        case True
        then show ?thesis using stop [of d q1 r q2 r' q3] p None q2 False q3 eq by (auto simp: Let_def split: if_splits)
      next
        case c: False
        then obtain g' where "get_loop w s (rd_now rd) (TimeDiff (rd_now rd) s) rounds q3 = Inr g'"
          "g = g'\<lparr>g_waits := i32 (wait_time w e d) # g_waits g', g_removed := r @ r' @ g_removed g'\<rparr>"
          using p None q2 False q3 eq by (auto simp: Let_def res_bind_Inr_iff)
        then show ?thesis using again [of d q1 r q2 r' q3 g'] p None q2 False q3 c by auto
      qed
    qed
  qed
qed

lemma no_peek_get_loop: "\<not> fPeekKeep q \<Longrightarrow> get_loop w s c e rounds q = Inr g \<Longrightarrow> \<not> fPeekKeep (g_queue g)"
proof (induction rounds arbitrary: c e q g)
  case Nil
  from Nil.prems(2) show ?case by (cases rule: get_loop_Nil_cases) (use Nil.prems(1) no_peek_pass in auto)
next
  case (Cons rd rounds)
  from Cons.prems(2) show ?case
  proof (cases rule: get_loop_Cons_cases)
    case (again d q1 r q2 r' q3 g')
    have "\<not> fPeekKeep q3" using no_peek_pass [OF Cons.prems(1) again(1)] again(2,4) by (metis no_peek_execs)
    then show ?thesis using Cons.IH again(7,8) by simp
  qed (use Cons.prems(1) in \<open>auto dest: no_peek_pass intro: no_peek_execs\<close>, metis no_peek_execs no_peek_pass)+
qed

text \<open>The peeked message is returned.\<close>

lemma peeked_returned:
  assumes "safe X q" "fPeekKeep q"
  shows "safe (X + mset (datas [msgPeek q])) (q\<lparr>fPeekKeep := False\<rparr>) \<and>
    total (q\<lparr>fPeekKeep := False\<rparr>) + mset (datas [msgPeek q]) = total q"
proof -
  have "owned q = mset (datas [msgPeek q]) + owned (q\<lparr>fPeekKeep := False\<rparr>)" using assms(2) by (cases "pdata (msgPeek q)") (simp_all add: owned_def held_def)
  then show ?thesis using assms(1) by (simp add: lives_def total_def ac_simps)
qed

lemma Get_conserves: "conserves (rounds_data rounds) (\<lambda>q. out (Get cmsWait now rounds q))"
  unfolding conserves_def
proof (intro allI impI)
  fix X q assume safe: "safe (X + rounds_data rounds) q"
  show "\<exists>r q' S. out (Get cmsWait now rounds q) = Inr (r, q') \<and> S \<subseteq># rounds_data rounds \<and>
      safe (X + (rounds_data rounds - S) + mset (datas r)) q' \<and> total q' + mset (datas r) = total q + S \<and>
      mset (mq_given q') = mset (mq_given q) + S"
  proof (cases "fPeekKeep q")
    case True
    then show ?thesis using peeked_returned [OF safe True]
      by (intro exI [of _ "[msgPeek q]"] exI [of _ "q\<lparr>fPeekKeep := False\<rparr>"] exI [of _ "{#}"]) (simp add: Get_def taken_def)
  next
    case False
    then show ?thesis using get_loop_conserves [of rounds cmsWait now now 0] safe unfolding conserves_def by (simp add: Get_def)
  qed
qed

lemma Peek_conserves: "conserves (rounds_data rounds) (\<lambda>q. res_bind (Peek cmsWait now rounds q) (\<lambda>g. Inr (g_removed g, g_queue g)))"
  unfolding conserves_def
proof (intro allI impI)
  fix X q assume safe: "safe (X + rounds_data rounds) q"
  let ?f = "\<lambda>q. res_bind (Peek cmsWait now rounds q) (\<lambda>g. Inr (g_removed g, g_queue g))"
  show "\<exists>r q' S. ?f q = Inr (r, q') \<and> S \<subseteq># rounds_data rounds \<and>
      safe (X + (rounds_data rounds - S) + mset (datas r)) q' \<and> total q' + mset (datas r) = total q + S \<and>
      mset (mq_given q') = mset (mq_given q) + S"
  proof (cases "fPeekKeep q")
    case True
    then show ?thesis using safe by (intro exI [of _ "[]"] exI [of _ q] exI [of _ "{#}"]) (simp add: Peek_def)
  next
    case False
    obtain r q1 S where o: "out (Get cmsWait now rounds q) = Inr (r, q1)" "S \<subseteq># rounds_data rounds"
      "safe (X + (rounds_data rounds - S) + mset (datas r)) q1" "total q1 + mset (datas r) = total q + S"
      "mset (mq_given q1) = mset (mq_given q) + S"
      using Get_conserves safe unfolding conserves_def by blast
    then obtain g where g: "Get cmsWait now rounds q = Inr g" "r = taken g" "q1 = g_queue g" by (auto simp: res_bind_Inr_iff)
    have np: "\<not> fPeekKeep q1" using no_peek_get_loop [OF False] g False by (simp add: Get_def)
    show ?thesis
    proof (cases "g_result g")
      case (Got m)
      let ?q = "q1\<lparr>msgPeek := m, fPeekKeep := True\<rparr>"
      have "owned ?q = owned q1 + mset (datas [m])" using np by (auto simp: owned_def held_def split: option.splits)
      moreover have "mset (datas r) = mset (datas (g_removed g)) + mset (datas [m])" using g Got by (simp add: taken_def)
      ultimately show ?thesis using o(2-5) g Got False
        by (intro exI [of _ "g_removed g"] exI [of _ ?q] exI [of _ S]) (simp add: Peek_def lives_def total_def ac_simps)
    qed (use o g False in \<open>auto simp: Peek_def taken_def\<close>)
  qed
qed

section \<open>Runs\<close>

text \<open>What the threads that use a queue do, in any order; the thread that serves it also gets and peeks.\<close>

datatype mq_act = Act_other mq_op | Act_get int int "wait_round list" | Act_peek int int "wait_round list"

fun act_exec :: "mq_act \<Rightarrow> mqueue \<Rightarrow> (message list \<times> mqueue) res" where
  "act_exec (Act_other x) q = mq_exec x q"
| "act_exec (Act_get cmsWait now rounds) q = out (Get cmsWait now rounds q)"
| "act_exec (Act_peek cmsWait now rounds) q = res_bind (Peek cmsWait now rounds q) (\<lambda>g. Inr (g_removed g, g_queue g))"

fun acts_exec :: "mq_act list \<Rightarrow> mqueue \<Rightarrow> (message list \<times> mqueue) res" where
  "acts_exec [] q = Inr ([], q)"
| "acts_exec (a # as) q = res_bind (act_exec a q) (\<lambda>(r, q). res_bind (acts_exec as q) (\<lambda>(rs, q). Inr (r @ rs, q)))"

text \<open>The data handed to a queue in a run.\<close>

fun act_data :: "mq_act \<Rightarrow> nat multiset" where
  "act_data (Act_other x) = op_data x"
| "act_data (Act_get cmsWait now rounds) = rounds_data rounds"
| "act_data (Act_peek cmsWait now rounds) = rounds_data rounds"

fun acts_data :: "mq_act list \<Rightarrow> nat multiset" where
  "acts_data [] = {#}"
| "acts_data (a # as) = act_data a + acts_data as"

lemma act_exec_conserves: "conserves (act_data a) (act_exec a)"
proof (cases a)
  case (Act_other x)
  then show ?thesis using mq_exec_conserves [of x] by (auto elim!: conserves_cong)
next
  case (Act_get cmsWait now rounds)
  then show ?thesis using Get_conserves [of rounds cmsWait now] by (auto elim!: conserves_cong)
next
  case (Act_peek cmsWait now rounds)
  then show ?thesis using Peek_conserves [of rounds cmsWait now] by (auto elim!: conserves_cong)
qed

lemma acts_exec_conserves: "conserves (acts_data as) (acts_exec as)"
proof (induction as)
  case Nil
  then show ?case using conserves_id [of "{#}"] by (auto elim!: conserves_cong)
next
  case (Cons a as)
  show ?case unfolding acts_data.simps by (rule conserves_cong, rule conserves_then [OF act_exec_conserves Cons.IH]) simp
qed

lemma cleared_all: "held (cleared None MQID_ANY q) = []"
  by (simp add: held_cleared msg_Match_def)

section \<open>Order and time\<close>

text \<open>A number of calls of \<open>Get\<close> at one time, with nothing done by others.\<close>

fun get_all :: "nat \<Rightarrow> int \<Rightarrow> int \<Rightarrow> mqueue \<Rightarrow> (get_result list \<times> mqueue) res" where
  "get_all 0 cmsWait now q = Inr ([], q)"
| "get_all (Suc n) cmsWait now q =
     res_bind (Get cmsWait now [] q) (\<lambda>g. res_bind (get_all n cmsWait now (g_queue g)) (\<lambda>(ms, q). Inr (g_result g # ms, q)))"

lemma due_not_due: "due now (not_due now ds) = []" "not_due now (not_due now ds) = not_due now ds"
proof -
  have "filter (\<lambda>d. dm_run_time_ms d \<le> now) (not_due now ds) = []" by (auto simp: not_due_def filter_empty_conv)
  then show "due now (not_due now ds) = []" by (simp add: due_def)
qed (simp add: not_due_def)

lemma get_one:
  assumes "safe X q" "\<not> fPeekKeep q"
  obtains q' where "Get cmsWait now [] q =
      Inr \<lparr>g_result = (case first_ready now q of Some m \<Rightarrow> Got m | None \<Rightarrow> if IsQuitting q then No_message else Waiting),
        g_waits = [], g_removed = [], g_queue = q'\<rparr>" "IsQuitting q' = IsQuitting q"
    "\<not> fPeekKeep q'" "safe (X + mset (datas (opt_list (first_ready now q)))) q'" "ready now q' = tl (dropWhile disposal (ready now q))"
    "messages q' = tl (dropWhile disposal (ready now q))" "delayed_messages q' = not_due now (delayed_messages q)"
proof -
  obtain q' where p: "get_pass now q = Inr (first_ready now q, next_delay now (not_due now (delayed_messages q)), q')"
    "heap_only (after_pass now q) q'" "safe (X + mset (datas (opt_list (first_ready now q)))) q'"
    by (rule get_pass_ok [OF assms(1), of now])
  have st: "IsQuitting q' = IsQuitting q" using heap_only_simps(5) [OF p(2)] by (simp add: IsQuitting_def after_pass_def)
  have "Get cmsWait now [] q =
      Inr \<lparr>g_result = (case first_ready now q of Some m \<Rightarrow> Got m | None \<Rightarrow> if IsQuitting q then No_message else Waiting),
        g_waits = [], g_removed = [], g_queue = q'\<rparr>"
    using assms(2) p(1) st by (simp add: Get_def get_loop.simps [of _ _ _ _ "[]"] split: option.split)
  then show ?thesis
    using that [of q'] p(3) st assms(2) heap_only_simps [OF p(2)] by (simp add: after_pass_def ready_def due_not_due)
qed

lemma get_all_in_order:
  assumes "safe X q" "\<not> fPeekKeep q"
  shows "\<exists>q'. get_all (Suc (length (filter (\<lambda>m. \<not> disposal m) (ready now q)))) cmsWait now q =
      Inr (map Got (filter (\<lambda>m. \<not> disposal m) (ready now q)) @ [if IsQuitting q then No_message else Waiting], q') \<and>
    messages q' = [] \<and> delayed_messages q' = not_due now (delayed_messages q)"
  using assms
proof (induction "length (ready now q)" arbitrary: X q rule: less_induct)
  case less
  define D where D: "D = dropWhile disposal (ready now q)"
  have R: "filter (\<lambda>m. \<not> disposal m) (ready now q) = filter (\<lambda>m. \<not> disposal m) D"
    unfolding D by (metis (no_types, lifting) filter_append filter_False append_Nil set_takeWhileD takeWhile_dropWhile_id)
  obtain q' where q': "Get cmsWait now [] q =
      Inr \<lparr>g_result = (case first_ready now q of Some m \<Rightarrow> Got m | None \<Rightarrow> if IsQuitting q then No_message else Waiting),
        g_waits = [], g_removed = [], g_queue = q'\<rparr>"
    "\<not> fPeekKeep q'" "safe (X + mset (datas (opt_list (first_ready now q)))) q'" "ready now q' = tl D" "messages q' = tl D"
    "delayed_messages q' = not_due now (delayed_messages q)" "IsQuitting q' = IsQuitting q"
    using get_one [OF less.prems, of cmsWait now] unfolding D by metis
  show ?case
  proof (cases D)
    case Nil
    have "first_ready now q = None" using Nil unfolding D by (simp only: list.case)
    then show ?thesis using q' Nil unfolding R by (simp only:) simp
  next
    case (Cons m rest)
    have "first_ready now q = Some m" using Cons unfolding D by (simp only: list.case)
    moreover have "\<not> disposal m" using hd_dropWhile [of disposal "ready now q"] Cons unfolding D [symmetric] by (simp del: dropWhile_eq_Nil_conv)
    moreover have "length (ready now q') < length (ready now q)"
      using q'(4) Cons length_dropWhile_le [of disposal "ready now q"] unfolding D by simp
    from less.hyps [OF this q'(3,2)] obtain q2 where
      "get_all (Suc (length (filter (\<lambda>m. \<not> disposal m) rest))) cmsWait now q' =
        Inr (map Got (filter (\<lambda>m. \<not> disposal m) rest) @ [if IsQuitting q then No_message else Waiting], q2)"
      "messages q2 = []" "delayed_messages q2 = not_due now (delayed_messages q')" using q'(4,7) Cons by auto
    ultimately show ?thesis using q'(1,6) Cons by (simp add: R due_not_due)
  qed
qed

text \<open>How long \<open>Get\<close> waits, and when it gives up.\<close>

lemma next_delay_range:
  assumes "get_pass now q = Inr (m, d, q')"
  shows "d = kForever \<or> 0 < d"
proof -
  have d: "d = next_delay now (not_due now (delayed_messages q))"
    using assms by (auto simp: get_pass_def due_loop_spec res_bind_Inr_iff)
  have "now < dm_run_time_ms (pq_top ds)" if "ds \<noteq> []" "ds = not_due now (delayed_messages q)" for ds
    using pq_top_in [OF that(1)] that(2) by (auto simp: not_due_def)
  then show ?thesis unfolding d next_delay_def by auto
qed

lemma wait_time_range:
  assumes "0 \<le> w" "w < 2147483648" "0 \<le> e" "d = kForever \<or> 0 < d"
  shows "0 \<le> i32 (wait_time w e d) \<and> i32 (wait_time w e d) \<le> max 0 (w - e) \<and> (d \<noteq> kForever \<longrightarrow> i32 (wait_time w e d) \<le> d)"
proof -
  have "0 \<le> wait_time w e d \<and> wait_time w e d \<le> max 0 (w - e) \<and> (d \<noteq> kForever \<longrightarrow> wait_time w e d \<le> d)"
    using assms by (auto simp: wait_time_def kForever_def Let_def)
  moreover have "max 0 (w - e) < 2147483648" using assms by simp
  ultimately show ?thesis by (subst (1 2 3) i32_id) auto
qed

lemma pull_not_disposal: "pull_from ms q = Inr (Some m, q') \<Longrightarrow> \<not> disposal m"
  by (induction ms arbitrary: q) (auto simp: Let_def res_bind_Inr_iff split: if_splits)

lemma get_pass_not_disposal: "get_pass now q = Inr (Some m, d, q') \<Longrightarrow> \<not> disposal m"
  by (auto simp: get_pass_def pull_def Let_def res_bind_Inr_iff dest: pull_not_disposal split: prod.splits)

lemma get_loop_timing:
  assumes "get_loop w s c e rounds q = Inr g" "0 \<le> w" "w < 2147483648" "0 \<le> e" "\<forall>rd \<in> set rounds. s \<le> rd_now rd"
  shows "(\<forall>x \<in> set (g_waits g). 0 \<le> x \<and> x \<le> w) \<and>
    (case g_result g of Got m \<Rightarrow> \<not> disposal m
     | No_message \<Rightarrow> IsQuitting (g_queue g) \<or> (\<exists>rd \<in> set rounds. \<not> rd_ok rd \<or> w \<le> rd_now rd - s)
     | Waiting \<Rightarrow> \<forall>rd \<in> set rounds. rd_ok rd \<and> rd_now rd - s < w)"
  using assms(1,4,5)
proof (induction rounds arbitrary: c e q g)
  case Nil
  from Nil.prems(1) show ?case by (cases rule: get_loop_Nil_cases) (auto split: option.split dest: get_pass_not_disposal)
next
  case (Cons rd rounds)
  have w: "w \<noteq> kForever" using assms(2) by (simp add: kForever_def)
  have bound: "0 \<le> i32 (wait_time w e d) \<and> i32 (wait_time w e d) \<le> w" if "get_pass c q = Inr (m, d, q1)" for m d q1
    using wait_time_range [OF assms(2,3) Cons.prems(2) next_delay_range [OF that]] assms(2) Cons.prems(2) by linarith
  from Cons.prems(1) show ?case
  proof (cases rule: get_loop_Cons_cases)
    case (stop d q1 r q2 r' q3)
    then show ?thesis using bound [OF stop(1)] w by (auto simp: TimeDiff_def)
  next
    case (again d q1 r q2 r' q3 g')
    have "0 \<le> TimeDiff (rd_now rd) s" using Cons.prems(3) by (simp add: TimeDiff_def)
    from Cons.IH [OF again(7) this] Cons.prems(3) show ?thesis
      using bound [OF again(1)] again(5,6,8) w by (auto simp: TimeDiff_def split: get_result.splits)
  qed (auto dest: get_pass_not_disposal)
qed

section \<open>Properties\<close>

text \<open>C25: whatever the users of a queue do, and whatever other threads do before and during each wait of \<open>Get\<close>, no message data is
  deleted twice or used after it was deleted, and none is lost: the objects handed over with a post or a disposal, to a stopped queue as well, are
  exactly those still queued, those returned with their message, and those deleted, each counted once. The clearing that ends the queue's life
  deletes what is still queued, so that then every object handed over was either returned or deleted.\<close>

theorem message_data_conserved:
  assumes "finite live" "acts_data as \<subseteq># mset_set live"
  shows "\<exists>r q q'. acts_exec as (Thread_new live) = Inr (r, q) \<and> ClearInternal None MQID_ANY False q = Inr ([], q') \<and>
    mset (mq_given q) = mset (datas (held q)) + mset (mq_deleted q) + mset (datas r) \<and>
    held q' = [] \<and> mset (mq_given q) = mset (mq_deleted q') + mset (datas r)"
proof -
  have new: "held (Thread_new live) = []" "mq_deleted (Thread_new live) = []" "mq_live (Thread_new live) = live"
    by (simp_all add: Thread_new_def held_def)
  have "safe ({#} + acts_data as) (Thread_new live)" using assms new by (simp add: lives_def owned_def)
  then obtain r q S where run: "acts_exec as (Thread_new live) = Inr (r, q)" "S \<subseteq># acts_data as"
    "safe ({#} + (acts_data as - S) + mset (datas r)) q" "total q + mset (datas r) = total (Thread_new live) + S"
    "mset (mq_given q) = mset (mq_given (Thread_new live)) + S"
    using acts_exec_conserves unfolding conserves_def by blast
  obtain q' where q': "ClearInternal None MQID_ANY False q = Inr ([], q')" "heap_only (cleared None MQID_ANY q) q'"
    "total q' + mset (datas []) = total q"
    by (rule ClearInternal_ok [OF run(3), of "[]" False None MQID_ANY]) simp_all
  have held: "held q' = []" using heap_only_simps(6) [OF q'(2)] by (simp add: cleared_all)
  have S: "S = total q + mset (datas r)" using run(4) new by (simp add: total_def owned_def)
  have g: "mset (mq_given q) = S" using run(5) by (simp add: Thread_new_def)
  from S have "S = mset (datas (held q)) + mset (mq_deleted q) + mset (datas r)" by (simp add: total_def owned_def add.commute)
  moreover have "S = mset (mq_deleted q') + mset (datas r)" using S q'(3) held by (simp add: total_def [of q'] owned_def [of q'])
  ultimately show ?thesis unfolding g [symmetric] using run(1) q'(1) held by blast
qed

theorem message_data_conserved_witness:
  "\<exists>r q q'. acts_exec [Act_other (Op_Post \<lparr>posted_from = [], phandler = Some 1, message_id = 5, pdata = Some 7\<rparr>), Act_get 0 0 []]
      (Thread_new {7}) = Inr (r, q) \<and> ClearInternal None MQID_ANY False q = Inr ([], q') \<and> mset (mq_given q) = mset (mq_deleted q') + mset (datas r)"
  using message_data_conserved [of "{7}" "[Act_other (Op_Post \<lparr>posted_from = [], phandler = Some 1, message_id = 5, pdata = Some 7\<rparr>), Act_get 0 0 []]"]
  by (auto simp: rounds_data_def)

text \<open>C26: messages come out in order. While no message is peeked, calls of \<open>Get\<close> at a time return, without waiting and whether the queue is
  stopping or not, every message that is ready and not a disposal, first the
  posted ones in the order of posting, then the delayed ones that are due by run time and then by number; a delayed message is never
  returned before its time. The call after them finds nothing: it returns false if the queue is stopping, and goes on to wait otherwise.\<close>

theorem messages_in_order:
  assumes "safe {#} q" "\<not> fPeekKeep q"
    and "R = filter (\<lambda>m. message_id m \<noteq> MQID_DISPOSE)
      (messages q @ map dm_msg (sort_key dm_key (filter (\<lambda>d. dm_run_time_ms d \<le> now) (delayed_messages q))))"
  shows "\<exists>q'. get_all (Suc (length R)) cmsWait now q = Inr (map Got R @ [if IsQuitting q then No_message else Waiting], q') \<and> messages q' = [] \<and>
    delayed_messages q' = filter (\<lambda>d. now < dm_run_time_ms d) (delayed_messages q)"
  using get_all_in_order [OF assms(1,2), of now cmsWait] unfolding assms(3) ready_def due_def not_due_def .

theorem messages_in_order_witness:
  "\<exists>q'. get_all 3 0 5 ((Thread_new {})\<lparr>
      messages := [\<lparr>posted_from = [], phandler = Some 1, message_id = 4, pdata = None\<rparr>],
      delayed_messages := [\<lparr>dm_delay_ms = 9, dm_run_time_ms = 9, dm_message_number = 0, dm_msg = Message_new\<rparr>,
        \<lparr>dm_delay_ms = 2, dm_run_time_ms = 2, dm_message_number = 1, dm_msg = Message_new\<lparr>message_id := 8\<rparr>\<rparr>]\<rparr>) =
    Inr ([Got \<lparr>posted_from = [], phandler = Some 1, message_id = 4, pdata = None\<rparr>, Got (Message_new\<lparr>message_id := 8\<rparr>), Waiting], q')"
  using messages_in_order [of "(Thread_new {})\<lparr>
      messages := [\<lparr>posted_from = [], phandler = Some 1, message_id = 4, pdata = None\<rparr>],
      delayed_messages := [\<lparr>dm_delay_ms = 9, dm_run_time_ms = 9, dm_message_number = 0, dm_msg = Message_new\<rparr>,
        \<lparr>dm_delay_ms = 2, dm_run_time_ms = 2, dm_message_number = 1, dm_msg = Message_new\<lparr>message_id := 8\<rparr>\<rparr>]\<rparr>" _ 5 0, OF _ _ refl]
  by (auto simp: lives_def owned_def held_def Thread_new_def Message_new_def MQID_DISPOSE_def IsQuitting_def numeral_3_eq_3)

text \<open>A call of \<open>Get\<close> with a finite time-out does not wait longer than asked for: every single wait is between 0 and the time-out, and the call
  is over as soon as a wait fails or the time has passed. It returns false only then or when the queue is stopping, and what it returns is never a disposal.\<close>

theorem get_honours_timeout:
  assumes "safe (rounds_data rounds) q" "\<not> fPeekKeep q" "0 \<le> cmsWait" "cmsWait < 2147483648" "\<forall>rd \<in> set rounds. now \<le> rd_now rd"
  shows "\<exists>g. Get cmsWait now rounds q = Inr g \<and> (\<forall>x \<in> set (g_waits g). 0 \<le> x \<and> x \<le> cmsWait) \<and>
    (case g_result g of Got m \<Rightarrow> message_id m \<noteq> MQID_DISPOSE
     | No_message \<Rightarrow> IsQuitting (g_queue g) \<or> (\<exists>rd \<in> set rounds. \<not> rd_ok rd \<or> cmsWait \<le> rd_now rd - now)
     | Waiting \<Rightarrow> \<forall>rd \<in> set rounds. rd_ok rd \<and> rd_now rd - now < cmsWait)"
proof -
  have "safe ({#} + rounds_data rounds) q" using assms(1) by simp
  then obtain x where "out (Get cmsWait now rounds q) = Inr x" using Get_conserves unfolding conserves_def by blast
  then obtain g where g: "Get cmsWait now rounds q = Inr g" by (cases "Get cmsWait now rounds q") auto
  from get_loop_timing [of cmsWait now now 0 rounds q g] g assms(2-) show ?thesis by (intro exI [of _ g]) (simp add: Get_def)
qed

theorem get_honours_timeout_witness:
  "\<exists>g. Get 10 0 [\<lparr>rd_check = [], rd_wait = [], rd_ok = True, rd_now = 10\<rparr>] (Thread_new {}) = Inr g \<and> (\<forall>x \<in> set (g_waits g). 0 \<le> x \<and> x \<le> 10)"
proof -
  let ?r = "[\<lparr>rd_check = [], rd_wait = [], rd_ok = True, rd_now = 10\<rparr>]"
  have "safe (rounds_data ?r) (Thread_new {})" by (simp add: rounds_data_def lives_def owned_def held_def Thread_new_def)
  then show ?thesis using get_honours_timeout [of "Thread_new {}" ?r 10 0] by (auto simp: Thread_new_def)
qed

text \<open>A message that is posted, and \<open>Quit\<close>, between the two tests of \<open>Get\<close>: the call returns false and leaves a message that is ready in the queue.\<close>

lemma quit_overtakes_ready_post:
  "\<exists>g. Get 0 0 [\<lparr>rd_check = [Op_Post Message_new, Op_Quit], rd_wait = [], rd_ok = True, rd_now = 0\<rparr>] (Thread_new {}) = Inr g \<and>
     g_result g = No_message \<and> messages (g_queue g) = [Message_new]"
proof -
  have p: "get_pass 0 (Thread_new {}) = Inr (None, kForever, Thread_new {})"
    by (simp add: get_pass_def due_loop_spec due_def not_due_def next_delay_def pull_def Thread_new_def)
  show ?thesis
    by (simp add: Get_def get_loop.simps [of _ _ _ _ "_ # _"] p) (simp add: Thread_new_def Post_def Message_new_def IsQuitting_def Quit_def WakeUpSocketServer_def)
qed

end
