(* ===== verification/Thread_Manager.thy ===== *)
theory Thread_Manager
  imports Message_Queue
begin

text \<open>
  \<open>rtc::ThreadManager\<close> and the part of \<open>rtc::Thread\<close> that deals with it: \<open>thread.h\<close> and \<open>thread.cc\<close> under
  \<open>src/xrtcserver/rtcbase/src/rtc_base\<close>. The manager keeps the list of message queues and, in a build with \<open>RTC_DCHECK_IS_ON\<close>, a graph of which
  thread sends to which; a send that would close a cycle in it is refused, since the threads of a cycle could wait for each other. \<open>Send\<close> has the
  build as an argument, \<open>checks\<close>: the repository builds the library with \<open>-DNDEBUG\<close>, without them. The other operations are those of the build with checks.

  Threads are objects on a heap, \<open>threads\<close>, with their message queues from \<open>Message_Queue\<close>. A failed check ends the program and is a fault.
  The loop that follows the graph is \<open>partial_function (option)\<close>: it runs forever on a graph with a cycle, and a value of \<open>None\<close> says so.
\<close>

section \<open>Definitions\<close>

subsection \<open>The send graph\<close>

type_synonym sends = "nat \<rightharpoonup> nat set"

text \<open>\<open>operator[]\<close> of the map makes an empty set for a thread that has none.\<close>

definition graph_at :: "nat \<Rightarrow> sends \<Rightarrow> nat set \<times> sends" where
  "graph_at t g = (case g t of Some s \<Rightarrow> (s, g) | None \<Rightarrow> ({}, g(t \<mapsto> {})))"

definition RemoveFromSendGraph :: "nat \<Rightarrow> sends \<Rightarrow> sends" where
  "RemoveFromSendGraph thread g = (\<lambda>t. if t = thread then None else map_option (\<lambda>s. s - {thread}) (g t))"

partial_function (option) collect_targets :: "nat \<Rightarrow> nat list \<Rightarrow> sends \<Rightarrow> (nat list \<times> sends) option" where
  "collect_targets i all_targets g =
     (if i < length all_targets
      then case graph_at (all_targets ! i) g of
             (targets, g) \<Rightarrow> collect_targets (Suc i) (all_targets @ sorted_list_of_set targets) g
      else Some (all_targets, g))"

definition RegisterSendAndCheckForCycles :: "ptr \<Rightarrow> ptr \<Rightarrow> sends \<Rightarrow> sends res option" where
  "RegisterSendAndCheckForCycles source target g =
     (case (source, target) of
        (Some s, Some t) \<Rightarrow>
          (case collect_targets 0 [t] g of None \<Rightarrow> None
           | Some (all_targets, g) \<Rightarrow>
               Some (if count_list all_targets s \<noteq> 0 then Inl Assert_failed
                     else let (targets, g) = graph_at s g in Inr (g(s \<mapsto> insert t targets))))
      | _ \<Rightarrow> Some (Inl Assert_failed))"

subsection \<open>Threads and their manager\<close>

record thread =
  th_queue :: mqueue
  blocking_call_count :: u32
  could_be_blocking_call_count :: u32
  allowed_threads :: "nat list"
  invoke_policy_enabled :: bool
  fInitialized :: bool
  fDestroyed :: bool
  blocking_calls_allowed :: bool
  queued_task_handler :: nat

record manager =
  message_queues :: "nat list"
  processing :: "64 word"
  send_graph :: sends
  threads :: "nat \<rightharpoonup> thread"

definition ThreadManager_new :: manager where
  "ThreadManager_new = \<lparr>message_queues = [], processing = 0, send_graph = Map.empty, threads = Map.empty\<rparr>"

definition AddInternal :: "nat \<Rightarrow> manager \<Rightarrow> manager res" where
  "AddInternal t m =
     (if processing m \<noteq> 0 then Inl Assert_failed else Inr (m\<lparr>message_queues := message_queues m @ [t]\<rparr>))"

definition RemoveInternal :: "nat \<Rightarrow> manager \<Rightarrow> manager res" where
  "RemoveInternal t m =
     (if processing m \<noteq> 0 then Inl Assert_failed
      else Inr (m\<lparr>message_queues := remove1 t (message_queues m), send_graph := RemoveFromSendGraph t (send_graph m)\<rparr>))"

text \<open>\<open>Clear\<close> with its default arguments, on every queue of the list.\<close>

fun clear_queues :: "ptr \<Rightarrow> nat list \<Rightarrow> (nat \<rightharpoonup> thread) \<Rightarrow> (nat \<rightharpoonup> thread) res" where
  "clear_queues handler [] ths = Inr ths"
| "clear_queues handler (t # ts) ths =
     (case ths t of None \<Rightarrow> Inl Use_after_free
      | Some th \<Rightarrow>
          res_bind (Clear handler MQID_ANY False (th_queue th)) (\<lambda>(_, q).
            clear_queues handler ts (ths(t \<mapsto> th\<lparr>th_queue := q\<rparr>))))"

definition ThreadManager_ClearInternal :: "ptr \<Rightarrow> manager \<Rightarrow> manager res" where
  "ThreadManager_ClearInternal handler m =
     (let m = m\<lparr>processing := processing m + 1\<rparr>
      in res_bind (clear_queues handler (message_queues m) (threads m)) (\<lambda>ths.
           Inr (m\<lparr>threads := ths, processing := processing m - 1\<rparr>)))"

definition DoInit :: "nat \<Rightarrow> manager \<Rightarrow> manager res" where
  "DoInit t m =
     (case threads m t of None \<Rightarrow> Inl Use_after_free
      | Some th \<Rightarrow>
          if fInitialized th then Inr m
          else AddInternal t (m\<lparr>threads := (threads m)(t \<mapsto> th\<lparr>fInitialized := True\<rparr>)\<rparr>))"

definition DoDestroy :: "nat \<Rightarrow> manager \<Rightarrow> manager res" where
  "DoDestroy t m =
     (case threads m t of None \<Rightarrow> Inl Use_after_free
      | Some th \<Rightarrow>
          if fDestroyed th then Inr m
          else let th = th\<lparr>fDestroyed := True\<rparr>
               in res_bind (RemoveInternal t m) (\<lambda>m.
                  res_bind (ClearInternal None MQID_ANY False (th_queue th)) (\<lambda>(_, q).
                    Inr (m\<lparr>threads := (threads m)(t \<mapsto> th\<lparr>th_queue := q\<rparr>)\<rparr>))))"

text \<open>A new thread at address \<open>t\<close>; \<open>live\<close> is the data that will be posted to it.\<close>

definition Thread_construct :: "nat \<Rightarrow> nat \<Rightarrow> nat set \<Rightarrow> bool \<Rightarrow> manager \<Rightarrow> manager res" where
  "Thread_construct t handler live do_init m =
     (let m = m\<lparr>threads := (threads m)(t \<mapsto>
            \<lparr>th_queue = Thread_new live, blocking_call_count = 0, could_be_blocking_call_count = 0, allowed_threads = [],
             invoke_policy_enabled = False, fInitialized = False, fDestroyed = False, blocking_calls_allowed = True,
             queued_task_handler = handler\<rparr>)\<rparr>
      in if do_init then DoInit t m else Inr m)"

text \<open>\<open>~Thread\<close>: stop, destroy, and the memory is gone. The system call that waits for the thread to end is not modelled.\<close>

definition Thread_delete :: "nat \<Rightarrow> manager \<Rightarrow> manager res" where
  "Thread_delete t m =
     (case threads m t of None \<Rightarrow> Inl Use_after_free
      | Some th \<Rightarrow>
          res_bind (DoDestroy t (m\<lparr>threads := (threads m)(t \<mapsto> th\<lparr>th_queue := Quit (th_queue th)\<rparr>)\<rparr>)) (\<lambda>m.
            Inr (m\<lparr>threads := (threads m)(t := None)\<rparr>)))"

subsection \<open>Sending\<close>

definition IsInvokeToThreadAllowed :: "nat \<Rightarrow> thread \<Rightarrow> bool" where
  "IsInvokeToThreadAllowed target th \<longleftrightarrow> \<not> invoke_policy_enabled th \<or> (\<exists>t \<in> set (allowed_threads th). t = target)"

text \<open>The calls of a thread on itself; from elsewhere they post a task that makes the call.\<close>

definition AllowInvokesToThread :: "nat \<Rightarrow> thread \<Rightarrow> thread" where
  "AllowInvokesToThread t th = th\<lparr>allowed_threads := allowed_threads th @ [t], invoke_policy_enabled := True\<rparr>"

definition DisallowAllInvokes :: "thread \<Rightarrow> thread" where
  "DisallowAllInvokes th = th\<lparr>allowed_threads := [], invoke_policy_enabled := True\<rparr>"

definition SetAllowBlockingCalls :: "bool \<Rightarrow> thread \<Rightarrow> bool \<times> thread" where
  "SetAllowBlockingCalls allow th = (blocking_calls_allowed th, th\<lparr>blocking_calls_allowed := allow\<rparr>)"

text \<open>A task goes into a new data object.\<close>

definition PostTask :: "string \<Rightarrow> nat \<Rightarrow> thread \<Rightarrow> thread res" where
  "PostTask here data th =
     (let q = th_queue th; q = q\<lparr>mq_live := insert data (mq_live q)\<rparr>
      in res_bind (Post \<lparr>posted_from = here, phandler = Some (queued_task_handler th), message_id = 0, pdata = Some data\<rparr> q) (\<lambda>q.
           Inr (th\<lparr>th_queue := q\<rparr>)))"

text \<open>
  \<open>Send\<close> up to the point where it waits: the handler is called at once on the own thread; otherwise the call becomes a task of the target, and
  the caller waits for it, on its socket server or, when it is no thread of the library, on an event.
\<close>

datatype send_result = Call_handler | Wait_ready | Wait_event | Send_returns

definition Send :: "bool \<Rightarrow> ptr \<Rightarrow> nat \<Rightarrow> string \<Rightarrow> nat \<Rightarrow> manager \<Rightarrow> (send_result \<times> manager) res option" where
  "Send checks current this here data m =
     (case threads m this of None \<Rightarrow> Some (Inl Use_after_free)
      | Some th \<Rightarrow>
          if IsQuitting (th_queue th) then Some (if checks then Inl Assert_failed else Inr (Send_returns, m))
          else if current = Some this
          then Some (if \<not> checks then Inr (Call_handler, m)
                     else if \<not> IsInvokeToThreadAllowed this th then Inl Assert_failed
                     else Inr (Call_handler, m\<lparr>threads := (threads m)(this \<mapsto> th\<lparr>could_be_blocking_call_count := could_be_blocking_call_count th + 1\<rparr>)\<rparr>))
          else
            let post = (\<lambda>r m. res_bind (PostTask here data th) (\<lambda>th. Inr (r, m\<lparr>threads := (threads m)(this \<mapsto> th)\<rparr>)))
            in (case current of None \<Rightarrow> Some (post Wait_event m)
                | Some c \<Rightarrow>
                    (case threads m c of None \<Rightarrow> Some (Inl Use_after_free)
                     | Some cur \<Rightarrow>
                         if \<not> checks then Some (post Wait_ready m)
                         else if \<not> blocking_calls_allowed cur then Some (Inl Assert_failed)
                         else let cur = cur\<lparr>blocking_call_count := blocking_call_count cur + 1\<rparr>
                              in if \<not> IsInvokeToThreadAllowed this cur then Some (Inl Assert_failed)
                                 else (case RegisterSendAndCheckForCycles (Some c) (Some this) (send_graph m) of None \<Rightarrow> None
                                       | Some (Inl e) \<Rightarrow> Some (Inl e)
                                       | Some (Inr g) \<Rightarrow> Some (post Wait_ready (m\<lparr>threads := (threads m)(c \<mapsto> cur), send_graph := g\<rparr>))))))"

section \<open>The graph as a relation\<close>

definition edges :: "sends \<Rightarrow> (nat \<times> nat) set" where
  "edges g = {(a, b). \<exists>s. g a = Some s \<and> b \<in> s}"

lemma edges_empty [simp]: "edges Map.empty = {}"
  by (simp add: edges_def)

lemma graph_at_edges: "graph_at t g = (s, g') \<Longrightarrow> edges g' = edges g \<and> g' t = Some s \<and> s = edges g `` {t}"
  by (auto simp: graph_at_def edges_def split: option.splits if_splits)

lemma edges_insert: "graph_at a g = (s, g') \<Longrightarrow> edges (g'(a \<mapsto> insert b s)) = insert (a, b) (edges g)"
  by (auto simp: graph_at_def edges_def split: option.splits if_splits)

lemma edges_remove: "edges (RemoveFromSendGraph t g) = {(a, b) \<in> edges g. a \<noteq> t \<and> b \<noteq> t}"
  by (auto simp: RemoveFromSendGraph_def edges_def split: if_splits)

text \<open>
  The loop over the growing list: the entries still to be followed are a multiset in which each round replaces one thread by the threads it sends to,
  which are smaller when the graph has no cycle.
\<close>

lemma collect_targets_ends:
  assumes "finite E" "acyclic E" "edges g = E"
  shows "\<exists>ys g'. collect_targets i xs g = Some (xs @ ys, g') \<and> edges g' = E \<and> set ys = E\<^sup>+ `` set (drop i xs)"
  using assms(3)
proof (induction "mset (drop i xs)" arbitrary: i xs g rule: wf_induct_rule [OF wf_mult [OF finite_acyclic_wf_converse [OF assms(1,2)]]])
  case 1
  show ?case
  proof (cases "i < length xs")
    case True
    obtain s g1 where at: "graph_at (xs ! i) g = (s, g1)" by fastforce
    from graph_at_edges [OF at] 1(2) have s: "edges g1 = E" "s = E `` {xs ! i}" by auto
    have fin: "finite s" using s(2) assms(1) by (simp add: finite_Image)
    have drop: "drop i xs = xs ! i # drop (Suc i) xs" using True by (simp add: Cons_nth_drop_Suc)
    have "(mset (drop (Suc i) xs) + mset (sorted_list_of_set s), mset (drop (Suc i) xs) + {#xs ! i#}) \<in> mult (E\<inverse>)"
      by (rule one_step_implies_mult) (use s(2) fin in auto)
    then have "(mset (drop (Suc i) (xs @ sorted_list_of_set s)), mset (drop i xs)) \<in> mult (E\<inverse>)" using True by (simp add: drop)
    from 1(1) [OF this s(1)] obtain ys g' where ys:
      "collect_targets (Suc i) (xs @ sorted_list_of_set s) g1 = Some ((xs @ sorted_list_of_set s) @ ys, g')" "edges g' = E"
      "set ys = E\<^sup>+ `` set (drop (Suc i) (xs @ sorted_list_of_set s))" by blast
    have "set (sorted_list_of_set s @ ys) = E\<^sup>+ `` set (drop i xs)"
      unfolding drop using ys(3) True fin s(2) by (auto intro: trancl_into_trancl2 dest: tranclD2 elim: converse_tranclE)
    then show ?thesis using ys(1,2) True at
      by (intro exI [of _ "sorted_list_of_set s @ ys"] exI [of _ g']) (simp add: collect_targets.simps [of i xs])
  qed (use 1(2) in \<open>simp add: collect_targets.simps [of i xs]\<close>)
qed

lemma register_send:
  assumes "finite (edges g)" "acyclic (edges g)"
  shows "\<exists>r. RegisterSendAndCheckForCycles (Some s) (Some t) g = Some r \<and>
    (if (t, s) \<in> (edges g)\<^sup>* then r = Inl Assert_failed else \<exists>g'. r = Inr g' \<and> edges g' = insert (s, t) (edges g))"
proof -
  from collect_targets_ends [OF assms refl, of 0 "[t]"] obtain ys g1 where
    c: "collect_targets 0 [t] g = Some (t # ys, g1)" "edges g1 = edges g" "set ys = (edges g)\<^sup>+ `` {t}" by auto
  have "count_list (t # ys) s \<noteq> 0 \<longleftrightarrow> (t, s) \<in> (edges g)\<^sup>*"
    using c(3) by (simp only: count_list_0_iff) (auto simp: rtrancl_eq_or_trancl)
  moreover obtain u g2 where "graph_at s g1 = (u, g2)" by fastforce
  ultimately show ?thesis using c(1,2) edges_insert [of s g1 u g2 t]
    by (auto simp: RegisterSendAndCheckForCycles_def simp del: count_list.simps)
qed

section \<open>Waiting threads\<close>

text \<open>
  The threads that are waiting in \<open>Send\<close>, each with the thread it waits for. A wait ends when the target, which is not waiting itself, has run the task,
  or when the target is destroyed: its queue is cleared, and deleting the task sets the flag the caller waits for. What else the threads do does not
  change the graph.
\<close>

inductive send_step :: "bool \<Rightarrow> manager \<times> (nat \<rightharpoonup> nat) \<Rightarrow> manager \<times> (nat \<rightharpoonup> nat) \<Rightarrow> bool" for checks :: bool where
  begin_send: "w c = None \<Longrightarrow> Send checks (Some c) t here data m = Some (Inr (Wait_ready, m')) \<Longrightarrow> send_step checks (m, w) (m', w(c \<mapsto> t))"
| end_send: "w c = Some t \<Longrightarrow> w t = None \<Longrightarrow> send_step checks (m, w) (m, w(c := None))"
| remove: "w t = None \<Longrightarrow> RemoveInternal t m = Inr m' \<Longrightarrow>
    send_step checks (m, w) (m', \<lambda>c. if w c = Some t then None else w c)"
| other: "send_graph m' = send_graph m \<Longrightarrow> send_step checks (m, w) (m', w)"

inductive send_reachable :: "bool \<Rightarrow> manager \<times> (nat \<rightharpoonup> nat) \<Rightarrow> bool" for checks :: bool where
  start: "send_reachable checks (ThreadManager_new, Map.empty)"
| step: "send_reachable checks s \<Longrightarrow> send_step checks s s' \<Longrightarrow> send_reachable checks s'"

inductive_cases send_step_cases: "send_step checks (m, w) s'"

definition sends_ok :: "manager \<times> (nat \<rightharpoonup> nat) \<Rightarrow> bool" where
  "sends_ok s \<longleftrightarrow>
     finite (edges (send_graph (fst s))) \<and> acyclic (edges (send_graph (fst s))) \<and>
     (\<forall>c t. snd s c = Some t \<longrightarrow> (c, t) \<in> edges (send_graph (fst s)))"

lemma Send_edges:
  assumes "Send True (Some c) t here data m = Some (Inr (Wait_ready, m'))" "finite (edges (send_graph m))" "acyclic (edges (send_graph m))"
  shows "edges (send_graph m') = insert (c, t) (edges (send_graph m)) \<and> (t, c) \<notin> (edges (send_graph m))\<^sup>*"
proof -
  obtain g where "RegisterSendAndCheckForCycles (Some c) (Some t) (send_graph m) = Some (Inr g)" "send_graph m' = g"
    using assms(1) by (auto simp: Send_def Let_def res_bind_Inr_iff split: option.splits if_splits sum.splits)
  then show ?thesis using register_send [OF assms(2,3), of c t] by (auto split: if_splits)
qed

lemma send_step_ok: "send_step True s s' \<Longrightarrow> sends_ok s \<Longrightarrow> sends_ok s'"
proof (induction rule: send_step.induct)
  case (begin_send w c t here data m m')
  then have "finite (edges (send_graph m))" "acyclic (edges (send_graph m))" by (simp_all add: sends_ok_def)
  from Send_edges [OF begin_send(2) this] begin_send(3) show ?case
    by (auto simp: sends_ok_def acyclic_insert split: if_splits)
next
  case (end_send w c t m)
  then show ?case by (auto simp: sends_ok_def split: if_splits)
next
  case (remove w t m m')
  have e: "edges (send_graph m') = {(a, b) \<in> edges (send_graph m). a \<noteq> t \<and> b \<noteq> t}"
    using remove(2) by (auto simp: RemoveInternal_def edges_remove split: if_splits)
  have "edges (send_graph m') \<subseteq> edges (send_graph m)" unfolding e by auto
  then have "finite (edges (send_graph m'))" "acyclic (edges (send_graph m'))"
    using remove(3) finite_subset acyclic_subset unfolding sends_ok_def by fastforce+
  moreover have "\<forall>c u. (if w c = Some t then None else w c) = Some u \<longrightarrow> (c, u) \<in> edges (send_graph m')"
    using remove(1,3) unfolding e by (auto simp: sends_ok_def split: if_splits)
  ultimately show ?case by (simp add: sends_ok_def)
next
  case (other m' m w)
  then show ?case by (simp add: sends_ok_def)
qed

lemma send_reachable_ok: "send_reachable True s \<Longrightarrow> sends_ok s"
proof (induction rule: send_reachable.induct)
  case start
  show ?case by (simp add: sends_ok_def ThreadManager_new_def acyclic_def)
next
  case (step s s')
  from step(2,3) show ?case by (rule send_step_ok)
qed

text \<open>Without a cycle, some thread waits for one that does not wait.\<close>

lemma acyclic_wait_ends:
  assumes "finite E" "acyclic E" "\<And>c t. w c = Some t \<Longrightarrow> (c, t) \<in> E" "w c = Some t"
  shows "\<exists>c t. w c = Some t \<and> w t = None"
proof -
  have "wf (E\<inverse>)" using assms(1,2) by (rule finite_acyclic_wf_converse)
  then obtain z where z: "z \<in> dom w" "\<And>y. (y, z) \<in> E\<inverse> \<Longrightarrow> y \<notin> dom w"
    using assms(4) by (elim wfE_min [where Q = "dom w" and x = c]) auto
  from z(1) obtain y where y: "w z = Some y" by auto
  then have "y \<notin> dom w" using assms(3) z(2) by simp
  then show ?thesis using y by (auto simp: domIff)
qed

text \<open>Two threads that wait for each other go on waiting, whatever the others do.\<close>

lemma mutual_wait_step:
  assumes "send_step checks (m, w) (m', w')" "w a = Some b" "w b = Some a"
  shows "w' a = Some b \<and> w' b = Some a"
  using assms(1)
proof (cases rule: send_step_cases)
qed (use assms(2,3) in auto)

lemma mutual_wait_stays:
  assumes "(send_step checks)\<^sup>*\<^sup>* (m, w) (m', w')" "w a = Some b" "w b = Some a"
  shows "w' a = Some b \<and> w' b = Some a"
  using assms(1)
proof (induction "(m', w')" arbitrary: m' w' rule: rtranclp_induct)
  case base
  then show ?case using assms(2,3) by simp
next
  case (step s)
  obtain m1 w1 where s: "s = (m1, w1)" by (cases s)
  from step.hyps(3) [OF s] mutual_wait_step [of checks m1 w1 m' w' a b] step.hyps(2) s show ?case by simp
qed

section \<open>Live threads\<close>

definition mgr_ok :: "manager \<Rightarrow> bool" where
  "mgr_ok m \<longleftrightarrow>
     processing m = 0 \<and> distinct (message_queues m) \<and> set (message_queues m) \<subseteq> dom (threads m) \<and>
     (\<forall>t th. threads m t = Some th \<longrightarrow> \<not> fDestroyed th \<and> safe {#} (th_queue th) \<and> (fInitialized th \<longleftrightarrow> t \<in> set (message_queues m)))"

text \<open>Clearing a handler in every queue of a list.\<close>

definition cleared_of :: "ptr \<Rightarrow> thread \<Rightarrow> thread \<Rightarrow> bool" where
  "cleared_of handler th th' \<longleftrightarrow>
     (\<exists>q. th' = th\<lparr>th_queue := q\<rparr> \<and> held q = filter (\<lambda>m. \<not> msg_Match handler MQID_ANY m) (held (th_queue th)) \<and> safe {#} q)"

lemma Clear_thread:
  assumes "safe {#} (th_queue th)"
  obtains q where "Clear handler MQID_ANY False (th_queue th) = Inr ([], q)" "cleared_of handler th (th\<lparr>th_queue := q\<rparr>)" "safe {#} q"
proof -
  obtain q where q: "ClearInternal handler MQID_ANY False (th_queue th) = Inr ([], q)" "heap_only (cleared handler MQID_ANY (th_queue th)) q"
    "lives (owned q + {#} + mset (datas [])) q"
    by (rule ClearInternal_ok [OF assms, of "[]" False handler MQID_ANY]) simp_all
  have "held q = filter (\<lambda>m. \<not> msg_Match handler MQID_ANY m) (held (th_queue th))"
    using heap_only_simps(6) [OF q(2)] by (simp add: held_cleared)
  moreover have "safe {#} q" using q(3) by simp
  ultimately show ?thesis using that [of q] q(1) unfolding Clear_def cleared_of_def by blast
qed

lemma clear_queues_ok:
  assumes "distinct ts" "set ts \<subseteq> dom ths" "\<forall>t th. ths t = Some th \<longrightarrow> safe {#} (th_queue th)"
  shows "\<exists>ths'. clear_queues handler ts ths = Inr ths' \<and> (\<forall>t. t \<notin> set ts \<longrightarrow> ths' t = ths t) \<and>
    (\<forall>t \<in> set ts. \<exists>th th'. ths t = Some th \<and> ths' t = Some th' \<and> cleared_of handler th th')"
  using assms
proof (induction ts arbitrary: ths)
  case (Cons t ts)
  obtain th where th: "ths t = Some th" "safe {#} (th_queue th)" using Cons.prems(2,3) by auto
  obtain q where q: "Clear handler MQID_ANY False (th_queue th) = Inr ([], q)" "cleared_of handler th (th\<lparr>th_queue := q\<rparr>)" "safe {#} q"
    by (rule Clear_thread [OF th(2), where handler = handler])
  let ?h = "ths(t \<mapsto> th\<lparr>th_queue := q\<rparr>)"
  have "distinct ts" "set ts \<subseteq> dom ?h" "\<forall>u v. ?h u = Some v \<longrightarrow> safe {#} (th_queue v)"
    using Cons.prems q(3) by (auto split: if_splits)
  from Cons.IH [OF this] obtain ths' where ths': "clear_queues handler ts ?h = Inr ths'" "\<forall>u. u \<notin> set ts \<longrightarrow> ths' u = ?h u"
    "\<forall>u \<in> set ts. \<exists>v v'. ?h u = Some v \<and> ths' u = Some v' \<and> cleared_of handler v v'" by blast
  have t: "t \<notin> set ts" using Cons.prems(1) by simp
  have rest: "\<exists>v v'. ths u = Some v \<and> ths' u = Some v' \<and> cleared_of handler v v'" if "u \<in> set ts" for u
    using ths'(3) t that by (auto dest!: bspec [where x = u] split: if_splits)
  moreover have "\<exists>v v'. ths t = Some v \<and> ths' t = Some v' \<and> cleared_of handler v v'" using ths'(2) t th(1) q(2) by auto
  ultimately show ?case using th(1) q(1) ths'(1,2) by (intro exI [of _ ths']) auto
qed simp

lemma manager_clear_ok:
  assumes "mgr_ok m"
  shows "\<exists>ths. ThreadManager_ClearInternal handler m = Inr (m\<lparr>threads := ths\<rparr>) \<and> mgr_ok (m\<lparr>threads := ths\<rparr>) \<and>
    (\<forall>t. t \<notin> set (message_queues m) \<longrightarrow> ths t = threads m t) \<and>
    (\<forall>t \<in> set (message_queues m). \<exists>th th'. threads m t = Some th \<and> ths t = Some th' \<and> cleared_of handler th th')"
proof -
  have "distinct (message_queues m)" "set (message_queues m) \<subseteq> dom (threads m)" "\<forall>t th. threads m t = Some th \<longrightarrow> safe {#} (th_queue th)"
    using assms unfolding mgr_ok_def by blast+
  from clear_queues_ok [OF this, of handler] obtain ths where ths: "clear_queues handler (message_queues m) (threads m) = Inr ths"
    "\<forall>t. t \<notin> set (message_queues m) \<longrightarrow> ths t = threads m t"
    "\<forall>t \<in> set (message_queues m). \<exists>th th'. threads m t = Some th \<and> ths t = Some th' \<and> cleared_of handler th th'" by blast
  have "ThreadManager_ClearInternal handler m = Inr (m\<lparr>threads := ths\<rparr>)"
    using ths(1) by (simp add: ThreadManager_ClearInternal_def)
  moreover have "\<not> fDestroyed th \<and> safe {#} (th_queue th) \<and> (fInitialized th \<longleftrightarrow> t \<in> set (message_queues m))" if u: "ths t = Some th" for t th
  proof (cases "t \<in> set (message_queues m)")
    case True
    then obtain v where "threads m t = Some v" "cleared_of handler v th" using ths(3) u by fastforce
    then show ?thesis using assms True unfolding mgr_ok_def cleared_of_def by fastforce
  qed (use ths(2) u assms in \<open>auto simp: mgr_ok_def\<close>)
  moreover have "set (message_queues m) \<subseteq> dom ths" using ths(3) by auto
  ultimately show ?thesis using ths(2,3) assms unfolding mgr_ok_def by (intro exI [of _ ths]) simp
qed

lemma construct_ok:
  assumes "mgr_ok m" "threads m t = None" "finite live"
  shows "\<exists>m'. Thread_construct t handler live do_init m = Inr m' \<and> mgr_ok m'"
proof -
  have t: "t \<notin> set (message_queues m)" using assms(1,2) by (auto simp: mgr_ok_def)
  have "safe {#} (Thread_new live)" using assms(3) by (simp add: Thread_new_def lives_def owned_def held_def)
  then show ?thesis using assms(1) t
    by (auto simp: Thread_construct_def DoInit_def AddInternal_def Let_def mgr_ok_def)
qed

lemma init_ok:
  assumes "mgr_ok m" "threads m t = Some th"
  shows "\<exists>m'. DoInit t m = Inr m' \<and> mgr_ok m'"
  using assms by (auto simp: DoInit_def AddInternal_def mgr_ok_def)

text \<open>A thread that is gone is in no list and in no edge.\<close>

lemma delete_ok:
  assumes "mgr_ok m" "threads m t = Some th"
  shows "\<exists>m'. Thread_delete t m = Inr m' \<and> mgr_ok m' \<and> threads m' = (threads m)(t := None) \<and>
    message_queues m' = remove1 t (message_queues m) \<and> send_graph m' = RemoveFromSendGraph t (send_graph m)"
proof -
  let ?q = "Quit (th_queue th)"
  have th: "\<not> fDestroyed th" "safe {#} (th_queue th)" "processing m = 0" using assms by (auto simp: mgr_ok_def)
  have "safe {#} ?q" using th(2) unfolding Quit_def WakeUpSocketServer_def by (simp add: lives_def owned_def held_def cong: if_cong)
  then obtain q where q: "ClearInternal None MQID_ANY False ?q = Inr ([], q)" by (rule ClearInternal_ok [where out = "[]" and keep = False]) simp_all
  let ?m = "m\<lparr>threads := (threads m)(t := None), message_queues := remove1 t (message_queues m), send_graph := RemoveFromSendGraph t (send_graph m)\<rparr>"
  have "Thread_delete t m = Inr ?m"
    using assms(2) th q by (simp add: Thread_delete_def DoDestroy_def RemoveInternal_def Let_def)
  moreover have "mgr_ok ?m" using assms(1) by (auto simp: mgr_ok_def)
  ultimately show ?thesis by (intro exI [of _ ?m]) simp
qed

lemma held_live [simp]: "held (q\<lparr>mq_live := L\<rparr>) = held q"
  by (simp add: held_def)

lemma queue_op_ok:
  assumes "mgr_ok m" "threads m t = Some th" "distinct ds" "set ds \<inter> mq_live (th_queue th) = {}" "op_data x = mset ds"
  shows "\<exists>r q. mq_exec x ((th_queue th)\<lparr>mq_live := set ds \<union> mq_live (th_queue th)\<rparr>) = Inr (r, q) \<and>
    mgr_ok (m\<lparr>threads := (threads m)(t \<mapsto> th\<lparr>th_queue := q\<rparr>)\<rparr>)"
proof -
  let ?q = "(th_queue th)\<lparr>mq_live := set ds \<union> mq_live (th_queue th)\<rparr>"
  have "safe {#} (th_queue th)" using assms(1,2) by (auto simp: mgr_ok_def)
  then have "safe ({#} + op_data x) ?q"
    using assms(3-5) by (simp add: lives_def owned_def mset_set_Union mset_set_set add.commute)
  then obtain r q S where q: "mq_exec x ?q = Inr (r, q)" "safe ({#} + (op_data x - S) + mset (datas r)) q"
    using mq_exec_conserves unfolding conserves_def by blast
  from q(2) have "safe {#} q" unfolding lives_def by (auto intro: subset_mset.trans [rotated])
  then show ?thesis using q(1) assms(1,2) by (intro exI [of _ r] exI [of _ q]) (auto simp: mgr_ok_def)
qed

text \<open>
  What happens to the manager and its threads: a thread is made at a free address, initialized, used, and deleted; a handler is cleared everywhere; the
  checks of \<open>Send\<close> change the graph. Data handed to a queue is newly allocated.
\<close>

inductive mgr_reachable :: "manager \<Rightarrow> bool" where
  start: "mgr_reachable ThreadManager_new"
| construct: "mgr_reachable m \<Longrightarrow> threads m t = None \<Longrightarrow> finite live \<Longrightarrow> Thread_construct t handler live do_init m = Inr m' \<Longrightarrow> mgr_reachable m'"
| init: "mgr_reachable m \<Longrightarrow> DoInit t m = Inr m' \<Longrightarrow> mgr_reachable m'"
| queue: "mgr_reachable m \<Longrightarrow> threads m t = Some th \<Longrightarrow> distinct ds \<Longrightarrow> set ds \<inter> mq_live (th_queue th) = {} \<Longrightarrow> op_data x = mset ds \<Longrightarrow>
    mq_exec x ((th_queue th)\<lparr>mq_live := set ds \<union> mq_live (th_queue th)\<rparr>) = Inr (r, q) \<Longrightarrow>
    mgr_reachable (m\<lparr>threads := (threads m)(t \<mapsto> th\<lparr>th_queue := q\<rparr>)\<rparr>)"
| graph: "mgr_reachable m \<Longrightarrow> mgr_reachable (m\<lparr>send_graph := g\<rparr>)"
| clear: "mgr_reachable m \<Longrightarrow> ThreadManager_ClearInternal handler m = Inr m' \<Longrightarrow> mgr_reachable m'"
| delete: "mgr_reachable m \<Longrightarrow> Thread_delete t m = Inr m' \<Longrightarrow> mgr_reachable m'"

lemma mgr_reachable_ok: "mgr_reachable m \<Longrightarrow> mgr_ok m"
proof (induction rule: mgr_reachable.induct)
  case start
  show ?case by (simp add: mgr_ok_def ThreadManager_new_def)
next
  case (construct m t live handler do_init m')
  then show ?case using construct_ok [of m t live handler do_init] by simp
next
  case (init m t m')
  then show ?case using init_ok [of m t] by (cases "threads m t") (auto simp: DoInit_def)
next
  case (queue m t th ds x r q)
  then show ?case using queue_op_ok [of m t th ds x] by simp
next
  case (graph m g)
  then show ?case by (simp add: mgr_ok_def)
next
  case (clear m handler m')
  then show ?case using manager_clear_ok [of m handler] by auto
next
  case (delete m t m')
  then show ?case using delete_ok [of m t] by (cases "threads m t") (auto simp: Thread_delete_def)
qed

lemma IsInvoke_policy:
  "IsInvokeToThreadAllowed t (AllowInvokesToThread u th) \<longleftrightarrow> t = u \<or> invoke_policy_enabled th \<and> IsInvokeToThreadAllowed t th \<or> t \<in> set (allowed_threads th)"
  "\<not> IsInvokeToThreadAllowed t (DisallowAllInvokes th)"
  by (auto simp: IsInvokeToThreadAllowed_def AllowInvokesToThread_def DisallowAllInvokes_def)

section \<open>Properties\<close>

text \<open>C28: registering a send always comes to an end on a graph without cycles, and is exact: it fails if and only if the target already sends, directly or
  through others, to the source; otherwise it adds this one edge, and the graph still has no cycle.\<close>

theorem send_check_exact:
  assumes "finite (edges g)" "acyclic (edges g)"
  shows "if (t, s) \<in> (edges g)\<^sup>* then RegisterSendAndCheckForCycles (Some s) (Some t) g = Some (Inl Assert_failed)
    else \<exists>g'. RegisterSendAndCheckForCycles (Some s) (Some t) g = Some (Inr g') \<and> edges g' = insert (s, t) (edges g) \<and> acyclic (edges g')"
  using register_send [OF assms, of s t] assms(2) by (auto simp: acyclic_insert)

theorem send_check_exact_witness:
  "(\<exists>g'. RegisterSendAndCheckForCycles (Some 3) (Some 1) [1 \<mapsto> {2}] = Some (Inr g') \<and> acyclic (edges g')) \<and>
   RegisterSendAndCheckForCycles (Some 2) (Some 1) [1 \<mapsto> {2}] = Some (Inl Assert_failed)"
proof -
  have e: "edges [1 \<mapsto> {2 :: nat}] = {(1, 2)}" by (auto simp: edges_def split: if_splits)
  have "(1, 3) \<notin> {(1 :: nat, 2 :: nat)}\<^sup>*" "(1, 2) \<in> {(1 :: nat, 2 :: nat)}\<^sup>*"
    by (auto elim: rtranclE)
  moreover have "acyclic {(1 :: nat, 2 :: nat)}" by (simp add: acyclic_insert) (simp add: acyclic_def)
  ultimately show ?thesis using send_check_exact [of "[1 \<mapsto> {2}]" 1 3] send_check_exact [of "[1 \<mapsto> {2}]" 1 2] unfolding e by auto
qed

text \<open>Two threads of the library that have not done anything yet.\<close>

definition ex_thread :: thread where
  "ex_thread = \<lparr>th_queue = Thread_new {}, blocking_call_count = 0, could_be_blocking_call_count = 0, allowed_threads = [],
     invoke_policy_enabled = False, fInitialized = True, fDestroyed = False, blocking_calls_allowed = True, queued_task_handler = 9\<rparr>"

definition ex_manager :: manager where
  "ex_manager = ThreadManager_new\<lparr>message_queues := [1, 2], threads := [1 \<mapsto> ex_thread, 2 \<mapsto> ex_thread]\<rparr>"

lemma ex_manager_reachable: "send_reachable checks (ex_manager, Map.empty)"
  by (rule send_reachable.step [OF send_reachable.start other]) (simp add: ex_manager_def)

lemma PostTask_running:
  assumes "\<not> IsQuitting (th_queue th)"
  shows "\<exists>th'. PostTask here data th = Inr th' \<and> \<not> IsQuitting (th_queue th')"
  using assms by (auto simp: PostTask_def Post_def Let_def IsQuitting_def hand_over_def WakeUpSocketServer_def)

lemma release_Send:
  assumes "threads m t = Some th" "\<not> IsQuitting (th_queue th)" "c \<noteq> t" "threads m c \<noteq> None"
  shows "\<exists>th'. Send False (Some c) t here data m = Some (Inr (Wait_ready, m\<lparr>threads := (threads m)(t \<mapsto> th')\<rparr>))"
  using PostTask_running [OF assms(2), of here data] assms by (auto simp: Send_def Let_def)

text \<open>C27: in a build with \<open>RTC_DCHECK_IS_ON\<close>, threads that send to each other cannot deadlock: whatever sends begin and end and whatever threads are
  removed, if any thread is waiting in \<open>Send\<close>, then some waiting thread waits for one that is not waiting, so that its send can end. The check is all
  that prevents it: in a build without it, such as the repository's with \<open>-DNDEBUG\<close>, two threads can come to wait for each other, and then they do so forever.\<close>

theorem sends_cannot_deadlock:
  "(\<forall>m w c t. send_reachable True (m, w) \<and> w c = Some t \<longrightarrow>
      (\<exists>c t. w c = Some t \<and> w t = None \<and> send_step True (m, w) (m, w(c := None)))) \<and>
   (\<exists>m. send_reachable False (m, [1 \<mapsto> 2, 2 \<mapsto> 1]) \<and>
      (\<forall>m' w'. (send_step False)\<^sup>*\<^sup>* (m, [1 \<mapsto> 2, 2 \<mapsto> 1]) (m', w') \<longrightarrow> w' 1 = Some 2 \<and> w' 2 = Some 1))"
proof (intro conjI allI impI)
  fix m w c t assume "send_reachable True (m, w) \<and> w c = Some t"
  then have "sends_ok (m, w)" and w: "w c = Some t" by (auto intro: send_reachable_ok)
  then have "finite (edges (send_graph m))" "acyclic (edges (send_graph m))" "\<And>c t. w c = Some t \<Longrightarrow> (c, t) \<in> edges (send_graph m)"
    by (simp_all add: sends_ok_def)
  from acyclic_wait_ends [where w = w, OF this w] show "\<exists>c t. w c = Some t \<and> w t = None \<and> send_step True (m, w) (m, w(c := None))"
    by (blast intro: end_send)
next
  have q: "\<not> IsQuitting (th_queue ex_thread)" by (simp add: ex_thread_def Thread_new_def IsQuitting_def)
  obtain t2 where m1: "Send False (Some 1) 2 [] 5 ex_manager = Some (Inr (Wait_ready, ex_manager\<lparr>threads := [1 \<mapsto> ex_thread, 2 \<mapsto> t2]\<rparr>))"
    using release_Send [of ex_manager 2 ex_thread 1] q by (auto simp: ex_manager_def)
  let ?m1 = "ex_manager\<lparr>threads := [1 \<mapsto> ex_thread, 2 \<mapsto> t2]\<rparr>"
  have r1: "send_reachable False (?m1, [1 \<mapsto> 2])"
    using send_reachable.step [OF ex_manager_reachable begin_send [OF _ m1]] by simp
  obtain m2 where m2: "Send False (Some 2) 1 [] 6 ?m1 = Some (Inr (Wait_ready, m2))"
    using release_Send [of ?m1 1 ex_thread 2] q by auto
  have r2: "send_reachable False (m2, [1 \<mapsto> 2, 2 \<mapsto> 1])"
    using send_reachable.step [OF r1 begin_send [OF _ m2]] by simp
  moreover have "w' 1 = Some 2 \<and> w' 2 = Some 1" if "(send_step False)\<^sup>*\<^sup>* (m2, [1 \<mapsto> 2, 2 \<mapsto> 1]) (m', w')" for m' w'
    using mutual_wait_stays [OF that, of 1 2] by simp
  ultimately show "\<exists>m. send_reachable False (m, [1 \<mapsto> 2, 2 \<mapsto> 1]) \<and>
      (\<forall>m' w'. (send_step False)\<^sup>*\<^sup>* (m, [1 \<mapsto> 2, 2 \<mapsto> 1]) (m', w') \<longrightarrow> w' 1 = Some 2 \<and> w' 2 = Some 1)" by blast
qed

theorem sends_cannot_deadlock_witness:
  "\<exists>m. send_reachable True (m, [1 \<mapsto> 2]) \<and> (\<exists>c t. [1 \<mapsto> 2] c = Some t \<and> ([1 \<mapsto> 2] :: nat \<rightharpoonup> nat) t = None)"
proof -
  have "\<exists>m'. Send True (Some 1) 2 [] 5 ex_manager = Some (Inr (Wait_ready, m'))"
    by (simp add: Send_def PostTask_def Post_def IsQuitting_def Thread_new_def IsInvokeToThreadAllowed_def RegisterSendAndCheckForCycles_def
      ThreadManager_new_def ex_manager_def ex_thread_def hand_over_def graph_at_def collect_targets.simps [of 0] collect_targets.simps [of "Suc 0"])
  then obtain m' where "Send True (Some 1) 2 [] 5 ex_manager = Some (Inr (Wait_ready, m'))" by blast
  from send_reachable.step [OF ex_manager_reachable begin_send [OF _ this]] have "send_reachable True (m', [1 \<mapsto> 2])" by simp
  moreover have "\<exists>c t. [1 \<mapsto> 2] c = Some t \<and> ([1 \<mapsto> 2] :: nat \<rightharpoonup> nat) t = None"
    using sends_cannot_deadlock [THEN conjunct1, rule_format, of m' "[1 \<mapsto> 2]" 1 2] calculation by auto
  ultimately show ?thesis by blast
qed

text \<open>The manager never touches a thread that is gone: in every state the listed queues belong to threads that exist; clearing a handler then always
  succeeds, removes exactly the messages of that handler from every listed queue and keeps the others in order; and deleting a thread always succeeds and
  takes it out of the list and the graph.\<close>

theorem manager_lists_live_threads:
  assumes "mgr_reachable m"
  shows "set (message_queues m) \<subseteq> dom (threads m) \<and>
    (\<forall>handler. \<exists>m'. ThreadManager_ClearInternal handler m = Inr m' \<and> (\<forall>t \<in> set (message_queues m). \<exists>th th'. threads m t = Some th \<and> threads m' t = Some th' \<and>
       held (th_queue th') = filter (\<lambda>msg. \<not> msg_Match handler MQID_ANY msg) (held (th_queue th)))) \<and>
    (\<forall>t \<in> dom (threads m). \<exists>m'. Thread_delete t m = Inr m' \<and> t \<notin> set (message_queues m') \<and> t \<notin> Field (edges (send_graph m')))"
proof (intro conjI allI ballI)
  have ok: "mgr_ok m" using assms by (rule mgr_reachable_ok)
  then show "set (message_queues m) \<subseteq> dom (threads m)" by (simp add: mgr_ok_def)
  fix handler
  from manager_clear_ok [OF ok, of handler] obtain ths where "ThreadManager_ClearInternal handler m = Inr (m\<lparr>threads := ths\<rparr>)"
    "\<forall>t \<in> set (message_queues m). \<exists>th th'. threads m t = Some th \<and> ths t = Some th' \<and> cleared_of handler th th'" by blast
  then show "\<exists>m'. ThreadManager_ClearInternal handler m = Inr m' \<and> (\<forall>t \<in> set (message_queues m). \<exists>th th'. threads m t = Some th \<and> threads m' t = Some th' \<and>
      held (th_queue th') = filter (\<lambda>msg. \<not> msg_Match handler MQID_ANY msg) (held (th_queue th)))"
    by (intro exI [of _ "m\<lparr>threads := ths\<rparr>"]) (fastforce simp: cleared_of_def)
next
  have ok: "mgr_ok m" using assms by (rule mgr_reachable_ok)
  fix t assume "t \<in> dom (threads m)"
  then obtain m' where m': "Thread_delete t m = Inr m'" "message_queues m' = remove1 t (message_queues m)"
    "send_graph m' = RemoveFromSendGraph t (send_graph m)" using delete_ok [OF ok] by blast
  have "distinct (message_queues m)" using ok by (simp add: mgr_ok_def)
  with m' show "\<exists>m'. Thread_delete t m = Inr m' \<and> t \<notin> set (message_queues m') \<and> t \<notin> Field (edges (send_graph m'))"
    by (intro exI [of _ m']) (auto simp: edges_remove Field_def)
qed

theorem manager_lists_live_threads_witness:
  "\<exists>m m'. Thread_construct 1 9 {} True ThreadManager_new = Inr m \<and> message_queues m = [1] \<and> Thread_delete 1 m = Inr m' \<and> 1 \<notin> set (message_queues m')"
proof -
  have "\<exists>m. Thread_construct 1 9 {} True ThreadManager_new = Inr m \<and> message_queues m = [1] \<and> 1 \<in> dom (threads m)"
    by (simp add: Thread_construct_def DoInit_def AddInternal_def ThreadManager_new_def)
  then obtain m where m: "Thread_construct 1 9 {} True ThreadManager_new = Inr m" "message_queues m = [1]" "1 \<in> dom (threads m)" by blast
  have "mgr_reachable m" by (rule mgr_reachable.construct [OF mgr_reachable.start _ _ m(1)]) (simp_all add: ThreadManager_new_def)
  from manager_lists_live_threads [OF this] m show ?thesis by blast
qed

end
