(* ===== verification/String_Builder.thy ===== *)
theory String_Builder
  imports Prelude
begin

text \<open>
  \<open>SimpleStringBuilder\<close> and \<open>StringBuilder\<close> of \<open>strings/string_builder.h\<close> and \<open>.cc\<close> under \<open>src/xrtcserver/rtcbase/src/rtc_base\<close>:
  text put together in memory of a fixed size that always ends with a null byte, and in a string that grows. Every write to the
  fixed memory is checked. What \<open>vsnprintf\<close> produces for a format is an argument: the text, or nothing where it fails.
\<close>

section \<open>Definitions\<close>

subsection \<open>Fixed memory\<close>

record simple_builder =
  sb_buffer :: "byte list"
  sb_size :: nat

definition SimpleStringBuilder_new :: "byte list \<Rightarrow> simple_builder res" where
  "SimpleStringBuilder_new buffer = res_bind (mem_write 0 [0] buffer) (\<lambda>b. Inr \<lparr>sb_buffer = b, sb_size = 0\<rparr>)"

definition sb_IsConsistent :: "simple_builder \<Rightarrow> bool" where
  "sb_IsConsistent sb \<longleftrightarrow> sb_size sb < length (sb_buffer sb) \<and> sb_buffer sb ! sb_size sb = 0"

text \<open>The subtraction in the bound is on \<open>size_t\<close>.\<close>

definition sb_Append :: "byte list \<Rightarrow> nat \<Rightarrow> simple_builder \<Rightarrow> simple_builder res" where
  "sb_Append str len sb =
     (let chars_added = min len (nat (usz (int (length (sb_buffer sb)) - int (sb_size sb) - 1)))
      in res_bind (mem_read 0 chars_added str) (\<lambda>src.
         res_bind (mem_write (sb_size sb) src (sb_buffer sb)) (\<lambda>b.
           let n = sb_size sb + chars_added
           in res_bind (mem_write n [0] b) (\<lambda>b. Inr \<lparr>sb_buffer = b, sb_size = n\<rparr>))))"

text \<open>\<open>vsnprintf\<close> into \<open>avail\<close> bytes at a position: what fits of the text, then the terminator.\<close>

definition vsnprintf_at :: "nat \<Rightarrow> nat \<Rightarrow> byte list \<Rightarrow> byte list \<Rightarrow> byte list res" where
  "vsnprintf_at pos avail tx buf = (if avail = 0 then Inr buf else mem_write pos (take (avail - 1) tx @ [0]) buf)"

definition sb_AppendFormat :: "byte list option \<Rightarrow> simple_builder \<Rightarrow> simple_builder res" where
  "sb_AppendFormat printed sb =
     (case printed of
        Some tx \<Rightarrow>
          res_bind (vsnprintf_at (sb_size sb) (nat (usz (int (length (sb_buffer sb)) - int (sb_size sb)))) tx (sb_buffer sb)) (\<lambda>b.
            let chars_added = min (length tx) (nat (usz (int (length b) - 1 - int (sb_size sb))))
            in Inr \<lparr>sb_buffer = b, sb_size = sb_size sb + chars_added\<rparr>)
      | None \<Rightarrow> res_bind (mem_write (sb_size sb) [0] (sb_buffer sb)) (\<lambda>b. Inr (sb\<lparr>sb_buffer := b\<rparr>)))"

text \<open>\<open>operator<<\<close> for a string, for a C string up to its terminator, for a character, and for an integer.\<close>

definition sb_put_string :: "byte list \<Rightarrow> simple_builder \<Rightarrow> simple_builder res" where
  "sb_put_string str sb = sb_Append str (length str) sb"

definition c_str :: "byte list \<Rightarrow> byte list" where
  "c_str bs = takeWhile (\<lambda>c. c \<noteq> 0) bs"

definition sb_put_cstr :: "byte list \<Rightarrow> simple_builder \<Rightarrow> simple_builder res" where
  "sb_put_cstr str sb = sb_Append str (length (c_str str)) sb"

definition sb_put_char :: "byte \<Rightarrow> simple_builder \<Rightarrow> simple_builder res" where
  "sb_put_char ch sb = sb_Append [ch] 1 sb"

text \<open>The conversion \<open>%d\<close>, and \<open>%u\<close> of a value that is not negative.\<close>

function dec_of :: "nat \<Rightarrow> byte list" where
  "dec_of n = (if n < 10 then [48 + word_of_nat (n mod 10)] else dec_of (n div 10) @ [48 + word_of_nat (n mod 10)])"
  by pat_completeness auto
termination by (relation "measure id") auto

declare dec_of.simps [simp del]

definition int_text :: "int \<Rightarrow> byte list" where
  "int_text i = (if i < 0 then 45 # dec_of (nat (- i)) else dec_of (nat i))"

definition sb_put_int :: "int \<Rightarrow> simple_builder \<Rightarrow> simple_builder res" where
  "sb_put_int i sb = sb_AppendFormat (Some (int_text i)) sb"

text \<open>\<open>str\<close> is the memory; read as a C string it ends at the first null byte.\<close>

definition sb_str :: "simple_builder \<Rightarrow> byte list" where
  "sb_str sb = c_str (sb_buffer sb)"

subsection \<open>Growing string\<close>

definition StringBuilder_put :: "byte list \<Rightarrow> byte list \<Rightarrow> byte list" where
  "StringBuilder_put str s = s @ str"

text \<open>\<open>AppendFormat\<close> makes room for the predicted length and prints into it; the terminator of the string is overwritten with one.\<close>

definition StringBuilder_AppendFormat :: "byte list option \<Rightarrow> byte list \<Rightarrow> byte list res" where
  "StringBuilder_AppendFormat printed s =
     (case printed of None \<Rightarrow> Inr s
      | Some tx \<Rightarrow>
          (if length tx > 0
           then let n = length s; s = s @ replicate (length tx) 0
                in res_bind (vsnprintf_at n (length tx + 1) tx (s @ [0])) (\<lambda>b. Inr (take (length s) b))
           else Inr s))"

definition StringBuilder_Release :: "byte list \<Rightarrow> byte list \<times> byte list" where
  "StringBuilder_Release s = (s, [])"

section \<open>Text in fixed memory\<close>

definition sb_ok :: "nat \<Rightarrow> byte list \<Rightarrow> simple_builder \<Rightarrow> bool" where
  "sb_ok n tx sb \<longleftrightarrow> length (sb_buffer sb) = n \<and> sb_IsConsistent sb \<and>
     take (sb_size sb) (sb_buffer sb) = take (n - 1) tx \<and> sb_size sb = min (n - 1) (length tx)"

lemma SimpleStringBuilder_new_ok: "buffer \<noteq> [] \<Longrightarrow> \<exists>sb. SimpleStringBuilder_new buffer = Inr sb \<and> sb_ok (length buffer) [] sb"
  by (cases buffer) (simp_all add: SimpleStringBuilder_new_def sb_ok_def sb_IsConsistent_def overwrite_def)

lemma room:
  assumes "sb_ok n tx sb" "n < 2 ^ 63"
  shows "nat (usz (int (length (sb_buffer sb)) - int (sb_size sb) - 1)) = n - 1 - sb_size sb"
    "nat (usz (int (length (sb_buffer sb)) - int (sb_size sb))) = n - sb_size sb"
    "nat (usz (int (length (sb_buffer sb)) - 1 - int (sb_size sb))) = n - 1 - sb_size sb"
    "sb_size sb < n"
  using assms by (auto simp: sb_ok_def sb_IsConsistent_def usz_id)

text \<open>What is added is cut so that everything written so far is a prefix of all the text.\<close>

lemma added_ok:
  assumes "sb_ok n tx sb" "k = min (length str) (n - 1 - sb_size sb)"
    "b = take (sb_size sb) (sb_buffer sb) @ take k str @ [0] @ rest" "length b = n"
  shows "sb_ok n (tx @ str) \<lparr>sb_buffer = b, sb_size = sb_size sb + k\<rparr>"
proof -
  have sz: "sb_size sb = min (n - 1) (length tx)" "sb_size sb < n" "length (sb_buffer sb) = n"
    and pre: "take (sb_size sb) (sb_buffer sb) = take (n - 1) tx"
    using assms(1) by (auto simp: sb_ok_def sb_IsConsistent_def)
  obtain p where p: "p = take (sb_size sb) (sb_buffer sb) @ take k str" "length p = sb_size sb + k" using sz assms(2) by simp
  then have "b = p @ 0 # rest" using assms(3) by simp
  then have "b ! length p = 0" "length p < length b" "take (length p) b = p" by simp_all
  then have "b ! (sb_size sb + k) = 0" "sb_size sb + k < length b" "take (sb_size sb + k) b = take (n - 1) tx @ take k str"
    using p pre by simp_all
  moreover have "take (n - 1) tx @ take k str = take (n - 1) (tx @ str) \<and> sb_size sb + k = min (n - 1) (length (tx @ str))"
  proof (cases "n - 1 \<le> length tx")
    case True
    then have "sb_size sb = n - 1" using sz(1) by (simp only: min_absorb1)
    then have "k = 0" using assms(2) by (simp only: diff_self_eq_0 min_0R)
    then show ?thesis using True \<open>sb_size sb = n - 1\<close> by simp
  next
    case False
    then have "sb_size sb = length tx" using sz(1) by (simp add: min_def)
    then have "k = min (length str) (n - 1 - length tx)" using assms(2) by simp
    then show ?thesis using False \<open>sb_size sb = length tx\<close> by (auto simp: min_def)
  qed
  ultimately show ?thesis using assms(4) unfolding sb_ok_def sb_IsConsistent_def by simp
qed

lemma sb_Append_ok:
  assumes "sb_ok n tx sb" "len \<le> length str" "n < 2 ^ 63"
  shows "\<exists>sb'. sb_Append str len sb = Inr sb' \<and> sb_ok n (tx @ take len str) sb'"
proof -
  let ?k = "min len (n - 1 - sb_size sb)"
  let ?b = "overwrite (sb_size sb + ?k) [0] (overwrite (sb_size sb) (take ?k str) (sb_buffer sb))"
  have sz: "sb_size sb < n" "length (sb_buffer sb) = n" using assms(1) by (auto simp: sb_ok_def sb_IsConsistent_def)
  have "sb_Append str len sb = Inr \<lparr>sb_buffer = ?b, sb_size = sb_size sb + ?k\<rparr>"
    using sz assms(2) room [OF assms(1,3)] by (simp add: sb_Append_def Let_def)
  moreover have "sb_ok n (tx @ take len str) \<lparr>sb_buffer = ?b, sb_size = sb_size sb + ?k\<rparr>"
    using assms sz by (intro added_ok [where rest = "drop (sb_size sb + ?k + 1) (sb_buffer sb)"])
      (auto simp: overwrite_def min_def add.commute)
  ultimately show ?thesis by blast
qed

lemma sb_AppendFormat_ok:
  assumes "sb_ok n tx sb" "n < 2 ^ 63"
  shows "\<exists>sb'. sb_AppendFormat (Some str) sb = Inr sb' \<and> sb_ok n (tx @ str) sb'"
proof -
  let ?k = "min (length str) (n - 1 - sb_size sb)"
  let ?b = "overwrite (sb_size sb) (take (n - sb_size sb - 1) str @ [0]) (sb_buffer sb)"
  have sz: "sb_size sb < n" "length (sb_buffer sb) = n" using assms(1) by (auto simp: sb_ok_def sb_IsConsistent_def)
  have "sb_AppendFormat (Some str) sb = Inr \<lparr>sb_buffer = ?b, sb_size = sb_size sb + ?k\<rparr>"
    using sz room [OF assms] by (simp add: sb_AppendFormat_def vsnprintf_at_def Let_def)
  moreover have "sb_ok n (tx @ str) \<lparr>sb_buffer = ?b, sb_size = sb_size sb + ?k\<rparr>"
    using assms sz by (intro added_ok [where rest = "drop (sb_size sb + ?k + 1) (sb_buffer sb)"])
      (auto simp: overwrite_def min_def add.commute)
  ultimately show ?thesis by blast
qed

text \<open>The operations that add text, in any order, and the text each adds.\<close>

datatype put = Put_string "byte list" | Put_cstr "byte list" | Put_char byte | Put_int int

fun sb_put :: "put \<Rightarrow> simple_builder \<Rightarrow> simple_builder res" where
  "sb_put (Put_string s) sb = sb_put_string s sb"
| "sb_put (Put_cstr s) sb = sb_put_cstr s sb"
| "sb_put (Put_char c) sb = sb_put_char c sb"
| "sb_put (Put_int i) sb = sb_put_int i sb"

fun put_text :: "put \<Rightarrow> byte list" where
  "put_text (Put_string s) = s"
| "put_text (Put_cstr s) = c_str s"
| "put_text (Put_char c) = [c]"
| "put_text (Put_int i) = int_text i"

fun sb_puts :: "put list \<Rightarrow> simple_builder \<Rightarrow> simple_builder res" where
  "sb_puts [] sb = Inr sb"
| "sb_puts (p # ps) sb = res_bind (sb_put p sb) (sb_puts ps)"

lemma sb_put_ok:
  assumes "sb_ok n tx sb" "n < 2 ^ 63"
  shows "\<exists>sb'. sb_put p sb = Inr sb' \<and> sb_ok n (tx @ put_text p) sb'"
proof (cases p)
  case (Put_cstr s)
  have "take (length (c_str s)) s = c_str s" by (simp add: c_str_def takeWhile_eq_take [symmetric])
  then show ?thesis
    using sb_Append_ok [OF assms(1) _ assms(2), of "length (c_str s)" s] Put_cstr
    by (simp add: sb_put_cstr_def c_str_def length_takeWhile_le)
next
  case (Put_string s)
  then show ?thesis using sb_Append_ok [OF assms(1) _ assms(2), of "length s" s] by (simp add: sb_put_string_def)
next
  case (Put_char c)
  then show ?thesis using sb_Append_ok [OF assms(1) _ assms(2), of 1 "[c]"] by (simp add: sb_put_char_def)
next
  case (Put_int i)
  then show ?thesis using sb_AppendFormat_ok [OF assms] by (simp add: sb_put_int_def)
qed

lemma sb_puts_ok:
  assumes "sb_ok n tx sb" "n < 2 ^ 63"
  shows "\<exists>sb'. sb_puts ps sb = Inr sb' \<and> sb_ok n (tx @ concat (map put_text ps)) sb'"
  using assms(1)
proof (induction ps arbitrary: tx sb)
  case (Cons p ps)
  obtain sb1 where "sb_put p sb = Inr sb1" "sb_ok n (tx @ put_text p) sb1" using sb_put_ok [OF Cons.prems assms(2)] by blast
  with Cons.IH [of "tx @ put_text p" sb1] show ?case by simp
qed simp

lemma c_str_consistent:
  assumes "sb_ok n tx sb"
  shows "sb_str sb = c_str (take (n - 1) tx)"
proof -
  let ?k = "sb_size sb"
  have k: "?k < length (sb_buffer sb)" "sb_buffer sb ! ?k = 0" "take ?k (sb_buffer sb) = take (n - 1) tx"
    using assms by (auto simp: sb_ok_def sb_IsConsistent_def)
  then have "sb_buffer sb = take (n - 1) tx @ 0 # drop (Suc ?k) (sb_buffer sb)" using id_take_nth_drop [OF k(1)] by simp
  then have "sb_str sb = c_str (take (n - 1) tx @ 0 # drop (Suc ?k) (sb_buffer sb))" by (simp add: sb_str_def)
  then show ?thesis by (simp add: c_str_def takeWhile_tail)
qed

lemma c_str_id: "0 \<notin> set bs \<Longrightarrow> c_str bs = bs"
  by (auto simp: c_str_def takeWhile_eq_all_conv)

section \<open>Properties\<close>

text \<open>C36: text added to memory of any size, by any operations in any order, never leaves the memory, which stays terminated,
  and the memory holds the longest prefix of all the text that fits; what is read back is that prefix up to its first null byte.\<close>

theorem string_builder_prefix:
  assumes "buffer \<noteq> []" "length buffer < 2 ^ 63"
  shows "\<exists>sb sb'. SimpleStringBuilder_new buffer = Inr sb \<and> sb_puts ps sb = Inr sb' \<and> sb_IsConsistent sb' \<and>
    length (sb_buffer sb') = length buffer \<and>
    take (sb_size sb') (sb_buffer sb') = take (length buffer - 1) (concat (map put_text ps)) \<and>
    sb_str sb' = c_str (take (length buffer - 1) (concat (map put_text ps)))"
proof -
  obtain sb where sb: "SimpleStringBuilder_new buffer = Inr sb" "sb_ok (length buffer) [] sb"
    using SimpleStringBuilder_new_ok [OF assms(1)] by blast
  obtain sb' where "sb_puts ps sb = Inr sb'" "sb_ok (length buffer) (concat (map put_text ps)) sb'"
    using sb_puts_ok [OF sb(2) assms(2), of ps] by auto
  with sb c_str_consistent show ?thesis by (auto simp: sb_ok_def)
qed

theorem string_builder_prefix_witness:
  "\<exists>sb sb'. SimpleStringBuilder_new [7, 7, 7] = Inr sb \<and> sb_puts [Put_char 65, Put_string [66, 67]] sb = Inr sb' \<and>
    sb_str sb' = [65, 66]"
  using string_builder_prefix [of "[7, 7, 7]" "[Put_char 65, Put_string [66, 67]]"] by (auto simp: c_str_def)

end
