(* ===== verification/Ip_Address.thy ===== *)
theory Ip_Address
  imports Byte_Buffer String_Encode String_Builder Socket
  "HOL-Library.Product_Lexorder"
begin

text \<open>
  Network addresses: \<open>ip_address.h\<close> and \<open>ip_address.cc\<close> under \<open>src/xrtcserver/rtcbase/src/rtc_base\<close>. The union of the
  two address formats is its 16 bytes, in network order as the operating system keeps them; \<open>in_addr\<close> is the 32-bit integer
  \<open>s_addr\<close> that a little-endian host reads from the first four, \<open>in6_addr\<close> all 16. Strings are lists of bytes. The
  conversions of the C library, \<open>inet_ntop\<close> and \<open>inet_pton\<close>, are arguments of the operations that call them.
\<close>

unbundle bit_operations_syntax

section \<open>Definitions\<close>

subsection \<open>Addresses\<close>

definition AF_UNSPEC :: int where
  "AF_UNSPEC = 0"

definition AF_INET :: int where
  "AF_INET = 2"

definition AF_INET6 :: int where
  "AF_INET6 = 10"

definition INADDR_ANY :: u32 where
  "INADDR_ANY = 0"

definition INADDR_LOOPBACK :: u32 where
  "INADDR_LOOPBACK = 0x7F000001"

definition in6addr_any :: "byte list" where
  "in6addr_any = replicate 16 0"

definition in6addr_loopback :: "byte list" where
  "in6addr_loopback = replicate 15 0 @ [1]"

text \<open>A brace initializer of \<open>in6_addr\<close>: the bytes given, then zeros.\<close>

definition in6_init :: "byte list \<Rightarrow> byte list" where
  "in6_init bs = bs @ replicate (16 - length bs) 0"

definition kV4MappedPrefix :: "byte list" where
  "kV4MappedPrefix = in6_init [0, 0, 0, 0, 0, 0, 0, 0, 0, 0, 0xFF, 0xFF, 0]"

definition k6To4Prefix :: "byte list" where
  "k6To4Prefix = in6_init [0x20, 0x02, 0]"

definition kTeredoPrefix :: "byte list" where
  "kTeredoPrefix = in6_init [0x20, 0x01, 0x00, 0x00]"

definition kV4CompatibilityPrefix :: "byte list" where
  "kV4CompatibilityPrefix = in6_init [0]"

definition k6BonePrefix :: "byte list" where
  "k6BonePrefix = in6_init [0x3f, 0xfe, 0]"

definition kPrivateNetworkPrefix :: "byte list" where
  "kPrivateNetworkPrefix = in6_init [0xFD]"

record IPAddress =
  ip_family :: int
  ip_u :: "byte list"

definition IPAddress_nil :: IPAddress where
  "IPAddress_nil = \<lparr>ip_family = AF_UNSPEC, ip_u = replicate 16 0\<rparr>"

definition IPAddress_in :: "u32 \<Rightarrow> IPAddress" where
  "IPAddress_in ip4 = \<lparr>ip_family = AF_INET, ip_u = overwrite 0 (le_bytes 4 (unat ip4)) (replicate 16 0)\<rparr>"

definition IPAddress_in6 :: "byte list \<Rightarrow> IPAddress" where
  "IPAddress_in6 ip6 = \<lparr>ip_family = AF_INET6, ip_u = ip6\<rparr>"

definition IPAddress_host :: "u32 \<Rightarrow> IPAddress" where
  "IPAddress_host ip_in_host_byte_order =
     \<lparr>ip_family = AF_INET, ip_u = overwrite 0 (le_bytes 4 (unat (HostToNetwork32 ip_in_host_byte_order))) (replicate 16 0)\<rparr>"

definition ipv6_address :: "IPAddress \<Rightarrow> byte list" where
  "ipv6_address ip = ip_u ip"

definition ipv4_address :: "IPAddress \<Rightarrow> u32" where
  "ipv4_address ip = word_of_nat (le_nat (take 4 (ip_u ip)))"

definition v4AddressAsHostOrderInteger :: "IPAddress \<Rightarrow> u32" where
  "v4AddressAsHostOrderInteger ip = (if ip_family ip = AF_INET then NetworkToHost32 (ipv4_address ip) else 0)"

definition ip_overhead :: "IPAddress \<Rightarrow> int" where
  "ip_overhead ip = (if ip_family ip = AF_INET then 20 else if ip_family ip = AF_INET6 then 40 else 0)"

definition IPIsUnspec :: "IPAddress \<Rightarrow> bool" where
  "IPIsUnspec ip \<longleftrightarrow> ip_family ip = AF_UNSPEC"

definition ip_IsNil :: "IPAddress \<Rightarrow> bool" where
  "ip_IsNil ip \<longleftrightarrow> IPIsUnspec ip"

definition ip_Size :: "IPAddress \<Rightarrow> nat" where
  "ip_Size ip = (if ip_family ip = AF_INET then 4 else if ip_family ip = AF_INET6 then 16 else 0)"

definition ip_eq :: "IPAddress \<Rightarrow> IPAddress \<Rightarrow> bool" where
  "ip_eq ip other \<longleftrightarrow>
     (if ip_family ip \<noteq> ip_family other then False
      else if ip_family ip = AF_INET then c_memcmp (take 4 (ip_u ip)) (take 4 (ip_u other)) = 0
      else if ip_family ip = AF_INET6 then c_memcmp (ip_u ip) (ip_u other) = 0
      else ip_family ip = AF_UNSPEC)"

definition ip_neq :: "IPAddress \<Rightarrow> IPAddress \<Rightarrow> bool" where
  "ip_neq ip other \<longleftrightarrow> \<not> ip_eq ip other"

definition ip_less :: "IPAddress \<Rightarrow> IPAddress \<Rightarrow> bool" where
  "ip_less ip other \<longleftrightarrow>
     (if ip_family ip \<noteq> ip_family other
      then (if ip_family ip = AF_UNSPEC then True
            else if ip_family ip = AF_INET \<and> ip_family other = AF_INET6 then True
            else False)
      else if ip_family ip = AF_INET
      then NetworkToHost32 (ipv4_address ip) < NetworkToHost32 (ipv4_address other)
      else if ip_family ip = AF_INET6 then c_memcmp (take 16 (ip_u ip)) (take 16 (ip_u other)) < 0
      else False)"

definition ip_greater :: "IPAddress \<Rightarrow> IPAddress \<Rightarrow> bool" where
  "ip_greater ip other \<longleftrightarrow> ip_neq ip other \<and> \<not> ip_less ip other"

subsection \<open>Text\<close>

text \<open>The conversion \<open>%x\<close> of \<open>snprintf\<close>.\<close>

function hex_of :: "nat \<Rightarrow> byte list" where
  "hex_of n = (if n < 16 then [HEX ! n] else hex_of (n div 16) @ [HEX ! (n mod 16)])"
  by pat_completeness auto
termination by (relation "measure id") auto

declare hex_of.simps [simp del]

definition ip_ToString :: "(int \<Rightarrow> byte list \<Rightarrow> byte list option) \<Rightarrow> IPAddress \<Rightarrow> byte list" where
  "ip_ToString inet_ntop ip =
     (if ip_family ip \<noteq> AF_INET \<and> ip_family ip \<noteq> AF_INET6 then []
      else let src = (if ip_family ip = AF_INET6 then ip_u ip else take 4 (ip_u ip))
           in case inet_ntop (ip_family ip) src of None \<Rightarrow> [] | Some buf \<Rightarrow> buf)"

text \<open>\<open>std::string::rfind\<close> of a character.\<close>

definition rfind_char :: "byte list \<Rightarrow> byte \<Rightarrow> nat option" where
  "rfind_char s c = map_option (\<lambda>k. length s - Suc k) (find_char (rev s) c)"

definition ip_ToSensitiveString :: "(int \<Rightarrow> byte list \<Rightarrow> byte list option) \<Rightarrow> IPAddress \<Rightarrow> byte list" where
  "ip_ToSensitiveString inet_ntop ip =
     (if ip_family ip = AF_INET
      then let address = ip_ToString inet_ntop ip
           in case rfind_char address 0x2E of None \<Rightarrow> []
              | Some find_pos \<Rightarrow> take find_pos address @ map of_char ''.x''
      else if ip_family ip = AF_INET6
      then let addr = ipv6_address ip
           in hex_of (unat (addr ! 0) * 256 + unat (addr ! 1)) @ map of_char '':'' @
              hex_of (unat (addr ! 2) * 256 + unat (addr ! 3)) @ map of_char '':'' @
              hex_of (unat (addr ! 4) * 256 + unat (addr ! 5)) @ map of_char '':x:x:x:x:x''
      else [])"

subsection \<open>Prefixes and categories\<close>

text \<open>\<open>memcmp\<close> over the first \<open>length >> 3\<close> bytes.\<close>

definition IPIsHelper :: "IPAddress \<Rightarrow> byte list \<Rightarrow> nat \<Rightarrow> bool" where
  "IPIsHelper ip tomatch len \<longleftrightarrow> c_memcmp (take (len div 8) (ipv6_address ip)) (take (len div 8) tomatch) = 0"

definition IPIs6Bone :: "IPAddress \<Rightarrow> bool" where
  "IPIs6Bone ip \<longleftrightarrow> IPIsHelper ip k6BonePrefix 16"

definition IPIs6To4 :: "IPAddress \<Rightarrow> bool" where
  "IPIs6To4 ip \<longleftrightarrow> IPIsHelper ip k6To4Prefix 16"

definition IPIsTeredo :: "IPAddress \<Rightarrow> bool" where
  "IPIsTeredo ip \<longleftrightarrow> IPIsHelper ip kTeredoPrefix 32"

definition IPIsV4Compatibility :: "IPAddress \<Rightarrow> bool" where
  "IPIsV4Compatibility ip \<longleftrightarrow> IPIsHelper ip kV4CompatibilityPrefix 96"

definition IPIsV4Mapped :: "IPAddress \<Rightarrow> bool" where
  "IPIsV4Mapped ip \<longleftrightarrow> IPIsHelper ip kV4MappedPrefix 96"

definition IPIsMacBased :: "IPAddress \<Rightarrow> bool" where
  "IPIsMacBased ip \<longleftrightarrow>
     (let addr = ipv6_address ip in addr ! 8 AND 0x02 \<noteq> 0 \<and> addr ! 11 = 0xFF \<and> addr ! 12 = 0xFE)"

definition IPIsSiteLocal :: "IPAddress \<Rightarrow> bool" where
  "IPIsSiteLocal ip \<longleftrightarrow> (let addr = ipv6_address ip in addr ! 0 = 0xFE \<and> addr ! 1 AND 0xC0 = 0xC0)"

definition IPIsULA :: "IPAddress \<Rightarrow> bool" where
  "IPIsULA ip \<longleftrightarrow> (let addr = ipv6_address ip in addr ! 0 AND 0xFE = 0xFC)"

definition IPIsLinkLocalV4 :: "IPAddress \<Rightarrow> bool" where
  "IPIsLinkLocalV4 ip \<longleftrightarrow> drop_bit 16 (v4AddressAsHostOrderInteger ip) = (push_bit 8 169 OR 254)"

definition IPIsLinkLocalV6 :: "IPAddress \<Rightarrow> bool" where
  "IPIsLinkLocalV6 ip \<longleftrightarrow> (let addr = ipv6_address ip in addr ! 0 = 0xFE \<and> addr ! 1 AND 0xC0 = 0x80)"

definition IPIsLinkLocal :: "IPAddress \<Rightarrow> bool" where
  "IPIsLinkLocal ip \<longleftrightarrow>
     (if ip_family ip = AF_INET then IPIsLinkLocalV4 ip else if ip_family ip = AF_INET6 then IPIsLinkLocalV6 ip else False)"

definition IPIsPrivateNetworkV4 :: "IPAddress \<Rightarrow> bool" where
  "IPIsPrivateNetworkV4 ip \<longleftrightarrow>
     (let ip_in_host_order = v4AddressAsHostOrderInteger ip
      in drop_bit 24 ip_in_host_order = 10 \<or> drop_bit 20 ip_in_host_order = (push_bit 4 172 OR 1) \<or>
         drop_bit 16 ip_in_host_order = (push_bit 8 192 OR 168))"

definition IPIsPrivateNetworkV6 :: "IPAddress \<Rightarrow> bool" where
  "IPIsPrivateNetworkV6 ip \<longleftrightarrow> IPIsHelper ip kPrivateNetworkPrefix 8"

definition IPIsPrivateNetwork :: "IPAddress \<Rightarrow> bool" where
  "IPIsPrivateNetwork ip \<longleftrightarrow>
     (if ip_family ip = AF_INET then IPIsPrivateNetworkV4 ip
      else if ip_family ip = AF_INET6 then IPIsPrivateNetworkV6 ip else False)"

definition IPIsSharedNetworkV4 :: "IPAddress \<Rightarrow> bool" where
  "IPIsSharedNetworkV4 ip \<longleftrightarrow> drop_bit 22 (v4AddressAsHostOrderInteger ip) = (push_bit 2 100 OR 1)"

definition IPIsSharedNetwork :: "IPAddress \<Rightarrow> bool" where
  "IPIsSharedNetwork ip \<longleftrightarrow> (if ip_family ip = AF_INET then IPIsSharedNetworkV4 ip else False)"

definition IPIsAny :: "IPAddress \<Rightarrow> bool" where
  "IPIsAny ip \<longleftrightarrow>
     (if ip_family ip = AF_INET then ip_eq ip (IPAddress_host INADDR_ANY)
      else if ip_family ip = AF_INET6
      then ip_eq ip (IPAddress_in6 in6addr_any) \<or> ip_eq ip (IPAddress_in6 kV4MappedPrefix)
      else False)"

definition IPIsLoopbackV4 :: "IPAddress \<Rightarrow> bool" where
  "IPIsLoopbackV4 ip \<longleftrightarrow> drop_bit 24 (v4AddressAsHostOrderInteger ip) = 127"

definition IPIsLoopbackV6 :: "IPAddress \<Rightarrow> bool" where
  "IPIsLoopbackV6 ip \<longleftrightarrow> ip_eq ip (IPAddress_in6 in6addr_loopback)"

definition IPIsLoopback :: "IPAddress \<Rightarrow> bool" where
  "IPIsLoopback ip \<longleftrightarrow>
     (if ip_family ip = AF_INET then IPIsLoopbackV4 ip else if ip_family ip = AF_INET6 then IPIsLoopbackV6 ip else False)"

definition IPIsPrivate :: "IPAddress \<Rightarrow> bool" where
  "IPIsPrivate ip \<longleftrightarrow> IPIsLinkLocal ip \<or> IPIsLoopback ip \<or> IPIsPrivateNetwork ip \<or> IPIsSharedNetwork ip"

definition IPAddressPrecedence :: "IPAddress \<Rightarrow> int" where
  "IPAddressPrecedence ip =
     (if ip_family ip = AF_INET then 30
      else if ip_family ip = AF_INET6
      then (if IPIsLoopback ip then 60
            else if IPIsULA ip then 50
            else if IPIsV4Mapped ip then 30
            else if IPIs6To4 ip then 20
            else if IPIsTeredo ip then 10
            else if IPIsV4Compatibility ip \<or> IPIsSiteLocal ip \<or> IPIs6Bone ip then 1
            else 40)
      else 0)"

definition GetLoopbackIP :: "int \<Rightarrow> IPAddress" where
  "GetLoopbackIP family =
     (if family = AF_INET then IPAddress_host INADDR_LOOPBACK
      else if family = AF_INET6 then IPAddress_in6 in6addr_loopback else IPAddress_nil)"

definition GetAnyIP :: "int \<Rightarrow> IPAddress" where
  "GetAnyIP family =
     (if family = AF_INET then IPAddress_host INADDR_ANY
      else if family = AF_INET6 then IPAddress_in6 in6addr_any else IPAddress_nil)"

subsection \<open>Mapping between the families\<close>

definition ExtractMappedAddress :: "byte list \<Rightarrow> u32" where
  "ExtractMappedAddress in6 = word_of_nat (le_nat (take 4 (drop 12 in6)))"

definition Normalized :: "IPAddress \<Rightarrow> IPAddress" where
  "Normalized ip =
     (if ip_family ip \<noteq> AF_INET6 then ip
      else if \<not> IPIsV4Mapped ip then ip
      else IPAddress_in (ExtractMappedAddress (ip_u ip)))"

definition AsIPv6Address :: "IPAddress \<Rightarrow> IPAddress" where
  "AsIPv6Address ip =
     (if ip_family ip \<noteq> AF_INET then ip
      else IPAddress_in6 (overwrite 12 (le_bytes 4 (unat (ipv4_address ip))) kV4MappedPrefix))"

subsection \<open>Hashing, truncation and masks\<close>

text \<open>The 16 bytes seen as four integers.\<close>

definition v6_as_ints :: "byte list \<Rightarrow> nat \<Rightarrow> u32" where
  "v6_as_ints v6addr i = word_of_nat (le_nat (take 4 (drop (4 * i) v6addr)))"

definition HashIP :: "IPAddress \<Rightarrow> 64 word" where
  "HashIP ip =
     (if ip_family ip = AF_INET then ucast (ipv4_address ip)
      else if ip_family ip = AF_INET6
      then let v = v6_as_ints (ipv6_address ip) in ucast (v 0 XOR v 1 XOR v 2 XOR v 3)
      else 0)"

definition truncate_word :: "nat \<Rightarrow> u32 \<Rightarrow> nat \<Rightarrow> byte list \<Rightarrow> byte list" where
  "truncate_word position inner_mask i v6addr =
     (if i = position
      then let host_order_inner = NetworkToHost32 (v6_as_ints v6addr i)
           in overwrite (4 * i) (le_bytes 4 (unat (HostToNetwork32 (host_order_inner AND inner_mask)))) v6addr
      else if i > position then overwrite (4 * i) (le_bytes 4 0) v6addr
      else v6addr)"

definition TruncateIP :: "IPAddress \<Rightarrow> int \<Rightarrow> IPAddress" where
  "TruncateIP ip len =
     (if len < 0 then IPAddress_nil
      else if ip_family ip = AF_INET
      then (if len > 31 then ip
            else if len = 0 then IPAddress_host INADDR_ANY
            else let mask = push_bit (nat (32 - len)) 0xFFFFFFFF;
                     host_order_ip = NetworkToHost32 (ipv4_address ip)
                 in IPAddress_in (HostToNetwork32 (host_order_ip AND mask)))
      else if ip_family ip = AF_INET6
      then (if len > 127 then ip
            else if len = 0 then IPAddress_in6 in6addr_any
            else let v6addr = ipv6_address ip;
                     position = len div 32;
                     inner_length = 32 - (len - position * 32);
                     inner_mask = ucast (push_bit (nat inner_length) (0xFFFFFFFF :: 64 word))
                 in IPAddress_in6 (fold (truncate_word (nat position) inner_mask) [0..<4] v6addr))
      else IPAddress_nil)"

text \<open>The number of zero bits below the lowest set bit: that bit is isolated, and its position found by masks.\<close>

definition zeroes_below :: "u32 \<Rightarrow> u32" where
  "zeroes_below word_to_count =
     (let zeroes = 32;
          zeroes = (if word_to_count \<noteq> 0 then zeroes - 1 else zeroes);
          zeroes = (if word_to_count AND 0x0000FFFF \<noteq> 0 then zeroes - 16 else zeroes);
          zeroes = (if word_to_count AND 0x00FF00FF \<noteq> 0 then zeroes - 8 else zeroes);
          zeroes = (if word_to_count AND 0x0F0F0F0F \<noteq> 0 then zeroes - 4 else zeroes);
          zeroes = (if word_to_count AND 0x33333333 \<noteq> 0 then zeroes - 2 else zeroes)
      in if word_to_count AND 0x55555555 \<noteq> 0 then zeroes - 1 else zeroes)"

definition trailing_zeroes :: "u32 \<Rightarrow> u32" where
  "trailing_zeroes word_to_count = zeroes_below (word_to_count AND (NOT word_to_count + 1))"

text \<open>The first of the four integers that is not all ones.\<close>

function first_not_full :: "byte list \<Rightarrow> nat \<Rightarrow> nat" where
  "first_not_full v6addr i =
     (if i < 4 then if v6_as_ints v6addr i \<noteq> 0xFFFFFFFF then i else first_not_full v6addr (i + 1) else i)"
  by pat_completeness auto
termination by (relation "measure (\<lambda>(_, i). 4 - i)") auto

declare first_not_full.simps [simp del]

definition CountIPMaskBits :: "IPAddress \<Rightarrow> int" where
  "CountIPMaskBits msk =
     (if ip_family msk \<noteq> AF_INET \<and> ip_family msk \<noteq> AF_INET6 then 0
      else let (word_to_count, bits) =
             (if ip_family msk = AF_INET then (NetworkToHost32 (ipv4_address msk), 0)
              else let v6addr = ipv6_address msk; i = first_not_full v6addr 0
                   in (if i < 4 then NetworkToHost32 (v6_as_ints v6addr i) else 0, int i * 32))
           in if word_to_count = 0 then bits else bits + uint (32 - trailing_zeroes word_to_count))"

subsection \<open>Reading addresses\<close>

text \<open>
  \<open>inet_pton\<close> returns the bytes of the address, or nothing where its result is 0. \<open>out\<close> is the address the caller holds;
  \<open>None\<close> is the null pointer.
\<close>

definition IPFromString ::
  "(int \<Rightarrow> byte list \<Rightarrow> byte list option) \<Rightarrow> byte list \<Rightarrow> IPAddress option \<Rightarrow> bool \<times> IPAddress option" where
  "IPFromString inet_pton str out =
     (case out of None \<Rightarrow> (False, None)
      | Some _ \<Rightarrow>
          (case inet_pton AF_INET (c_str str) of
             None \<Rightarrow>
               (case inet_pton AF_INET6 (c_str str) of
                  None \<Rightarrow> (False, Some IPAddress_nil)
                | Some addr6 \<Rightarrow> (True, Some (IPAddress_in6 addr6)))
           | Some addr \<Rightarrow> (True, Some (IPAddress_in (word_of_nat (le_nat addr))))))"

text \<open>\<open>IPFromAddrInfo\<close>: the address is its family and the bytes of the family's address.\<close>

definition IPFromAddrInfo :: "(int \<times> byte list) option \<Rightarrow> IPAddress \<Rightarrow> bool \<times> IPAddress" where
  "IPFromAddrInfo info out =
     (case info of None \<Rightarrow> (False, out)
      | Some (sa_family, addr) \<Rightarrow>
          (if sa_family = AF_INET then (True, IPAddress_in (word_of_nat (le_nat addr)))
           else if sa_family = AF_INET6 then (True, IPAddress_in6 addr)
           else (False, out)))"

subsection \<open>Interface addresses\<close>

record InterfaceAddress = IPAddress +
  ipv6_flags :: int

definition InterfaceAddress_new :: "IPAddress \<Rightarrow> int \<Rightarrow> InterfaceAddress" where
  "InterfaceAddress_new addr flags = IPAddress.extend addr \<lparr>ipv6_flags = flags\<rparr>"

definition ifa_eq :: "InterfaceAddress \<Rightarrow> InterfaceAddress \<Rightarrow> bool" where
  "ifa_eq a other \<longleftrightarrow> ipv6_flags a = ipv6_flags other \<and> ip_eq (IPAddress.truncate a) (IPAddress.truncate other)"

definition ToHex :: "int \<Rightarrow> byte list" where
  "ToHex i = hex_of (nat (i mod 2 ^ 32))"

definition ifa_ToString :: "(int \<Rightarrow> byte list \<Rightarrow> byte list option) \<Rightarrow> InterfaceAddress \<Rightarrow> byte list" where
  "ifa_ToString inet_ntop a =
     (let result = ip_ToString inet_ntop (IPAddress.truncate a)
      in if ip_family a = AF_INET6 then result @ map of_char ''|flags:0x'' @ ToHex (ipv6_flags a) else result)"

definition IPFromString_flags ::
  "(int \<Rightarrow> byte list \<Rightarrow> byte list option) \<Rightarrow> byte list \<Rightarrow> int \<Rightarrow> InterfaceAddress \<Rightarrow> bool \<times> InterfaceAddress" where
  "IPFromString_flags inet_pton str flags out =
     (case IPFromString inet_pton str (Some IPAddress_nil) of
        (True, Some ip) \<Rightarrow> (True, InterfaceAddress_new ip flags)
      | _ \<Rightarrow> (False, out))"

section \<open>Bits of addresses\<close>

lemmas family_simps = AF_UNSPEC_def AF_INET_def AF_INET6_def

text \<open>Bit \<open>i\<close> of a byte string in network order, counted from the most significant bit of the first byte.\<close>

definition net_bit :: "byte list \<Rightarrow> nat \<Rightarrow> bool" where
  "net_bit bs i \<longleftrightarrow> bit (bs ! (i div 8)) (7 - i mod 8)"

lemma bit_add_shifted:
  fixes x y :: nat
  assumes "x < 2 ^ n"
  shows "bit (x + 2 ^ n * y) j \<longleftrightarrow> (if j < n then bit x j else bit y (j - n))"
proof (cases "j < n")
  case True
  then obtain k where k: "n = j + Suc k" by (metis less_imp_Suc_add add_Suc_right)
  have "(x + 2 ^ n * y) div 2 ^ j = x div 2 ^ j + 2 * (2 ^ k * y)"
    using div_mult_self2 [of "2 ^ j" x "2 * (2 ^ k * y)"] by (simp add: k power_add ac_simps)
  then show ?thesis using True by (simp add: bit_iff_odd)
next
  case False
  then obtain k where k: "j = n + k" by (metis le_Suc_ex not_less)
  have "(x + 2 ^ n * y) div 2 ^ j = y div 2 ^ k"
    using assms by (simp add: k power_add div_mult2_eq)
  then show ?thesis using k by (simp add: bit_iff_odd)
qed

lemma bit_le_nat: "bit (le_nat bs) j \<longleftrightarrow> j div 8 < length bs \<and> bit (bs ! (j div 8)) (j mod 8)"
proof (induction bs arbitrary: j)
  case (Cons b bs)
  show ?case
  proof (cases "j < 8")
    case True
    then show ?thesis
      using bit_add_shifted [of "unat b" 8 "le_nat bs" j] unat_byte_bound [of b] by (simp add: bit_unsigned_iff)
  next
    case False
    then obtain k where k: "j = 8 + k" by (metis le_Suc_ex not_less)
    then show ?thesis
      using bit_add_shifted [of "unat b" 8 "le_nat bs" j] unat_byte_bound [of b] Cons.IH [of k] by (simp add: div_add_self1)
  qed
qed simp

lemma net_to_host:
  assumes "length bs = 4"
  shows "NetworkToHost32 (word_of_nat (le_nat bs)) = word_of_nat (le_nat (rev bs))"
proof -
  have "le_bytes 4 (le_nat bs) = bs" using le_bytes_le_nat [of bs] assms by simp
  then show ?thesis using assms by (simp add: NetworkToHost32_def swap_bytes_def unat_of_le)
qed

lemma net_position:
  assumes "i < 32"
  shows "(31 - i) div 8 = 3 - i div 8 \<and> (31 - i) mod 8 = 7 - i mod 8 \<and> i div 8 < (4 :: nat)"
proof -
  obtain a b where i: "i = 8 * a + b" "b < 8" by (metis div_mult_mod_eq mod_less_divisor mult.commute zero_less_numeral)
  obtain c where c: "7 - b = c" "c < 8" by simp
  from i have "a < 4" "31 - i = c + 8 * (3 - a)" using assms c by simp_all
  with i c show ?thesis by (simp add: div_add1_eq)
qed

lemma host_bit:
  assumes "length bs = 4" "i < 32"
  shows "bit (NetworkToHost32 (word_of_nat (le_nat bs))) (31 - i) \<longleftrightarrow> net_bit bs i"
proof -
  note p = net_position [OF assms(2)]
  have "rev bs ! (3 - i div 8) = bs ! (i div 8)" using assms p by (simp add: rev_nth)
  moreover have "31 - i < 32" "3 - i div 8 < 4" by (simp_all add: less_Suc_eq_le)
  ultimately show ?thesis
    using assms p by (simp add: net_to_host bit_unsigned_iff bit_le_nat net_bit_def bit_of_nat_iff)
qed

lemma host_of_net [simp]: "NetworkToHost32 (HostToNetwork32 w) = w"
  by (simp add: NetworkToHost32_def HostToNetwork32_def swap_bytes_swap)

lemma word_of_stored [simp]: "word_of_nat (le_nat (le_bytes 4 (unat w))) = (w :: u32)"
  by (rule word_of_le_bytes) simp

lemma stored_bit: "i < 32 \<Longrightarrow> net_bit (le_bytes 4 (unat (HostToNetwork32 w))) i \<longleftrightarrow> bit w (31 - i)"
  using host_bit [of "le_bytes 4 (unat (HostToNetwork32 w))" i] by simp

lemma word_eq_bits: "(\<And>i. i < 32 \<Longrightarrow> bit v (31 - i) \<longleftrightarrow> bit w (31 - i)) \<Longrightarrow> v = (w :: u32)"
proof (rule bit_word_eqI)
  fix n assume eq: "\<And>i. i < 32 \<Longrightarrow> bit v (31 - i) \<longleftrightarrow> bit w (31 - i)" and "n < LENGTH(32)"
  then show "bit v n \<longleftrightarrow> bit w n" using eq [of "31 - n"] by simp
qed

text \<open>The bytes of one of the four integers, and its bits.\<close>

lemma net_bit_part:
  assumes "length bs = 16" "i < 4" "j < 32"
  shows "net_bit (take 4 (drop (4 * i) bs)) j \<longleftrightarrow> net_bit bs (32 * i + j)"
proof -
  have "(32 * i + j) div 8 = 4 * i + j div 8" "(32 * i + j) mod 8 = j mod 8" "j div 8 < 4"
    using assms(3) by (simp_all add: div_add1_eq mod_add_eq [symmetric] less_mult_imp_div_less)
  then show ?thesis using assms by (simp add: net_bit_def)
qed

lemma v6_int_bit:
  assumes "length bs = 16" "i < 4" "j < 32"
  shows "bit (NetworkToHost32 (v6_as_ints bs i)) (31 - j) \<longleftrightarrow> net_bit bs (32 * i + j)"
  using host_bit [of "take 4 (drop (4 * i) bs)" j] net_bit_part [OF assms] assms by (simp add: v6_as_ints_def)

text \<open>A mask of ones shifted left keeps the upper bits.\<close>

lemma shifted_ones:
  "i < 32 \<Longrightarrow> m \<le> 32 \<Longrightarrow> bit (push_bit m 0xFFFFFFFF :: u32) (31 - i) \<longleftrightarrow> i < 32 - m"
  "i < 32 \<Longrightarrow> m \<le> 32 \<Longrightarrow> bit (ucast (push_bit m (0xFFFFFFFF :: 64 word)) :: u32) (31 - i) \<longleftrightarrow> i < 32 - m"
proof -
  have ones: "bit (0xFFFFFFFF :: int) j \<longleftrightarrow> j < 32" for j
    using bit_mask_iff [where 'a = int, of 32 j] by (simp add: mask_eq_exp_minus_1)
  show "i < 32 \<Longrightarrow> m \<le> 32 \<Longrightarrow> bit (push_bit m 0xFFFFFFFF :: u32) (31 - i) \<longleftrightarrow> i < 32 - m"
    "i < 32 \<Longrightarrow> m \<le> 32 \<Longrightarrow> bit (ucast (push_bit m (0xFFFFFFFF :: 64 word)) :: u32) (31 - i) \<longleftrightarrow> i < 32 - m"
    by (auto simp: bit_push_bit_iff bit_unsigned_iff ones)
qed

section \<open>Well-formed addresses\<close>

definition ip_wf :: "IPAddress \<Rightarrow> bool" where
  "ip_wf ip \<longleftrightarrow> length (ip_u ip) = 16 \<and> ip_family ip \<in> {AF_UNSPEC, AF_INET, AF_INET6}"

text \<open>The number of bits an address has, and its bits.\<close>

definition ip_width :: "IPAddress \<Rightarrow> nat" where
  "ip_width ip = 8 * ip_Size ip"

abbreviation ip_bit :: "IPAddress \<Rightarrow> nat \<Rightarrow> bool" where
  "ip_bit ip \<equiv> net_bit (ip_u ip)"

lemma ip_wf_cases:
  assumes "ip_wf ip"
  obtains "ip_family ip = AF_UNSPEC" "ip_width ip = 0" | "ip_family ip = AF_INET" "ip_width ip = 32"
  | "ip_family ip = AF_INET6" "ip_width ip = 128"
  using assms by (auto simp: ip_wf_def ip_width_def ip_Size_def family_simps)

lemma ip_wf_new [simp]:
  "ip_wf IPAddress_nil" "ip_wf (IPAddress_in w)" "ip_wf (IPAddress_host w)" "ip_wf (IPAddress_in6 bs) \<longleftrightarrow> length bs = 16"
  by (simp_all add: ip_wf_def IPAddress_nil_def IPAddress_in_def IPAddress_host_def IPAddress_in6_def family_simps)

lemma in6_consts [simp]: "length in6addr_any = 16" "length in6addr_loopback = 16" "length kV4MappedPrefix = 16"
  by (simp_all add: in6addr_any_def in6addr_loopback_def kV4MappedPrefix_def in6_init_def)

lemma family_new [simp]:
  "ip_family IPAddress_nil = AF_UNSPEC" "ip_family (IPAddress_in w) = AF_INET" "ip_family (IPAddress_host w) = AF_INET"
  "ip_family (IPAddress_in6 bs) = AF_INET6" "ip_u (IPAddress_in6 bs) = bs"
  by (simp_all add: IPAddress_nil_def IPAddress_in_def IPAddress_host_def IPAddress_in6_def)

lemma families_differ [simp]:
  "AF_INET \<noteq> AF_INET6" "AF_INET6 \<noteq> AF_INET" "AF_INET \<noteq> AF_UNSPEC" "AF_UNSPEC \<noteq> AF_INET"
  "AF_INET6 \<noteq> AF_UNSPEC" "AF_UNSPEC \<noteq> AF_INET6"
  by (simp_all add: family_simps)

lemma ip_width_new [simp]: "ip_width (IPAddress_in w) = 32" "ip_width (IPAddress_host w) = 32" "ip_width (IPAddress_in6 bs) = 128"
  by (simp_all add: ip_width_def ip_Size_def)

lemma take_new [simp]:
  "take 4 (ip_u (IPAddress_in w)) = le_bytes 4 (unat w)"
  "take 4 (ip_u (IPAddress_host w)) = le_bytes 4 (unat (HostToNetwork32 w))"
  by (simp_all add: IPAddress_in_def IPAddress_host_def overwrite_def)

lemma net_bit_take: "i < 8 * n \<Longrightarrow> net_bit (take n bs) i \<longleftrightarrow> net_bit bs i"
  by (simp add: net_bit_def less_mult_imp_div_less mult.commute)

lemma ip_bit_v4: "i < 32 \<Longrightarrow> ip_bit ip i \<longleftrightarrow> net_bit (take 4 (ip_u ip)) i"
  by (rule net_bit_take [symmetric]) simp

lemma ip_bit_new [simp]:
  "i < 32 \<Longrightarrow> ip_bit (IPAddress_host w) i \<longleftrightarrow> bit w (31 - i)"
  "i < 32 \<Longrightarrow> ip_bit (IPAddress_in (HostToNetwork32 w)) i \<longleftrightarrow> bit w (31 - i)"
  by (simp_all add: ip_bit_v4 stored_bit)

lemma v4_bit:
  "length (ip_u ip) = 16 \<Longrightarrow> i < 32 \<Longrightarrow> bit (NetworkToHost32 (ipv4_address ip)) (31 - i) \<longleftrightarrow> ip_bit ip i"
  by (simp add: ipv4_address_def host_bit ip_bit_v4)

section \<open>Truncation\<close>

text \<open>The four integers of the address, one at a time.\<close>

abbreviation part :: "nat \<Rightarrow> byte list \<Rightarrow> byte list" where
  "part k bs \<equiv> take 4 (drop (4 * k) bs)"

lemma part_overwrite:
  assumes "length bs = 16" "i < 4" "k < 4" "length w = 4"
  shows "part k (overwrite (4 * i) w bs) = (if k = i then w else part k bs)"
proof -
  consider "k = i" | "k < i" | "i < k" by linarith
  then show ?thesis
  proof cases
    case 2
    then obtain d where "i = Suc (k + d)" by (metis less_iff_Suc_add)
    with assms show ?thesis by (simp add: overwrite_def drop_take)
  next
    case 3
    then obtain d where "k = Suc (i + d)" by (metis less_iff_Suc_add)
    with assms show ?thesis by (simp add: overwrite_def add.commute add.left_commute)
  qed (use assms in \<open>simp add: overwrite_def\<close>)
qed

definition kept :: "nat \<Rightarrow> u32 \<Rightarrow> nat \<Rightarrow> byte list \<Rightarrow> byte list" where
  "kept p m k w =
     (if k = p then le_bytes 4 (unat (HostToNetwork32 (NetworkToHost32 (word_of_nat (le_nat w)) AND m)))
      else if k > p then le_bytes 4 0 else w)"

lemma truncate_word_part:
  assumes "length bs = 16" "i < 4" "k < 4"
  shows "length (truncate_word p m i bs) = 16"
    "part k (truncate_word p m i bs) = (if k = i then kept p m k (part k bs) else part k bs)"
  using assms by (simp_all add: truncate_word_def kept_def v6_as_ints_def Let_def part_overwrite)

lemma truncate_words_part:
  assumes "length bs = 16" "n \<le> 4" "k < 4"
  shows "length (fold (truncate_word p m) [0..<n] bs) = 16 \<and>
    part k (fold (truncate_word p m) [0..<n] bs) = (if k < n then kept p m k (part k bs) else part k bs)"
  using assms(2) by (induction n) (use assms in \<open>auto simp: truncate_word_part less_Suc_eq\<close>)

lemma net_bit_zeros: "i < 8 * n \<Longrightarrow> \<not> net_bit (replicate n 0) i"
  by (simp add: net_bit_def less_mult_imp_div_less mult.commute)

lemma kept_bit:
  assumes "length w = 4" "j < 32" "n < 128"
  shows "net_bit (kept (n div 32) (ucast (push_bit (32 - n mod 32) (0xFFFFFFFF :: 64 word))) k w) j \<longleftrightarrow> 32 * k + j < n \<and> net_bit w j"
proof -
  consider "k < n div 32" | "k = n div 32" | "k > n div 32" by linarith
  then show ?thesis
  proof cases
    case 1
    then have "32 * k + 32 \<le> 32 * (n div 32)" by simp
    then have "32 * k + j < n" using assms(2) by simp
    with 1 show ?thesis by (simp add: kept_def)
  next
    case 2
    then have "32 * k + j < n \<longleftrightarrow> j < n mod 32" using div_mult_mod_eq [of n 32] by linarith
    moreover have "n mod 32 \<le> 32" by (simp add: less_imp_le)
    ultimately show ?thesis
      using 2 assms by (simp add: kept_def stored_bit bit_and_iff shifted_ones host_bit conj_commute)
  next
    case 3
    then have "n < 32 * k" by (simp add: div_less_iff_less_mult mult.commute)
    then show ?thesis using 3 assms net_bit_zeros [of j 4] by (simp add: kept_def le_bytes_zero)
  qed
qed

lemma truncate_v6_bit:
  assumes "length bs = 16" "n < 128" "i < 128"
  shows "net_bit (fold (truncate_word (n div 32) (ucast (push_bit (32 - n mod 32) (0xFFFFFFFF :: 64 word)))) [0..<4] bs) i \<longleftrightarrow>
    i < n \<and> net_bit bs i"
proof -
  define m :: u32 where "m = ucast (push_bit (32 - n mod 32) (0xFFFFFFFF :: 64 word))"
  define r where "r = fold (truncate_word (n div 32) m) [0..<4] bs"
  let ?k = "i div 32" and ?j = "i mod 32"
  have k: "?k < 4" "?j < 32" and i: "32 * ?k + ?j = i" using assms(3) by (simp_all add: less_mult_imp_div_less)
  note r = truncate_words_part [OF assms(1) le_refl k(1), of "n div 32" m, folded r_def]
  have len: "length (part ?k bs) = 4" using k assms(1) by simp
  have "net_bit r i \<longleftrightarrow> net_bit (part ?k r) ?j"
    using net_bit_part [of r ?k ?j] r k i by simp
  also have "\<dots> \<longleftrightarrow> i < n \<and> net_bit (part ?k bs) ?j"
    using r k kept_bit [OF len k(2) assms(2), of ?k, folded m_def] i by simp
  finally show ?thesis using net_bit_part [of bs ?k ?j] k i assms(1) unfolding r_def m_def by simp
qed

lemma TruncateIP_bits:
  assumes "ip_wf ip" "ip_family ip \<noteq> AF_UNSPEC" "n \<le> ip_width ip"
  shows "ip_wf (TruncateIP ip (int n)) \<and> ip_family (TruncateIP ip (int n)) = ip_family ip \<and>
    (\<forall>i < ip_width ip. ip_bit (TruncateIP ip (int n)) i \<longleftrightarrow> i < n \<and> ip_bit ip i)"
  using assms(1)
proof (cases rule: ip_wf_cases)
  case 1
  with assms show ?thesis by simp
next
  case 2
  then have len: "length (ip_u ip) = 16" and n: "n \<le> 32" using assms by (simp_all add: ip_wf_def)
  consider "n = 32" | "n = 0" | "0 < n" "n < 32" using n by linarith
  then show ?thesis
  proof cases
    case 3
    then have "nat (32 - int n) = 32 - n" by simp
    with 2 3 len show ?thesis
      by (simp add: TruncateIP_def Let_def bit_and_iff shifted_ones v4_bit conj_commute)
  qed (use 2 assms in \<open>simp_all add: TruncateIP_def INADDR_ANY_def\<close>)
next
  case 3
  then have len: "length (ip_u ip) = 16" and n: "n \<le> 128" using assms by (simp_all add: ip_wf_def)
  consider "n = 128" | "n = 0" | "0 < n" "n < 128" using n by linarith
  then show ?thesis
  proof cases
    case 2
    with 3 show ?thesis using net_bit_zeros [of _ 16] by (simp add: TruncateIP_def in6addr_any_def)
  next
    case q: 3
    have "int n - int n div 32 * 32 = int (n mod 32)" by (simp add: minus_div_mult_eq_mod zmod_int)
    then have "TruncateIP ip (int n) = IPAddress_in6 (fold (truncate_word (n div 32) (ucast (push_bit (32 - n mod 32) (0xFFFFFFFF :: 64 word)))) [0..<4] (ip_u ip))"
      using q 3 by (simp add: TruncateIP_def Let_def ipv6_address_def nat_diff_distrib nat_div_distrib del: upt_rec_numeral)
    with 3 q len show ?thesis
      using truncate_v6_bit [OF len q(2)] truncate_words_part [OF len le_refl, of 0] by (simp del: upt_rec_numeral)
  qed (use 3 assms in \<open>simp_all add: TruncateIP_def\<close>)
qed

section \<open>Counting mask bits\<close>

text \<open>A word and its negation have the lowest set bit in common and nothing else.\<close>

lemma isolate_lowest:
  fixes w :: "'a::len word"
  assumes k: "bit w k" and low: "\<And>j. j < k \<Longrightarrow> \<not> bit w j"
  shows "w AND (NOT w + 1) = push_bit k 1"
proof -
  define y where "y = push_bit (Suc k) (drop_bit (Suc k) (NOT w))"
  have lt: "k < LENGTH('a)" using k by (rule bit_imp_le_length)
  have y: "bit y j \<longleftrightarrow> Suc k \<le> j \<and> j < LENGTH('a) \<and> \<not> bit w j" for j
    by (auto simp: y_def bit_push_bit_iff bit_drop_bit_eq bit_not_iff simp del: push_bit_Suc)
  have "NOT w = y OR Bit_Operations.mask k"
    using k low by (intro bit_word_eqI) (auto simp: bit_or_iff bit_not_iff y bit_mask_iff not_less_eq_eq nat_less_le)
  also have "\<dots> = y + Bit_Operations.mask k"
    by (rule disjunctive_add [symmetric]) (auto simp: y bit_mask_iff)
  finally have "NOT w + 1 = y + push_bit k 1" by (simp add: mask_eq_exp_minus_1 push_bit_eq_mult)
  also have "\<dots> = y OR push_bit k 1"
    by (rule disjunctive_add) (auto simp: y bit_exp_iff)
  finally show ?thesis
    using k lt by (intro bit_word_eqI) (auto simp: bit_and_iff bit_or_iff y bit_exp_iff)
qed

lemma zeroes_below_powers: "list_all (\<lambda>k. zeroes_below (push_bit k 1) = word_of_nat k) [0..<32]"
  by code_simp

lemma trailing_zeroes_power: "k < 32 \<Longrightarrow> w AND (NOT w + 1) = push_bit k 1 \<Longrightarrow> trailing_zeroes w = word_of_nat k"
  using zeroes_below_powers by (simp only: trailing_zeroes_def list_all_iff set_upt atLeastLessThan_iff le0 simp_thms)

lemma trailing_zeroes_correct:
  "bit w k \<Longrightarrow> (\<And>j. j < k \<Longrightarrow> \<not> bit w j) \<Longrightarrow> trailing_zeroes w = word_of_nat k"
  using isolate_lowest [of w k] trailing_zeroes_power [of k w] bit_imp_le_length [of w k] by simp

lemma count_word:
  assumes "\<And>i. i < 32 \<Longrightarrow> bit w (31 - i) \<longleftrightarrow> i < n" "n \<le> 32"
  shows "(if w = 0 then 0 else uint (32 - trailing_zeroes w)) = int n"
proof (cases "n = 0")
  case True
  then have "w = 0" using assms(1) by (intro word_eq_bits) simp
  with True show ?thesis by simp
next
  case False
  have "bit w (32 - n)" using assms(1) [of "n - 1"] assms(2) False by simp
  moreover have "\<not> bit w j" if "j < 32 - n" for j using assms(1) [of "31 - j"] that by simp
  ultimately have "trailing_zeroes w = word_of_nat (32 - n)" "w \<noteq> 0" by (auto intro: trailing_zeroes_correct)
  moreover have "(32 :: u32) - word_of_nat (32 - n) = word_of_nat n"
    using assms(2) of_nat_diff [of n 32, where 'a = u32] by simp
  ultimately show ?thesis using assms(2) by (simp add: unsigned_of_nat take_bit_nat_eq_self)
qed

lemma full_word_iff: "NetworkToHost32 x = 0xFFFFFFFF \<longleftrightarrow> x = 0xFFFFFFFF"
proof -
  have four: "(4 :: nat) = Suc (Suc (Suc (Suc 0)))" by simp
  have "le_bytes 4 4294967295 = [255, 255, 255, 255]" unfolding four by simp
  then have all: "swap_bytes 4 (0xFFFFFFFF :: u32) = 0xFFFFFFFF" by (simp add: swap_bytes_def)
  show ?thesis
  proof
    assume "NetworkToHost32 x = 0xFFFFFFFF"
    then have "swap_bytes 4 (swap_bytes 4 x) = swap_bytes 4 (0xFFFFFFFF :: u32)" by (simp add: NetworkToHost32_def)
    then show "x = 0xFFFFFFFF" using all by (simp add: swap_bytes_swap)
  qed (simp add: NetworkToHost32_def all)
qed

lemma v6_int_full:
  assumes "length bs = 16" "i < 4"
  shows "v6_as_ints bs i = 0xFFFFFFFF \<longleftrightarrow> (\<forall>j < 32. net_bit bs (32 * i + j))"
proof -
  have ones: "bit (0xFFFFFFFF :: u32) (31 - j) \<longleftrightarrow> True" if "j < 32" for j using shifted_ones(1) [of j 0] that by simp
  show ?thesis
    using v6_int_bit [OF assms] ones word_eq_bits [of "NetworkToHost32 (v6_as_ints bs i)" "0xFFFFFFFF"] full_word_iff [of "v6_as_ints bs i"]
    by metis
qed

lemma first_not_full_prefix:
  assumes "length bs = 16" "\<And>i. i < 128 \<Longrightarrow> net_bit bs i \<longleftrightarrow> i < n" "n \<le> 128" "i \<le> n div 32"
  shows "first_not_full bs i = n div 32"
  using assms(4)
proof (induction "n div 32 - i" arbitrary: i)
  case 0
  then have i: "i = n div 32" "i \<le> 4" using assms(3) div_le_mono [of n 128 32] by simp_all
  have "v6_as_ints bs i \<noteq> 0xFFFFFFFF" if "i < 4"
  proof -
    have "\<not> 32 * i + 31 < n" "32 * i + 31 < 128"
      using that i div_mult_mod_eq [of n 32] mod_less_divisor [of 32 n] by linarith+
    with that assms(1,2) show ?thesis by (auto simp: v6_int_full intro!: exI [of _ 31])
  qed
  with i show ?case by (simp add: first_not_full.simps)
next
  case (Suc d)
  then have i: "i < n div 32" "i < 4" using assms(3) div_le_mono [of n 128 32] by simp_all
  then have "32 * i + j < n" if "j < 32" for j using that div_times_less_eq_dividend [of n 32] by linarith
  with i assms(1-3) have "v6_as_ints bs i = 0xFFFFFFFF" by (simp add: v6_int_full)
  with i Suc show ?case by (simp add: first_not_full.simps [of bs i])
qed

lemma CountIPMaskBits_prefix:
  assumes "ip_wf msk" "\<And>i. i < ip_width msk \<Longrightarrow> ip_bit msk i \<longleftrightarrow> i < n" "n \<le> ip_width msk"
  shows "CountIPMaskBits msk = int n"
  using assms(1)
proof (cases rule: ip_wf_cases)
  case 1
  with assms(3) show ?thesis by (simp add: CountIPMaskBits_def)
next
  case 2
  then have "(if NetworkToHost32 (ipv4_address msk) = 0 then 0
      else uint (32 - trailing_zeroes (NetworkToHost32 (ipv4_address msk)))) = int n"
    using assms by (intro count_word) (simp_all add: v4_bit ip_wf_def)
  with 2 show ?thesis by (simp add: CountIPMaskBits_def split: if_splits)
next
  case 3
  then have len: "length (ip_u msk) = 16" and n: "n \<le> 128" using assms by (simp_all add: ip_wf_def)
  have first: "first_not_full (ip_u msk) 0 = n div 32" using assms(2) 3 by (intro first_not_full_prefix len n) simp_all
  show ?thesis
  proof (cases "n div 32 < 4")
    case True
    let ?w = "NetworkToHost32 (v6_as_ints (ip_u msk) (n div 32))"
    have "bit ?w (31 - i) \<longleftrightarrow> i < n mod 32" if "i < 32" for i
    proof -
      have "32 * (n div 32) + i < n \<longleftrightarrow> i < n mod 32" using div_mult_mod_eq [of n 32] by linarith
      moreover have "32 * (n div 32) + i < 128" using True that by linarith
      ultimately show ?thesis using v6_int_bit [OF len True that] assms(2) 3 by simp
    qed
    then have "(if ?w = 0 then 0 else uint (32 - trailing_zeroes ?w)) = int (n mod 32)"
      by (intro count_word) (simp_all add: less_imp_le)
    then have "CountIPMaskBits msk = int (n div 32) * 32 + int (n mod 32)"
      using 3 first True by (simp add: CountIPMaskBits_def ipv6_address_def Let_def split: if_splits)
    then show ?thesis by (metis div_mult_mod_eq of_nat_add of_nat_mult of_nat_numeral)
  next
    case False
    then have "n = 128" using n by simp
    with 3 first show ?thesis by (simp add: CountIPMaskBits_def ipv6_address_def Let_def)
  qed
qed

section \<open>Addresses as ordered keys\<close>

text \<open>
  What a type needs to be the key of a sorted container: its comparison and its equality are those of a key with a linear
  order. A comparison of that form puts any two values in one of three relations and sorts them.
\<close>

locale key_order =
  fixes ok :: "'a \<Rightarrow> bool" and eq :: "'a \<Rightarrow> 'a \<Rightarrow> bool" and less :: "'a \<Rightarrow> 'a \<Rightarrow> bool" and key :: "'a \<Rightarrow> 'k::linorder"
  assumes eq_key: "ok a \<Longrightarrow> ok b \<Longrightarrow> eq a b \<longleftrightarrow> key a = key b"
    and less_key: "ok a \<Longrightarrow> ok b \<Longrightarrow> less a b \<longleftrightarrow> key a < key b"
begin

lemma trichotomy:
  assumes "ok a" "ok b"
  shows "(less a b \<and> \<not> eq a b \<and> \<not> less b a) \<or> (\<not> less a b \<and> eq a b \<and> \<not> less b a) \<or> (\<not> less a b \<and> \<not> eq a b \<and> less b a)"
  using assms by (auto simp: eq_key less_key)

lemma less_trans: "ok a \<Longrightarrow> ok b \<Longrightarrow> ok c \<Longrightarrow> less a b \<Longrightarrow> less b c \<Longrightarrow> less a c"
  using less_trans by (auto simp: less_key)

lemma eq_equivalence:
  "ok a \<Longrightarrow> eq a a" "ok a \<Longrightarrow> ok b \<Longrightarrow> eq a b \<Longrightarrow> eq b a" "ok a \<Longrightarrow> ok b \<Longrightarrow> ok c \<Longrightarrow> eq a b \<Longrightarrow> eq b c \<Longrightarrow> eq a c"
  by (auto simp: eq_key)

lemma less_cong: "ok a \<Longrightarrow> ok b \<Longrightarrow> ok c \<Longrightarrow> ok d \<Longrightarrow> eq a b \<Longrightarrow> eq c d \<Longrightarrow> less a c \<longleftrightarrow> less b d"
  by (auto simp: eq_key less_key)

lemma strict_total_order:
  assumes "ok a" "ok b" "ok c"
  shows "(less a b \<and> \<not> eq a b \<and> \<not> less b a) \<or> (\<not> less a b \<and> eq a b \<and> \<not> less b a) \<or> (\<not> less a b \<and> \<not> eq a b \<and> less b a)"
    and "less a b \<and> less b c \<longrightarrow> less a c"
    and "eq a b \<longrightarrow> (less a c \<longleftrightarrow> less b c) \<and> (less c a \<longleftrightarrow> less c b) \<and> (eq a c \<longleftrightarrow> eq b c)"
  using trichotomy [OF assms(1,2)] less_trans [OF assms] assms by (auto simp: eq_key less_key)

end

text \<open>The value of bytes in network order.\<close>

abbreviation be_nat :: "byte list \<Rightarrow> nat" where
  "be_nat bs \<equiv> le_nat (rev bs)"

lemma le_nat_append: "le_nat (xs @ ys) = le_nat xs + 256 ^ length xs * le_nat ys"
  by (induction xs) (simp_all add: algebra_simps)

lemma digits_less:
  fixes x y a b N :: nat
  assumes "x < N" "y < N"
  shows "x + N * a < y + N * b \<longleftrightarrow> a < b \<or> a = b \<and> x < y" and "x + N * a = y + N * b \<longleftrightarrow> a = b \<and> x = y"
proof -
  have step: "x + N * a < y + N * b" if "a < b" "x < N" for x y a b :: nat
  proof -
    have "x + N * a < N * Suc a" using that(2) by simp
    also have "\<dots> \<le> N * b" using that(1) by (simp only: mult_le_mono2 Suc_leI)
    finally show ?thesis by simp
  qed
  show "x + N * a < y + N * b \<longleftrightarrow> a < b \<or> a = b \<and> x < y" "x + N * a = y + N * b \<longleftrightarrow> a = b \<and> x = y"
    using step [of a b x y] step [of b a y x] assms by (cases a b rule: linorder_cases; simp)+
qed

lemma memcmp_be_nat:
  assumes "length as = length bs"
  shows "(c_memcmp as bs < 0 \<longleftrightarrow> be_nat as < be_nat bs) \<and> (c_memcmp as bs = 0 \<longleftrightarrow> be_nat as = be_nat bs)"
  using assms
proof (induction as bs rule: list_induct2)
  case (Cons a as b bs)
  have N: "le_nat (rev as) < 256 ^ length as" "le_nat (rev bs) < 256 ^ length as"
    using le_nat_bound [of "rev as"] le_nat_bound [of "rev bs"] Cons.hyps by simp_all
  show ?case using Cons.IH Cons.hyps digits_less [OF N, of "unat a" "unat b"]
    by (auto simp: le_nat_append word_less_nat_alt)
qed simp

lemma host_unat: "length (ip_u ip) = 16 \<Longrightarrow> unat (NetworkToHost32 (ipv4_address ip)) = be_nat (take 4 (ip_u ip))"
  by (simp add: ipv4_address_def net_to_host unat_of_le)

definition ip_key :: "IPAddress \<Rightarrow> nat \<times> nat" where
  "ip_key ip =
     (if ip_family ip = AF_INET then (1, be_nat (take 4 (ip_u ip)))
      else if ip_family ip = AF_INET6 then (2, be_nat (ip_u ip)) else (0, 0))"

interpretation ip: key_order ip_wf ip_eq ip_less ip_key
proof
  fix a b assume "ip_wf a" "ip_wf b"
  then have len: "length (ip_u a) = 16" "length (ip_u b) = 16"
    and fam: "ip_family a \<in> {AF_UNSPEC, AF_INET, AF_INET6}" "ip_family b \<in> {AF_UNSPEC, AF_INET, AF_INET6}"
    by (simp_all add: ip_wf_def)
  then show "ip_eq a b \<longleftrightarrow> ip_key a = ip_key b"
    using memcmp_be_nat [of "ip_u a" "ip_u b"] memcmp_be_nat [of "take 4 (ip_u a)" "take 4 (ip_u b)"]
    by (auto simp: ip_eq_def ip_key_def)
  show "ip_less a b \<longleftrightarrow> ip_key a < ip_key b"
    using memcmp_be_nat [of "ip_u a" "ip_u b"] len fam
    by (auto simp: ip_less_def ip_key_def word_less_nat_alt host_unat)
qed

lemma le_nat_inj: "length as = length bs \<Longrightarrow> le_nat as = le_nat bs \<longleftrightarrow> as = bs"
  by (metis le_bytes_le_nat)

lemma ip_key_cases:
  assumes "ip_wf a" "ip_wf b"
  shows "ip_key a = ip_key b \<longleftrightarrow> ip_family a = ip_family b \<and>
    (ip_family a = AF_INET \<longrightarrow> take 4 (ip_u a) = take 4 (ip_u b)) \<and> (ip_family a = AF_INET6 \<longrightarrow> ip_u a = ip_u b)"
  using assms le_nat_inj [of "rev (ip_u a)" "rev (ip_u b)"] le_nat_inj [of "rev (take 4 (ip_u a))" "rev (take 4 (ip_u b))"]
  by (auto simp: ip_key_def ip_wf_def)

lemma ip_eq_HashIP: "ip_wf a \<Longrightarrow> ip_wf b \<Longrightarrow> ip_eq a b \<Longrightarrow> HashIP a = HashIP b"
  by (auto simp: ip.eq_key ip_key_cases HashIP_def ipv4_address_def ipv6_address_def)

section \<open>Mapping between the families\<close>

lemma mapped_prefix: "take 12 kV4MappedPrefix = [0, 0, 0, 0, 0, 0, 0, 0, 0, 0, 0xFF, 0xFF]"
  by (simp add: kV4MappedPrefix_def in6_init_def)

lemma IPIsV4Mapped_iff: "length (ip_u ip) = 16 \<Longrightarrow> IPIsV4Mapped ip \<longleftrightarrow> take 12 (ip_u ip) = take 12 kV4MappedPrefix"
  by (simp add: IPIsV4Mapped_def IPIsHelper_def ipv6_address_def c_memcmp_lexord)

lemma le_bytes_word: "length bs = 4 \<Longrightarrow> le_bytes 4 (unat (word_of_nat (le_nat bs) :: u32)) = bs"
  using le_bytes_le_nat [of bs] by (simp add: unat_of_le)

lemma AsIPv6_bytes:
  assumes "ip_wf ip" "ip_family ip = AF_INET"
  shows "AsIPv6Address ip = IPAddress_in6 (take 12 kV4MappedPrefix @ take 4 (ip_u ip))"
  using assms by (simp add: AsIPv6Address_def overwrite_def ipv4_address_def le_bytes_word ip_wf_def)

lemma Normalized_mapped:
  assumes "length bs = 4"
  shows "Normalized (IPAddress_in6 (take 12 kV4MappedPrefix @ bs)) = IPAddress_in (word_of_nat (le_nat bs))"
  using assms by (simp add: Normalized_def IPIsV4Mapped_iff ExtractMappedAddress_def)

lemma v4_of_bytes: "length bs = 4 \<Longrightarrow> take 4 (ip_u (IPAddress_in (word_of_nat (le_nat bs)))) = bs"
  by (simp add: le_bytes_word)

text \<open>An address is nil, plain IPv4, mapped IPv4, or an IPv6 address outside the mapped range.\<close>

lemma ip_wf_forms:
  assumes "ip_wf ip"
  obtains "ip_family ip = AF_UNSPEC" | "ip_family ip = AF_INET"
  | bs where "length bs = 4" "ip = IPAddress_in6 (take 12 kV4MappedPrefix @ bs)"
  | "ip_family ip = AF_INET6" "\<not> IPIsV4Mapped ip"
proof -
  have "ip = IPAddress_in6 (take 12 kV4MappedPrefix @ drop 12 (ip_u ip))" if "ip_family ip = AF_INET6" "IPIsV4Mapped ip"
  proof -
    have "ip_u ip = take 12 kV4MappedPrefix @ drop 12 (ip_u ip)"
      using that assms by (metis IPIsV4Mapped_iff append_take_drop_id ip_wf_def)
    with that show ?thesis by (cases ip) (simp add: IPAddress_in6_def)
  qed
  then show ?thesis using that(1,2,4) that(3) [of "drop 12 (ip_u ip)"] assms by (auto simp: ip_wf_def)
qed

lemma mapping_shapes:
  assumes "ip_wf ip"
  shows "ip_wf (AsIPv6Address ip)" "ip_wf (Normalized ip)"
    "ip_family ip \<noteq> AF_UNSPEC \<Longrightarrow> ip_family (AsIPv6Address ip) = AF_INET6"
    "Normalized ip = ip \<or> ip_family (Normalized ip) = AF_INET"
  using assms by (auto simp: AsIPv6Address_def Normalized_def ip_wf_def [of ip])

lemma mapping_inverse:
  assumes "ip_wf ip"
  shows "ip_key (Normalized (AsIPv6Address ip)) = ip_key (Normalized ip)"
    "ip_key (AsIPv6Address (Normalized ip)) = ip_key (AsIPv6Address ip)"
proof -
  from assms have "ip_key (Normalized (AsIPv6Address ip)) = ip_key (Normalized ip) \<and>
    ip_key (AsIPv6Address (Normalized ip)) = ip_key (AsIPv6Address ip)"
  proof (cases rule: ip_wf_forms)
    case 2
    then have "Normalized (AsIPv6Address ip) = IPAddress_in (word_of_nat (le_nat (take 4 (ip_u ip))))" "Normalized ip = ip"
      using assms by (simp_all add: AsIPv6_bytes Normalized_mapped ip_wf_def, simp add: Normalized_def)
    then show ?thesis using assms 2 by (simp add: ip_key_cases le_bytes_word ip_wf_def [of ip])
  next
    case (3 bs)
    then have "Normalized ip = IPAddress_in (word_of_nat (le_nat bs))" "AsIPv6Address ip = ip"
      by (simp_all add: Normalized_mapped) (simp add: AsIPv6Address_def)
    then show ?thesis using 3 by (simp add: AsIPv6_bytes le_bytes_word)
  qed (simp_all add: AsIPv6Address_def Normalized_def)
  then show "ip_key (Normalized (AsIPv6Address ip)) = ip_key (Normalized ip)"
    "ip_key (AsIPv6Address (Normalized ip)) = ip_key (AsIPv6Address ip)" by simp_all
qed

lemma mapping_cong:
  assumes "ip_wf a" "ip_wf b" "ip_key a = ip_key b"
  shows "ip_key (Normalized a) = ip_key (Normalized b) \<and> ip_key (AsIPv6Address a) = ip_key (AsIPv6Address b)"
  using assms(1)
proof (cases rule: ip_wf_cases)
  case 2
  then have "ip_family b = AF_INET" "take 4 (ip_u a) = take 4 (ip_u b)" using assms by (simp_all add: ip_key_cases)
  with 2 assms show ?thesis by (simp add: Normalized_def AsIPv6Address_def ipv4_address_def)
next
  case 3
  then have "a = b" using assms by (cases a; cases b) (auto simp: ip_key_cases)
  then show ?thesis by simp
qed (use assms in \<open>simp add: ip_key_cases Normalized_def AsIPv6Address_def\<close>)

section \<open>Strings that hide the host\<close>

lemma rfind_char_last: "c \<notin> set ys \<Longrightarrow> rfind_char (xs @ c # ys) c = Some (length xs)"
  by (simp add: rfind_char_def find_char_eq takeWhile_append)

lemma dec_byte_no_dot: "0x2E \<notin> set (dec_byte b)"
proof -
  have "(48 + word_of_nat (k mod 10) :: byte) \<noteq> 0x2E" for k
  proof
    assume "(48 + word_of_nat (k mod 10) :: byte) = 0x2E"
    then have "unat (48 + word_of_nat (k mod 10) :: byte) = unat (0x2E :: byte)" by (rule arg_cong)
    then show False unfolding unat_digit by simp
  qed
  then show ?thesis by (auto simp: dec_byte_def Let_def simp del: mod_less)
qed

lemma sensitive_v4:
  assumes "length (ip_u ip) = 16" "ip_family ip = AF_INET" "\<And>bs. length bs = 4 \<Longrightarrow> inet_ntop AF_INET bs = Some (inet_ntoa bs)"
  shows "ip_ToSensitiveString inet_ntop ip = inet_ntoa (take 3 (ip_u ip)) @ map of_char ''.x''"
proof -
  obtain a b c d r where u: "ip_u ip = a # b # c # d # r"
    using assms(1) by (auto simp: numeral_eq_Suc length_Suc_conv)
  let ?xs = "dec_byte a @ [46] @ dec_byte b @ [46] @ dec_byte c"
  have "ip_ToString inet_ntop ip = ?xs @ 46 # dec_byte d" using assms by (simp add: ip_ToString_def u)
  moreover have "rfind_char (?xs @ 46 # dec_byte d) 46 = Some (length ?xs)"
    by (rule rfind_char_last) (use dec_byte_no_dot in simp)
  ultimately show ?thesis using assms by (simp add: ip_ToSensitiveString_def u)
qed

lemma net_bit_bytes:
  assumes "length as = 16" "length bs = 16" "n \<le> 16" "\<And>i. i < 8 * n \<Longrightarrow> net_bit as i \<longleftrightarrow> net_bit bs i"
  shows "take n as = take n bs"
proof (rule nth_equalityI)
  show "length (take n as) = length (take n bs)" using assms by simp
  fix k assume "k < length (take n as)"
  then have k: "k < n" "k < 16" using assms by simp_all
  have "as ! k = bs ! k"
  proof (rule bit_word_eqI)
    fix j assume "j < LENGTH(8)"
    then obtain c where c: "j = 7 - c" "c < 8" using that [of "7 - j"] by simp
    then show "bit (as ! k) j \<longleftrightarrow> bit (bs ! k) j" using assms(4) [of "8 * k + c"] k by (simp add: net_bit_def)
  qed
  then show "take n as ! k = take n bs ! k" using k by simp
qed

section \<open>Properties\<close>

text \<open>Truncating an address of either family to n bits keeps its first n bits and clears the others, and counting the
  bits of a mask made of n leading ones gives n; so truncating by the count of such a mask is masking.\<close>

theorem truncation_and_masks:
  assumes "ip_wf ip" "ip_family ip \<noteq> AF_UNSPEC" "n \<le> ip_width ip"
    and "ip_wf msk" "ip_family msk = ip_family ip" "\<forall>i < ip_width ip. ip_bit msk i \<longleftrightarrow> i < n"
  shows "CountIPMaskBits msk = int n \<and> ip_wf (TruncateIP ip (CountIPMaskBits msk)) \<and>
    ip_family (TruncateIP ip (CountIPMaskBits msk)) = ip_family ip \<and>
    (\<forall>i < ip_width ip. ip_bit (TruncateIP ip (CountIPMaskBits msk)) i \<longleftrightarrow> ip_bit ip i \<and> ip_bit msk i)"
proof -
  have "ip_width msk = ip_width ip" using assms(5) by (simp add: ip_width_def ip_Size_def)
  then have "CountIPMaskBits msk = int n" using assms by (intro CountIPMaskBits_prefix) simp_all
  then show ?thesis using TruncateIP_bits [OF assms(1-3)] assms(6) by auto
qed

theorem truncation_and_masks_witness:
  "CountIPMaskBits (IPAddress_host 0xFFFFFF00) = int 24 \<and>
   ip_wf (TruncateIP (IPAddress_host 0xC0A80A05) (CountIPMaskBits (IPAddress_host 0xFFFFFF00))) \<and>
   ip_family (TruncateIP (IPAddress_host 0xC0A80A05) (CountIPMaskBits (IPAddress_host 0xFFFFFF00))) = AF_INET"
proof -
  have ones: "(push_bit 8 0xFFFFFFFF :: u32) = 0xFFFFFF00" by code_simp
  have "bit (0xFFFFFF00 :: u32) (31 - i) \<longleftrightarrow> i < 24" if "i < 32" for i
    using shifted_ones(1) [OF that, of 8] unfolding ones by simp
  then show ?thesis
    using truncation_and_masks [of "IPAddress_host 0xC0A80A05" 24 "IPAddress_host 0xFFFFFF00"] by auto
qed

text \<open>The comparison of addresses is a strict total order whose ties are exactly the equal addresses: of any two,
  one is less or they are equal; less is transitive and does not tell equal addresses apart; greater is its converse; and
  equal addresses have equal hashes. Addresses can be keys of sorted and of hashed containers.\<close>

theorem ip_order:
  assumes "ip_wf a" "ip_wf b" "ip_wf c"
  shows "((ip_less a b \<and> \<not> ip_eq a b \<and> \<not> ip_less b a) \<or> (\<not> ip_less a b \<and> ip_eq a b \<and> \<not> ip_less b a) \<or>
      (\<not> ip_less a b \<and> \<not> ip_eq a b \<and> ip_less b a)) \<and>
    (ip_less a b \<and> ip_less b c \<longrightarrow> ip_less a c) \<and>
    (ip_eq a b \<longrightarrow> (ip_less a c \<longleftrightarrow> ip_less b c) \<and> (ip_less c a \<longleftrightarrow> ip_less c b) \<and> HashIP a = HashIP b) \<and>
    (ip_greater a b \<longleftrightarrow> ip_less b a)"
  using ip.strict_total_order [OF assms] ip_eq_HashIP [OF assms(1,2)] by (auto simp: ip_greater_def ip_neq_def)

theorem ip_order_witness:
  "\<not> (ip_less (IPAddress_host 1) (IPAddress_host 2) \<and> ip_less (IPAddress_host 2) (IPAddress_host 1)) \<and>
   (ip_greater (IPAddress_host 2) (IPAddress_host 1) \<longleftrightarrow> ip_less (IPAddress_host 1) (IPAddress_host 2))"
  using ip_order [of "IPAddress_host 2" "IPAddress_host 1" "IPAddress_host 1"] by auto

text \<open>An IPv4 address and its form mapped into IPv6 are interchangeable: mapping and then normalizing gives the
  normal form back, normalizing and then mapping gives the mapped form, every address but the nil one has an IPv6 form, and
  two addresses have the same IPv6 form exactly if they have the same normal form.\<close>

theorem mapped_addresses:
  assumes "ip_wf a" "ip_wf b"
  shows "ip_eq (Normalized (AsIPv6Address a)) (Normalized a) \<and> ip_eq (AsIPv6Address (Normalized a)) (AsIPv6Address a) \<and>
    (ip_family a \<noteq> AF_UNSPEC \<longrightarrow> ip_family (AsIPv6Address a) = AF_INET6) \<and>
    (ip_eq (AsIPv6Address a) (AsIPv6Address b) \<longleftrightarrow> ip_eq (Normalized a) (Normalized b))"
proof -
  note wf = mapping_shapes [OF assms(1)] mapping_shapes [OF assms(2)]
  have "ip_key (AsIPv6Address a) = ip_key (AsIPv6Address b) \<longleftrightarrow> ip_key (Normalized a) = ip_key (Normalized b)"
    using mapping_cong [OF wf(1) wf(5)] mapping_cong [OF wf(2) wf(6)] mapping_inverse [OF assms(1)] mapping_inverse [OF assms(2)]
    by auto
  then show ?thesis using wf mapping_inverse [OF assms(1)] by (auto simp: ip.eq_key mapping_shapes)
qed

theorem mapped_addresses_witness:
  "ip_eq (Normalized (AsIPv6Address (IPAddress_host 0x7F000001))) (Normalized (IPAddress_host 0x7F000001))"
  using mapped_addresses [of "IPAddress_host 0x7F000001" "IPAddress_host 0x7F000001"] by simp

text \<open>The string for logs hides the host part: an IPv4 address prints as its first three numbers and an x, and two
  addresses of one family that agree in their first 24 bits (IPv4) or 48 bits (IPv6) print alike. \<open>inet_ntop\<close> is assumed to
  print IPv4 addresses in dotted decimal.\<close>

theorem sensitive_string_hides_host:
  assumes "\<And>bs. length bs = 4 \<Longrightarrow> inet_ntop AF_INET bs = Some (inet_ntoa bs)"
    and "ip_wf a" "ip_wf b" "ip_family a = ip_family b"
    and "\<forall>i < (if ip_family a = AF_INET then 24 else 48). ip_bit a i \<longleftrightarrow> ip_bit b i"
  shows "ip_ToSensitiveString inet_ntop a = ip_ToSensitiveString inet_ntop b \<and>
    (ip_family a = AF_INET \<longrightarrow> ip_ToSensitiveString inet_ntop a = inet_ntoa (take 3 (ip_u a)) @ map of_char ''.x'')"
proof -
  have len: "length (ip_u a) = 16" "length (ip_u b) = 16" using assms(2,3) by (simp_all add: ip_wf_def)
  show ?thesis
  proof (cases "ip_family a = AF_INET")
    case True
    then have "take 3 (ip_u a) = take 3 (ip_u b)" using assms(5) by (intro net_bit_bytes len) simp_all
    with True assms len show ?thesis by (simp add: sensitive_v4)
  next
    case False
    then have "take 6 (ip_u a) = take 6 (ip_u b)" using assms(5) by (intro net_bit_bytes len) simp_all
    then have nth: "ip_u a ! k = ip_u b ! k" if "k < 6" for k using that by (metis nth_take)
    show ?thesis using False assms(4) nth [of 0] nth [of 1] nth [of 2] nth [of 3] nth [of 4] nth [of 5]
      by (simp add: ip_ToSensitiveString_def ipv6_address_def Let_def)
  qed
qed

theorem sensitive_string_hides_host_witness:
  "ip_ToSensitiveString (\<lambda>af bs. Some (inet_ntoa bs)) (IPAddress_host 0) =
   inet_ntoa (take 3 (ip_u (IPAddress_host 0))) @ map of_char ''.x''"
  using sensitive_string_hides_host [of "\<lambda>af bs. Some (inet_ntoa bs)" "IPAddress_host 0" "IPAddress_host 0"] by simp

text \<open>Bits of a mask after its first zero are counted too, if a later bit of the same word is set: 255.0.255.0 has 24.\<close>

lemma mask_with_gap: "CountIPMaskBits (IPAddress_host 0xFF00FF00) = 24"
proof -
  have "trailing_zeroes 0xFF00FF00 = 8" by code_simp
  moreover have "NetworkToHost32 (ipv4_address (IPAddress_host 0xFF00FF00)) = 0xFF00FF00"
    by (simp add: ipv4_address_def)
  ultimately show ?thesis by (simp add: CountIPMaskBits_def)
qed

end
