(* ===== verification/Socket_Address.thy ===== *)
theory Socket_Address
  imports Ip_Address "HOL-Library.List_Lexorder"
begin

text \<open>
  An address with a port: \<open>socket_address.h\<close> and \<open>socket_address.cc\<close> under \<open>src/xrtcserver/rtcbase/src/rtc_base\<close>. Host names and texts
  are lists of bytes, the structures of the operating system are their bytes (\<open>sockaddr_storage\<close>, 128 of them, with the
  fields at the offsets of the x86-64 Linux target) or a record (\<open>sockaddr_in\<close>). \<open>inet_ntop\<close> and \<open>inet_pton\<close> are arguments, and so is what
  the uninitialised memory that texts are built in holds.
\<close>

unbundle bit_operations_syntax

section \<open>Definitions\<close>

subsection \<open>The C and C++ library\<close>

text \<open>\<open>std::string::operator<\<close>.\<close>

definition std_string_less :: "byte list \<Rightarrow> byte list \<Rightarrow> bool" where
  "std_string_less a b \<longleftrightarrow>
     (let n = min (length a) (length b); c = c_memcmp (take n a) (take n b)
      in c < 0 \<or> c = 0 \<and> length a < length b)"

text \<open>\<open>std::string::find\<close> of a character from a position on.\<close>

definition find_char_from :: "byte list \<Rightarrow> byte \<Rightarrow> nat \<Rightarrow> nat option" where
  "find_char_from s c pos = map_option (\<lambda>k. pos + k) (find_char (drop pos s) c)"

text \<open>\<open>strtoul\<close> in base 10: white space, a sign, digits; too large a number is the largest, and a minus sign negates.\<close>

definition c_isspace :: "byte \<Rightarrow> bool" where
  "c_isspace c \<longleftrightarrow> c = 32 \<or> 9 \<le> c \<and> c \<le> 13"

fun digits_val :: "nat \<Rightarrow> byte list \<Rightarrow> nat" where
  "digits_val v [] = v"
| "digits_val v (c # cs) = (if 48 \<le> c \<and> c \<le> 57 then digits_val (v * 10 + (unat c - 48)) cs else v)"

definition strtoul :: "byte list \<Rightarrow> int" where
  "strtoul str =
     (let str = dropWhile c_isspace str;
          (neg, str) = (case str of c # cs \<Rightarrow> if c = 45 then (True, cs) else if c = 43 then (False, cs) else (False, str)
                        | [] \<Rightarrow> (False, str));
          v = digits_val 0 str
      in if v \<ge> 2 ^ 64 then 2 ^ 64 - 1 else if neg then usz (- int v) else int v)"

subsection \<open>The address\<close>

record SocketAddress =
  sa_hostname :: "byte list"
  sa_ip :: IPAddress
  sa_port :: "16 word"
  sa_scope_id :: int
  sa_literal :: bool

definition SocketAddress_nil :: SocketAddress where
  "SocketAddress_nil = \<lparr>sa_hostname = [], sa_ip = IPAddress_nil, sa_port = 0, sa_scope_id = 0, sa_literal = False\<rparr>"

definition sa_Clear :: "SocketAddress \<Rightarrow> SocketAddress" where
  "sa_Clear sa =
     sa\<lparr>sa_hostname := [], sa_literal := False, sa_ip := IPAddress_nil, sa_port := 0, sa_scope_id := 0\<rparr>"

definition sa_IsNil :: "SocketAddress \<Rightarrow> bool" where
  "sa_IsNil sa \<longleftrightarrow> sa_hostname sa = [] \<and> IPIsUnspec (sa_ip sa) \<and> sa_port sa = 0"

definition sa_IsComplete :: "SocketAddress \<Rightarrow> bool" where
  "sa_IsComplete sa \<longleftrightarrow> \<not> IPIsAny (sa_ip sa) \<and> 0 \<noteq> sa_port sa"

definition sa_SetIP :: "IPAddress \<Rightarrow> SocketAddress \<Rightarrow> SocketAddress" where
  "sa_SetIP ip sa = sa\<lparr>sa_hostname := [], sa_literal := False, sa_ip := ip, sa_scope_id := 0\<rparr>"

definition sa_SetIP_host :: "u32 \<Rightarrow> SocketAddress \<Rightarrow> SocketAddress" where
  "sa_SetIP_host ip_as_host_order_integer sa =
     sa\<lparr>sa_hostname := [], sa_literal := False, sa_ip := IPAddress_host ip_as_host_order_integer, sa_scope_id := 0\<rparr>"

definition sa_SetIP_name :: "(int \<Rightarrow> byte list \<Rightarrow> byte list option) \<Rightarrow> byte list \<Rightarrow> SocketAddress \<Rightarrow> SocketAddress" where
  "sa_SetIP_name inet_pton hostname sa =
     (let (literal, ip) = IPFromString inet_pton hostname (Some (sa_ip sa));
          ip = (if \<not> literal then IPAddress_nil else the ip)
      in sa\<lparr>sa_hostname := hostname, sa_literal := literal, sa_ip := ip, sa_scope_id := 0\<rparr>)"

definition sa_SetResolvedIP :: "IPAddress \<Rightarrow> SocketAddress \<Rightarrow> SocketAddress" where
  "sa_SetResolvedIP ip sa = sa\<lparr>sa_ip := ip, sa_scope_id := 0\<rparr>"

definition sa_SetResolvedIP_host :: "u32 \<Rightarrow> SocketAddress \<Rightarrow> SocketAddress" where
  "sa_SetResolvedIP_host ip_as_host_order_integer sa = sa\<lparr>sa_ip := IPAddress_host ip_as_host_order_integer, sa_scope_id := 0\<rparr>"

definition sa_SetPort :: "int \<Rightarrow> SocketAddress \<Rightarrow> SocketAddress" where
  "sa_SetPort port sa = sa\<lparr>sa_port := word_of_int port\<rparr>"

definition sa_SetScopeID :: "int \<Rightarrow> SocketAddress \<Rightarrow> SocketAddress" where
  "sa_SetScopeID i sa = sa\<lparr>sa_scope_id := i\<rparr>"

definition SocketAddress_name :: "(int \<Rightarrow> byte list \<Rightarrow> byte list option) \<Rightarrow> byte list \<Rightarrow> int \<Rightarrow> SocketAddress" where
  "SocketAddress_name inet_pton hostname port = sa_SetPort port (sa_SetIP_name inet_pton hostname SocketAddress_nil)"

definition SocketAddress_host :: "u32 \<Rightarrow> int \<Rightarrow> SocketAddress" where
  "SocketAddress_host ip_as_host_order_integer port =
     sa_SetPort port (sa_SetIP (IPAddress_host ip_as_host_order_integer) SocketAddress_nil)"

definition SocketAddress_ip :: "IPAddress \<Rightarrow> int \<Rightarrow> SocketAddress" where
  "SocketAddress_ip ip port = sa_SetPort port (sa_SetIP ip SocketAddress_nil)"

definition EmptySocketAddressWithFamily :: "int \<Rightarrow> SocketAddress" where
  "EmptySocketAddressWithFamily family =
     (if family = AF_INET then SocketAddress_ip (IPAddress_host INADDR_ANY) 0
      else if family = AF_INET6 then SocketAddress_ip (IPAddress_in6 in6addr_any) 0
      else SocketAddress_nil)"

subsection \<open>Questions about the address\<close>

definition sa_IsAnyIP :: "SocketAddress \<Rightarrow> bool" where
  "sa_IsAnyIP sa \<longleftrightarrow> IPIsAny (sa_ip sa)"

definition sa_IsLoopbackIP :: "SocketAddress \<Rightarrow> bool" where
  "sa_IsLoopbackIP sa \<longleftrightarrow>
     IPIsLoopback (sa_ip sa) \<or> IPIsAny (sa_ip sa) \<and> c_str (sa_hostname sa) = map of_char ''localhost''"

definition sa_IsPrivateIP :: "SocketAddress \<Rightarrow> bool" where
  "sa_IsPrivateIP sa \<longleftrightarrow> IPIsPrivate (sa_ip sa)"

definition sa_IsUnresolvedIP :: "SocketAddress \<Rightarrow> bool" where
  "sa_IsUnresolvedIP sa \<longleftrightarrow> IPIsUnspec (sa_ip sa) \<and> \<not> sa_literal sa \<and> sa_hostname sa \<noteq> []"

definition sa_EqualIPs :: "SocketAddress \<Rightarrow> SocketAddress \<Rightarrow> bool" where
  "sa_EqualIPs sa addr \<longleftrightarrow>
     ip_eq (sa_ip sa) (sa_ip addr) \<and>
     (\<not> IPIsAny (sa_ip sa) \<and> \<not> IPIsUnspec (sa_ip sa) \<or> sa_hostname sa = sa_hostname addr)"

definition sa_EqualPorts :: "SocketAddress \<Rightarrow> SocketAddress \<Rightarrow> bool" where
  "sa_EqualPorts sa addr \<longleftrightarrow> sa_port sa = sa_port addr"

definition sa_eq :: "SocketAddress \<Rightarrow> SocketAddress \<Rightarrow> bool" where
  "sa_eq sa addr \<longleftrightarrow> sa_EqualIPs sa addr \<and> sa_EqualPorts sa addr"

definition sa_less :: "SocketAddress \<Rightarrow> SocketAddress \<Rightarrow> bool" where
  "sa_less sa addr \<longleftrightarrow>
     (if ip_neq (sa_ip sa) (sa_ip addr) then ip_less (sa_ip sa) (sa_ip addr)
      else if (IPIsAny (sa_ip sa) \<or> IPIsUnspec (sa_ip sa)) \<and> sa_hostname sa \<noteq> sa_hostname addr
      then std_string_less (sa_hostname sa) (sa_hostname addr)
      else sa_port sa < sa_port addr)"

text \<open>The port is promoted to \<open>int\<close>, and the result extended with its sign to \<open>size_t\<close>.\<close>

definition sa_Hash :: "SocketAddress \<Rightarrow> 64 word" where
  "sa_Hash sa =
     (let h = 0; h = h XOR HashIP (sa_ip sa); port = ucast (sa_port sa) :: u32
      in h XOR scast (port OR push_bit 16 port))"

subsection \<open>Text\<close>

definition sa_HostAsURIString :: "(int \<Rightarrow> byte list \<Rightarrow> byte list option) \<Rightarrow> SocketAddress \<Rightarrow> byte list" where
  "sa_HostAsURIString inet_ntop sa =
     (if \<not> sa_literal sa \<and> sa_hostname sa \<noteq> [] then sa_hostname sa
      else if ip_family (sa_ip sa) = AF_INET6
      then map of_char ''['' @ ip_ToString inet_ntop (sa_ip sa) @ map of_char '']''
      else ip_ToString inet_ntop (sa_ip sa))"

definition sa_HostAsSensitiveURIString :: "(int \<Rightarrow> byte list \<Rightarrow> byte list option) \<Rightarrow> SocketAddress \<Rightarrow> byte list" where
  "sa_HostAsSensitiveURIString inet_ntop sa =
     (if \<not> sa_literal sa \<and> sa_hostname sa \<noteq> [] then sa_hostname sa
      else if ip_family (sa_ip sa) = AF_INET6
      then map of_char ''['' @ ip_ToSensitiveString inet_ntop (sa_ip sa) @ map of_char '']''
      else ip_ToSensitiveString inet_ntop (sa_ip sa))"

definition sa_PortAsString :: "SocketAddress \<Rightarrow> byte list" where
  "sa_PortAsString sa = dec_of (unat (sa_port sa))"

text \<open>The texts with a port are put together in 1024 bytes on the stack.\<close>

definition host_and_port :: "(nat \<Rightarrow> byte) \<Rightarrow> byte list \<Rightarrow> 16 word \<Rightarrow> byte list res" where
  "host_and_port junk host port =
     res_bind (SimpleStringBuilder_new (map junk [0..<1024])) (\<lambda>sb.
     res_bind (sb_put_string host sb) (\<lambda>sb.
     res_bind (sb_put_cstr [58, 0] sb) (\<lambda>sb.
     res_bind (sb_put_int (uint port) sb) (\<lambda>sb. Inr (sb_str sb)))))"

definition sa_ToString :: "(nat \<Rightarrow> byte) \<Rightarrow> (int \<Rightarrow> byte list \<Rightarrow> byte list option) \<Rightarrow> SocketAddress \<Rightarrow> byte list res" where
  "sa_ToString junk inet_ntop sa = host_and_port junk (sa_HostAsURIString inet_ntop sa) (sa_port sa)"

definition sa_ToSensitiveString ::
  "(nat \<Rightarrow> byte) \<Rightarrow> (int \<Rightarrow> byte list \<Rightarrow> byte list option) \<Rightarrow> SocketAddress \<Rightarrow> byte list res" where
  "sa_ToSensitiveString junk inet_ntop sa = host_and_port junk (sa_HostAsSensitiveURIString inet_ntop sa) (sa_port sa)"

definition sa_ToResolvedSensitiveString ::
  "(nat \<Rightarrow> byte) \<Rightarrow> (int \<Rightarrow> byte list \<Rightarrow> byte list option) \<Rightarrow> SocketAddress \<Rightarrow> byte list res" where
  "sa_ToResolvedSensitiveString junk inet_ntop sa =
     (if sa_IsUnresolvedIP sa then Inr []
      else host_and_port junk (ip_ToSensitiveString inet_ntop (sa_ip sa)) (sa_port sa))"

text \<open>
  \<open>str.at(0)\<close> of an empty string throws. An opening bracket that is never closed leaves the address as it is and reports success.
\<close>

definition sa_FromString ::
  "(int \<Rightarrow> byte list \<Rightarrow> byte list option) \<Rightarrow> byte list \<Rightarrow> SocketAddress \<Rightarrow> (bool \<times> SocketAddress) res" where
  "sa_FromString inet_pton str sa =
     (if str = [] then Inl Out_of_bounds
      else if str ! 0 = 0x5B
      then case rfind_char str 0x5D of
             None \<Rightarrow> Inr (True, sa)
           | Some closebracket \<Rightarrow>
               (case find_char_from str 0x3A closebracket of
                  None \<Rightarrow> Inr (False, sa)
                | Some colon \<Rightarrow>
                    (if colon > closebracket
                     then let sa = sa_SetPort (i32 (strtoul (drop (colon + 1) str))) sa
                          in Inr (True, sa_SetIP_name inet_pton (take (closebracket - 1) (drop 1 str)) sa)
                     else Inr (False, sa)))
      else case find_char str 0x3A of
             None \<Rightarrow> Inr (False, sa)
           | Some pos \<Rightarrow>
               let sa = sa_SetPort (i32 (strtoul (drop (pos + 1) str))) sa
               in Inr (True, sa_SetIP_name inet_pton (take pos str) sa))"

subsection \<open>Structures of the operating system\<close>

record in_sockaddr =
  in_family :: int
  in_port :: "16 word"
  in_addr :: u32

definition sa_ToSockAddr :: "SocketAddress \<Rightarrow> in_sockaddr" where
  "sa_ToSockAddr sa =
     (if ip_family (sa_ip sa) \<noteq> AF_INET then \<lparr>in_family = AF_UNSPEC, in_port = 0, in_addr = 0\<rparr>
      else \<lparr>in_family = AF_INET, in_port = HostToNetwork16 (sa_port sa),
            in_addr = (if IPIsAny (sa_ip sa) then INADDR_ANY else ipv4_address (sa_ip sa))\<rparr>)"

definition sa_FromSockAddr :: "in_sockaddr \<Rightarrow> SocketAddress \<Rightarrow> bool \<times> SocketAddress" where
  "sa_FromSockAddr saddr sa =
     (if in_family saddr \<noteq> AF_INET then (False, sa)
      else let sa = sa_SetIP_host (NetworkToHost32 (in_addr saddr)) sa;
               sa = sa_SetPort (uint (NetworkToHost16 (in_port saddr))) sa
           in (True, sa\<lparr>sa_literal := False\<rparr>))"

definition ToSockAddrStorageHelper :: "IPAddress \<Rightarrow> 16 word \<Rightarrow> int \<Rightarrow> byte list \<times> nat" where
  "ToSockAddrStorageHelper ip port scope_id =
     (let addr = replicate 128 0;
          addr = overwrite 0 (le_bytes 2 (nat (ip_family ip mod 2 ^ 16))) addr;
          ss_family = int (le_nat (take 2 addr))
      in if ss_family = AF_INET6
         then let addr = overwrite 8 (ipv6_address ip) addr;
                  addr = overwrite 2 (le_bytes 2 (unat (HostToNetwork16 port))) addr;
                  addr = overwrite 24 (le_bytes 4 (nat (scope_id mod 2 ^ 32))) addr
              in (addr, 28)
         else if ss_family = AF_INET
         then let addr = overwrite 4 (le_bytes 4 (unat (ipv4_address ip))) addr;
                  addr = overwrite 2 (le_bytes 2 (unat (HostToNetwork16 port))) addr
              in (addr, 16)
         else (addr, 0))"

definition sa_ToDualStackSockAddrStorage :: "SocketAddress \<Rightarrow> byte list \<times> nat" where
  "sa_ToDualStackSockAddrStorage sa = ToSockAddrStorageHelper (AsIPv6Address (sa_ip sa)) (sa_port sa) (sa_scope_id sa)"

definition sa_ToSockAddrStorage :: "SocketAddress \<Rightarrow> byte list \<times> nat" where
  "sa_ToSockAddrStorage sa = ToSockAddrStorageHelper (sa_ip sa) (sa_port sa) (sa_scope_id sa)"

definition SocketAddressFromSockAddrStorage :: "byte list \<Rightarrow> SocketAddress option \<Rightarrow> bool \<times> SocketAddress option" where
  "SocketAddressFromSockAddrStorage addr out =
     (if out = None then (False, out)
      else let ss_family = int (le_nat (take 2 addr));
               port = uint (NetworkToHost16 (word_of_nat (le_nat (take 2 (drop 2 addr)))))
           in if ss_family = AF_INET
              then (True, Some (SocketAddress_ip (IPAddress_in (word_of_nat (le_nat (take 4 (drop 4 addr))))) port))
              else if ss_family = AF_INET6
              then (True, Some (sa_SetScopeID (i32 (int (le_nat (take 4 (drop 24 addr)))))
                                  (SocketAddress_ip (IPAddress_in6 (take 16 (drop 8 addr))) port)))
              else (False, out))"

section \<open>Socket addresses as ordered keys\<close>

definition sa_wf :: "SocketAddress \<Rightarrow> bool" where
  "sa_wf sa \<longleftrightarrow> ip_wf (sa_ip sa) \<and> in_i32 (sa_scope_id sa)"

lemma std_string_less_iff: "std_string_less a b \<longleftrightarrow> a < b"
  using memcmp_prefix_order(2) [of a b] by (simp add: std_string_less_def Let_def list_less_def)

lemma IPIsAny_key:
  assumes "ip_wf a" "ip_wf b" "ip_key a = ip_key b"
  shows "IPIsAny a = IPIsAny b" "IPIsUnspec a = IPIsUnspec b"
proof -
  have "ip_family a = ip_family b" using assms by (simp add: ip_key_cases)
  with assms show "IPIsAny a = IPIsAny b" "IPIsUnspec a = IPIsUnspec b" by (simp_all add: IPIsAny_def IPIsUnspec_def ip.eq_key)
qed

definition sa_key :: "SocketAddress \<Rightarrow> (nat \<times> nat) \<times> byte list \<times> 16 word" where
  "sa_key sa =
     (ip_key (sa_ip sa), if IPIsAny (sa_ip sa) \<or> IPIsUnspec (sa_ip sa) then sa_hostname sa else [], sa_port sa)"

interpretation sa: key_order sa_wf sa_eq sa_less sa_key
proof
  fix a b assume "sa_wf a" "sa_wf b"
  then have wf: "ip_wf (sa_ip a)" "ip_wf (sa_ip b)" by (simp_all add: sa_wf_def)
  note any = IPIsAny_key [OF wf]
  show "sa_eq a b \<longleftrightarrow> sa_key a = sa_key b"
    using any by (auto simp: sa_eq_def sa_EqualIPs_def sa_EqualPorts_def sa_key_def ip.eq_key wf)
  show "sa_less a b \<longleftrightarrow> sa_key a < sa_key b"
    using any by (auto simp: sa_less_def sa_key_def ip_neq_def ip.eq_key ip.less_key wf std_string_less_iff)
qed

lemma sa_eq_Hash: "sa_wf a \<Longrightarrow> sa_wf b \<Longrightarrow> sa_eq a b \<Longrightarrow> sa_Hash a = sa_Hash b"
  using ip_eq_HashIP [of "sa_ip a" "sa_ip b"] by (simp add: sa_eq_def sa_EqualIPs_def sa_EqualPorts_def sa_Hash_def sa_wf_def)

section \<open>Structures of the operating system\<close>

lemma port_back [simp]: "NetworkToHost16 (HostToNetwork16 p) = p"
  by (simp add: NetworkToHost16_def HostToNetwork16_def swap_bytes_swap)

lemma word_of_stored16 [simp]: "word_of_nat (le_nat (le_bytes 2 (unat w))) = (w :: 16 word)"
  by (rule word_of_le_bytes) simp

lemma family_stored:
  "int (le_nat (le_bytes 2 (nat (AF_INET mod 2 ^ 16)))) = AF_INET"
  "int (le_nat (le_bytes 2 (nat (AF_INET6 mod 2 ^ 16)))) = AF_INET6"
  "int (le_nat (le_bytes 2 (nat (AF_UNSPEC mod 2 ^ 16)))) = AF_UNSPEC"
  by (simp_all add: family_simps le_nat_le_bytes)

text \<open>The bytes written: each field ends up at its offset.\<close>

lemma overwrite_field: "length p = i \<Longrightarrow> length m = length w \<Longrightarrow> overwrite i w (p @ m @ r) = p @ w @ r"
  by (simp add: overwrite_def)

abbreviation zeros :: "nat \<Rightarrow> byte list" where
  "zeros n \<equiv> replicate n 0"

lemma storage_v4:
  assumes "ip_family ip = AF_INET"
  shows "ToSockAddrStorageHelper ip port scope =
    (le_bytes 2 (nat (AF_INET mod 2 ^ 16)) @ le_bytes 2 (unat (HostToNetwork16 port)) @ le_bytes 4 (unat (ipv4_address ip)) @
     zeros 120, 16)"
proof -
  let ?f = "le_bytes 2 (nat (AF_INET mod 2 ^ 16))" and ?p = "le_bytes 2 (unat (HostToNetwork16 port))"
    and ?a = "le_bytes 4 (unat (ipv4_address ip))"
  have split: "zeros 128 = [] @ zeros 2 @ (zeros 2 @ zeros 4 @ zeros 120)" by (simp only: replicate_add [symmetric] append_Nil) simp
  have f: "overwrite 0 ?f (zeros 128) = ?f @ zeros 2 @ zeros 4 @ zeros 120"
    unfolding split by (subst overwrite_field) simp_all
  have a: "overwrite 4 ?a (?f @ zeros 2 @ zeros 4 @ zeros 120) = ?f @ zeros 2 @ ?a @ zeros 120"
    using overwrite_field [of "?f @ zeros 2" 4 "zeros 4" ?a "zeros 120"] by simp
  have p: "overwrite 2 ?p (?f @ zeros 2 @ ?a @ zeros 120) = ?f @ ?p @ ?a @ zeros 120"
    by (subst overwrite_field) simp_all
  have t: "take 2 (?f @ zeros 2 @ zeros 4 @ zeros 120) = ?f" by simp
  show ?thesis unfolding ToSockAddrStorageHelper_def Let_def assms f t family_stored a p by simp
qed

lemma storage_v6:
  assumes "ip_family ip = AF_INET6" "length (ip_u ip) = 16"
  shows "ToSockAddrStorageHelper ip port scope =
    (le_bytes 2 (nat (AF_INET6 mod 2 ^ 16)) @ le_bytes 2 (unat (HostToNetwork16 port)) @ zeros 4 @ ip_u ip @
     le_bytes 4 (nat (scope mod 2 ^ 32)) @ zeros 100, 28)"
proof -
  let ?f = "le_bytes 2 (nat (AF_INET6 mod 2 ^ 16))" and ?p = "le_bytes 2 (unat (HostToNetwork16 port))"
    and ?s = "le_bytes 4 (nat (scope mod 2 ^ 32))"
  have split: "zeros 128 = [] @ zeros 2 @ (zeros 2 @ zeros 4 @ zeros 16 @ zeros 4 @ zeros 100)"
    by (simp only: replicate_add [symmetric] append_Nil) simp
  have f: "overwrite 0 ?f (zeros 128) = ?f @ zeros 2 @ zeros 4 @ zeros 16 @ zeros 4 @ zeros 100"
    unfolding split by (subst overwrite_field) simp_all
  have a: "overwrite 8 (ip_u ip) (?f @ zeros 2 @ zeros 4 @ zeros 16 @ zeros 4 @ zeros 100) = ?f @ zeros 2 @ zeros 4 @ ip_u ip @ zeros 4 @ zeros 100"
    using overwrite_field [of "?f @ zeros 2 @ zeros 4" 8 "zeros 16" "ip_u ip" "zeros 4 @ zeros 100"] assms(2) by simp
  have p: "overwrite 2 ?p (?f @ zeros 2 @ zeros 4 @ ip_u ip @ zeros 4 @ zeros 100) = ?f @ ?p @ zeros 4 @ ip_u ip @ zeros 4 @ zeros 100"
    by (subst overwrite_field) simp_all
  have s: "overwrite 24 ?s (?f @ ?p @ zeros 4 @ ip_u ip @ zeros 4 @ zeros 100) = ?f @ ?p @ zeros 4 @ ip_u ip @ ?s @ zeros 100"
    using overwrite_field [of "?f @ ?p @ zeros 4 @ ip_u ip" 24 "zeros 4" ?s "zeros 100"] assms(2) by simp
  have t: "take 2 (?f @ zeros 2 @ zeros 4 @ zeros 16 @ zeros 4 @ zeros 100) = ?f" by simp
  show ?thesis unfolding ToSockAddrStorageHelper_def Let_def assms(1) f t family_stored ipv6_address_def a p s by simp
qed

lemma from_storage_v4:
  assumes "length p = 2" "length b = 4"
  shows "SocketAddressFromSockAddrStorage (le_bytes 2 (nat (AF_INET mod 2 ^ 16)) @ p @ b @ r) (Some out) =
    (True, Some (SocketAddress_ip (IPAddress_in (word_of_nat (le_nat b))) (uint (NetworkToHost16 (word_of_nat (le_nat p))))))"
  using assms family_stored(1) by (simp add: SocketAddressFromSockAddrStorage_def Let_def)

lemma from_storage_v6:
  assumes "length p = 2" "length z = 4" "length b = 16" "length c = 4"
  shows "SocketAddressFromSockAddrStorage (le_bytes 2 (nat (AF_INET6 mod 2 ^ 16)) @ p @ z @ b @ c @ r) (Some out) =
    (True, Some (sa_SetScopeID (i32 (int (le_nat c))) (SocketAddress_ip (IPAddress_in6 b) (uint (NetworkToHost16 (word_of_nat (le_nat p)))))))"
  using assms family_stored(2) by (simp add: SocketAddressFromSockAddrStorage_def Let_def)

lemma scope_back: "in_i32 x \<Longrightarrow> i32 (int (le_nat (le_bytes 4 (nat (x mod 2 ^ 32))))) = x"
proof -
  assume x: "in_i32 x"
  have "nat (x mod 2 ^ 32) < 256 ^ 4" by simp
  then have "int (le_nat (le_bytes 4 (nat (x mod 2 ^ 32)))) = take_bit 32 x" by (simp add: le_nat_le_bytes take_bit_eq_mod)
  moreover have "i32 (take_bit 32 x) = i32 x" by (simp add: i32_def signed_take_bit_take_bit)
  ultimately show ?thesis using x by (simp add: in_i32_def i32_id)
qed

lemma storage_back_v4:
  assumes "ip_family ip = AF_INET"
  shows "SocketAddressFromSockAddrStorage (fst (ToSockAddrStorageHelper ip port scope)) (Some out) =
    (True, Some (SocketAddress_ip (IPAddress_in (ipv4_address ip)) (uint port)))"
  using from_storage_v4 [of "le_bytes 2 (unat (HostToNetwork16 port))" "le_bytes 4 (unat (ipv4_address ip))"] storage_v4 [OF assms]
  by simp

lemma storage_back_v6:
  assumes "ip_family ip = AF_INET6" "length (ip_u ip) = 16" "in_i32 scope"
  shows "SocketAddressFromSockAddrStorage (fst (ToSockAddrStorageHelper ip port scope)) (Some out) =
    (True, Some (sa_SetScopeID scope (SocketAddress_ip ip (uint port))))"
proof -
  have "IPAddress_in6 (ip_u ip) = ip" using assms(1) by (cases ip) (simp add: IPAddress_in6_def)
  then show ?thesis
    using from_storage_v6 [of "le_bytes 2 (unat (HostToNetwork16 port))" "zeros 4" "ip_u ip" "le_bytes 4 (nat (scope mod 2 ^ 32))"]
      storage_v6 [OF assms(1,2)] assms(2) scope_back [OF assms(3)] by simp
qed

lemma sa_new_simps [simp]:
  "sa_ip (SocketAddress_ip ip p) = ip" "sa_port (SocketAddress_ip ip p) = word_of_int p" "sa_hostname (SocketAddress_ip ip p) = []"
  "sa_scope_id (SocketAddress_ip ip p) = 0" "sa_literal (SocketAddress_ip ip p) = False"
  "sa_ip (sa_SetScopeID i sa) = sa_ip sa" "sa_port (sa_SetScopeID i sa) = sa_port sa" "sa_hostname (sa_SetScopeID i sa) = sa_hostname sa"
  "sa_scope_id (sa_SetScopeID i sa) = i"
  by (simp_all add: SocketAddress_ip_def sa_SetPort_def sa_SetIP_def sa_SetScopeID_def SocketAddress_nil_def)

lemma v4_copy: "ip_wf ip \<Longrightarrow> ip_family ip = AF_INET \<Longrightarrow> ip_eq (IPAddress_in (ipv4_address ip)) ip"
  by (simp add: ip.eq_key ip_key_cases ipv4_address_def le_bytes_word ip_wf_def [of ip])

section \<open>Text\<close>

abbreviation digits :: "byte list \<Rightarrow> bool" where
  "digits bs \<equiv> list_all (\<lambda>c. 48 \<le> c \<and> c \<le> 57) bs"

lemma digit_range: "48 \<le> (48 + word_of_nat (n mod 10) :: byte) \<and> (48 + word_of_nat (n mod 10) :: byte) \<le> 57"
proof -
  have "n mod 10 \<le> 9" by (simp add: less_Suc_eq_le [symmetric])
  then show ?thesis using unat_digit [of n] by (simp add: word_le_nat_alt del: unat_add_lem)
qed

lemma dec_of_digits: "digits (dec_of n) \<and> dec_of n \<noteq> []"
proof (induction n rule: dec_of.induct)
  case (1 n)
  then show ?case using digit_range [of n] by (subst (1 2) dec_of.simps) (simp del: mod_less)
qed

lemma digits_val_append: "digits xs \<Longrightarrow> digits_val v (xs @ ys) = digits_val (digits_val v xs) ys"
  by (induction xs arbitrary: v) simp_all

lemma digits_val_dec_of: "digits_val 0 (dec_of n) = n"
proof (induction n rule: dec_of.induct)
  case (1 n)
  have d: "digits_val v [48 + word_of_nat (n mod 10)] = v * 10 + n mod 10" for v
    using digit_range [of n] unat_digit [of n] by (simp del: mod_less)
  show ?case
  proof (cases "n < 10")
    case True
    then show ?thesis using d [of 0] by (subst dec_of.simps) (simp del: digits_val.simps)
  next
    case False
    then show ?thesis
      using 1 d [of "n div 10"] dec_of_digits [of "n div 10"] by (subst dec_of.simps) (simp add: digits_val_append del: digits_val.simps)
  qed
qed

lemma strtoul_dec_of:
  assumes "n < 65536"
  shows "strtoul (dec_of n) = int n"
proof -
  obtain c cs where c: "dec_of n = c # cs" "48 \<le> c" "c \<le> 57" using dec_of_digits [of n] by (cases "dec_of n") auto
  have "c \<noteq> 45" "c \<noteq> 43" "\<not> c_isspace c" using c(2) by (auto simp: c_isspace_def word_le_nat_alt)
  then show ?thesis using c(1) digits_val_dec_of [of n] assms by (simp add: strtoul_def Let_def)
qed

lemma port_bound: "unat (p :: 16 word) < 65536" "uint p < 65536"
proof -
  have "unat p < 2 ^ LENGTH(16)" "uint p < 2 ^ LENGTH(16)" by (rule unsigned_less)+
  then show "unat p < 65536" "uint p < 65536" by simp_all
qed

lemma port_text_back: "word_of_int (i32 (strtoul (dec_of (unat (p :: 16 word))))) = p"
proof -
  have "i32 (uint p) = uint p" using port_bound [of p] order_trans [of "- 2147483648" 0 "uint p"] by (intro i32_id) simp_all
  then show ?thesis by (simp add: strtoul_dec_of port_bound)
qed

lemma port_text_clean: "0 \<notin> set (dec_of n)" "0x5D \<notin> set (dec_of n)" "0x3A \<notin> set (dec_of n)"
  using dec_of_digits [of n] by (auto simp: list_all_iff word_le_nat_alt)

lemma dec_of_length: "n < 10 ^ Suc k \<Longrightarrow> length (dec_of n) \<le> Suc k"
proof (induction k arbitrary: n)
  case 0
  then show ?case by (subst dec_of.simps) simp
next
  case (Suc k)
  then have "n div 10 < 10 ^ Suc k" by (simp add: div_less_iff_less_mult mult.commute)
  with Suc.IH [of "n div 10"] show ?case by (subst dec_of.simps) simp
qed

lemma host_and_port_text:
  assumes "0 \<notin> set host" "length host \<le> 1000"
  shows "host_and_port junk host port = Inr (host @ 0x3A # dec_of (unat port))"
proof -
  obtain sb where sb: "SimpleStringBuilder_new (map junk [0..<1024]) = Inr sb" "sb_ok 1024 [] sb"
    using SimpleStringBuilder_new_ok [of "map junk [0..<1024]"] by auto
  obtain sb' where sb': "sb_puts [Put_string host, Put_cstr [58, 0], Put_int (uint port)] sb = Inr sb'"
    "sb_ok 1024 (host @ 0x3A # int_text (uint port)) sb'"
    using sb_puts_ok [OF sb(2), of "[Put_string host, Put_cstr [58, 0], Put_int (uint port)]"] by (auto simp: c_str_def)
  have t: "int_text (uint port) = dec_of (unat port)" by (simp add: int_text_def)
  have "unat port < 10 ^ Suc 4" using port_bound [of port] by simp
  then have "length (dec_of (unat port)) \<le> 5" using dec_of_length [of "unat port" 4] by simp
  then have "sb_str sb' = host @ 0x3A # dec_of (unat port)"
    using c_str_consistent [OF sb'(2)] assms port_text_clean [of "unat port"] by (simp add: t c_str_id)
  then show ?thesis using sb(1) sb'(1) by (auto simp: host_and_port_def res_bind_Inr_iff)
qed

text \<open>Parsing a text that \<open>ToString\<close> makes, for a host in brackets and for one without.\<close>

lemma FromString_brackets:
  assumes "0x5D \<notin> set p"
  shows "sa_FromString inet_pton (0x5B # t @ 0x5D # 0x3A # p) sa =
    Inr (True, sa_SetIP_name inet_pton t (sa_SetPort (i32 (strtoul p)) sa))"
proof -
  let ?s = "0x5B # t @ 0x5D # 0x3A # p"
  have r: "rfind_char ?s 0x5D = Some (Suc (length t))"
    using rfind_char_last [of "0x5D" "0x3A # p" "0x5B # t"] assms by simp
  have "find_char_from ?s 0x3A (Suc (length t)) = Some (length t + 2)" by (simp add: find_char_from_def)
  with r show ?thesis by (simp add: sa_FromString_def Let_def)
qed

lemma find_char_first: "c \<notin> set xs \<Longrightarrow> find_char (xs @ c # ys) c = Some (length xs)"
  by (simp add: find_char_eq takeWhile_append)

lemma FromString_plain:
  assumes "t \<noteq> []" "hd t \<noteq> 0x5B" "0x3A \<notin> set t"
  shows "sa_FromString inet_pton (t @ 0x3A # p) sa =
    Inr (True, sa_SetIP_name inet_pton t (sa_SetPort (i32 (strtoul p)) sa))"
proof -
  have "(t @ 0x3A # p) ! 0 \<noteq> 0x5B" using assms by (cases t) simp_all
  then show ?thesis using find_char_first [OF assms(3), of p] by (simp add: sa_FromString_def Let_def)
qed

lemma ToString_plain:
  assumes "\<not> sa_literal sa \<and> sa_hostname sa \<noteq> [] \<and> t = sa_hostname sa \<or>
      (sa_literal sa \<or> sa_hostname sa = []) \<and> ip_family (sa_ip sa) \<noteq> AF_INET6 \<and> t = ip_ToString inet_ntop (sa_ip sa)"
    "0 \<notin> set t" "length t \<le> 998"
  shows "sa_ToString junk inet_ntop sa = Inr (t @ 0x3A # dec_of (unat (sa_port sa)))"
  using assms host_and_port_text [of t] by (auto simp: sa_ToString_def sa_HostAsURIString_def)

lemma ToString_brackets:
  assumes "sa_literal sa \<or> sa_hostname sa = []" "ip_family (sa_ip sa) = AF_INET6" "t = ip_ToString inet_ntop (sa_ip sa)"
    "0 \<notin> set t" "length t \<le> 998"
  shows "sa_ToString junk inet_ntop sa = Inr (0x5B # t @ 0x5D # 0x3A # dec_of (unat (sa_port sa)))"
  using assms host_and_port_text [of "0x5B # t @ [0x5D]"] by (auto simp: sa_ToString_def sa_HostAsURIString_def)

lemma set_simps [simp]:
  "sa_port (sa_SetPort p sa) = word_of_int p" "sa_port (sa_SetIP_name f h sa) = sa_port sa"
  "sa_hostname (sa_SetIP_name f h sa) = h" "sa_scope_id (sa_SetIP_name f h sa) = 0" "sa_ip (sa_SetPort p sa) = sa_ip sa"
  by (simp_all add: sa_SetPort_def sa_SetIP_name_def split: prod.splits)

text \<open>Whether the host printed is the IP address rather than a name.\<close>

definition by_ip :: "SocketAddress \<Rightarrow> bool" where
  "by_ip sa \<longleftrightarrow> sa_literal sa \<or> sa_hostname sa = []"

text \<open>
  What is relied on of the C library for an address: \<open>inet_ntop\<close> prints it as \<open>t\<close>, which fits \<open>INET6_ADDRSTRLEN\<close>, \<open>inet_pton\<close>
  reads \<open>t\<close> as that address and not as one of the other family, and dotted decimal has neither a colon nor a bracket.
\<close>

definition readable ::
  "(int \<Rightarrow> byte list \<Rightarrow> byte list option) \<Rightarrow> (int \<Rightarrow> byte list \<Rightarrow> byte list option) \<Rightarrow> IPAddress \<Rightarrow> byte list \<Rightarrow> bool" where
  "readable inet_ntop inet_pton ip t \<longleftrightarrow>
     ip_family ip \<in> {AF_INET, AF_INET6} \<and>
     inet_ntop (ip_family ip) (take (ip_Size ip) (ip_u ip)) = Some t \<and>
     inet_pton (ip_family ip) t = Some (take (ip_Size ip) (ip_u ip)) \<and>
     (ip_family ip = AF_INET6 \<longrightarrow> inet_pton AF_INET t = None) \<and>
     (ip_family ip = AF_INET \<longrightarrow> hd t \<noteq> 0x5B \<and> 0x3A \<notin> set t) \<and>
     t \<noteq> [] \<and> 0 \<notin> set t \<and> length t < 46"

definition plain_name :: "(int \<Rightarrow> byte list \<Rightarrow> byte list option) \<Rightarrow> byte list \<Rightarrow> bool" where
  "plain_name inet_pton t \<longleftrightarrow>
     inet_pton AF_INET t = None \<and> inet_pton AF_INET6 t = None \<and> t \<noteq> [] \<and> 0 \<notin> set t \<and> length t < 999 \<and>
     hd t \<noteq> 0x5B \<and> 0x3A \<notin> set t"

lemma IPFromString_c_str:
  assumes "0 \<notin> set t"
  shows "IPFromString inet_pton t (Some x) =
    (case inet_pton AF_INET t of None \<Rightarrow> (case inet_pton AF_INET6 t of None \<Rightarrow> (False, Some IPAddress_nil)
       | Some bs \<Rightarrow> (True, Some (IPAddress_in6 bs))) | Some bs \<Rightarrow> (True, Some (IPAddress_in (word_of_nat (le_nat bs)))))"
  unfolding IPFromString_def c_str_id [OF assms] by simp

lemma SetIP_name_readable:
  assumes "ip_wf ip" "readable inet_ntop inet_pton ip t"
  shows "ip_wf (sa_ip (sa_SetIP_name inet_pton t sa)) \<and> ip_eq (sa_ip (sa_SetIP_name inet_pton t sa)) ip"
proof (cases "ip_family ip = AF_INET")
  case True
  then have "sa_ip (sa_SetIP_name inet_pton t sa) = IPAddress_in (ipv4_address ip)"
    using assms(2) by (simp add: IPFromString_c_str readable_def sa_SetIP_name_def ip_Size_def ipv4_address_def)
  then show ?thesis using v4_copy [OF assms(1) True] by simp
next
  case False
  then have six: "ip_family ip = AF_INET6" "length (ip_u ip) = 16" using assms by (simp_all add: readable_def ip_wf_def)
  then have "sa_ip (sa_SetIP_name inet_pton t sa) = IPAddress_in6 (ip_u ip)"
    using assms(2) by (simp add: IPFromString_c_str readable_def sa_SetIP_name_def ip_Size_def)
  then show ?thesis using six assms(1) by (simp add: ip.eq_key ip_key_cases)
qed

lemma SetIP_name_plain: "plain_name inet_pton t \<Longrightarrow> sa_IsUnresolvedIP (sa_SetIP_name inet_pton t sa)"
  by (simp add: plain_name_def IPFromString_c_str sa_SetIP_name_def sa_IsUnresolvedIP_def IPIsUnspec_def)

lemma readable_text:
  "ip_wf ip \<Longrightarrow> readable inet_ntop inet_pton ip t \<Longrightarrow> ip_ToString inet_ntop ip = t"
  by (auto simp: readable_def ip_ToString_def ip_Size_def ip_wf_def Let_def)

lemma print_parse:
  assumes "sa_wf a" "if by_ip a then readable inet_ntop inet_pton (sa_ip a) t else t = sa_hostname a \<and> plain_name inet_pton t"
  shows "\<exists>s. sa_ToString junk inet_ntop a = Inr s \<and>
    sa_FromString inet_pton s b = Inr (True, sa_SetIP_name inet_pton t (sa_SetPort (i32 (strtoul (dec_of (unat (sa_port a))))) b))"
proof (cases "by_ip a \<and> ip_family (sa_ip a) = AF_INET6")
  case True
  then have "sa_ToString junk inet_ntop a = Inr (0x5B # t @ 0x5D # 0x3A # dec_of (unat (sa_port a)))"
    using assms readable_text [of "sa_ip a"] by (intro ToString_brackets) (auto simp: by_ip_def readable_def sa_wf_def)
  then show ?thesis using FromString_brackets [OF port_text_clean(2)] by blast
next
  case False
  then have plain: "t \<noteq> []" "hd t \<noteq> 0x5B" "0x3A \<notin> set t"
    using assms(2) by (auto simp: readable_def plain_name_def split: if_splits)
  have "sa_ToString junk inet_ntop a = Inr (t @ 0x3A # dec_of (unat (sa_port a)))"
    using False assms readable_text [of "sa_ip a"]
    by (intro ToString_plain) (auto simp: by_ip_def readable_def plain_name_def sa_wf_def split: if_splits)
  then show ?thesis using FromString_plain [OF plain] by blast
qed

section \<open>Well-formed addresses\<close>

text \<open>The addresses that the constructors and operations make, given well-formed arguments; \<open>inet_pton\<close> is the library's.\<close>

inductive sa_made :: "(int \<Rightarrow> byte list \<Rightarrow> byte list option) \<Rightarrow> SocketAddress \<Rightarrow> bool" for inet_pton where
  nil: "sa_made inet_pton SocketAddress_nil"
| Clear: "sa_made inet_pton sa \<Longrightarrow> sa_made inet_pton (sa_Clear sa)"
| name: "sa_made inet_pton (SocketAddress_name inet_pton hostname port)"
| host: "sa_made inet_pton (SocketAddress_host w port)"
| ip: "ip_wf ip \<Longrightarrow> sa_made inet_pton (SocketAddress_ip ip port)"
| empty: "sa_made inet_pton (EmptySocketAddressWithFamily family)"
| SetIP: "sa_made inet_pton sa \<Longrightarrow> ip_wf ip \<Longrightarrow> sa_made inet_pton (sa_SetIP ip sa)"
| SetIP_host: "sa_made inet_pton sa \<Longrightarrow> sa_made inet_pton (sa_SetIP_host w sa)"
| SetIP_name: "sa_made inet_pton sa \<Longrightarrow> sa_made inet_pton (sa_SetIP_name inet_pton hostname sa)"
| SetResolvedIP: "sa_made inet_pton sa \<Longrightarrow> ip_wf ip \<Longrightarrow> sa_made inet_pton (sa_SetResolvedIP ip sa)"
| SetResolvedIP_host: "sa_made inet_pton sa \<Longrightarrow> sa_made inet_pton (sa_SetResolvedIP_host w sa)"
| SetPort: "sa_made inet_pton sa \<Longrightarrow> sa_made inet_pton (sa_SetPort port sa)"
| SetScopeID: "sa_made inet_pton sa \<Longrightarrow> in_i32 i \<Longrightarrow> sa_made inet_pton (sa_SetScopeID i sa)"
| FromString: "sa_made inet_pton sa \<Longrightarrow> sa_FromString inet_pton str sa = Inr (ok, sa') \<Longrightarrow> sa_made inet_pton sa'"
| FromSockAddr: "sa_made inet_pton sa \<Longrightarrow> sa_FromSockAddr saddr sa = (ok, sa') \<Longrightarrow> sa_made inet_pton sa'"
| FromStorage: "sa_made inet_pton sa \<Longrightarrow> length addr = 128 \<Longrightarrow>
    SocketAddressFromSockAddrStorage addr (Some sa) = (ok, Some sa') \<Longrightarrow> sa_made inet_pton sa'"

text \<open>The type, and what the flag \<open>literal_\<close> says of the name.\<close>

definition sa_typed :: "(int \<Rightarrow> byte list \<Rightarrow> byte list option) \<Rightarrow> SocketAddress \<Rightarrow> bool" where
  "sa_typed inet_pton sa \<longleftrightarrow>
     sa_wf sa \<and> (sa_literal sa \<longrightarrow> inet_pton AF_INET (c_str (sa_hostname sa)) \<noteq> None \<or> inet_pton AF_INET6 (c_str (sa_hostname sa)) \<noteq> None)"

lemma in_i32_simps [simp]: "in_i32 0" "in_i32 (i32 x)"
  using i32_range [of x] by (simp_all add: in_i32_def)

lemma typed_nil: "sa_typed inet_pton SocketAddress_nil"
  by (simp add: sa_typed_def sa_wf_def SocketAddress_nil_def)

lemma typed_SetPort [simp]: "sa_typed inet_pton (sa_SetPort port sa) = sa_typed inet_pton sa"
  by (simp add: sa_typed_def sa_wf_def sa_SetPort_def)

lemma typed_SetIP: "ip_wf ip \<Longrightarrow> sa_typed inet_pton (sa_SetIP ip sa)"
  by (simp add: sa_typed_def sa_wf_def sa_SetIP_def)

lemma typed_SetIP_host: "sa_typed inet_pton (sa_SetIP_host w sa)"
  by (simp add: sa_typed_def sa_wf_def sa_SetIP_host_def)

lemma typed_fields:
  "sa_typed inet_pton (sa_Clear sa)" "sa_typed inet_pton sa \<Longrightarrow> sa_typed inet_pton (sa_SetResolvedIP_host w sa)"
  "sa_typed inet_pton sa \<Longrightarrow> ip_wf ip \<Longrightarrow> sa_typed inet_pton (sa_SetResolvedIP ip sa)"
  "sa_typed inet_pton sa \<Longrightarrow> in_i32 i \<Longrightarrow> sa_typed inet_pton (sa_SetScopeID i sa)"
  by (simp_all add: sa_typed_def sa_wf_def sa_Clear_def sa_SetResolvedIP_host_def sa_SetResolvedIP_def sa_SetScopeID_def)

lemma typed_SetIP_name:
  assumes "\<And>str bs. inet_pton AF_INET6 str = Some bs \<Longrightarrow> length bs = 16"
  shows "sa_typed inet_pton (sa_SetIP_name inet_pton hostname sa)"
  using assms by (auto simp: sa_typed_def sa_wf_def sa_SetIP_name_def IPFromString_def split: option.splits)

lemma typed_FromString:
  assumes "\<And>str bs. inet_pton AF_INET6 str = Some bs \<Longrightarrow> length bs = 16" "sa_typed inet_pton sa" "sa_FromString inet_pton str sa = Inr (ok, sa')"
  shows "sa_typed inet_pton sa'"
  using assms(2,3) typed_SetIP_name [of inet_pton] assms(1)
  by (auto simp: sa_FromString_def Let_def split: option.splits if_splits)

lemma typed_FromStorage:
  assumes "sa_typed inet_pton sa" "length addr = 128" "SocketAddressFromSockAddrStorage addr (Some sa) = (ok, Some sa')"
  shows "sa_typed inet_pton sa'"
  using assms
  by (auto simp: SocketAddressFromSockAddrStorage_def Let_def SocketAddress_ip_def sa_typed_def sa_wf_def sa_SetIP_def sa_SetPort_def sa_SetScopeID_def split: if_splits)

lemma sa_made_typed:
  assumes "sa_made inet_pton sa" "\<And>str bs. inet_pton AF_INET6 str = Some bs \<Longrightarrow> length bs = 16"
  shows "sa_typed inet_pton sa"
  using assms(1)
proof (induction rule: sa_made.induct)
  case (name hostname port)
  then show ?case using typed_SetIP_name [OF assms(2)] by (simp add: SocketAddress_name_def)
next
  case (SetIP_name sa hostname)
  then show ?case using typed_SetIP_name [OF assms(2)] by simp
next
  case (FromString sa str ok sa')
  from assms(2) FromString(3,2) show ?case by (rule typed_FromString)
next
  case (FromStorage sa addr ok sa')
  then show ?case using typed_FromStorage by blast
next
  case (empty family)
  then show ?case by (simp add: EmptySocketAddressWithFamily_def SocketAddress_ip_def typed_SetIP typed_nil)
next
  case (FromSockAddr sa saddr ok sa')
  from FromSockAddr(2,3) show ?case
    by (auto simp: sa_FromSockAddr_def Let_def sa_SetIP_host_def sa_SetPort_def sa_typed_def sa_wf_def split: if_splits)
qed (simp_all add: typed_nil typed_SetIP typed_SetIP_host typed_fields SocketAddress_host_def SocketAddress_ip_def)

section \<open>Properties\<close>

text \<open>Socket addresses can be keys of sorted and hashed containers: the comparison puts any two in exactly one of the
  relations less, equal, greater, is transitive, does not tell equal addresses apart, and equal addresses have equal hashes.\<close>

theorem socket_address_order:
  assumes "sa_wf a" "sa_wf b" "sa_wf c"
  shows "((sa_less a b \<and> \<not> sa_eq a b \<and> \<not> sa_less b a) \<or> (\<not> sa_less a b \<and> sa_eq a b \<and> \<not> sa_less b a) \<or>
      (\<not> sa_less a b \<and> \<not> sa_eq a b \<and> sa_less b a)) \<and>
    (sa_less a b \<and> sa_less b c \<longrightarrow> sa_less a c) \<and>
    (sa_eq a b \<longrightarrow> (sa_less a c \<longleftrightarrow> sa_less b c) \<and> (sa_less c a \<longleftrightarrow> sa_less c b) \<and> sa_Hash a = sa_Hash b)"
  using sa.strict_total_order [OF assms] sa_eq_Hash [OF assms(1,2)] by auto

theorem socket_address_order_witness:
  "\<not> (sa_less (SocketAddress_host 1 80) (SocketAddress_host 2 80) \<and> sa_less (SocketAddress_host 2 80) (SocketAddress_host 1 80))"
proof -
  have "sa_wf (SocketAddress_host i 80)" for i
    by (simp add: sa_wf_def SocketAddress_host_def SocketAddress_nil_def sa_SetPort_def sa_SetIP_def in_i32_def)
  then show ?thesis using socket_address_order [of "SocketAddress_host 1 80" "SocketAddress_host 2 80" "SocketAddress_host 2 80"] by blast
qed

text \<open>An address written to the structure of the operating system is read back: the IP address, the port and, for IPv6, the
  scope; the size reported is that of the family's structure. Written for a dual-stack socket it comes back as the IPv6 form of the
  same address. The nil address is reported as not representable and is not read back.\<close>

theorem sockaddr_storage_roundtrip:
  assumes "sa_wf a"
  shows "if ip_family (sa_ip a) = AF_UNSPEC
    then snd (sa_ToSockAddrStorage a) = 0 \<and> SocketAddressFromSockAddrStorage (fst (sa_ToSockAddrStorage a)) (Some out) = (False, Some out)
    else snd (sa_ToSockAddrStorage a) = (if ip_family (sa_ip a) = AF_INET then 16 else 28) \<and>
      snd (sa_ToDualStackSockAddrStorage a) = 28 \<and>
      (\<exists>a'. SocketAddressFromSockAddrStorage (fst (sa_ToSockAddrStorage a)) (Some out) = (True, Some a') \<and>
        ip_eq (sa_ip a') (sa_ip a) \<and> sa_port a' = sa_port a \<and> sa_hostname a' = [] \<and>
        (ip_family (sa_ip a) = AF_INET6 \<longrightarrow> sa_scope_id a' = sa_scope_id a)) \<and>
      (\<exists>a'. SocketAddressFromSockAddrStorage (fst (sa_ToDualStackSockAddrStorage a)) (Some out) = (True, Some a') \<and>
        ip_eq (sa_ip a') (AsIPv6Address (sa_ip a)) \<and> sa_port a' = sa_port a \<and> sa_scope_id a' = sa_scope_id a)"
proof -
  have wf: "ip_wf (sa_ip a)" "in_i32 (sa_scope_id a)" using assms by (simp_all add: sa_wf_def)
  note dual = mapping_shapes(1,3) [OF wf(1)]
  have len: "length (ip_u (sa_ip a)) = 16" "length (ip_u (AsIPv6Address (sa_ip a))) = 16" using wf(1) dual(1) by (simp_all add: ip_wf_def)
  from wf(1) show ?thesis
  proof (cases rule: ip_wf_cases)
    case 1
    have "int (le_nat (take 2 (le_bytes 2 (nat (AF_UNSPEC mod 2 ^ 16)) @ drop 2 (zeros 128)))) = AF_UNSPEC"
      using family_stored(3) by simp
    with 1 show ?thesis
      by (simp add: sa_ToSockAddrStorage_def ToSockAddrStorageHelper_def SocketAddressFromSockAddrStorage_def Let_def overwrite_def)
  next
    case 2
    have "ip_family (AsIPv6Address (sa_ip a)) = AF_INET6" using 2 dual(2) by simp
    with 2 show ?thesis
      using storage_v4 [OF 2(1)] storage_back_v4 [OF 2(1)] storage_v6 [OF _ len(2)] storage_back_v6 [OF _ len(2) wf(2)] v4_copy [OF wf(1)]
        ip.eq_equivalence(1) [OF dual(1)]
      by (simp add: sa_ToSockAddrStorage_def sa_ToDualStackSockAddrStorage_def)
  next
    case 3
    have "ip_family (AsIPv6Address (sa_ip a)) = AF_INET6" using 3 dual(2) by simp
    with 3 show ?thesis
      using storage_v6 [OF _ len(1)] storage_back_v6 [OF _ len(1) wf(2)] storage_v6 [OF _ len(2)] storage_back_v6 [OF _ len(2) wf(2)]
        ip.eq_equivalence(1) [OF dual(1)] ip.eq_equivalence(1) [OF wf(1)]
      by (simp add: sa_ToSockAddrStorage_def sa_ToDualStackSockAddrStorage_def)
  qed
qed

theorem sockaddr_storage_roundtrip_witness:
  "snd (sa_ToDualStackSockAddrStorage (SocketAddress_ip (IPAddress_host 0x7F000001) 80)) = 28"
  using sockaddr_storage_roundtrip [of "SocketAddress_ip (IPAddress_host 0x7F000001) 80" SocketAddress_nil]
  by (simp add: sa_wf_def in_i32_def)

text \<open>C31: the text of an address with a port parses back to it. For an address given by its IP the parsed address has the same
  IP and port, and is equal to it unless the IP is the any address, where the host name now counts. For a host name that is no
  address, the parsed address has that name, no IP, and the same port. The name must be non-empty and shorter than 999 bytes (longer texts are cut by the buffer
  of \<open>ToString\<close>), must have no colon and no zero byte, and must not begin with an opening bracket. \<open>inet_ntop\<close> is assumed to print the IP as a
  text of at most 45 characters that \<open>inet_pton\<close> reads back, an IPv4 address without a colon or a bracket at its start.\<close>

theorem socket_address_text_roundtrip:
  assumes "sa_wf a" "if by_ip a then readable inet_ntop inet_pton (sa_ip a) t else t = sa_hostname a \<and> plain_name inet_pton t"
  shows "\<exists>s a'. sa_ToString junk inet_ntop a = Inr s \<and> sa_FromString inet_pton s b = Inr (True, a') \<and>
    sa_port a' = sa_port a \<and> sa_hostname a' = t \<and>
    (if by_ip a then ip_eq (sa_ip a') (sa_ip a) \<and> (\<not> IPIsAny (sa_ip a) \<longrightarrow> sa_eq a' a) else sa_IsUnresolvedIP a')"
proof -
  define a' where "a' = sa_SetIP_name inet_pton t (sa_SetPort (i32 (strtoul (dec_of (unat (sa_port a))))) b)"
  have port: "sa_port a' = sa_port a" "sa_hostname a' = t" by (simp_all add: a'_def port_text_back)
  have st: "\<exists>s. sa_ToString junk inet_ntop a = Inr s \<and> sa_FromString inet_pton s b = Inr (True, a')"
    unfolding a'_def using print_parse assms by blast
  show ?thesis
  proof (cases "by_ip a")
    case False
    then have "sa_IsUnresolvedIP a'" using assms(2) by (auto simp: a'_def intro: SetIP_name_plain)
    with False st port show ?thesis by auto
  next
    case True
    have wf: "ip_wf (sa_ip a)" using assms(1) by (simp add: sa_wf_def)
    have ip: "ip_wf (sa_ip a')" "ip_eq (sa_ip a') (sa_ip a)" using SetIP_name_readable [OF wf] True assms(2) by (simp_all add: a'_def)
    then have "ip_key (sa_ip a') = ip_key (sa_ip a)" using wf by (simp add: ip.eq_key)
    then have "\<not> IPIsAny (sa_ip a) \<longrightarrow> sa_eq a' a"
      using IPIsAny_key [OF ip(1) wf] ip(2) port True assms(2)
      by (auto simp: sa_eq_def sa_EqualIPs_def sa_EqualPorts_def IPIsUnspec_def readable_def)
    with True st port ip(2) show ?thesis by auto
  qed
qed

text \<open>The loopback address, printed in dotted decimal, and the name \<open>sfu.local\<close>.\<close>

definition ex_ntop :: "int \<Rightarrow> byte list \<Rightarrow> byte list option" where
  "ex_ntop f bs = (case bs of [a, b, c, d] \<Rightarrow> if f = AF_INET then Some (dec_of (unat a) @ 0x2E # dec_of (unat b) @ 0x2E # dec_of (unat c) @ 0x2E # dec_of (unat d)) else None | _ \<Rightarrow> None)"

definition ex_loopback :: "byte list" where
  "ex_loopback = [0x31, 0x32, 0x37, 0x2E, 0x30, 0x2E, 0x30, 0x2E, 0x31]"

definition ex_pton :: "int \<Rightarrow> byte list \<Rightarrow> byte list option" where
  "ex_pton f str = (if f = AF_INET \<and> str = ex_loopback then Some [127, 0, 0, 1] else None)"

definition ex_name :: "byte list" where
  "ex_name = [0x73, 0x66, 0x75, 0x2E, 0x6C, 0x6F, 0x63, 0x61, 0x6C]"

lemma ex_name_not: "ex_name \<noteq> ex_loopback" "0 \<notin> set ex_name" "c_str ex_name = ex_name"
proof -
  show "ex_name \<noteq> ex_loopback" by (simp add: ex_name_def ex_loopback_def)
  show "0 \<notin> set ex_name" by (simp add: ex_name_def)
  then show "c_str ex_name = ex_name" by (rule c_str_id)
qed

lemma le_bytes_4: "le_bytes 4 v = [word_of_nat (v mod 256), word_of_nat (v div 256 mod 256), word_of_nat (v div 65536 mod 256), word_of_nat (v div 16777216 mod 256)]"
proof -
  have "(4 :: nat) = Suc (Suc (Suc (Suc 0)))" by simp
  then show ?thesis by (simp only: le_bytes.simps div_mult2_eq [symmetric]) simp
qed

lemma ex_loopback_bytes: "take 4 (ip_u (IPAddress_host 0x7F000001)) = [127, 0, 0, 1]"
proof -
  have "HostToNetwork32 0x7F000001 = 0x100007F" by (simp add: HostToNetwork32_def swap_bytes_def le_bytes_4)
  then show ?thesis by (simp add: le_bytes_4)
qed

theorem socket_address_text_roundtrip_witness:
  "(\<exists>s a'. sa_ToString (\<lambda>_. 0) ex_ntop (SocketAddress_ip (IPAddress_host 0x7F000001) 80) = Inr s \<and>
    sa_FromString ex_pton s SocketAddress_nil = Inr (True, a') \<and> sa_port a' = 80 \<and> sa_hostname a' = ex_loopback \<and>
    ip_eq (sa_ip a') (IPAddress_host 0x7F000001)) \<and>
   (\<exists>s a'. sa_ToString (\<lambda>_. 0) ex_ntop (SocketAddress_name ex_pton ex_name 8080) = Inr s \<and>
    sa_FromString ex_pton s SocketAddress_nil = Inr (True, a') \<and> sa_port a' = 8080 \<and> sa_hostname a' = ex_name \<and> sa_IsUnresolvedIP a')"
proof -
  let ?a = "SocketAddress_ip (IPAddress_host 0x7F000001) 80" and ?b = "SocketAddress_name ex_pton ex_name 8080"
  have dec: "dec_of 127 = [0x31, 0x32, 0x37]" "dec_of 0 = [0x30]" "dec_of 1 = [0x31]" by code_simp+
  have "readable ex_ntop ex_pton (IPAddress_host 0x7F000001) ex_loopback"
    using ex_loopback_bytes dec by (simp add: readable_def ip_Size_def ex_ntop_def ex_pton_def ex_loopback_def del: take_new)
  then have 1: "sa_wf ?a" "if by_ip ?a then readable ex_ntop ex_pton (sa_ip ?a) ex_loopback else ex_loopback = sa_hostname ?a \<and> plain_name ex_pton ex_loopback"
    by (simp_all add: sa_wf_def in_i32_def by_ip_def)
  have b: "sa_hostname ?b = ex_name" "\<not> sa_literal ?b" "sa_port ?b = 8080" "sa_wf ?b"
    using ex_name_not by (simp_all add: SocketAddress_name_def sa_SetPort_def sa_SetIP_name_def IPFromString_def ex_pton_def sa_wf_def in_i32_def)
  have "plain_name ex_pton ex_name" using ex_name_not by (simp add: plain_name_def ex_pton_def) (simp add: ex_name_def)
  then have 2: "if by_ip ?b then readable ex_ntop ex_pton (sa_ip ?b) ex_name else ex_name = sa_hostname ?b \<and> plain_name ex_pton ex_name"
    using b by (simp add: by_ip_def ex_name_def)
  have "by_ip ?a" "\<not> by_ip ?b" using b by (simp_all add: by_ip_def ex_name_def)
  then show ?thesis
    using socket_address_text_roundtrip [OF 1, of "\<lambda>_. 0" SocketAddress_nil] socket_address_text_roundtrip [OF b(4) 2, of "\<lambda>_. 0" SocketAddress_nil] b
    by auto
qed

text \<open>C32: every address that the constructors and operations of the class make, in any order and from any text or structure of the operating system,
  is well formed: the family is one of the three, the address has all its bytes, the scope fits its type, and the flag for a literal is set only when the
  name does parse as an IP address. \<open>inet_pton\<close> returns 16 bytes for IPv6.\<close>

theorem socket_addresses_typed:
  assumes "sa_made inet_pton sa" "\<And>str bs. inet_pton AF_INET6 str = Some bs \<Longrightarrow> length bs = 16"
  shows "length (ip_u (sa_ip sa)) = 16 \<and> ip_family (sa_ip sa) \<in> {AF_UNSPEC, AF_INET, AF_INET6} \<and> in_i32 (sa_scope_id sa) \<and>
    (sa_literal sa \<longrightarrow> (\<exists>ip. IPFromString inet_pton (sa_hostname sa) (Some IPAddress_nil) = (True, Some ip)))"
  using sa_made_typed [OF assms] by (auto simp: sa_typed_def sa_wf_def ip_wf_def IPFromString_def split: option.splits)

theorem socket_addresses_typed_witness:
  "sa_literal (SocketAddress_name (\<lambda>f s. if f = AF_INET then Some [127, 0, 0, 1] else None) [49] 80) \<and>
   ip_family (sa_ip (SocketAddress_name (\<lambda>f s. if f = AF_INET then Some [127, 0, 0, 1] else None) [49] 80)) \<in> {AF_UNSPEC, AF_INET, AF_INET6}"
  using socket_addresses_typed [of "\<lambda>f s. if f = AF_INET then Some [127, 0, 0, 1] else None", OF name, of "[49]" 80]
  by (auto simp: SocketAddress_name_def sa_SetPort_def sa_SetIP_name_def IPFromString_def)

text \<open>A text that opens a bracket and never closes it is accepted, and the address keeps its old value.\<close>

lemma open_bracket_accepted: "0x5D \<notin> set s \<Longrightarrow> sa_FromString inet_pton (0x5B # s) a = Inr (True, a)"
  by (simp add: sa_FromString_def rfind_char_def find_char_eq)

end
