(* ===== verification/Logging.thy ===== *)
theory Logging
  imports Log Socket_Address Message_Queue
begin

text \<open>
  The logging core \<open>logging.h\<close> and \<open>logging.cc\<close> under \<open>src/xrtcserver/rtcbase/src/rtc_base\<close>, through which the server logs and with which the sink of
  \<open>Log\<close> registers. Sinks are objects on a heap, chained by their \<open>next_\<close> pointers; what a sink was told is recorded with it. The loops over the chain are
  \<open>partial_function (option)\<close>: on a chain that is a circle they run forever, which is the value \<open>None\<close>.

  The clock, the thread identifier and \<open>strerror\<close> are arguments, and so is the text of a floating point number. The mutex makes each function that takes it one step.
\<close>

section \<open>Definitions\<close>

subsection \<open>State\<close>

record sink =
  sk_next :: ptr
  sk_min_severity :: severity
  sk_got :: "(byte list \<times> severity) list"

record logging =
  g_min_sev :: severity
  g_dbg_sev :: severity
  log_to_stderr :: bool
  streams :: ptr
  streams_empty :: bool
  lm_thread :: bool
  lm_timestamp :: bool
  log_path_prefix :: "byte list"
  log_start_time :: "int option"
  sinks :: "nat \<rightharpoonup> sink"
  stderr_text :: "byte list"

text \<open>The start of a build with \<open>NDEBUG\<close>, and of one without.\<close>

definition logging_init :: "bool \<Rightarrow> (nat \<rightharpoonup> sink) \<Rightarrow> logging" where
  "logging_init NDEBUG h =
     (let sev = (if NDEBUG then LS_VERBOSE else LS_INFO)
      in \<lparr>g_min_sev = sev, g_dbg_sev = sev, log_to_stderr = True, streams = None, streams_empty = True, lm_thread = False,
          lm_timestamp = False, log_path_prefix = [], log_start_time = None, sinks = h, stderr_text = []\<rparr>)"

subsection \<open>The chain of sinks\<close>

partial_function (option) min_loop :: "(nat \<rightharpoonup> sink) \<Rightarrow> ptr \<Rightarrow> ptr \<Rightarrow> severity \<Rightarrow> severity res option" where
  "min_loop h stream entry sev =
     (case entry of None \<Rightarrow> Some (Inr sev)
      | Some a \<Rightarrow>
          (case h a of None \<Rightarrow> Some (Inl Use_after_free)
           | Some s \<Rightarrow>
               min_loop h stream (sk_next s) (if stream = None \<or> stream = Some a then min sev (sk_min_severity s) else sev)))"

definition GetLogToStream :: "ptr \<Rightarrow> logging \<Rightarrow> severity res option" where
  "GetLogToStream stream lg = min_loop (sinks lg) stream (streams lg) LS_NONE"

definition UpdateMinLogSeverity :: "logging \<Rightarrow> logging res option" where
  "UpdateMinLogSeverity lg =
     (case min_loop (sinks lg) None (streams lg) (g_dbg_sev lg) of
        None \<Rightarrow> None
      | Some (Inl e) \<Rightarrow> Some (Inl e)
      | Some (Inr min_sev) \<Rightarrow> Some (Inr (lg\<lparr>g_min_sev := min_sev\<rparr>)))"

definition AddLogToStream :: "nat \<Rightarrow> severity \<Rightarrow> logging \<Rightarrow> logging res option" where
  "AddLogToStream stream min_sev lg =
     (case sinks lg stream of None \<Rightarrow> Some (Inl Use_after_free)
      | Some s \<Rightarrow>
          UpdateMinLogSeverity
            (lg\<lparr>sinks := (sinks lg)(stream \<mapsto> s\<lparr>sk_min_severity := min_sev, sk_next := streams lg\<rparr>),
               streams := Some stream, streams_empty := False\<rparr>))"

text \<open>\<open>entry\<close> points to the head of the chain or to the \<open>next_\<close> of a sink.\<close>

partial_function (option) remove_loop :: "nat \<Rightarrow> ptr \<Rightarrow> logging \<Rightarrow> logging res option" where
  "remove_loop stream entry lg =
     (case (case entry of None \<Rightarrow> Some (streams lg) | Some a \<Rightarrow> map_option sk_next (sinks lg a)) of
        None \<Rightarrow> Some (Inl Use_after_free)
      | Some None \<Rightarrow> Some (Inr lg)
      | Some (Some e) \<Rightarrow>
          (if e = stream
           then (case sinks lg e of None \<Rightarrow> Some (Inl Use_after_free)
                 | Some s \<Rightarrow>
                     Some (Inr (case entry of None \<Rightarrow> lg\<lparr>streams := sk_next s\<rparr>
                                | Some a \<Rightarrow> lg\<lparr>sinks := (sinks lg)(a := map_option (\<lambda>p. p\<lparr>sk_next := sk_next s\<rparr>) (sinks lg a))\<rparr>)))
           else remove_loop stream (Some e) lg))"

definition RemoveLogToStream :: "nat \<Rightarrow> logging \<Rightarrow> logging res option" where
  "RemoveLogToStream stream lg =
     (case remove_loop stream None lg of
        None \<Rightarrow> None
      | Some (Inl e) \<Rightarrow> Some (Inl e)
      | Some (Inr lg) \<Rightarrow> UpdateMinLogSeverity (lg\<lparr>streams_empty := (streams lg = None)\<rparr>))"

subsection \<open>Settings\<close>

definition LogToDebug :: "severity \<Rightarrow> logging \<Rightarrow> logging res option" where
  "LogToDebug min_sev lg = UpdateMinLogSeverity (lg\<lparr>g_dbg_sev := min_sev\<rparr>)"

definition SetLogToStderr :: "bool \<Rightarrow> logging \<Rightarrow> logging" where
  "SetLogToStderr b lg = lg\<lparr>log_to_stderr := b\<rparr>"

definition LogThreads :: "bool \<Rightarrow> logging \<Rightarrow> logging" where
  "LogThreads on lg = lg\<lparr>lm_thread := on\<rparr>"

definition LogTimestamps :: "bool \<Rightarrow> logging \<Rightarrow> logging" where
  "LogTimestamps on lg = lg\<lparr>lm_timestamp := on\<rparr>"

definition SetLogPathPrefix :: "byte list \<Rightarrow> logging \<Rightarrow> logging" where
  "SetLogPathPrefix prefix lg = lg\<lparr>log_path_prefix := prefix\<rparr>"

abbreviation bytes :: "string \<Rightarrow> byte list" where
  "bytes s \<equiv> map of_char s"

definition configure_token :: "byte list \<Rightarrow> severity \<times> severity \<times> logging \<Rightarrow> severity \<times> severity \<times> logging" where
  "configure_token token st =
     (case st of (current_level, debug_level, lg) \<Rightarrow>
        if token = [] then st
        else if token = bytes ''tstamp'' then (current_level, debug_level, LogTimestamps True lg)
        else if token = bytes ''thread'' then (current_level, debug_level, LogThreads True lg)
        else if token = bytes ''verbose'' then (LS_VERBOSE, debug_level, lg)
        else if token = bytes ''info'' then (LS_INFO, debug_level, lg)
        else if token = bytes ''warning'' then (LS_WARNING, debug_level, lg)
        else if token = bytes ''error'' then (LS_ERROR, debug_level, lg)
        else if token = bytes ''none'' then (LS_NONE, debug_level, lg)
        else if token = bytes ''debug'' then (current_level, current_level, lg)
        else st)"

definition ConfigureLogging :: "byte list \<Rightarrow> logging \<Rightarrow> logging res option" where
  "ConfigureLogging params lg =
     (let (_, debug_level, lg) = fold configure_token (tokenize params 0x20) (LS_VERBOSE, g_dbg_sev lg, lg)
      in LogToDebug debug_level lg)"

definition IsNoop :: "severity \<Rightarrow> logging \<Rightarrow> bool" where
  "IsNoop sev lg = (if g_dbg_sev lg \<le> sev \<or> g_min_sev lg \<le> sev then False else streams_empty lg)"

definition LogCheckLevel :: "severity \<Rightarrow> logging \<Rightarrow> bool" where
  "LogCheckLevel sev lg \<longleftrightarrow> g_min_sev lg \<le> sev"

subsection \<open>Metadata\<close>

record LogMetadata =
  md_file :: "byte list option"
  line_and_sev :: u32

definition LogMetadata_new :: "byte list option \<Rightarrow> int \<Rightarrow> severity \<Rightarrow> LogMetadata" where
  "LogMetadata_new file line sev = \<lparr>md_file = file, line_and_sev = or (push_bit 3 (word_of_int line)) (word_of_nat (sev_num sev))\<rparr>"

definition md_Line :: "LogMetadata \<Rightarrow> int" where
  "md_Line md = uint (drop_bit 3 (line_and_sev md))"

definition severity_of :: "nat \<Rightarrow> severity" where
  "severity_of n = (if n = 0 then LS_VERBOSE else if n = 1 then LS_INFO else if n = 2 then LS_WARNING else if n = 3 then LS_ERROR else LS_NONE)"

definition md_Severity :: "LogMetadata \<Rightarrow> severity" where
  "md_Severity md = severity_of (unat (and (line_and_sev md) 7))"

subsection \<open>Messages\<close>

definition GetSeverityStr :: "severity \<Rightarrow> byte list" where
  "GetSeverityStr sev =
     (case sev of LS_VERBOSE \<Rightarrow> bytes ''VERBOSE'' | LS_INFO \<Rightarrow> bytes ''INFO'' | LS_WARNING \<Rightarrow> bytes ''WARNING''
      | LS_ERROR \<Rightarrow> bytes ''ERROR'' | LS_NONE \<Rightarrow> bytes ''NONE'')"

text \<open>\<open>strstr\<close> of the C library.\<close>

definition strstr :: "byte list \<Rightarrow> byte list \<Rightarrow> nat option" where
  "strstr s p = List.find (\<lambda>i. take (length p) (drop i s) = p) [0..<Suc (length s)]"

text \<open>The comparison of the two pointers, of which one may be null.\<close>

definition FilenameFromPath :: "byte list \<Rightarrow> byte list \<Rightarrow> byte list" where
  "FilenameFromPath prefix file =
     (let end1 = (if prefix \<noteq> [] then strstr file prefix else rfind_char file 0x2F);
          end2 = rfind_char file 0x5C
      in case (end1, end2) of
           (None, None) \<Rightarrow> file
         | (Some a, None) \<Rightarrow> drop (a + 1) file
         | (None, Some b) \<Rightarrow> drop (b + 1) file
         | (Some a, Some b) \<Rightarrow> if a > b then drop (a + 1) file else drop (b + 1) file)"

text \<open>The conversions \<open>%03\<close> of a signed integer and \<open>%08X\<close>.\<close>

definition fmt_03 :: "int \<Rightarrow> byte list" where
  "fmt_03 n =
     (let d = dec_of (nat \<bar>n\<bar>) in (if n < 0 then [45] else []) @ replicate ((if n < 0 then 2 else 3) - length d) 48 @ d)"

definition fmt_08X :: "int \<Rightarrow> byte list" where
  "fmt_08X n =
     (let d = map (\<lambda>c. if 97 \<le> c then c - 32 else c) (hex_of (nat (n mod 2 ^ 32))) in replicate (8 - length d) 48 @ d)"

datatype LogErrorContext = ERRCTX_NONE | ERRCTX_ERRNO | ERRCTX_HRESULT

record log_env =
  le_now :: int
  le_thread_id :: int
  le_strerror :: "int \<Rightarrow> byte list"
  le_stack :: "nat \<Rightarrow> byte"

record LogMessage =
  lm_severity :: severity
  lm_extra :: "byte list"
  print_stream :: "byte list"

text \<open>The time since the first message; division and remainder round towards zero.\<close>

definition timestamp_text :: "int \<Rightarrow> byte list" where
  "timestamp_text t =
     bytes ''['' @ fmt_03 (sgn t * (\<bar>t\<bar> div 1000)) @ bytes '':'' @ fmt_03 (sgn t * (\<bar>t\<bar> mod 1000)) @ bytes '']''"

definition error_text :: "log_env \<Rightarrow> LogErrorContext \<Rightarrow> int \<Rightarrow> byte list res" where
  "error_text env err_ctx err =
     res_bind (SimpleStringBuilder_new (map (le_stack env) [0..<1024])) (\<lambda>tmp.
     res_bind (sb_AppendFormat (Some (bytes ''[0x'' @ fmt_08X err @ bytes '']'')) tmp) (\<lambda>tmp.
     res_bind
       (if err_ctx = ERRCTX_ERRNO
        then res_bind (sb_put_cstr (bytes '' '') tmp) (sb_put_cstr (le_strerror env err)) else Inr tmp) (\<lambda>tmp.
       Inr (sb_str tmp))))"

definition LogMessage_new ::
  "log_env \<Rightarrow> byte list option \<Rightarrow> int \<Rightarrow> severity \<Rightarrow> LogErrorContext \<Rightarrow> int \<Rightarrow> logging \<Rightarrow> (LogMessage \<times> logging) res" where
  "LogMessage_new env file line sev err_ctx err lg =
     (let s = StringBuilder_put (bytes '': '') (StringBuilder_put (GetSeverityStr sev) []);
          start = (case log_start_time lg of None \<Rightarrow> le_now env | Some t \<Rightarrow> t);
          (s, lg) = (if lm_timestamp lg
                     then (StringBuilder_put (timestamp_text (TimeDiff (le_now env) start)) s, lg\<lparr>log_start_time := Some start\<rparr>) else (s, lg));
          s = (if lm_thread lg
               then StringBuilder_put (bytes ''] '') (StringBuilder_put (int_text (le_thread_id env)) (StringBuilder_put (bytes ''['') s)) else s);
          s = (case file of None \<Rightarrow> s
               | Some f \<Rightarrow>
                   StringBuilder_put (bytes ''): '') (StringBuilder_put (int_text line) (StringBuilder_put (bytes '':'')
                     (StringBuilder_put (FilenameFromPath (log_path_prefix lg) f) (StringBuilder_put (bytes ''('') s)))))
      in if err_ctx \<noteq> ERRCTX_NONE
         then res_bind (error_text env err_ctx err) (\<lambda>extra. Inr (\<lparr>lm_severity = sev, lm_extra = extra, print_stream = s\<rparr>, lg))
         else Inr (\<lparr>lm_severity = sev, lm_extra = [], print_stream = s\<rparr>, lg))"

definition FinishPrintStream :: "LogMessage \<Rightarrow> LogMessage" where
  "FinishPrintStream m =
     (let s = (if lm_extra m \<noteq> [] then StringBuilder_put (lm_extra m) (StringBuilder_put (bytes '' : '') (print_stream m)) else print_stream m)
      in m\<lparr>print_stream := StringBuilder_put [10] s\<rparr>)"

definition OutputToDebug :: "byte list \<Rightarrow> logging \<Rightarrow> logging" where
  "OutputToDebug str lg = (if log_to_stderr lg then lg\<lparr>stderr_text := stderr_text lg @ c_str str\<rparr> else lg)"

partial_function (option) deliver :: "byte list \<Rightarrow> severity \<Rightarrow> ptr \<Rightarrow> (nat \<rightharpoonup> sink) \<Rightarrow> (nat \<rightharpoonup> sink) res option" where
  "deliver str sev entry h =
     (case entry of None \<Rightarrow> Some (Inr h)
      | Some a \<Rightarrow>
          (case h a of None \<Rightarrow> Some (Inl Use_after_free)
           | Some s \<Rightarrow>
               deliver str sev (sk_next s)
                 (if sk_min_severity s \<le> sev then h(a \<mapsto> s\<lparr>sk_got := sk_got s @ [(str, sev)]\<rparr>) else h)))"

definition LogMessage_destroy :: "LogMessage \<Rightarrow> logging \<Rightarrow> logging res option" where
  "LogMessage_destroy m lg =
     (let m = FinishPrintStream m;
          (str, _) = StringBuilder_Release (print_stream m);
          lg = (if g_dbg_sev lg \<le> lm_severity m then OutputToDebug str lg else lg)
      in case deliver str (lm_severity m) (streams lg) (sinks lg) of
           None \<Rightarrow> None
         | Some (Inl e) \<Rightarrow> Some (Inl e)
         | Some (Inr h) \<Rightarrow> Some (Inr (lg\<lparr>sinks := h\<rparr>)))"

text \<open>The arguments of a log statement; integers of all widths print as decimals.\<close>

datatype log_arg =
    Arg_int int
  | Arg_double "byte list"
  | Arg_char_p "byte list option"
  | Arg_string "byte list"
  | Arg_void_p int

fun arg_text :: "log_arg \<Rightarrow> byte list" where
  "arg_text (Arg_int i) = int_text i"
| "arg_text (Arg_double t) = t"
| "arg_text (Arg_char_p s) = (case s of None \<Rightarrow> bytes ''(null)'' | Some s \<Rightarrow> c_str s)"
| "arg_text (Arg_string s) = s"
| "arg_text (Arg_void_p p) = ToHex (i32 p)"

fun put_args :: "log_arg list \<Rightarrow> byte list \<Rightarrow> byte list" where
  "put_args [] s = s"
| "put_args (x # xs) s = put_args xs (StringBuilder_put (arg_text x) s)"

definition log_call :: "log_env \<Rightarrow> LogMetadata \<Rightarrow> LogErrorContext \<Rightarrow> int \<Rightarrow> log_arg list \<Rightarrow> logging \<Rightarrow> logging res option" where
  "log_call env md err_ctx err args lg =
     (case LogMessage_new env (md_file md) (md_Line md) (md_Severity md) err_ctx err lg of
        Inl e \<Rightarrow> Some (Inl e)
      | Inr (m, lg) \<Rightarrow> LogMessage_destroy (m\<lparr>print_stream := put_args args (print_stream m)\<rparr>) lg)"

text \<open>The macros \<open>RTC_LOG\<close> and \<open>RTC_LOG_E\<close>.\<close>

definition RTC_LOG ::
  "log_env \<Rightarrow> severity \<Rightarrow> byte list \<Rightarrow> int \<Rightarrow> LogErrorContext \<Rightarrow> int \<Rightarrow> log_arg list \<Rightarrow> logging \<Rightarrow> logging res option" where
  "RTC_LOG env sev file line err_ctx err args lg =
     (if \<not> IsNoop sev lg then log_call env (LogMetadata_new (Some file) line sev) err_ctx err args lg else Some (Inr lg))"

section \<open>Chains as lists\<close>

fun seg :: "(nat \<rightharpoonup> sink) \<Rightarrow> ptr \<Rightarrow> nat list \<Rightarrow> ptr \<Rightarrow> bool" where
  "seg h p [] q \<longleftrightarrow> p = q"
| "seg h p (a # as) q \<longleftrightarrow> p = Some a \<and> (\<exists>s. h a = Some s \<and> seg h (sk_next s) as q)"

abbreviation chain :: "(nat \<rightharpoonup> sink) \<Rightarrow> ptr \<Rightarrow> nat list \<Rightarrow> bool" where
  "chain h p xs \<equiv> seg h p xs None"

lemma seg_append: "seg h p (xs @ ys) q \<longleftrightarrow> (\<exists>r. seg h p xs r \<and> seg h r ys q)"
  by (induction xs arbitrary: p) auto

lemma seg_upd: "a \<notin> set xs \<Longrightarrow> seg (h(a := v)) p xs q = seg h p xs q"
  by (induction xs arbitrary: p) auto

text \<open>Only the links matter.\<close>

lemma seg_cong: "(\<And>a. a \<in> set xs \<Longrightarrow> map_option sk_next (h' a) = map_option sk_next (h a)) \<Longrightarrow> seg h' p xs q = seg h p xs q"
proof (induction xs arbitrary: p)
  case (Cons a xs)
  have "map_option sk_next (h' a) = map_option sk_next (h a)" using Cons.prems by simp
  then show ?case using Cons.IH Cons.prems by (cases "h a"; cases "h' a") auto
qed simp

definition min_at :: "(nat \<rightharpoonup> sink) \<Rightarrow> nat \<Rightarrow> severity" where
  "min_at h a = sk_min_severity (the (h a))"

lemma min_loop_chain:
  "chain h p xs \<Longrightarrow> min_loop h stream p sev = Some (Inr (fold (\<lambda>a sev. if stream = None \<or> stream = Some a then min sev (min_at h a) else sev) xs sev))"
proof (induction xs arbitrary: p sev)
  case (Cons a xs)
  then obtain s where "p = Some a" "h a = Some s" "chain h (sk_next s) xs" by auto
  with Cons.IH show ?case by (simp add: min_loop.simps [of h stream "Some a"] min_at_def)
qed (simp add: min_loop.simps [of h stream None])

definition told :: "byte list \<Rightarrow> severity \<Rightarrow> sink \<Rightarrow> sink" where
  "told str sev s = (if sk_min_severity s \<le> sev then s\<lparr>sk_got := sk_got s @ [(str, sev)]\<rparr> else s)"

lemma deliver_chain:
  "chain h p xs \<Longrightarrow> distinct xs \<Longrightarrow> deliver str sev p h = Some (Inr (\<lambda>a. if a \<in> set xs then map_option (told str sev) (h a) else h a))"
proof (induction xs arbitrary: p h)
  case Nil
  then show ?case by (simp add: deliver.simps [of str sev None])
next
  case (Cons a xs)
  then obtain s where s: "p = Some a" "h a = Some s" "chain h (sk_next s) xs" by auto
  define h1 where h1: "h1 = h(a \<mapsto> told str sev s)"
  have "chain h1 (sk_next s) xs" using s(3) Cons.prems(2) by (simp add: h1 seg_upd)
  moreover have "deliver str sev p h = deliver str sev (sk_next s) h1"
    using s by (cases "sk_min_severity s \<le> sev") (simp_all add: deliver.simps [of str sev "Some a"] told_def h1 fun_upd_idem)
  moreover have "(\<lambda>b. if b \<in> set xs then map_option (told str sev) (h1 b) else h1 b) =
      (\<lambda>b. if b \<in> set (a # xs) then map_option (told str sev) (h b) else h b)"
    using s(2) Cons.prems(2) by (auto simp: h1 fun_eq_iff)
  ultimately show ?case using Cons.IH [of h1 "sk_next s"] Cons.prems(2) by simp
qed

text \<open>Removing a sink changes links only.\<close>

definition same_sinks :: "(nat \<rightharpoonup> sink) \<Rightarrow> (nat \<rightharpoonup> sink) \<Rightarrow> bool" where
  "same_sinks h h' \<longleftrightarrow> (\<forall>a. map_option (\<lambda>s. s\<lparr>sk_next := None\<rparr>) (h' a) = map_option (\<lambda>s. s\<lparr>sk_next := None\<rparr>) (h a))"

lemma same_sinks_refl [simp]: "same_sinks h h"
  by (simp add: same_sinks_def)

lemma same_sinks_min: "same_sinks h h' \<Longrightarrow> min_at h' a = min_at h a"
proof -
  assume "same_sinks h h'"
  then have "map_option (\<lambda>s. s\<lparr>sk_next := None\<rparr>) (h' a) = map_option (\<lambda>s. s\<lparr>sk_next := None\<rparr>) (h a)" by (simp add: same_sinks_def)
  then show ?thesis by (cases "h a"; cases "h' a") (auto simp: min_at_def dest!: arg_cong [where f = sk_min_severity])
qed

lemma remove_loop_chain:
  assumes "chain (sinks lg) (streams lg) (ys @ zs)" "distinct (ys @ zs)" "a \<notin> set ys" "entry = (if ys = [] then None else Some (last ys))"
  shows "\<exists>p h. remove_loop a entry lg = Some (Inr (lg\<lparr>streams := p, sinks := h\<rparr>)) \<and> chain h p (ys @ remove1 a zs) \<and> same_sinks (sinks lg) h"
  using assms
proof (induction zs arbitrary: ys entry)
  case Nil
  have e: "(case entry of None \<Rightarrow> Some (streams lg) | Some b \<Rightarrow> map_option sk_next (sinks lg b)) = Some None"
    using Nil by (cases ys rule: rev_cases) (auto simp: seg_append)
  then show ?case using Nil.prems(1) by (intro exI [of _ "streams lg"] exI [of _ "sinks lg"]) (simp add: remove_loop.simps [of a entry])
next
  case (Cons e zs)
  obtain r s where r: "seg (sinks lg) (streams lg) ys (Some e)" "sinks lg e = Some s" "chain (sinks lg) (sk_next s) zs"
    using Cons.prems(1) by (auto simp: seg_append)
  have e: "(case entry of None \<Rightarrow> Some (streams lg) | Some b \<Rightarrow> map_option sk_next (sinks lg b)) = Some (Some e)"
    using r(1) Cons.prems(4) by (cases ys rule: rev_cases) (auto simp: seg_append)
  show ?case
  proof (cases "e = a")
    case False
    have "remove_loop a entry lg = remove_loop a (Some e) lg" using e False by (simp add: remove_loop.simps [of a entry])
    then show ?thesis using Cons.IH [of "ys @ [e]" "Some e"] Cons.prems False by simp
  next
    case True
    show ?thesis
    proof (cases ys rule: rev_cases)
      case Nil
      then show ?thesis using True r e Cons.prems(4)
        by (intro exI [of _ "sk_next s"] exI [of _ "sinks lg"]) (simp add: remove_loop.simps [of a])
    next
      case (snoc us b)
      obtain t where t: "sinks lg b = Some t" "seg (sinks lg) (streams lg) us (Some b)" using r(1) snoc by (auto simp: seg_append)
      let ?h = "(sinks lg)(b \<mapsto> t\<lparr>sk_next := sk_next s\<rparr>)"
      have "chain ?h (streams lg) (ys @ zs)"
        using snoc t r(3) Cons.prems(2) by (auto simp: seg_append seg_upd)
      moreover have "same_sinks (sinks lg) ?h" using t(1) by (auto simp: same_sinks_def)
      moreover have "remove_loop a entry lg = Some (Inr (lg\<lparr>streams := streams lg, sinks := ?h\<rparr>))"
        using True r(2) e t(1) snoc Cons.prems(4) by (simp add: remove_loop.simps [of a])
      moreover have "ys @ remove1 a (e # zs) = ys @ zs" using True by simp
      ultimately show ?thesis by metis
    qed
  qed
qed

section \<open>The registry\<close>

text \<open>The sinks registered, the latest first, with the severity each was registered with.\<close>

definition log_ok :: "logging \<Rightarrow> (nat \<times> severity) list \<Rightarrow> bool" where
  "log_ok lg rs \<longleftrightarrow>
     chain (sinks lg) (streams lg) (map fst rs) \<and> distinct (map fst rs) \<and> (\<forall>(a, t) \<in> set rs. min_at (sinks lg) a = t) \<and>
     (streams_empty lg \<longleftrightarrow> rs = []) \<and> g_min_sev lg = fold min (map snd rs) (g_dbg_sev lg)"

lemma fold_min_at:
  "(\<forall>(a, t) \<in> set rs. min_at h a = t) \<Longrightarrow> fold (\<lambda>a sev. min sev (min_at h a)) (map fst rs) sev = fold min (map snd rs) sev"
  by (induction rs arbitrary: sev) (auto simp: min.commute)

lemma fold_min_le: "fold min ts (sev :: severity) \<le> u \<longleftrightarrow> sev \<le> u \<or> (\<exists>t \<in> set ts. t \<le> u)"
  by (induction ts arbitrary: sev) (auto simp: min_le_iff_disj)

lemma update_min:
  assumes "chain (sinks lg) (streams lg) (map fst rs)" "distinct (map fst rs)" "\<forall>(a, t) \<in> set rs. min_at (sinks lg) a = t" "streams_empty lg \<longleftrightarrow> rs = []"
  shows "\<exists>sev. UpdateMinLogSeverity lg = Some (Inr (lg\<lparr>g_min_sev := sev\<rparr>)) \<and> log_ok (lg\<lparr>g_min_sev := sev\<rparr>) rs"
  using assms min_loop_chain [OF assms(1), of None "g_dbg_sev lg"] fold_min_at [OF assms(3)]
  by (simp add: UpdateMinLogSeverity_def log_ok_def)

lemma LogToDebug_ok: "log_ok lg rs \<Longrightarrow> \<exists>k. LogToDebug sev lg = Some (Inr (lg\<lparr>g_dbg_sev := sev, g_min_sev := k\<rparr>)) \<and> log_ok (lg\<lparr>g_dbg_sev := sev, g_min_sev := k\<rparr>) rs"
  using update_min [of "lg\<lparr>g_dbg_sev := sev\<rparr>" rs] by (simp add: LogToDebug_def log_ok_def)

lemma AddLogToStream_ok:
  assumes "log_ok lg rs" "sinks lg a = Some s" "a \<notin> fst ` set rs"
  shows "\<exists>lg'. AddLogToStream a sev lg = Some (Inr lg') \<and> log_ok lg' ((a, sev) # rs)"
proof -
  let ?lg = "lg\<lparr>sinks := (sinks lg)(a \<mapsto> s\<lparr>sk_min_severity := sev, sk_next := streams lg\<rparr>), streams := Some a, streams_empty := False\<rparr>"
  have "chain (sinks ?lg) (streams ?lg) (map fst ((a, sev) # rs))"
    using assms by (simp add: log_ok_def seg_upd)
  moreover have "\<forall>(b, t) \<in> set ((a, sev) # rs). min_at (sinks ?lg) b = t"
    using assms by (force simp: log_ok_def min_at_def)
  ultimately show ?thesis using update_min [of ?lg "(a, sev) # rs"] assms by (auto simp: AddLogToStream_def log_ok_def)
qed

lemma map_fst_filter: "distinct (map fst rs) \<Longrightarrow> map fst (filter (\<lambda>(b, _). b \<noteq> a) rs) = remove1 a (map fst rs)"
  by (induction rs) (auto simp: remove1_idem filter_id_conv)

lemma RemoveLogToStream_ok:
  assumes "log_ok lg rs"
  shows "\<exists>lg'. RemoveLogToStream a lg = Some (Inr lg') \<and> log_ok lg' (filter (\<lambda>(b, _). b \<noteq> a) rs)"
proof -
  have d: "distinct (map fst rs)" using assms by (simp add: log_ok_def)
  obtain p h where r: "remove_loop a None lg = Some (Inr (lg\<lparr>streams := p, sinks := h\<rparr>))" "chain h p (remove1 a (map fst rs))" "same_sinks (sinks lg) h"
    using remove_loop_chain [of lg "[]" "map fst rs" a None] assms by (auto simp: log_ok_def)
  let ?rs = "filter (\<lambda>(b, _). b \<noteq> a) rs"
  let ?lg = "lg\<lparr>streams := p, sinks := h, streams_empty := (p = None)\<rparr>"
  have c: "chain h p (map fst ?rs)" using r(2) map_fst_filter [OF d] by simp
  then have "p = None \<longleftrightarrow> ?rs = []" by (cases ?rs) auto
  moreover have "\<forall>(b, t) \<in> set ?rs. min_at h b = t" using assms same_sinks_min [OF r(3)] by (auto simp: log_ok_def)
  moreover have "distinct (map fst ?rs)" using d by (simp add: distinct_map inj_on_def)
  ultimately show ?thesis using update_min [of ?lg ?rs] c r(1) by (auto simp: RemoveLogToStream_def)
qed

lemma configure_fold:
  "fold configure_token ts (c, d, lg) = (c', d', lg') \<Longrightarrow> \<exists>b b'. lg' = lg\<lparr>lm_timestamp := b, lm_thread := b'\<rparr>"
proof (induction ts arbitrary: c d lg)
  case (Cons x ts)
  obtain c1 d1 lg1 where s: "configure_token x (c, d, lg) = (c1, d1, lg1)" using prod_cases3 by blast
  have "\<exists>b b'. lg1 = lg\<lparr>lm_timestamp := b, lm_thread := b'\<rparr>"
    using s by (cases lg) (auto simp: configure_token_def LogTimestamps_def LogThreads_def split: if_splits)
  moreover have "\<exists>b b'. lg' = lg1\<lparr>lm_timestamp := b, lm_thread := b'\<rparr>" using Cons.IH [of c1 d1 lg1] Cons.prems s by simp
  ultimately show ?case by (cases lg) auto
next
  case Nil
  then show ?case by (intro exI [of _ "lm_timestamp lg"] exI [of _ "lm_thread lg"]) simp
qed

lemma ConfigureLogging_ok: "log_ok lg rs \<Longrightarrow> \<exists>lg'. ConfigureLogging params lg = Some (Inr lg') \<and> log_ok lg' rs"
proof -
  assume ok: "log_ok lg rs"
  obtain c d lg1 where f: "fold configure_token (tokenize params 0x20) (LS_VERBOSE, g_dbg_sev lg, lg) = (c, d, lg1)" using prod_cases3 by blast
  from configure_fold [OF f] ok have "log_ok lg1 rs" by (auto simp: log_ok_def)
  then show ?thesis using LogToDebug_ok [of lg1 rs d] f by (auto simp: ConfigureLogging_def)
qed

section \<open>Messages\<close>

lemma md_Severity_new: "md_Severity (LogMetadata_new file line sev) = sev"
proof -
  let ?w = "push_bit 3 (word_of_int line) :: u32" and ?k = "word_of_nat (sev_num sev) :: u32"
  have "and ?w 7 = take_bit 3 ?w" by (simp add: take_bit_eq_mask mask_eq_exp_minus_1)
  then have "and ?w 7 = 0" by (simp add: take_bit_push_bit)
  moreover have "and ?k 7 = ?k" by (cases sev) simp_all
  ultimately have "and (or ?w ?k) 7 = ?k" by (simp add: bit.conj_disj_distrib2)
  moreover have "severity_of (unat ?k) = sev" by (cases sev) (simp_all add: severity_of_def)
  ultimately show ?thesis by (simp add: md_Severity_def LogMetadata_new_def)
qed

lemma md_Line_new:
  assumes "0 \<le> line" "line < 2 ^ 29"
  shows "md_Line (LogMetadata_new file line sev) = line"
proof -
  have "drop_bit 3 (word_of_nat (sev_num sev) :: u32) = 0" by (cases sev) simp_all
  moreover have "uint (drop_bit 3 (push_bit 3 (word_of_int line :: u32))) = line"
    unfolding unsigned_drop_bit_eq unsigned_push_bit_eq using assms
    by (simp add: drop_bit_eq_div push_bit_eq_mult take_bit_eq_mod uint_word_of_int)
  ultimately show ?thesis by (simp add: md_Line_def LogMetadata_new_def)
qed

definition extra_text :: "log_env \<Rightarrow> LogErrorContext \<Rightarrow> int \<Rightarrow> byte list" where
  "extra_text env err_ctx err =
     (if err_ctx = ERRCTX_NONE then []
      else c_str (take 1023 (bytes ''[0x'' @ fmt_08X err @ bytes '']'' @
             (if err_ctx = ERRCTX_ERRNO then bytes '' '' @ c_str (le_strerror env err) else []))))"

definition message_text :: "log_env \<Rightarrow> severity \<Rightarrow> byte list \<Rightarrow> int \<Rightarrow> LogErrorContext \<Rightarrow> int \<Rightarrow> log_arg list \<Rightarrow> logging \<Rightarrow> byte list" where
  "message_text env sev file line err_ctx err args lg =
     GetSeverityStr sev @ bytes '': '' @
     (if lm_timestamp lg then timestamp_text (le_now env - (case log_start_time lg of None \<Rightarrow> le_now env | Some t \<Rightarrow> t)) else []) @
     (if lm_thread lg then bytes ''['' @ int_text (le_thread_id env) @ bytes ''] '' else []) @
     bytes ''('' @ FilenameFromPath (log_path_prefix lg) file @ bytes '':'' @ int_text line @ bytes ''): '' @
     concat (map arg_text args) @
     (let x = extra_text env err_ctx err in if x \<noteq> [] then bytes '' : '' @ x else []) @ [10]"

lemma error_text_ok: "err_ctx \<noteq> ERRCTX_NONE \<Longrightarrow> error_text env err_ctx err = Inr (extra_text env err_ctx err)"
proof -
  assume ctx: "err_ctx \<noteq> ERRCTX_NONE"
  let ?buf = "map (le_stack env) [0..<1024]"
  let ?f = "bytes ''[0x'' @ fmt_08X err @ bytes '']''"
  obtain sb where sb: "SimpleStringBuilder_new ?buf = Inr sb" "sb_ok 1024 [] sb" using SimpleStringBuilder_new_ok [of ?buf] by auto
  obtain sb1 where sb1: "sb_AppendFormat (Some ?f) sb = Inr sb1" "sb_ok 1024 ?f sb1" using sb_AppendFormat_ok [OF sb(2), of ?f] by auto
  obtain sb2 where sb2: "sb_put (Put_cstr (bytes '' '')) sb1 = Inr sb2" "sb_ok 1024 (?f @ bytes '' '') sb2"
    using sb_put_ok [OF sb1(2), of "Put_cstr (bytes '' '')"] by (auto simp: c_str_def)
  obtain sb3 where sb3: "sb_put (Put_cstr (le_strerror env err)) sb2 = Inr sb3" "sb_ok 1024 (?f @ bytes '' '' @ c_str (le_strerror env err)) sb3"
    using sb_put_ok [OF sb2(2), of "Put_cstr (le_strerror env err)"] by auto
  show ?thesis using ctx sb(1) sb1 sb2(1) sb3 c_str_consistent [OF sb1(2)] c_str_consistent [OF sb3(2)]
    by (cases "err_ctx = ERRCTX_ERRNO") (simp_all add: error_text_def extra_text_def)
qed

lemma put_args_text: "put_args args s = s @ concat (map arg_text args)"
  by (induction args arbitrary: s) (simp_all add: StringBuilder_put_def)

text \<open>What a message changes in the state before it is delivered.\<close>

definition stamped :: "log_env \<Rightarrow> logging \<Rightarrow> logging" where
  "stamped env lg = (if lm_timestamp lg then lg\<lparr>log_start_time := Some (case log_start_time lg of None \<Rightarrow> le_now env | Some t \<Rightarrow> t)\<rparr> else lg)"

lemma LogMessage_new_ok:
  "\<exists>m. LogMessage_new env (Some file) line sev err_ctx err lg = Inr (m, stamped env lg) \<and> lm_severity m = sev \<and>
     print_stream (FinishPrintStream (m\<lparr>print_stream := put_args args (print_stream m)\<rparr>)) = message_text env sev file line err_ctx err args lg"
proof (cases "err_ctx = ERRCTX_NONE")
  case True
  then show ?thesis
    by (auto simp: LogMessage_new_def FinishPrintStream_def message_text_def stamped_def put_args_text extra_text_def StringBuilder_put_def TimeDiff_def Let_def)
next
  case False
  then show ?thesis using error_text_ok [OF False, of env err]
    by (auto simp: LogMessage_new_def FinishPrintStream_def message_text_def stamped_def put_args_text StringBuilder_put_def TimeDiff_def Let_def)
qed

lemma stamped_fields [simp]:
  "streams (stamped env lg) = streams lg" "sinks (stamped env lg) = sinks lg" "g_dbg_sev (stamped env lg) = g_dbg_sev lg" "g_min_sev (stamped env lg) = g_min_sev lg"
  "streams_empty (stamped env lg) = streams_empty lg" "log_to_stderr (stamped env lg) = log_to_stderr lg" "stderr_text (stamped env lg) = stderr_text lg"
  by (simp_all add: stamped_def)

text \<open>What a statement of a severity and with a text leaves: every registered sink that takes it was told once, standard error has it if it is wanted there.\<close>

definition logged :: "byte list \<Rightarrow> severity \<Rightarrow> (nat \<times> severity) list \<Rightarrow> logging \<Rightarrow> logging \<Rightarrow> bool" where
  "logged str sev rs lg lg' \<longleftrightarrow>
     (\<forall>a. sinks lg' a = map_option (\<lambda>s. s\<lparr>sk_got := sk_got s @ (if \<exists>t. (a, t) \<in> set rs \<and> t \<le> sev then [(str, sev)] else [])\<rparr>) (sinks lg a)) \<and>
     stderr_text lg' = stderr_text lg @ (if g_dbg_sev lg \<le> sev \<and> log_to_stderr lg then c_str str else [])"

lemma next_told [simp]: "map_option sk_next (map_option (told str sev) x) = map_option sk_next x"
  by (cases x) (simp_all add: told_def)

lemma told_registered:
  assumes "log_ok lg rs"
  shows "(if a \<in> set (map fst rs) then map_option (told str sev) (sinks lg a) else sinks lg a) =
    map_option (\<lambda>s. s\<lparr>sk_got := sk_got s @ (if \<exists>t. (a, t) \<in> set rs \<and> t \<le> sev then [(str, sev)] else [])\<rparr>) (sinks lg a)"
proof (cases "\<exists>t. (a, t) \<in> set rs")
  case True
  then obtain t where t: "(a, t) \<in> set rs" by blast
  have m: "u = min_at (sinks lg) a" if "(a, u) \<in> set rs" for u using assms that by (auto simp: log_ok_def)
  have "a \<in> set (map fst rs)" using t by force
  moreover have "(\<exists>t. (a, t) \<in> set rs \<and> t \<le> sev) \<longleftrightarrow> min_at (sinks lg) a \<le> sev" using t m by blast
  ultimately show ?thesis by (cases "sinks lg a") (simp_all add: told_def min_at_def)
next
  case False
  then show ?thesis by (cases "sinks lg a") force+
qed

lemma log_call_ok:
  assumes "log_ok lg rs" "0 \<le> line" "line < 2 ^ 29"
  shows "\<exists>lg'. log_call env (LogMetadata_new (Some file) line sev) err_ctx err args lg = Some (Inr lg') \<and> log_ok lg' rs \<and>
    logged (message_text env sev file line err_ctx err args lg) sev rs lg lg'"
proof -
  let ?str = "message_text env sev file line err_ctx err args lg"
  obtain m where m: "LogMessage_new env (Some file) line sev err_ctx err lg = Inr (m, stamped env lg)" "lm_severity m = sev"
    "print_stream (FinishPrintStream (m\<lparr>print_stream := put_args args (print_stream m)\<rparr>)) = ?str"
    using LogMessage_new_ok by blast
  let ?out = "if g_dbg_sev lg \<le> sev then OutputToDebug ?str (stamped env lg) else stamped env lg"
  let ?h = "\<lambda>a. if a \<in> set (map fst rs) then map_option (told ?str sev) (sinks lg a) else sinks lg a"
  have out: "streams ?out = streams lg" "sinks ?out = sinks lg" "g_dbg_sev ?out = g_dbg_sev lg" "g_min_sev ?out = g_min_sev lg" "streams_empty ?out = streams_empty lg"
    by (simp_all add: OutputToDebug_def)
  have c: "chain (sinks lg) (streams lg) (map fst rs)" "distinct (map fst rs)" using assms(1) by (simp_all add: log_ok_def)
  have md: "md_file (LogMetadata_new (Some file) line sev) = Some file" "md_Line (LogMetadata_new (Some file) line sev) = line"
    "md_Severity (LogMetadata_new (Some file) line sev) = sev"
    using assms(2,3) by (simp_all add: md_Line_new md_Severity_new) (simp add: LogMetadata_new_def)
  have sev: "lm_severity (FinishPrintStream (m\<lparr>print_stream := s\<rparr>)) = sev" for s using m(2) by (simp add: FinishPrintStream_def Let_def)
  have "log_call env (LogMetadata_new (Some file) line sev) err_ctx err args lg = Some (Inr (?out\<lparr>sinks := ?h\<rparr>))"
    unfolding log_call_def LogMessage_destroy_def md m(1) Let_def StringBuilder_Release_def
    by (simp only: sum.case prod.case sev m(3) stamped_fields out deliver_chain [OF c] option.case)
  moreover have "log_ok (?out\<lparr>sinks := ?h\<rparr>) rs"
  proof -
    have "chain ?h (streams lg) (map fst rs)" using c(1) next_told by (subst seg_cong) auto
    moreover have "min_at ?h a = min_at (sinks lg) a" for a by (cases "sinks lg a") (auto simp: min_at_def told_def)
    ultimately show ?thesis using assms(1) out by (simp add: log_ok_def)
  qed
  moreover have "logged ?str sev rs lg (?out\<lparr>sinks := ?h\<rparr>)"
    using told_registered [OF assms(1)] by (simp add: logged_def OutputToDebug_def)
  ultimately show ?thesis by blast
qed

section \<open>Runs\<close>

text \<open>What can happen to the logging state. A sink is registered when it exists and is not registered yet, and lives until it is removed.\<close>

inductive log_reachable :: "logging \<Rightarrow> (nat \<times> severity) list \<Rightarrow> bool" where
  init: "log_reachable (logging_init nd h) []"
| add: "log_reachable lg rs \<Longrightarrow> sinks lg a \<noteq> None \<Longrightarrow> a \<notin> fst ` set rs \<Longrightarrow> AddLogToStream a sev lg = Some (Inr lg') \<Longrightarrow> log_reachable lg' ((a, sev) # rs)"
| remove: "log_reachable lg rs \<Longrightarrow> RemoveLogToStream a lg = Some (Inr lg') \<Longrightarrow> log_reachable lg' (filter (\<lambda>(b, _). b \<noteq> a) rs)"
| debug: "log_reachable lg rs \<Longrightarrow> LogToDebug sev lg = Some (Inr lg') \<Longrightarrow> log_reachable lg' rs"
| configure: "log_reachable lg rs \<Longrightarrow> ConfigureLogging params lg = Some (Inr lg') \<Longrightarrow> log_reachable lg' rs"
| threads: "log_reachable lg rs \<Longrightarrow> log_reachable (LogThreads b lg) rs"
| timestamps: "log_reachable lg rs \<Longrightarrow> log_reachable (LogTimestamps b lg) rs"
| to_stderr: "log_reachable lg rs \<Longrightarrow> log_reachable (SetLogToStderr b lg) rs"
| prefix: "log_reachable lg rs \<Longrightarrow> log_reachable (SetLogPathPrefix p lg) rs"
| statement: "log_reachable lg rs \<Longrightarrow> 0 \<le> line \<Longrightarrow> line < 2 ^ 29 \<Longrightarrow> RTC_LOG env sev file line err_ctx err args lg = Some (Inr lg') \<Longrightarrow> log_reachable lg' rs"
| make_sink: "log_reachable lg rs \<Longrightarrow> sinks lg a = None \<Longrightarrow> log_reachable (lg\<lparr>sinks := (sinks lg)(a \<mapsto> s)\<rparr>) rs"
| drop_sink: "log_reachable lg rs \<Longrightarrow> a \<notin> fst ` set rs \<Longrightarrow> log_reachable (lg\<lparr>sinks := (sinks lg)(a := None)\<rparr>) rs"

lemma chain_alive: "seg h p xs q \<Longrightarrow> a \<in> set xs \<Longrightarrow> h a \<noteq> None"
  by (induction xs arbitrary: p) auto

lemma log_ok_update:
  assumes "log_ok lg rs" "a \<notin> fst ` set rs"
  shows "log_ok (lg\<lparr>sinks := (sinks lg)(a := v)\<rparr>) rs"
  using assms by (force simp: log_ok_def seg_upd min_at_def)

lemma RTC_LOG_ok:
  assumes "log_ok lg rs" "0 \<le> line" "line < 2 ^ 29"
  shows "\<exists>lg'. RTC_LOG env sev file line err_ctx err args lg = Some (Inr lg') \<and> log_ok lg' rs \<and>
    logged (message_text env sev file line err_ctx err args lg) sev rs lg lg'"
proof (cases "IsNoop sev lg")
  case True
  then have "rs = []" "\<not> g_dbg_sev lg \<le> sev" using assms(1) by (auto simp: IsNoop_def log_ok_def split: if_splits)
  then show ?thesis using True assms(1) by (auto simp: RTC_LOG_def logged_def option.map_ident)
next
  case False
  then show ?thesis using log_call_ok [OF assms] by (simp add: RTC_LOG_def)
qed

lemma log_reachable_ok: "log_reachable lg rs \<Longrightarrow> log_ok lg rs"
proof (induction rule: log_reachable.induct)
  case (init nd h)
  show ?case by (simp add: log_ok_def logging_init_def Let_def)
next
  case (add lg rs a sev lg')
  then obtain s where "sinks lg a = Some s" by blast
  from AddLogToStream_ok [OF add.IH this add.hyps(3), of sev] add.hyps(4) show ?case by simp
next
  case (remove lg rs a lg')
  then show ?case using RemoveLogToStream_ok [of lg rs a] by simp
next
  case (debug lg rs sev lg')
  then show ?case using LogToDebug_ok [of lg rs sev] by auto
next
  case (configure lg rs params lg')
  then show ?case using ConfigureLogging_ok [of lg rs params] by auto
next
  case (statement lg rs line env sev fname err_ctx err args lg')
  then show ?case using RTC_LOG_ok [of lg rs line env sev fname err_ctx err args] by simp
next
  case (make_sink lg rs a s)
  then have "a \<notin> fst ` set rs" using chain_alive [of "sinks lg" "streams lg" "map fst rs" None a] by (auto simp: log_ok_def)
  then show ?case using log_ok_update make_sink by blast
next
  case (drop_sink lg rs a)
  then show ?case using log_ok_update by blast
qed (simp_all add: log_ok_def LogThreads_def LogTimestamps_def SetLogToStderr_def SetLogPathPrefix_def)

text \<open>A chain that is a circle is never left.\<close>

definition circle :: "(nat \<rightharpoonup> sink) \<Rightarrow> nat set \<Rightarrow> bool" where
  "circle h C \<longleftrightarrow> (\<forall>x \<in> C. \<exists>s y. h x = Some s \<and> sk_next s = Some y \<and> y \<in> C)"

lemma min_loop_returns:
  assumes "min_loop h stream entry sev = Some r"
  shows "circle h C \<longrightarrow> entry \<notin> Some ` C"
proof (rule min_loop.raw_induct [where P = "\<lambda>h stream entry sev r. circle h C \<longrightarrow> entry \<notin> Some ` C", OF _ assms], intro impI notI)
  fix f h stream entry sev r
  assume IH: "\<And>h stream entry sev r. f h stream entry sev = Some r \<Longrightarrow> circle h C \<longrightarrow> entry \<notin> Some ` C"
    and body: "(case entry of None \<Rightarrow> Some (Inr sev)
      | Some a \<Rightarrow> (case h a of None \<Rightarrow> Some (Inl Use_after_free)
        | Some s \<Rightarrow> f h stream (sk_next s) (if stream = None \<or> stream = Some a then min sev (sk_min_severity s) else sev))) = Some r"
    and C: "circle h C" "entry \<in> Some ` C"
  then obtain x s y where "entry = Some x" "h x = Some s" "sk_next s = Some y" "y \<in> C" unfolding circle_def by blast
  then show False using IH [of h stream "Some y"] body C(1) by auto
qed

lemma min_loop_circle: "circle h C \<Longrightarrow> x \<in> C \<Longrightarrow> min_loop h stream (Some x) sev = None"
  using min_loop_returns [of h stream "Some x" sev] by (cases "min_loop h stream (Some x) sev") auto

lemma add_twice:
  assumes "log_ok lg rs" "a \<in> fst ` set rs"
  shows "AddLogToStream a sev lg = None"
proof -
  have "a \<in> set (map fst rs)" using assms(2) by simp
  then obtain ys zs where ys: "map fst rs = ys @ a # zs" "a \<notin> set ys" using split_list_first by metis
  then obtain s where s: "seg (sinks lg) (streams lg) ys (Some a)" "sinks lg a = Some s" using assms(1) by (auto simp: log_ok_def seg_append)
  let ?h = "(sinks lg)(a \<mapsto> s\<lparr>sk_min_severity := sev, sk_next := streams lg\<rparr>)"
  have step: "\<exists>t y. h x = Some t \<and> sk_next t = Some y \<and> y \<in> insert b (set xs)" if "seg h p xs (Some b)" "x \<in> set xs" for h p b x and xs :: "nat list"
    using that
  proof (induction xs arbitrary: p)
    case (Cons c xs)
    then show ?case by (cases xs) auto
  qed simp
  have seg: "seg ?h (streams lg) ys (Some a)" using s(1) ys(2) by (simp add: seg_upd)
  have "streams lg \<in> Some ` insert a (set ys)" using s(1) by (cases ys) auto
  then have "\<exists>t y. ?h a = Some t \<and> sk_next t = Some y \<and> y \<in> insert a (set ys)" by auto
  then have "circle ?h (insert a (set ys))" using step [OF seg] unfolding circle_def by blast
  then have "min_loop ?h None (Some a) (g_dbg_sev lg) = None" by (rule min_loop_circle) simp
  then show ?thesis using s(2) by (simp add: AddLogToStream_def UpdateMinLogSeverity_def)
qed

text \<open>The name of a file is what follows the last slash of either kind.\<close>

lemma rfind_char_split:
  assumes "rfind_char s c = Some i"
  shows "i < length s \<and> s ! i = c \<and> c \<notin> set (drop (i + 1) s)"
proof -
  obtain k where k: "find_char (rev s) c = Some k" "i = length s - Suc k" using assms by (auto simp: rfind_char_def)
  have *: "find_char xs c = Some k \<Longrightarrow> k < length xs \<and> xs ! k = c \<and> c \<notin> set (take k xs)" for xs :: "byte list" and k
    by (induction xs arbitrary: k) (auto split: if_splits)
  from * [OF k(1)] have r: "k < length s" "rev s ! k = c" "c \<notin> set (take k (rev s))" by simp_all
  moreover have "take k (rev s) = rev (drop (i + 1) s)" using k(2) r(1) by (simp add: rev_drop Suc_diff_Suc)
  ultimately show ?thesis using k(2) by (simp add: rev_nth)
qed

lemma rfind_char_None: "rfind_char s c = None \<longleftrightarrow> c \<notin> set s"
proof -
  have "find_char xs c = None \<longleftrightarrow> c \<notin> set xs" for xs :: "byte list" by (induction xs) auto
  then show ?thesis by (simp add: rfind_char_def)
qed

lemma FilenameFromPath_base:
  "\<exists>dir. path = dir @ FilenameFromPath [] path \<and> 0x2F \<notin> set (FilenameFromPath [] path) \<and> 0x5C \<notin> set (FilenameFromPath [] path)"
proof -
  have drop: "c \<notin> set (drop j path)" if c: "rfind_char path c = Some i" "i < j" for c i j
  proof -
    have "c \<notin> set (drop (i + 1) path)" using rfind_char_split [OF c(1)] by simp
    moreover have "set (drop j path) \<subseteq> set (drop (i + 1) path)" by (rule set_drop_subset_set_drop) (use c(2) in simp)
    ultimately show ?thesis by blast
  qed
  have "FilenameFromPath [] path = drop j path \<and> 0x2F \<notin> set (drop j path) \<and> 0x5C \<notin> set (drop j path)"
    if "j = max (case rfind_char path 0x2F of None \<Rightarrow> 0 | Some i \<Rightarrow> i + 1) (case rfind_char path 0x5C of None \<Rightarrow> 0 | Some i \<Rightarrow> i + 1)" for j
    using that drop rfind_char_None [of path "0x2F"] rfind_char_None [of path "0x5C"]
    by (auto simp: FilenameFromPath_def Let_def max_def dest: in_set_dropD split: option.splits)
  then show ?thesis by (metis append_take_drop_id)
qed

section \<open>Properties\<close>

text \<open>C29: whatever sinks were registered and removed and whatever was configured, a log statement returns, and every registered sink whose severity is not above the
  statement's is told the whole message exactly once, after what it was told before; no other sink is told anything, and standard error gets the message if it is wanted
  there. A statement that is skipped because nobody seems to listen is one that nobody would have received. The message is the severity, the optional stamp and thread, the
  place, the arguments in order and the error text.\<close>

theorem log_statements_delivered:
  assumes "log_reachable lg rs" "0 \<le> line" "line < 2 ^ 29"
  shows "\<exists>lg'. RTC_LOG env sev path line err_ctx err args lg = Some (Inr lg') \<and> log_reachable lg' rs \<and>
    (\<forall>a s. sinks lg a = Some s \<longrightarrow>
       sinks lg' a = Some (s\<lparr>sk_got := sk_got s @
         (if \<exists>t. (a, t) \<in> set rs \<and> t \<le> sev then [(message_text env sev path line err_ctx err args lg, sev)] else [])\<rparr>)) \<and>
    stderr_text lg' = stderr_text lg @
      (if g_dbg_sev lg \<le> sev \<and> log_to_stderr lg then c_str (message_text env sev path line err_ctx err args lg) else []) \<and>
    (g_min_sev lg \<le> sev \<longleftrightarrow> g_dbg_sev lg \<le> sev \<or> (\<exists>(a, t) \<in> set rs. t \<le> sev))"
proof -
  have ok: "log_ok lg rs" using assms(1) by (rule log_reachable_ok)
  obtain lg' where lg': "RTC_LOG env sev path line err_ctx err args lg = Some (Inr lg')"
    "logged (message_text env sev path line err_ctx err args lg) sev rs lg lg'"
    using RTC_LOG_ok [OF ok assms(2,3)] by blast
  moreover have "log_reachable lg' rs" using assms lg'(1) by (rule statement)
  moreover have "g_min_sev lg \<le> sev \<longleftrightarrow> g_dbg_sev lg \<le> sev \<or> (\<exists>(a, t) \<in> set rs. t \<le> sev)"
    using ok by (force simp: log_ok_def fold_min_le)
  ultimately show ?thesis by (intro exI [of _ lg']) (simp add: logged_def)
qed

theorem log_statements_delivered_witness:
  "\<exists>lg lg'. AddLogToStream 4 LS_WARNING (logging_init True [4 \<mapsto> \<lparr>sk_next = None, sk_min_severity = LS_NONE, sk_got = []\<rparr>]) = Some (Inr lg) \<and>
     RTC_LOG \<lparr>le_now = 0, le_thread_id = 1, le_strerror = (\<lambda>_. []), le_stack = (\<lambda>_. 0)\<rparr> LS_ERROR [97] 12 ERRCTX_NONE 0 [Arg_int 5] lg = Some (Inr lg') \<and>
     (\<exists>text s. sinks lg' 4 = Some s \<and> sk_got s = [(text, LS_ERROR)])"
proof -
  let ?h = "[4 \<mapsto> \<lparr>sk_next = None, sk_min_severity = LS_NONE, sk_got = []\<rparr>] :: nat \<rightharpoonup> sink"
  let ?env = "\<lparr>le_now = 0, le_thread_id = 1, le_strerror = (\<lambda>_. []), le_stack = (\<lambda>_. 0)\<rparr>"
  have "log_ok (logging_init True ?h) []" by (rule log_reachable_ok [OF init])
  from AddLogToStream_ok [OF this, of 4 _ LS_WARNING] obtain lg where lg: "AddLogToStream 4 LS_WARNING (logging_init True ?h) = Some (Inr lg)"
    by (auto simp: logging_init_def)
  have got: "sinks lg 4 = Some \<lparr>sk_next = None, sk_min_severity = LS_WARNING, sk_got = []\<rparr>"
    using lg by (auto simp: AddLogToStream_def UpdateMinLogSeverity_def logging_init_def split: option.splits sum.splits)
  have "log_reachable lg [(4, LS_WARNING)]" by (rule add [OF init _ _ lg]) (simp_all add: logging_init_def)
  from log_statements_delivered [OF this, of 12 ?env LS_ERROR "[97]" ERRCTX_NONE 0 "[Arg_int 5]"] lg got
  show ?thesis by (force simp: less_eq_severity_def)
qed

text \<open>C30: registering a sink that is registered already never returns: the chain becomes a circle, and the search for the smallest severity runs around it forever,
  with the lock held.\<close>

theorem registering_twice_hangs:
  assumes "log_reachable lg rs" "(a, t) \<in> set rs"
  shows "AddLogToStream a sev lg = None"
  by (rule add_twice [OF log_reachable_ok [OF assms(1)]]) (use assms(2) in force)

theorem registering_twice_hangs_witness:
  "\<exists>lg. AddLogToStream 4 LS_INFO (logging_init True [4 \<mapsto> \<lparr>sk_next = None, sk_min_severity = LS_NONE, sk_got = []\<rparr>]) = Some (Inr lg) \<and>
     AddLogToStream 4 LS_INFO lg = None"
proof -
  let ?h = "[4 \<mapsto> \<lparr>sk_next = None, sk_min_severity = LS_NONE, sk_got = []\<rparr>] :: nat \<rightharpoonup> sink"
  have "log_ok (logging_init True ?h) []" by (rule log_reachable_ok [OF init])
  from AddLogToStream_ok [OF this, of 4 _ LS_INFO] obtain lg where lg: "AddLogToStream 4 LS_INFO (logging_init True ?h) = Some (Inr lg)"
    by (auto simp: logging_init_def)
  have "log_reachable lg [(4, LS_INFO)]" by (rule add [OF init _ _ lg]) (simp_all add: logging_init_def)
  from registering_twice_hangs [OF this, of 4 LS_INFO] lg show ?thesis by auto
qed

end
