(* ===== verification/Time_Utils.thy ===== *)
theory Time_Utils
  imports Message_Queue
begin

text \<open>
  Time: \<open>time_utils.h\<close> and \<open>time_utils.cc\<close> under \<open>src/xrtcserver/rtcbase/src/rtc_base\<close>, in the build for Linux.
  \<open>TimeAfter\<close>, \<open>TimeDiff\<close> and \<open>TimeUntil\<close> are in \<open>Message_Queue\<close>. The reading of the clock is an argument, in nanoseconds; the clock that tests set takes precedence.
\<close>

section \<open>Definitions\<close>

subsection \<open>Clocks\<close>

definition kNumNanosecsPerMillisec :: int where
  "kNumNanosecsPerMillisec = 1000000"

definition kNumNanosecsPerMicrosec :: int where
  "kNumNanosecsPerMicrosec = 1000"

definition kNumMicrosecsPerMillisec :: int where
  "kNumMicrosecsPerMillisec = 1000"

definition kNumMicrosecsPerSec :: int where
  "kNumMicrosecsPerSec = 1000000"

text \<open>Division of C rounds towards zero.\<close>

definition c_div :: "int \<Rightarrow> int \<Rightarrow> int" where
  "c_div a b = sgn a * sgn b * (\<bar>a\<bar> div \<bar>b\<bar>)"

definition SystemTimeMillis :: "int \<Rightarrow> int" where
  "SystemTimeMillis system_nanos = c_div system_nanos kNumNanosecsPerMillisec"

text \<open>The clock for tests, a global pointer; setting it returns the one before.\<close>

definition SetClockForTesting :: "'c option \<Rightarrow> 'c option \<Rightarrow> 'c option \<times> 'c option" where
  "SetClockForTesting clock g_clock = (g_clock, clock)"

definition TimeNanos :: "int option \<Rightarrow> int \<Rightarrow> int" where
  "TimeNanos g_clock system_nanos = (case g_clock of Some t \<Rightarrow> t | None \<Rightarrow> system_nanos)"

definition Time32 :: "int option \<Rightarrow> int \<Rightarrow> u32" where
  "Time32 g_clock system_nanos = word_of_int (c_div (TimeNanos g_clock system_nanos) kNumNanosecsPerMillisec)"

definition TimeMillis :: "int option \<Rightarrow> int \<Rightarrow> int" where
  "TimeMillis g_clock system_nanos = c_div (TimeNanos g_clock system_nanos) kNumNanosecsPerMillisec"

definition TimeMicros :: "int option \<Rightarrow> int \<Rightarrow> int" where
  "TimeMicros g_clock system_nanos = c_div (TimeNanos g_clock system_nanos) kNumNanosecsPerMicrosec"

definition TimeUTCMicros :: "int option \<Rightarrow> int \<times> int \<Rightarrow> int" where
  "TimeUTCMicros g_clock timeval =
     (case g_clock of Some t \<Rightarrow> c_div t kNumNanosecsPerMicrosec
      | None \<Rightarrow> fst timeval * kNumMicrosecsPerSec + snd timeval)"

definition TimeUTCMillis :: "int option \<Rightarrow> int \<times> int \<Rightarrow> int" where
  "TimeUTCMillis g_clock timeval = c_div (TimeUTCMicros g_clock timeval) kNumMicrosecsPerMillisec"

text \<open>The difference of two 32-bit times, read as a signed number.\<close>

definition TimeDiff32 :: "u32 \<Rightarrow> u32 \<Rightarrow> int" where
  "TimeDiff32 later earlier = sint (later - earlier)"

subsection \<open>Timestamps that wrap around\<close>

text \<open>The number of wrap-arounds is an \<open>int64_t\<close> in the source, and \<open>num_wrap_ << 32\<close> leaves its range after 2^31 of them; here it is unbounded, which agrees for timestamps below 2^63.\<close>

record wrap_handler =
  last_ts :: u32
  num_wrap :: int

definition TimestampWrapAroundHandler :: wrap_handler where
  "TimestampWrapAroundHandler = \<lparr>last_ts = 0, num_wrap = -1\<rparr>"

definition Unwrap :: "u32 \<Rightarrow> wrap_handler \<Rightarrow> int \<times> wrap_handler" where
  "Unwrap ts h =
     (if num_wrap h = -1 then (uint ts, h\<lparr>last_ts := ts, num_wrap := 0\<rparr>)
      else if ts < last_ts h
      then let h = (if last_ts h \<ge> 0xf0000000 \<and> ts < 0x0fffffff then h\<lparr>num_wrap := num_wrap h + 1\<rparr> else h)
           in (uint ts + num_wrap h * 2 ^ 32, h\<lparr>last_ts := ts\<rparr>)
      else if ts - last_ts h > 0xf0000000 then (uint ts + (num_wrap h - 1) * 2 ^ 32, h)
      else (uint ts + num_wrap h * 2 ^ 32, h\<lparr>last_ts := ts\<rparr>))"

subsection \<open>Dates\<close>

record tm =
  tm_year :: int
  tm_mon :: int
  tm_mday :: int
  tm_hour :: int
  tm_min :: int
  tm_sec :: int

definition mdays :: "int list" where
  "mdays = [31, 28, 31, 30, 31, 30, 31, 31, 30, 31, 30, 31]"

definition cumul_mdays :: "int list" where
  "cumul_mdays = [0, 31, 59, 90, 120, 151, 181, 212, 243, 273, 304, 334]"

text \<open>The sums that do not fit \<open>int\<close> are a fault. The remainders are only compared with zero, which does not depend on the rounding.\<close>

definition TmToSeconds :: "tm \<Rightarrow> int res" where
  "TmToSeconds t =
     (let year = tm_year t + 1900; month = tm_mon t; day = tm_mday t - 1; hour = tm_hour t; min = tm_min t; sec = tm_sec t;
          expiry_in_leap_year = (year mod 4 = 0 \<and> (year mod 100 \<noteq> 0 \<or> year mod 400 = 0))
      in if \<not> in_i32 year \<or> \<not> in_i32 day then Inl Signed_overflow
         else if year < 1970 then Inr (-1)
         else if month < 0 \<or> month > 11 then Inr (-1)
         else if day < 0 \<or> day \<ge> mdays ! nat month + (if expiry_in_leap_year \<and> month = 2 - 1 then 1 else 0) then Inr (-1)
         else if hour < 0 \<or> hour > 23 then Inr (-1)
         else if min < 0 \<or> min > 59 then Inr (-1)
         else if sec < 0 \<or> sec > 59 then Inr (-1)
         else
           let day = day + cumul_mdays ! nat month;
               day = day + ((c_div year 4 - c_div 1970 4) - (c_div year 100 - c_div 1970 100) + (c_div year 400 - c_div 1970 400));
               day = (if expiry_in_leap_year \<and> month \<le> 2 - 1 then day - 1 else day)
           in Inr ((((((year - 1970) * 365 + day) * 24 + hour) * 60 + min) * 60) + sec))"

section \<open>The calendar\<close>

definition leap :: "nat \<Rightarrow> bool" where
  "leap y \<longleftrightarrow> 4 dvd y \<and> (\<not> 100 dvd y \<or> 400 dvd y)"

text \<open>Days from the start of 1970 to the start of the year 1970 + n, and the days of a month.\<close>

fun days_to_year :: "nat \<Rightarrow> nat" where
  "days_to_year 0 = 0"
| "days_to_year (Suc n) = days_to_year n + (if leap (1970 + n) then 366 else 365)"

definition month_days :: "nat \<Rightarrow> nat \<Rightarrow> nat" where
  "month_days y m = [31, if leap y then 29 else 28, 31, 30, 31, 30, 31, 31, 30, 31, 30, 31] ! m"

lemma div_step: "0 < k \<Longrightarrow> Suc n div k = n div k + (if k dvd Suc n then 1 else 0)" for k n :: nat
  by (simp add: div_Suc dvd_eq_mod_eq_0)

lemma leap_days:
  "int (days_to_year n) = 365 * int n + (int ((1969 + n) div 4) - 492) - (int ((1969 + n) div 100) - 19) + (int ((1969 + n) div 400) - 4)"
proof (induction n)
  case (Suc n)
  define y where y: "y = Suc (1969 + n)"
  have d: "400 dvd y \<Longrightarrow> 100 dvd y" "100 dvd y \<Longrightarrow> 4 dvd y" using dvd_trans [of 100 400 y] dvd_trans [of 4 100 y] by simp_all
  have "(if leap y then 366 else 365) = 365 + (if 4 dvd y then 1 else 0) - (if 100 dvd y then 1 else 0) + (if 400 dvd y then (1 :: int) else 0)"
    using d by (cases "4 dvd y"; cases "100 dvd y"; cases "400 dvd y") (simp_all add: leap_def)
  moreover have "int (y div k) = int ((1969 + n) div k) + (if k dvd y then 1 else 0)" if "0 < k" for k
    using div_step [OF that, of "1969 + n"] unfolding y by simp
  moreover have "int (days_to_year (Suc n)) = int (days_to_year n) + (if leap y then 366 else 365)" unfolding y by simp
  moreover have "1969 + Suc n = y" unfolding y by simp
  ultimately show ?case using Suc.IH by simp
qed simp

lemma cumulated:
  assumes "m < 12"
  shows "cumul_mdays ! m + (if leap y \<and> 1 < m then 1 else 0) = int (sum_list (map (month_days y) [0..<m]))"
proof -
  have "m \<in> {0, 1, 2, 3, 4, 5, 6, 7, 8, 9, 10, 11}" using assms by simp presburger
  then show ?thesis by (elim insertE) (simp_all add: cumul_mdays_def month_days_def upt_rec)
qed

text \<open>The dates the function accepts.\<close>

definition valid_tm :: "tm \<Rightarrow> bool" where
  "valid_tm t \<longleftrightarrow>
     1970 \<le> tm_year t + 1900 \<and> 0 \<le> tm_mon t \<and> tm_mon t < 12 \<and>
     1 \<le> tm_mday t \<and> tm_mday t \<le> int (month_days (nat (tm_year t + 1900)) (nat (tm_mon t))) \<and>
     0 \<le> tm_hour t \<and> tm_hour t < 24 \<and> 0 \<le> tm_min t \<and> tm_min t < 60 \<and> 0 \<le> tm_sec t \<and> tm_sec t < 60"

lemma leap_int: "0 \<le> y \<Longrightarrow> (y mod 4 = 0 \<and> (y mod 100 \<noteq> 0 \<or> y mod 400 = 0)) = leap (nat y)"
proof -
  assume "0 \<le> y"
  then obtain n where "y = int n" using zero_le_imp_eq_int by blast
  moreover have "int n mod k = 0 \<longleftrightarrow> nat k dvd n" if "0 < k" for k
    using that by (metis int_dvd_int_iff int_nat_eq less_imp_le mod_0_imp_dvd dvd_imp_mod_0)
  ultimately show ?thesis by (simp add: leap_def)
qed

lemma month_length:
  assumes "m < 12"
  shows "mdays ! m + (if leap y \<and> m = 1 then 1 else 0) = int (month_days y m)"
proof -
  have "m \<in> {0, 1, 2, 3, 4, 5, 6, 7, 8, 9, 10, 11}" using assms by simp presburger
  then show ?thesis by (elim insertE) (simp_all add: mdays_def month_days_def)
qed

lemma c_div_pos: "0 \<le> a \<Longrightarrow> 0 < b \<Longrightarrow> c_div a b = a div b"
  by (cases "a = 0") (simp_all add: c_div_def)

text \<open>The days before the year, from the formula of the code.\<close>

lemma days_formula:
  assumes "1970 \<le> y"
  shows "(y - 1970) * 365 + ((c_div y 4 - c_div 1970 4) - (c_div y 100 - c_div 1970 100) + (c_div y 400 - c_div 1970 400)) =
    int (days_to_year (nat y - 1970)) + (if leap (nat y) then 1 else 0)"
proof -
  obtain n where n: "y = 1970 + int n" using assms by (metis zle_iff_zadd add.commute)
  have d: "int (days_to_year (Suc n)) = int (days_to_year n) + 365 + (if leap (1970 + n) then 1 else 0)" by simp
  have c: "c_div y k = int ((1970 + n) div nat k)" if "0 < k" for k
    using that n by (simp add: c_div_pos zdiv_int)
  have "c_div 1970 4 = 492" "c_div 1970 100 = 19" "c_div 1970 400 = 4" by (simp_all add: c_div_pos)
  then show ?thesis using leap_days [of "Suc n"] d c [of 4] c [of 100] c [of 400] n by (simp add: nat_add_distrib)
qed

lemma TmToSeconds_valid:
  assumes "valid_tm t" "tm_year t < 2147481748"
  shows "TmToSeconds t = Inr ((((int (days_to_year (nat (tm_year t + 1900) - 1970)) +
      int (sum_list (map (month_days (nat (tm_year t + 1900))) [0..<nat (tm_mon t)])) + tm_mday t - 1) * 24 + tm_hour t) * 60 + tm_min t) * 60 + tm_sec t)"
proof -
  let ?y = "tm_year t + 1900" and ?m = "nat (tm_mon t)"
  have v: "1970 \<le> ?y" "?m < 12" "0 \<le> tm_mon t" "tm_mon t \<le> 11" using assms(1) by (auto simp: valid_tm_def)
  have L: "(?y mod 4 = 0 \<and> (?y mod 100 \<noteq> 0 \<or> ?y mod 400 = 0)) = leap (nat ?y)" using v(1) by (intro leap_int) simp
  have one: "(tm_mon t = 2 - 1) = (?m = 1)" "(tm_mon t \<le> 2 - 1) = (\<not> 1 < ?m)" using v(3) by auto
  have d: "tm_mday t \<le> mdays ! ?m + (if leap (nat ?y) \<and> ?m = 1 then 1 else 0)" "tm_mday t \<le> 31"
    using assms(1) month_length [OF v(2), of "nat ?y"] by (auto simp: valid_tm_def month_days_def nth_Cons' split: if_splits)
  show ?thesis
    using assms v days_formula [OF v(1)] cumulated [OF v(2), of "nat ?y"] d unfolding TmToSeconds_def Let_def L one
    by (simp add: valid_tm_def in_i32_def not_less not_le split: if_splits)
qed

lemma TmToSeconds_invalid:
  assumes "\<not> valid_tm t" "in_i32 (tm_year t + 1900)" "in_i32 (tm_mday t - 1)"
  shows "TmToSeconds t = Inr (-1)"
proof (cases "1970 \<le> tm_year t + 1900 \<and> 0 \<le> tm_mon t \<and> tm_mon t < 12")
  case True
  let ?y = "tm_year t + 1900" and ?m = "nat (tm_mon t)"
  have v: "?m < 12" using True by (simp add: nat_less_iff)
  have L: "(?y mod 4 = 0 \<and> (?y mod 100 \<noteq> 0 \<or> ?y mod 400 = 0)) = leap (nat ?y)" using True by (intro leap_int) simp
  have one: "(tm_mon t = 2 - 1) = (?m = 1)" using True by auto
  show ?thesis using assms True month_length [OF v, of "nat ?y"] unfolding TmToSeconds_def Let_def L one
    by (auto simp: valid_tm_def)
next
  case False
  then show ?thesis using assms by (auto simp: TmToSeconds_def Let_def)
qed

section \<open>Unwrapping\<close>

text \<open>The handler has seen the timestamp \<open>T\<close>.\<close>

definition at_time :: "int \<Rightarrow> wrap_handler \<Rightarrow> bool" where
  "at_time T h \<longleftrightarrow> 0 \<le> T \<and> last_ts h = word_of_int T \<and> num_wrap h = T div 2 ^ 32"

text \<open>What the handler compares the next timestamp with: one from before the last wrap does not replace it.\<close>

definition newest :: "int \<Rightarrow> int \<Rightarrow> int" where
  "newest T T' = (if T' div 2 ^ 32 < T div 2 ^ 32 then T else T')"

lemma Unwrap_step:
  assumes "at_time T h" "\<bar>T' - T\<bar> < 0x0fffffff"
  shows "fst (Unwrap (word_of_int T') h) = T' \<and> (at_time (newest T T') (snd (Unwrap (word_of_int T') h)))"
proof -
  define a b where "a = T mod 2 ^ 32" and "b = T' mod 2 ^ 32"
  define p q where "p = T div 2 ^ 32" and "q = T' div 2 ^ 32"
  have T: "T = p * 4294967296 + a" "T' = q * 4294967296 + b" "0 \<le> a" "a < 4294967296" "0 \<le> b" "b < 4294967296"
    unfolding a_def b_def p_def q_def by simp_all
  have u: "uint (word_of_int T' :: u32) = b" "uint (last_ts h) = a" "num_wrap h = p" "0 \<le> p"
    using assms(1) by (simp_all add: a_def b_def p_def at_time_def uint_word_of_int pos_imp_zdiv_nonneg_iff)
  have lt: "word_of_int T' < last_ts h \<longleftrightarrow> b < a" using u by (simp add: word_less_def)
  have hi: "last_ts h \<ge> 0xf0000000 \<longleftrightarrow> 0xf0000000 \<le> a" "(word_of_int T' :: u32) < 0x0fffffff \<longleftrightarrow> b < 0x0fffffff"
    using u by (simp_all add: word_le_def word_less_def)
  have df: "word_of_int T' - last_ts h > 0xf0000000 \<longleftrightarrow> 0xf0000000 < b - a" if "a \<le> b"
  proof -
    have "uint (word_of_int T' - last_ts h) = b - a" using u that T by (simp add: uint_word_ariths)
    then show ?thesis by (simp add: word_less_def)
  qed
  have "0 \<le> q \<Longrightarrow> 0 \<le> T'" using T(2,5) by simp
  then have upd: "at_time T' g" if "0 \<le> q" "num_wrap g = q" "last_ts g = word_of_int T'" for g using that by (simp add: at_time_def q_def)
  have val: "b + q * 4294967296 = T'" using T(2) by simp
  have new: "newest T T' = (if q < p then T else T')" by (simp add: newest_def p_def q_def)
  consider "q = p" | "q = p + 1" | "q = p - 1" using assms(2) T by linarith
  then show ?thesis
  proof cases
    case 1
    then have d: "\<bar>b - a\<bar> < 0x0fffffff" using assms(2) T by simp
    show ?thesis
    proof (cases "b < a")
      case True
      have "\<not> (0xf0000000 \<le> a \<and> b < 0x0fffffff)" using d by linarith
      then show ?thesis using True 1 lt hi u val assms(1) upd new by (simp add: Unwrap_def Let_def)
    next
      case False
      have "\<not> 0xf0000000 < b - a" using d by linarith
      then show ?thesis using False 1 lt df u val assms(1) upd new by (simp add: Unwrap_def)
    qed
  next
    case 2
    then have "b < a" "0xf0000000 \<le> a" "b < 0x0fffffff" using assms(2) T by linarith+
    then show ?thesis using 2 lt hi u val assms(1) upd new by (simp add: Unwrap_def Let_def)
  next
    case 3
    then have "\<not> b < a" "0xf0000000 < b - a" using assms(2) T by linarith+
    then show ?thesis using 3 lt df u val assms(1) upd new by (simp add: Unwrap_def)
  qed
qed

fun unwraps :: "u32 list \<Rightarrow> wrap_handler \<Rightarrow> int list" where
  "unwraps [] h = []"
| "unwraps (t # ts) h = (let (T, h) = Unwrap t h in T # unwraps ts h)"

fun near :: "int \<Rightarrow> int list \<Rightarrow> bool" where
  "near T [] \<longleftrightarrow> True"
| "near T (T' # Ts) \<longleftrightarrow> \<bar>T' - T\<bar> < 0x0fffffff \<and> near (newest T T') Ts"

lemma unwraps_near: "at_time T h \<Longrightarrow> near T Ts \<Longrightarrow> unwraps (map word_of_int Ts) h = Ts"
proof (induction Ts arbitrary: T h)
  case (Cons T' Ts)
  then have "fst (Unwrap (word_of_int T') h) = T'" "at_time (newest T T') (snd (Unwrap (word_of_int T') h))" "near (newest T T') Ts"
    using Unwrap_step [of T h T'] by simp_all
  with Cons.IH show ?case by (simp add: case_prod_beta)
qed simp

section \<open>Properties\<close>

text \<open>C33: the conversion of a date to seconds agrees with the calendar: for a date after 1969 with all fields in range it is the days of the years since 1970, of the months
  of the year and of the month, with the time of day, leap years by the Gregorian rule; for every other date it is -1. A date is in range when the day exists in its month.
  The year and the day of the month must leave \<open>int\<close> room for the 1900 that is added and the 1 that is subtracted.\<close>

theorem tm_to_seconds_calendar:
  assumes "tm_year t < 2147481748" "- 2147485548 \<le> tm_year t" "- 2147483647 \<le> tm_mday t" "tm_mday t \<le> 2147483647"
  shows "TmToSeconds t = Inr
    (if valid_tm t
     then (((int (days_to_year (nat (tm_year t + 1900) - 1970)) + int (sum_list (map (month_days (nat (tm_year t + 1900))) [0..<nat (tm_mon t)])) +
            tm_mday t - 1) * 24 + tm_hour t) * 60 + tm_min t) * 60 + tm_sec t
     else -1)"
proof (cases "valid_tm t")
  case True
  then show ?thesis using TmToSeconds_valid assms(1) by simp
next
  case False
  then show ?thesis using TmToSeconds_invalid assms by (simp add: in_i32_def)
qed

theorem tm_to_seconds_calendar_witness:
  "TmToSeconds \<lparr>tm_year = 72, tm_mon = 1, tm_mday = 29, tm_hour = 1, tm_min = 2, tm_sec = 3\<rparr> = Inr (((365 + 365 + 31 + 28) * 24 + 1) * 3600 + 2 * 60 + 3)"
proof -
  have "days_to_year 2 = 730" by (simp add: numeral_2_eq_2 leap_def)
  then show ?thesis
    using tm_to_seconds_calendar [of "\<lparr>tm_year = 72, tm_mon = 1, tm_mday = 29, tm_hour = 1, tm_min = 2, tm_sec = 3\<rparr>"]
    by (simp add: valid_tm_def month_days_def leap_def)
qed

text \<open>C34: the handler for 32-bit timestamps recovers the full timestamps: for a sequence of them, cut to 32 bits, in which each is closer than 0x0fffffff to the newest one before it,
  earlier or later, it returns the full values, across any number of wrap-arounds (the handler of the source is the same as long as the timestamps fit \<open>int64_t\<close>).\<close>

theorem unwrap_exact:
  assumes "0 \<le> T" "T < 2 ^ 32" "near T Ts"
  shows "unwraps (map word_of_int (T # Ts)) TimestampWrapAroundHandler = T # Ts"
proof -
  have "at_time T \<lparr>last_ts = word_of_int T, num_wrap = 0\<rparr>" using assms by (simp add: at_time_def)
  from unwraps_near [OF this assms(3)] show ?thesis
    using assms by (simp add: Unwrap_def TimestampWrapAroundHandler_def uint_word_of_int)
qed

theorem unwrap_exact_witness:
  "unwraps [0xfffffff0, 5, 0xfffffffe, 9] TimestampWrapAroundHandler = [0xfffffff0, 0x100000005, 0xfffffffe, 0x100000009]"
proof -
  have e: "map word_of_int (0xfffffff0 # [0x100000005, 0xfffffffe, 0x100000009]) = ([0xfffffff0, 5, 0xfffffffe, 9] :: u32 list)" by simp
  have n: "near 0xfffffff0 [0x100000005, 0xfffffffe, 0x100000009]" by (simp add: newest_def)
  show ?thesis using unwrap_exact [OF _ _ n] unfolding e by simp
qed

end
