(* ===== verification/Event.thy ===== *)
theory Event
  imports Time_Utils
begin

text \<open>
  \<open>rtc::Event\<close>, \<open>event.h\<close> and \<open>event.cc\<close> under \<open>src/xrtcserver/rtcbase/src/rtc_base\<close>, on POSIX threads: a flag under a mutex and a condition variable. A
  waiting thread releases the mutex; what other threads do then, and the error code it wakes with, are an argument, one record for each
  time it wakes. The section on many waiters lets any number of threads wait at once, each step one critical section.
\<close>

section \<open>Definitions\<close>

record event =
  is_manual_reset :: bool
  event_status :: bool

definition Event_new :: "bool \<Rightarrow> bool \<Rightarrow> event" where
  "Event_new manual_reset initially_signaled = \<lparr>is_manual_reset = manual_reset, event_status = initially_signaled\<rparr>"

definition Event_Set :: "event \<Rightarrow> event" where
  "Event_Set e = e\<lparr>event_status := True\<rparr>"

definition Event_Reset :: "event \<Rightarrow> event" where
  "Event_Reset e = e\<lparr>event_status := False\<rparr>"

text \<open>Seconds and nanoseconds of the clock and the time to wait; quotient and remainder round towards zero.\<close>

definition GetTimespec :: "int \<times> int \<Rightarrow> int \<Rightarrow> int \<times> int" where
  "GetTimespec now milliseconds_from_now =
     (let tv_sec = fst now + c_div milliseconds_from_now 1000;
          tv_nsec = snd now + (milliseconds_from_now - c_div milliseconds_from_now 1000 * 1000) * 1000000
      in if tv_nsec \<ge> 1000000000 then (tv_sec + 1, tv_nsec - 1000000000) else (tv_sec, tv_nsec))"

datatype ev_op = Op_Set | Op_Reset

fun ev_exec :: "ev_op \<Rightarrow> event \<Rightarrow> event" where
  "ev_exec Op_Set e = Event_Set e"
| "ev_exec Op_Reset e = Event_Reset e"

record wake =
  wk_ops :: "ev_op list"
  wk_error :: int

text \<open>The loop of \<open>wait\<close>: the error it ends with, or nothing when it still waits after the wakings it was given.\<close>

fun wait_until :: "wake list \<Rightarrow> event \<Rightarrow> int option \<times> wake list \<times> event" where
  "wait_until ws e =
     (if event_status e then (Some 0, ws, e)
      else case ws of [] \<Rightarrow> (None, [], e)
           | w # ws \<Rightarrow>
               let e = fold ev_exec (wk_ops w) e
               in if wk_error w \<noteq> 0 then (Some (wk_error w), ws, e) else wait_until ws e)"

declare wait_until.simps [simp del]

definition ETIMEDOUT :: int where
  "ETIMEDOUT = 110"

definition wait_end :: "int \<Rightarrow> event \<Rightarrow> bool \<times> event" where
  "wait_end error e = (error = 0, if error = 0 \<and> \<not> is_manual_reset e then e\<lparr>event_status := False\<rparr> else e)"

text \<open>The points in time are passed to the condition variable; the second result lists the one of each wait.\<close>

definition Event_Wait :: "int \<times> int \<Rightarrow> int \<Rightarrow> int \<Rightarrow> wake list \<Rightarrow> event \<Rightarrow> bool option \<times> (int \<times> int) option list \<times> event" where
  "Event_Wait now give_up_after_ms warn_after_ms ws e =
     (let warn_ts = (if warn_after_ms = kForever \<or> give_up_after_ms \<noteq> kForever \<and> warn_after_ms > give_up_after_ms
                     then None else Some (GetTimespec now warn_after_ms));
          give_up_ts = (if give_up_after_ms = kForever then None else Some (GetTimespec now give_up_after_ms));
          finish = (\<lambda>ts error e. case error of None \<Rightarrow> (None, ts, e) | Some err \<Rightarrow> (let (b, e) = wait_end err e in (Some b, ts, e)))
      in if warn_ts = None
         then (let (error, ws, e) = wait_until ws e in finish [give_up_ts] error e)
         else let (error, ws, e) = wait_until ws e
              in if error = Some ETIMEDOUT
                 then (let (error, ws, e) = wait_until ws e in finish [warn_ts, give_up_ts] error e)
                 else finish [warn_ts] error e)"

definition Event_Wait_default :: "int \<times> int \<Rightarrow> int \<Rightarrow> wake list \<Rightarrow> event \<Rightarrow> bool option \<times> (int \<times> int) option list \<times> event" where
  "Event_Wait_default now give_up_after_ms = Event_Wait now give_up_after_ms (if give_up_after_ms = kForever then 3000 else kForever)"

text \<open>\<open>NullSocketServer\<close> of \<open>null_socket_server.cc\<close>: a wait for an event that resets itself.\<close>

definition NullSocketServer_Wait :: "int \<times> int \<Rightarrow> int \<Rightarrow> wake list \<Rightarrow> event \<Rightarrow> bool option \<times> event" where
  "NullSocketServer_Wait now cms ws e = (let (r, _, e) = Event_Wait now cms kForever ws e in (map_option (\<lambda>_. True) r, e))"

definition NullSocketServer_WakeUp :: "event \<Rightarrow> event" where
  "NullSocketServer_WakeUp e = Event_Set e"

section \<open>One waiter\<close>

lemma timespec_normal:
  assumes "0 \<le> ms" "0 \<le> snd now" "snd now < 1000000000"
  shows "0 \<le> snd (GetTimespec now ms)" "snd (GetTimespec now ms) < 1000000000"
    "fst (GetTimespec now ms) * 1000000000 + snd (GetTimespec now ms) = fst now * 1000000000 + snd now + ms * 1000000"
proof -
  have "0 \<le> ms - ms div 1000 * 1000" "ms - ms div 1000 * 1000 < 1000" by (simp_all add: minus_div_mult_eq_mod)
  then show "0 \<le> snd (GetTimespec now ms)" "snd (GetTimespec now ms) < 1000000000"
    "fst (GetTimespec now ms) * 1000000000 + snd (GetTimespec now ms) = fst now * 1000000000 + snd now + ms * 1000000"
    using assms by (auto simp: GetTimespec_def Let_def c_div_pos)
qed

lemma wait_until_result:
  assumes "wait_until ws e = (Some err, ws', e')"
  shows "(err = 0 \<longrightarrow> event_status e') \<and> is_manual_reset e' = is_manual_reset e"
  using assms
proof (induction ws arbitrary: e)
  case Nil
  then show ?case by (simp add: wait_until.simps [of "[]"] split: if_splits)
next
  case (Cons w ws)
  have "is_manual_reset (fold ev_exec os e) = is_manual_reset e" for os e
  proof (induction os arbitrary: e)
    case (Cons x os)
    then show ?case by (cases x) (simp_all add: Event_Set_def Event_Reset_def)
  qed simp
  then show ?case using Cons.prems Cons.IH [of "fold ev_exec (wk_ops w) e"]
    by (auto simp: wait_until.simps [of "w # ws"] Let_def split: if_splits)
qed

section \<open>Many waiters\<close>

text \<open>
  \<open>evw_sets\<close> counts the calls of \<open>Set\<close>, \<open>evw_wins\<close> the calls of \<open>Wait\<close> that returned true. A thread that enters \<open>Wait\<close> finds the flag set
  and leaves, or blocks. A blocked thread wakes with an error code: with \<open>0\<close> it leaves if the flag is set and blocks again
  if not (so does the end of the first, warning wait, which is followed by a second one); with any other code it returns false.
\<close>

record ev_world =
  evw_event :: event
  evw_blocked :: "nat set"
  evw_sets :: nat
  evw_wins :: nat

definition wait_enter :: "nat \<Rightarrow> ev_world \<Rightarrow> ev_world" where
  "wait_enter t w =
     (if event_status (evw_event w)
      then let (r, e) = wait_end 0 (evw_event w) in w\<lparr>evw_event := e, evw_wins := evw_wins w + (if r then 1 else 0)\<rparr>
      else w\<lparr>evw_blocked := insert t (evw_blocked w)\<rparr>)"

definition wait_wake :: "nat \<Rightarrow> int \<Rightarrow> ev_world \<Rightarrow> ev_world" where
  "wait_wake t error w =
     (if error = 0 \<and> \<not> event_status (evw_event w) then w
      else let (r, e) = wait_end error (evw_event w)
           in w\<lparr>evw_event := e, evw_blocked := evw_blocked w - {t}, evw_wins := evw_wins w + (if r then 1 else 0)\<rparr>)"

inductive ev_step :: "ev_world \<Rightarrow> ev_world \<Rightarrow> bool" where
  set: "ev_step w (w\<lparr>evw_event := Event_Set (evw_event w), evw_sets := evw_sets w + 1\<rparr>)"
| reset: "ev_step w (w\<lparr>evw_event := Event_Reset (evw_event w)\<rparr>)"
| enter: "t \<notin> evw_blocked w \<Longrightarrow> ev_step w (wait_enter t w)"
| wake: "t \<in> evw_blocked w \<Longrightarrow> ev_step w (wait_wake t error w)"

definition ev_start :: "bool \<Rightarrow> bool \<Rightarrow> ev_world" where
  "ev_start manual initially = \<lparr>evw_event = Event_new manual initially, evw_blocked = {}, evw_sets = 0, evw_wins = 0\<rparr>"

inductive ev_reachable :: "bool \<Rightarrow> bool \<Rightarrow> ev_world \<Rightarrow> bool" for manual initially where
  start: "ev_reachable manual initially (ev_start manual initially)"
| step: "ev_reachable manual initially w \<Longrightarrow> ev_step w w' \<Longrightarrow> ev_reachable manual initially w'"

text \<open>The signal that is there, and what a step does to it in an event that resets itself.\<close>

abbreviation flag :: "ev_world \<Rightarrow> nat" where
  "flag w \<equiv> (if event_status (evw_event w) then 1 else 0)"

lemma ev_step_counts:
  assumes "ev_step w w'" "\<not> is_manual_reset (evw_event w)"
  shows "\<not> is_manual_reset (evw_event w') \<and> evw_wins w \<le> evw_wins w' \<and> evw_sets w \<le> evw_sets w' \<and>
    evw_wins w' + flag w' + evw_sets w \<le> evw_wins w + flag w + evw_sets w'"
  using assms
  by (cases rule: ev_step.cases) (auto simp: Event_Set_def Event_Reset_def wait_enter_def wait_wake_def wait_end_def)

lemma ev_steps_counts:
  assumes "ev_step\<^sup>*\<^sup>* w w'" "\<not> is_manual_reset (evw_event w)"
  shows "\<not> is_manual_reset (evw_event w') \<and> evw_wins w \<le> evw_wins w' \<and> evw_sets w \<le> evw_sets w' \<and>
    evw_wins w' + flag w' + evw_sets w \<le> evw_wins w + flag w + evw_sets w'"
  using assms(1)
proof (induction rule: rtranclp_induct)
  case (step u v)
  then show ?case using ev_step_counts [of u v] by linarith
qed (use assms(2) in simp)

lemma ev_reachable_steps: "ev_reachable manual initially w \<longleftrightarrow> ev_step\<^sup>*\<^sup>* (ev_start manual initially) w"
proof
  assume "ev_step\<^sup>*\<^sup>* (ev_start manual initially) w"
  then show "ev_reachable manual initially w"
    by (induction rule: rtranclp_induct) (auto intro: ev_reachable.intros)
next
  assume "ev_reachable manual initially w"
  then show "ev_step\<^sup>*\<^sup>* (ev_start manual initially) w" by (induction rule: ev_reachable.induct) auto
qed

section \<open>Properties\<close>

text \<open>C35: an event that resets itself releases at most one waiting thread for each signal. From any point on, whatever threads set, reset, enter and wake, the
  calls of \<open>Wait\<close> that return true are no more than the calls of \<open>Set\<close> and the signal that was there; so between two calls of \<open>Set\<close>
  at most one returns true. A blocked thread that wakes without an error while the flag is set is released and takes the signal with it, and while the flag is not
  set it goes on waiting; one that wakes with an error, such as the time-out, returns false and leaves the flag as it is, also when it is set.\<close>

theorem auto_reset_releases_one:
  assumes "ev_reachable False initially w" "ev_step\<^sup>*\<^sup>* w w'"
  shows "evw_wins w' + flag w' \<le> evw_sets w' + (if initially then 1 else 0) \<and>
    evw_wins w' - evw_wins w + flag w' \<le> flag w + (evw_sets w' - evw_sets w) \<and>
    (\<forall>t \<in> evw_blocked w. \<forall>error.
       (if error = 0 \<and> flag w = 0 then wait_wake t error w = w
        else t \<notin> evw_blocked (wait_wake t error w) \<and>
          (if error = 0 then evw_wins (wait_wake t error w) = evw_wins w + 1 \<and> flag (wait_wake t error w) = 0
           else evw_wins (wait_wake t error w) = evw_wins w \<and> flag (wait_wake t error w) = flag w)))"
proof -
  let ?s = "ev_start False initially"
  have s: "\<not> is_manual_reset (evw_event ?s)" "evw_wins ?s = 0" "evw_sets ?s = 0" "flag ?s = (if initially then 1 else 0)"
    by (simp_all add: ev_start_def Event_new_def)
  have r: "ev_step\<^sup>*\<^sup>* ?s w" "ev_step\<^sup>*\<^sup>* ?s w'" using assms by (simp_all add: ev_reachable_steps)
  have m: "\<not> is_manual_reset (evw_event w)" using ev_steps_counts [OF r(1) s(1)] by simp
  have "evw_wins w' + flag w' \<le> evw_sets w' + (if initially then 1 else 0)"
    using ev_steps_counts [OF r(2) s(1)] unfolding s by linarith
  moreover have "evw_wins w' - evw_wins w + flag w' \<le> flag w + (evw_sets w' - evw_sets w)"
    using ev_steps_counts [OF assms(2) m] by linarith
  moreover have "\<forall>t \<in> evw_blocked w. \<forall>error.
       (if error = 0 \<and> flag w = 0 then wait_wake t error w = w
        else t \<notin> evw_blocked (wait_wake t error w) \<and>
          (if error = 0 then evw_wins (wait_wake t error w) = evw_wins w + 1 \<and> flag (wait_wake t error w) = 0
           else evw_wins (wait_wake t error w) = evw_wins w \<and> flag (wait_wake t error w) = flag w))"
    using m by (simp add: wait_wake_def wait_end_def)
  ultimately show ?thesis by blast
qed

theorem auto_reset_releases_one_witness:
  "\<exists>w w'. ev_reachable False False w \<and> evw_blocked w = {1, 2} \<and> evw_sets w = 1 \<and> ev_step\<^sup>*\<^sup>* w w' \<and> evw_blocked w' = {2} \<and>
     evw_wins w' - evw_wins w + flag w' \<le> 1"
proof -
  let ?w = "\<lparr>evw_event = \<lparr>is_manual_reset = False, event_status = True\<rparr>, evw_blocked = {1, 2}, evw_sets = 1, evw_wins = 0\<rparr>"
  have s: "ev_reachable False False (ev_start False False)" by (rule ev_reachable.start)
  have 1: "ev_reachable False False ((ev_start False False)\<lparr>evw_blocked := {1}\<rparr>)"
    using ev_reachable.step [OF s enter [of 1]] by (simp add: ev_start_def Event_new_def wait_enter_def)
  have 2: "ev_reachable False False ((ev_start False False)\<lparr>evw_blocked := {1, 2}\<rparr>)"
    using ev_reachable.step [OF 1 enter [of 2]] by (simp add: ev_start_def Event_new_def wait_enter_def insert_commute)
  have r: "ev_reachable False False ?w" using ev_reachable.step [OF 2 set] by (simp add: ev_start_def Event_new_def Event_Set_def)
  have w: "ev_step\<^sup>*\<^sup>* ?w (wait_wake 1 0 ?w)" by (rule r_into_rtranclp) (rule wake, simp)
  have "evw_blocked (wait_wake 1 0 ?w) = {2}" "evw_sets (wait_wake 1 0 ?w) = 1"
    by (auto simp: wait_wake_def wait_end_def)
  with auto_reset_releases_one [OF r w] r w show ?thesis
    by (intro exI [of _ ?w] exI [of _ "wait_wake 1 0 ?w"]) simp
qed

text \<open>A call of \<open>Wait\<close> that returns true found the flag set; an event that resets itself is then not set, another keeps its flag.\<close>

lemma wait_true:
  assumes "Event_Wait now give_up warn ws e = (Some True, ts, e')"
  shows "is_manual_reset e' = is_manual_reset e \<and> event_status e' = is_manual_reset e"
proof -
  have fin: "is_manual_reset e2 = is_manual_reset e1 \<and> event_status e2 = is_manual_reset e1"
    if "wait_until vs e1 = (Some err, vs', e3)" "wait_end err e3 = (True, e2)" for vs vs' e1 e2 e3 err
    using wait_until_result [OF that(1)] that(2) by (auto simp: wait_end_def split: if_splits)
  have keep: "is_manual_reset e2 = is_manual_reset e1" if "wait_until vs e1 = (Some err, vs', e2)" for vs vs' e1 e2 err
    using wait_until_result [OF that] by simp
  obtain er1 ws1 e1 where r1: "wait_until ws e = (er1, ws1, e1)" using prod_cases3 by blast
  obtain er2 ws2 e2 where r2: "wait_until ws1 e1 = (er2, ws2, e2)" using prod_cases3 by blast
  consider err where "er1 = Some err" "wait_end err e1 = (True, e')"
    | err where "er1 = Some ETIMEDOUT" "er2 = Some err" "wait_end err e2 = (True, e')"
    using assms r1 r2 by (auto simp: Event_Wait_def Let_def split: if_splits option.splits prod.splits)
  then show ?thesis
  proof cases
    case 1
    show ?thesis by (rule fin [OF r1 [unfolded 1(1)] 1(2)])
  next
    case 2
    show ?thesis using fin [OF r2 [unfolded 2(2)] 2(3)] unfolding keep [OF r1 [unfolded 2(1)]] .
  qed
qed

text \<open>A wake-up before the wait ends it at once and is used up by it.\<close>

lemma null_server_wakeup:
  "\<not> is_manual_reset e \<Longrightarrow> NullSocketServer_Wait now cms ws (NullSocketServer_WakeUp e) = (Some True, e\<lparr>event_status := False\<rparr>)"
  by (simp add: NullSocketServer_Wait_def NullSocketServer_WakeUp_def Event_Wait_def Event_Set_def wait_until.simps [of ws] wait_end_def)

end
