(* ===== verification/Physical_Socket.thy ===== *)
theory Physical_Socket
  imports Socket_Address Time_Utils
begin

text \<open>
  Sockets of the operating system: \<open>PhysicalSocket\<close>, \<open>SocketDispatcher\<close> and the tables of \<open>PhysicalSocketServer\<close> in
  \<open>physical_socket_server.h\<close> and \<open>physical_socket_server.cc\<close>, with \<open>socket.h\<close>, under \<open>src/xrtcserver/rtcbase/src/rtc_base\<close>, in the build for Linux
  (\<open>epoll\<close>, \<open>NDEBUG\<close>). Every system call is added to a list of calls; its result and the value of \<open>errno\<close> after it are arguments. Objects
  live on a heap, and using one that was deleted is a fault. The asynchronous resolver is not modelled: starting and destroying one are entries of the
  list of calls, its answer is an argument.
\<close>

unbundle bit_operations_syntax

section \<open>Definitions\<close>

subsection \<open>Constants\<close>

definition DE_READ :: "'a::len word" where "DE_READ = 0x01"

definition DE_WRITE :: "'a::len word" where "DE_WRITE = 0x02"

definition DE_CONNECT :: "'a::len word" where "DE_CONNECT = 0x04"

definition DE_CLOSE :: "'a::len word" where "DE_CLOSE = 0x08"

definition DE_ACCEPT :: "'a::len word" where "DE_ACCEPT = 0x10"

definition INVALID_SOCKET :: int where "INVALID_SOCKET = -1"

definition SOCKET_ERROR :: int where "SOCKET_ERROR = -1"

definition SOCK_STREAM :: int where "SOCK_STREAM = 1"

definition SOCK_DGRAM :: int where "SOCK_DGRAM = 2"

definition EBADF :: int where "EBADF = 9"

definition EALREADY :: int where "EALREADY = 114"

definition EINPROGRESS :: int where "EINPROGRESS = 115"

definition ECONNRESET :: int where "ECONNRESET = 104"

definition MSG_NOSIGNAL :: int where "MSG_NOSIGNAL = 0x4000"

definition EPOLLIN :: u32 where "EPOLLIN = 0x001"

definition EPOLLPRI :: u32 where "EPOLLPRI = 0x002"

definition EPOLLOUT :: u32 where "EPOLLOUT = 0x004"

definition EPOLLERR :: u32 where "EPOLLERR = 0x008"

definition EPOLLHUP :: u32 where "EPOLLHUP = 0x010"

definition EPOLLRDHUP :: u32 where "EPOLLRDHUP = 0x2000"

text \<open>On Linux \<open>EWOULDBLOCK\<close> and \<open>EAGAIN\<close> are the same number.\<close>

definition IsBlockingError :: "int \<Rightarrow> bool" where
  "IsBlockingError e \<longleftrightarrow> e = EAGAIN \<or> e = EAGAIN \<or> e = EINPROGRESS"

subsection \<open>Objects\<close>

datatype ConnState = CS_CLOSED | CS_CONNECTING | CS_CONNECTED

datatype sock_option = OPT_DONTFRAGMENT | OPT_RCVBUF | OPT_SNDBUF | OPT_NODELAY | OPT_IPV6_V6ONLY | OPT_DSCP | OPT_RTP_SENDTIME_EXTN_ID

text \<open>\<open>udp_\<close> has no value until \<open>Create\<close> sets it.\<close>

record socket =
  sk_s :: int
  sk_udp :: "bool option"
  sk_family :: int
  sk_error :: int
  sk_state :: ConnState
  sk_resolver :: ptr
  sk_enabled_events :: byte
  sk_saved_enabled_events :: int

text \<open>The pipe of the signaler is the list of the bytes written and not yet read.\<close>

record signaler =
  sg_afd0 :: int
  sg_afd1 :: int
  sg_fSignaled :: bool
  sg_pipe :: "byte list"

datatype dispatcher = Sock socket | Sig signaler

datatype syscall =
    Epoll_add int u32 "64 word"
  | Epoll_mod int u32 "64 word"
  | Epoll_del int
  | Sys_close int
  | Sys_socket int int
  | Sys_nonblock int
  | Sys_bind int "byte list"
  | Sys_connect int "byte list"
  | Sys_listen int int
  | Sys_accept int
  | Sys_send int "byte list" int int
  | Sys_sendto int "byte list" int int "byte list"
  | Sys_recv int int
  | Sys_setsockopt int int int int
  | Resolver_start nat SocketAddress
  | Resolver_destroy nat
  | Sys_epoll_wait int
  | Sys_poll int u32 int
  | Sys_select int "int set" "int set" "(int \<times> int) option"

datatype sock_signal = SignalReadEvent nat | SignalWriteEvent nat | SignalConnectEvent nat | SignalCloseEvent nat int

text \<open>
  The server, the heap of dispatchers, the system calls made and the signals fired so far. \<open>made\<close> counts the sockets that were constructed at an address: nothing in the program reads it,
  it tells a socket from a later one at the same address.
\<close>

record socket_server =
  epoll_fd :: int
  next_dispatcher_key :: "64 word"
  dispatcher_by_key :: "64 word \<rightharpoonup> nat"
  key_by_dispatcher :: "nat \<rightharpoonup> 64 word"
  signal_wakeup :: nat
  fWait :: bool
  disps :: "nat \<rightharpoonup> dispatcher"
  calls :: "syscall list"
  signals :: "sock_signal list"
  made :: "nat \<Rightarrow> nat"

definition do_call :: "syscall \<Rightarrow> socket_server \<Rightarrow> socket_server" where
  "do_call c ss = ss\<lparr>calls := calls ss @ [c]\<rparr>"

definition put_sock :: "nat \<Rightarrow> socket \<Rightarrow> socket_server \<Rightarrow> socket_server" where
  "put_sock a s ss = ss\<lparr>disps := (disps ss)(a \<mapsto> Sock s)\<rparr>"

text \<open>The memory for a new socket at address \<open>n\<close>.\<close>

definition alloc_sock :: "nat \<Rightarrow> socket_server \<Rightarrow> socket_server" where
  "alloc_sock n ss = ss\<lparr>made := (made ss)(n := made ss n + 1)\<rparr>"

definition with_sock :: "nat \<Rightarrow> socket_server \<Rightarrow> (socket \<Rightarrow> 'b res) \<Rightarrow> 'b res" where
  "with_sock a ss f = (case disps ss a of Some (Sock s) \<Rightarrow> f s | _ \<Rightarrow> Inl Use_after_free)"

subsection \<open>What a dispatcher is asked for\<close>

fun GetDescriptor :: "dispatcher \<Rightarrow> int" where
  "GetDescriptor (Sock s) = sk_s s"
| "GetDescriptor (Sig g) = sg_afd0 g"

fun GetRequestedEvents :: "dispatcher \<Rightarrow> u32" where
  "GetRequestedEvents (Sock s) = ucast (sk_enabled_events s)"
| "GetRequestedEvents (Sig g) = DE_READ"

definition GetEpollEvents :: "u32 \<Rightarrow> u32" where
  "GetEpollEvents ff =
     (let events = 0;
          events = (if ff AND (DE_READ OR DE_ACCEPT) \<noteq> 0 then events OR EPOLLIN else events)
      in if ff AND (DE_WRITE OR DE_CONNECT) \<noteq> 0 then events OR EPOLLOUT else events)"

subsection \<open>The tables of the server\<close>

definition AddEpoll :: "dispatcher \<Rightarrow> 64 word \<Rightarrow> socket_server \<Rightarrow> socket_server" where
  "AddEpoll d key ss =
     (let fd = GetDescriptor d
      in if fd = INVALID_SOCKET then ss else do_call (Epoll_add fd (GetEpollEvents (GetRequestedEvents d)) key) ss)"

definition RemoveEpoll :: "dispatcher \<Rightarrow> socket_server \<Rightarrow> socket_server" where
  "RemoveEpoll d ss = (let fd = GetDescriptor d in if fd = INVALID_SOCKET then ss else do_call (Epoll_del fd) ss)"

definition UpdateEpoll :: "dispatcher \<Rightarrow> 64 word \<Rightarrow> socket_server \<Rightarrow> socket_server" where
  "UpdateEpoll d key ss =
     (let fd = GetDescriptor d
      in if fd = INVALID_SOCKET then ss else do_call (Epoll_mod fd (GetEpollEvents (GetRequestedEvents d)) key) ss)"

text \<open>\<open>emplace\<close> keeps an entry that is there.\<close>

definition emplace :: "'k \<Rightarrow> 'v \<Rightarrow> ('k \<rightharpoonup> 'v) \<Rightarrow> 'k \<rightharpoonup> 'v" where
  "emplace k v m = (case m k of None \<Rightarrow> m(k \<mapsto> v) | Some _ \<Rightarrow> m)"

definition Add :: "nat \<Rightarrow> socket_server \<Rightarrow> socket_server res" where
  "Add a ss =
     (case disps ss a of None \<Rightarrow> Inl Use_after_free
      | Some d \<Rightarrow>
          if key_by_dispatcher ss a \<noteq> None then Inr ss
          else let key = next_dispatcher_key ss;
                   ss = ss\<lparr>next_dispatcher_key := key + 1, dispatcher_by_key := emplace key a (dispatcher_by_key ss),
                           key_by_dispatcher := emplace a key (key_by_dispatcher ss)\<rparr>
               in Inr (if epoll_fd ss \<noteq> INVALID_SOCKET then AddEpoll d key ss else ss))"

definition Remove :: "nat \<Rightarrow> socket_server \<Rightarrow> socket_server res" where
  "Remove a ss =
     (case key_by_dispatcher ss a of None \<Rightarrow> Inr ss
      | Some key \<Rightarrow>
          let ss = ss\<lparr>key_by_dispatcher := (key_by_dispatcher ss)(a := None), dispatcher_by_key := (dispatcher_by_key ss)(key := None)\<rparr>
          in if epoll_fd ss \<noteq> INVALID_SOCKET
             then (case disps ss a of None \<Rightarrow> Inl Use_after_free | Some d \<Rightarrow> Inr (RemoveEpoll d ss))
             else Inr ss)"

definition Update :: "nat \<Rightarrow> socket_server \<Rightarrow> socket_server res" where
  "Update a ss =
     (if epoll_fd ss = INVALID_SOCKET then Inr ss
      else case key_by_dispatcher ss a of None \<Rightarrow> Inr ss
           | Some key \<Rightarrow> (case disps ss a of None \<Rightarrow> Inl Use_after_free | Some d \<Rightarrow> Inr (UpdateEpoll d key ss)))"

subsection \<open>Enabled events\<close>

definition PhysicalSocket_SetEnabledEvents :: "byte \<Rightarrow> socket \<Rightarrow> socket" where
  "PhysicalSocket_SetEnabledEvents events s = s\<lparr>sk_enabled_events := events\<rparr>"

definition PhysicalSocket_EnableEvents :: "byte \<Rightarrow> socket \<Rightarrow> socket" where
  "PhysicalSocket_EnableEvents events s = s\<lparr>sk_enabled_events := sk_enabled_events s OR events\<rparr>"

definition PhysicalSocket_DisableEvents :: "byte \<Rightarrow> socket \<Rightarrow> socket" where
  "PhysicalSocket_DisableEvents events s = s\<lparr>sk_enabled_events := sk_enabled_events s AND NOT events\<rparr>"

definition MaybeUpdateDispatcher :: "nat \<Rightarrow> byte \<Rightarrow> socket_server \<Rightarrow> socket_server res" where
  "MaybeUpdateDispatcher a old_events ss = with_sock a ss (\<lambda>s.
     if GetEpollEvents (ucast (sk_enabled_events s)) \<noteq> GetEpollEvents (ucast old_events) \<and> sk_saved_enabled_events s = -1
     then Update a ss else Inr ss)"

definition SocketDispatcher_SetEnabledEvents :: "nat \<Rightarrow> byte \<Rightarrow> socket_server \<Rightarrow> socket_server res" where
  "SocketDispatcher_SetEnabledEvents a events ss = with_sock a ss (\<lambda>s.
     MaybeUpdateDispatcher a (sk_enabled_events s) (put_sock a (PhysicalSocket_SetEnabledEvents events s) ss))"

definition SocketDispatcher_EnableEvents :: "nat \<Rightarrow> byte \<Rightarrow> socket_server \<Rightarrow> socket_server res" where
  "SocketDispatcher_EnableEvents a events ss = with_sock a ss (\<lambda>s.
     MaybeUpdateDispatcher a (sk_enabled_events s) (put_sock a (PhysicalSocket_EnableEvents events s) ss))"

definition SocketDispatcher_DisableEvents :: "nat \<Rightarrow> byte \<Rightarrow> socket_server \<Rightarrow> socket_server res" where
  "SocketDispatcher_DisableEvents a events ss = with_sock a ss (\<lambda>s.
     MaybeUpdateDispatcher a (sk_enabled_events s) (put_sock a (PhysicalSocket_DisableEvents events s) ss))"

definition StartBatchedEventUpdates :: "nat \<Rightarrow> socket_server \<Rightarrow> socket_server res" where
  "StartBatchedEventUpdates a ss = with_sock a ss (\<lambda>s.
     Inr (put_sock a (s\<lparr>sk_saved_enabled_events := uint (sk_enabled_events s)\<rparr>) ss))"

definition FinishBatchedEventUpdates :: "nat \<Rightarrow> socket_server \<Rightarrow> socket_server res" where
  "FinishBatchedEventUpdates a ss = with_sock a ss (\<lambda>s.
     MaybeUpdateDispatcher a (word_of_int (sk_saved_enabled_events s)) (put_sock a (s\<lparr>sk_saved_enabled_events := -1\<rparr>) ss))"

subsection \<open>Errors\<close>

definition PhysicalSocket_SetError :: "nat \<Rightarrow> int \<Rightarrow> socket_server \<Rightarrow> socket_server res" where
  "PhysicalSocket_SetError a error ss = with_sock a ss (\<lambda>s. Inr (put_sock a (s\<lparr>sk_error := error\<rparr>) ss))"

text \<open>\<open>LAST_SYSTEM_ERROR\<close> is \<open>errno\<close>.\<close>

definition UpdateLastError :: "nat \<Rightarrow> int \<Rightarrow> socket_server \<Rightarrow> socket_server res" where
  "UpdateLastError a errno ss = PhysicalSocket_SetError a errno ss"

subsection \<open>Opening and closing\<close>

definition PhysicalSocket_Close :: "nat \<Rightarrow> int \<times> int \<Rightarrow> socket_server \<Rightarrow> (int \<times> socket_server) res" where
  "PhysicalSocket_Close a ans ss = with_sock a ss (\<lambda>s.
     if sk_s s = INVALID_SOCKET then Inr (0, ss)
     else res_bind (UpdateLastError a (snd ans) (do_call (Sys_close (sk_s s)) ss)) (\<lambda>ss. with_sock a ss (\<lambda>s.
          res_bind (SocketDispatcher_SetEnabledEvents a 0 (put_sock a (s\<lparr>sk_s := INVALID_SOCKET, sk_state := CS_CLOSED\<rparr>) ss)) (\<lambda>ss. with_sock a ss (\<lambda>s.
          Inr (fst ans, case sk_resolver s of None \<Rightarrow> ss
                        | Some r \<Rightarrow> put_sock a (s\<lparr>sk_resolver := None\<rparr>) (do_call (Resolver_destroy r) ss)))))))"

definition SocketDispatcher_Close :: "nat \<Rightarrow> int \<times> int \<Rightarrow> socket_server \<Rightarrow> (int \<times> socket_server) res" where
  "SocketDispatcher_Close a ans ss = with_sock a ss (\<lambda>s.
     if sk_s s = INVALID_SOCKET then Inr (0, ss)
     else res_bind (Remove a (if sk_saved_enabled_events s \<noteq> -1 then put_sock a (s\<lparr>sk_saved_enabled_events := 0\<rparr>) ss else ss)) (\<lambda>ss.
          PhysicalSocket_Close a ans ss))"

definition PhysicalSocket_Create :: "nat \<Rightarrow> int \<Rightarrow> int \<Rightarrow> int \<times> int \<Rightarrow> int \<times> int \<Rightarrow> socket_server \<Rightarrow> (bool \<times> socket_server) res" where
  "PhysicalSocket_Create a family type close_ans ans ss =
     res_bind (SocketDispatcher_Close a close_ans ss) (\<lambda>(_, ss). with_sock a ss (\<lambda>s.
     res_bind (UpdateLastError a (snd ans)
       (put_sock a (s\<lparr>sk_s := fst ans, sk_udp := Some (SOCK_DGRAM = type), sk_family := family\<rparr>) (do_call (Sys_socket family type) ss))) (\<lambda>ss.
     res_bind (if SOCK_DGRAM = type then SocketDispatcher_SetEnabledEvents a (DE_READ OR DE_WRITE) ss else Inr ss) (\<lambda>ss.
     Inr (fst ans \<noteq> INVALID_SOCKET, ss)))))"

definition SocketDispatcher_Initialize :: "nat \<Rightarrow> socket_server \<Rightarrow> (bool \<times> socket_server) res" where
  "SocketDispatcher_Initialize a ss = with_sock a ss (\<lambda>s.
     res_bind (Add a (do_call (Sys_nonblock (sk_s s)) ss)) (\<lambda>ss. Inr (True, ss)))"

definition SocketDispatcher_Create :: "nat \<Rightarrow> int \<Rightarrow> int \<Rightarrow> int \<times> int \<Rightarrow> int \<times> int \<Rightarrow> socket_server \<Rightarrow> (bool \<times> socket_server) res" where
  "SocketDispatcher_Create a family type close_ans ans ss =
     res_bind (PhysicalSocket_Create a family type close_ans ans ss) (\<lambda>(ok, ss).
       if \<not> ok then Inr (False, ss)
       else res_bind (SocketDispatcher_Initialize a ss) (\<lambda>(ok, ss). Inr (ok, ss)))"

text \<open>The constructor; for a descriptor that was given, \<open>type\<close> is the answer for \<open>SO_TYPE\<close>. The virtual call in it is to the base class.\<close>

definition PhysicalSocket_new :: "int \<Rightarrow> int \<Rightarrow> socket" where
  "PhysicalSocket_new s type =
     (let sk = \<lparr>sk_s = s, sk_udp = None, sk_family = 0, sk_error = 0, sk_state = (if s = INVALID_SOCKET then CS_CLOSED else CS_CONNECTED),
                sk_resolver = None, sk_enabled_events = 0, sk_saved_enabled_events = -1\<rparr>
      in if s \<noteq> INVALID_SOCKET then (PhysicalSocket_SetEnabledEvents (DE_READ OR DE_WRITE) sk)\<lparr>sk_udp := Some (SOCK_DGRAM = type)\<rparr> else sk)"

definition SocketDispatcher_delete :: "nat \<Rightarrow> int \<times> int \<Rightarrow> socket_server \<Rightarrow> socket_server res" where
  "SocketDispatcher_delete a ans ss =
     res_bind (SocketDispatcher_Close a ans ss) (\<lambda>(_, ss).
     res_bind (PhysicalSocket_Close a ans ss) (\<lambda>(_, ss). Inr (ss\<lparr>disps := (disps ss)(a := None)\<rparr>)))"

text \<open>\<open>n\<close> is the address \<open>new\<close> returns.\<close>

definition CreateSocket :: "nat \<Rightarrow> int \<Rightarrow> int \<Rightarrow> int \<times> int \<Rightarrow> socket_server \<Rightarrow> (nat option \<times> socket_server) res" where
  "CreateSocket n family type ans ss =
     res_bind (SocketDispatcher_Create n family type (0, 0) ans (put_sock n (PhysicalSocket_new INVALID_SOCKET 0) (alloc_sock n ss))) (\<lambda>(ok, ss).
       if ok then Inr (Some n, ss)
       else res_bind (SocketDispatcher_delete n (0, 0) ss) (\<lambda>ss. Inr (None, ss)))"

definition WrapSocket :: "nat \<Rightarrow> int \<Rightarrow> int \<Rightarrow> socket_server \<Rightarrow> (nat option \<times> socket_server) res" where
  "WrapSocket n s type ss =
     res_bind (SocketDispatcher_Initialize n (put_sock n (PhysicalSocket_new s type) (alloc_sock n ss))) (\<lambda>(ok, ss).
       if ok then Inr (Some n, ss)
       else res_bind (SocketDispatcher_delete n (0, 0) ss) (\<lambda>ss. Inr (None, ss)))"

subsection \<open>Binding and connecting\<close>

datatype NetworkBindingResult = SUCCESS | FAILURE | NOT_IMPLEMENTED | ADDRESS_NOT_FOUND | NETWORK_CHANGED

text \<open>The answer of the network binder is an argument, nothing when there is no binder.\<close>

definition PhysicalSocket_Bind :: "nat \<Rightarrow> SocketAddress \<Rightarrow> NetworkBindingResult option \<Rightarrow> int \<times> int \<Rightarrow> socket_server \<Rightarrow> (int \<times> socket_server) res" where
  "PhysicalSocket_Bind a bind_addr binder ans ss = with_sock a ss (\<lambda>s.
     let do_bind = (\<lambda>addr. let (storage, len) = sa_ToSockAddrStorage addr
                           in res_bind (UpdateLastError a (snd ans) (do_call (Sys_bind (sk_s s) (take len storage)) ss)) (\<lambda>ss. Inr (fst ans, ss)))
     in case binder of
          None \<Rightarrow> do_bind bind_addr
        | Some result \<Rightarrow>
            if sa_IsAnyIP bind_addr then do_bind bind_addr
            else if result = SUCCESS then do_bind (sa_SetIP (GetAnyIP (ip_family (sa_ip bind_addr))) bind_addr)
            else if result = NOT_IMPLEMENTED then do_bind bind_addr
            else if sa_IsLoopbackIP bind_addr then do_bind bind_addr
            else Inr (-1, ss))"

definition DoConnect :: "nat \<Rightarrow> SocketAddress \<Rightarrow> int \<times> int \<Rightarrow> int \<times> int \<Rightarrow> socket_server \<Rightarrow> (int \<times> socket_server) res" where
  "DoConnect a connect_addr create_ans ans ss = with_sock a ss (\<lambda>s.
     res_bind (if sk_s s = INVALID_SOCKET then SocketDispatcher_Create a (ip_family (sa_ip connect_addr)) SOCK_STREAM (0, 0) create_ans ss else Inr (True, ss)) (\<lambda>(ok, ss).
     if \<not> ok then Inr (SOCKET_ERROR, ss)
     else with_sock a ss (\<lambda>s.
       let (storage, len) = sa_ToSockAddrStorage connect_addr
       in res_bind (UpdateLastError a (snd ans) (do_call (Sys_connect (sk_s s) (take len storage)) ss)) (\<lambda>ss. with_sock a ss (\<lambda>s.
          if fst ans = 0
          then res_bind (SocketDispatcher_EnableEvents a (DE_READ OR DE_WRITE) (put_sock a (s\<lparr>sk_state := CS_CONNECTED\<rparr>) ss)) (\<lambda>ss. Inr (0, ss))
          else if IsBlockingError (sk_error s)
          then res_bind (SocketDispatcher_EnableEvents a (DE_READ OR DE_WRITE OR DE_CONNECT) (put_sock a (s\<lparr>sk_state := CS_CONNECTING\<rparr>) ss)) (\<lambda>ss. Inr (0, ss))
          else Inr (SOCKET_ERROR, ss))))))"

text \<open>\<open>r\<close> is the address of the resolver that \<open>new\<close> returns.\<close>

definition PhysicalSocket_Connect :: "nat \<Rightarrow> SocketAddress \<Rightarrow> nat \<Rightarrow> int \<times> int \<Rightarrow> int \<times> int \<Rightarrow> socket_server \<Rightarrow> (int \<times> socket_server) res" where
  "PhysicalSocket_Connect a addr r create_ans ans ss = with_sock a ss (\<lambda>s.
     if sk_state s \<noteq> CS_CLOSED then res_bind (PhysicalSocket_SetError a EALREADY ss) (\<lambda>ss. Inr (SOCKET_ERROR, ss))
     else if sa_IsUnresolvedIP addr
     then Inr (0, put_sock a (s\<lparr>sk_resolver := Some r, sk_state := CS_CONNECTING\<rparr>) (do_call (Resolver_start r addr) ss))
     else DoConnect a addr create_ans ans ss)"

subsection \<open>Options\<close>

definition TranslateOption :: "int \<Rightarrow> sock_option \<Rightarrow> (int \<times> int) option" where
  "TranslateOption family opt =
     (case opt of
        OPT_DONTFRAGMENT \<Rightarrow> Some (0, 10)
      | OPT_RCVBUF \<Rightarrow> Some (1, 8)
      | OPT_SNDBUF \<Rightarrow> Some (1, 7)
      | OPT_NODELAY \<Rightarrow> Some (6, 1)
      | OPT_DSCP \<Rightarrow> if family = AF_INET6 then Some (41, 67) else Some (0, 1)
      | OPT_RTP_SENDTIME_EXTN_ID \<Rightarrow> None
      | OPT_IPV6_V6ONLY \<Rightarrow> None)"

text \<open>\<open>ans\<close> is the return value of \<open>getsockopt\<close> and the value it stores. The result has the new value, if there is one.\<close>

definition PhysicalSocket_GetOption :: "nat \<Rightarrow> sock_option \<Rightarrow> int \<times> int \<Rightarrow> socket_server \<Rightarrow> (int \<times> int option) res" where
  "PhysicalSocket_GetOption a opt ans ss = with_sock a ss (\<lambda>s. Inr
     (case TranslateOption (sk_family s) opt of None \<Rightarrow> (-1, None)
      | Some _ \<Rightarrow>
          if fst ans = -1 then (-1, None)
          else if opt = OPT_DONTFRAGMENT then (fst ans, Some (if snd ans \<noteq> 0 then 1 else 0))
          else if opt = OPT_DSCP then (fst ans, Some (drop_bit 2 (snd ans)))
          else (fst ans, Some (snd ans))))"

definition PhysicalSocket_SetOption :: "nat \<Rightarrow> sock_option \<Rightarrow> int \<Rightarrow> int \<times> int \<Rightarrow> socket_server \<Rightarrow> (int \<times> socket_server) res" where
  "PhysicalSocket_SetOption a opt value ans ss = with_sock a ss (\<lambda>s.
     case TranslateOption (sk_family s) opt of None \<Rightarrow> Inr (-1, ss)
     | Some (slevel, sopt) \<Rightarrow>
         if opt = OPT_DSCP \<and> (value < 0 \<or> value * 4 \<ge> 2 ^ 32) then Inl Signed_overflow
         else let value = (if opt = OPT_DONTFRAGMENT then (if value \<noteq> 0 then 2 else 0) else if opt = OPT_DSCP then i32 (value * 4) else value);
                  ss = (if sopt = 67 then do_call (Sys_setsockopt (sk_s s) 0 1 value) ss else ss);
                  ss = do_call (Sys_setsockopt (sk_s s) slevel sopt value) ss
              in if fst ans \<noteq> 0 then res_bind (UpdateLastError a (snd ans) ss) (\<lambda>ss. Inr (fst ans, ss)) else Inr (fst ans, ss))"

subsection \<open>Sending and receiving\<close>

definition PhysicalSocket_Send :: "nat \<Rightarrow> byte list \<Rightarrow> int \<times> int \<Rightarrow> socket_server \<Rightarrow> (int \<times> socket_server) res" where
  "PhysicalSocket_Send a pv ans ss = with_sock a ss (\<lambda>s.
     let cb = i32 (int (length pv)); sent = fst ans
     in res_bind (UpdateLastError a (snd ans) (do_call (Sys_send (sk_s s) pv cb MSG_NOSIGNAL) ss)) (\<lambda>ss. with_sock a ss (\<lambda>s.
        if sent > 0 \<and> sent < cb \<or> sent < 0 \<and> IsBlockingError (sk_error s)
        then res_bind (SocketDispatcher_EnableEvents a DE_WRITE ss) (\<lambda>ss. Inr (sent, ss)) else Inr (sent, ss))))"

definition PhysicalSocket_SendTo :: "nat \<Rightarrow> byte list \<Rightarrow> SocketAddress \<Rightarrow> int \<times> int \<Rightarrow> socket_server \<Rightarrow> (int \<times> socket_server) res" where
  "PhysicalSocket_SendTo a buffer addr ans ss = with_sock a ss (\<lambda>s.
     let (saddr, len) = sa_ToSockAddrStorage addr; cb = i32 (int (length buffer)); sent = fst ans
     in res_bind (UpdateLastError a (snd ans) (do_call (Sys_sendto (sk_s s) buffer cb MSG_NOSIGNAL (take len saddr)) ss)) (\<lambda>ss. with_sock a ss (\<lambda>s.
        if sent > 0 \<and> sent < cb \<or> sent < 0 \<and> IsBlockingError (sk_error s)
        then res_bind (SocketDispatcher_EnableEvents a DE_WRITE ss) (\<lambda>ss. Inr (sent, ss)) else Inr (sent, ss))))"

text \<open>The result of \<open>ioctl\<close>, \<open>errno\<close> after it, and the time it stores.\<close>

record stamp =
  st_ret :: int
  st_errno :: int
  st_sec :: int
  st_usec :: int

definition GetSocketRecvTimestamp :: "stamp \<Rightarrow> int" where
  "GetSocketRecvTimestamp t = (if st_ret t \<noteq> 0 then -1 else kNumMicrosecsPerSec * st_sec t + st_usec t)"

text \<open>\<open>errno\<close> when the timestamp has been read: a failed \<open>ioctl\<close> replaces the value that \<open>recv\<close> left.\<close>

definition errno_after :: "int \<Rightarrow> stamp option \<Rightarrow> int" where
  "errno_after errno timestamp = (case timestamp of Some t \<Rightarrow> if st_ret t \<noteq> 0 then st_errno t else errno | None \<Rightarrow> errno)"

definition PhysicalSocket_Recv :: "nat \<Rightarrow> int \<Rightarrow> int \<times> int \<Rightarrow> stamp option \<Rightarrow> socket_server \<Rightarrow> ((int \<times> int option) \<times> socket_server) res" where
  "PhysicalSocket_Recv a len ans timestamp ss = with_sock a ss (\<lambda>s.
     let received = fst ans; ss = do_call (Sys_recv (sk_s s) (i32 len)) ss
     in if received = 0 \<and> len \<noteq> 0
        then res_bind (SocketDispatcher_EnableEvents a DE_READ ss) (\<lambda>ss. res_bind (PhysicalSocket_SetError a EAGAIN ss) (\<lambda>ss. Inr ((SOCKET_ERROR, None), ss)))
        else res_bind (UpdateLastError a (errno_after (snd ans) timestamp) ss) (\<lambda>ss. with_sock a ss (\<lambda>s.
             let success = (received \<ge> 0 \<or> IsBlockingError (sk_error s)); res_out = (received, map_option GetSocketRecvTimestamp timestamp)
             in case sk_udp s of None \<Rightarrow> Inl Uninit_read
                | Some udp \<Rightarrow> if udp \<or> success then res_bind (SocketDispatcher_EnableEvents a DE_READ ss) (\<lambda>ss. Inr (res_out, ss)) else Inr (res_out, ss))))"

text \<open>\<open>storage\<close> is what \<open>recvfrom\<close> leaves in the address structure.\<close>

definition PhysicalSocket_RecvFrom ::
  "nat \<Rightarrow> int \<Rightarrow> int \<times> int \<Rightarrow> byte list \<Rightarrow> SocketAddress option \<Rightarrow> stamp option \<Rightarrow> socket_server \<Rightarrow> ((int \<times> SocketAddress option \<times> int option) \<times> socket_server) res" where
  "PhysicalSocket_RecvFrom a len ans storage out_addr timestamp ss = with_sock a ss (\<lambda>s.
     let received = fst ans
     in res_bind (UpdateLastError a (errno_after (snd ans) timestamp) (do_call (Sys_recv (sk_s s) (i32 len)) ss)) (\<lambda>ss. with_sock a ss (\<lambda>s.
        let out_addr = (if received \<ge> 0 \<and> out_addr \<noteq> None then snd (SocketAddressFromSockAddrStorage storage out_addr) else out_addr);
            success = (received \<ge> 0 \<or> IsBlockingError (sk_error s)); res_out = (received, out_addr, map_option GetSocketRecvTimestamp timestamp)
        in case sk_udp s of None \<Rightarrow> Inl Uninit_read
           | Some udp \<Rightarrow> if udp \<or> success then res_bind (SocketDispatcher_EnableEvents a DE_READ ss) (\<lambda>ss. Inr (res_out, ss)) else Inr (res_out, ss))))"

subsection \<open>Accepting\<close>

definition PhysicalSocket_Listen :: "nat \<Rightarrow> int \<Rightarrow> int \<times> int \<Rightarrow> socket_server \<Rightarrow> (int \<times> socket_server) res" where
  "PhysicalSocket_Listen a backlog ans ss = with_sock a ss (\<lambda>s.
     res_bind (UpdateLastError a (snd ans) (do_call (Sys_listen (sk_s s) backlog) ss)) (\<lambda>ss. with_sock a ss (\<lambda>s.
     if fst ans = 0
     then res_bind (SocketDispatcher_EnableEvents a DE_ACCEPT (put_sock a (s\<lparr>sk_state := CS_CONNECTING\<rparr>) ss)) (\<lambda>ss. Inr (fst ans, ss))
     else Inr (fst ans, ss))))"

definition PhysicalSocket_Accept ::
  "nat \<Rightarrow> SocketAddress option \<Rightarrow> int \<times> int \<Rightarrow> byte list \<Rightarrow> nat \<Rightarrow> int \<Rightarrow> socket_server \<Rightarrow> ((nat option \<times> SocketAddress option) \<times> socket_server) res" where
  "PhysicalSocket_Accept a out_addr ans storage n type ss =
     res_bind (SocketDispatcher_EnableEvents a DE_ACCEPT ss) (\<lambda>ss. with_sock a ss (\<lambda>s.
     res_bind (UpdateLastError a (snd ans) (do_call (Sys_accept (sk_s s)) ss)) (\<lambda>ss.
     if fst ans = INVALID_SOCKET then Inr ((None, out_addr), ss)
     else let out_addr = (if out_addr \<noteq> None then snd (SocketAddressFromSockAddrStorage storage out_addr) else out_addr)
          in res_bind (WrapSocket n (fst ans) type ss) (\<lambda>(p, ss). Inr ((p, out_addr), ss)))))"

definition PhysicalSocket_GetAddress :: "int \<times> byte list \<Rightarrow> SocketAddress" where
  "PhysicalSocket_GetAddress ans =
     (if fst ans \<ge> 0 then the (snd (SocketAddressFromSockAddrStorage (snd ans) (Some SocketAddress_nil))) else SocketAddress_nil)"

subsection \<open>What the code that uses sockets does\<close>

text \<open>The operations that handlers of signals and other code call, with the answers they get.\<close>

datatype sock_op =
    Op_Create nat int int "int \<times> int"
  | Op_Delete nat "int \<times> int"
  | Op_Close nat "int \<times> int"
  | Op_Bind nat SocketAddress "NetworkBindingResult option" "int \<times> int"
  | Op_Connect nat SocketAddress nat "int \<times> int" "int \<times> int"
  | Op_SetOption nat sock_option int "int \<times> int"
  | Op_Send nat "byte list" "int \<times> int"
  | Op_SendTo nat "byte list" SocketAddress "int \<times> int"
  | Op_Recv nat int "int \<times> int" "stamp option"
  | Op_RecvFrom nat int "int \<times> int" "byte list" "SocketAddress option" "stamp option"
  | Op_Listen nat int "int \<times> int"
  | Op_Accept nat "SocketAddress option" "int \<times> int" "byte list" nat int
  | Op_SetError nat int

definition state_of :: "('x \<times> socket_server) res \<Rightarrow> socket_server res" where
  "state_of r = res_bind r (\<lambda>(_, ss). Inr ss)"

fun sock_exec :: "sock_op \<Rightarrow> socket_server \<Rightarrow> socket_server res" where
  "sock_exec (Op_Create n family type ans) ss = state_of (CreateSocket n family type ans ss)"
| "sock_exec (Op_Delete a ans) ss = SocketDispatcher_delete a ans ss"
| "sock_exec (Op_Close a ans) ss = state_of (SocketDispatcher_Close a ans ss)"
| "sock_exec (Op_Bind a addr binder ans) ss = state_of (PhysicalSocket_Bind a addr binder ans ss)"
| "sock_exec (Op_Connect a addr r create_ans ans) ss = state_of (PhysicalSocket_Connect a addr r create_ans ans ss)"
| "sock_exec (Op_SetOption a opt value ans) ss = state_of (PhysicalSocket_SetOption a opt value ans ss)"
| "sock_exec (Op_Send a pv ans) ss = state_of (PhysicalSocket_Send a pv ans ss)"
| "sock_exec (Op_SendTo a buffer addr ans) ss = state_of (PhysicalSocket_SendTo a buffer addr ans ss)"
| "sock_exec (Op_Recv a len ans timestamp) ss = state_of (PhysicalSocket_Recv a len ans timestamp ss)"
| "sock_exec (Op_RecvFrom a len ans storage out_addr timestamp) ss = state_of (PhysicalSocket_RecvFrom a len ans storage out_addr timestamp ss)"
| "sock_exec (Op_Listen a backlog ans) ss = state_of (PhysicalSocket_Listen a backlog ans ss)"
| "sock_exec (Op_Accept a out_addr ans storage n type) ss = state_of (PhysicalSocket_Accept a out_addr ans storage n type ss)"
| "sock_exec (Op_SetError a error) ss = PhysicalSocket_SetError a error ss"

fun sock_execs :: "sock_op list \<Rightarrow> socket_server \<Rightarrow> socket_server res" where
  "sock_execs [] ss = Inr ss"
| "sock_execs (x # xs) ss = res_bind (sock_exec x ss) (sock_execs xs)"

subsection \<open>Signals\<close>

text \<open>The handlers connected to the signals are an argument: the operations they call, as a function of the state when the signal is fired, whose last signal it is.\<close>

type_synonym handlers = "socket_server \<Rightarrow> sock_op list"

definition fire :: "handlers \<Rightarrow> sock_signal \<Rightarrow> socket_server \<Rightarrow> socket_server res" where
  "fire h sig ss = (let ss = ss\<lparr>signals := signals ss @ [sig]\<rparr> in sock_execs (h ss) ss)"

definition OnResolveResult :: "handlers \<Rightarrow> nat \<Rightarrow> nat \<Rightarrow> int \<Rightarrow> SocketAddress \<Rightarrow> int \<times> int \<Rightarrow> int \<times> int \<Rightarrow> int \<times> int \<Rightarrow> socket_server \<Rightarrow> socket_server res" where
  "OnResolveResult h a r error address create_ans ans close_ans ss = with_sock a ss (\<lambda>s.
     if sk_resolver s \<noteq> Some r then Inr ss
     else res_bind (if error = 0 then DoConnect a address create_ans ans ss
                    else res_bind (SocketDispatcher_Close a close_ans ss) (\<lambda>(_, ss). Inr (error, ss))) (\<lambda>(error, ss).
          if error \<noteq> 0 then res_bind (PhysicalSocket_SetError a error ss) (fire h (SignalCloseEvent a error)) else Inr ss))"

definition IsDescriptorClosed :: "dispatcher \<Rightarrow> int \<times> int \<Rightarrow> bool res" where
  "IsDescriptorClosed d ans =
     (case d of Sig g \<Rightarrow> Inr False
      | Sock s \<Rightarrow>
          (case sk_udp s of None \<Rightarrow> Inl Uninit_read
           | Some udp \<Rightarrow>
               if udp then Inr (sk_s s = INVALID_SOCKET)
               else if fst ans > 0 then Inr False
               else if fst ans = 0 then Inr True
               else if snd ans = EBADF \<or> snd ans = ECONNRESET then Inr True
               else Inr False))"

definition on_event :: "handlers \<Rightarrow> bool \<Rightarrow> (socket_server \<Rightarrow> socket_server res) \<Rightarrow> sock_signal \<Rightarrow> socket_server \<Rightarrow> socket_server res" where
  "on_event h here change sig ss = (if here then res_bind (change ss) (fire h sig) else Inr ss)"

definition SocketDispatcher_OnEvent :: "handlers \<Rightarrow> nat \<Rightarrow> u32 \<Rightarrow> int \<Rightarrow> socket_server \<Rightarrow> socket_server res" where
  "SocketDispatcher_OnEvent h a ff err ss = with_sock a ss (\<lambda>s.
     let s = (if ff AND DE_CONNECT \<noteq> 0 then s\<lparr>sk_state := CS_CONNECTED\<rparr> else s);
         s = (if ff AND DE_CLOSE \<noteq> 0 then s\<lparr>sk_state := CS_CLOSED\<rparr> else s)
     in res_bind (StartBatchedEventUpdates a (put_sock a s ss)) (\<lambda>ss.
        res_bind (on_event h (ff AND DE_CONNECT \<noteq> 0) (SocketDispatcher_DisableEvents a DE_CONNECT) (SignalConnectEvent a) ss) (\<lambda>ss.
        res_bind (on_event h (ff AND DE_ACCEPT \<noteq> 0) (SocketDispatcher_DisableEvents a DE_ACCEPT) (SignalReadEvent a) ss) (\<lambda>ss.
        res_bind (on_event h (ff AND DE_READ \<noteq> 0) (SocketDispatcher_DisableEvents a DE_READ) (SignalReadEvent a) ss) (\<lambda>ss.
        res_bind (on_event h (ff AND DE_WRITE \<noteq> 0) (SocketDispatcher_DisableEvents a DE_WRITE) (SignalWriteEvent a) ss) (\<lambda>ss.
        res_bind (on_event h (ff AND DE_CLOSE \<noteq> 0) (SocketDispatcher_SetEnabledEvents a 0) (SignalCloseEvent a err) ss) (\<lambda>ss.
        FinishBatchedEventUpdates a ss)))))))"

subsection \<open>The signaler and the server\<close>

text \<open>\<open>pw\<close> says whether a byte can be written to the pipe.\<close>

definition Signal :: "(byte list \<Rightarrow> bool) \<Rightarrow> nat \<Rightarrow> socket_server \<Rightarrow> socket_server res" where
  "Signal pw a ss =
     (case disps ss a of
        Some (Sig g) \<Rightarrow>
          Inr (if sg_fSignaled g then ss
               else ss\<lparr>disps := (disps ss)(a \<mapsto> Sig (g\<lparr>sg_fSignaled := True, sg_pipe := (if pw (sg_pipe g) then sg_pipe g @ [0] else sg_pipe g)\<rparr>))\<rparr>)
      | _ \<Rightarrow> Inl Use_after_free)"

definition WakeUp :: "(byte list \<Rightarrow> bool) \<Rightarrow> socket_server \<Rightarrow> socket_server res" where
  "WakeUp pw ss = Signal pw (signal_wakeup ss) ss"

text \<open>A read of an empty pipe does not return.\<close>

definition Signaler_OnEvent :: "nat \<Rightarrow> socket_server \<Rightarrow> socket_server res" where
  "Signaler_OnEvent a ss =
     (case disps ss a of
        Some (Sig g) \<Rightarrow>
          if sg_fSignaled g
          then if sg_pipe g = [] then Inl Not_finished
               else Inr (ss\<lparr>disps := (disps ss)(a \<mapsto> Sig (g\<lparr>sg_fSignaled := False, sg_pipe := drop 4 (sg_pipe g)\<rparr>)), fWait := False\<rparr>)
          else Inr (ss\<lparr>fWait := False\<rparr>)
      | _ \<Rightarrow> Inl Use_after_free)"

text \<open>\<open>afd\<close> are the ends of the new pipe, \<open>(-1, -1)\<close> when there is none.\<close>

definition PhysicalSocketServer_new :: "int \<Rightarrow> nat \<Rightarrow> int \<times> int \<Rightarrow> socket_server res" where
  "PhysicalSocketServer_new epfd n afd =
     Add n \<lparr>epoll_fd = epfd, next_dispatcher_key = 0, dispatcher_by_key = Map.empty, key_by_dispatcher = Map.empty, signal_wakeup = n, fWait = False,
            disps = [n \<mapsto> Sig \<lparr>sg_afd0 = fst afd, sg_afd1 = snd afd, sg_fSignaled = False, sg_pipe = []\<rparr>], calls = [], signals = [], made = (\<lambda>_. 0)\<rparr>"

definition Signaler_delete :: "nat \<Rightarrow> socket_server \<Rightarrow> socket_server res" where
  "Signaler_delete a ss =
     res_bind (Remove a ss) (\<lambda>ss.
       case disps ss a of
         Some (Sig g) \<Rightarrow> Inr (do_call (Sys_close (sg_afd1 g)) (do_call (Sys_close (sg_afd0 g)) (ss\<lparr>disps := (disps ss)(a := None)\<rparr>)))
       | _ \<Rightarrow> Inl Use_after_free)"

definition PhysicalSocketServer_delete :: "socket_server \<Rightarrow> socket_server res" where
  "PhysicalSocketServer_delete ss =
     res_bind (Signaler_delete (signal_wakeup ss) ss) (\<lambda>ss.
       Inr (if epoll_fd ss \<noteq> INVALID_SOCKET then do_call (Sys_close (epoll_fd ss)) ss else ss))"

end
