(* ===== verification/Socket_Invariant.thy ===== *)
theory Socket_Invariant
  imports Physical_Socket
begin

text \<open>
  The invariant of \<open>Physical_Socket\<close>: the two tables of the server are inverse to each other, every open socket is in them, and the interest set of \<open>epoll\<close> is the one the enabled events
  of the sockets ask for, also when handlers of signals close, reopen, create and delete sockets while a batch of changes is open. Every operation and every event succeeds and keeps it.
\<close>

unbundle bit_operations_syntax

section \<open>The interest set of the kernel\<close>

text \<open>What the calls do to the set of descriptors an \<open>epoll\<close> descriptor watches, as the manual pages of \<open>epoll_ctl\<close> and \<open>epoll\<close> describe it: adding a descriptor that is there and changing or
  removing one that is not fail without effect, and closing a descriptor removes it. The other errors of \<open>epoll_ctl\<close>, no memory and no watch left, are left out:
  the kernel is assumed to grant the calls (the code only logs an error and goes on).\<close>

fun epoll_effect :: "syscall \<Rightarrow> (int \<rightharpoonup> u32 \<times> 64 word) \<Rightarrow> int \<rightharpoonup> u32 \<times> 64 word" where
  "epoll_effect (Epoll_add fd events key) m = (if m fd = None then m(fd \<mapsto> (events, key)) else m)"
| "epoll_effect (Epoll_mod fd events key) m = (if m fd = None then m else m(fd \<mapsto> (events, key)))"
| "epoll_effect (Epoll_del fd) m = m(fd := None)"
| "epoll_effect (Sys_close fd) m = m(fd := None)"
| "epoll_effect _ m = m"

definition interest :: "syscall list \<Rightarrow> int \<rightharpoonup> u32 \<times> 64 word" where
  "interest cs = fold epoll_effect cs Map.empty"

lemma interest_simps [simp]: "interest [] = Map.empty" "interest (cs @ [c]) = epoll_effect c (interest cs)"
  "interest (cs @ [c, c']) = epoll_effect c' (epoll_effect c (interest cs))"
  by (simp_all add: interest_def)

text \<open>The events the kernel is told of: while a batch of changes is open, those from before it.\<close>

fun told :: "dispatcher \<Rightarrow> u32" where
  "told (Sock s) = ucast (if sk_saved_enabled_events s = -1 then sk_enabled_events s else word_of_int (sk_saved_enabled_events s) :: byte)"
| "told (Sig g) = DE_READ"

section \<open>Invariant\<close>

definition sock_ok :: "socket \<Rightarrow> bool" where
  "sock_ok s \<longleftrightarrow> sk_udp s \<noteq> None \<and> sk_saved_enabled_events s \<in> {-1..255} \<and>
     (sk_s s = INVALID_SOCKET \<longrightarrow> sk_enabled_events s = 0 \<and> sk_saved_enabled_events s \<in> {-1, 0})"

definition tables_ok :: "socket_server \<Rightarrow> bool" where
  "tables_ok ss \<longleftrightarrow>
     (\<forall>a k. key_by_dispatcher ss a = Some k \<longleftrightarrow> dispatcher_by_key ss k = Some a) \<and>
     (\<forall>k a. dispatcher_by_key ss k = Some a \<longrightarrow> k < next_dispatcher_key ss)"

definition fd_of :: "socket_server \<Rightarrow> nat \<rightharpoonup> int" where
  "fd_of ss a = map_option GetDescriptor (disps ss a)"

definition told_of :: "socket_server \<Rightarrow> nat \<rightharpoonup> u32" where
  "told_of ss a = map_option (\<lambda>d. GetEpollEvents (told d)) (disps ss a)"

definition fds_ok :: "(nat \<rightharpoonup> int) \<Rightarrow> (nat \<rightharpoonup> 64 word) \<Rightarrow> bool" where
  "fds_ok fds keys \<longleftrightarrow>
     (\<forall>a. keys a \<noteq> None \<longleftrightarrow> (\<exists>fd. fds a = Some fd \<and> fd \<noteq> INVALID_SOCKET)) \<and>
     (\<forall>a b fd. fds a = Some fd \<longrightarrow> fds b = Some fd \<longrightarrow> fd \<noteq> INVALID_SOCKET \<longrightarrow> a = b)"

definition interest_ok :: "(int \<rightharpoonup> u32 \<times> 64 word) \<Rightarrow> (nat \<rightharpoonup> int) \<Rightarrow> (nat \<rightharpoonup> u32) \<Rightarrow> (nat \<rightharpoonup> 64 word) \<Rightarrow> bool" where
  "interest_ok m fds tolds keys \<longleftrightarrow>
     (\<forall>a fd ev k. fds a = Some fd \<longrightarrow> tolds a = Some ev \<longrightarrow> keys a = Some k \<longrightarrow> m fd = Some (ev, k)) \<and>
     (\<forall>fd x. m fd = Some x \<longrightarrow> fd \<noteq> INVALID_SOCKET \<and> (\<exists>a. fds a = Some fd))"

definition wakeup_ok :: "socket_server \<Rightarrow> bool" where
  "wakeup_ok ss \<longleftrightarrow>
     (\<exists>g. disps ss (signal_wakeup ss) = Some (Sig g) \<and> sg_afd0 g \<noteq> INVALID_SOCKET \<and> sg_pipe g = (if sg_fSignaled g then [0] else [])) \<and>
     (\<forall>a g. disps ss a = Some (Sig g) \<longrightarrow> a = signal_wakeup ss)"

text \<open>\<open>p\<close> is the socket whose batch of changes is open, if there is one.\<close>

definition ss_inv :: "nat option \<Rightarrow> socket_server \<Rightarrow> bool" where
  "ss_inv p ss \<longleftrightarrow> tables_ok ss \<and> fds_ok (fd_of ss) (key_by_dispatcher ss) \<and> wakeup_ok ss \<and>
     (epoll_fd ss \<noteq> INVALID_SOCKET \<longrightarrow> interest_ok (interest (calls ss)) (fd_of ss) (told_of ss) (key_by_dispatcher ss)) \<and>
     (\<forall>a s. disps ss a = Some (Sock s) \<longrightarrow> sock_ok s \<and> (p \<noteq> Some a \<longleftrightarrow> sk_saved_enabled_events s = -1))"

lemma word_of_saved: "0 \<le> x \<Longrightarrow> x < 256 \<Longrightarrow> uint (word_of_int x :: byte) = x"
  by (simp add: unsigned_of_int take_bit_int_eq_self)

text \<open>Changes of a socket that keep its descriptor and what the kernel was told.\<close>

lemma put_sock_simps [simp]:
  "epoll_fd (put_sock a s ss) = epoll_fd ss" "next_dispatcher_key (put_sock a s ss) = next_dispatcher_key ss"
  "dispatcher_by_key (put_sock a s ss) = dispatcher_by_key ss" "key_by_dispatcher (put_sock a s ss) = key_by_dispatcher ss"
  "signal_wakeup (put_sock a s ss) = signal_wakeup ss" "fWait (put_sock a s ss) = fWait ss" "disps (put_sock a s ss) = (disps ss)(a \<mapsto> Sock s)"
  "calls (put_sock a s ss) = calls ss" "signals (put_sock a s ss) = signals ss"
  "fd_of (put_sock a s ss) = (fd_of ss)(a \<mapsto> sk_s s)" "told_of (put_sock a s ss) = (told_of ss)(a \<mapsto> GetEpollEvents (told (Sock s)))"
  "made (put_sock a s ss) = made ss"
  by (auto simp: put_sock_def fd_of_def told_of_def)

lemma do_call_simps [simp]:
  "epoll_fd (do_call c ss) = epoll_fd ss" "next_dispatcher_key (do_call c ss) = next_dispatcher_key ss"
  "dispatcher_by_key (do_call c ss) = dispatcher_by_key ss" "key_by_dispatcher (do_call c ss) = key_by_dispatcher ss"
  "signal_wakeup (do_call c ss) = signal_wakeup ss" "fWait (do_call c ss) = fWait ss" "disps (do_call c ss) = disps ss"
  "calls (do_call c ss) = calls ss @ [c]" "signals (do_call c ss) = signals ss" "fd_of (do_call c ss) = fd_of ss" "told_of (do_call c ss) = told_of ss" "made (do_call c ss) = made ss"
  by (auto simp: do_call_def fd_of_def told_of_def)

lemma with_sock_simp [simp]: "disps ss a = Some (Sock s) \<Longrightarrow> with_sock a ss f = f s"
  by (simp add: with_sock_def)

lemma tables_cong:
  "tables_ok (put_sock a s ss) = tables_ok ss" "tables_ok (do_call c ss) = tables_ok ss"
  "wakeup_ok (do_call c ss) = wakeup_ok ss" "wakeup_ok ss \<Longrightarrow> a \<noteq> signal_wakeup ss \<Longrightarrow> wakeup_ok (put_sock a s ss)"
  by (auto simp: tables_ok_def wakeup_ok_def)

lemma sock_not_wakeup: "ss_inv p ss \<Longrightarrow> disps ss a = Some (Sock s) \<Longrightarrow> a \<noteq> signal_wakeup ss"
  by (auto simp: ss_inv_def wakeup_ok_def)

lemma interest_mod:
  assumes "interest_ok m fds tolds keys" "fds_ok fds keys" "fds a = Some fd" "keys a = Some k" "tolds a = Some e"
  shows "interest_ok (m(fd \<mapsto> (ev, k))) fds (tolds(a \<mapsto> ev)) keys" "m fd \<noteq> None"
proof -
  have "fd \<noteq> INVALID_SOCKET" using assms(2,3,4) unfolding fds_ok_def by force
  then show "interest_ok (m(fd \<mapsto> (ev, k))) fds (tolds(a \<mapsto> ev)) keys" using assms unfolding interest_ok_def fds_ok_def by auto
  show "m fd \<noteq> None" using assms(1,3,4,5) by (auto simp: interest_ok_def)
qed

lemma interest_unregistered: "interest_ok m fds tolds keys \<Longrightarrow> keys a = None \<Longrightarrow> interest_ok m fds (tolds(a \<mapsto> ev)) keys"
  unfolding interest_ok_def by auto

text \<open>Changes of a socket that keep its descriptor and what the kernel was told. \<open>batch p a p'\<close>: only the batch of \<open>a\<close> may have been opened or closed.\<close>

definition batch :: "nat option \<Rightarrow> nat \<Rightarrow> nat option \<Rightarrow> bool" where
  "batch p a p' \<longleftrightarrow> p' = p \<or> p \<in> {Some a, None} \<and> p' \<in> {Some a, None}"

lemma batch_refl [simp]: "batch p a p"
  by (simp add: batch_def)

lemma fd_of_same: "disps ss a = Some (Sock s) \<Longrightarrow> sk_s s' = sk_s s \<Longrightarrow> (fd_of ss)(a \<mapsto> sk_s s') = fd_of ss"
  by (auto simp: fd_of_def fun_eq_iff)

lemma keep_inv:
  assumes "ss_inv p ss" "disps ss a = Some (Sock s)"
    and "sk_s s' = sk_s s" "sock_ok s'" "GetEpollEvents (told (Sock s')) = GetEpollEvents (told (Sock s))"
    and "batch p a p'" "p' \<noteq> Some a \<longleftrightarrow> sk_saved_enabled_events s' = -1"
  shows "ss_inv p' (put_sock a s' ss)"
proof -
  have "fd_of (put_sock a s' ss) = fd_of ss" "told_of (put_sock a s' ss) = told_of ss"
    using assms(2,3,5) by (auto simp: fd_of_def told_of_def fun_eq_iff)
  then show ?thesis using assms(1,4,6,7) sock_not_wakeup [OF assms(1,2)]
    by (auto simp: ss_inv_def tables_cong batch_def simp del: put_sock_simps(10,11))
qed

lemma call_inv:
  assumes "ss_inv p ss" "epoll_effect c (interest (calls ss)) = interest (calls ss)"
  shows "ss_inv p (do_call c ss)"
  using assms by (simp add: ss_inv_def tables_cong)

text \<open>Changing the enabled events: the kernel is told unless a batch is open. \<open>more_calls\<close> is the state with further calls.\<close>

definition more_calls :: "syscall list \<Rightarrow> socket_server \<Rightarrow> socket_server" where
  "more_calls cs ss = ss\<lparr>calls := calls ss @ cs\<rparr>"

lemma more_calls_simps [simp]:
  "epoll_fd (more_calls cs ss) = epoll_fd ss" "next_dispatcher_key (more_calls cs ss) = next_dispatcher_key ss"
  "dispatcher_by_key (more_calls cs ss) = dispatcher_by_key ss" "key_by_dispatcher (more_calls cs ss) = key_by_dispatcher ss"
  "signal_wakeup (more_calls cs ss) = signal_wakeup ss" "fWait (more_calls cs ss) = fWait ss" "disps (more_calls cs ss) = disps ss"
  "calls (more_calls cs ss) = calls ss @ cs" "signals (more_calls cs ss) = signals ss" "fd_of (more_calls cs ss) = fd_of ss" "told_of (more_calls cs ss) = told_of ss"
  "tables_ok (more_calls cs ss) = tables_ok ss" "wakeup_ok (more_calls cs ss) = wakeup_ok ss" "more_calls [] ss = ss" "made (more_calls cs ss) = made ss"
  by (auto simp: more_calls_def fd_of_def told_of_def tables_ok_def wakeup_ok_def)

lemma do_call_more: "do_call c (put_sock a s ss) = put_sock a s (more_calls [c] ss)"
  by (simp add: do_call_def more_calls_def put_sock_def)

lemma maybe_update:
  assumes inv: "ss_inv p ss" and s: "disps ss a = Some (Sock s)" "sk_s s' = sk_s s" "sock_ok s'"
    and ev: "if sk_saved_enabled_events s' = -1 then GetEpollEvents (told (Sock s)) = GetEpollEvents (ucast old)
             else GetEpollEvents (told (Sock s')) = GetEpollEvents (told (Sock s))"
    and b: "batch p a p'" "p' \<noteq> Some a \<longleftrightarrow> sk_saved_enabled_events s' = -1"
  shows "\<exists>cs. MaybeUpdateDispatcher a old (put_sock a s' ss) = Inr (put_sock a s' (more_calls cs ss)) \<and> ss_inv p' (put_sock a s' (more_calls cs ss))"
proof (cases "GetEpollEvents (told (Sock s')) = GetEpollEvents (told (Sock s))")
  case True
  then have "MaybeUpdateDispatcher a old (put_sock a s' ss) = Inr (put_sock a s' ss)"
    using ev by (auto simp: MaybeUpdateDispatcher_def split: if_splits)
  then show ?thesis using keep_inv [OF inv s True b] by (intro exI [of _ "[]"]) simp
next
  case False
  then have c: "sk_saved_enabled_events s' = -1" "GetEpollEvents (told (Sock s)) = GetEpollEvents (ucast old)" using ev by (auto split: if_splits)
  then have ne: "GetEpollEvents (ucast (sk_enabled_events s')) \<noteq> GetEpollEvents (ucast old)" using False by simp
  have f: "fd_of ss a = Some (sk_s s)" "told_of ss a = Some (GetEpollEvents (told (Sock s)))" using s(1) by (simp_all add: fd_of_def told_of_def)
  have rest: "ss_inv p' (put_sock a s' (more_calls cs ss))"
    if "epoll_fd ss \<noteq> INVALID_SOCKET \<longrightarrow> interest_ok (interest (calls ss @ cs)) (fd_of ss) ((told_of ss)(a \<mapsto> GetEpollEvents (told (Sock s')))) (key_by_dispatcher ss)" for cs
    using inv s(3) b that sock_not_wakeup [OF inv s(1)] fd_of_same [OF s(1,2)] by (auto simp: ss_inv_def tables_cong batch_def)
  have inv': "fds_ok (fd_of ss) (key_by_dispatcher ss)"
    "epoll_fd ss \<noteq> INVALID_SOCKET \<longrightarrow> interest_ok (interest (calls ss)) (fd_of ss) (told_of ss) (key_by_dispatcher ss)" using inv by (simp_all add: ss_inv_def)
  show ?thesis
  proof (cases "epoll_fd ss = INVALID_SOCKET \<or> key_by_dispatcher ss a = None")
    case True
    then have "MaybeUpdateDispatcher a old (put_sock a s' ss) = Inr (put_sock a s' ss)" using ne c by (auto simp: MaybeUpdateDispatcher_def Update_def)
    moreover have "ss_inv p' (put_sock a s' (more_calls [] ss))"
      by (rule rest) (use True inv' interest_unregistered in auto)
    ultimately show ?thesis by (intro exI [of _ "[]"]) simp
  next
    case False
    then obtain k where k: "key_by_dispatcher ss a = Some k" and e: "epoll_fd ss \<noteq> INVALID_SOCKET" by auto
    let ?c = "Epoll_mod (sk_s s) (GetEpollEvents (told (Sock s'))) k"
    have fd: "sk_s s \<noteq> INVALID_SOCKET" using inv'(1) k f(1) unfolding fds_ok_def by force
    have "MaybeUpdateDispatcher a old (put_sock a s' ss) = Inr (put_sock a s' (more_calls [?c] ss))"
      using ne c e k fd s(2) by (simp add: MaybeUpdateDispatcher_def Update_def UpdateEpoll_def Let_def do_call_more)
    moreover have "ss_inv p' (put_sock a s' (more_calls [?c] ss))"
      by (rule rest) (use interest_mod [OF inv'(2) [rule_format, OF e] inv'(1) f(1) k f(2)] in \<open>auto simp del: told.simps\<close>)
    ultimately show ?thesis by blast
  qed
qed

lemma events_ok:
  assumes "ss_inv p ss" "disps ss a = Some (Sock s)" "sk_s s = INVALID_SOCKET \<longrightarrow> e = 0"
  shows "\<exists>cs. MaybeUpdateDispatcher a (sk_enabled_events s) (put_sock a (s\<lparr>sk_enabled_events := e\<rparr>) ss) =
      Inr (put_sock a (s\<lparr>sk_enabled_events := e\<rparr>) (more_calls cs ss)) \<and> ss_inv p (put_sock a (s\<lparr>sk_enabled_events := e\<rparr>) (more_calls cs ss))"
proof (rule maybe_update [OF assms(1,2)])
  have o: "sock_ok s" "p \<noteq> Some a \<longleftrightarrow> sk_saved_enabled_events s = -1" using assms(1,2) by (auto simp: ss_inv_def)
  then show "sock_ok (s\<lparr>sk_enabled_events := e\<rparr>)" using assms(3) by (auto simp: sock_ok_def)
  show "p \<noteq> Some a \<longleftrightarrow> sk_saved_enabled_events (s\<lparr>sk_enabled_events := e\<rparr>) = - 1" using o by simp
qed auto

lemma set_events_ok:
  assumes "ss_inv p ss" "disps ss a = Some (Sock s)" "sk_s s \<noteq> INVALID_SOCKET"
  shows "\<exists>cs e'. SocketDispatcher_EnableEvents a e ss = Inr (put_sock a (s\<lparr>sk_enabled_events := e'\<rparr>) (more_calls cs ss)) \<and>
      ss_inv p (put_sock a (s\<lparr>sk_enabled_events := e'\<rparr>) (more_calls cs ss))"
  using events_ok [OF assms(1,2), of "sk_enabled_events s OR e"] assms(2,3)
  by (auto simp: SocketDispatcher_EnableEvents_def PhysicalSocket_EnableEvents_def)

lemma reset_events_ok:
  assumes "ss_inv p ss" "disps ss a = Some (Sock s)"
  shows "\<exists>cs e'. SocketDispatcher_DisableEvents a e ss = Inr (put_sock a (s\<lparr>sk_enabled_events := e'\<rparr>) (more_calls cs ss)) \<and>
      ss_inv p (put_sock a (s\<lparr>sk_enabled_events := e'\<rparr>) (more_calls cs ss))"
    "\<exists>cs. SocketDispatcher_SetEnabledEvents a 0 ss = Inr (put_sock a (s\<lparr>sk_enabled_events := 0\<rparr>) (more_calls cs ss)) \<and>
      ss_inv p (put_sock a (s\<lparr>sk_enabled_events := 0\<rparr>) (more_calls cs ss))"
proof -
  have "sk_s s = INVALID_SOCKET \<longrightarrow> sk_enabled_events s = 0" using assms by (auto simp: ss_inv_def sock_ok_def)
  then show "\<exists>cs e'. SocketDispatcher_DisableEvents a e ss = Inr (put_sock a (s\<lparr>sk_enabled_events := e'\<rparr>) (more_calls cs ss)) \<and>
      ss_inv p (put_sock a (s\<lparr>sk_enabled_events := e'\<rparr>) (more_calls cs ss))"
    using events_ok [OF assms, of "sk_enabled_events s AND NOT e"] assms(2)
    by (auto simp: SocketDispatcher_DisableEvents_def PhysicalSocket_DisableEvents_def)
  show "\<exists>cs. SocketDispatcher_SetEnabledEvents a 0 ss = Inr (put_sock a (s\<lparr>sk_enabled_events := 0\<rparr>) (more_calls cs ss)) \<and>
      ss_inv p (put_sock a (s\<lparr>sk_enabled_events := 0\<rparr>) (more_calls cs ss))"
    using events_ok [OF assms, of 0] assms(2) by (auto simp: SocketDispatcher_SetEnabledEvents_def PhysicalSocket_SetEnabledEvents_def)
qed

subsection \<open>Closing\<close>

definition closed :: "int \<Rightarrow> socket \<Rightarrow> socket" where
  "closed errno s = s\<lparr>sk_s := INVALID_SOCKET, sk_error := errno, sk_state := CS_CLOSED, sk_resolver := None, sk_enabled_events := 0,
     sk_saved_enabled_events := (if sk_saved_enabled_events s = -1 then -1 else 0)\<rparr>"

definition drop_key :: "nat \<Rightarrow> 64 word \<Rightarrow> socket_server \<Rightarrow> socket_server" where
  "drop_key a k ss = ss\<lparr>key_by_dispatcher := (key_by_dispatcher ss)(a := None), dispatcher_by_key := (dispatcher_by_key ss)(k := None)\<rparr>"

lemma drop_key_simps [simp]:
  "epoll_fd (drop_key a k ss) = epoll_fd ss" "next_dispatcher_key (drop_key a k ss) = next_dispatcher_key ss"
  "dispatcher_by_key (drop_key a k ss) = (dispatcher_by_key ss)(k := None)" "key_by_dispatcher (drop_key a k ss) = (key_by_dispatcher ss)(a := None)"
  "signal_wakeup (drop_key a k ss) = signal_wakeup ss" "fWait (drop_key a k ss) = fWait ss" "disps (drop_key a k ss) = disps ss"
  "calls (drop_key a k ss) = calls ss" "signals (drop_key a k ss) = signals ss" "fd_of (drop_key a k ss) = fd_of ss" "told_of (drop_key a k ss) = told_of ss"
  "wakeup_ok (drop_key a k ss) = wakeup_ok ss" "made (drop_key a k ss) = made ss"
  by (auto simp: drop_key_def fd_of_def told_of_def wakeup_ok_def)

lemma tables_drop: "tables_ok ss \<Longrightarrow> key_by_dispatcher ss a = Some k \<Longrightarrow> tables_ok (drop_key a k ss)"
  by (simp add: tables_ok_def) (metis option.inject)

lemma fds_close: "fds_ok fds keys \<Longrightarrow> fds_ok (fds(a \<mapsto> INVALID_SOCKET)) (keys(a := None))"
  by (auto simp: fds_ok_def)

lemma interest_close:
  assumes "interest_ok m fds tolds keys" "fds_ok fds keys" "fds a = Some fd" "fd \<noteq> INVALID_SOCKET"
  shows "interest_ok (m(fd := None)) (fds(a \<mapsto> INVALID_SOCKET)) (tolds(a \<mapsto> x)) (keys(a := None))"
  using assms unfolding interest_ok_def fds_ok_def by (auto split: if_splits) (metis option.inject)+

lemma Close_eq:
  assumes s: "disps ss a = Some (Sock s)" "sk_s s \<noteq> INVALID_SOCKET" and k: "key_by_dispatcher ss a = Some k"
  shows "SocketDispatcher_Close a ans ss = Inr (fst ans, put_sock a (closed (snd ans) s)
    (more_calls ((if epoll_fd ss = INVALID_SOCKET then [] else [Epoll_del (sk_s s)]) @ [Sys_close (sk_s s)] @
       (case sk_resolver s of None \<Rightarrow> [] | Some r \<Rightarrow> [Resolver_destroy r])) (drop_key a k ss)))"
proof -
  have "MaybeUpdateDispatcher a e ss' = Inr ss'" if "key_by_dispatcher ss' a = None" "disps ss' a = Some (Sock s')" for e s' ss'
    using that by (simp add: MaybeUpdateDispatcher_def Update_def)
  then show ?thesis using assms
    by (cases ss; cases s) (auto simp: SocketDispatcher_Close_def Remove_def Let_def PhysicalSocket_Close_def UpdateLastError_def PhysicalSocket_SetError_def
      SocketDispatcher_SetEnabledEvents_def RemoveEpoll_def PhysicalSocket_SetEnabledEvents_def with_sock_def
      put_sock_def do_call_def more_calls_def drop_key_def closed_def split: option.split)
qed

lemma GetEpollEvents_0 [simp]: "GetEpollEvents 0 = 0"
  by (simp add: GetEpollEvents_def)

lemma registered:
  assumes "ss_inv p ss" "disps ss a = Some (Sock s)" "sk_s s \<noteq> INVALID_SOCKET"
  shows "\<exists>k. key_by_dispatcher ss a = Some k"
  using assms unfolding ss_inv_def fds_ok_def fd_of_def by auto

lemma inv_sock: "ss_inv p ss \<Longrightarrow> disps ss a = Some (Sock s) \<Longrightarrow> sock_ok s \<and> (p \<noteq> Some a \<longleftrightarrow> sk_saved_enabled_events s = -1)"
  unfolding ss_inv_def by blast

lemma unregistered:
  assumes "ss_inv p ss" "fd_of ss a = None \<or> fd_of ss a = Some INVALID_SOCKET"
  shows "key_by_dispatcher ss a = None"
proof -
  have "key_by_dispatcher ss a \<noteq> None \<longleftrightarrow> (\<exists>fd. fd_of ss a = Some fd \<and> fd \<noteq> INVALID_SOCKET)" using assms(1) unfolding ss_inv_def fds_ok_def by blast
  then show ?thesis using assms(2) by auto
qed

text \<open>Calls that the interest set does not depend on.\<close>

fun harmless :: "syscall \<Rightarrow> bool" where
  "harmless (Epoll_add _ _ _) = False"
| "harmless (Epoll_mod _ _ _) = False"
| "harmless (Epoll_del _) = False"
| "harmless (Sys_close _) = False"
| "harmless _ = True"

lemma interest_harmless: "harmless c \<Longrightarrow> epoll_effect c m = m"
  by (cases c) auto

lemma Close_ok:
  assumes inv: "ss_inv p ss" and s: "disps ss a = Some (Sock s)" "sk_s s \<noteq> INVALID_SOCKET"
  shows "\<exists>k cs. key_by_dispatcher ss a = Some k \<and>
    SocketDispatcher_Close a ans ss = Inr (fst ans, put_sock a (closed (snd ans) s) (more_calls cs (drop_key a k ss))) \<and>
    ss_inv p (put_sock a (closed (snd ans) s) (more_calls cs (drop_key a k ss)))"
proof -
  obtain k where k: "key_by_dispatcher ss a = Some k" using registered [OF assms] by blast
  let ?cs = "(if epoll_fd ss = INVALID_SOCKET then [] else [Epoll_del (sk_s s)]) @ [Sys_close (sk_s s)] @ (case sk_resolver s of None \<Rightarrow> [] | Some r \<Rightarrow> [Resolver_destroy r])"
  let ?s = "closed (snd ans) s"
  have f: "fd_of ss a = Some (sk_s s)" using s(1) by (simp add: fd_of_def)
  have i: "interest (calls ss @ ?cs) = (interest (calls ss))(sk_s s := None)" by (auto simp: interest_def split: option.split)
  have "ss_inv p (put_sock a ?s (more_calls ?cs (drop_key a k ss)))"
    unfolding ss_inv_def
  proof (intro conjI)
    show "tables_ok (put_sock a ?s (more_calls ?cs (drop_key a k ss)))" using inv k by (simp add: ss_inv_def tables_cong tables_drop)
    show "fds_ok (fd_of (put_sock a ?s (more_calls ?cs (drop_key a k ss)))) (key_by_dispatcher (put_sock a ?s (more_calls ?cs (drop_key a k ss))))"
      using inv by (simp add: ss_inv_def fds_close closed_def)
    show "wakeup_ok (put_sock a ?s (more_calls ?cs (drop_key a k ss)))" using inv sock_not_wakeup [OF inv s(1)] by (intro tables_cong(4)) (auto simp: ss_inv_def)
    have "sk_s ?s = INVALID_SOCKET" by (simp add: closed_def)
    then show "epoll_fd (put_sock a ?s (more_calls ?cs (drop_key a k ss))) \<noteq> INVALID_SOCKET \<longrightarrow>
        interest_ok (interest (calls (put_sock a ?s (more_calls ?cs (drop_key a k ss))))) (fd_of (put_sock a ?s (more_calls ?cs (drop_key a k ss))))
          (told_of (put_sock a ?s (more_calls ?cs (drop_key a k ss)))) (key_by_dispatcher (put_sock a ?s (more_calls ?cs (drop_key a k ss))))"
      using inv interest_close [where fds = "fd_of ss" and a = a and fd = "sk_s s", OF _ _ f s(2)] i by (auto simp: ss_inv_def simp del: told.simps)
    show "\<forall>b t. disps (put_sock a ?s (more_calls ?cs (drop_key a k ss))) b = Some (Sock t) \<longrightarrow> sock_ok t \<and> (p \<noteq> Some b \<longleftrightarrow> sk_saved_enabled_events t = - 1)"
      using inv s(1) by (auto simp: ss_inv_def sock_ok_def closed_def split: if_splits)
  qed
  then show ?thesis using Close_eq [OF s k] k by blast
qed

subsection \<open>Adding\<close>

definition add_key :: "nat \<Rightarrow> socket_server \<Rightarrow> socket_server" where
  "add_key a ss = ss\<lparr>next_dispatcher_key := next_dispatcher_key ss + 1, dispatcher_by_key := (dispatcher_by_key ss)(next_dispatcher_key ss \<mapsto> a),
     key_by_dispatcher := (key_by_dispatcher ss)(a \<mapsto> next_dispatcher_key ss)\<rparr>"

lemma add_key_simps [simp]:
  "epoll_fd (add_key a ss) = epoll_fd ss" "next_dispatcher_key (add_key a ss) = next_dispatcher_key ss + 1"
  "dispatcher_by_key (add_key a ss) = (dispatcher_by_key ss)(next_dispatcher_key ss \<mapsto> a)"
  "key_by_dispatcher (add_key a ss) = (key_by_dispatcher ss)(a \<mapsto> next_dispatcher_key ss)"
  "signal_wakeup (add_key a ss) = signal_wakeup ss" "fWait (add_key a ss) = fWait ss" "disps (add_key a ss) = disps ss"
  "calls (add_key a ss) = calls ss" "signals (add_key a ss) = signals ss" "fd_of (add_key a ss) = fd_of ss" "told_of (add_key a ss) = told_of ss"
  "wakeup_ok (add_key a ss) = wakeup_ok ss" "made (add_key a ss) = made ss"
  by (auto simp: add_key_def fd_of_def told_of_def wakeup_ok_def)

lemma next_key_less:
  assumes "unat (n :: 64 word) + 1 < 2 ^ 64"
  shows "unat (n + 1) = unat n + 1" "n < n + 1" "k < n \<Longrightarrow> k < n + 1"
proof -
  have "n + 1 \<noteq> 0"
  proof
    assume "n + 1 = 0"
    then have "n = -1" by (simp add: add_eq_0_iff2)
    then show False using assms by (simp add: unsigned_minus_1_eq_mask mask_eq_exp_minus_1)
  qed
  then show u: "unat (n + 1) = unat n + 1" using unatSuc [of n] by (simp add: add.commute)
  show "n < n + 1" "k < n \<Longrightarrow> k < n + 1" using u by (simp_all add: word_less_nat_alt)
qed

lemma tables_add:
  assumes "tables_ok ss" "key_by_dispatcher ss a = None" "unat (next_dispatcher_key ss) + 1 < 2 ^ 64"
  shows "tables_ok (add_key a ss)" "dispatcher_by_key ss (next_dispatcher_key ss) = None"
proof -
  have n: "dispatcher_by_key ss (next_dispatcher_key ss) = None" using assms(1) by (cases "dispatcher_by_key ss (next_dispatcher_key ss)") (auto simp: tables_ok_def)
  then show "dispatcher_by_key ss (next_dispatcher_key ss) = None" .
  have "key_by_dispatcher ss b \<noteq> Some (next_dispatcher_key ss)" "dispatcher_by_key ss k \<noteq> Some a" for b k
    using assms(1,2) n by (auto simp: tables_ok_def) (metis option.distinct(1))+
  then show "tables_ok (add_key a ss)" using assms(1) next_key_less [OF assms(3)] n by (auto simp: tables_ok_def)
qed

lemma fds_add:
  assumes "fds_ok fds keys" "fd \<notin> ran fds" "fd \<noteq> INVALID_SOCKET"
  shows "fds_ok (fds(a \<mapsto> fd)) (keys(a \<mapsto> k))"
  using assms unfolding fds_ok_def ran_def by auto

lemma interest_add:
  assumes "interest_ok m fds tolds keys" "fd \<notin> ran fds" "fd \<noteq> INVALID_SOCKET" "fds a = None \<or> fds a = Some INVALID_SOCKET"
  shows "interest_ok (m(fd \<mapsto> (ev, k))) (fds(a \<mapsto> fd)) (tolds(a \<mapsto> ev)) (keys(a \<mapsto> k))" "m fd = None"
proof -
  show n: "m fd = None" using assms(1,2) unfolding interest_ok_def ran_def by (metis (mono_tags, lifting) mem_Collect_eq not_None_eq)
  show "interest_ok (m(fd \<mapsto> (ev, k))) (fds(a \<mapsto> fd)) (tolds(a \<mapsto> ev)) (keys(a \<mapsto> k))"
    using assms unfolding interest_ok_def ran_def by (auto split: if_splits) (metis option.distinct(1) option.inject)+
qed

lemma Add_ok:
  assumes inv: "ss_inv p ss" and old: "disps ss a = None \<or> (\<exists>s. disps ss a = Some (Sock s) \<and> sk_s s = INVALID_SOCKET)"
    and s: "sk_s s \<noteq> INVALID_SOCKET" "sk_s s \<notin> ran (fd_of ss)" "sock_ok s" "GetEpollEvents (told (Sock s)) = GetEpollEvents (ucast (sk_enabled_events s))"
      "p \<noteq> Some a \<longleftrightarrow> sk_saved_enabled_events s = -1"
    and room: "unat (next_dispatcher_key ss) + 1 < 2 ^ 64" and cs: "list_all harmless cs"
  shows "\<exists>cs'. Add a (put_sock a s (more_calls cs ss)) = Inr (put_sock a s (more_calls cs' (add_key a ss))) \<and>
    ss_inv p (put_sock a s (more_calls cs' (add_key a ss)))"
proof -
  have w: "a \<noteq> signal_wakeup ss" using inv old by (auto simp: ss_inv_def wakeup_ok_def)
  have f: "fd_of ss a = None \<or> fd_of ss a = Some INVALID_SOCKET" using old by (auto simp: fd_of_def)
  then have k: "key_by_dispatcher ss a = None" by (rule unregistered [OF inv])
  let ?c = "Epoll_add (sk_s s) (GetEpollEvents (ucast (sk_enabled_events s))) (next_dispatcher_key ss)"
  let ?cs = "cs @ (if epoll_fd ss = INVALID_SOCKET then [] else [?c])"
  have tab: "tables_ok ss" using inv by (simp add: ss_inv_def)
  have eq: "Add a (put_sock a s (more_calls cs ss)) = Inr (put_sock a s (more_calls ?cs (add_key a ss)))"
    using k s(1) tables_add(2) [OF tab k room]
    by (simp add: Add_def AddEpoll_def Let_def emplace_def put_sock_def more_calls_def add_key_def do_call_def)
  have h: "fold epoll_effect cs m = m" for m using cs by (induction cs) (simp_all add: interest_harmless)
  have "ss_inv p (put_sock a s (more_calls ?cs (add_key a ss)))"
    unfolding ss_inv_def
  proof (intro conjI)
    show "tables_ok (put_sock a s (more_calls ?cs (add_key a ss)))" using tables_add(1) [OF tab k room] by (simp add: tables_cong)
    show "fds_ok (fd_of (put_sock a s (more_calls ?cs (add_key a ss)))) (key_by_dispatcher (put_sock a s (more_calls ?cs (add_key a ss))))"
      using inv fds_add [OF _ s(2,1)] by (simp add: ss_inv_def)
    show "wakeup_ok (put_sock a s (more_calls ?cs (add_key a ss)))" using inv w by (intro tables_cong(4)) (auto simp: ss_inv_def)
    show "epoll_fd (put_sock a s (more_calls ?cs (add_key a ss))) \<noteq> INVALID_SOCKET \<longrightarrow>
        interest_ok (interest (calls (put_sock a s (more_calls ?cs (add_key a ss))))) (fd_of (put_sock a s (more_calls ?cs (add_key a ss))))
          (told_of (put_sock a s (more_calls ?cs (add_key a ss)))) (key_by_dispatcher (put_sock a s (more_calls ?cs (add_key a ss))))"
    proof
      assume "epoll_fd (put_sock a s (more_calls ?cs (add_key a ss))) \<noteq> INVALID_SOCKET"
      then have e: "epoll_fd ss \<noteq> INVALID_SOCKET" by simp
      then have i: "interest_ok (interest (calls ss)) (fd_of ss) (told_of ss) (key_by_dispatcher ss)" using inv by (simp add: ss_inv_def)
      have "interest (calls ss @ ?cs) = (interest (calls ss))(sk_s s \<mapsto> (GetEpollEvents (told (Sock s)), next_dispatcher_key ss))"
        using e h interest_add(2) [OF i s(2,1) f] by (simp add: interest_def s(4) del: told.simps)
      then show "interest_ok (interest (calls (put_sock a s (more_calls ?cs (add_key a ss))))) (fd_of (put_sock a s (more_calls ?cs (add_key a ss))))
          (told_of (put_sock a s (more_calls ?cs (add_key a ss)))) (key_by_dispatcher (put_sock a s (more_calls ?cs (add_key a ss))))"
        using interest_add(1) [OF i s(2,1) f] by (simp del: told.simps)
    qed
    show "\<forall>b t. disps (put_sock a s (more_calls ?cs (add_key a ss))) b = Some (Sock t) \<longrightarrow> sock_ok t \<and> (p \<noteq> Some b \<longleftrightarrow> sk_saved_enabled_events t = - 1)"
      using inv s(3,5) by (auto simp: ss_inv_def)
  qed
  then show ?thesis using eq by blast
qed

section \<open>Every operation keeps the invariant\<close>

text \<open>A key that was given out is never given to another dispatcher, nor to another socket at the same address.\<close>

definition keys_fresh :: "socket_server \<Rightarrow> socket_server \<Rightarrow> bool" where
  "keys_fresh ss ss' \<longleftrightarrow> next_dispatcher_key ss \<le> next_dispatcher_key ss' \<and>
     (\<forall>k a. k < next_dispatcher_key ss \<longrightarrow> dispatcher_by_key ss' k = Some a \<longrightarrow> dispatcher_by_key ss k = Some a \<and> made ss' a = made ss a)"

lemma keys_fresh_trans: "keys_fresh ss ss1 \<Longrightarrow> keys_fresh ss1 ss2 \<Longrightarrow> keys_fresh ss ss2"
  unfolding keys_fresh_def by (metis less_le_trans order_trans)

lemma keys_fresh_same [simp]: "next_dispatcher_key ss' = next_dispatcher_key ss \<Longrightarrow> dispatcher_by_key ss' = dispatcher_by_key ss \<Longrightarrow> made ss' = made ss \<Longrightarrow> keys_fresh ss ss'"
  by (simp add: keys_fresh_def)

lemma keys_fresh_close: "keys_fresh ss (put_sock a s (more_calls cs (drop_key a k ss)))"
  by (auto simp: keys_fresh_def)

text \<open>What an operation leaves as it was; \<open>x\<close> is the socket it deletes, if it does, and \<open>m\<close> the number of keys it may use.\<close>

definition kept :: "nat option \<Rightarrow> nat \<Rightarrow> socket_server \<Rightarrow> socket_server \<Rightarrow> bool" where
  "kept x m ss ss' \<longleftrightarrow>
     (\<forall>b s. disps ss b = Some (Sock s) \<longrightarrow> x \<noteq> Some b \<longrightarrow> (\<exists>s'. disps ss' b = Some (Sock s')) \<and> made ss' b = made ss b) \<and>
     unat (next_dispatcher_key ss') \<le> unat (next_dispatcher_key ss) + m \<and> keys_fresh ss ss' \<and> key_by_dispatcher ss' (signal_wakeup ss) = key_by_dispatcher ss (signal_wakeup ss) \<and> signals ss' = signals ss \<and> signal_wakeup ss' = signal_wakeup ss \<and>
     epoll_fd ss' = epoll_fd ss \<and> fWait ss' = fWait ss \<and> disps ss' (signal_wakeup ss) = disps ss (signal_wakeup ss)"

definition good :: "nat option \<Rightarrow> nat option \<Rightarrow> nat \<Rightarrow> socket_server \<Rightarrow> socket_server res \<Rightarrow> bool" where
  "good p x m ss r \<longleftrightarrow> (\<exists>ss'. r = Inr ss' \<and> ss_inv p ss' \<and> kept x m ss ss')"

lemma state_of_simps [simp]: "state_of (Inr (x, ss)) = Inr ss" "state_of (res_bind r (\<lambda>ss. Inr (x, ss))) = r"
  by (cases r; simp add: state_of_def)+

lemma put_put [simp]: "put_sock a s (put_sock a t ss) = put_sock a s ss" "put_sock a s (more_calls cs (put_sock a t ss)) = put_sock a s (more_calls cs ss)"
  by (simp_all add: put_sock_def more_calls_def)

lemma goodI:
  assumes "ss_inv p ss" "disps ss a = Some (Sock s)" "ss_inv p (put_sock a s' (more_calls cs ss))"
  shows "good p x m ss (Inr (put_sock a s' (more_calls cs ss)))"
  using assms sock_not_wakeup [OF assms(1,2)] by (auto simp: good_def kept_def)

lemma do_call_calls: "do_call c ss = more_calls [c] ss"
  by (simp add: do_call_def more_calls_def)

lemma calls_inv: "ss_inv p ss \<Longrightarrow> list_all harmless cs \<Longrightarrow> ss_inv p (more_calls cs ss)"
proof (induction cs arbitrary: ss)
  case (Cons c cs)
  then have "ss_inv p (more_calls cs (do_call c ss))" using call_inv interest_harmless by auto
  then show ?case by (simp add: more_calls_def do_call_def)
qed simp

text \<open>A change of the error code, the state or the resolver after harmless calls.\<close>

definition mild :: "socket \<Rightarrow> socket \<Rightarrow> bool" where
  "mild s s' \<longleftrightarrow> sk_s s' = sk_s s \<and> sk_udp s' = sk_udp s \<and> sk_enabled_events s' = sk_enabled_events s \<and> sk_saved_enabled_events s' = sk_saved_enabled_events s"

lemma mild_inv:
  assumes "ss_inv p ss" "disps ss a = Some (Sock s)" "mild s s'" "list_all harmless cs"
  shows "ss_inv p (put_sock a s' (more_calls cs ss))"
  using assms(2,3) calls_inv [OF assms(1,4)]
  by (intro keep_inv [where s = s and p = p]) (auto simp: mild_def ss_inv_def sock_ok_def)

lemma mild_good:
  assumes "ss_inv p ss" "disps ss a = Some (Sock s)" "mild s s'" "list_all harmless cs"
  shows "good p x m ss (Inr (put_sock a s' (more_calls cs ss)))"
  by (rule goodI [OF assms(1,2) mild_inv [OF assms]])

lemma enable_good:
  assumes "ss_inv p ss" "disps ss a = Some (Sock s)" "mild s s'" "list_all harmless cs" "sk_s s \<noteq> INVALID_SOCKET"
  shows "good p x m ss (SocketDispatcher_EnableEvents a e (put_sock a s' (more_calls cs ss)))"
proof -
  have "sk_s s' \<noteq> INVALID_SOCKET" using assms(3,5) by (simp add: mild_def)
  then obtain cs' e' where "SocketDispatcher_EnableEvents a e (put_sock a s' (more_calls cs ss)) =
      Inr (put_sock a (s'\<lparr>sk_enabled_events := e'\<rparr>) (more_calls cs' (put_sock a s' (more_calls cs ss))))"
      "ss_inv p (put_sock a (s'\<lparr>sk_enabled_events := e'\<rparr>) (more_calls cs' (put_sock a s' (more_calls cs ss))))"
    using set_events_ok [OF mild_inv [OF assms(1-4)], of a s' e] by auto
  moreover have "more_calls cs' (more_calls cs ss) = more_calls (cs @ cs') ss" by (simp add: more_calls_def)
  ultimately show ?thesis using goodI [OF assms(1,2)] by simp
qed

lemma fresh_live: "disps ss n = None \<Longrightarrow> disps ss a = Some (Sock s) \<Longrightarrow> a \<noteq> n"
  by auto

definition created :: "int \<Rightarrow> int \<Rightarrow> int \<times> int \<Rightarrow> socket \<Rightarrow> socket" where
  "created family type ans s = s\<lparr>sk_s := fst ans, sk_udp := Some (SOCK_DGRAM = type), sk_family := family, sk_error := snd ans,
     sk_enabled_events := (if SOCK_DGRAM = type then DE_READ OR DE_WRITE else sk_enabled_events s)\<rparr>"

lemma Create_eq:
  assumes "disps ss a = Some (Sock s)" "sk_s s = INVALID_SOCKET" "key_by_dispatcher ss a = None"
  shows "SocketDispatcher_Create a family type close_ans ans ss =
    (if fst ans = INVALID_SOCKET then Inr (False, put_sock a (created family type ans s) (more_calls [Sys_socket family type] ss))
     else res_bind (Add a (put_sock a (created family type ans s) (more_calls [Sys_socket family type, Sys_nonblock (fst ans)] ss))) (\<lambda>ss. Inr (True, ss)))"
proof -
  have "MaybeUpdateDispatcher a e ss' = Inr ss'" if "key_by_dispatcher ss' a = None" "disps ss' a = Some (Sock s')" for e s' ss'
    using that by (simp add: MaybeUpdateDispatcher_def Update_def)
  then show ?thesis using assms
    by (cases ss; cases s) (auto simp: SocketDispatcher_Create_def PhysicalSocket_Create_def SocketDispatcher_Close_def Let_def UpdateLastError_def PhysicalSocket_SetError_def
      SocketDispatcher_Initialize_def SocketDispatcher_SetEnabledEvents_def PhysicalSocket_SetEnabledEvents_def with_sock_def
      put_sock_def do_call_def more_calls_def created_def res_bind_def split: sum.split)
qed

lemma kept_trans: "kept None m ss ss1 \<Longrightarrow> kept None n ss1 ss2 \<Longrightarrow> kept None (m + n) ss ss2"
  unfolding kept_def by (auto intro: keys_fresh_trans)

lemma good_trans:
  assumes "ss_inv p ss1" "kept None m ss ss1" "good p None n ss1 r"
  shows "good p None (m + n) ss r"
  using assms kept_trans unfolding good_def by blast

lemma UpdateLastError_eq [simp]:
  "disps ss a = Some (Sock s) \<Longrightarrow> UpdateLastError a e (do_call c ss) = Inr (put_sock a (s\<lparr>sk_error := e\<rparr>) (more_calls [c] ss))"
  by (simp add: UpdateLastError_def PhysicalSocket_SetError_def do_call_calls)

lemma mildI [simp]: "mild s (s\<lparr>sk_error := e\<rparr>)" "mild s (s\<lparr>sk_error := e, sk_state := st\<rparr>)" "mild s (s\<lparr>sk_resolver := r, sk_state := st\<rparr>)" "mild s s"
  by (simp_all add: mild_def)

lemma SetError_good: "ss_inv p ss \<Longrightarrow> disps ss a = Some (Sock s) \<Longrightarrow> good p x m ss (PhysicalSocket_SetError a e ss)"
  using mild_good [of p ss a s "s\<lparr>sk_error := e\<rparr>" "[]"] by (simp add: PhysicalSocket_SetError_def)

lemma call_good: "ss_inv p ss \<Longrightarrow> list_all harmless cs \<Longrightarrow> good p x m ss (Inr (more_calls cs ss))"
  using calls_inv by (auto simp: good_def kept_def)

lemma Bind_good:
  assumes "ss_inv p ss" "disps ss a = Some (Sock s)"
  shows "good p x m ss (state_of (PhysicalSocket_Bind a addr binder ans ss))"
  using assms mild_good [OF assms, of "s\<lparr>sk_error := snd ans\<rparr>"] call_good [OF assms(1), of "[]"]
  by (auto simp: PhysicalSocket_Bind_def Let_def split: option.splits prod.splits)

lemma SetOption_good:
  assumes "ss_inv p ss" "disps ss a = Some (Sock s)" "opt = OPT_DSCP \<longrightarrow> 0 \<le> value \<and> value * 4 < 2 ^ 32"
  shows "good p x m ss (state_of (PhysicalSocket_SetOption a opt value ans ss))"
proof -
  have u: "UpdateLastError a e (more_calls cs ss) = Inr (put_sock a (s\<lparr>sk_error := e\<rparr>) (more_calls cs ss))" for e cs
    using assms(2) by (simp add: UpdateLastError_def PhysicalSocket_SetError_def)
  have c: "do_call c (more_calls cs ss) = more_calls (cs @ [c]) ss" for c cs by (simp add: do_call_def more_calls_def)
  show ?thesis
  proof (cases "TranslateOption (sk_family s) opt")
    case None
    then show ?thesis using assms(2) call_good [OF assms(1), of "[]"] by (simp add: PhysicalSocket_SetOption_def)
  next
    case (Some lo)
    obtain slevel sopt where lo: "lo = (slevel, sopt)" by (cases lo)
    define v where "v = (if opt = OPT_DONTFRAGMENT then (if value \<noteq> 0 then 2 else 0) else if opt = OPT_DSCP then i32 (value * 4) else value)"
    define cs where "cs = (if sopt = 67 then [Sys_setsockopt (sk_s s) 0 1 v] else []) @ [Sys_setsockopt (sk_s s) slevel sopt v]"
    have "(if sopt = 67 then do_call (Sys_setsockopt (sk_s s) 0 1 v) ss else ss) = more_calls (if sopt = 67 then [Sys_setsockopt (sk_s s) 0 1 v] else []) ss"
      by (simp add: do_call_calls)
    moreover have "\<not> (opt = OPT_DSCP \<and> (value < 0 \<or> value * 4 \<ge> 2 ^ 32))" using assms(3) by auto
    ultimately have "PhysicalSocket_SetOption a opt value ans ss =
      (if fst ans \<noteq> 0 then res_bind (UpdateLastError a (snd ans) (more_calls cs ss)) (\<lambda>ss. Inr (fst ans, ss)) else Inr (fst ans, more_calls cs ss))"
      using assms(2) unfolding PhysicalSocket_SetOption_def by (simp only: with_sock_simp Some lo option.case prod.case if_False Let_def c cs_def flip: v_def)
    moreover have "list_all harmless cs" by (simp add: cs_def)
    ultimately show ?thesis using mild_good [OF assms(1,2), of "s\<lparr>sk_error := snd ans\<rparr>" cs] call_good [OF assms(1), of cs] u by simp
  qed
qed

lemma Send_good:
  assumes "ss_inv p ss" "disps ss a = Some (Sock s)" "sk_s s \<noteq> INVALID_SOCKET"
  shows "good p x m ss (state_of (PhysicalSocket_Send a pv ans ss))" "good p x m ss (state_of (PhysicalSocket_SendTo a pv addr ans ss))"
  using assms mild_good [OF assms(1,2), of "s\<lparr>sk_error := snd ans\<rparr>"] enable_good [OF assms(1,2), of "s\<lparr>sk_error := snd ans\<rparr>"]
  by (auto simp: PhysicalSocket_Send_def PhysicalSocket_SendTo_def Let_def split: prod.splits)

lemma udp_known: "ss_inv p ss \<Longrightarrow> disps ss a = Some (Sock s) \<Longrightarrow> \<exists>udp. sk_udp s = Some udp"
  unfolding ss_inv_def sock_ok_def by blast

lemma Recv_good:
  assumes "ss_inv p ss" "disps ss a = Some (Sock s)" "sk_s s \<noteq> INVALID_SOCKET"
  shows "good p x m ss (state_of (PhysicalSocket_RecvFrom a len ans storage out_addr timestamp ss))"
proof -
  obtain udp where "sk_udp s = Some udp" using udp_known [OF assms(1,2)] by blast
  then show ?thesis
    using assms mild_good [OF assms(1,2), of "s\<lparr>sk_error := errno_after (snd ans) timestamp\<rparr>"] enable_good [OF assms(1,2), of "s\<lparr>sk_error := errno_after (snd ans) timestamp\<rparr>"]
    by (auto simp: PhysicalSocket_RecvFrom_def Let_def)
qed

lemma Listen_good:
  assumes "ss_inv p ss" "disps ss a = Some (Sock s)" "sk_s s \<noteq> INVALID_SOCKET"
  shows "good p x m ss (state_of (PhysicalSocket_Listen a backlog ans ss))"
  using assms mild_good [OF assms(1,2), of "s\<lparr>sk_error := snd ans\<rparr>"] enable_good [OF assms(1,2), of "s\<lparr>sk_error := snd ans, sk_state := CS_CONNECTING\<rparr>"]
  by (auto simp: PhysicalSocket_Listen_def Let_def)

lemma good_bind:
  assumes "good p None m ss r" "\<And>ss'. r = Inr ss' \<Longrightarrow> ss_inv p ss' \<Longrightarrow> kept None m ss ss' \<Longrightarrow> good p None n ss' (f ss')"
  shows "good p None (m + n) ss (res_bind r f)"
  using assms good_trans unfolding good_def by (metis res_bind_simps(2))

lemma state_of_bind: "state_of (res_bind r f) = res_bind r (\<lambda>x. state_of (f x))"
  by (cases r) (simp_all add: state_of_def)

lemma kept_live: "kept None m ss ss' \<Longrightarrow> disps ss a = Some (Sock s) \<Longrightarrow> \<exists>s'. disps ss' a = Some (Sock s')"
  by (auto simp: kept_def)

lemma Recv_stream_good:
  assumes "ss_inv p ss" "disps ss a = Some (Sock s)" "sk_s s \<noteq> INVALID_SOCKET"
  shows "good p None 0 ss (state_of (PhysicalSocket_Recv a len ans timestamp ss))"
proof (cases "fst ans = 0 \<and> len \<noteq> 0")
  case False
  obtain udp where "sk_udp s = Some udp" using udp_known [OF assms(1,2)] by blast
  then show ?thesis
    using assms mild_good [OF assms(1,2), of "s\<lparr>sk_error := errno_after (snd ans) timestamp\<rparr>"] enable_good [OF assms(1,2), of "s\<lparr>sk_error := errno_after (snd ans) timestamp\<rparr>"] False
    by (auto simp: PhysicalSocket_Recv_def Let_def)
next
  case True
  let ?ss = "put_sock a s (more_calls [Sys_recv (sk_s s) (i32 len)] ss)"
  have ss: "do_call (Sys_recv (sk_s s) (i32 len)) ss = ?ss" using assms(2) by (simp add: do_call_calls) (simp add: put_sock_def more_calls_def fun_upd_idem)
  have "good p None (0 + 0) ss (res_bind (SocketDispatcher_EnableEvents a DE_READ ?ss) (PhysicalSocket_SetError a EAGAIN))"
  proof (rule good_bind)
    show "good p None 0 ss (SocketDispatcher_EnableEvents a DE_READ ?ss)" using enable_good [OF assms(1,2) mildI(4), of "[Sys_recv (sk_s s) (i32 len)]"] assms(3) by simp
  next
    fix ss' assume "ss_inv p ss'" "kept None 0 ss ss'"
    then show "good p None 0 ss' (PhysicalSocket_SetError a EAGAIN ss')" using kept_live [OF _ assms(2)] SetError_good by blast
  qed
  then show ?thesis using True assms(2) by (simp add: PhysicalSocket_Recv_def ss state_of_bind)
qed

lemma Close_good:
  assumes "ss_inv p ss" "disps ss a = Some (Sock s)"
  shows "good p x m ss (state_of (SocketDispatcher_Close a ans ss))"
proof (cases "sk_s s = INVALID_SOCKET")
  case True
  then show ?thesis using assms call_good [OF assms(1), of "[]"] by (simp add: SocketDispatcher_Close_def)
next
  case False
  show ?thesis using Close_ok [OF assms False, of ans] sock_not_wakeup [OF assms] assms(2)
    by (auto simp: good_def kept_def keys_fresh_close)
qed

text \<open>A socket without descriptor leaves the heap.\<close>

lemma erase_good:
  assumes inv: "ss_inv p ss" and s: "disps ss a = Some (Sock s)" "sk_s s = INVALID_SOCKET"
  shows "good p (Some a) 0 ss (Inr (ss\<lparr>disps := (disps ss)(a := None)\<rparr>))"
proof -
  let ?ss = "ss\<lparr>disps := (disps ss)(a := None)\<rparr>"
  have w: "a \<noteq> signal_wakeup ss" by (rule sock_not_wakeup [OF inv s(1)])
  have f: "fd_of ?ss = (fd_of ss)(a := None)" "told_of ?ss = (told_of ss)(a := None)" by (auto simp: fd_of_def told_of_def)
  have fa: "fd_of ss a = Some INVALID_SOCKET" using s by (simp add: fd_of_def)
  have "fds_ok ((fd_of ss)(a := None)) (key_by_dispatcher ss)"
    using inv fa unfolding ss_inv_def fds_ok_def by auto
  moreover have "interest_ok m ((fd_of ss)(a := None)) ((told_of ss)(a := None)) (key_by_dispatcher ss)"
    if "interest_ok m (fd_of ss) (told_of ss) (key_by_dispatcher ss)" for m
    using that fa unfolding interest_ok_def by auto (metis option.inject)
  moreover have "tables_ok ?ss" "wakeup_ok ?ss" using inv w by (auto simp: ss_inv_def tables_ok_def wakeup_ok_def)
  ultimately have "ss_inv p ?ss" using inv f by (simp add: ss_inv_def)
  then show ?thesis using w by (auto simp: good_def kept_def)
qed

lemma delete_good:
  assumes "ss_inv p ss" "disps ss a = Some (Sock s)"
  shows "good p (Some a) 0 ss (SocketDispatcher_delete a ans ss)"
proof (cases "sk_s s = INVALID_SOCKET")
  case True
  then show ?thesis using assms erase_good [OF assms True] by (simp add: SocketDispatcher_delete_def SocketDispatcher_Close_def PhysicalSocket_Close_def)
next
  case False
  obtain k cs where c: "SocketDispatcher_Close a ans ss = Inr (fst ans, put_sock a (closed (snd ans) s) (more_calls cs (drop_key a k ss)))"
    "ss_inv p (put_sock a (closed (snd ans) s) (more_calls cs (drop_key a k ss)))" using Close_ok [OF assms False] by blast
  let ?ss = "put_sock a (closed (snd ans) s) (more_calls cs (drop_key a k ss))"
  have i: "sk_s (closed (snd ans) s) = INVALID_SOCKET" by (simp add: closed_def)
  have "good p (Some a) 0 ?ss (SocketDispatcher_delete a ans ss)"
    using erase_good [where a = a, OF c(2) _ i] c(1) i by (simp add: SocketDispatcher_delete_def PhysicalSocket_Close_def)
  then show ?thesis using sock_not_wakeup [OF assms] by (auto simp: good_def kept_def intro: keys_fresh_trans [OF keys_fresh_close])
qed

text \<open>The kernel returns no descriptor that is in use.\<close>

definition fresh_fd :: "int \<Rightarrow> socket_server \<Rightarrow> bool" where
  "fresh_fd fd ss \<longleftrightarrow> fd = INVALID_SOCKET \<or> fd \<notin> ran (fd_of ss)"

abbreviation room :: "socket_server \<Rightarrow> bool" where
  "room ss \<equiv> unat (next_dispatcher_key ss) + 1 < 2 ^ 64"

lemma added_kept:
  assumes "ss_inv p ss" "disps ss a = None \<or> (\<exists>s. disps ss a = Some (Sock s))" "room ss"
  shows "kept None 1 ss (put_sock a s (more_calls cs (add_key a ss)))"
proof -
  have "a \<noteq> signal_wakeup ss" using assms(1,2) by (auto simp: ss_inv_def wakeup_ok_def)
  then show ?thesis using next_key_less(1,2) [OF assms(3)] by (auto simp: kept_def keys_fresh_def less_imp_le)
qed

lemma alloc_simps [simp]:
  "epoll_fd (alloc_sock n ss) = epoll_fd ss" "next_dispatcher_key (alloc_sock n ss) = next_dispatcher_key ss"
  "dispatcher_by_key (alloc_sock n ss) = dispatcher_by_key ss" "key_by_dispatcher (alloc_sock n ss) = key_by_dispatcher ss"
  "signal_wakeup (alloc_sock n ss) = signal_wakeup ss" "fWait (alloc_sock n ss) = fWait ss" "disps (alloc_sock n ss) = disps ss"
  "calls (alloc_sock n ss) = calls ss" "signals (alloc_sock n ss) = signals ss" "fd_of (alloc_sock n ss) = fd_of ss" "told_of (alloc_sock n ss) = told_of ss"
  "made (alloc_sock n ss) = (made ss)(n := made ss n + 1)" "ss_inv p (alloc_sock n ss) = ss_inv p ss" "fresh_fd fd (alloc_sock n ss) = fresh_fd fd ss"
proof -
  show f: "fd_of (alloc_sock n ss) = fd_of ss" "told_of (alloc_sock n ss) = told_of ss" by (auto simp: alloc_sock_def fd_of_def told_of_def)
  then show "ss_inv p (alloc_sock n ss) = ss_inv p ss" by (simp add: ss_inv_def tables_ok_def wakeup_ok_def) (simp add: alloc_sock_def)
  show "fresh_fd fd (alloc_sock n ss) = fresh_fd fd ss" using f by (simp add: fresh_fd_def)
qed (simp_all add: alloc_sock_def)

lemma alloc_kept:
  assumes "ss_inv p ss" "disps ss n = None"
  shows "kept None 0 ss (alloc_sock n ss)"
proof -
  have "key_by_dispatcher ss n = None" by (rule unregistered [OF assms(1)]) (use assms(2) in \<open>simp add: fd_of_def\<close>)
  then have "dispatcher_by_key ss k \<noteq> Some n" for k using assms(1) unfolding ss_inv_def tables_ok_def by (metis option.distinct(1))
  then show ?thesis using assms(2) by (auto simp: kept_def keys_fresh_def)
qed

lemma good_alloc:
  assumes "ss_inv p ss" "disps ss n = None" "ss_inv p (alloc_sock n ss) \<Longrightarrow> disps (alloc_sock n ss) n = None \<Longrightarrow> good p None 1 (alloc_sock n ss) r"
  shows "good p None 1 ss r"
  using good_trans [OF _ alloc_kept [OF assms(1,2)] assms(3)] assms(1,2) by simp

lemma CreateSocket_body:
  assumes inv: "ss_inv p ss" and n: "disps ss n = None" "p \<noteq> Some n" and fd: "fresh_fd (fst ans) ss" and r: "room ss" and ss: "ss = alloc_sock n ss0"
  shows "good p None 1 ss (state_of (CreateSocket n family type ans ss0))"
proof -
  let ?s = "created family type ans (PhysicalSocket_new INVALID_SOCKET 0)"
  have k: "key_by_dispatcher ss n = None" by (rule unregistered [OF inv]) (use n(1) in \<open>simp add: fd_of_def\<close>)
  have new: "PhysicalSocket_new INVALID_SOCKET 0 = \<lparr>sk_s = INVALID_SOCKET, sk_udp = None, sk_family = 0, sk_error = 0, sk_state = CS_CLOSED, sk_resolver = None,
    sk_enabled_events = 0, sk_saved_enabled_events = -1\<rparr>" by (simp add: PhysicalSocket_new_def)
  have eq: "SocketDispatcher_Create n family type (0, 0) ans (put_sock n (PhysicalSocket_new INVALID_SOCKET 0) ss) =
    (if fst ans = INVALID_SOCKET then Inr (False, put_sock n ?s (more_calls [Sys_socket family type] ss))
     else res_bind (Add n (put_sock n ?s (more_calls [Sys_socket family type, Sys_nonblock (fst ans)] ss))) (\<lambda>ss. Inr (True, ss)))"
    using Create_eq [of "put_sock n (PhysicalSocket_new INVALID_SOCKET 0) ss" n "PhysicalSocket_new INVALID_SOCKET 0" family type "(0, 0)" ans] k
    by (simp add: new)
  show ?thesis
  proof (cases "fst ans = INVALID_SOCKET")
    case True
    then have "state_of (CreateSocket n family type ans ss0) = Inr (more_calls [Sys_socket family type] ss)"
      using n(1) by (simp add: CreateSocket_def eq SocketDispatcher_delete_def SocketDispatcher_Close_def PhysicalSocket_Close_def created_def flip: ss)
        (simp add: put_sock_def more_calls_def fun_upd_idem)
    then show ?thesis using call_good [OF inv] by simp
  next
    case False
    have "\<exists>cs'. Add n (put_sock n ?s (more_calls [Sys_socket family type, Sys_nonblock (fst ans)] ss)) = Inr (put_sock n ?s (more_calls cs' (add_key n ss))) \<and>
        ss_inv p (put_sock n ?s (more_calls cs' (add_key n ss)))"
      by (rule Add_ok [OF inv]) (use n False fd r in \<open>auto simp: created_def new sock_ok_def fresh_fd_def\<close>)
    then show ?thesis using False added_kept [OF inv _ r, of n] n(1) by (auto simp: good_def CreateSocket_def eq simp flip: ss)
  qed
qed

lemma CreateSocket_good:
  assumes inv: "ss_inv p ss" and n: "disps ss n = None" "p \<noteq> Some n" and fd: "fresh_fd (fst ans) ss" and r: "room ss"
  shows "good p None 1 ss (state_of (CreateSocket n family type ans ss))"
  by (rule good_alloc [OF inv n(1) CreateSocket_body [OF _ _ n(2)]]) (use fd r in simp_all)

lemma WrapSocket_good:
  assumes inv: "ss_inv p ss" and n: "disps ss n = None" "p \<noteq> Some n" and fd: "fresh_fd fd ss" "fd \<noteq> INVALID_SOCKET" and r: "room ss"
  shows "good p None 1 ss (state_of (WrapSocket n fd type ss))"
proof -
  let ?s = "PhysicalSocket_new fd type"
  let ?ss = "alloc_sock n ss"
  have inv': "ss_inv p ?ss" "disps ?ss n = None" "room ?ss" using inv n r by simp_all
  have "\<exists>cs'. Add n (put_sock n ?s (more_calls [Sys_nonblock fd] ?ss)) = Inr (put_sock n ?s (more_calls cs' (add_key n ?ss))) \<and>
      ss_inv p (put_sock n ?s (more_calls cs' (add_key n ?ss)))"
    by (rule Add_ok [OF inv'(1)]) (use n fd r in \<open>auto simp: PhysicalSocket_new_def PhysicalSocket_SetEnabledEvents_def sock_ok_def fresh_fd_def\<close>)
  moreover have "sk_s ?s = fd" by (simp add: PhysicalSocket_new_def PhysicalSocket_SetEnabledEvents_def)
  ultimately have "good p None 1 ?ss (state_of (WrapSocket n fd type ss))" using added_kept [OF inv'(1) _ inv'(3), of n] inv'(2) fd
    by (auto simp: good_def WrapSocket_def SocketDispatcher_Initialize_def do_call_more)
  then show ?thesis by (rule good_alloc [OF inv n(1)])
qed

lemma kept_more: "kept x m ss ss' \<Longrightarrow> m \<le> n \<Longrightarrow> kept x n ss ss'"
  by (auto simp: kept_def)

lemma state_of_map: "state_of (res_bind q (\<lambda>(x, ss). Inr (f x, ss))) = state_of q"
  by (cases q) (auto simp: state_of_def)

lemma Accept_good:
  assumes inv: "ss_inv p ss" and a: "disps ss a = Some (Sock s)" "sk_s s \<noteq> INVALID_SOCKET" and n: "disps ss n = None" "p \<noteq> Some n"
    and fd: "fresh_fd (fst ans) ss" and r: "room ss"
  shows "good p None 1 ss (state_of (PhysicalSocket_Accept a out_addr ans storage n type ss))"
proof -
  obtain cs e where e: "SocketDispatcher_EnableEvents a DE_ACCEPT ss = Inr (put_sock a (s\<lparr>sk_enabled_events := e\<rparr>) (more_calls cs ss))"
    "ss_inv p (put_sock a (s\<lparr>sk_enabled_events := e\<rparr>) (more_calls cs ss))" using set_events_ok [OF inv a] by blast
  let ?s = "s\<lparr>sk_enabled_events := e\<rparr>" and ?c = "Sys_accept (sk_s s)"
  let ?ss = "put_sock a (?s\<lparr>sk_error := snd ans\<rparr>) (more_calls [?c] (put_sock a ?s (more_calls cs ss)))"
  have i: "ss_inv p ?ss" by (rule mild_inv [OF e(2)]) auto
  have k: "kept None 0 ss ?ss" using a sock_not_wakeup [OF inv a(1)] by (auto simp: kept_def)
  have "fd_of ?ss = fd_of ss" using a(1) by (auto simp: fd_of_def fun_eq_iff)
  then have w: "good p None 1 ?ss (state_of (WrapSocket n (fst ans) type ?ss))" if "fst ans \<noteq> INVALID_SOCKET"
    using WrapSocket_good [OF i] n fd r that fresh_live [OF n(1) a(1)] by (simp add: fresh_fd_def)
  have eq: "PhysicalSocket_Accept a out_addr ans storage n type ss =
    (if fst ans = INVALID_SOCKET then Inr ((None, out_addr), ?ss)
     else res_bind (WrapSocket n (fst ans) type ?ss) (\<lambda>(q, ss). Inr ((q, if out_addr \<noteq> None then snd (SocketAddressFromSockAddrStorage storage out_addr) else out_addr), ss)))"
    by (simp add: PhysicalSocket_Accept_def e(1) Let_def)
  show ?thesis
  proof (cases "fst ans = INVALID_SOCKET")
    case True
    then show ?thesis using i kept_more [OF k, of 1] unfolding eq by (auto simp: good_def simp del: put_put)
  next
    case False
    have "good p None (0 + 1) ss (state_of (WrapSocket n (fst ans) type ?ss))" by (rule good_trans [OF i k w [OF False]])
    then show ?thesis using False unfolding eq by (simp del: put_put add: state_of_map [where f = "\<lambda>q. (q, if out_addr \<noteq> None then snd (SocketAddressFromSockAddrStorage storage out_addr) else out_addr)", simplified])
  qed
qed

lemma connect_open_good:
  assumes inv: "ss_inv p ss" and a: "disps ss a = Some (Sock s)" "sk_s s \<noteq> INVALID_SOCKET"
  shows "good p None 0 ss (state_of (DoConnect a addr create_ans ans ss))"
  using mild_good [OF inv a(1), of "s\<lparr>sk_error := snd ans\<rparr>"] enable_good [OF inv a(1), of "s\<lparr>sk_error := snd ans, sk_state := CS_CONNECTED\<rparr>"]
    enable_good [OF inv a(1), of "s\<lparr>sk_error := snd ans, sk_state := CS_CONNECTING\<rparr>"] a
  by (auto simp: DoConnect_def Let_def split: prod.splits)

lemma DoConnect_good:
  assumes inv: "ss_inv p ss" and a: "disps ss a = Some (Sock s)" and fd: "fresh_fd (fst create_ans) ss" and r: "room ss"
  shows "good p None 1 ss (state_of (DoConnect a addr create_ans ans ss))"
proof (cases "sk_s s = INVALID_SOCKET")
  case False
  then show ?thesis using connect_open_good [OF inv a] kept_more [of None 0 ss _ 1] unfolding good_def by blast
next
  case True
  let ?f = "ip_family (sa_ip addr)"
  let ?s = "created ?f SOCK_STREAM create_ans s"
  have f: "fd_of ss a = Some INVALID_SOCKET" using a True by (simp add: fd_of_def)
  have k: "key_by_dispatcher ss a = None" by (rule unregistered [OF inv]) (simp add: f)
  have o: "sk_enabled_events s = 0" "sk_saved_enabled_events s \<in> {-1, 0}" "p \<noteq> Some a \<longleftrightarrow> sk_saved_enabled_events s = -1"
    using inv a True unfolding ss_inv_def sock_ok_def by blast+
  have s': "sock_ok ?s" "GetEpollEvents (told (Sock ?s)) = GetEpollEvents (ucast (sk_enabled_events ?s))" "sk_s ?s = fst create_ans"
    "p \<noteq> Some a \<longleftrightarrow> sk_saved_enabled_events ?s = -1"
    using o by (auto simp: sock_ok_def created_def SOCK_STREAM_def SOCK_DGRAM_def)
  note eq = Create_eq [OF a True k, of ?f SOCK_STREAM "(0, 0)" create_ans]
  show ?thesis
  proof (cases "fst create_ans = INVALID_SOCKET")
    case c: True
    have "ss_inv p (put_sock a ?s (more_calls [Sys_socket ?f SOCK_STREAM] ss))"
      by (rule keep_inv [OF calls_inv [OF inv]])
        (use a s' True c o in \<open>auto simp: created_def SOCK_STREAM_def SOCK_DGRAM_def\<close>)
    then show ?thesis using goodI [OF inv a] True a c by (simp add: DoConnect_def eq)
  next
    case c: False
    obtain cs where add: "Add a (put_sock a ?s (more_calls [Sys_socket ?f SOCK_STREAM, Sys_nonblock (fst create_ans)] ss)) = Inr (put_sock a ?s (more_calls cs (add_key a ss)))"
      "ss_inv p (put_sock a ?s (more_calls cs (add_key a ss)))"
      using Add_ok [OF inv, of a ?s "[Sys_socket ?f SOCK_STREAM, Sys_nonblock (fst create_ans)]"] a True s' c fd r by (auto simp: fresh_fd_def)
    let ?ss = "put_sock a ?s (more_calls cs (add_key a ss))"
    have "DoConnect a addr create_ans ans ss = DoConnect a addr create_ans ans ?ss" using a True c s'(3) by (simp add: DoConnect_def eq add(1))
    moreover have "good p None (1 + 0) ss (state_of (DoConnect a addr create_ans ans ?ss))"
      by (rule good_trans [OF add(2) added_kept [OF inv _ r] connect_open_good [OF add(2)]]) (use a s'(3) c in auto)
    ultimately show ?thesis by simp
  qed
qed

lemma Connect_good:
  assumes inv: "ss_inv p ss" and a: "disps ss a = Some (Sock s)" and fd: "fresh_fd (fst create_ans) ss" and r: "room ss"
  shows "good p None 1 ss (state_of (PhysicalSocket_Connect a addr q create_ans ans ss))"
  using a DoConnect_good [OF assms] SetError_good [OF inv a] mild_good [OF inv a, of "s\<lparr>sk_resolver := Some q, sk_state := CS_CONNECTING\<rparr>" "[Resolver_start q addr]"]
  by (simp add: PhysicalSocket_Connect_def do_call_calls)

section \<open>Runs\<close>

text \<open>
  What the code that uses the sockets has to keep to: it uses live sockets, reads, writes, listens and accepts on open ones only, does not delete the socket whose signal it handles (\<open>p\<close>), and
  passes code points of at most six bits for \<open>OPT_DSCP\<close>. What the kernel and the allocator keep to: descriptors and addresses they return are not in use.
\<close>

definition live :: "socket_server \<Rightarrow> nat \<Rightarrow> bool" where
  "live ss a \<longleftrightarrow> (case disps ss a of Some (Sock s) \<Rightarrow> True | _ \<Rightarrow> False)"

definition opened :: "socket_server \<Rightarrow> nat \<Rightarrow> bool" where
  "opened ss a \<longleftrightarrow> (case disps ss a of Some (Sock s) \<Rightarrow> sk_s s \<noteq> INVALID_SOCKET | _ \<Rightarrow> False)"

fun op_ok :: "nat option \<Rightarrow> sock_op \<Rightarrow> socket_server \<Rightarrow> bool" where
  "op_ok p (Op_Create n family type ans) ss \<longleftrightarrow> disps ss n = None \<and> fresh_fd (fst ans) ss"
| "op_ok p (Op_Delete a ans) ss \<longleftrightarrow> live ss a \<and> p \<noteq> Some a"
| "op_ok p (Op_Close a ans) ss \<longleftrightarrow> live ss a"
| "op_ok p (Op_Bind a addr binder ans) ss \<longleftrightarrow> live ss a"
| "op_ok p (Op_Connect a addr r create_ans ans) ss \<longleftrightarrow> live ss a \<and> fresh_fd (fst create_ans) ss"
| "op_ok p (Op_SetOption a opt value ans) ss \<longleftrightarrow> live ss a \<and> (opt = OPT_DSCP \<longrightarrow> 0 \<le> value \<and> value < 64)"
| "op_ok p (Op_Send a pv ans) ss \<longleftrightarrow> opened ss a"
| "op_ok p (Op_SendTo a buffer addr ans) ss \<longleftrightarrow> opened ss a"
| "op_ok p (Op_Recv a len ans timestamp) ss \<longleftrightarrow> opened ss a"
| "op_ok p (Op_RecvFrom a len ans storage out_addr timestamp) ss \<longleftrightarrow> opened ss a"
| "op_ok p (Op_Listen a backlog ans) ss \<longleftrightarrow> opened ss a"
| "op_ok p (Op_Accept a out_addr ans storage n type) ss \<longleftrightarrow> opened ss a \<and> disps ss n = None \<and> fresh_fd (fst ans) ss"
| "op_ok p (Op_SetError a error) ss \<longleftrightarrow> live ss a"

fun ops_ok :: "nat option \<Rightarrow> sock_op list \<Rightarrow> socket_server \<Rightarrow> bool" where
  "ops_ok p [] ss \<longleftrightarrow> True"
| "ops_ok p (x # xs) ss \<longleftrightarrow> op_ok p x ss \<and> (case sock_exec x ss of Inl _ \<Rightarrow> True | Inr ss' \<Rightarrow> ops_ok p xs ss')"

fun deleted :: "sock_op \<Rightarrow> nat option" where
  "deleted (Op_Delete a ans) = Some a"
| "deleted _ = None"

lemma good_more: "good p x 0 ss r \<Longrightarrow> good p x 1 ss r"
  using kept_more unfolding good_def by blast

lemma live_iff: "live ss a \<longleftrightarrow> (\<exists>s. disps ss a = Some (Sock s))"
  by (auto simp: live_def split: option.splits dispatcher.splits)

lemma opened_iff: "opened ss a \<longleftrightarrow> (\<exists>s. disps ss a = Some (Sock s) \<and> sk_s s \<noteq> INVALID_SOCKET)"
  by (auto simp: opened_def split: option.splits dispatcher.splits)

lemma sock_exec_good:
  assumes inv: "ss_inv p ss" and ok: "op_ok p x ss" and r: "room ss" and p: "\<And>a. p = Some a \<Longrightarrow> live ss a"
  shows "good p (deleted x) 1 ss (sock_exec x ss)"
proof -
  have n: "p \<noteq> Some n" if "disps ss n = None" for n using p that by (auto simp: live_def)
  show ?thesis
proof (cases x)
  case (Op_Create n family type ans)
  then show ?thesis using CreateSocket_good [OF inv _ _ _ r] ok n by simp
next
  case (Op_Delete a ans)
  then show ?thesis using good_more [OF delete_good [OF inv, of a _ ans]] ok by (auto simp: live_iff)
next
  case (Op_Accept a out_addr ans storage n type)
  then show ?thesis using Accept_good [where a = a and n = n and ans = ans, OF inv _ _ _ _ _ r] ok n by (auto simp: opened_iff)
next
  case (Op_Recv a len ans timestamp)
  then show ?thesis using good_more [OF Recv_stream_good [OF inv, of a _ len ans timestamp]] ok by (auto simp: opened_iff)
next
  case (Op_Connect a addr q create_ans ans)
  then show ?thesis using Connect_good [where a = a and ans = ans and create_ans = create_ans, OF inv _ _ r] ok by (auto simp: live_iff)
qed (use ok Close_good [OF inv] Bind_good [OF inv] SetOption_good [OF inv] Send_good [OF inv] Recv_good [OF inv] Listen_good [OF inv] SetError_good [OF inv]
  in \<open>auto simp: live_iff opened_iff\<close>)
qed

definition survives :: "nat option \<Rightarrow> nat \<Rightarrow> socket_server \<Rightarrow> socket_server \<Rightarrow> bool" where
  "survives p m ss ss' \<longleftrightarrow> (\<forall>a. p = Some a \<longrightarrow> live ss a \<longrightarrow> live ss' a \<and> made ss' a = made ss a) \<and> unat (next_dispatcher_key ss') \<le> unat (next_dispatcher_key ss) + m \<and> keys_fresh ss ss' \<and>
     key_by_dispatcher ss' (signal_wakeup ss) = key_by_dispatcher ss (signal_wakeup ss) \<and> signal_wakeup ss' = signal_wakeup ss \<and> epoll_fd ss' = epoll_fd ss \<and> fWait ss' = fWait ss \<and> disps ss' (signal_wakeup ss) = disps ss (signal_wakeup ss)"

lemma survives_refl [simp]: "survives p m ss ss"
  by (simp add: survives_def)

lemma survives_trans: "survives p m ss ss1 \<Longrightarrow> survives p n ss1 ss2 \<Longrightarrow> survives p (m + n) ss ss2"
  by (auto simp: survives_def intro: keys_fresh_trans)

lemma kept_survives: "kept x m ss ss' \<Longrightarrow> x = None \<or> x \<noteq> p \<Longrightarrow> survives p m ss ss'"
  unfolding kept_def survives_def live_iff by blast

lemma sock_execs_good:
  assumes "ss_inv p ss" "ops_ok p xs ss" "unat (next_dispatcher_key ss) + length xs < 2 ^ 64" "\<And>a. p = Some a \<Longrightarrow> live ss a"
  shows "\<exists>ss'. sock_execs xs ss = Inr ss' \<and> ss_inv p ss' \<and> survives p (length xs) ss ss' \<and> signals ss' = signals ss"
  using assms
proof (induction xs arbitrary: ss)
  case (Cons x xs)
  have "op_ok p x ss" using Cons.prems(2) by simp
  then have "good p (deleted x) 1 ss (sock_exec x ss)" using sock_exec_good [OF Cons.prems(1) _ _ Cons.prems(4)] Cons.prems(3) by simp
  then obtain ss1 where x: "sock_exec x ss = Inr ss1" "ss_inv p ss1" "kept (deleted x) 1 ss ss1" by (auto simp: good_def)
  have "deleted x = None \<or> deleted x \<noteq> p" using Cons.prems(2) by (cases x) auto
  then have v: "survives p 1 ss ss1" using kept_survives [OF x(3)] by simp
  then obtain ss2 where "sock_execs xs ss1 = Inr ss2" "ss_inv p ss2" "survives p (length xs) ss1 ss2" "signals ss2 = signals ss1"
    using Cons.IH [OF x(2)] Cons.prems(2,3,4) x(1) by (auto simp: survives_def)
  then show ?case using x survives_trans [OF v] by (auto simp: kept_def)
qed simp

lemma inv_signals [simp]: "ss_inv p (ss\<lparr>signals := x\<rparr>) = ss_inv p ss" "live (ss\<lparr>signals := x\<rparr>) a = live ss a"
  "survives p m (ss\<lparr>signals := x\<rparr>) ss' = survives p m ss ss'"
proof -
  have "fd_of (ss\<lparr>signals := x\<rparr>) = fd_of ss" "told_of (ss\<lparr>signals := x\<rparr>) = told_of ss" by (auto simp: fd_of_def told_of_def)
  then show "ss_inv p (ss\<lparr>signals := x\<rparr>) = ss_inv p ss" by (simp add: ss_inv_def tables_ok_def wakeup_ok_def)
  show "live (ss\<lparr>signals := x\<rparr>) a = live ss a" by (simp add: live_def)
  show "survives p m (ss\<lparr>signals := x\<rparr>) ss' = survives p m ss ss'" by (simp add: survives_def live_def keys_fresh_def)
qed

definition handlers_ok :: "nat \<Rightarrow> nat option \<Rightarrow> handlers \<Rightarrow> bool" where
  "handlers_ok n p h \<longleftrightarrow> (\<forall>ss. ss_inv p ss \<longrightarrow> (\<forall>a. p = Some a \<longrightarrow> live ss a) \<longrightarrow> ops_ok p (h ss) ss \<and> length (h ss) \<le> n)"

lemma survives_more: "survives p m ss ss' \<Longrightarrow> m \<le> n \<Longrightarrow> survives p n ss ss'"
  by (auto simp: survives_def)

lemma fire_ok:
  assumes "ss_inv p ss" "handlers_ok n p h" "unat (next_dispatcher_key ss) + n < 2 ^ 64" "\<And>a. p = Some a \<Longrightarrow> live ss a"
  shows "\<exists>ss'. fire h sig ss = Inr ss' \<and> ss_inv p ss' \<and> survives p n ss ss' \<and> signals ss' = signals ss @ [sig]"
proof -
  let ?ss = "ss\<lparr>signals := signals ss @ [sig]\<rparr>"
  have h: "ops_ok p (h ?ss) ?ss" "length (h ?ss) \<le> n" using assms(1,2,4) by (auto simp: handlers_ok_def)
  then show ?thesis using sock_execs_good [of p ?ss "h ?ss"] assms survives_more [OF _ h(2)] by (auto simp: fire_def Let_def)
qed

lemma on_event_ok:
  assumes inv: "ss_inv (Some a) ss" "live ss a" and h: "handlers_ok n (Some a) h" "unat (next_dispatcher_key ss) + n < 2 ^ 64"
    and change: "\<And>s. disps ss a = Some (Sock s) \<Longrightarrow> \<exists>cs e. change ss = Inr (put_sock a (s\<lparr>sk_enabled_events := e\<rparr>) (more_calls cs ss)) \<and>
      ss_inv (Some a) (put_sock a (s\<lparr>sk_enabled_events := e\<rparr>) (more_calls cs ss))"
  shows "\<exists>ss'. on_event h here change sig ss = Inr ss' \<and> ss_inv (Some a) ss' \<and> survives (Some a) n ss ss' \<and> signals ss' = signals ss @ (if here then [sig] else [])"
proof (cases here)
  case True
  obtain s where s: "disps ss a = Some (Sock s)" using inv(2) by (auto simp: live_iff)
  obtain cs e where c: "change ss = Inr (put_sock a (s\<lparr>sk_enabled_events := e\<rparr>) (more_calls cs ss))"
    "ss_inv (Some a) (put_sock a (s\<lparr>sk_enabled_events := e\<rparr>) (more_calls cs ss))" using change [OF s] by blast
  let ?ss = "put_sock a (s\<lparr>sk_enabled_events := e\<rparr>) (more_calls cs ss)"
  have v: "survives (Some a) 0 ss ?ss" using sock_not_wakeup [OF inv(1) s] by (simp add: survives_def live_def)
  have "live ?ss a" by (simp add: live_iff)
  then obtain ss' where "fire h sig ?ss = Inr ss'" "ss_inv (Some a) ss'" "survives (Some a) n ?ss ss'" "signals ss' = signals ?ss @ [sig]"
    using fire_ok [OF c(2) h(1)] h(2) by fastforce
  then show ?thesis using True c(1) survives_trans [OF v] by (auto simp: on_event_def)
qed (use inv in \<open>simp add: on_event_def\<close>)

lemma Start_ok:
  assumes inv: "ss_inv None ss" and s: "disps ss a = Some (Sock s)" "sk_s s \<noteq> INVALID_SOCKET" and m: "mild s s'"
  shows "\<exists>ss'. StartBatchedEventUpdates a (put_sock a s' ss) = Inr ss' \<and> ss_inv (Some a) ss' \<and> live ss' a \<and> survives (Some a) 0 ss ss' \<and> signals ss' = signals ss"
proof -
  let ?s = "s'\<lparr>sk_saved_enabled_events := uint (sk_enabled_events s')\<rparr>"
  have u: "-1 \<le> uint e" "uint e \<noteq> -1" "uint e \<le> 255" for e :: byte
  proof -
    have "uint e < 2 ^ LENGTH(8)" by (rule unsigned_less)
    then show "uint e \<le> 255" by simp
    have "0 \<le> uint e" by simp
    then show "-1 \<le> uint e" "uint e \<noteq> -1" by linarith+
  qed
  have o: "sock_ok s" "sk_saved_enabled_events s = -1" using inv_sock [OF inv s(1)] by simp_all
  have "ss_inv (Some a) (put_sock a ?s ss)"
    by (rule keep_inv [OF inv s(1)]) (use m u o s in \<open>auto simp: mild_def sock_ok_def batch_def\<close>)
  then show ?thesis using sock_not_wakeup [OF inv s(1)] by (auto simp: StartBatchedEventUpdates_def survives_def live_def)
qed

lemma Finish_ok:
  assumes inv: "ss_inv (Some a) ss" "live ss a"
  shows "\<exists>ss'. FinishBatchedEventUpdates a ss = Inr ss' \<and> ss_inv None ss' \<and> survives (Some a) 0 ss ss' \<and> signals ss' = signals ss"
proof -
  obtain s where s: "disps ss a = Some (Sock s)" using inv(2) by (auto simp: live_iff)
  have o: "sock_ok s" "sk_saved_enabled_events s \<noteq> -1" using inv_sock [OF inv(1) s] by simp_all
  have "\<exists>cs. MaybeUpdateDispatcher a (word_of_int (sk_saved_enabled_events s)) (put_sock a (s\<lparr>sk_saved_enabled_events := -1\<rparr>) ss) =
      Inr (put_sock a (s\<lparr>sk_saved_enabled_events := -1\<rparr>) (more_calls cs ss)) \<and> ss_inv None (put_sock a (s\<lparr>sk_saved_enabled_events := -1\<rparr>) (more_calls cs ss))"
    by (rule maybe_update [OF inv(1) s]) (use o in \<open>auto simp: sock_ok_def batch_def\<close>)
  then show ?thesis using s sock_not_wakeup [OF inv(1) s] by (auto simp: FinishBatchedEventUpdates_def survives_def live_iff)
qed

text \<open>The signals of an event, in the order they are fired.\<close>

definition event_signals :: "nat \<Rightarrow> u32 \<Rightarrow> int \<Rightarrow> sock_signal list" where
  "event_signals a ff err =
     (if ff AND DE_CONNECT \<noteq> 0 then [SignalConnectEvent a] else []) @ (if ff AND DE_ACCEPT \<noteq> 0 then [SignalReadEvent a] else []) @
     (if ff AND DE_READ \<noteq> 0 then [SignalReadEvent a] else []) @ (if ff AND DE_WRITE \<noteq> 0 then [SignalWriteEvent a] else []) @
     (if ff AND DE_CLOSE \<noteq> 0 then [SignalCloseEvent a err] else [])"

lemma survives_weak: "survives (Some a) m ss ss' \<Longrightarrow> survives None m ss ss'" "survives (Some a) m ss ss' \<Longrightarrow> live ss a \<Longrightarrow> live ss' a \<and> made ss' a = made ss a"
  by (auto simp: survives_def)

text \<open>One signal of an event. \<open>k\<close> signals of at most \<open>n\<close> operations each have been handled since the state \<open>s0\<close>.\<close>

lemma event_step:
  assumes s1: "ss_inv (Some a) s1" "live s1 a" "survives (Some a) (k * n) s0 s1" and k: "k < 5" and h: "handlers_ok n (Some a) h" and r: "unat (next_dispatcher_key s0) + 5 * n < 2 ^ 64"
    and f: "f = SocketDispatcher_DisableEvents a e0 \<or> f = SocketDispatcher_SetEnabledEvents a 0"
  shows "\<exists>s2. on_event h here f sig s1 = Inr s2 \<and> ss_inv (Some a) s2 \<and> live s2 a \<and> survives (Some a) (Suc k * n) s0 s2 \<and> signals s2 = signals s1 @ (if here then [sig] else [])"
proof -
  have "Suc k * n \<le> 5 * n" by (rule mult_le_mono1) (use k in simp)
  moreover have "unat (next_dispatcher_key s1) \<le> unat (next_dispatcher_key s0) + k * n" using s1(3) by (simp add: survives_def)
  ultimately have n: "unat (next_dispatcher_key s1) + n < 2 ^ 64" using r by (simp only: mult_Suc)
  have "\<exists>cs e. f s1 = Inr (put_sock a (s\<lparr>sk_enabled_events := e\<rparr>) (more_calls cs s1)) \<and> ss_inv (Some a) (put_sock a (s\<lparr>sk_enabled_events := e\<rparr>) (more_calls cs s1))"
    if "disps s1 a = Some (Sock s)" for s
    using f reset_events_ok [OF s1(1) that] by blast
  then obtain s2 where s2: "on_event h here f sig s1 = Inr s2" "ss_inv (Some a) s2" "survives (Some a) n s1 s2" "signals s2 = signals s1 @ (if here then [sig] else [])"
    using on_event_ok [OF s1(1,2) h n, where change = f] by blast
  have "survives (Some a) (Suc k * n) s0 s2" using survives_trans [OF s1(3) s2(3)] by (simp add: add.commute)
  then show ?thesis using s2 survives_weak(2) [OF s2(3) s1(2)] by blast
qed

lemma OnEvent_ok:
  assumes inv: "ss_inv None ss" and a: "opened ss a" and h: "handlers_ok n (Some a) h" and r: "unat (next_dispatcher_key ss) + 5 * n < 2 ^ 64"
  shows "\<exists>ss'. SocketDispatcher_OnEvent h a ff err ss = Inr ss' \<and> ss_inv None ss' \<and> survives (Some a) (5 * n) ss ss' \<and> signals ss' = signals ss @ event_signals a ff err"
proof -
  obtain s where s: "disps ss a = Some (Sock s)" "sk_s s \<noteq> INVALID_SOCKET" using a by (auto simp: opened_iff)
  let ?t = "if ff AND DE_CONNECT \<noteq> 0 then s\<lparr>sk_state := CS_CONNECTED\<rparr> else s"
  let ?s = "if ff AND DE_CLOSE \<noteq> 0 then ?t\<lparr>sk_state := CS_CLOSED\<rparr> else ?t"
  have "mild s ?s" by (simp add: mild_def)
  then obtain s0 where s0: "StartBatchedEventUpdates a (put_sock a ?s ss) = Inr s0" "ss_inv (Some a) s0" "live s0 a" "survives (Some a) 0 ss s0" "signals s0 = signals ss"
    using Start_ok [OF inv s] by blast
  have r0: "unat (next_dispatcher_key s0) + 5 * n < 2 ^ 64" using r s0(4) by (simp add: survives_def)
  note step = event_step [where ?s0.0 = s0 and h = h, OF _ _ _ _ h r0]
  obtain s1 where s1: "on_event h (ff AND DE_CONNECT \<noteq> 0) (SocketDispatcher_DisableEvents a DE_CONNECT) (SignalConnectEvent a) s0 = Inr s1" "ss_inv (Some a) s1" "live s1 a"
    "survives (Some a) (1 * n) s0 s1" "signals s1 = signals s0 @ (if ff AND DE_CONNECT \<noteq> 0 then [SignalConnectEvent a] else [])"
    using step [OF s0(2,3), of 0] by fastforce
  obtain s2 where s2: "on_event h (ff AND DE_ACCEPT \<noteq> 0) (SocketDispatcher_DisableEvents a DE_ACCEPT) (SignalReadEvent a) s1 = Inr s2" "ss_inv (Some a) s2" "live s2 a"
    "survives (Some a) (2 * n) s0 s2" "signals s2 = signals s1 @ (if ff AND DE_ACCEPT \<noteq> 0 then [SignalReadEvent a] else [])"
    using step [OF s1(2-4)] by (fastforce simp: numeral_eq_Suc)
  obtain s3 where s3: "on_event h (ff AND DE_READ \<noteq> 0) (SocketDispatcher_DisableEvents a DE_READ) (SignalReadEvent a) s2 = Inr s3" "ss_inv (Some a) s3" "live s3 a"
    "survives (Some a) (3 * n) s0 s3" "signals s3 = signals s2 @ (if ff AND DE_READ \<noteq> 0 then [SignalReadEvent a] else [])"
    using step [OF s2(2-4)] by (fastforce simp: numeral_eq_Suc)
  obtain s4 where s4: "on_event h (ff AND DE_WRITE \<noteq> 0) (SocketDispatcher_DisableEvents a DE_WRITE) (SignalWriteEvent a) s3 = Inr s4" "ss_inv (Some a) s4" "live s4 a"
    "survives (Some a) (4 * n) s0 s4" "signals s4 = signals s3 @ (if ff AND DE_WRITE \<noteq> 0 then [SignalWriteEvent a] else [])"
    using step [OF s3(2-4)] by (fastforce simp: numeral_eq_Suc)
  obtain s5 where s5: "on_event h (ff AND DE_CLOSE \<noteq> 0) (SocketDispatcher_SetEnabledEvents a 0) (SignalCloseEvent a err) s4 = Inr s5" "ss_inv (Some a) s5" "live s5 a"
    "survives (Some a) (5 * n) s0 s5" "signals s5 = signals s4 @ (if ff AND DE_CLOSE \<noteq> 0 then [SignalCloseEvent a err] else [])"
    using step [OF s4(2-4)] by (fastforce simp: numeral_eq_Suc)
  obtain s6 where s6: "FinishBatchedEventUpdates a s5 = Inr s6" "ss_inv None s6" "survives (Some a) 0 s5 s6" "signals s6 = signals s5"
    using Finish_ok [OF s5(2,3)] by blast
  have "SocketDispatcher_OnEvent h a ff err ss = Inr s6"
    unfolding SocketDispatcher_OnEvent_def Let_def with_sock_simp [OF s(1)] s0(1) res_bind_simps s1(1) s2(1) s3(1) s4(1) s5(1) s6(1) ..
  moreover have "survives (Some a) (5 * n) ss s6" using survives_trans [OF survives_trans [OF s0(4) s5(4)] s6(3)] by simp
  moreover have "signals s6 = signals ss @ event_signals a ff err" by (simp add: s6(4) s5(5) s4(5) s3(5) s2(5) s1(5) s0(5) event_signals_def)
  ultimately show ?thesis using s6(2) by blast
qed

lemma OnResolveResult_ok:
  assumes inv: "ss_inv None ss" and a: "live ss a" and fd: "fresh_fd (fst create_ans) ss" and h: "handlers_ok n None h" and r: "unat (next_dispatcher_key ss) + (1 + n) < 2 ^ 64"
  shows "\<exists>ss'. OnResolveResult h a q error address create_ans ans close_ans ss = Inr ss' \<and> ss_inv None ss' \<and> survives None (1 + n) ss ss'"
proof -
  obtain s where s: "disps ss a = Some (Sock s)" using a by (auto simp: live_iff)
  define X where "X = (if error = 0 then DoConnect a address create_ans ans ss else res_bind (SocketDispatcher_Close a close_ans ss) (\<lambda>(_, ss). Inr (error, ss)))"
  have "state_of (res_bind y (\<lambda>(_, ss). Inr (error, ss))) = state_of y" for y :: "(int \<times> socket_server) res"
    by (cases y) (auto simp: state_of_def)
  then have "good None None 1 ss (state_of X)"
    unfolding X_def using DoConnect_good [OF inv s fd] Close_good [OF inv s] r by simp
  then obtain s1 where s1: "state_of X = Inr s1" "ss_inv None s1" "kept None 1 ss s1" by (auto simp: good_def)
  then obtain e where X: "X = Inr (e, s1)" by (cases X) (auto simp: state_of_def)
  obtain s' where "disps s1 a = Some (Sock s')" using kept_live [OF s1(3) s] by blast
  then have "good None None 0 s1 (PhysicalSocket_SetError a e s1)" using SetError_good [OF s1(2)] by blast
  then obtain s2 where s2: "PhysicalSocket_SetError a e s1 = Inr s2" "ss_inv None s2" "kept None 0 s1 s2" by (auto simp: good_def)
  have v: "survives None 1 ss s1" "survives None 0 s1 s2" using kept_survives s1(3) s2(3) by auto
  have eq: "OnResolveResult h a q error address create_ans ans close_ans ss =
      (if sk_resolver s \<noteq> Some q then Inr ss else if e \<noteq> 0 then fire h (SignalCloseEvent a e) s2 else Inr s1)"
    using X s s2(1) by (simp add: OnResolveResult_def flip: X_def)
  have "unat (next_dispatcher_key s2) + n < 2 ^ 64" using v r by (simp add: survives_def)
  then obtain s3 where "fire h (SignalCloseEvent a e) s2 = Inr s3" "ss_inv None s3" "survives None n s2 s3" using fire_ok [OF s2(2) h] by blast
  then show ?thesis unfolding eq using inv s1(2) v survives_more [OF v(1), of "1 + n"] survives_trans [OF survives_trans [OF v]] by auto
qed

lemma sig_inv:
  assumes inv: "ss_inv p ss" and g: "disps ss a = Some (Sig g)" "sg_afd0 g' = sg_afd0 g" "sg_pipe g' = (if sg_fSignaled g' then [0] else [])"
  shows "ss_inv p (ss\<lparr>disps := (disps ss)(a \<mapsto> Sig g'), fWait := b\<rparr>)"
proof -
  let ?ss = "ss\<lparr>disps := (disps ss)(a \<mapsto> Sig g'), fWait := b\<rparr>"
  have "a = signal_wakeup ss" using inv g(1) by (auto simp: ss_inv_def wakeup_ok_def)
  then have "wakeup_ok ?ss" using inv g by (auto simp: ss_inv_def wakeup_ok_def)
  moreover have "fd_of ?ss = fd_of ss" "told_of ?ss = told_of ss" using g by (auto simp: fd_of_def told_of_def fun_eq_iff)
  ultimately show ?thesis using inv by (auto simp: ss_inv_def tables_ok_def)
qed

lemma wake_gives: "ss_inv p ss \<Longrightarrow> \<exists>g. disps ss (signal_wakeup ss) = Some (Sig g) \<and> sg_pipe g = (if sg_fSignaled g then [0] else [])"
  by (auto simp: ss_inv_def wakeup_ok_def)

lemma WakeUp_ok:
  assumes inv: "ss_inv p ss" and pw: "pw []"
  shows "\<exists>ss'. WakeUp pw ss = Inr ss' \<and> ss_inv p ss' \<and> next_dispatcher_key ss' = next_dispatcher_key ss \<and> signal_wakeup ss' = signal_wakeup ss \<and>
    (\<exists>g. disps ss' (signal_wakeup ss) = Some (Sig g) \<and> sg_pipe g = [0])"
proof -
  obtain g where g: "disps ss (signal_wakeup ss) = Some (Sig g)" "sg_pipe g = (if sg_fSignaled g then [0] else [])" using wake_gives [OF inv] by blast
  then show ?thesis using inv pw sig_inv [OF inv g(1), of "g\<lparr>sg_fSignaled := True, sg_pipe := [0]\<rparr>" "fWait ss"] by (auto simp: WakeUp_def Signal_def)
qed

lemma Signaler_OnEvent_ok:
  assumes inv: "ss_inv p ss"
  shows "\<exists>ss'. Signaler_OnEvent (signal_wakeup ss) ss = Inr ss' \<and> ss_inv p ss' \<and> next_dispatcher_key ss' = next_dispatcher_key ss \<and> \<not> fWait ss' \<and>
    (\<exists>g. disps ss' (signal_wakeup ss) = Some (Sig g) \<and> sg_pipe g = [] \<and> \<not> sg_fSignaled g)"
proof -
  obtain g where g: "disps ss (signal_wakeup ss) = Some (Sig g)" "sg_pipe g = (if sg_fSignaled g then [0] else [])" using wake_gives [OF inv] by blast
  have "ss_inv p (ss\<lparr>disps := (disps ss)(signal_wakeup ss \<mapsto> Sig g), fWait := False\<rparr>)" using sig_inv [OF inv g(1), of g] g(2) by simp
  then have "ss_inv p (ss\<lparr>fWait := False\<rparr>)" using g(1) by (simp add: fun_upd_idem)
  then show ?thesis using g sig_inv [OF inv g(1), of "g\<lparr>sg_fSignaled := False, sg_pipe := []\<rparr>" False] by (auto simp: Signaler_OnEvent_def)
qed

lemma new_ok:
  assumes "PhysicalSocketServer_new epfd n afd = Inr ss" "fst afd \<noteq> INVALID_SOCKET"
  shows "ss_inv None ss" "unat (next_dispatcher_key ss) = 1"
proof -
  let ?d = "Sig \<lparr>sg_afd0 = fst afd, sg_afd1 = snd afd, sg_fSignaled = False, sg_pipe = []\<rparr>"
  have eq: "ss = \<lparr>epoll_fd = epfd, next_dispatcher_key = 1, dispatcher_by_key = [0 \<mapsto> n], key_by_dispatcher = [n \<mapsto> 0], signal_wakeup = n, fWait = False,
    disps = [n \<mapsto> ?d], calls = (if epfd = INVALID_SOCKET then [] else [Epoll_add (fst afd) (GetEpollEvents DE_READ) 0]), signals = [], made = (\<lambda>_. 0)\<rparr>"
    using assms by (auto simp: PhysicalSocketServer_new_def Add_def AddEpoll_def Let_def emplace_def do_call_def)
  have f: "fd_of ss = [n \<mapsto> fst afd]" "told_of ss = [n \<mapsto> GetEpollEvents DE_READ]" by (auto simp: eq fd_of_def told_of_def)
  show "ss_inv None ss" unfolding ss_inv_def f
    using assms(2) by (auto simp: eq tables_ok_def fds_ok_def wakeup_ok_def interest_ok_def interest_def split: if_splits)
  show "unat (next_dispatcher_key ss) = 1" by (simp add: eq)
qed

end
