(* ===== verification/Socket_Server.thy ===== *)
theory Socket_Server
  imports Socket_Invariant
begin

text \<open>
  Waiting for sockets: \<open>ProcessEvents\<close> and the three wait loops of \<open>PhysicalSocketServer\<close> in \<open>physical_socket_server.cc\<close> under \<open>src/xrtcserver/rtcbase/src/rtc_base\<close>.
  What the kernel answers to each wait, what other threads do meanwhile and the time afterwards are arguments, one record for each round; a loop that is still waiting
  when the records are used up returns \<open>None\<close>. The properties of the sockets of \<open>Physical_Socket\<close> are at the end.
\<close>

unbundle bit_operations_syntax

section \<open>Definitions\<close>

subsection \<open>Telling a dispatcher\<close>

definition OnEvent :: "handlers \<Rightarrow> nat \<Rightarrow> u32 \<Rightarrow> int \<Rightarrow> socket_server \<Rightarrow> socket_server res" where
  "OnEvent h a ff err ss =
     (case disps ss a of None \<Rightarrow> Inl Use_after_free
      | Some (Sock s) \<Rightarrow> SocketDispatcher_OnEvent h a ff err ss
      | Some (Sig g) \<Rightarrow> Signaler_OnEvent a ss)"

text \<open>\<open>so_error\<close> is what \<open>getsockopt\<close> stores for \<open>SO_ERROR\<close>, 0 when it fails; \<open>peek\<close> the answer to the \<open>recv\<close> of \<open>IsDescriptorClosed\<close>.\<close>

definition ProcessEvents :: "handlers \<Rightarrow> nat \<Rightarrow> bool \<Rightarrow> bool \<Rightarrow> bool \<Rightarrow> int \<Rightarrow> int \<times> int \<Rightarrow> socket_server \<Rightarrow> socket_server res" where
  "ProcessEvents h a is_readable is_writable check_error so_error peek ss =
     (case disps ss a of None \<Rightarrow> Inl Use_after_free
      | Some d \<Rightarrow>
          let errcode = (if check_error then so_error else 0);
              requested_events = GetRequestedEvents d
          in res_bind
               (if is_readable
                then if requested_events AND DE_ACCEPT \<noteq> 0 then Inr DE_ACCEPT
                     else if errcode \<noteq> 0 then Inr DE_CLOSE
                     else res_bind (IsDescriptorClosed d peek) (\<lambda>closed. Inr (if closed then DE_CLOSE else DE_READ))
                else Inr 0) (\<lambda>ff.
             let ff = (if is_writable
                       then if requested_events AND DE_CONNECT \<noteq> 0 then (if errcode = 0 then ff OR DE_CONNECT else ff OR DE_CLOSE) else ff OR DE_WRITE
                       else ff)
             in if ff \<noteq> 0 then OnEvent h a ff errcode ss else Inr ss))"

subsection \<open>What happens while a thread waits\<close>

datatype other = Other_op sock_op | Other_wake

fun others_exec :: "(byte list \<Rightarrow> bool) \<Rightarrow> other list \<Rightarrow> socket_server \<Rightarrow> socket_server res" where
  "others_exec pw [] ss = Inr ss"
| "others_exec pw (Other_op x # xs) ss = res_bind (sock_exec x ss) (others_exec pw xs)"
| "others_exec pw (Other_wake # xs) ss = res_bind (WakeUp pw ss) (others_exec pw xs)"

record ready_event =
  re_events :: u32
  re_key :: "64 word"
  re_error :: int
  re_peek :: "int \<times> int"

text \<open>A wait that times out answers with no event.\<close>

datatype poll_answer = Poll_error int | Poll_ready "ready_event list"

record wait_round =
  wr_others :: "other list"
  wr_answer :: poll_answer
  wr_now :: int

subsection \<open>Waiting with epoll\<close>

fun epoll_events :: "handlers \<Rightarrow> ready_event list \<Rightarrow> socket_server \<Rightarrow> socket_server res" where
  "epoll_events h [] ss = Inr ss"
| "epoll_events h (e # es) ss =
     (case dispatcher_by_key ss (re_key e) of None \<Rightarrow> epoll_events h es ss
      | Some a \<Rightarrow>
          res_bind (ProcessEvents h a (re_events e AND (EPOLLIN OR EPOLLPRI) \<noteq> 0) (re_events e AND EPOLLOUT \<noteq> 0)
              (re_events e AND (EPOLLRDHUP OR EPOLLERR OR EPOLLHUP) \<noteq> 0) (re_error e) (re_peek e) ss)
            (epoll_events h es))"

fun epoll_loop :: "(byte list \<Rightarrow> bool) \<Rightarrow> handlers \<Rightarrow> int \<Rightarrow> int \<Rightarrow> int \<Rightarrow> wait_round list \<Rightarrow> socket_server \<Rightarrow> (bool option \<times> socket_server) res" where
  "epoll_loop pw h cmsWait tvWait tvStop rounds ss =
     (if \<not> fWait ss then Inr (Some True, ss)
      else case rounds of [] \<Rightarrow> Inr (None, ss)
      | r # rs \<Rightarrow>
          let more = (\<lambda>ss. if cmsWait \<noteq> kForever
                           then let tvWait = TimeDiff tvStop (wr_now r)
                                in if tvWait \<le> 0 then Inr (Some True, ss) else epoll_loop pw h cmsWait tvWait tvStop rs ss
                           else epoll_loop pw h cmsWait tvWait tvStop rs ss)
          in res_bind (others_exec pw (wr_others r) (do_call (Sys_epoll_wait (i32 tvWait)) ss)) (\<lambda>ss.
             case wr_answer r of
               Poll_error errno \<Rightarrow> if errno \<noteq> EINTR then Inr (Some False, ss) else more ss
             | Poll_ready [] \<Rightarrow> Inr (Some True, ss)
             | Poll_ready (e # es) \<Rightarrow> res_bind (epoll_events h (e # es) ss) more))"

declare epoll_loop.simps [simp del]

definition WaitEpoll :: "(byte list \<Rightarrow> bool) \<Rightarrow> handlers \<Rightarrow> int \<Rightarrow> int \<Rightarrow> wait_round list \<Rightarrow> socket_server \<Rightarrow> (bool option \<times> socket_server) res" where
  "WaitEpoll pw h now cmsWait rounds ss =
     (let tvWait = (if cmsWait \<noteq> kForever then cmsWait else -1); tvStop = (if cmsWait \<noteq> kForever then TimeAfter now cmsWait else -1)
      in epoll_loop pw h cmsWait tvWait tvStop rounds (ss\<lparr>fWait := True\<rparr>))"

subsection \<open>Waiting for one dispatcher with poll\<close>

text \<open>The flags of \<open>poll\<close> have the same values as those of \<open>epoll\<close>. Of the answer only the first event counts, there is one descriptor.\<close>

fun poll_loop :: "(byte list \<Rightarrow> bool) \<Rightarrow> handlers \<Rightarrow> int \<Rightarrow> nat \<Rightarrow> int \<Rightarrow> int \<Rightarrow> int \<Rightarrow> wait_round list \<Rightarrow> socket_server \<Rightarrow> (bool option \<times> socket_server) res" where
  "poll_loop pw h cmsWait a fd tvWait tvStop rounds ss =
     (if \<not> fWait ss then Inr (Some True, ss)
      else case rounds of [] \<Rightarrow> Inr (None, ss)
      | r # rs \<Rightarrow>
          (case disps ss a of None \<Rightarrow> Inl Use_after_free
           | Some d \<Rightarrow>
               let ff = GetRequestedEvents d;
                   events = (if ff AND (DE_READ OR DE_ACCEPT) \<noteq> 0 then EPOLLIN else 0);
                   events = (if ff AND (DE_WRITE OR DE_CONNECT) \<noteq> 0 then events OR EPOLLOUT else events);
                   more = (\<lambda>ss. if cmsWait \<noteq> kForever
                                then let tvWait = TimeDiff tvStop (wr_now r)
                                     in if tvWait < 0 then Inr (Some True, ss) else poll_loop pw h cmsWait a fd tvWait tvStop rs ss
                                else poll_loop pw h cmsWait a fd tvWait tvStop rs ss)
               in res_bind (others_exec pw (wr_others r) (do_call (Sys_poll fd events (i32 tvWait)) ss)) (\<lambda>ss.
                  case wr_answer r of
                    Poll_error errno \<Rightarrow> if errno \<noteq> EINTR then Inr (Some False, ss) else more ss
                  | Poll_ready [] \<Rightarrow> Inr (Some True, ss)
                  | Poll_ready (e # es) \<Rightarrow>
                      res_bind (ProcessEvents h a (re_events e AND (EPOLLIN OR EPOLLPRI) \<noteq> 0) (re_events e AND EPOLLOUT \<noteq> 0)
                          (re_events e AND (EPOLLRDHUP OR EPOLLERR OR EPOLLHUP) \<noteq> 0) (re_error e) (re_peek e) ss) more)))"

declare poll_loop.simps [simp del]

definition WaitPoll :: "(byte list \<Rightarrow> bool) \<Rightarrow> handlers \<Rightarrow> int \<Rightarrow> int \<Rightarrow> nat \<Rightarrow> wait_round list \<Rightarrow> socket_server \<Rightarrow> (bool option \<times> socket_server) res" where
  "WaitPoll pw h now cmsWait a rounds ss =
     (let tvWait = (if cmsWait \<noteq> kForever then cmsWait else -1); tvStop = (if cmsWait \<noteq> kForever then TimeAfter now cmsWait else -1)
      in case disps ss a of None \<Rightarrow> Inl Use_after_free
         | Some d \<Rightarrow> poll_loop pw h cmsWait a (GetDescriptor d) tvWait tvStop rounds (ss\<lparr>fWait := True\<rparr>))"

subsection \<open>Waiting with select\<close>

text \<open>
  \<open>sel_order\<close> is the order in which the table of dispatchers is walked. The answer of \<open>select\<close> is an error or the sets of readable and writable descriptors, nothing for a time-out;
  \<open>sel_error\<close> and \<open>sel_peek\<close> give \<open>SO_ERROR\<close> and the answer of \<open>recv\<close> for a descriptor. Times are in microseconds.
\<close>

datatype select_answer = Select_error int | Select_ready "(int set \<times> int set) option"

record select_round =
  sel_order :: "64 word list"
  sel_others :: "other list"
  sel_answer :: select_answer
  sel_error :: "int \<Rightarrow> int"
  sel_peek :: "int \<Rightarrow> int \<times> int"
  sel_now :: int

definition FD_SETSIZE :: int where "FD_SETSIZE = 1024"

text \<open>The keys to look at and the sets to wait for. A descriptor outside the sets is an access out of bounds.\<close>

fun select_sets :: "bool \<Rightarrow> 64 word list \<Rightarrow> socket_server \<Rightarrow> (64 word list \<times> int \<times> int set \<times> int set) res" where
  "select_sets process_io [] ss = Inr ([], -1, {}, {})"
| "select_sets process_io (key # order) ss =
     (case dispatcher_by_key ss key of None \<Rightarrow> select_sets process_io order ss
      | Some a \<Rightarrow>
          if \<not> process_io \<and> a \<noteq> signal_wakeup ss then select_sets process_io order ss
          else case disps ss a of None \<Rightarrow> Inl Use_after_free
               | Some d \<Rightarrow>
                   let fd = GetDescriptor d; ff = GetRequestedEvents d
                   in if fd < 0 \<or> fd \<ge> FD_SETSIZE then Inl Out_of_bounds
                      else res_bind (select_sets process_io order ss) (\<lambda>(keys, fdmax, fdsRead, fdsWrite).
                        Inr (key # keys, max fd fdmax, if ff AND (DE_READ OR DE_ACCEPT) \<noteq> 0 then insert fd fdsRead else fdsRead,
                             if ff AND (DE_WRITE OR DE_CONNECT) \<noteq> 0 then insert fd fdsWrite else fdsWrite)))"

fun select_events :: "handlers \<Rightarrow> select_round \<Rightarrow> 64 word list \<Rightarrow> int set \<Rightarrow> int set \<Rightarrow> socket_server \<Rightarrow> socket_server res" where
  "select_events h r [] fdsRead fdsWrite ss = Inr ss"
| "select_events h r (key # keys) fdsRead fdsWrite ss =
     (case dispatcher_by_key ss key of None \<Rightarrow> select_events h r keys fdsRead fdsWrite ss
      | Some a \<Rightarrow>
          (case disps ss a of None \<Rightarrow> Inl Use_after_free
           | Some d \<Rightarrow>
               let fd = GetDescriptor d; is_readable = (fd \<in> fdsRead); is_writable = (fd \<in> fdsWrite)
               in if fd < 0 \<or> fd \<ge> FD_SETSIZE then Inl Out_of_bounds
                  else res_bind (ProcessEvents h a is_readable is_writable (is_readable \<or> is_writable) (sel_error r fd) (sel_peek r fd) ss)
                         (select_events h r keys (fdsRead - {fd}) (fdsWrite - {fd}))))"

fun select_loop :: "(byte list \<Rightarrow> bool) \<Rightarrow> handlers \<Rightarrow> bool \<Rightarrow> (int \<times> int) option \<Rightarrow> int \<Rightarrow> select_round list \<Rightarrow> socket_server \<Rightarrow> (bool option \<times> socket_server) res" where
  "select_loop pw h process_io ptvWait stop_us rounds ss =
     (if \<not> fWait ss then Inr (Some True, ss)
      else case rounds of [] \<Rightarrow> Inr (None, ss)
      | r # rs \<Rightarrow>
          res_bind (select_sets process_io (sel_order r) ss) (\<lambda>(keys, fdmax, fdsRead, fdsWrite).
          let more = (\<lambda>ss. let time_left_us = stop_us - sel_now r;
                               ptvWait = (case ptvWait of None \<Rightarrow> None
                                          | Some _ \<Rightarrow> Some (if time_left_us > 0 then (time_left_us div kNumMicrosecsPerSec, time_left_us mod kNumMicrosecsPerSec) else (0, 0)))
                           in select_loop pw h process_io ptvWait stop_us rs ss)
          in res_bind (others_exec pw (sel_others r) (do_call (Sys_select (fdmax + 1) fdsRead fdsWrite ptvWait) ss)) (\<lambda>ss.
             case sel_answer r of
               Select_error errno \<Rightarrow> if errno \<noteq> EINTR then Inr (Some False, ss) else more ss
             | Select_ready None \<Rightarrow> Inr (Some True, ss)
             | Select_ready (Some (rd, wr)) \<Rightarrow> res_bind (select_events h r keys (fdsRead \<inter> rd) (fdsWrite \<inter> wr) ss) more)))"

declare select_loop.simps [simp del]

text \<open>The product is computed in \<open>int\<close>.\<close>

definition WaitSelect :: "(byte list \<Rightarrow> bool) \<Rightarrow> handlers \<Rightarrow> int \<Rightarrow> int \<Rightarrow> bool \<Rightarrow> select_round list \<Rightarrow> socket_server \<Rightarrow> (bool option \<times> socket_server) res" where
  "WaitSelect pw h now_us cmsWait process_io rounds ss =
     (if cmsWait \<noteq> kForever \<and> \<not> in_i32 (cmsWait * 1000) then Inl Signed_overflow
      else let ptvWait = (if cmsWait \<noteq> kForever then Some (c_div cmsWait 1000, (cmsWait - c_div cmsWait 1000 * 1000) * 1000) else None);
               stop_us = (if cmsWait \<noteq> kForever then now_us + cmsWait * 1000 else 0)
           in select_loop pw h process_io ptvWait stop_us rounds (ss\<lparr>fWait := True\<rparr>))"

text \<open>Which loop waits; \<open>rounds\<close> and \<open>srounds\<close> are the answers for the one that is used.\<close>

definition Wait :: "(byte list \<Rightarrow> bool) \<Rightarrow> handlers \<Rightarrow> int \<Rightarrow> int \<Rightarrow> int \<Rightarrow> bool \<Rightarrow> wait_round list \<Rightarrow> select_round list \<Rightarrow> socket_server \<Rightarrow> (bool option \<times> socket_server) res" where
  "Wait pw h now now_us cmsWait process_io rounds srounds ss =
     (if \<not> process_io then WaitPoll pw h now cmsWait (signal_wakeup ss) rounds ss
      else if epoll_fd ss \<noteq> INVALID_SOCKET then WaitEpoll pw h now cmsWait rounds ss
      else WaitSelect pw h now_us cmsWait process_io srounds ss)"

section \<open>One event\<close>

fun sig_sock :: "sock_signal \<Rightarrow> nat" where
  "sig_sock (SignalReadEvent a) = a"
| "sig_sock (SignalWriteEvent a) = a"
| "sig_sock (SignalConnectEvent a) = a"
| "sig_sock (SignalCloseEvent a err) = a"

lemma event_signals_sock: "sig \<in> set (event_signals a ff err) \<Longrightarrow> sig_sock sig = a"
  by (auto simp: event_signals_def split: if_splits)

lemma event_signals_some:
  "event_signals a (x OR DE_CONNECT) err \<noteq> []" "event_signals a (x OR DE_CLOSE) err \<noteq> []" "event_signals a (x OR DE_WRITE) err \<noteq> []"
  "event_signals a DE_ACCEPT err \<noteq> []" "event_signals a DE_READ err \<noteq> []" "event_signals a DE_CLOSE err \<noteq> []"
  by (simp_all add: event_signals_def bit.conj_disj_distrib2 or_eq_0_iff DE_CONNECT_def DE_CLOSE_def DE_WRITE_def DE_ACCEPT_def DE_READ_def)

text \<open>What every part of a wait keeps; \<open>m\<close> bounds the number of keys it uses.\<close>

definition moves :: "nat \<Rightarrow> socket_server \<Rightarrow> socket_server \<Rightarrow> bool" where
  "moves m ss ss' \<longleftrightarrow> ss_inv None ss' \<and> unat (next_dispatcher_key ss') \<le> unat (next_dispatcher_key ss) + m \<and> keys_fresh ss ss' \<and>
     key_by_dispatcher ss' (signal_wakeup ss) = key_by_dispatcher ss (signal_wakeup ss) \<and> signal_wakeup ss' = signal_wakeup ss \<and> epoll_fd ss' = epoll_fd ss \<and>
     (fWait ss' \<longrightarrow> fWait ss)"

lemma moves_trans: "moves m ss ss1 \<Longrightarrow> moves n ss1 ss2 \<Longrightarrow> moves (m + n) ss ss2"
  unfolding moves_def by (auto intro: keys_fresh_trans)

lemma moves_refl: "ss_inv None ss \<Longrightarrow> moves m ss ss"
  by (simp add: moves_def)

lemma survives_moves: "ss_inv None ss' \<Longrightarrow> survives None m ss ss' \<Longrightarrow> moves m ss ss'"
  by (simp add: moves_def survives_def)

lemma table_cases:
  assumes "ss_inv None ss" "dispatcher_by_key ss k = Some a"
  shows "opened ss a \<or> a = signal_wakeup ss \<and> (\<exists>g. disps ss a = Some (Sig g))"
proof -
  have "key_by_dispatcher ss a = Some k" using assms by (simp add: ss_inv_def tables_ok_def)
  then obtain fd where "fd_of ss a = Some fd" "fd \<noteq> INVALID_SOCKET" using unregistered [OF assms(1), of a] by (cases "fd_of ss a") auto
  then obtain d where d: "disps ss a = Some d" "GetDescriptor d \<noteq> INVALID_SOCKET" by (auto simp: fd_of_def)
  then show ?thesis
  proof (cases d)
    case (Sig g)
    then show ?thesis using d assms(1) by (auto simp: ss_inv_def wakeup_ok_def)
  qed (auto simp: opened_iff)
qed

lemma OnEvent_moves:
  assumes inv: "ss_inv None ss" and a: "dispatcher_by_key ss k = Some a" and h: "handlers_ok n (Some a) h" and r: "unat (next_dispatcher_key ss) + 5 * n < 2 ^ 64"
  shows "\<exists>ss' sigs. OnEvent h a ff err ss = Inr ss' \<and> moves (5 * n) ss ss' \<and> signals ss' = signals ss @ sigs \<and> (\<forall>sig \<in> set sigs. sig_sock sig = a) \<and>
    (a = signal_wakeup ss \<longrightarrow> \<not> fWait ss') \<and> made ss' a = made ss a \<and> (live ss a \<longrightarrow> sigs = event_signals a ff err)"
  using table_cases [OF inv a]
proof
  assume o: "opened ss a"
  then obtain s where s: "disps ss a = Some (Sock s)" by (auto simp: opened_iff)
  then have l: "live ss a" "a \<noteq> signal_wakeup ss" using sock_not_wakeup [OF inv] by (auto simp: live_iff)
  obtain ss' where e: "SocketDispatcher_OnEvent h a ff err ss = Inr ss'" "ss_inv None ss'" "survives (Some a) (5 * n) ss ss'" "signals ss' = signals ss @ event_signals a ff err"
    using OnEvent_ok [OF inv o h r] by blast
  have "moves (5 * n) ss ss'" "made ss' a = made ss a" using survives_moves [OF e(2) survives_weak(1) [OF e(3)]] survives_weak(2) [OF e(3) l(1)] by simp_all
  then show ?thesis using e(1,4) s l event_signals_sock by (intro exI [of _ ss'] exI [of _ "event_signals a ff err"]) (simp add: OnEvent_def)
next
  assume w: "a = signal_wakeup ss \<and> (\<exists>g. disps ss a = Some (Sig g))"
  then obtain g where g: "disps ss a = Some (Sig g)" by blast
  obtain ss' where e: "Signaler_OnEvent a ss = Inr ss'" "ss_inv None ss'" "\<not> fWait ss'" using Signaler_OnEvent_ok [OF inv] w by blast
  then have "moves (5 * n) ss ss' \<and> signals ss' = signals ss \<and> made ss' = made ss" using g by (auto simp: Signaler_OnEvent_def moves_def split: if_splits)
  then show ?thesis using e g by (intro exI [of _ ss'] exI [of _ "[]"]) (simp add: OnEvent_def live_iff)
qed

lemma ProcessEvents_moves:
  assumes inv: "ss_inv None ss" and a: "dispatcher_by_key ss k = Some a" and h: "handlers_ok n (Some a) h" and r: "unat (next_dispatcher_key ss) + 5 * n < 2 ^ 64"
  shows "\<exists>ss' sigs. ProcessEvents h a is_readable is_writable check_error so_error peek ss = Inr ss' \<and> moves (5 * n) ss ss' \<and> signals ss' = signals ss @ sigs \<and>
    (\<forall>sig \<in> set sigs. sig_sock sig = a) \<and> (a = signal_wakeup ss \<and> (is_readable \<or> is_writable) \<longrightarrow> \<not> fWait ss') \<and> made ss' a = made ss a \<and>
    (live ss a \<and> (is_readable \<or> is_writable) \<longrightarrow> sigs \<noteq> [])"
proof -
  obtain d where d: "disps ss a = Some d" using table_cases [OF inv a] by (auto simp: opened_iff)
  have "\<exists>b. IsDescriptorClosed d peek = Inr b"
  proof (cases d)
    case (Sock s)
    then show ?thesis using udp_known [OF inv] d by (fastforce simp: IsDescriptorClosed_def)
  qed (auto simp: IsDescriptorClosed_def)
  then obtain b where b: "IsDescriptorClosed d peek = Inr b" by blast
  have "\<exists>ff err. ProcessEvents h a is_readable is_writable check_error so_error peek ss = OnEvent h a ff err ss \<and> event_signals a ff err \<noteq> []" if rw: "is_readable \<or> is_writable"
  proof -
    define err where "err = (if check_error then so_error else 0)"
    let ?read = "if is_readable
                 then if GetRequestedEvents d AND DE_ACCEPT \<noteq> 0 then Inr DE_ACCEPT else if err \<noteq> 0 then Inr DE_CLOSE
                      else res_bind (IsDescriptorClosed d peek) (\<lambda>closed. Inr (if closed then DE_CLOSE else DE_READ))
                 else Inr 0"
    have "\<exists>ff. ?read = Inr ff \<and> (is_readable \<longrightarrow> event_signals a ff err \<noteq> [])" using b event_signals_some by simp
    then obtain ff where ff: "?read = Inr ff" "is_readable \<longrightarrow> event_signals a ff err \<noteq> []" by blast
    define gg where "gg = (if is_writable then if GetRequestedEvents d AND DE_CONNECT \<noteq> 0 then (if err = 0 then ff OR DE_CONNECT else ff OR DE_CLOSE) else ff OR DE_WRITE else ff)"
    have g: "event_signals a gg err \<noteq> []" using rw ff(2) event_signals_some unfolding gg_def by (cases is_writable) auto
    then have "gg \<noteq> 0" by (auto simp: event_signals_def)
    then have "ProcessEvents h a is_readable is_writable check_error so_error peek ss = OnEvent h a gg err ss"
      unfolding ProcessEvents_def d option.case Let_def err_def [symmetric] ff(1) res_bind_simps gg_def [symmetric] by simp
    then show ?thesis using g by blast
  qed
  moreover have "ProcessEvents h a is_readable is_writable check_error so_error peek ss = Inr ss" if "\<not> (is_readable \<or> is_writable)"
    using that d by (simp add: ProcessEvents_def Let_def)
  ultimately consider ff err where "ProcessEvents h a is_readable is_writable check_error so_error peek ss = OnEvent h a ff err ss" "event_signals a ff err \<noteq> []"
    | "ProcessEvents h a is_readable is_writable check_error so_error peek ss = Inr ss" "\<not> (is_readable \<or> is_writable)" by blast
  then show ?thesis
  proof cases
    case (1 ff err)
    then show ?thesis using OnEvent_moves [OF assms, of ff err] by auto
  next
    case 2
    then show ?thesis using moves_refl [OF inv] by (intro exI [of _ ss] exI [of _ "[]"]) simp
  qed
qed

section \<open>One round of waiting\<close>

lemma epoll_events_moves:
  assumes "ss_inv None ss" "\<And>a. handlers_ok n (Some a) h" "unat (next_dispatcher_key ss) + 5 * n * length es < 2 ^ 64" "\<forall>e \<in> set es. re_key e < next_dispatcher_key ss"
  shows "\<exists>ss' sigs. epoll_events h es ss = Inr ss' \<and> moves (5 * n * length es) ss ss' \<and> signals ss' = signals ss @ sigs \<and>
    (\<forall>sig \<in> set sigs. \<exists>e \<in> set es. dispatcher_by_key ss (re_key e) = Some (sig_sock sig)) \<and>
    ((\<exists>e \<in> set es. key_by_dispatcher ss (signal_wakeup ss) = Some (re_key e) \<and> re_events e AND EPOLLIN \<noteq> 0) \<longrightarrow> \<not> fWait ss')"
  using assms(1,3,4)
proof (induction es arbitrary: ss)
  case Nil
  then show ?case using moves_refl by auto
next
  case (Cons e es)
  have inverse: "key_by_dispatcher ss a = Some k \<longleftrightarrow> dispatcher_by_key ss k = Some a" for a k using Cons.prems(1) by (simp add: ss_inv_def tables_ok_def)
  obtain ss1 sigs1 where 1: "epoll_events h (e # es) ss = epoll_events h es ss1" "moves (5 * n) ss ss1" "signals ss1 = signals ss @ sigs1"
    "\<forall>sig \<in> set sigs1. dispatcher_by_key ss (re_key e) = Some (sig_sock sig)"
    "key_by_dispatcher ss (signal_wakeup ss) = Some (re_key e) \<and> re_events e AND EPOLLIN \<noteq> 0 \<longrightarrow> \<not> fWait ss1"
  proof (cases "dispatcher_by_key ss (re_key e)")
    case None
    then show thesis using that [of ss "[]"] moves_refl [OF Cons.prems(1)] inverse by auto
  next
    case (Some a)
    have rm: "unat (next_dispatcher_key ss) + 5 * n < 2 ^ 64" using Cons.prems(2) by simp
    have i: "re_events e AND EPOLLIN \<noteq> 0 \<Longrightarrow> re_events e AND (EPOLLIN OR EPOLLPRI) \<noteq> 0" by (simp add: bit.conj_disj_distrib or_eq_0_iff)
    obtain ss1 sigs1 where "ProcessEvents h a (re_events e AND (EPOLLIN OR EPOLLPRI) \<noteq> 0) (re_events e AND EPOLLOUT \<noteq> 0)
        (re_events e AND (EPOLLRDHUP OR EPOLLERR OR EPOLLHUP) \<noteq> 0) (re_error e) (re_peek e) ss = Inr ss1" "moves (5 * n) ss ss1" "signals ss1 = signals ss @ sigs1"
      "\<forall>sig \<in> set sigs1. sig_sock sig = a" "a = signal_wakeup ss \<and> (re_events e AND (EPOLLIN OR EPOLLPRI) \<noteq> 0 \<or> re_events e AND EPOLLOUT \<noteq> 0) \<longrightarrow> \<not> fWait ss1"
      using ProcessEvents_moves [OF Cons.prems(1) Some assms(2) rm] by blast
    then show thesis using that [of ss1 sigs1] Some inverse i by auto
  qed
  have n: "unat (next_dispatcher_key ss1) + 5 * n * length es < 2 ^ 64" "\<forall>e \<in> set es. re_key e < next_dispatcher_key ss1" "ss_inv None ss1"
    using 1(2) Cons.prems(2,3) by (auto simp: moves_def keys_fresh_def)
  obtain ss2 sigs2 where 2: "epoll_events h es ss1 = Inr ss2" "moves (5 * n * length es) ss1 ss2" "signals ss2 = signals ss1 @ sigs2"
    "\<forall>sig \<in> set sigs2. \<exists>e \<in> set es. dispatcher_by_key ss1 (re_key e) = Some (sig_sock sig)"
    "(\<exists>e \<in> set es. key_by_dispatcher ss1 (signal_wakeup ss1) = Some (re_key e) \<and> re_events e AND EPOLLIN \<noteq> 0) \<longrightarrow> \<not> fWait ss2"
    using Cons.IH [OF n(3,1,2)] by blast
  have old: "dispatcher_by_key ss1 (re_key e') = Some a \<Longrightarrow> dispatcher_by_key ss (re_key e') = Some a" if "e' \<in> set es" for e' a
    using 1(2) Cons.prems(3) that by (auto simp: moves_def keys_fresh_def)
  have mv: "moves (5 * n * length (e # es)) ss ss2" using moves_trans [OF 1(2) 2(2)] by (simp add: algebra_simps)
  have keep: "\<not> fWait ss1 \<Longrightarrow> \<not> fWait ss2" "key_by_dispatcher ss1 (signal_wakeup ss1) = key_by_dispatcher ss (signal_wakeup ss)" using 1(2) 2(2) by (auto simp: moves_def)
  have sg: "\<exists>e' \<in> set (e # es). dispatcher_by_key ss (re_key e') = Some (sig_sock sig)" if "sig \<in> set (sigs1 @ sigs2)" for sig
    using that 1(4) 2(4) old by (metis Un_iff list.set_intros set_append)
  have ev: "epoll_events h (e # es) ss = Inr ss2" "signals ss2 = signals ss @ sigs1 @ sigs2" using 1(1,3) 2(1,3) by simp_all
  have "\<not> fWait ss2" if "e' \<in> set (e # es)" "key_by_dispatcher ss (signal_wakeup ss) = Some (re_key e')" "re_events e' AND EPOLLIN \<noteq> 0" for e'
  proof (cases "e' = e")
    case True
    then show ?thesis using 1(5) keep(1) that(2,3) by blast
  next
    case False
    then have "e' \<in> set es" using that(1) by simp
    then show ?thesis using 2(5) keep(2) that(2,3) by auto
  qed
  then show ?case using mv sg ev by blast
qed

lemma epoll_events_append: "epoll_events h (xs @ ys) ss = res_bind (epoll_events h xs ss) (epoll_events h ys)"
proof (induction xs arbitrary: ss)
  case (Cons x xs)
  then have "epoll_events h (xs @ ys) = (\<lambda>ss. res_bind (epoll_events h xs ss) (epoll_events h ys))" by blast
  then show ?case by (simp add: res_bind_assoc split: option.split)
qed simp

lemma one_event:
  assumes inv: "ss_inv None ss" and h: "\<And>a. handlers_ok n (Some a) h" and r: "unat (next_dispatcher_key ss) + 5 * n < 2 ^ 64"
  shows "\<exists>ss' sigs. epoll_events h [e] ss = Inr ss' \<and> moves (5 * n) ss ss' \<and> signals ss' = signals ss @ sigs \<and>
    (case dispatcher_by_key ss (re_key e) of None \<Rightarrow> ss' = ss
     | Some a \<Rightarrow> made ss' a = made ss a \<and> (\<forall>sig \<in> set sigs. sig_sock sig = a) \<and> (live ss a \<and> re_events e AND (EPOLLIN OR EPOLLOUT) \<noteq> 0 \<longrightarrow> sigs \<noteq> []))"
proof (cases "dispatcher_by_key ss (re_key e)")
  case None
  then show ?thesis using moves_refl [OF inv] by auto
next
  case (Some a)
  have i: "re_events e AND (EPOLLIN OR EPOLLPRI) \<noteq> 0 \<or> re_events e AND EPOLLOUT \<noteq> 0" if "re_events e AND (EPOLLIN OR EPOLLOUT) \<noteq> 0"
    using that by (simp add: bit.conj_disj_distrib or_eq_0_iff)
  obtain ss' sigs where p: "ProcessEvents h a (re_events e AND (EPOLLIN OR EPOLLPRI) \<noteq> 0) (re_events e AND EPOLLOUT \<noteq> 0)
      (re_events e AND (EPOLLRDHUP OR EPOLLERR OR EPOLLHUP) \<noteq> 0) (re_error e) (re_peek e) ss = Inr ss'" "moves (5 * n) ss ss'" "signals ss' = signals ss @ sigs"
    "\<forall>sig \<in> set sigs. sig_sock sig = a" "made ss' a = made ss a"
    "live ss a \<and> (re_events e AND (EPOLLIN OR EPOLLPRI) \<noteq> 0 \<or> re_events e AND EPOLLOUT \<noteq> 0) \<longrightarrow> sigs \<noteq> []"
    using ProcessEvents_moves [OF inv Some h r] by blast
  then show ?thesis using Some i by (intro exI [of _ ss'] exI [of _ sigs]) auto
qed

definition wake_pending :: "socket_server \<Rightarrow> bool" where
  "wake_pending ss \<longleftrightarrow> (\<exists>g. disps ss (signal_wakeup ss) = Some (Sig g) \<and> sg_pipe g \<noteq> [])"

fun others_ok :: "(byte list \<Rightarrow> bool) \<Rightarrow> other list \<Rightarrow> socket_server \<Rightarrow> bool" where
  "others_ok pw [] ss \<longleftrightarrow> True"
| "others_ok pw (Other_op x # xs) ss \<longleftrightarrow> op_ok None x ss \<and> (case sock_exec x ss of Inl _ \<Rightarrow> True | Inr ss' \<Rightarrow> others_ok pw xs ss')"
| "others_ok pw (Other_wake # xs) ss \<longleftrightarrow> (case WakeUp pw ss of Inl _ \<Rightarrow> True | Inr ss' \<Rightarrow> others_ok pw xs ss')"

lemma others_moves:
  assumes "ss_inv None ss" "others_ok pw xs ss" "unat (next_dispatcher_key ss) + length xs < 2 ^ 64" "pw []"
  shows "\<exists>ss'. others_exec pw xs ss = Inr ss' \<and> moves (length xs) ss ss' \<and> signals ss' = signals ss \<and> (wake_pending ss \<or> Other_wake \<in> set xs \<longrightarrow> wake_pending ss')"
  using assms
proof (induction xs arbitrary: ss)
  case Nil
  then show ?case by (simp add: moves_refl)
next
  case (Cons x xs)
  obtain ss1 where 1: "others_exec pw (x # xs) ss = others_exec pw xs ss1" "moves 1 ss ss1" "signals ss1 = signals ss" "others_ok pw xs ss1" "wake_pending ss \<or> x = Other_wake \<longrightarrow> wake_pending ss1"
  proof (cases x)
    case (Other_op y)
    then have "good None (deleted y) 1 ss (sock_exec y ss)" using sock_exec_good [OF Cons.prems(1)] Cons.prems(2,3) by simp
    then obtain ss1 where y: "sock_exec y ss = Inr ss1" "ss_inv None ss1" "kept (deleted y) 1 ss ss1" by (auto simp: good_def)
    moreover have "moves 1 ss ss1" "signals ss1 = signals ss" using y(2,3) by (simp_all add: moves_def kept_def)
    moreover have "wake_pending ss \<longrightarrow> wake_pending ss1" using y(3) by (simp add: wake_pending_def kept_def)
    ultimately show thesis using that [of ss1] Cons.prems(2) Other_op by simp
  next
    case Other_wake
    obtain ss1 where w: "WakeUp pw ss = Inr ss1" "ss_inv None ss1" "next_dispatcher_key ss1 = next_dispatcher_key ss" "signal_wakeup ss1 = signal_wakeup ss" "wake_pending ss1"
      using WakeUp_ok [where pw = pw, OF Cons.prems(1,4)] by (auto simp: wake_pending_def)
    have "moves 1 ss ss1" "signals ss1 = signals ss"
      using w(1,2) by (auto simp: WakeUp_def Signal_def moves_def split: option.splits dispatcher.splits if_splits)
    then show thesis using that [of ss1] Cons.prems(2) Other_wake w by simp
  qed
  then obtain ss2 where "others_exec pw xs ss1 = Inr ss2" "moves (length xs) ss1 ss2" "signals ss2 = signals ss1" "wake_pending ss1 \<or> Other_wake \<in> set xs \<longrightarrow> wake_pending ss2"
    using Cons.IH [of ss1] Cons.prems(3,4) by (auto simp: moves_def)
  then show ?case using 1 moves_trans [OF 1(2)] by auto
qed

section \<open>Reachable states\<close>

text \<open>A byte can be written to an empty pipe.\<close>

definition pipe_ok :: "(byte list \<Rightarrow> bool) \<Rightarrow> bool" where
  "pipe_ok pw \<longleftrightarrow> pw []"

text \<open>Everything that happens to a server, counting the operations on sockets: \<open>k\<close> bounds their number, handlers included.\<close>

inductive ss_reach :: "nat \<Rightarrow> socket_server \<Rightarrow> bool" where
  start: "PhysicalSocketServer_new epfd n afd = Inr ss \<Longrightarrow> fst afd \<noteq> INVALID_SOCKET \<Longrightarrow> ss_reach 1 ss"
| op: "ss_reach k ss \<Longrightarrow> op_ok None x ss \<Longrightarrow> sock_exec x ss = Inr ss' \<Longrightarrow> ss_reach (k + 1) ss'"
| event: "ss_reach k ss \<Longrightarrow> dispatcher_by_key ss key = Some a \<Longrightarrow> handlers_ok n (Some a) h \<Longrightarrow> OnEvent h a ff err ss = Inr ss' \<Longrightarrow> ss_reach (k + 5 * n) ss'"
| resolved: "ss_reach k ss \<Longrightarrow> live ss a \<Longrightarrow> fresh_fd (fst create_ans) ss \<Longrightarrow> handlers_ok n None h \<Longrightarrow>
    OnResolveResult h a q error address create_ans ans close_ans ss = Inr ss' \<Longrightarrow> ss_reach (k + (1 + n)) ss'"
| wake: "ss_reach k ss \<Longrightarrow> pipe_ok pw \<Longrightarrow> WakeUp pw ss = Inr ss' \<Longrightarrow> ss_reach k ss'"
| waits: "ss_reach k ss \<Longrightarrow> harmless c \<Longrightarrow> ss' = do_call c (ss\<lparr>fWait := b\<rparr>) \<Longrightarrow> ss_reach k ss'"

lemma inv_fWait [simp]: "ss_inv p (ss\<lparr>fWait := b\<rparr>) = ss_inv p ss"
proof -
  have "fd_of (ss\<lparr>fWait := b\<rparr>) = fd_of ss" "told_of (ss\<lparr>fWait := b\<rparr>) = told_of ss" by (auto simp: fd_of_def told_of_def)
  then show ?thesis by (simp add: ss_inv_def tables_ok_def wakeup_ok_def)
qed

lemma ss_reach_inv:
  assumes "ss_reach k ss" "k < 2 ^ 64"
  shows "ss_inv None ss \<and> unat (next_dispatcher_key ss) \<le> k"
  using assms
proof (induction rule: ss_reach.induct)
  case (start epfd n afd ss)
  then show ?case using new_ok [OF start(1,2)] by simp
next
  case (op k ss x ss')
  then have "good None (deleted x) 1 ss (sock_exec x ss)" by (intro sock_exec_good) auto
  then show ?case using op by (auto simp: good_def kept_def)
next
  case (event k ss key a n h ff err ss')
  then have i: "ss_inv None ss" "unat (next_dispatcher_key ss) + 5 * n < 2 ^ 64" "unat (next_dispatcher_key ss) \<le> k" by simp_all
  obtain ss'' where "OnEvent h a ff err ss = Inr ss''" "moves (5 * n) ss ss''" using OnEvent_moves [OF i(1) event(2,3) i(2)] by blast
  then show ?case using event(4) i(3) by (simp add: moves_def)
next
  case (resolved k ss a create_ans n h q error address ans close_ans ss')
  then have i: "ss_inv None ss" "unat (next_dispatcher_key ss) + (1 + n) < 2 ^ 64" "unat (next_dispatcher_key ss) \<le> k" by simp_all
  obtain ss'' where "OnResolveResult h a q error address create_ans ans close_ans ss = Inr ss''" "ss_inv None ss''" "survives None (1 + n) ss ss''"
    using OnResolveResult_ok [OF i(1) resolved(2,3,4) i(2)] by blast
  then show ?case using resolved(5) i(3) by (simp add: survives_def)
next
  case (wake k ss pw ss')
  then have i: "ss_inv None ss" "unat (next_dispatcher_key ss) \<le> k" by simp_all
  obtain ss'' where "WakeUp pw ss = Inr ss''" "ss_inv None ss''" "next_dispatcher_key ss'' = next_dispatcher_key ss" using WakeUp_ok [where pw = pw, OF i(1) wake(2) [unfolded pipe_ok_def]] by blast
  then show ?case using wake(3) i(2) by simp
next
  case (waits k ss c ss' b)
  then show ?case using call_inv [of None "ss\<lparr>fWait := b\<rparr>" c] interest_harmless by simp
qed

lemma registered_fd:
  assumes "ss_inv p ss" "disps ss a = Some d" "GetDescriptor d \<noteq> INVALID_SOCKET"
  shows "\<exists>key. key_by_dispatcher ss a = Some key \<and> dispatcher_by_key ss key = Some a"
proof -
  have "fd_of ss a = Some (GetDescriptor d)" using assms(2) by (simp add: fd_of_def)
  then have "key_by_dispatcher ss a \<noteq> None" using assms(1,3) unfolding ss_inv_def fds_ok_def by blast
  then show ?thesis using assms(1) by (auto simp: ss_inv_def tables_ok_def)
qed

lemma interest_iff:
  assumes inv: "ss_inv None ss" and e: "epoll_fd ss \<noteq> INVALID_SOCKET"
  shows "interest (calls ss) fd = Some (ev, key) \<longleftrightarrow>
    (\<exists>a d. dispatcher_by_key ss key = Some a \<and> disps ss a = Some d \<and> GetDescriptor d = fd \<and> ev = GetEpollEvents (GetRequestedEvents d))"
proof -
  have i: "interest_ok (interest (calls ss)) (fd_of ss) (told_of ss) (key_by_dispatcher ss)" using inv e by (simp add: ss_inv_def)
  have k: "key_by_dispatcher ss a = Some key \<longleftrightarrow> dispatcher_by_key ss key = Some a" for a key using inv by (simp add: ss_inv_def tables_ok_def)
  have t: "GetEpollEvents (told d) = GetEpollEvents (GetRequestedEvents d)" if "disps ss a = Some d" for a d
    using that inv_sock [OF inv] by (cases d) auto
  have in_set: "interest (calls ss) (GetDescriptor d) = Some (GetEpollEvents (GetRequestedEvents d), key)" if "dispatcher_by_key ss key = Some a" "disps ss a = Some d" for a d key
  proof -
    have "fd_of ss a = Some (GetDescriptor d)" "told_of ss a = Some (GetEpollEvents (GetRequestedEvents d))" "key_by_dispatcher ss a = Some key"
      using that k t [OF that(2)] by (simp_all add: fd_of_def told_of_def)
    then show ?thesis using i unfolding interest_ok_def by blast
  qed
  show ?thesis
  proof
    assume "interest (calls ss) fd = Some (ev, key)"
    moreover then obtain a where a: "fd_of ss a = Some fd" "fd \<noteq> INVALID_SOCKET" using i unfolding interest_ok_def by blast
    then obtain d where d: "disps ss a = Some d" "GetDescriptor d = fd" by (auto simp: fd_of_def)
    moreover obtain key' where "dispatcher_by_key ss key' = Some a" using registered_fd [OF inv d(1)] d(2) a(2) by blast
    ultimately show "\<exists>a d. dispatcher_by_key ss key = Some a \<and> disps ss a = Some d \<and> GetDescriptor d = fd \<and> ev = GetEpollEvents (GetRequestedEvents d)"
      using in_set [of key' a d] by (intro exI [of _ a] exI [of _ d]) simp
  qed (use in_set in blast)
qed

lemma key_below_next: "ss_inv None ss \<Longrightarrow> dispatcher_by_key ss key = Some a \<Longrightarrow> key < next_dispatcher_key ss"
  by (auto simp: ss_inv_def tables_ok_def)

section \<open>Properties\<close>

text \<open>C22: the set of descriptors the kernel watches is always the one the sockets ask for. After any sequence of operations, events, resolved names and wake-ups, where handlers of signals may
  in turn close, reopen, create and delete sockets, the interest set of \<open>epoll\<close> has exactly the descriptors of the registered dispatchers, each with the events its dispatcher asks for and with its key,
  and every open socket is registered. The kernel is assumed not to run out of memory or watches for \<open>epoll_ctl\<close>.\<close>

theorem epoll_interest_exact:
  assumes "ss_reach k ss" "k < 2 ^ 64" "epoll_fd ss \<noteq> INVALID_SOCKET"
  shows "(interest (calls ss) fd = Some (ev, key) \<longleftrightarrow>
      (\<exists>a d. dispatcher_by_key ss key = Some a \<and> disps ss a = Some d \<and> GetDescriptor d = fd \<and> ev = GetEpollEvents (GetRequestedEvents d))) \<and>
    (opened ss a \<longrightarrow> (\<exists>key. dispatcher_by_key ss key = Some a))"
proof -
  have inv: "ss_inv None ss" using ss_reach_inv [OF assms(1,2)] by simp
  have "\<exists>key. dispatcher_by_key ss key = Some a" if "opened ss a" using that registered_fd [OF inv] by (fastforce simp: opened_iff)
  then show ?thesis using interest_iff [OF inv assms(3)] by blast
qed

text \<open>C23: an event reaches the socket it was reported for, or none. In a round of waiting with \<open>epoll\<close> the events come with keys that are in the interest set. Whatever the handlers of earlier events do to the
  sockets of later ones (they may close, reopen, delete and create sockets, but not delete the socket whose signal they handle), the round is processed without a fault. When the turn of an event comes and its key is no
  longer in the table, it is dropped and nothing changes. Otherwise it is handled by the dispatcher that had this key when the round began, and that is still the same object: no socket was constructed at its
  address since, so a socket that was created in the meantime, also at the address of one that was deleted, gets no signal of an old event. All signals of the event are for this dispatcher, and a socket that was reported
  readable or writable gets one.\<close>

theorem events_reach_their_sockets:
  assumes "ss_reach k ss" "k + 5 * n * length es < 2 ^ 64" "epoll_fd ss \<noteq> INVALID_SOCKET" "\<And>a. handlers_ok n (Some a) h"
    and kernel: "\<forall>e \<in> set es. \<exists>fd ev. interest (calls ss) fd = Some (ev, re_key e)"
    and turn: "es = before @ e # after"
  shows "\<exists>s1 s2 ss' sigs. epoll_events h before ss = Inr s1 \<and> epoll_events h [e] s1 = Inr s2 \<and> epoll_events h after s2 = Inr ss' \<and> epoll_events h es ss = Inr ss' \<and>
    signals s2 = signals s1 @ sigs \<and>
    (case dispatcher_by_key s1 (re_key e) of
       None \<Rightarrow> s2 = s1
     | Some a \<Rightarrow> dispatcher_by_key ss (re_key e) = Some a \<and> made s1 a = made ss a \<and> made s2 a = made ss a \<and> (\<forall>sig \<in> set sigs. sig_sock sig = a) \<and>
         (live s1 a \<and> re_events e AND (EPOLLIN OR EPOLLOUT) \<noteq> 0 \<longrightarrow> sigs \<noteq> []))"
proof -
  have inv: "ss_inv None ss" "unat (next_dispatcher_key ss) \<le> k" using ss_reach_inv [OF assms(1)] assms(2) by simp_all
  have keys: "\<forall>e \<in> set es. re_key e < next_dispatcher_key ss" using kernel interest_iff [OF inv(1) assms(3)] key_below_next [OF inv(1)] by blast
  have room: "unat (next_dispatcher_key ss) + 5 * n * length es < 2 ^ 64" "5 * n * length es = 5 * n * length before + 5 * n + 5 * n * length after"
    using inv(2) assms(2) turn by (simp_all add: algebra_simps)
  obtain s1 where s1: "epoll_events h before ss = Inr s1" "moves (5 * n * length before) ss s1"
    using epoll_events_moves [OF inv(1) assms(4), of before] room keys turn by auto
  then have i1: "ss_inv None s1" "unat (next_dispatcher_key s1) + 5 * n + 5 * n * length after < 2 ^ 64" "\<forall>e \<in> set es. re_key e < next_dispatcher_key s1"
    using room keys by (auto simp: moves_def keys_fresh_def)
  obtain s2 sigs where s2: "epoll_events h [e] s1 = Inr s2" "moves (5 * n) s1 s2" "signals s2 = signals s1 @ sigs"
    "case dispatcher_by_key s1 (re_key e) of None \<Rightarrow> s2 = s1
     | Some a \<Rightarrow> made s2 a = made s1 a \<and> (\<forall>sig \<in> set sigs. sig_sock sig = a) \<and> (live s1 a \<and> re_events e AND (EPOLLIN OR EPOLLOUT) \<noteq> 0 \<longrightarrow> sigs \<noteq> [])"
    using one_event [OF i1(1) assms(4), of e] i1(2) by auto
  have "ss_inv None s2" "unat (next_dispatcher_key s2) + 5 * n * length after < 2 ^ 64" "next_dispatcher_key s1 \<le> next_dispatcher_key s2"
    using s2(2) i1(2) by (simp_all add: moves_def keys_fresh_def)
  moreover then have "\<forall>e \<in> set after. re_key e < next_dispatcher_key s2" using i1(3) less_le_trans by (auto simp: turn)
  ultimately obtain s3 where s3: "epoll_events h after s2 = Inr s3" using epoll_events_moves [OF _ assms(4), of s2 after] by blast
  have "epoll_events h ((before @ [e]) @ after) ss = Inr s3" unfolding epoll_events_append using s1(1) s2(1) s3 by (simp del: epoll_events.simps(2))
  then have "epoll_events h es ss = Inr s3" by (simp add: turn del: epoll_events.simps(2))
  moreover have "dispatcher_by_key s1 (re_key e) = Some a \<Longrightarrow> dispatcher_by_key ss (re_key e) = Some a \<and> made s1 a = made ss a" for a
    using s1(2) keys turn by (auto simp: moves_def keys_fresh_def)
  ultimately show ?thesis using s1(1) s2 s3 by (intro exI [of _ s1] exI [of _ s2] exI [of _ s3] exI [of _ sigs]) (auto split: option.splits)
qed

text \<open>What \<open>epoll\<close> promises of the pipe of the signaler: a descriptor that is watched for reading and has something to read is reported.\<close>

definition pipe_reported :: "socket_server \<Rightarrow> ready_event list \<Rightarrow> bool" where
  "pipe_reported ss es \<longleftrightarrow>
     (\<forall>g ev key. disps ss (signal_wakeup ss) = Some (Sig g) \<longrightarrow> sg_pipe g \<noteq> [] \<longrightarrow> interest (calls ss) (sg_afd0 g) = Some (ev, key) \<longrightarrow> ev AND EPOLLIN \<noteq> 0 \<longrightarrow>
        (\<exists>e \<in> set es. re_key e = key \<and> re_events e AND EPOLLIN \<noteq> 0))"

lemma wake_round:
  assumes inv: "ss_inv None ss" and e: "epoll_fd ss \<noteq> INVALID_SOCKET" and p: "wake_pending ss" "pipe_reported ss es"
    and h: "\<And>a. handlers_ok n (Some a) h" "unat (next_dispatcher_key ss) + 5 * n * length es < 2 ^ 64"
    and keys: "\<forall>e \<in> set es. \<exists>fd ev. interest (calls ss) fd = Some (ev, re_key e)"
  shows "es \<noteq> []" "\<exists>ss'. epoll_events h es ss = Inr ss' \<and> \<not> fWait ss'"
proof -
  obtain g where g: "disps ss (signal_wakeup ss) = Some (Sig g)" "sg_pipe g \<noteq> []" using p(1) by (auto simp: wake_pending_def)
  have "sg_afd0 g \<noteq> INVALID_SOCKET" using inv g(1) by (auto simp: ss_inv_def wakeup_ok_def)
  then obtain key where key: "key_by_dispatcher ss (signal_wakeup ss) = Some key" "dispatcher_by_key ss key = Some (signal_wakeup ss)" using registered_fd [OF inv g(1)] by auto
  then have "interest (calls ss) (sg_afd0 g) = Some (GetEpollEvents DE_READ, key)" using interest_iff [OF inv e] g(1) by fastforce
  moreover have "GetEpollEvents DE_READ AND EPOLLIN \<noteq> 0" by (simp add: GetEpollEvents_def DE_READ_def DE_ACCEPT_def DE_WRITE_def DE_CONNECT_def EPOLLIN_def)
  ultimately obtain r where r: "r \<in> set es" "re_key r = key" "re_events r AND EPOLLIN \<noteq> 0" using p(2) g by (auto simp: pipe_reported_def)
  then show "es \<noteq> []" by auto
  have "\<forall>e \<in> set es. re_key e < next_dispatcher_key ss" using keys interest_iff [OF inv e] key_below_next [OF inv] by blast
  then show "\<exists>ss'. epoll_events h es ss = Inr ss' \<and> \<not> fWait ss'" using epoll_events_moves [OF inv h] key(1) r by blast
qed

text \<open>C24: no wake-up is lost. When \<open>WakeUp\<close> was called before a wait with \<open>epoll\<close>, or another thread calls it during a round, together with any other operations, then the round ends the wait, provided the
  kernel reports the pipe as readable: the loop returns true without waiting again, whatever else was reported and whatever the handlers did.\<close>

theorem wakeup_ends_wait:
  assumes "ss_reach k ss" "k + length (wr_others r) + 5 * n * length es < 2 ^ 64" "epoll_fd ss \<noteq> INVALID_SOCKET" "\<And>a. handlers_ok n (Some a) h" "pipe_ok pw"
    and woken: "wake_pending ss \<or> Other_wake \<in> set (wr_others r)"
    and others: "ss0 = do_call (Sys_epoll_wait (i32 tvWait)) (ss\<lparr>fWait := True\<rparr>)" "tvWait = (if cmsWait \<noteq> kForever then cmsWait else -1)"
      "others_ok pw (wr_others r) ss0" "others_exec pw (wr_others r) ss0 = Inr ss1"
    and kernel: "wr_answer r = Poll_ready es" "pipe_reported ss1 es" "\<forall>e \<in> set es. \<exists>fd ev. interest (calls ss1) fd = Some (ev, re_key e)"
  shows "\<exists>ss'. WaitEpoll pw h now cmsWait (r # rs) ss = Inr (Some True, ss')"
proof -
  have "ss_reach k ss0" by (rule waits [OF assms(1) _ others(1)]) simp
  then have i: "ss_inv None ss0" "unat (next_dispatcher_key ss0) \<le> k" using ss_reach_inv assms(2) by force+
  then have "unat (next_dispatcher_key ss0) + length (wr_others r) < 2 ^ 64" using assms(2) by simp
  then have m: "moves (length (wr_others r)) ss0 ss1" "wake_pending ss0 \<or> Other_wake \<in> set (wr_others r) \<longrightarrow> wake_pending ss1"
    using others_moves [where pw = pw, OF i(1) others(3) _ assms(5) [unfolded pipe_ok_def]] others(4) by auto
  have p: "wake_pending ss1" using woken m(2) by (auto simp: wake_pending_def others(1))
  have e: "epoll_fd ss1 \<noteq> INVALID_SOCKET" "ss_inv None ss1" "unat (next_dispatcher_key ss1) + 5 * n * length es < 2 ^ 64"
    using m(1) i(2) assms(2,3) by (auto simp: moves_def others(1))
  obtain ss2 where w: "es \<noteq> []" "epoll_events h es ss1 = Inr ss2" "\<not> fWait ss2" using wake_round [OF e(2,1) p kernel(2) assms(4) e(3) kernel(3)] by blast
  then obtain x xs where es: "es = x # xs" by (cases es) auto
  have stop: "epoll_loop pw h c t u rs ss2 = Inr (Some True, ss2)" for c t u using w(3) by (subst epoll_loop.simps) simp
  have "WaitEpoll pw h now cmsWait (r # rs) ss = epoll_loop pw h cmsWait tvWait (if cmsWait \<noteq> kForever then TimeAfter now cmsWait else -1) (r # rs) (ss\<lparr>fWait := True\<rparr>)"
    by (simp add: WaitEpoll_def Let_def others(2))
  also have "\<dots> = Inr (Some True, ss2)"
    using others(1,4) kernel(1) w(2) stop by (subst epoll_loop.simps) (auto simp: Let_def es)
  finally show ?thesis by blast
qed

section \<open>Concrete inputs\<close>

text \<open>A server with the pipe 4, 5 and \<open>epoll\<close> descriptor 3; a datagram socket at address 1 with descriptor 6; a handler that reads from it.\<close>

definition ex_server :: socket_server where
  "ex_server = \<lparr>epoll_fd = 3, next_dispatcher_key = 1, dispatcher_by_key = [0 \<mapsto> 0], key_by_dispatcher = [0 \<mapsto> 0], signal_wakeup = 0, fWait = False,
     disps = [0 \<mapsto> Sig \<lparr>sg_afd0 = 4, sg_afd1 = 5, sg_fSignaled = False, sg_pipe = []\<rparr>], calls = [Epoll_add 4 1 0], signals = [], made = (\<lambda>_. 0)\<rparr>"

definition ex_sock :: socket where
  "ex_sock = \<lparr>sk_s = 6, sk_udp = Some True, sk_family = 2, sk_error = 0, sk_state = CS_CLOSED, sk_resolver = None, sk_enabled_events = 3, sk_saved_enabled_events = -1\<rparr>"

definition ex_open :: socket_server where
  "ex_open = \<lparr>epoll_fd = 3, next_dispatcher_key = 2, dispatcher_by_key = [0 \<mapsto> 0, 1 \<mapsto> 1], key_by_dispatcher = [0 \<mapsto> 0, 1 \<mapsto> 1], signal_wakeup = 0, fWait = False,
     disps = [0 \<mapsto> Sig \<lparr>sg_afd0 = 4, sg_afd1 = 5, sg_fSignaled = False, sg_pipe = []\<rparr>, 1 \<mapsto> Sock ex_sock],
     calls = [Epoll_add 4 1 0, Sys_socket 2 2, Sys_nonblock 6, Epoll_add 6 5 1], signals = [], made = (\<lambda>_. 0)(1 := 1)\<rparr>"

lemmas de_defs = DE_READ_def DE_WRITE_def DE_CONNECT_def DE_CLOSE_def DE_ACCEPT_def EPOLLIN_def EPOLLOUT_def INVALID_SOCKET_def SOCK_DGRAM_def

lemma ex_server_reach: "ss_reach 1 ex_server"
  by (rule start [of 3 0 "(4, 5)"])
    (simp_all add: PhysicalSocketServer_new_def Add_def AddEpoll_def Let_def emplace_def do_call_def ex_server_def GetEpollEvents_def de_defs)

lemma ex_open_reach: "ss_reach 2 ex_open"
proof -
  have "sock_exec (Op_Create 1 2 2 (6, 0)) ex_server = Inr ex_open"
    by (simp add: CreateSocket_def PhysicalSocket_new_def Create_eq ex_server_def ex_open_def ex_sock_def created_def de_defs Add_def AddEpoll_def Let_def emplace_def
        GetEpollEvents_def put_sock_def more_calls_def do_call_def alloc_sock_def)
  moreover have "op_ok None (Op_Create 1 2 2 (6, 0)) ex_server" by (simp add: ex_server_def fresh_fd_def fd_of_def ran_def)
  ultimately have "ss_reach (1 + 1) ex_open" by (intro op [OF ex_server_reach])
  then show ?thesis by (simp add: numeral_2_eq_2)
qed

theorem epoll_interest_exact_witness:
  "interest (calls ex_open) 6 = Some (5, 1) \<and> dispatcher_by_key ex_open 1 = Some 1"
proof -
  have "disps ex_open 1 = Some (Sock ex_sock)" "GetDescriptor (Sock ex_sock) = 6" "dispatcher_by_key ex_open 1 = Some 1" by (simp_all add: ex_open_def ex_sock_def)
  moreover have "5 = GetEpollEvents (GetRequestedEvents (Sock ex_sock))" by (simp add: ex_sock_def GetEpollEvents_def de_defs)
  moreover have "epoll_fd ex_open \<noteq> INVALID_SOCKET" by (simp add: ex_open_def de_defs)
  ultimately show ?thesis using epoll_interest_exact [OF ex_open_reach, of 6 5 1] by fastforce
qed

definition ex_handler :: handlers where
  "ex_handler ss = (if opened ss 1 then [Op_Recv 1 100 (20, 0) None] else [])"

lemma ex_handler_ok: "handlers_ok 1 p ex_handler"
  by (simp add: handlers_ok_def ex_handler_def split: sum.split)

definition ex_event :: "u32 \<Rightarrow> 64 word \<Rightarrow> ready_event" where
  "ex_event ev key = \<lparr>re_events = ev, re_key = key, re_error = 0, re_peek = (1, 0)\<rparr>"

lemma ex_open_interest: "interest (calls ex_open) = [4 \<mapsto> (1, 0), 6 \<mapsto> (5, 1)]"
  by (simp add: ex_open_def interest_def)

theorem events_reach_their_sockets_witness:
  "\<exists>ss'. epoll_events ex_handler [ex_event 1 0, ex_event 1 1] ex_open = Inr ss' \<and> signals ss' \<noteq> [] \<and> (\<forall>sig \<in> set (signals ss'). sig_sock sig = 1)"
proof -
  have o: "epoll_fd ex_open \<noteq> INVALID_SOCKET" "signals ex_open = []" "EPOLLIN = 1" by (simp_all add: ex_open_def de_defs)
  have k: "\<forall>e \<in> set [ex_event 1 0, ex_event 1 1]. \<exists>fd ev. interest (calls ex_open) fd = Some (ev, re_key e)"
    by (auto simp: ex_open_interest ex_event_def intro: exI [of _ 4] exI [of _ 6])
  have first: "epoll_events ex_handler [ex_event 1 0] ex_open = Inr ex_open"
    by (simp add: ex_event_def ex_open_def ProcessEvents_def OnEvent_def Signaler_OnEvent_def IsDescriptorClosed_def EPOLLPRI_def Let_def de_defs)
  have "live ex_open 1" "dispatcher_by_key ex_open 1 = Some 1" "(1 :: u32) AND (EPOLLIN OR EPOLLOUT) \<noteq> 0" by (simp_all add: live_def ex_open_def de_defs)
  then show ?thesis
    using events_reach_their_sockets [OF ex_open_reach _ o(1) ex_handler_ok k, of "[ex_event 1 0]" "ex_event 1 1" "[]"] o(2) first
    by (auto simp: ex_event_def simp del: epoll_events.simps(2)) 
qed

definition ex_round :: wait_round where
  "ex_round = \<lparr>wr_others = [Other_wake], wr_answer = Poll_ready [ex_event 1 1, ex_event 1 0], wr_now = 0\<rparr>"

theorem wakeup_ends_wait_witness:
  "\<exists>ss'. WaitEpoll (\<lambda>bs. length bs < 65536) ex_handler 0 kForever [ex_round] ex_open = Inr (Some True, ss')"
proof -
  let ?ss0 = "do_call (Sys_epoll_wait (i32 (-1))) (ex_open\<lparr>fWait := True\<rparr>)"
  let ?g = "Sig \<lparr>sg_afd0 = 4, sg_afd1 = 5, sg_fSignaled = True, sg_pipe = [0]\<rparr>"
  let ?ss1 = "?ss0\<lparr>disps := (disps ?ss0)(0 \<mapsto> ?g)\<rparr>"
  have w: "WakeUp (\<lambda>bs. length bs < 65536) ?ss0 = Inr ?ss1" by (simp add: WakeUp_def Signal_def ex_open_def)
  have i: "interest (calls ?ss1) = [4 \<mapsto> (1, 0), 6 \<mapsto> (5, 1)]" using ex_open_interest by simp
  have "pipe_reported ?ss1 [ex_event 1 1, ex_event 1 0]" unfolding pipe_reported_def i
    by (simp add: ex_event_def EPOLLIN_def ex_open_def)
  moreover have "\<forall>e \<in> set [ex_event 1 1, ex_event 1 0]. \<exists>fd ev. interest (calls ?ss1) fd = Some (ev, re_key e)" unfolding i
    by (auto simp: ex_event_def intro: exI [of _ 4] exI [of _ 6])
  moreover have "epoll_fd ex_open \<noteq> INVALID_SOCKET" by (simp add: ex_open_def de_defs)
  moreover have "others_exec (\<lambda>bs. length bs < 65536) (wr_others ex_round) ?ss0 = Inr ?ss1" "others_ok (\<lambda>bs. length bs < 65536) (wr_others ex_round) ?ss0"
    using w by (simp_all add: ex_round_def)
  ultimately show ?thesis
    using wakeup_ends_wait [OF ex_open_reach, of ex_round 1 "[ex_event 1 1, ex_event 1 0]" ex_handler "\<lambda>bs. length bs < 65536" ?ss0 "-1" kForever ?ss1 0 "[]"] ex_handler_ok
    by (simp add: ex_round_def pipe_ok_def)
qed

section \<open>Surprises\<close>

text \<open>
  A blocked \<open>Recv\<close> on a stream that asks for a timestamp: when the \<open>ioctl\<close> for the timestamp fails, its error replaces that of \<open>recv\<close>, and the interest in reading, which
  the event before disabled, is not restored. Without the timestamp it is.
\<close>

lemma timestamp_hides_blocking:
  assumes "disps ss a = Some (Sock s)" "sk_udp s = Some False" "st_ret t \<noteq> 0" "\<not> IsBlockingError (st_errno t)"
  shows "\<exists>ss' s'. PhysicalSocket_Recv a len (-1, EAGAIN) (Some t) ss = Inr ((-1, Some (-1)), ss') \<and> disps ss' a = Some (Sock s') \<and> sk_enabled_events s' = sk_enabled_events s"
  using assms by (simp add: PhysicalSocket_Recv_def Let_def errno_after_def GetSocketRecvTimestamp_def)

text \<open>A name that does not resolve leaves a socket without descriptor connecting: \<open>Close\<close> does nothing, and every later \<open>Connect\<close> is refused.\<close>

lemma failed_resolution_blocks_connect:
  assumes "disps ss a = Some (Sock s)" "sk_s s = INVALID_SOCKET" "sk_resolver s = Some q" "sk_state s = CS_CONNECTING" "error \<noteq> 0"
  shows "\<exists>ss' s'. OnResolveResult (\<lambda>_. []) a q error address create_ans ans close_ans ss = Inr ss' \<and> disps ss' a = Some (Sock s') \<and> sk_state s' = CS_CONNECTING \<and>
    (\<exists>ss''. PhysicalSocket_Connect a addr r create_ans ans ss' = Inr (SOCKET_ERROR, ss''))"
  using assms by (simp add: OnResolveResult_def SocketDispatcher_Close_def PhysicalSocket_SetError_def PhysicalSocket_Connect_def fire_def)

text \<open>A handler that deletes the socket whose signal it handles.\<close>

lemma delete_in_own_handler:
  assumes inv: "ss_inv (Some a) ss" and s: "disps ss a = Some (Sock s)"
  shows "res_bind (fire (\<lambda>_. [Op_Delete a ans]) sig ss) (FinishBatchedEventUpdates a) = Inl Use_after_free"
proof -
  have i: "ss_inv (Some a) (ss\<lparr>signals := signals ss @ [sig]\<rparr>)" using inv by simp
  obtain ss' where "SocketDispatcher_delete a ans (ss\<lparr>signals := signals ss @ [sig]\<rparr>) = Inr ss'" using delete_good [OF i, of a s ans] s by (auto simp: good_def)
  moreover then have "disps ss' a = None" by (auto simp: SocketDispatcher_delete_def res_bind_Inr_iff)
  ultimately show ?thesis by (simp add: fire_def Let_def FinishBatchedEventUpdates_def with_sock_def)
qed

text \<open>The loop with \<open>select\<close> does not look at the time: while every round has a ready descriptor it goes on, whatever the clock says. A wait of more than 2147483 milliseconds overflows.\<close>

lemma select_ignores_deadline:
  assumes "fWait ss" "select_sets process_io (sel_order r) ss = Inr (keys, fdmax, rd, wr)" "sel_answer r = Select_ready (Some (rd', wr'))"
    and "others_exec pw (sel_others r) (do_call (Sys_select (fdmax + 1) rd wr (Some t)) ss) = Inr ss1" "select_events h r keys (rd \<inter> rd') (wr \<inter> wr') ss1 = Inr ss2" "stop_us \<le> sel_now r"
  shows "select_loop pw h process_io (Some t) stop_us (r # rs) ss = select_loop pw h process_io (Some (0, 0)) stop_us rs ss2"
  using assms by (subst select_loop.simps) (simp add: Let_def)

lemma select_wait_overflows: "2147484 \<le> cmsWait \<Longrightarrow> WaitSelect pw h now cmsWait process_io rounds ss = Inl Signed_overflow"
  by (simp add: WaitSelect_def in_i32_def kForever_def)

end
