(* ===== verification/Spec2Isabelle.thy ===== *)
theory Spec2Isabelle
  imports Server_Main Lfq_Concurrent Zmalloc Sds_Text Base64 Cow_Buffer Byte_Buffer Buffer_Queue String_Encode
    Thread_Manager Logging Event Socket_Server
begin

text \<open>
  Verification of the XRTC signalling and media server under \<open>src/xrtcserver\<close>: the server itself
  (\<open>rtcserver/src\<close>, abbreviated S below) and the part of its base library (\<open>rtcbase/src/rtc_base\<close>, abbreviated B) that
  holds data structures and codecs.

  \<^bold>\<open>The program.\<close> The process reads its configuration, starts a log sink and two servers, and waits for a signal
  (\<open>S/main.cpp\<close>). The signalling server accepts TCP connections in one thread and deals them out to signalling workers, each a thread with an event
  loop. A signalling worker reads framed requests (a 36-byte header and a JSON body) into a growable string, turns a push request into a message
  and sends it to the RTC server. The RTC server is a thread that hands each message to the media worker its stream name hashes to. The
  media worker answers with an offer, which goes back to the signalling worker, is put behind the request's header and is written to the
  connection. Threads talk through queues, a lock-free one for one producer and one consumer and a mutex-protected one, and wake each other by writing numbers to pipes.

  \<^bold>\<open>Conventions.\<close> Code that can fail returns \<open>'a res\<close>, a value or a \<open>fault\<close> (\<open>Prelude\<close>): a failed assertion, an access outside an
  allocation, a null or dangling pointer, an unset variable, a signed overflow, an exhausted allocator, an exception that nothing catches. A theorem whose
  conclusion is \<open>Inr\<close> says that none of these happens. Objects that are shared or freed live in explicit heaps. Machine integers are words, or integers with
  \<open>i32\<close> and \<open>usz\<close> at every conversion; the target is 64-bit little-endian Linux with signed \<open>char\<close>. Libraries outside the repository are arguments: libev
  (record \<open>libev\<close>, its documented behaviour the predicate \<open>libev_ok\<close>), jsoncpp (record \<open>jsoncpp\<close>), yaml-cpp (the loading functions),
  the allocator, and the answers of the kernel to system calls and pipe writes. Names ending in \<open>_witness\<close> apply a theorem to a concrete input.

  \<^bold>\<open>Interfaces.\<close> Three contracts are locales. \<open>fifo_queue\<close> (\<open>Fifo_Spec\<close>) is the contract of a message queue; \<open>Lock_Free_Queue\<close> and both queues of \<open>Mailbox\<close>
  interpret it. \<open>data_refinement\<close> (\<open>Data_Refinement\<close>) is the contract of a state that implements an abstract value: one operation at a time is proved to succeed, to keep
  the invariant and to compute the abstract operation, and whole runs follow; \<open>Sds_Text\<close>, \<open>Buffer\<close>, \<open>Cow_Buffer\<close>, \<open>Buffer_Queue\<close> interpret it.
  \<open>key_order\<close> (\<open>Ip_Address\<close>) is the contract of a key type of ordered containers, an equality and a comparison that agree with a total order; addresses and socket addresses interpret it.

  \<^bold>\<open>The server.\<close>
  \<^item> \<open>Lock_Free_Queue\<close> (\<open>S/base/Lock_Free_Queue.hpp\<close>): the linked queue on a heap of nodes; the whole life of a queue refines a list, returns every node
    and never touches a freed one. \<open>Lfq_Concurrent\<close> has the same code statement by statement for a producer and a consumer; under every interleaving the
    consumer receives a prefix of what was sent and no node is used after it was freed.
  \<^item> \<open>Event_Loop\<close> (\<open>S/base/event_loop.*\<close>): the wrapper of libev, its watchers, timers and masks; starting and stopping the interest in writing changes exactly that bit.
  \<^item> \<open>Socket\<close> (\<open>S/base/socket.*\<close>): every helper, with its error paths; which descriptors are open after a failure, and bounds of the peer address.
  \<^item> \<open>Xhead\<close> (\<open>S/base/xhead.hpp\<close>, \<open>S/xrtcserver_def.hpp\<close>): the wire header, its byte layout and the message record.
  \<^item> \<open>Mailbox\<close>: the queue and pipe a worker is notified through (\<open>notify\<close>, \<open>push_msg\<close>, \<open>pop_msg\<close>, \<open>send_rtc_msg\<close> of the servers and workers), with the
    interleaved senders as a step relation; no wake-up is lost.
  \<^item> \<open>Tcp_Connection\<close>, \<open>Signaling_Worker\<close>, \<open>Worker_Events\<close> (\<open>S/server/tcp_connection.*\<close>, \<open>S/server/signaling_worker.*\<close>): reading and framing requests however TCP cuts them,
    the connection table and its heap, replies, partial writes, time-outs. Every run of events keeps the worker's invariant, and the only fault it can end with
    is an exception of the JSON library on a request's body.
    The loop of \<open>process_query_buffer\<close> takes fuel: three rounds are enough for every input that does not carry 65535 bytes beyond its body, and for the others no fuel is (see the findings).
    jsoncpp's \<open>parse\<close> may throw, on a deeply nested body for example; nobody catches that, and the properties say what happens in both cases.
  \<^item> \<open>Signaling_Server\<close>, \<open>Rtc_Server\<close>, \<open>Rtc_Worker\<close> (\<open>S/server\<close>): configuration, start, dealing out connections in turn, dispatch by stream name, answering, quitting.
  \<^item> \<open>Log\<close> (\<open>S/base/log.*\<close>): the two queues and the writing thread; every accepted message is written once, in order, behind what its file held; a file that has disappeared is made anew.
  \<^item> \<open>Server_Main\<close> (\<open>S/main.cpp\<close>, \<open>S/base/conf.*\<close>): the order of the start, exactly which failures end it, the signal handler and what it leads to.
  \<^item> This theory: one push request through all four threads.

  \<^bold>\<open>The base library.\<close>
  \<^item> \<open>Sds\<close>, \<open>Sds_Text\<close> (\<open>B/sds.*\<close>): the growable strings as header and block; runs refine byte lists, quoting and argument splitting are inverse, comparison is lexicographic.
  \<^item> \<open>Zmalloc\<close> (\<open>B/zmalloc.cc\<close>): the allocator that counts; the counter is the sum of what is allocated. \<open>Crc32\<close> (\<open>B/crc32.*\<close>): the table against the division bit by bit.
    \<open>Slice\<close> (\<open>B/slice.h\<close>).
  \<^item> \<open>Buffer\<close> (\<open>B/buffer.h\<close>), \<open>Ref_Count\<close> (\<open>B/ref_counter.h\<close>, \<open>B/ref_counted_object.h\<close>, \<open>api/scoped_refptr.h\<close>), \<open>Cow_Buffer\<close> (\<open>B/copy_on_write_buffer.*\<close>): the owning
    buffer with clearing on release, exact reference counts, and sharing that no program can observe.
  \<^item> \<open>Byte_Buffer\<close> (\<open>B/byte_order.h\<close>, \<open>B/byte_buffer.*\<close>): network byte order and variable length integers. \<open>Buffer_Queue\<close> (\<open>B/buffer_queue.*\<close>): the bounded packet queue.
    \<open>Base64\<close> (\<open>B/third_party/base64\<close>) and \<open>String_Encode\<close> (\<open>B/string_encode.cc\<close>): codecs with their inverses and what they refuse.
  \<^item> \<open>String_Builder\<close> (\<open>B/strings/string_builder.*\<close>): text put together in fixed memory, always terminated and never outside it.
  \<^item> \<open>Ip_Address\<close> (\<open>B/ip_address.*\<close>), \<open>Socket_Address\<close> (\<open>B/socket_address.*\<close>): addresses of both families as the bytes of the union, their categories, order, hash, truncation and masks,
    the mapping between the families, text, and the structures of the operating system as bytes. \<open>inet_pton\<close> and \<open>inet_ntop\<close> are arguments.
  \<^item> \<open>Logging\<close> (\<open>B/logging.*\<close>): the chain of registered sinks on a heap, severities, the text of a message and its delivery. The loops over the chain are \<open>partial_function\<close>s that return on every
    chain the operations make and never return when a sink is registered twice.
  \<^item> \<open>Message_Queue\<close> (\<open>B/thread.*\<close>, \<open>B/thread_message.h\<close>): the queue of \<open>rtc::Thread\<close> with immediate, delayed and peeked messages and the ownership of their data; what other threads do while
    \<open>Get\<close> waits is an argument, one record for each round of waiting. Messages come in order, waits keep to the time-out, and the data of every message handed over is in the queue, delivered or deleted, once.
  \<^item> \<open>Thread_Manager\<close> (\<open>B/thread.*\<close>): the list of live threads and the graph of sends. The search for a cycle is a \<open>partial_function\<close>, proved to end on the graphs the manager keeps; threads that
    send to each other cannot deadlock in a build with checks; \<open>Send\<close> takes the kind of build as an argument, and without checks, as the repository builds the library, they can.
  \<^item> \<open>Time_Utils\<close> (\<open>B/time_utils.*\<close>): clocks, the unwrapping of 32-bit timestamps, dates against the calendar. \<open>Event\<close> (\<open>B/event.*\<close>): the flag threads wait for, with one waiter in detail and
    any number of waiters as a step relation; a signal of an event that resets itself releases at most one of them, and the first that wakes.
  \<^item> \<open>Physical_Socket\<close>, \<open>Socket_Invariant\<close>, \<open>Socket_Server\<close> (\<open>B/physical_socket_server.*\<close>, \<open>B/socket.h\<close>): sockets of the operating system on a heap, the tables of the server, batches of changes of the events a socket
    waits for, and the loops that wait with \<open>epoll\<close>, \<open>poll\<close> and \<open>select\<close>. System calls are a list that the interest set of the kernel is computed from; it always is the one the sockets ask for, events reach the
    socket they were reported for, and no wake-up is lost. What handlers of signals do is an argument, restricted by \<open>handlers_ok\<close>; the count in \<open>ss_reach\<close> bounds the number of operations, so that the 64-bit keys do not wrap around.
    \<open>NullSocketServer\<close> (\<open>B/null_socket_server.cc\<close>) is in \<open>Event\<close>.

  \<^bold>\<open>Not modelled.\<close> Waiting for threads to end and the memory model below sequential consistency; the echo of log messages; the wrappers of OpenSSL, of
  operating system threads, the resolver, tracing, the formatting of floating point numbers: the server does not call
  them, and most are thin layers over libraries whose sources are not here. Reference counters are modelled on one thread.
\<close>

section \<open>One request through the whole server\<close>

text \<open>
  The four threads a push request passes: the signalling worker that reads it, the dispatcher, the media worker of its stream,
  and the signalling worker again. Each handler is run once, on what the one before it left in the queue and the pipe.
\<close>

abbreviation idle_mailbox :: mailbox where
  "idle_mailbox \<equiv> \<lparr>mb_q = [], mb_pipe = []\<rparr>"

text \<open>The message a push request becomes.\<close>

definition push_msg_of :: "'l signaling_worker \<Rightarrow> nat \<Rightarrow> tcp_connection \<Rightarrow> 64 word \<Rightarrow> byte list \<Rightarrow> int \<Rightarrow> int \<Rightarrow> u32 \<Rightarrow> rtc_msg" where
  "push_msg_of w addr conn uid sn au vi log_id =
     RtcMsg_new\<lparr>m_cmdno := CMDNO_PUSH, m_uid := uid, m_stream_name := sn, m_audio := au, m_video := vi, m_log_id := log_id,
       m_worker := Some (w_this w), m_conn := Some addr, m_fd := c_fd conn\<rparr>"

lemma process_push_sends:
  assumes "pw = (\<lambda>_. Ok ())"
    and "process_push J pw (w_this w) addr conn CMDNO_PUSH jroot log_id (Some idle_mailbox) = Inr (0, Some mb)"
  shows "\<exists>uid sn au vi. js_field J (js_asString J) jroot ''streamName'' = Some sn \<and> mb = \<lparr>mb_q = [push_msg_of w addr conn uid sn au vi log_id], mb_pipe = [RtcServer_RTC_MSG]\<rparr>"
  using assms
  by (auto simp: process_push_def push_msg_of_def RtcServer_send_rtc_msg_def RtcServer_notify_def RtcServer_push_msg_def
      notify_pipe_def Let_def split: option.splits)

definition rs_idle :: "nat \<Rightarrow> 'l rtc_server \<Rightarrow> bool" where
  "rs_idle a rs \<longleftrightarrow> rs_ready rs \<and>
     (\<forall>rw \<in> set (rs_workers rs). rw_holds rw [] \<and> rw_pipe rw = [] \<and> lfq_fresh a (rw_q rw))"

lemma server_dispatches:
  assumes "rs_idle a rs" "pw = (\<lambda>_. Ok ())"
    and i: "i = unat (crc32_ref (m_stream_name msg)) mod length (rs_workers rs)"
  shows "\<exists>rs' rw. rtc_server_recv_notify L pw a Read_int (rs\<lparr>rs_mb := \<lparr>mb_q = [msg], mb_pipe = [RtcServer_RTC_MSG]\<rparr>\<rparr>) = Inr rs' \<and>
    i < length (rs_workers rs) \<and> rs_workers rs' = (rs_workers rs)[i := rw] \<and>
    rw_holds rw [msg] \<and> rw_pipe rw = [RtcWorker_RTC_MSG]"
proof -
  let ?rs = "rs\<lparr>rs_mb := \<lparr>mb_q = [msg], mb_pipe = []\<rparr>\<rparr>"
  let ?i = "worker_index (length (rs_workers rs)) (m_stream_name msg)"
  have ready: "rs_ready rs" "rs_ready ?rs" using assms(1) by (simp_all add: rs_idle_def rs_ready_def)
  have "?i = i" by (simp add: i worker_index_def)
  have i: "?i < length (rs_workers rs)" using get_worker_ready(2) [OF ready(1)] .
  have idle: "rw_holds (rs_workers rs ! ?i) []" "rw_pipe (rs_workers rs ! ?i) = []" "lfq_fresh a (rw_q (rs_workers rs ! ?i))"
    using assms(1) nth_mem [OF i] by (simp_all add: rs_idle_def)
  obtain rw' where rw': "rs_process_rtc_msg pw a ?rs =
      Inr (?rs\<lparr>rs_mb := (rs_mb ?rs)\<lparr>mb_q := []\<rparr>, rs_workers := (rs_workers ?rs)[?i := rw']\<rparr>)"
    "rw_holds rw' [msg]" "rw_pipe rw' = [RtcWorker_RTC_MSG]"
    using rs_process_rtc_msg_ok [OF ready(2), of msg "[]" ?i "[]" a pw] idle assms(2) by (auto simp: notify_pipe_def)
  then show ?thesis using i \<open>?i = i\<close>
    by (auto simp: rtc_server_recv_notify_def recv_lax_def rs_process_notify_def RtcServer_RTC_MSG_def RtcServer_QUIT_def)
qed

lemma media_worker_answers:
  assumes "rw_holds rw [msg]" "rw_pipe rw = [RtcWorker_RTC_MSG]" "pw = (\<lambda>_. Ok ())"
    and "m_cmdno msg = CMDNO_PUSH" "m_worker msg = Some a" "sw a = Some idle_mailbox"
  shows "\<exists>rw'. rtc_worker_recv_notify L pw Read_int rw sw =
      Inr (rw', sw(a \<mapsto> \<lparr>mb_q = [msg\<lparr>m_sdp := offer\<rparr>], mb_pipe = [SignalingWorker_RTC_MSG]\<rparr>)) \<and> rw_holds rw' []"
proof -
  have "rw_holds (rw\<lparr>rw_pipe := []\<rparr>) [msg]" using assms(1) by (simp add: rw_holds_def)
  from rw_process_rtc_msg_push [where sw = sw, OF this assms(4-6), of pw] assms(2,3) show ?thesis
    by (auto simp: rtc_worker_recv_notify_def recv_strict_def rw_process_notify_def RtcWorker_RTC_MSG_def RtcWorker_QUIT_def
        SignalingWorker_send_rtc_msg_def SignalingWorker_notify_def SignalingWorker_push_msg_def notify_pipe_def)
qed

lemma signaling_worker_replies:
  assumes ok: "worker_ok w" "libev_ok (e_L E)" "mem_ok (e_mem E)" "offer_safe E msg w"
    and msg: "m_cmdno msg = CMDNO_PUSH" "addressee msg w = Some (a, c)"
  shows "\<exists>w' c'. signaling_worker_recv_notify E fresh peer Read_int
      (w\<lparr>w_mb := \<lparr>mb_q = [msg], mb_pipe = [SignalingWorker_RTC_MSG]\<rparr>\<rparr>) = Inr w' \<and> worker_ok w' \<and>
    w_heap w' = (w_heap w)(a \<mapsto> c') \<and>
    pending (c_reply_list c') (nat (c_cur_resp_pos c')) = pending (c_reply_list c) (nat (c_cur_resp_pos c)) @
      xhead_bytes ((query_head c)\<lparr>xh_body_len := word_of_nat (length (response_json E msg))\<rparr>) @ response_json E msg"
proof -
  let ?w = "w\<lparr>w_mb := idle_mailbox\<rparr>"
  have "worker_ok ?w" "offer_safe E msg ?w" "addressee msg ?w = Some (a, c)" using ok(1,4) msg(2) by simp_all
  from response_addressed [OF this(1) ok(2,3) this(2,3)] msg(1) show ?thesis
    by (auto simp: signaling_worker_recv_notify_def recv_strict_def w_process_notify_def SignalingWorker_RTC_MSG_def
        SignalingWorker_NEW_CONN_def SignalingWorker_QUIT_def w_process_rtc_msg_def SignalingWorker_pop_msg_def)
qed

lemma push_addressee:
  assumes "worker_ok w" "w_heap w addr = Some conn"
  shows "addressee ((push_msg_of w addr conn uid sn au vi log_id)\<lparr>m_sdp := sdp\<rparr>) w = Some (addr, conn)"
proof -
  have "0 \<le> c_fd conn" "nat (c_fd conn) < length (w_conns w)" "w_conns w ! nat (c_fd conn) = Some addr"
    using worker_okD(4-6) [OF assms] by simp_all
  then have "conn_at w (c_fd conn) = Some addr" by (auto simp: conn_at_def)
  with assms(2) show ?thesis by (simp add: addressee_def push_msg_of_def RtcMsg_new_def)
qed

lemma push_response:
  "response_json E ((push_msg_of w addr conn uid sn au vi log_id)\<lparr>m_sdp := sdp\<rparr>) = response_json E (RtcMsg_new\<lparr>m_sdp := sdp\<rparr>)"
  by (simp add: response_json_def response_fields_def push_msg_of_def RtcMsg_new_def)

text \<open>C4: a push request that was read completely and accepted is answered. In a server whose queues are empty and whose pipes take every
  notification, and with a response text of at most 4095 bytes without a NUL, running the handlers of the dispatcher, of the media
  worker whose index is the CRC-32 of the request's stream name modulo the number of workers, and of the signalling worker once each leaves
  the answer, the request's own header with the new length and the response text with the offer, at the end of what the
  requesting connection has to send. No other media worker and no other connection changes.\<close>

theorem push_roundtrip:
  assumes "worker_ok w" "libev_ok (e_L E)" "mem_ok (e_mem E)" "e_pw E = (\<lambda>_. Ok ())"
    and "w_mb w = idle_mailbox" "w_heap w addr = Some conn" "36 \<le> length (sds_val (c_querybuf conn))"
    and "json = response_json E (RtcMsg_new\<lparr>m_sdp := offer\<rparr>)" "length json \<le> 4095" "0 \<notin> set json"
    and "rs_idle a rs"
    and "process_push (e_json E) (e_pw E) (w_this w) addr conn CMDNO_PUSH jroot log_id (Some idle_mailbox) = Inr (0, Some mb)"
  shows "\<exists>sn i rs' rw rw' sw' w' conn'.
    js_field (e_json E) (js_asString (e_json E)) jroot ''streamName'' = Some sn \<and>
    i = unat (crc32_ref sn) mod length (rs_workers rs) \<and> i < length (rs_workers rs) \<and>
    rtc_server_recv_notify L (e_pw E) a Read_int (rs\<lparr>rs_mb := mb\<rparr>) = Inr rs' \<and> rs_workers rs' = (rs_workers rs)[i := rw] \<and>
    rtc_worker_recv_notify L (e_pw E) Read_int (rs_workers rs' ! i) [w_this w \<mapsto> w_mb w] = Inr (rw', sw') \<and>
    signaling_worker_recv_notify E fresh peer Read_int (w\<lparr>w_mb := the (sw' (w_this w))\<rparr>) = Inr w' \<and> worker_ok w' \<and>
    w_heap w' = (w_heap w)(addr \<mapsto> conn') \<and>
    pending (c_reply_list conn') (nat (c_cur_resp_pos conn')) = pending (c_reply_list conn) (nat (c_cur_resp_pos conn)) @
      xhead_bytes ((query_head conn)\<lparr>xh_body_len := word_of_nat (length json)\<rparr>) @ json"
proof -
  obtain uid sn au vi where sn: "js_field (e_json E) (js_asString (e_json E)) jroot ''streamName'' = Some sn"
    and mb: "mb = \<lparr>mb_q = [push_msg_of w addr conn uid sn au vi log_id], mb_pipe = [RtcServer_RTC_MSG]\<rparr>"
    using process_push_sends [OF assms(4,12)] by blast
  let ?m = "push_msg_of w addr conn uid sn au vi log_id"
  let ?r = "?m\<lparr>m_sdp := offer\<rparr>" and ?i = "unat (crc32_ref sn) mod length (rs_workers rs)"
  have m: "m_cmdno ?m = CMDNO_PUSH" "m_worker ?m = Some (w_this w)" "m_cmdno ?r = CMDNO_PUSH"
    by (simp_all add: push_msg_of_def)
  have "?i = unat (crc32_ref (m_stream_name ?m)) mod length (rs_workers rs)" by (simp add: push_msg_of_def)
  from server_dispatches [where L = L and msg = ?m, OF assms(11,4) this] obtain rs' rw where
    rs': "rtc_server_recv_notify L (e_pw E) a Read_int (rs\<lparr>rs_mb := mb\<rparr>) = Inr rs'"
    "?i < length (rs_workers rs)" "rs_workers rs' = (rs_workers rs)[?i := rw]"
    and rw: "rw_holds rw [?m]" "rw_pipe rw = [RtcWorker_RTC_MSG]"
    unfolding mb by blast
  have at: "rs_workers rs' ! ?i = rw" using rs'(2,3) by simp
  obtain rw' where rw': "rtc_worker_recv_notify L (e_pw E) Read_int (rs_workers rs' ! ?i) [w_this w \<mapsto> w_mb w] =
      Inr (rw', [w_this w \<mapsto> w_mb w](w_this w \<mapsto> \<lparr>mb_q = [?r], mb_pipe = [SignalingWorker_RTC_MSG]\<rparr>))"
    using media_worker_answers [where sw = "[w_this w \<mapsto> w_mb w]", OF rw assms(4) m(1,2)] assms(5) unfolding at by auto
  have a: "addressee ?r w = Some (addr, conn)" by (rule push_addressee [OF assms(1,6)])
  have j: "response_json E ?r = json" using push_response assms(8) by simp
  have "offer_safe E ?r w" using assms(7,9,10) a by (simp add: offer_safe_def j)
  from signaling_worker_replies [OF assms(1-3) this m(3) a, of fresh peer] j obtain w' conn' where
    w': "signaling_worker_recv_notify E fresh peer Read_int (w\<lparr>w_mb := \<lparr>mb_q = [?r], mb_pipe = [SignalingWorker_RTC_MSG]\<rparr>\<rparr>) = Inr w'"
    "worker_ok w'" "w_heap w' = (w_heap w)(addr \<mapsto> conn')"
    "pending (c_reply_list conn') (nat (c_cur_resp_pos conn')) = pending (c_reply_list conn) (nat (c_cur_resp_pos conn)) @
      xhead_bytes ((query_head conn)\<lparr>xh_body_len := word_of_nat (length json)\<rparr>) @ json"
    by auto
  show ?thesis
    by (rule exI [of _ sn], rule exI [of _ ?i]) (use sn rs' rw' w' in fastforce)
qed

lemma push_roundtrip_witness:
  "\<exists>mb rs' rw' sw' w' conn'.
    process_push ex_json (\<lambda>_. Ok ()) 0 5 (ex_served []) CMDNO_PUSH [120] 77 (Some idle_mailbox) = Inr (0, Some mb) \<and>
    rtc_server_recv_notify ex_libev (\<lambda>_. Ok ()) 1 Read_int ((ex_rtc_server [])\<lparr>rs_mb := mb\<rparr>) = Inr rs' \<and>
    rtc_worker_recv_notify ex_libev (\<lambda>_. Ok ()) Read_int (rs_workers rs' ! (unat (crc32_ref [120]) mod 2)) [0 \<mapsto> idle_mailbox] = Inr (rw', sw') \<and>
    signaling_worker_recv_notify ex_env 9 (Fail 1) Read_int ((ex_worker [])\<lparr>w_mb := the (sw' 0)\<rparr>) = Inr w' \<and>
    w_heap w' = [5 \<mapsto> conn'] \<and>
    pending (c_reply_list conn') (nat (c_cur_resp_pos conn')) = xhead_bytes (ex_head\<lparr>xh_body_len := 2\<rparr>) @ [123, 125]"
proof -
  let ?w = "ex_worker []" and ?c = "ex_served []" and ?rs = "ex_rtc_server []"
  let ?mb = "\<lparr>mb_q = [push_msg_of ?w 5 ?c 7 [120] 1 1 77], mb_pipe = [RtcServer_RTC_MSG]\<rparr>"
  have w: "worker_ok ?w" "w_this ?w = 0" "w_mb ?w = idle_mailbox" "w_heap ?w = [5 \<mapsto> ?c]"
    by (rule ex_worker_ok) (simp_all add: replies_ok_def ex_worker_def)
  have E: "libev_ok (e_L ex_env)" "mem_ok (e_mem ex_env)" "e_pw ex_env = (\<lambda>_. Ok ())" "e_json ex_env = ex_json"
    using ex_env_ok by (simp_all add: env_ok_def ex_env_def)
  have j: "response_json ex_env (RtcMsg_new\<lparr>m_sdp := offer\<rparr>) = [123, 125]" by (simp add: response_json_def ex_env_def ex_json_def)
  have q: "c_querybuf ?c = c_querybuf (ex_conn [104, 101, 108, 108, 111])" by (simp add: ex_served_def)
  have len: "36 \<le> length (sds_val (c_querybuf ?c))" and h: "query_head ?c = ex_head"
    using ex_conn_facts(2,3) [of "[104, 101, 108, 108, 111]"] by (simp_all add: query_head_def q)
  have p: "process_push ex_json (\<lambda>_. Ok ()) (w_this ?w) 5 ?c CMDNO_PUSH [120] 77 (Some idle_mailbox) = Inr (0, Some ?mb)"
    by (simp add: process_push_def js_field_def ex_json_def push_msg_of_def RtcServer_send_rtc_msg_def RtcServer_notify_def
        RtcServer_push_msg_def notify_pipe_def)
  have idle: "rs_idle 1 ?rs"
    using ex_rtc_server_facts [where msgs = "[]"] by (auto simp: rs_idle_def in_set_conv_nth)
  have "pending (c_reply_list ?c) (nat (c_cur_resp_pos ?c)) = []" by (simp add: pending_def ex_served_def)
  moreover have "js_field ex_json (js_asString ex_json) [120] ''streamName'' = Some [120]" "length (rs_workers ?rs) = 2"
    using ex_rtc_server_facts(2) by (simp_all add: js_field_def ex_json_def)
  ultimately show ?thesis
    using push_roundtrip [where w = ?w and E = ex_env and addr = 5 and conn = ?c and json = "[123, 125]" and rs = ?rs and a = 1 and
      jroot = "[120]" and log_id = 77 and mb = ?mb and L = ex_libev and fresh = 9 and peer = "Fail 1",
      OF w(1) E(1-3) w(3) _ len j [symmetric] _ _ idle] p w E h by fastforce
qed

end
